(* ===== verification/Flint_Prelude.thy ===== *)
theory Flint_Prelude
  imports Main "HOL-Library.Word"
begin

text \<open>
  Shared vocabulary of the FlintDB development: the integer types of
  \<open>src/src/common/config.h\<close>, the exceptions the C++ code throws, the state-and-exception
  operations the stateful components are written in, and the byte-buffer primitives
  (\<open>memcpy\<close> reads and writes of fixed-width integers at an offset) with the lemmas every
  on-disk format of the engine rests on.
\<close>

section \<open>Integer and identifier types\<close>

type_synonym byte = "8 word"
type_synonym uint16 = "16 word"
type_synonym uint32 = "32 word"
type_synonym uint64 = "64 word"
type_synonym int64 = "64 word"

type_synonym PageId = "32 word"
type_synonym SlotId = "16 word"
type_synonym ObjectId = "32 word"
type_synonym TxnId = "64 word"
type_synonym Lsn = "64 word"
type_synonym thread_id = nat

definition INVALID_PAGE_ID :: PageId where
  "INVALID_PAGE_ID = - 1"

definition INVALID_OBJECT_ID :: ObjectId where
  "INVALID_OBJECT_ID = - 1"

abbreviation (input) PAGE_SIZE :: nat where
  "PAGE_SIZE \<equiv> 4096"

datatype PageType = kInvalid | kHeap | kBTreeLeaf | kBTreeInternal | kBTreeHeader

fun page_type_tag :: "PageType \<Rightarrow> uint16" where
  "page_type_tag kInvalid = 0"
| "page_type_tag kHeap = 1"
| "page_type_tag kBTreeLeaf = 2"
| "page_type_tag kBTreeInternal = 3"
| "page_type_tag kBTreeHeader = 4"

record RID =
  rid_page_id :: PageId
  rid_slot_id :: SlotId

text \<open>
  A page address qualified by its object (\<open>struct PageKey\<close> of \<open>lock_manager.h\<close>), ordered by
  \<open>operator<\<close>: object first, then page.
\<close>

datatype PageKey = PageKey (key_object: ObjectId) (key_page: PageId)

definition PageKey_less :: "PageKey \<Rightarrow> PageKey \<Rightarrow> bool" where
  "PageKey_less a b \<longleftrightarrow>
     (if key_object a \<noteq> key_object b then key_object a < key_object b else key_page a < key_page b)"

instantiation PageKey :: linorder
begin

definition less_PageKey :: "PageKey \<Rightarrow> PageKey \<Rightarrow> bool" where
  "less_PageKey = PageKey_less"

definition less_eq_PageKey :: "PageKey \<Rightarrow> PageKey \<Rightarrow> bool" where
  "less_eq_PageKey a b \<longleftrightarrow> a < b \<or> a = (b :: PageKey)"

instance
proof
  fix x y z :: PageKey
  show "x < y \<longleftrightarrow> x \<le> y \<and> \<not> y \<le> x"
    by (auto simp: less_eq_PageKey_def less_PageKey_def PageKey_less_def split: if_splits)
  show "x \<le> x" by (simp add: less_eq_PageKey_def)
  show "x \<le> y \<Longrightarrow> y \<le> z \<Longrightarrow> x \<le> z"
    by (auto simp: less_eq_PageKey_def less_PageKey_def PageKey_less_def split: if_splits)
  show "x \<le> y \<Longrightarrow> y \<le> x \<Longrightarrow> x = y"
    by (auto simp: less_eq_PageKey_def less_PageKey_def PageKey_less_def split: if_splits)
  show "x \<le> y \<or> y \<le> x"
    by (cases x; cases y) (auto simp: less_eq_PageKey_def less_PageKey_def PageKey_less_def)
qed

end

instance PageKey :: finite
proof
  have "(UNIV :: PageKey set) = (\<lambda>(a, b). PageKey a b) ` UNIV"
    by (auto simp: image_iff) (metis PageKey.exhaust)
  then show "finite (UNIV :: PageKey set)" by (metis finite finite_imageI)
qed

section \<open>Exceptions and stateful operations\<close>

text \<open>
  One constructor per C++ exception type the engine throws; the message text is reduced to the
  name of the throwing operation. \<open>Would_wait\<close> is not an exception: it marks the point where
  the calling thread would block in a condition-variable wait, with the state other threads
  then see.
\<close>

datatype exn =
    Runtime_error string
  | Out_of_range string
  | Invalid_argument string
  | Logic_error string
  | Transaction_aborted TxnId
  | Sql_syntax_error nat
  | Sql_semantic_error string
  | Would_wait

text \<open>
  A C++ exception unwinds the call but keeps every mutation already made, so a failing
  operation returns the state it failed in.
\<close>

type_synonym ('s, 'a) operation = "'s \<Rightarrow> (exn + 'a) \<times> 's"

definition return_op :: "'a \<Rightarrow> ('s, 'a) operation" where
  "return_op x s = (Inr x, s)"

definition throw_op :: "exn \<Rightarrow> ('s, 'a) operation" where
  "throw_op e s = (Inl e, s)"

definition bind_op :: "('s, 'a) operation \<Rightarrow> ('a \<Rightarrow> ('s, 'b) operation) \<Rightarrow> ('s, 'b) operation" where
  "bind_op m f s = (case m s of (Inl e, s') \<Rightarrow> (Inl e, s') | (Inr x, s') \<Rightarrow> f x s')"

definition get_op :: "('s, 's) operation" where
  "get_op s = (Inr s, s)"

definition put_op :: "'s \<Rightarrow> ('s, unit) operation" where
  "put_op t s = (Inr (), t)"

definition modify_op :: "('s \<Rightarrow> 's) \<Rightarrow> ('s, unit) operation" where
  "modify_op f s = (Inr (), f s)"

text \<open>A call whose result the caller ignores.\<close>

definition discard_op :: "('s, 'a) operation \<Rightarrow> ('s, unit) operation" where
  "discard_op m s = (case m s of (Inl e, s') \<Rightarrow> (Inl e, s') | (Inr x, s') \<Rightarrow> (Inr (), s'))"

fun for_each :: "'x list \<Rightarrow> ('x \<Rightarrow> ('s, unit) operation) \<Rightarrow> ('s, unit) operation" where
  "for_each [] body = return_op ()"
| "for_each (x # xs) body = bind_op (body x) (\<lambda>_. for_each xs body)"

named_theorems op_simps
named_theorems buffer_simps

lemma return_op_apply [simp, op_simps]: "return_op x s = (Inr x, s)"
  by (simp add: return_op_def)

lemma throw_op_apply [simp, op_simps]: "throw_op e s = (Inl e, s)"
  by (simp add: throw_op_def)

lemma get_op_apply [simp, op_simps]: "get_op s = (Inr s, s)"
  by (simp add: get_op_def)

lemma put_op_apply [simp, op_simps]: "put_op t s = (Inr (), t)"
  by (simp add: put_op_def)

lemma modify_op_apply [simp, op_simps]: "modify_op f s = (Inr (), f s)"
  by (simp add: modify_op_def)

lemma bind_op_Inr: "m s = (Inr x, s') \<Longrightarrow> bind_op m f s = f x s'"
  by (simp add: bind_op_def)

lemma bind_op_Inl: "m s = (Inl e, s') \<Longrightarrow> bind_op m f s = (Inl e, s')"
  by (simp add: bind_op_def)

lemma bind_op_cong [fundef_cong]:
  assumes "m1 s2 = m2 s2" and "\<And>x t. m2 s2 = (Inr x, t) \<Longrightarrow> f1 x t = f2 x t" and "s1 = s2"
  shows "bind_op m1 f1 s1 = bind_op m2 f2 s2"
  using assms by (auto simp: bind_op_def split: prod.split sum.split)

lemma bind_op_InrE:
  assumes "bind_op m f s = (Inr y, t)"
  obtains x s' where "m s = (Inr x, s')" and "f x s' = (Inr y, t)"
  using assms by (auto simp: bind_op_def split: prod.splits sum.splits)

lemma bind_op_cases:
  assumes "bind_op m f s = (r, t)"
  obtains (fail) e where "m s = (Inl e, t)" and "r = Inl e"
  | (go) x s' where "m s = (Inr x, s')" and "f x s' = (r, t)"
  using assms by (auto simp: bind_op_def split: prod.splits sum.splits)

lemma bind_op_assoc: "bind_op (bind_op m f) g = bind_op m (\<lambda>x. bind_op (f x) g)"
  by (auto simp: bind_op_def fun_eq_iff split: prod.splits sum.splits)

lemma bind_return_op [simp]: "bind_op (return_op x) f = f x"
  by (simp add: bind_op_def fun_eq_iff)

lemma bind_modify_op [simp]: "bind_op (modify_op g) f s = f () (g s)"
  by (simp add: bind_op_def)

lemma bind_get_op [simp]: "bind_op get_op f s = f s s"
  by (simp add: bind_op_def)

lemma bind_put_op [simp]: "bind_op (put_op t) f s = f () t"
  by (simp add: bind_op_def)

lemma bind_throw_op [simp]: "bind_op (throw_op e) f = throw_op e"
  by (simp add: bind_op_def fun_eq_iff)

lemma for_each_append: "for_each (xs @ ys) body = bind_op (for_each xs body) (\<lambda>_. for_each ys body)"
proof (induction xs)
  case Nil
  then show ?case by (simp add: bind_op_def fun_eq_iff)
next
  case (Cons x xs)
  then show ?case by (simp add: bind_op_assoc)
qed

lemma for_each_concat: "for_each xss (\<lambda>xs. for_each (g xs) body) = for_each (concat (map g xss)) body"
  by (induction xss) (simp_all add: for_each_append)

lemma for_each_map: "for_each (map f xs) body = for_each xs (\<lambda>x. body (f x))"
  by (induction xs) simp_all

text \<open>An invariant every iteration keeps is kept by the loop, also when it stops early.\<close>

lemma for_each_invariant:
  assumes "\<And>x s r t. x \<in> set xs \<Longrightarrow> I s \<Longrightarrow> body x s = (r, t) \<Longrightarrow> I t"
    and "I s" and "for_each xs body s = (r, t)"
  shows "I t"
  using assms
proof (induction xs arbitrary: s)
  case Nil
  then show ?case by simp
next
  case (Cons x xs)
  from Cons.prems(3) have "bind_op (body x) (\<lambda>_. for_each xs body) s = (r, t)" by simp
  then show ?case
  proof (cases rule: bind_op_cases)
    case (fail e)
    with Cons.prems show ?thesis by (metis list.set_intros(1))
  next
    case (go u s')
    have "I s'" using Cons.prems(1) [OF _ Cons.prems(2) go(1)] by simp
    with go(2) Cons.prems(1) show ?thesis by (intro Cons.IH) (auto intro: list.set_intros)
  qed
qed

section \<open>Words as natural numbers\<close>

lemma unat_of_nat_small: "n < 2 ^ LENGTH('a::len) \<Longrightarrow> unat (of_nat n :: 'a word) = n"
  by (simp only: unat_of_nat mod_less)

lemma unat_Suc_small:
  "unat w + 1 < 2 ^ LENGTH('a::len) \<Longrightarrow> unat (w + 1 :: 'a word) = Suc (unat w)"
  by (simp add: unat_word_ariths)

lemma word_less_plus_one: "w \<noteq> - 1 \<Longrightarrow> w < (w + 1 :: 'a::len word)"
proof -
  assume "w \<noteq> - 1"
  then have "w + 1 \<noteq> 0" by (simp add: add_eq_0_iff2)
  then have "unat (w + 1) \<noteq> 0" by (simp add: unat_eq_zero)
  then have "unat w + 1 \<noteq> 2 ^ LENGTH('a)" by (auto simp: unat_word_ariths)
  moreover have "unat w < 2 ^ LENGTH('a)" by (rule unsigned_less)
  ultimately have "unat w + 1 < 2 ^ LENGTH('a)" by linarith
  then show ?thesis by (simp add: word_less_nat_alt unat_Suc_small)
qed

lemma of_nat_unat_less: "i < unat w \<Longrightarrow> unat (of_nat i :: 'a::len word) = i \<and> of_nat i < (w :: 'a word)"
proof -
  assume i: "i < unat w"
  also have "unat w < 2 ^ LENGTH('a)" by (rule unsigned_less)
  finally have "unat (of_nat i :: 'a word) = i" by (rule unat_of_nat_small)
  with i show ?thesis by (simp add: word_less_nat_alt)
qed

section \<open>Little-endian integers\<close>

text \<open>
  \<open>memcpy\<close> of an integer copies its object representation; the engine's files are read
  only on the machine that wrote them, and the model fixes that machine to be little-endian.
\<close>

fun nat_bytes :: "nat \<Rightarrow> nat \<Rightarrow> byte list" where
  "nat_bytes 0 v = []"
| "nat_bytes (Suc n) v = of_nat (v mod 256) # nat_bytes n (v div 256)"

fun bytes_nat :: "byte list \<Rightarrow> nat" where
  "bytes_nat [] = 0"
| "bytes_nat (b # bs) = unat b + 256 * bytes_nat bs"

lemma length_nat_bytes [simp]: "length (nat_bytes n v) = n"
  by (induction n arbitrary: v) auto

lemma unat_of_nat_byte [simp]: "unat (of_nat (v mod 256) :: byte) = v mod 256"
  by (simp add: unat_of_nat)

lemma bytes_nat_nat_bytes: "bytes_nat (nat_bytes n v) = v mod 256 ^ n"
proof (induction n arbitrary: v)
  case 0
  then show ?case by simp
next
  case (Suc n)
  then show ?case by (simp add: mod_mult2_eq)
qed

lemma bytes_nat_less: "bytes_nat bs < 256 ^ length bs"
proof (induction bs)
  case Nil
  then show ?case by simp
next
  case (Cons b bs)
  have "unat b < 256" using unsigned_less [of b] by simp
  with Cons.IH show ?case by simp
qed

lemma nat_bytes_bytes_nat: "nat_bytes (length bs) (bytes_nat bs) = bs"
proof (induction bs)
  case Nil
  then show ?case by simp
next
  case (Cons b bs)
  have b: "unat b < 256" using unsigned_less [of b] by simp
  then have "(unat b + 256 * bytes_nat bs) mod 256 = unat b"
    and "(unat b + 256 * bytes_nat bs) div 256 = bytes_nat bs" by auto
  with Cons.IH show ?case by simp
qed

text \<open>An unsigned integer of \<open>n\<close> bytes.\<close>

definition word_bytes :: "nat \<Rightarrow> 'a::len word \<Rightarrow> byte list" where
  "word_bytes n w = nat_bytes n (unat w)"

definition bytes_word :: "byte list \<Rightarrow> 'a::len word" where
  "bytes_word bs = of_nat (bytes_nat bs)"

lemma length_word_bytes [simp, buffer_simps]: "length (word_bytes n w) = n"
  by (simp add: word_bytes_def)

lemma bytes_word_word_bytes:
  assumes "LENGTH('a::len) \<le> 8 * n"
  shows "bytes_word (word_bytes n w) = (w :: 'a word)"
proof -
  have "unat w < 2 ^ LENGTH('a)" by (rule unsigned_less)
  also have "\<dots> \<le> 2 ^ (8 * n)" using assms by (rule power_increasing) simp
  also have "\<dots> = 256 ^ n" by (simp add: power_mult)
  finally show ?thesis
    by (simp add: bytes_word_def word_bytes_def bytes_nat_nat_bytes)
qed

lemma word_bytes_bytes_word:
  assumes "length bs = n" and "8 * n \<le> LENGTH('a::len)"
  shows "word_bytes n (bytes_word bs :: 'a word) = bs"
proof -
  have "bytes_nat bs < 256 ^ n" using bytes_nat_less [of bs] assms(1) by simp
  also have "(256::nat) ^ n = 2 ^ (8 * n)" by (simp add: power_mult)
  also have "\<dots> \<le> 2 ^ LENGTH('a)" using assms(2) by (rule power_increasing) simp
  finally have "unat (bytes_word bs :: 'a word) = bytes_nat bs"
    by (simp add: bytes_word_def unat_of_nat)
  then show ?thesis using assms(1) nat_bytes_bytes_nat [of bs] by (simp add: word_bytes_def)
qed

lemma bytes_word_16 [simp]: "bytes_word (word_bytes 2 w) = (w :: 16 word)"
  by (rule bytes_word_word_bytes) simp

lemma bytes_word_32 [simp]: "bytes_word (word_bytes 4 w) = (w :: 32 word)"
  by (rule bytes_word_word_bytes) simp

lemma bytes_word_64 [simp]: "bytes_word (word_bytes 8 w) = (w :: 64 word)"
  by (rule bytes_word_word_bytes) simp

lemma bytes_word_8 [simp]: "bytes_word (word_bytes 1 w) = (w :: 8 word)"
  by (rule bytes_word_word_bytes) simp

section \<open>Byte buffers\<close>

definition read_bytes :: "byte list \<Rightarrow> nat \<Rightarrow> nat \<Rightarrow> byte list" where
  "read_bytes buf off n = take n (drop off buf)"

definition write_bytes :: "byte list \<Rightarrow> nat \<Rightarrow> byte list \<Rightarrow> byte list" where
  "write_bytes buf off bs = take off buf @ bs @ drop (off + length bs) buf"

text \<open>
  \<open>ReadAt<T>\<close> and \<open>WriteAt<T>\<close> of \<open>page.cpp\<close>, \<open>btree.cpp\<close> and \<open>log_manager.cpp\<close>; the first
  argument is \<open>sizeof(T)\<close>.
\<close>

definition ReadAt :: "nat \<Rightarrow> byte list \<Rightarrow> nat \<Rightarrow> 'a::len word" where
  "ReadAt n buf off = bytes_word (read_bytes buf off n)"

definition WriteAt :: "nat \<Rightarrow> byte list \<Rightarrow> nat \<Rightarrow> 'a::len word \<Rightarrow> byte list" where
  "WriteAt n buf off v = write_bytes buf off (word_bytes n v)"

lemma length_write_bytes [buffer_simps]:
  "off + length bs \<le> length buf \<Longrightarrow> length (write_bytes buf off bs) = length buf"
  by (simp add: write_bytes_def)

lemma read_write_same [buffer_simps]:
  "off + length bs \<le> length buf \<Longrightarrow> n = length bs \<Longrightarrow> read_bytes (write_bytes buf off bs) off n = bs"
  by (simp add: read_bytes_def write_bytes_def)

lemma read_write_before [buffer_simps]:
  "o1 + n \<le> o2 \<Longrightarrow> o2 \<le> length buf \<Longrightarrow>
   read_bytes (write_bytes buf o2 bs) o1 n = read_bytes buf o1 n"
  by (simp add: read_bytes_def write_bytes_def drop_take min_absorb2)

lemma read_write_after [buffer_simps]:
  "o2 + length bs \<le> o1 \<Longrightarrow> o2 + length bs \<le> length buf \<Longrightarrow>
   read_bytes (write_bytes buf o2 bs) o1 n = read_bytes buf o1 n"
  by (simp add: read_bytes_def write_bytes_def min_def)

lemma length_WriteAt [buffer_simps]:
  "off + n \<le> length buf \<Longrightarrow> length (WriteAt n buf off v) = length buf"
  by (simp add: WriteAt_def length_write_bytes)

lemma ReadAt_WriteAt_same [buffer_simps]:
  "off + n \<le> length buf \<Longrightarrow> LENGTH('a::len) \<le> 8 * n \<Longrightarrow>
   ReadAt n (WriteAt n buf off v) off = (v :: 'a word)"
  by (simp add: ReadAt_def WriteAt_def read_write_same bytes_word_word_bytes)

lemma read_bytes_WriteAt_before [buffer_simps]:
  "o1 + n \<le> o2 \<Longrightarrow> o2 \<le> length buf \<Longrightarrow>
   read_bytes (WriteAt m buf o2 v) o1 n = read_bytes buf o1 n"
  by (simp add: WriteAt_def read_write_before)

lemma read_bytes_WriteAt_after [buffer_simps]:
  "o2 + m \<le> o1 \<Longrightarrow> o2 + m \<le> length buf \<Longrightarrow>
   read_bytes (WriteAt m buf o2 v) o1 n = read_bytes buf o1 n"
  by (simp add: WriteAt_def read_write_after)

lemma ReadAt_WriteAt_before [buffer_simps]:
  "o1 + n \<le> o2 \<Longrightarrow> o2 \<le> length buf \<Longrightarrow>
   ReadAt n (WriteAt m buf o2 v) o1 = (ReadAt n buf o1 :: 'a::len word)"
  by (simp add: ReadAt_def read_bytes_WriteAt_before)

lemma ReadAt_WriteAt_after [buffer_simps]:
  "o2 + m \<le> o1 \<Longrightarrow> o2 + m \<le> length buf \<Longrightarrow>
   ReadAt n (WriteAt m buf o2 v) o1 = (ReadAt n buf o1 :: 'a::len word)"
  by (simp add: ReadAt_def read_bytes_WriteAt_after)

lemma ReadAt_write_bytes_before [buffer_simps]:
  "o1 + n \<le> o2 \<Longrightarrow> o2 \<le> length buf \<Longrightarrow>
   ReadAt n (write_bytes buf o2 bs) o1 = (ReadAt n buf o1 :: 'a::len word)"
  by (simp add: ReadAt_def read_write_before)

lemma ReadAt_write_bytes_after [buffer_simps]:
  "o2 + length bs \<le> o1 \<Longrightarrow> o2 + length bs \<le> length buf \<Longrightarrow>
   ReadAt n (write_bytes buf o2 bs) o1 = (ReadAt n buf o1 :: 'a::len word)"
  by (simp add: ReadAt_def read_write_after)

lemma length_read_bytes [buffer_simps]:
  "off + n \<le> length buf \<Longrightarrow> length (read_bytes buf off n) = n"
  by (simp add: read_bytes_def)

lemma read_bytes_append1 [buffer_simps]:
  "off + n \<le> length xs \<Longrightarrow> read_bytes (xs @ ys) off n = read_bytes xs off n"
  by (simp add: read_bytes_def)

lemma ReadAt_append1 [buffer_simps]:
  "off + n \<le> length xs \<Longrightarrow> (ReadAt n (xs @ ys) off :: 'a::len word) = ReadAt n xs off"
  by (simp add: ReadAt_def read_bytes_append1)

end
