(* ===== verification/Slotted_Page.thy ===== *)
theory Slotted_Page
  imports Flint_Prelude
begin

text \<open>
  The slotted heap page of \<open>src/src/storage/page.h\<close> and \<open>page.cpp\<close>, byte for byte: a page is its
  \<open>PAGE_SIZE\<close> bytes, and every accessor is the \<open>memcpy\<close> the code does. The invariant
  \<open>heap_page_ok\<close> describes a formatted page; \<open>page_slots\<close> is the abstract content (one tombstone
  flag and record per slot) that the heap file relies on through the locale \<open>slot_store\<close>.
\<close>

unbundle bit_operations_syntax

type_synonym page = "byte list"

record SlotEntry =
  slot_offset :: uint16
  slot_length :: uint16

abbreviation (input) kHeaderSize :: nat where
  "kHeaderSize \<equiv> 16"

abbreviation (input) kSlotSize :: nat where
  "kSlotSize \<equiv> 4"

definition kDeletedFlag :: uint16 where
  "kDeletedFlag = 0x8000"

definition blank_page :: page where
  "blank_page = replicate PAGE_SIZE 0"

lemma length_blank_page [simp]: "length blank_page = PAGE_SIZE"
  by (simp only: blank_page_def length_replicate)

section \<open>Header and slot accessors\<close>

definition GetPageId :: "page \<Rightarrow> PageId" where
  "GetPageId p = ReadAt 4 p 0"

definition SetPageId :: "page \<Rightarrow> PageId \<Rightarrow> page" where
  "SetPageId p v = WriteAt 4 p 0 v"

definition GetSlotCount :: "page \<Rightarrow> uint16" where
  "GetSlotCount p = ReadAt 2 p 6"

definition SetSlotCount :: "page \<Rightarrow> uint16 \<Rightarrow> page" where
  "SetSlotCount p v = WriteAt 2 p 6 v"

definition GetPdLower :: "page \<Rightarrow> nat" where
  "GetPdLower p = unat (ReadAt 2 p 8 :: uint16)"

definition SetPdLower :: "page \<Rightarrow> uint16 \<Rightarrow> page" where
  "SetPdLower p v = WriteAt 2 p 8 v"

definition GetPdUpper :: "page \<Rightarrow> nat" where
  "GetPdUpper p = unat (ReadAt 2 p 10 :: uint16)"

definition SetPdUpper :: "page \<Rightarrow> uint16 \<Rightarrow> page" where
  "SetPdUpper p v = WriteAt 2 p 10 v"

definition slot_pos :: "SlotId \<Rightarrow> nat" where
  "slot_pos s = kHeaderSize + unat s * kSlotSize"

definition GetSlotEntry :: "page \<Rightarrow> SlotId \<Rightarrow> SlotEntry" where
  "GetSlotEntry p s =
     \<lparr>slot_offset = ReadAt 2 p (slot_pos s), slot_length = ReadAt 2 p (slot_pos s + 2)\<rparr>"

definition SetSlotEntry :: "page \<Rightarrow> SlotId \<Rightarrow> SlotEntry \<Rightarrow> page" where
  "SetSlotEntry p s e =
     WriteAt 2 (WriteAt 2 p (slot_pos s) (slot_offset e)) (slot_pos s + 2) (slot_length e)"

section \<open>Operations\<close>

definition InitHeapPage :: "PageId \<Rightarrow> page" where
  "InitHeapPage pid =
     (let p0 = blank_page;
          p1 = SetPageId p0 pid;
          p2 = WriteAt 2 p1 4 (page_type_tag kHeap);
          p3 = SetSlotCount p2 0;
          p4 = SetPdLower p3 (of_nat kHeaderSize)
      in SetPdUpper p4 (of_nat PAGE_SIZE))"

definition InsertRecord :: "page \<Rightarrow> byte list \<Rightarrow> SlotId option \<times> page" where
  "InsertRecord p data =
     (if length data \<ge> unat kDeletedFlag then (None, p)
      else
        let len = length data; pd_lower = GetPdLower p; pd_upper = GetPdUpper p in
        if pd_upper < pd_lower then (None, p)
        else
          let free_space = pd_upper - pd_lower; needed = len + kSlotSize in
          if free_space < needed then (None, p)
          else
            let new_pd_upper = (of_nat (pd_upper - len) :: uint16);
                p1 = (if len > 0 then write_bytes p (unat new_pd_upper) data else p);
                slot_count = GetSlotCount p1;
                p2 = SetSlotEntry p1 slot_count
                       \<lparr>slot_offset = new_pd_upper, slot_length = of_nat len\<rparr>;
                p3 = SetSlotCount p2 (slot_count + 1);
                p4 = SetPdLower p3 (of_nat (pd_lower + kSlotSize))
            in (Some slot_count, SetPdUpper p4 new_pd_upper))"

definition GetRecord :: "page \<Rightarrow> SlotId \<Rightarrow> byte list" where
  "GetRecord p s =
     (let e = GetSlotEntry p s
      in read_bytes p (unat (slot_offset e)) (unat (slot_length e AND NOT kDeletedFlag)))"

definition DeleteRecord :: "page \<Rightarrow> SlotId \<Rightarrow> page" where
  "DeleteRecord p s =
     (let e = GetSlotEntry p s
      in SetSlotEntry p s (e\<lparr>slot_length := slot_length e OR kDeletedFlag\<rparr>))"

definition IsDeleted :: "page \<Rightarrow> SlotId \<Rightarrow> bool" where
  "IsDeleted p s \<longleftrightarrow> slot_length (GetSlotEntry p s) AND kDeletedFlag \<noteq> 0"

definition FreeSpace :: "page \<Rightarrow> nat" where
  "FreeSpace p =
     (let pd_lower = GetPdLower p; pd_upper = GetPdUpper p
      in if pd_upper < pd_lower then 0 else pd_upper - pd_lower)"

section \<open>Well-formed pages and their abstract content\<close>

definition record_length :: "SlotEntry \<Rightarrow> nat" where
  "record_length e = unat (slot_length e AND NOT kDeletedFlag)"

definition slot_in_data :: "page \<Rightarrow> SlotId \<Rightarrow> bool" where
  "slot_in_data p s \<longleftrightarrow>
     GetPdUpper p \<le> unat (slot_offset (GetSlotEntry p s)) \<and>
     unat (slot_offset (GetSlotEntry p s)) + record_length (GetSlotEntry p s) \<le> PAGE_SIZE"

definition heap_page_ok :: "page \<Rightarrow> bool" where
  "heap_page_ok p \<longleftrightarrow>
     length p = PAGE_SIZE \<and>
     GetPdLower p = kHeaderSize + kSlotSize * unat (GetSlotCount p) \<and>
     GetPdLower p \<le> GetPdUpper p \<and> GetPdUpper p \<le> PAGE_SIZE \<and>
     (\<forall>s < GetSlotCount p. slot_in_data p s)"

definition page_slots :: "page \<Rightarrow> (bool \<times> byte list) list" where
  "page_slots p =
     map (\<lambda>i. (IsDeleted p (of_nat i), GetRecord p (of_nat i))) [0..<unat (GetSlotCount p)]"

lemmas accessor_defs =
  GetPageId_def SetPageId_def GetSlotCount_def SetSlotCount_def GetPdLower_def SetPdLower_def
  GetPdUpper_def SetPdUpper_def GetSlotEntry_def SetSlotEntry_def

lemma length_page_slots [simp]: "length (page_slots p) = unat (GetSlotCount p)"
  by (simp add: page_slots_def)

lemma nth_page_slots:
  "s < GetSlotCount p \<Longrightarrow> page_slots p ! unat s = (IsDeleted p s, GetRecord p s)"
  by (simp add: page_slots_def word_less_nat_alt)

lemma unat_kDeletedFlag [simp]: "unat kDeletedFlag = 32768"
  by (simp add: kDeletedFlag_def)

lemma slot_pos_ge: "16 \<le> slot_pos s"
  by (simp add: slot_pos_def)

lemma slot_pos_disjoint: "s \<noteq> t \<Longrightarrow> slot_pos s + 4 \<le> slot_pos t \<or> slot_pos t + 4 \<le> slot_pos s"
proof -
  assume "s \<noteq> t"
  then have "unat s \<noteq> unat t" by (simp add: word_unat_eq_iff)
  then show ?thesis by (auto simp: slot_pos_def)
qed

lemma slot_pos_below:
  "heap_page_ok p \<Longrightarrow> s < GetSlotCount p \<Longrightarrow> slot_pos s + 4 \<le> GetPdLower p"
  by (auto simp: heap_page_ok_def slot_pos_def word_less_nat_alt)

subsection \<open>Formatting\<close>

lemma length_InitHeapPage: "length (InitHeapPage pid) = PAGE_SIZE"
  by (simp add: InitHeapPage_def Let_def accessor_defs buffer_simps)

lemma InitHeapPage_fields:
  "GetPageId (InitHeapPage pid) = pid" (is ?id)
  "GetSlotCount (InitHeapPage pid) = 0" (is ?count)
  "GetPdLower (InitHeapPage pid) = kHeaderSize" (is ?lower)
  "GetPdUpper (InitHeapPage pid) = PAGE_SIZE" (is ?upper)
proof -
  show ?id ?count ?lower ?upper
    by (simp_all add: InitHeapPage_def Let_def accessor_defs buffer_simps)
qed

lemma InitHeapPage_ok: "heap_page_ok (InitHeapPage pid)"
  by (simp add: heap_page_ok_def length_InitHeapPage InitHeapPage_fields)

lemma InitHeapPage_slots: "page_slots (InitHeapPage pid) = []"
  by (simp add: page_slots_def InitHeapPage_fields)

subsection \<open>Inserting a record\<close>

definition insert_result :: "page \<Rightarrow> byte list \<Rightarrow> page" where
  "insert_result p data =
     SetPdUpper
       (SetPdLower
         (SetSlotCount
           (SetSlotEntry (write_bytes p (GetPdUpper p - length data) data) (GetSlotCount p)
             \<lparr>slot_offset = of_nat (GetPdUpper p - length data), slot_length = of_nat (length data)\<rparr>)
           (GetSlotCount p + 1))
         (of_nat (GetPdLower p + kSlotSize)))
       (of_nat (GetPdUpper p - length data))"

lemma write_bytes_Nil [simp]: "write_bytes p off [] = p"
  by (simp add: write_bytes_def)

lemma InsertRecord_eq:
  assumes ok: "heap_page_ok p"
  shows "InsertRecord p data =
     (if length data + kSlotSize \<le> FreeSpace p then (Some (GetSlotCount p), insert_result p data)
      else (None, p))"
proof (cases "length data + kSlotSize \<le> FreeSpace p")
  case True
  from ok have bounds: "length p = 4096" "16 \<le> GetPdLower p" "GetPdLower p \<le> GetPdUpper p"
    "GetPdUpper p \<le> 4096" by (auto simp: heap_page_ok_def)
  with True have fits: "GetPdLower p + length data + 4 \<le> GetPdUpper p"
    by (simp add: FreeSpace_def Let_def split: if_splits)
  then have upper: "unat (of_nat (GetPdUpper p - length data) :: uint16) = GetPdUpper p - length data"
    using bounds by (intro unat_of_nat_small) simp
  have count: "GetSlotCount (write_bytes p (GetPdUpper p - length data) data) = GetSlotCount p"
    using bounds fits by (simp add: GetSlotCount_def buffer_simps)
  have "length data < 32768" using fits bounds by simp
  with fits bounds upper count show ?thesis
    using True by (auto simp: InsertRecord_def insert_result_def Let_def)
next
  case False
  then show ?thesis
    by (auto simp: InsertRecord_def FreeSpace_def Let_def split: if_splits)
qed

text \<open>Everything the bytes of the page say after a successful insertion.\<close>

lemma insert_result_facts:
  assumes ok: "heap_page_ok p" and fit: "length data + kSlotSize \<le> FreeSpace p"
  defines "q \<equiv> insert_result p data"
  shows insert_length: "length q = PAGE_SIZE"
    and insert_count: "unat (GetSlotCount q) = Suc (unat (GetSlotCount p))"
    and insert_lower: "GetPdLower q = GetPdLower p + kSlotSize"
    and insert_upper: "GetPdUpper q = GetPdUpper p - length data"
    and insert_entry: "GetSlotEntry q (GetSlotCount p) =
          \<lparr>slot_offset = of_nat (GetPdUpper p - length data), slot_length = of_nat (length data)\<rparr>"
    and insert_old_entry: "\<And>s. s < GetSlotCount p \<Longrightarrow> GetSlotEntry q s = GetSlotEntry p s"
    and insert_data: "read_bytes q (GetPdUpper p - length data) (length data) = data"
    and insert_old_data: "\<And>off n. GetPdUpper p \<le> off \<Longrightarrow> read_bytes q off n = read_bytes p off n"
    and insert_page_id: "GetPageId q = GetPageId p"
proof -
  from ok have b: "length p = 4096" "GetPdLower p = 16 + 4 * unat (GetSlotCount p)"
    "GetPdLower p \<le> GetPdUpper p" "GetPdUpper p \<le> 4096" by (auto simp: heap_page_ok_def)
  with fit have fits: "GetPdLower p + length data + 4 \<le> GetPdUpper p"
    by (simp add: FreeSpace_def Let_def split: if_splits)
  let ?u = "GetPdUpper p - length data"
  have pos: "slot_pos (GetSlotCount p) = GetPdLower p" using b by (simp add: slot_pos_def)
  have su: "GetPdLower p + 4 \<le> ?u" using fits by simp
  have u16: "unat (of_nat ?u :: uint16) = ?u" using b by (intro unat_of_nat_small) simp
  have l16: "unat (of_nat (GetPdLower p + 4) :: uint16) = GetPdLower p + 4"
    using b fits by (intro unat_of_nat_small) simp
  have c16: "unat (GetSlotCount p + 1) = Suc (unat (GetSlotCount p))"
    using b fits by (intro unat_Suc_small) simp
  note d = q_def insert_result_def accessor_defs buffer_simps
  show "length q = PAGE_SIZE" using b su pos by (simp add: d)
  show "unat (GetSlotCount q) = Suc (unat (GetSlotCount p))"
    using b su pos c16 by (simp add: d)
  show "GetPdLower q = GetPdLower p + kSlotSize" using b su pos l16 by (simp add: d)
  show "GetPdUpper q = ?u" using b su pos u16 by (simp add: d)
  show "GetSlotEntry q (GetSlotCount p) = \<lparr>slot_offset = of_nat ?u, slot_length = of_nat (length data)\<rparr>"
    using b su pos by (simp add: d)
  show "GetSlotEntry q s = GetSlotEntry p s" if "s < GetSlotCount p" for s
  proof -
    have "slot_pos s + 4 \<le> GetPdLower p" using ok that by (rule slot_pos_below)
    with b su pos slot_pos_ge [of s] show ?thesis by (simp add: d)
  qed
  show "read_bytes q ?u (length data) = data" using b su pos by (simp add: d)
  show "read_bytes q off n = read_bytes p off n" if "GetPdUpper p \<le> off" for off n
    using b su pos that fits by (simp add: d)
  show "GetPageId q = GetPageId p" using b su pos by (simp add: d)
qed

lemma bit_kDeletedFlag: "bit kDeletedFlag m \<longleftrightarrow> m = 15"
proof -
  have "bit (2 ^ 15 :: uint16) m \<longleftrightarrow> m = 15" by (subst bit_exp_iff) auto
  then show ?thesis by (simp add: kDeletedFlag_def)
qed

lemma not_bit_small: "n < 32768 \<Longrightarrow> \<not> bit (of_nat n :: uint16) 15"
proof -
  assume "n < 32768"
  then have "\<not> bit n 15" by (simp add: bit_iff_odd)
  then show ?thesis by (simp add: bit_of_nat_iff)
qed

lemma flag_clear_small: "n < 32768 \<Longrightarrow> (of_nat n :: uint16) AND kDeletedFlag = 0"
  by (rule bit_eqI) (auto simp: bit_and_iff bit_kDeletedFlag dest: not_bit_small)

lemma flag_mask_small: "n < 32768 \<Longrightarrow> (of_nat n :: uint16) AND NOT kDeletedFlag = of_nat n"
  by (rule bit_eqI) (auto simp: bit_and_iff bit_not_iff bit_kDeletedFlag dest: not_bit_small)

lemma flag_set_mask: "(w OR kDeletedFlag) AND NOT kDeletedFlag = w AND NOT kDeletedFlag"
  by (simp add: bit.conj_disj_distrib2)

lemma flag_set_test: "(w OR kDeletedFlag) AND kDeletedFlag \<noteq> 0"
  by (simp add: bit.conj_disj_distrib2 kDeletedFlag_def)

text \<open>
  A record that fits is stored in a fresh slot at the end of the directory, every older slot
  keeps its flag and its bytes, and the page stays well formed.
\<close>

lemma insert_result_ok:
  assumes ok: "heap_page_ok p" and fit: "length data + kSlotSize \<le> FreeSpace p"
  shows "heap_page_ok (insert_result p data)"
proof -
  let ?q = "insert_result p data"
  note f = insert_result_facts [OF ok fit]
  from ok have b: "GetPdLower p = 16 + 4 * unat (GetSlotCount p)"
    "GetPdLower p \<le> GetPdUpper p" "GetPdUpper p \<le> 4096" by (auto simp: heap_page_ok_def)
  with fit have fits: "GetPdLower p + length data + 4 \<le> GetPdUpper p"
    by (simp add: FreeSpace_def Let_def split: if_splits)
  have "slot_in_data ?q s" if s: "s < GetSlotCount ?q" for s
  proof (cases "s = GetSlotCount p")
    case True
    have "unat (of_nat (GetPdUpper p - length data) :: uint16) = GetPdUpper p - length data"
      using b by (intro unat_of_nat_small) simp
    moreover have "unat (of_nat (length data) :: uint16) = length data"
      using b fits by (intro unat_of_nat_small) simp
    ultimately show ?thesis
      using True b fits
      by (simp add: slot_in_data_def f record_length_def flag_mask_small)
  next
    case False
    with s have "s < GetSlotCount p"
      using f(2) by (simp add: word_less_nat_alt word_unat_eq_iff)
    with ok have "slot_in_data p s" by (simp add: heap_page_ok_def)
    with f(6) [OF \<open>s < GetSlotCount p\<close>] show ?thesis
      by (auto simp: slot_in_data_def f)
  qed
  with b fits show ?thesis by (auto simp: heap_page_ok_def f)
qed

lemma insert_result_slots:
  assumes ok: "heap_page_ok p" and fit: "length data + kSlotSize \<le> FreeSpace p"
  shows "page_slots (insert_result p data) = page_slots p @ [(False, data)]"
proof -
  let ?q = "insert_result p data"
  note f = insert_result_facts [OF ok fit]
  from ok fit have small: "length data < 32768" "GetPdUpper p \<le> 4096"
    by (auto simp: heap_page_ok_def FreeSpace_def Let_def split: if_splits)
  have old: "IsDeleted ?q s = IsDeleted p s \<and> GetRecord ?q s = GetRecord p s"
    if s: "s < GetSlotCount p" for s
  proof -
    from ok s have "slot_in_data p s" by (simp add: heap_page_ok_def)
    then show ?thesis
      by (simp add: IsDeleted_def GetRecord_def f(6) [OF s] f(8) slot_in_data_def Let_def)
  qed
  have "unat (of_nat (GetPdUpper p - length data) :: uint16) = GetPdUpper p - length data"
    using small by (intro unat_of_nat_small) simp
  moreover have "unat (of_nat (length data) :: uint16) = length data"
    using small by (intro unat_of_nat_small) simp
  ultimately have new: "\<not> IsDeleted ?q (GetSlotCount p)" "GetRecord ?q (GetSlotCount p) = data"
    using small by (simp_all add: IsDeleted_def GetRecord_def f Let_def flag_clear_small
        flag_mask_small del: of_nat_diff)
  have "map (\<lambda>i. (IsDeleted ?q (of_nat i), GetRecord ?q (of_nat i))) [0..<unat (GetSlotCount p)] =
        page_slots p"
    unfolding page_slots_def by (rule map_cong) (use old of_nat_unat_less in auto)
  with new show ?thesis by (simp add: page_slots_def [of ?q] f(2))
qed

subsection \<open>Tombstoning a record\<close>

lemma DeleteRecord_facts:
  assumes ok: "heap_page_ok p" and s: "s < GetSlotCount p"
  defines "q \<equiv> DeleteRecord p s"
  shows delete_length: "length q = PAGE_SIZE"
    and delete_header: "GetSlotCount q = GetSlotCount p" "GetPdLower q = GetPdLower p"
      "GetPdUpper q = GetPdUpper p" "GetPageId q = GetPageId p"
    and delete_entry: "GetSlotEntry q s =
      (GetSlotEntry p s)\<lparr>slot_length := slot_length (GetSlotEntry p s) OR kDeletedFlag\<rparr>"
    and delete_other: "\<And>t. t \<noteq> s \<Longrightarrow> slot_pos t + 4 \<le> PAGE_SIZE \<Longrightarrow> GetSlotEntry q t = GetSlotEntry p t"
    and delete_data: "\<And>off n. GetPdUpper p \<le> off \<Longrightarrow> read_bytes q off n = read_bytes p off n"
proof -
  have b: "slot_pos s + 4 \<le> GetPdLower p" "GetPdLower p \<le> GetPdUpper p" "GetPdUpper p \<le> 4096"
    "length p = 4096" using ok slot_pos_below [OF ok s] by (auto simp: heap_page_ok_def)
  note d = q_def DeleteRecord_def Let_def accessor_defs buffer_simps
  note g = slot_pos_ge [of s]
  show "length q = PAGE_SIZE" using b g by (simp add: d)
  show "GetSlotCount q = GetSlotCount p" "GetPdLower q = GetPdLower p"
    "GetPdUpper q = GetPdUpper p" "GetPageId q = GetPageId p" using b g by (simp_all add: d)
  show "GetSlotEntry q s =
      (GetSlotEntry p s)\<lparr>slot_length := slot_length (GetSlotEntry p s) OR kDeletedFlag\<rparr>"
    using b g by (simp add: d)
  show "GetSlotEntry q t = GetSlotEntry p t" if "t \<noteq> s" "slot_pos t + 4 \<le> PAGE_SIZE" for t
    using slot_pos_disjoint [OF that(1)] that(2) b g slot_pos_ge [of t] by (auto simp: d)
  show "read_bytes q off n = read_bytes p off n" if "GetPdUpper p \<le> off" for off n
    using b g that by (simp add: d)
qed

lemma DeleteRecord_ok:
  assumes ok: "heap_page_ok p" and s: "s < GetSlotCount p"
  shows "heap_page_ok (DeleteRecord p s)"
proof -
  note f = DeleteRecord_facts [OF ok s]
  have "slot_in_data (DeleteRecord p s) t" if t: "t < GetSlotCount p" for t
  proof -
    have "slot_in_data p t" using ok t by (simp add: heap_page_ok_def)
    moreover have "slot_pos t + 4 \<le> PAGE_SIZE"
      using slot_pos_below [OF ok t] ok by (simp add: heap_page_ok_def)
    ultimately show ?thesis
      by (cases "t = s") (simp_all add: slot_in_data_def f record_length_def flag_set_mask)
  qed
  with ok show ?thesis by (simp add: heap_page_ok_def f)
qed

lemma DeleteRecord_slots:
  assumes ok: "heap_page_ok p" and s: "s < GetSlotCount p"
  shows "page_slots (DeleteRecord p s) = (page_slots p)[unat s := (True, GetRecord p s)]"
proof (rule nth_equalityI)
  note f = DeleteRecord_facts [OF ok s]
  show "length (page_slots (DeleteRecord p s)) = length ((page_slots p)[unat s := (True, GetRecord p s)])"
    by (simp add: f)
  fix i assume "i < length (page_slots (DeleteRecord p s))"
  then have i: "i < unat (GetSlotCount p)" by (simp add: f)
  define t :: SlotId where "t = of_nat i"
  have t: "unat t = i" "t < GetSlotCount p" using of_nat_unat_less [OF i] by (simp_all add: t_def)
  have st: "slot_in_data p t" "slot_in_data p s" using ok t(2) s by (simp_all add: heap_page_ok_def)
  have "slot_pos t + 4 \<le> PAGE_SIZE"
    using slot_pos_below [OF ok t(2)] ok by (simp add: heap_page_ok_def)
  then have "(IsDeleted (DeleteRecord p s) t, GetRecord (DeleteRecord p s) t) =
      (if t = s then (True, GetRecord p s) else (IsDeleted p t, GetRecord p t))"
    using st by (auto simp: IsDeleted_def GetRecord_def f Let_def slot_in_data_def
        flag_set_mask flag_set_test kDeletedFlag_def [THEN arg_cong [where f = "\<lambda>w. w = 0"]])
  with t i show "page_slots (DeleteRecord p s) ! i = (page_slots p)[unat s := (True, GetRecord p s)] ! i"
    using nth_page_slots [of t p] nth_page_slots [of t "DeleteRecord p s"]
    by (auto simp: f nth_list_update word_unat_eq_iff)
qed

subsection \<open>A page that was never formatted\<close>

text \<open>
  A page allocated by a transaction that aborted is reverted to the zero bytes on disk. It has no
  slots and no free space, so it is never written again and never yields a row.
\<close>

lemma ReadAt_blank: "off + n \<le> PAGE_SIZE \<Longrightarrow> (ReadAt n blank_page off :: 'a::len word) = 0"
proof -
  have "bytes_nat (replicate m 0) = 0" for m by (induction m) auto
  then show ?thesis
    by (simp only: ReadAt_def read_bytes_def blank_page_def bytes_word_def take_replicate
        drop_replicate) simp
qed

lemma blank_fields:
  "GetSlotCount blank_page = 0" "GetPdLower blank_page = 0" "GetPdUpper blank_page = 0"
  by (simp_all add: accessor_defs ReadAt_blank)

lemma blank_slots: "page_slots blank_page = []"
  by (simp add: page_slots_def blank_fields)

lemma InsertRecord_blank: "InsertRecord blank_page data = (None, blank_page)"
  by (simp add: InsertRecord_def blank_fields Let_def)

definition page_ok :: "page \<Rightarrow> bool" where
  "page_ok p \<longleftrightarrow> heap_page_ok p \<or> p = blank_page"

section \<open>The interface the heap file relies on\<close>

text \<open>The live rows of a slot directory, in slot order, each with its slot number.\<close>

definition live_slots :: "(bool \<times> 'r) list \<Rightarrow> (nat \<times> 'r) list" where
  "live_slots xs = map (\<lambda>(i, d, r). (i, r)) (filter (\<lambda>(i, d, r). \<not> d) (enumerate 0 xs))"

lemma live_slots_append [simp]: "live_slots (xs @ [(False, r)]) = live_slots xs @ [(length xs, r)]"
  by (simp add: live_slots_def enumerate_append_eq)

lemma live_slots_Nil [simp]: "live_slots [] = []"
  by (simp add: live_slots_def)

lemma live_slots_mem: "(i, r) \<in> set (live_slots xs) \<longleftrightarrow> i < length xs \<and> xs ! i = (False, r)"
  by (force simp: live_slots_def in_set_enumerate_eq image_iff)

lemma live_slots_delete:
  "live_slots (xs[i := (True, r)]) = filter (\<lambda>(j, _). j \<noteq> i) (live_slots xs)"
proof (induction xs rule: rev_induct)
  case Nil
  then show ?case by simp
next
  case (snoc x xs)
  have snoc_eq: "live_slots (ys @ [y]) = live_slots ys @ (if fst y then [] else [(length ys, snd y)])"
    for ys :: "(bool \<times> 'a) list" and y
    by (cases y) (simp add: live_slots_def enumerate_append_eq)
  have "\<forall>(j, s) \<in> set (live_slots xs). j < length xs" by (auto simp: live_slots_mem)
  then have "filter (\<lambda>(j, _). j \<noteq> length xs) (live_slots xs) = live_slots xs"
    by (intro filter_True) auto
  with snoc.IH show ?case
    by (cases "i < length xs")
      (auto simp: list_update_append snoc_eq list_update_beyond split: nat.splits)
qed

locale slot_store =
  fixes ok :: "'p \<Rightarrow> bool"
    and slots :: "'p \<Rightarrow> (bool \<times> 'r) list"
    and ins :: "'p \<Rightarrow> 'r \<Rightarrow> 'i option \<times> 'p"
    and del :: "'p \<Rightarrow> 'i \<Rightarrow> 'p"
    and idx :: "'i \<Rightarrow> nat"
  assumes ins_None: "ok p \<Longrightarrow> ins p r = (None, q) \<Longrightarrow> q = p"
    and ins_Some: "ok p \<Longrightarrow> ins p r = (Some i, q) \<Longrightarrow>
      ok q \<and> idx i = length (slots p) \<and> slots q = slots p @ [(False, r)]"
    and del_slots: "ok p \<Longrightarrow> idx i < length (slots p) \<Longrightarrow>
      ok (del p i) \<and> slots (del p i) = (slots p)[idx i := (True, snd (slots p ! idx i))]"
begin

lemma ins_live:
  assumes "ok p" and "ins p r = (res, q)"
  shows "live_slots (slots q) =
    live_slots (slots p) @ (case res of None \<Rightarrow> [] | Some i \<Rightarrow> [(idx i, r)])"
  using assms ins_None [OF assms(1)] ins_Some [OF assms(1)] by (auto split: option.splits)

lemma ins_ok: "ok p \<Longrightarrow> ins p r = (res, q) \<Longrightarrow> ok q"
  using ins_None ins_Some by (cases res) auto

lemma del_ok: "ok p \<Longrightarrow> idx i < length (slots p) \<Longrightarrow> ok (del p i)"
  using del_slots by blast

lemma del_live:
  assumes "ok p" and "idx i < length (slots p)"
  shows "live_slots (slots (del p i)) = filter (\<lambda>(j, _). j \<noteq> idx i) (live_slots (slots p))"
  using del_slots [OF assms] by (simp add: live_slots_delete)

lemma del_stable:
  assumes "ok p" and "idx i < length (slots p)" and "j < length (slots p)" and "j \<noteq> idx i"
  shows "slots (del p i) ! j = slots p ! j"
  using del_slots [OF assms(1,2)] assms(3,4) by simp

end

interpretation heap_page: slot_store page_ok page_slots InsertRecord DeleteRecord unat
proof
  fix p r q assume "page_ok p" "InsertRecord p r = (None, q)"
  then show "q = p" by (auto simp: page_ok_def InsertRecord_eq InsertRecord_blank split: if_splits)
next
  fix p r i q assume "page_ok p" "InsertRecord p r = (Some i, q)"
  then have ok: "heap_page_ok p" and fit: "length r + kSlotSize \<le> FreeSpace p"
    and i: "i = GetSlotCount p" "q = insert_result p r"
    by (auto simp: page_ok_def InsertRecord_eq InsertRecord_blank split: if_splits)
  show "page_ok q \<and> unat i = length (page_slots p) \<and> page_slots q = page_slots p @ [(False, r)]"
    using i insert_result_ok [OF ok fit] insert_result_slots [OF ok fit] by (simp add: page_ok_def)
next
  fix p and i :: SlotId assume "page_ok p" and i: "unat i < length (page_slots p)"
  then have ok: "heap_page_ok p" and s: "i < GetSlotCount p"
    by (auto simp: page_ok_def blank_fields word_less_nat_alt)
  show "page_ok (DeleteRecord p i) \<and>
    page_slots (DeleteRecord p i) = (page_slots p)[unat i := (True, snd (page_slots p ! unat i))]"
    using DeleteRecord_ok [OF ok s] DeleteRecord_slots [OF ok s] nth_page_slots [OF s]
    by (simp add: page_ok_def)
qed

section \<open>Properties of the slotted page\<close>

text \<open>
  C24. \<open>Page::InsertRecord\<close> on a well-formed page either stores the record or leaves the page
  alone. It succeeds exactly when the free gap holds the record and its slot entry; the record
  then gets the next slot number, every older slot keeps its record and its tombstone flag, the
  free gap shrinks by exactly the record and its entry, and the page stays well formed.
\<close>

theorem InsertRecord_correct:
  assumes "heap_page_ok p"
  shows "case InsertRecord p data of
      (None, q) \<Rightarrow> q = p \<and> FreeSpace p < length data + kSlotSize
    | (Some s, q) \<Rightarrow>
        heap_page_ok q \<and> s = GetSlotCount p \<and> page_slots q = page_slots p @ [(False, data)] \<and>
        GetPageId q = GetPageId p \<and> FreeSpace q + length data + kSlotSize = FreeSpace p"
proof (cases "length data + kSlotSize \<le> FreeSpace p")
  case True
  note f = insert_result_facts [OF assms True]
  have "FreeSpace (insert_result p data) + length data + 4 = FreeSpace p"
    using True by (auto simp: FreeSpace_def f Let_def split: if_splits)
  with True assms show ?thesis
    by (simp add: InsertRecord_eq insert_result_ok insert_result_slots f)
next
  case False
  with assms show ?thesis by (simp add: InsertRecord_eq)
qed

theorem InsertRecord_correct_witness:
  "heap_page_ok (InitHeapPage 7) \<and>
   (case InsertRecord (InitHeapPage 7) [1, 2] of
      (None, q) \<Rightarrow> False
    | (Some s, q) \<Rightarrow> s = 0 \<and> page_slots q = [(False, [1, 2])])"
proof -
  have "InsertRecord (InitHeapPage 7) [1, 2] \<noteq> (None, InitHeapPage 7)"
    by (simp add: InsertRecord_eq InitHeapPage_ok FreeSpace_def InitHeapPage_fields)
  then show ?thesis
    using InsertRecord_correct [OF InitHeapPage_ok, of 7 "[1, 2]"]
    by (auto simp: InitHeapPage_ok InitHeapPage_fields InitHeapPage_slots
        split: option.splits prod.splits)
qed

text \<open>
  \<open>Page::DeleteRecord\<close> tombstones exactly one slot: the slot is reported deleted from then
  on, no slot number is reassigned, every other slot keeps its record and flag, the record's
  bytes stay readable, and the page stays well formed.
\<close>

theorem DeleteRecord_correct:
  assumes "heap_page_ok p" and "s < GetSlotCount p"
  shows "heap_page_ok (DeleteRecord p s) \<and> IsDeleted (DeleteRecord p s) s \<and>
    GetRecord (DeleteRecord p s) s = GetRecord p s \<and>
    page_slots (DeleteRecord p s) = (page_slots p)[unat s := (True, GetRecord p s)]"
proof -
  have count: "s < GetSlotCount (DeleteRecord p s)" using assms by (simp add: DeleteRecord_facts)
  have "page_slots (DeleteRecord p s) ! unat s = (True, GetRecord p s)"
    using assms by (simp add: DeleteRecord_slots word_less_nat_alt)
  with nth_page_slots [OF count] show ?thesis
    using assms by (simp add: DeleteRecord_ok DeleteRecord_slots)
qed

theorem DeleteRecord_correct_witness:
  "let p = snd (InsertRecord (InitHeapPage 0) [9]) in
     heap_page_ok p \<and> 0 < GetSlotCount p \<and> page_slots (DeleteRecord p 0) = [(True, [9])]"
proof -
  define p where "p = snd (InsertRecord (InitHeapPage 0) [9])"
  have fit: "length [9 :: byte] + kSlotSize \<le> FreeSpace (InitHeapPage 0)"
    by (simp add: FreeSpace_def InitHeapPage_fields)
  have p: "p = insert_result (InitHeapPage 0) [9]"
    using fit by (simp add: p_def InsertRecord_eq InitHeapPage_ok)
  have ok: "heap_page_ok p" using insert_result_ok [OF InitHeapPage_ok fit] by (simp add: p)
  have sl: "page_slots p = [(False, [9])]"
    using insert_result_slots [OF InitHeapPage_ok fit] by (simp add: p InitHeapPage_slots)
  have s: "0 < GetSlotCount p"
    using insert_result_facts(2) [OF InitHeapPage_ok fit] by (simp add: p word_less_nat_alt)
  have "GetRecord p 0 = [9]" using nth_page_slots [OF s] sl by simp
  with DeleteRecord_correct [OF ok s] ok s sl show ?thesis by (simp add: p_def [symmetric])
qed

end
