(* ===== verification/Disk_Manager.thy ===== *)
theory Disk_Manager
  imports Slotted_Page
begin

text \<open>
  The page file of \<open>src/src/storage/disk_manager.h\<close> and \<open>disk_manager.cpp\<close>: the bytes of one file,
  the 32-bit page counter, and the capacity of the file system (an \<open>ftruncate\<close> beyond it fails).
  The short-transfer loops \<open>FullPRead\<close> and \<open>FullPWrite\<close> run against an arbitrary schedule of
  kernel transfers. The locale \<open>kv_store\<close> is the read-after-write contract the buffer pool and
  recovery rely on.
\<close>

record disk =
  disk_file :: "byte list"
  next_page_id :: PageId
  disk_capacity :: nat

section \<open>Short reads and writes\<close>

text \<open>
  One kernel call: interrupted, failed, or a transfer of at most the given number of bytes (at
  least one, as \<open>pread\<close> and \<open>pwrite\<close> return for a non-empty request inside the file). After the
  listed calls every call transfers all it can.
\<close>

datatype io_step = Eintr | Io_error | Transfer nat

primrec FullPRead :: "io_step list \<Rightarrow> byte list \<Rightarrow> nat \<Rightarrow> nat \<Rightarrow> exn + byte list" where
  "FullPRead [] fl count off =
     (let got = read_bytes fl off count
      in if length got < count then Inl (Runtime_error ''pread hit EOF'') else Inr got)"
| "FullPRead (st # steps) fl count off =
     (if count = 0 then Inr []
      else case st of
          Eintr \<Rightarrow> FullPRead steps fl count off
        | Io_error \<Rightarrow> Inl (Runtime_error ''pread failed'')
        | Transfer k \<Rightarrow>
            (let n = min count (min (max 1 k) (length fl - off))
             in if n = 0 then Inl (Runtime_error ''pread hit EOF'')
                else case FullPRead steps fl (count - n) (off + n) of
                    Inl e \<Rightarrow> Inl e
                  | Inr rest \<Rightarrow> Inr (read_bytes fl off n @ rest)))"

definition pwrite :: "byte list \<Rightarrow> nat \<Rightarrow> byte list \<Rightarrow> byte list" where
  "pwrite fl off bs = write_bytes (fl @ replicate (off - length fl) 0) off bs"

primrec FullPWrite :: "io_step list \<Rightarrow> byte list \<Rightarrow> byte list \<Rightarrow> nat \<Rightarrow> (exn + unit) \<times> byte list" where
  "FullPWrite [] fl bs off = (Inr (), if bs = [] then fl else pwrite fl off bs)"
| "FullPWrite (st # steps) fl bs off =
     (if bs = [] then (Inr (), fl)
      else case st of
          Eintr \<Rightarrow> FullPWrite steps fl bs off
        | Io_error \<Rightarrow> (Inl (Runtime_error ''pwrite failed''), fl)
        | Transfer k \<Rightarrow>
            (let n = min (length bs) (max 1 k)
             in FullPWrite steps (pwrite fl off (take n bs)) (drop n bs) (off + n)))"

lemma read_bytes_split:
  "n \<le> m \<Longrightarrow> read_bytes f off n @ read_bytes f (off + n) (m - n) = read_bytes f off m"
  by (metis add.commute drop_drop le_add_diff_inverse read_bytes_def take_add)

lemma FullPRead_complete:
  "Io_error \<notin> set steps \<Longrightarrow> off + count \<le> length fl \<Longrightarrow>
   FullPRead steps fl count off = Inr (read_bytes fl off count)"
proof (induction steps arbitrary: count off)
  case Nil
  then show ?case by (simp add: read_bytes_def)
next
  case (Cons st steps)
  show ?case
  proof (cases "count = 0")
    case True
    then show ?thesis by (simp add: read_bytes_def)
  next
    case False
    show ?thesis
    proof (cases st)
      case (Transfer k)
      define n where "n = min count (min (max 1 k) (length fl - off))"
      from Cons.prems False have n: "n \<noteq> 0" "n \<le> count" by (auto simp: n_def)
      have "FullPRead steps fl (count - n) (off + n) = Inr (read_bytes fl (off + n) (count - n))"
        using Cons.prems n by (intro Cons.IH) auto
      with n read_bytes_split [OF n(2), of fl off] False Transfer show ?thesis
        by (simp only: FullPRead.simps Let_def n_def [symmetric] if_False sum.case io_step.case)
    qed (use Cons False in auto)
  qed
qed

lemma pwrite_inside: "off + length bs \<le> length fl \<Longrightarrow> pwrite fl off bs = write_bytes fl off bs"
  by (simp add: pwrite_def)

lemma write_bytes_split:
  "off + length (xs @ ys) \<le> length f \<Longrightarrow>
   write_bytes (write_bytes f off xs) (off + length xs) ys = write_bytes f off (xs @ ys)"
  by (simp add: write_bytes_def add_ac)

lemma FullPWrite_complete:
  "Io_error \<notin> set steps \<Longrightarrow> off + length bs \<le> length fl \<Longrightarrow>
   FullPWrite steps fl bs off = (Inr (), write_bytes fl off bs)"
proof (induction steps arbitrary: fl bs off)
  case Nil
  then show ?case by (simp add: pwrite_inside write_bytes_def)
next
  case (Cons st steps)
  show ?case
  proof (cases "bs = []")
    case True
    then show ?thesis by (simp add: write_bytes_def)
  next
    case False
    show ?thesis
    proof (cases st)
      case (Transfer k)
      define n where "n = min (length bs) (max 1 k)"
      let ?xs = "take n bs" and ?ys = "drop n bs"
      have n: "length ?xs = n" by (simp add: n_def)
      have w: "pwrite fl off ?xs = write_bytes fl off ?xs"
        using Cons.prems(2) by (intro pwrite_inside) (simp add: n_def)
      have "FullPWrite steps (pwrite fl off ?xs) ?ys (off + n) =
          (Inr (), write_bytes (pwrite fl off ?xs) (off + n) ?ys)"
        using Cons.prems n w by (intro Cons.IH) (auto simp: n_def length_write_bytes)
      also have "write_bytes (pwrite fl off ?xs) (off + n) ?ys = write_bytes fl off bs"
        using write_bytes_split [of off ?xs ?ys fl] Cons.prems(2) n w by simp
      finally show ?thesis using False Transfer by (simp add: Let_def n_def)
    qed (use Cons False in auto)
  qed
qed

section \<open>The disk manager\<close>

definition ftruncate :: "nat \<Rightarrow> byte list \<Rightarrow> byte list" where
  "ftruncate n fl = take n fl @ replicate (n - length fl) 0"

definition DiskManager_open :: "nat \<Rightarrow> byte list \<Rightarrow> exn + disk" where
  "DiskManager_open capacity fl =
     (if length fl mod PAGE_SIZE \<noteq> 0
      then Inl (Runtime_error ''size is not a multiple of PAGE_SIZE'')
      else Inr \<lparr>disk_file = fl, next_page_id = of_nat (length fl div PAGE_SIZE),
                disk_capacity = capacity\<rparr>)"

definition AllocatePage :: "(disk, PageId) operation" where
  "AllocatePage d =
     (let pid = next_page_id d;
          d1 = d\<lparr>next_page_id := pid + 1\<rparr>;
          new_size = unat (pid + 1) * PAGE_SIZE
      in if disk_capacity d < new_size then (Inl (Runtime_error ''ftruncate failed''), d1)
         else (Inr pid, d1\<lparr>disk_file := ftruncate new_size (disk_file d)\<rparr>))"

definition ReadPage :: "PageId \<Rightarrow> disk \<Rightarrow> exn + page" where
  "ReadPage pid d =
     (if next_page_id d \<le> pid then Inl (Out_of_range ''DiskManager::ReadPage'')
      else FullPRead [] (disk_file d) PAGE_SIZE (unat pid * PAGE_SIZE))"

definition WritePage :: "PageId \<Rightarrow> page \<Rightarrow> (disk, unit) operation" where
  "WritePage pid buf d =
     (if next_page_id d \<le> pid then (Inl (Out_of_range ''DiskManager::WritePage''), d)
      else case FullPWrite [] (disk_file d) buf (unat pid * PAGE_SIZE) of
          (r, fl) \<Rightarrow> (r, d\<lparr>disk_file := fl\<rparr>))"

definition NumPages :: "disk \<Rightarrow> nat" where
  "NumPages d = unat (next_page_id d)"

definition ResetFile :: "disk \<Rightarrow> disk" where
  "ResetFile d = d\<lparr>disk_file := ftruncate 0 (disk_file d), next_page_id := 0\<rparr>"

section \<open>Invariant and contract\<close>

definition disk_ok :: "disk \<Rightarrow> bool" where
  "disk_ok d \<longleftrightarrow> length (disk_file d) = unat (next_page_id d) * PAGE_SIZE"

definition disk_has :: "disk \<Rightarrow> PageId \<Rightarrow> bool" where
  "disk_has d pid \<longleftrightarrow> pid < next_page_id d"

definition disk_page :: "disk \<Rightarrow> PageId \<Rightarrow> page" where
  "disk_page d pid = read_bytes (disk_file d) (unat pid * PAGE_SIZE) PAGE_SIZE"

definition put_page :: "PageId \<Rightarrow> page \<Rightarrow> disk \<Rightarrow> disk" where
  "put_page pid buf d = d\<lparr>disk_file := write_bytes (disk_file d) (unat pid * PAGE_SIZE) buf\<rparr>"

lemma page_extent:
  "disk_ok d \<Longrightarrow> disk_has d pid \<Longrightarrow> unat pid * PAGE_SIZE + PAGE_SIZE \<le> length (disk_file d)"
  by (simp add: disk_ok_def disk_has_def word_less_nat_alt)

lemma length_disk_page: "disk_ok d \<Longrightarrow> disk_has d pid \<Longrightarrow> length (disk_page d pid) = PAGE_SIZE"
  using page_extent by (simp add: disk_page_def length_read_bytes)

lemma ReadPage_eq:
  "disk_ok d \<Longrightarrow> ReadPage pid d =
     (if disk_has d pid then Inr (disk_page d pid) else Inl (Out_of_range ''DiskManager::ReadPage''))"
  using page_extent [of d pid]
  by (auto simp: ReadPage_def disk_page_def disk_has_def FullPRead_complete not_le
      simp del: FullPRead.simps)

lemma WritePage_eq:
  "disk_ok d \<Longrightarrow> length buf = PAGE_SIZE \<Longrightarrow> WritePage pid buf d =
     (if disk_has d pid then (Inr (), put_page pid buf d)
      else (Inl (Out_of_range ''DiskManager::WritePage''), d))"
  using page_extent [of d pid]
  by (auto simp: WritePage_def put_page_def disk_has_def FullPWrite_complete not_le
      simp del: FullPWrite.simps)

lemma put_page_fields [simp]:
  "next_page_id (put_page pid buf d) = next_page_id d" "disk_capacity (put_page pid buf d) = disk_capacity d"
  "disk_has (put_page pid buf d) q = disk_has d q"
  by (simp_all add: put_page_def disk_has_def)

lemma put_page_ok:
  "disk_ok d \<Longrightarrow> disk_has d pid \<Longrightarrow> length buf = PAGE_SIZE \<Longrightarrow> disk_ok (put_page pid buf d)"
  using page_extent [of d pid] by (simp add: put_page_def disk_ok_def length_write_bytes)

lemma page_ranges_disjoint:
  "(a :: PageId) \<noteq> b \<Longrightarrow> unat a * PAGE_SIZE + PAGE_SIZE \<le> unat b * PAGE_SIZE \<or>
    unat b * PAGE_SIZE + PAGE_SIZE \<le> unat a * PAGE_SIZE"
proof -
  assume "a \<noteq> b"
  then have "unat a \<noteq> unat b" by (simp add: word_unat_eq_iff)
  then show ?thesis by auto
qed

lemma disk_page_put_page:
  assumes ok: "disk_ok d" and p: "disk_has d pid" and q: "disk_has d qid" and len: "length buf = PAGE_SIZE"
  shows "disk_page (put_page pid buf d) qid = (if qid = pid then buf else disk_page d qid)"
proof (cases "qid = pid")
  case True
  with page_extent [OF ok p] len show ?thesis
    by (simp add: disk_page_def put_page_def read_write_same)
next
  case False
  from page_ranges_disjoint [OF this] page_extent [OF ok p] page_extent [OF ok q] len show ?thesis
    by (auto simp: disk_page_def put_page_def read_write_before read_write_after False)
qed

text \<open>
  The contract of a keyed store of fixed-size values: a write to an existing key is read back
  there and nowhere else, and creates or removes no key.
\<close>

locale kv_store =
  fixes ok :: "'s \<Rightarrow> bool"
    and has :: "'s \<Rightarrow> 'k \<Rightarrow> bool"
    and fits :: "'v \<Rightarrow> bool"
    and lookup :: "'s \<Rightarrow> 'k \<Rightarrow> 'v"
    and store :: "'k \<Rightarrow> 'v \<Rightarrow> 's \<Rightarrow> 's"
  assumes store_ok: "ok s \<Longrightarrow> has s k \<Longrightarrow> fits v \<Longrightarrow> ok (store k v s)"
    and store_has: "ok s \<Longrightarrow> has s k \<Longrightarrow> fits v \<Longrightarrow> has (store k v s) j = has s j"
    and lookup_store: "ok s \<Longrightarrow> has s k \<Longrightarrow> fits v \<Longrightarrow> has s j \<Longrightarrow>
      lookup (store k v s) j = (if j = k then v else lookup s j)"
begin

lemma stores_ok_has:
  "ok s \<Longrightarrow> \<forall>(k, v) \<in> set ws. has s k \<and> fits v \<Longrightarrow>
   ok (fold (\<lambda>(k, v). store k v) ws s) \<and> (\<forall>j. has (fold (\<lambda>(k, v). store k v) ws s) j = has s j)"
proof (induction ws arbitrary: s)
  case Nil
  then show ?case by simp
next
  case (Cons w ws)
  obtain k v where w: "w = (k, v)" by (cases w)
  with Cons.prems have kv: "has s k" "fits v" by auto
  have "ok (store k v s)" using Cons.prems(1) kv by (rule store_ok)
  moreover have "\<forall>(j, u) \<in> set ws. has (store k v s) j \<and> fits u"
    using Cons.prems kv by (auto simp: store_has)
  ultimately show ?case using Cons.IH Cons.prems(1) kv by (simp add: w store_has)
qed

text \<open>A sequence of writes leaves every key with the last value written to it.\<close>

lemma lookup_stores:
  "ok s \<Longrightarrow> \<forall>(k, v) \<in> set ws. has s k \<and> fits v \<Longrightarrow> has s j \<Longrightarrow>
   lookup (fold (\<lambda>(k, v). store k v) ws s) j =
     (case map_of (rev ws) j of None \<Rightarrow> lookup s j | Some v \<Rightarrow> v)"
proof (induction ws rule: rev_induct)
  case Nil
  then show ?case by simp
next
  case (snoc w ws)
  obtain k v where w: "w = (k, v)" by (cases w)
  let ?t = "fold (\<lambda>(k, v). store k v) ws s"
  have "ok ?t" "\<forall>j. has ?t j = has s j" using stores_ok_has snoc.prems by auto
  with snoc show ?case by (auto simp: w lookup_store)
qed

text \<open>Replaying the same writes once more changes nothing that can be read.\<close>

lemma lookup_stores_twice:
  assumes "ok s" and ws: "\<forall>(k, v) \<in> set ws. has s k \<and> fits v" and "has s j"
  shows "lookup (fold (\<lambda>(k, v). store k v) ws (fold (\<lambda>(k, v). store k v) ws s)) j =
    lookup (fold (\<lambda>(k, v). store k v) ws s) j"
proof -
  let ?t = "fold (\<lambda>(k, v). store k v) ws s"
  have t: "ok ?t" "\<And>j. has ?t j = has s j" using stores_ok_has assms by auto
  then show ?thesis
    using assms lookup_stores [of ?t ws j] lookup_stores [of s ws j] by (simp split: option.split)
qed

end

interpretation disk_store: kv_store disk_ok disk_has "\<lambda>p. length p = PAGE_SIZE" disk_page put_page
  by unfold_locales (simp_all add: put_page_ok disk_page_put_page)

section \<open>Allocation\<close>

lemma AllocatePage_ok:
  assumes ok: "disk_ok d" and room: "unat (next_page_id d) + 1 < 2 ^ 32"
    and alloc: "AllocatePage d = (Inr pid, d')"
  shows "disk_ok d'" and "pid = next_page_id d" and "next_page_id d' = pid + 1"
    and "disk_capacity d' = disk_capacity d"
    and "disk_page d' pid = blank_page" and "\<And>q. disk_has d q \<Longrightarrow> disk_page d' q = disk_page d q"
    and "disk_has d' q \<longleftrightarrow> disk_has d q \<or> q = pid"
proof -
  let ?n = "next_page_id d"
  have n1: "unat (?n + 1) = Suc (unat ?n)" using room by (intro unat_Suc_small) simp
  from alloc have d': "d' = d\<lparr>next_page_id := ?n + 1,
      disk_file := ftruncate (unat (?n + 1) * 4096) (disk_file d)\<rparr>" and pid: "pid = ?n"
    by (auto simp: AllocatePage_def Let_def split: if_splits)
  have fl: "disk_file d' = disk_file d @ blank_page"
  proof -
    have "length (disk_file d) \<le> Suc (unat ?n) * 4096" "Suc (unat ?n) * 4096 - length (disk_file d) = 4096"
      using ok by (simp_all add: disk_ok_def)
    then show ?thesis by (simp only: d' n1 ftruncate_def blank_page_def take_all) simp
  qed
  show "disk_ok d'" using ok fl n1 by (simp add: disk_ok_def d')
  show "pid = ?n" "next_page_id d' = pid + 1" "disk_capacity d' = disk_capacity d"
    by (simp_all add: d' pid)
  show "disk_page d' pid = blank_page"
    using ok by (simp add: disk_page_def fl pid read_bytes_def disk_ok_def)
  show "disk_page d' q = disk_page d q" if "disk_has d q" for q
    using page_extent [OF ok that] by (simp add: disk_page_def fl read_bytes_append1)
  show "disk_has d' q \<longleftrightarrow> disk_has d q \<or> q = pid"
    by (auto simp: disk_has_def d' pid word_less_nat_alt word_unat_eq_iff n1)
qed

lemma DiskManager_open_ok:
  "DiskManager_open cap fl = Inr d \<Longrightarrow> length fl div PAGE_SIZE < 2 ^ 32 \<Longrightarrow> disk_ok d"
proof -
  assume "length fl div PAGE_SIZE < 2 ^ 32"
  then have "unat (of_nat (length fl div 4096) :: PageId) = length fl div 4096"
    by (intro unat_of_nat_small) simp
  then show "DiskManager_open cap fl = Inr d \<Longrightarrow> disk_ok d"
    by (auto simp: DiskManager_open_def disk_ok_def split: if_splits)
qed

end
