(* ===== verification/Buffer_Pool.thy ===== *)
theory Buffer_Pool
  imports Disk_Manager
begin

text \<open>
  The no-eviction page cache of \<open>src/src/storage/buffer_pool.h\<close> and \<open>buffer_pool.cpp\<close>. The logical
  content of a page is its cached copy or, when it was never fetched, its bytes in the file;
  \<open>pool_ok\<close> says that a clean cached page equals the file. A \<open>std::function\<close> observer is kept as
  the data its closure captures: the transaction to notify and the object the pool belongs to.
\<close>

type_synonym observer = "TxnId \<times> ObjectId"
type_synonym notification = "(TxnId \<times> PageKey) option"

record pool =
  bp_pages :: "PageId \<rightharpoonup> page"
  bp_dirty :: "PageId set"
  bp_observers :: "thread_id \<rightharpoonup> observer"
  bp_disk :: disk

definition BufferPool_init :: "disk \<Rightarrow> pool" where
  "BufferPool_init d =
     \<lparr>bp_pages = Map.empty, bp_dirty = {}, bp_observers = Map.empty, bp_disk = d\<rparr>"

section \<open>Operations\<close>

definition MarkDirtyLocked :: "thread_id \<Rightarrow> PageId \<Rightarrow> pool \<Rightarrow> notification \<times> pool" where
  "MarkDirtyLocked tid pid bp =
     (map_option (\<lambda>(txn, oid). (txn, PageKey oid pid)) (bp_observers bp tid),
      bp\<lparr>bp_dirty := insert pid (bp_dirty bp)\<rparr>)"

definition MarkDirty :: "thread_id \<Rightarrow> PageId \<Rightarrow> pool \<Rightarrow> notification \<times> pool" where
  "MarkDirty tid pid bp = MarkDirtyLocked tid pid bp"

definition NewPage :: "thread_id \<Rightarrow> (pool, PageId \<times> notification) operation" where
  "NewPage tid bp =
     (case AllocatePage (bp_disk bp) of
        (Inl e, d) \<Rightarrow> (Inl e, bp\<lparr>bp_disk := d\<rparr>)
      | (Inr pid, d) \<Rightarrow>
          (case MarkDirtyLocked tid pid
                  (bp\<lparr>bp_disk := d, bp_pages := (bp_pages bp)(pid \<mapsto> blank_page)\<rparr>) of
             (n, bp') \<Rightarrow> (Inr (pid, n), bp')))"

text \<open>Writing through the stable \<open>Page*\<close> of a cached page.\<close>

definition write_page :: "PageId \<Rightarrow> page \<Rightarrow> pool \<Rightarrow> pool" where
  "write_page pid p bp = bp\<lparr>bp_pages := (bp_pages bp)(pid \<mapsto> p)\<rparr>"

definition NewHeapPage :: "thread_id \<Rightarrow> (pool, PageId \<times> notification) operation" where
  "NewHeapPage tid =
     bind_op (NewPage tid)
       (\<lambda>(pid, n). bind_op (modify_op (write_page pid (InitHeapPage pid)))
          (\<lambda>_. return_op (pid, n)))"

definition FetchPage :: "PageId \<Rightarrow> (pool, page) operation" where
  "FetchPage pid bp =
     (case bp_pages bp pid of
        Some p \<Rightarrow> (Inr p, bp)
      | None \<Rightarrow>
          (case ReadPage pid (bp_disk bp) of
             Inl e \<Rightarrow> (Inl e, bp)
           | Inr p \<Rightarrow> (Inr p, bp\<lparr>bp_pages := (bp_pages bp)(pid \<mapsto> p)\<rparr>)))"

definition flush_one :: "PageId \<Rightarrow> (pool, unit) operation" where
  "flush_one pid bp =
     (case bp_pages bp pid of
        None \<Rightarrow> (Inr (), bp)
      | Some p \<Rightarrow> (case WritePage pid p (bp_disk bp) of (r, d) \<Rightarrow> (r, bp\<lparr>bp_disk := d\<rparr>)))"

text \<open>
  \<open>FlushAll\<close> walks an unordered set; the model walks it in increasing page order, which the
  result does not depend on (every page is written to its own range of the file).
\<close>

definition FlushAll :: "(pool, unit) operation" where
  "FlushAll bp =
     bind_op (for_each (sorted_list_of_set (bp_dirty bp)) flush_one)
       (\<lambda>_. modify_op (\<lambda>b. b\<lparr>bp_dirty := {}\<rparr>)) bp"

definition flush_if_dirty :: "PageId \<Rightarrow> (pool, unit) operation" where
  "flush_if_dirty pid bp =
     (if bp_pages bp pid \<noteq> None \<and> pid \<in> bp_dirty bp
      then bind_op (flush_one pid) (\<lambda>_. modify_op (\<lambda>b. b\<lparr>bp_dirty := bp_dirty b - {pid}\<rparr>)) bp
      else (Inr (), bp))"

definition FlushPages :: "PageId set \<Rightarrow> (pool, unit) operation" where
  "FlushPages pids = for_each (sorted_list_of_set pids) flush_if_dirty"

definition NumPagesInMemory :: "pool \<Rightarrow> nat" where
  "NumPagesInMemory bp = card (dom (bp_pages bp))"

definition NumPagesOnDisk :: "pool \<Rightarrow> nat" where
  "NumPagesOnDisk bp = NumPages (bp_disk bp)"

definition ResetAll :: "pool \<Rightarrow> pool" where
  "ResetAll bp = bp\<lparr>bp_pages := Map.empty, bp_dirty := {}, bp_disk := ResetFile (bp_disk bp)\<rparr>"

definition SetActiveTransactionObserver :: "thread_id \<Rightarrow> observer \<Rightarrow> pool \<Rightarrow> pool" where
  "SetActiveTransactionObserver tid obs bp = bp\<lparr>bp_observers := (bp_observers bp)(tid \<mapsto> obs)\<rparr>"

definition ClearActiveTransactionObserver :: "thread_id \<Rightarrow> pool \<Rightarrow> pool" where
  "ClearActiveTransactionObserver tid bp = bp\<lparr>bp_observers := (bp_observers bp)(tid := None)\<rparr>"

definition DiscardPage :: "PageId \<Rightarrow> (pool, unit) operation" where
  "DiscardPage pid bp =
     (case bp_pages bp pid of
        None \<Rightarrow> (Inr (), bp)
      | Some _ \<Rightarrow>
          (case ReadPage pid (bp_disk bp) of
             Inl e \<Rightarrow> (Inl e, bp)
           | Inr p \<Rightarrow>
               (Inr (), bp\<lparr>bp_pages := (bp_pages bp)(pid \<mapsto> p), bp_dirty := bp_dirty bp - {pid}\<rparr>)))"

section \<open>Invariant and logical content\<close>

definition pool_has :: "pool \<Rightarrow> PageId \<Rightarrow> bool" where
  "pool_has bp pid \<longleftrightarrow> disk_has (bp_disk bp) pid"

definition pool_page :: "pool \<Rightarrow> PageId \<Rightarrow> page" where
  "pool_page bp pid = (case bp_pages bp pid of Some p \<Rightarrow> p | None \<Rightarrow> disk_page (bp_disk bp) pid)"

text \<open>Structural part: what holds even between a write through a \<open>Page*\<close> and its \<open>MarkDirty\<close>.\<close>

definition pool_wf :: "pool \<Rightarrow> bool" where
  "pool_wf bp \<longleftrightarrow>
     disk_ok (bp_disk bp) \<and> finite (bp_dirty bp) \<and> bp_dirty bp \<subseteq> dom (bp_pages bp) \<and>
     (\<forall>pid p. bp_pages bp pid = Some p \<longrightarrow> pool_has bp pid \<and> length p = PAGE_SIZE)"

definition pool_ok :: "pool \<Rightarrow> bool" where
  "pool_ok bp \<longleftrightarrow>
     pool_wf bp \<and>
     (\<forall>pid p. bp_pages bp pid = Some p \<longrightarrow> pid \<notin> bp_dirty bp \<longrightarrow> p = disk_page (bp_disk bp) pid)"

named_theorems pool_simps

lemma pool_has_simps [simp, pool_simps]:
  "pool_has (bp\<lparr>bp_pages := m\<rparr>) pid = pool_has bp pid"
  "pool_has (bp\<lparr>bp_dirty := D\<rparr>) pid = pool_has bp pid"
  "pool_has (bp\<lparr>bp_observers := obs\<rparr>) pid = pool_has bp pid"
  "pool_has (bp\<lparr>bp_disk := d\<rparr>) pid = disk_has d pid"
  by (simp_all add: pool_has_def)

lemma pool_page_simps [simp, pool_simps]:
  "pool_page (bp\<lparr>bp_dirty := D\<rparr>) pid = pool_page bp pid"
  "pool_page (bp\<lparr>bp_observers := obs\<rparr>) pid = pool_page bp pid"
  "pool_page (bp\<lparr>bp_pages := (bp_pages bp)(q \<mapsto> p)\<rparr>) pid = (if pid = q then p else pool_page bp pid)"
  by (simp_all add: pool_page_def split: option.split)

lemma length_pool_page: "pool_wf bp \<Longrightarrow> pool_has bp pid \<Longrightarrow> length (pool_page bp pid) = PAGE_SIZE"
  by (auto simp: pool_wf_def pool_page_def pool_has_def length_disk_page split: option.splits)

lemma BufferPool_init_ok: "disk_ok d \<Longrightarrow> pool_ok (BufferPool_init d)"
  by (simp add: pool_ok_def pool_wf_def BufferPool_init_def)

lemma pool_ok_wf: "pool_ok bp \<Longrightarrow> pool_wf bp"
  by (simp add: pool_ok_def)

subsection \<open>Fetching\<close>

lemma FetchPage_eq:
  assumes "pool_wf bp"
  shows "FetchPage pid bp =
    (if pool_has bp pid then (Inr (pool_page bp pid), bp\<lparr>bp_pages := (bp_pages bp)(pid \<mapsto> pool_page bp pid)\<rparr>)
     else (Inl (Out_of_range ''DiskManager::ReadPage''), bp))"
proof -
  have "bp\<lparr>bp_pages := (bp_pages bp)(pid \<mapsto> p)\<rparr> = bp" if "bp_pages bp pid = Some p" for p
    using that by (simp add: map_upd_triv)
  moreover have "pool_has bp pid" if "bp_pages bp pid = Some p" for p
    using assms that by (auto simp: pool_wf_def)
  ultimately show ?thesis
    using assms
    by (auto simp: FetchPage_def pool_page_def pool_has_def ReadPage_eq pool_wf_def split: option.splits)
qed

lemma fetch_wf:
  "pool_wf bp \<Longrightarrow> pool_has bp pid \<Longrightarrow> pool_wf (bp\<lparr>bp_pages := (bp_pages bp)(pid \<mapsto> pool_page bp pid)\<rparr>)"
  using length_pool_page by (auto simp: pool_wf_def)

lemma fetch_ok:
  "pool_ok bp \<Longrightarrow> pool_has bp pid \<Longrightarrow> pool_ok (bp\<lparr>bp_pages := (bp_pages bp)(pid \<mapsto> pool_page bp pid)\<rparr>)"
  using fetch_wf [of bp pid] by (auto simp: pool_ok_def pool_page_def split: option.splits if_splits)

subsection \<open>Writing through a page pointer\<close>

lemma write_page_wf:
  "pool_wf bp \<Longrightarrow> pool_has bp pid \<Longrightarrow> length p = PAGE_SIZE \<Longrightarrow> pool_wf (write_page pid p bp)"
  by (auto simp: pool_wf_def write_page_def)

lemma write_mark_ok:
  assumes "pool_ok bp" and "pool_has bp pid" and "length p = PAGE_SIZE"
  shows "pool_ok (snd (MarkDirty tid pid (write_page pid p bp)))"
  using assms
  by (auto simp: pool_ok_def pool_wf_def MarkDirty_def MarkDirtyLocked_def write_page_def)

lemma write_page_fields [simp, pool_simps]:
  "bp_disk (write_page pid p bp) = bp_disk bp" "bp_dirty (write_page pid p bp) = bp_dirty bp"
  "bp_observers (write_page pid p bp) = bp_observers bp"
  "pool_has (write_page pid p bp) q = pool_has bp q"
  "pool_page (write_page pid p bp) q = (if q = pid then p else pool_page bp q)"
  by (simp_all add: write_page_def)

lemma MarkDirty_fields [simp, pool_simps]:
  "bp_disk (snd (MarkDirty tid pid bp)) = bp_disk bp"
  "bp_pages (snd (MarkDirty tid pid bp)) = bp_pages bp"
  "bp_dirty (snd (MarkDirty tid pid bp)) = insert pid (bp_dirty bp)"
  "bp_observers (snd (MarkDirty tid pid bp)) = bp_observers bp"
  "pool_has (snd (MarkDirty tid pid bp)) q = pool_has bp q"
  "pool_page (snd (MarkDirty tid pid bp)) q = pool_page bp q"
  by (simp_all add: MarkDirty_def MarkDirtyLocked_def)

subsection \<open>Flushing\<close>

lemma flush_one_eq:
  assumes "pool_wf bp" and "bp_pages bp pid = Some p"
  shows "flush_one pid bp = (Inr (), bp\<lparr>bp_disk := put_page pid p (bp_disk bp)\<rparr>)"
  using assms by (auto simp: flush_one_def pool_wf_def WritePage_eq pool_has_def)

definition flushed :: "PageId \<Rightarrow> pool \<Rightarrow> pool" where
  "flushed pid bp =
     (if pid \<in> bp_dirty bp
      then bp\<lparr>bp_disk := put_page pid (pool_page bp pid) (bp_disk bp), bp_dirty := bp_dirty bp - {pid}\<rparr>
      else bp)"

lemma flush_if_dirty_eq:
  assumes "pool_wf bp"
  shows "flush_if_dirty pid bp = (Inr (), flushed pid bp)"
proof (cases "pid \<in> bp_dirty bp")
  case True
  with assms obtain p where p: "bp_pages bp pid = Some p" by (auto simp: pool_wf_def)
  with True assms show ?thesis
    by (simp add: flush_if_dirty_def flushed_def bind_op_def flush_one_eq pool_page_def)
next
  case False
  then show ?thesis by (simp add: flush_if_dirty_def flushed_def)
qed

lemma flushed_wf: "pool_wf bp \<Longrightarrow> pool_wf (flushed pid bp)"
proof -
  assume wf: "pool_wf bp"
  show ?thesis
  proof (cases "pid \<in> bp_dirty bp")
    case True
    with wf obtain p where p: "bp_pages bp pid = Some p" by (auto simp: pool_wf_def)
    with wf have has: "pool_has bp pid" "length p = 4096" by (auto simp: pool_wf_def)
    with wf have "disk_ok (put_page pid p (bp_disk bp))"
      by (simp add: put_page_ok pool_has_def pool_wf_def)
    with wf True p show ?thesis
      by (auto simp: flushed_def pool_wf_def pool_page_def pool_has_def)
  qed (use wf in \<open>simp add: flushed_def\<close>)
qed

lemma flushed_fields:
  assumes wf: "pool_wf bp"
  shows "bp_pages (flushed pid bp) = bp_pages bp"
    and "bp_observers (flushed pid bp) = bp_observers bp"
    and "bp_dirty (flushed pid bp) = bp_dirty bp - {pid}"
    and "pool_has (flushed pid bp) q = pool_has bp q"
    and "pool_has bp q \<Longrightarrow> disk_page (bp_disk (flushed pid bp)) q =
      (if q = pid \<and> pid \<in> bp_dirty bp then pool_page bp pid else disk_page (bp_disk bp) q)"
proof -
  show "bp_pages (flushed pid bp) = bp_pages bp" "bp_observers (flushed pid bp) = bp_observers bp"
    "bp_dirty (flushed pid bp) = bp_dirty bp - {pid}" "pool_has (flushed pid bp) q = pool_has bp q"
    by (auto simp: flushed_def pool_has_def)
  assume q: "pool_has bp q"
  show "disk_page (bp_disk (flushed pid bp)) q =
      (if q = pid \<and> pid \<in> bp_dirty bp then pool_page bp pid else disk_page (bp_disk bp) q)"
  proof (cases "pid \<in> bp_dirty bp")
    case True
    with wf have "pool_has bp pid" by (auto simp: pool_wf_def)
    with wf True q length_pool_page [OF wf this] show ?thesis
      by (simp add: flushed_def disk_page_put_page pool_has_def pool_wf_def)
  qed (simp add: flushed_def)
qed

lemma flushed_page: "pool_wf bp \<Longrightarrow> pool_has bp q \<Longrightarrow> pool_page (flushed pid bp) q = pool_page bp q"
proof -
  assume wf: "pool_wf bp" and q: "pool_has bp q"
  show ?thesis
  proof (cases "bp_pages bp q")
    case None
    with wf have "q \<notin> bp_dirty bp" by (auto simp: pool_wf_def)
    with None flushed_fields [OF wf] q show ?thesis by (auto simp: pool_page_def)
  qed (simp add: pool_page_def flushed_fields [OF wf])
qed

lemma flushed_ok: "pool_ok bp \<Longrightarrow> pool_ok (flushed pid bp)"
proof -
  assume ok: "pool_ok bp"
  then have wf: "pool_wf bp" by (rule pool_ok_wf)
  have "p = disk_page (bp_disk (flushed pid bp)) q"
    if "bp_pages bp q = Some p" "q \<notin> bp_dirty bp - {pid}" for p q
  proof -
    from wf that(1) have "pool_has bp q" by (auto simp: pool_wf_def)
    note disk = flushed_fields(5) [OF wf this, of pid]
    show ?thesis
    proof (cases "q \<in> bp_dirty bp")
      case True
      with that disk show ?thesis by (simp add: pool_page_def)
    next
      case False
      with ok that(1) have "p = disk_page (bp_disk bp) q" by (simp add: pool_ok_def)
      with disk False show ?thesis by auto
    qed
  qed
  with flushed_wf [OF wf, of pid] show ?thesis
    unfolding pool_ok_def flushed_fields(1) [OF wf] flushed_fields(3) [OF wf] by blast
qed

lemma for_each_flush:
  "pool_wf bp \<Longrightarrow> for_each pids flush_if_dirty bp = (Inr (), fold flushed pids bp)"
  by (induction pids arbitrary: bp) (simp_all add: bind_op_def flush_if_dirty_eq flushed_wf)

lemma fold_flushed:
  fixes pids :: "PageId list"
  assumes "pool_wf bp"
  defines "bp' \<equiv> fold flushed pids bp"
  shows "pool_wf bp' \<and> bp_pages bp' = bp_pages bp \<and> bp_observers bp' = bp_observers bp \<and>
    bp_dirty bp' = bp_dirty bp - set pids \<and> (pool_ok bp \<longrightarrow> pool_ok bp') \<and>
    (\<forall>q. pool_has bp' q = pool_has bp q) \<and>
    (\<forall>q. pool_has bp q \<longrightarrow> pool_page bp' q = pool_page bp q) \<and>
    (\<forall>q. pool_has bp q \<longrightarrow> disk_page (bp_disk bp') q =
       (if q \<in> set pids \<and> q \<in> bp_dirty bp then pool_page bp q else disk_page (bp_disk bp) q))"
  using assms(1) unfolding bp'_def
proof (induction pids arbitrary: bp)
  case Nil
  then show ?case by simp
next
  case (Cons pid pids)
  note wf = Cons.prems
  note IH = Cons.IH [OF flushed_wf [OF wf, of pid]]
  have "disk_page (bp_disk (fold flushed pids (flushed pid bp))) q =
      (if q \<in> set (pid # pids) \<and> q \<in> bp_dirty bp then pool_page bp q else disk_page (bp_disk bp) q)"
    if q: "pool_has bp q" for q
    using IH q flushed_fields [OF wf] flushed_page [OF wf q] by auto
  moreover have "pool_ok bp \<longrightarrow> pool_ok (fold flushed pids (flushed pid bp))"
    using IH flushed_ok by blast
  ultimately show ?case
    using IH flushed_fields [OF wf, of pid] flushed_page [OF wf] by auto
qed

lemma FlushPages_eq:
  "pool_wf bp \<Longrightarrow> FlushPages S bp = (Inr (), fold flushed (sorted_list_of_set S) bp)"
  by (simp add: FlushPages_def for_each_flush)

text \<open>\<open>FlushAll\<close> writes the same pages as flushing every dirty page and clearing each flag.\<close>

definition written :: "PageId \<Rightarrow> pool \<Rightarrow> pool" where
  "written pid bp = bp\<lparr>bp_disk := put_page pid (pool_page bp pid) (bp_disk bp)\<rparr>"

lemma written_wf:
  assumes wf: "pool_wf bp" and "pid \<in> bp_dirty bp"
  shows "flush_one pid bp = (Inr (), written pid bp)" and "pool_wf (written pid bp)"
    and "bp_dirty (written pid bp) = bp_dirty bp"
proof -
  from assms obtain p where p: "bp_pages bp pid = Some p" by (auto simp: pool_wf_def)
  with wf have "disk_has (bp_disk bp) pid" "length p = 4096" by (auto simp: pool_wf_def pool_has_def)
  with wf have "disk_ok (put_page pid p (bp_disk bp))" by (simp add: put_page_ok pool_wf_def)
  with wf p show "pool_wf (written pid bp)"
    by (auto simp: pool_wf_def written_def pool_page_def pool_has_def)
  show "flush_one pid bp = (Inr (), written pid bp)"
    using wf p by (simp add: flush_one_eq written_def pool_page_def)
  show "bp_dirty (written pid bp) = bp_dirty bp" by (simp add: written_def)
qed

lemma for_each_flush_one:
  "pool_wf bp \<Longrightarrow> set pids \<subseteq> bp_dirty bp \<Longrightarrow> for_each pids flush_one bp = (Inr (), fold written pids bp)"
  by (induction pids arbitrary: bp) (simp_all add: bind_op_def written_wf)

lemma written_dirty: "written pid (bp\<lparr>bp_dirty := D\<rparr>) = (written pid bp)\<lparr>bp_dirty := D\<rparr>"
  by (simp add: written_def)

lemma fold_written_dirty:
  "fold written pids (bp\<lparr>bp_dirty := D\<rparr>) = (fold written pids bp)\<lparr>bp_dirty := D\<rparr>"
  by (induction pids arbitrary: bp) (simp_all add: written_dirty)

lemma fold_written_flushed:
  "set pids \<subseteq> bp_dirty bp \<Longrightarrow> distinct pids \<Longrightarrow>
   fold flushed pids bp = (fold written pids bp)\<lparr>bp_dirty := bp_dirty bp - set pids\<rparr>"
proof (induction pids arbitrary: bp)
  case Nil
  then show ?case by simp
next
  case (Cons pid pids)
  have f: "flushed pid bp = (written pid bp)\<lparr>bp_dirty := bp_dirty bp - {pid}\<rparr>"
    using Cons.prems by (simp add: flushed_def written_def)
  have "fold flushed pids (flushed pid bp) =
      (fold written pids (flushed pid bp))\<lparr>bp_dirty := bp_dirty (flushed pid bp) - set pids\<rparr>"
    using Cons.prems by (intro Cons.IH) (auto simp: f)
  also have "bp_dirty (flushed pid bp) - set pids = bp_dirty bp - set (pid # pids)"
    by (auto simp: f)
  finally show ?case by (simp add: f fold_written_dirty)
qed

lemma FlushAll_eq:
  assumes wf: "pool_wf bp"
  shows "FlushAll bp = (Inr (), fold flushed (sorted_list_of_set (bp_dirty bp)) bp)"
proof -
  let ?ps = "sorted_list_of_set (bp_dirty bp)"
  have ps: "set ?ps = bp_dirty bp" "distinct ?ps" using wf by (auto simp: pool_wf_def)
  then have "for_each ?ps flush_one bp = (Inr (), fold written ?ps bp)"
    using wf by (simp add: for_each_flush_one)
  with fold_written_flushed [of ?ps bp] ps show ?thesis
    by (simp add: FlushAll_def bind_op_def)
qed

subsection \<open>Discarding and allocating\<close>

lemma DiscardPage_eq:
  assumes "pool_wf bp"
  shows "DiscardPage pid bp =
    (Inr (), if bp_pages bp pid = None then bp
      else bp\<lparr>bp_pages := (bp_pages bp)(pid \<mapsto> disk_page (bp_disk bp) pid), bp_dirty := bp_dirty bp - {pid}\<rparr>)"
  using assms by (auto simp: DiscardPage_def pool_wf_def ReadPage_eq pool_has_def split: option.splits)

lemma DiscardPage_ok:
  assumes ok: "pool_ok bp" and run: "DiscardPage pid bp = (r, bp')"
  shows "r = Inr ()" and "pool_ok bp'" and "bp_disk bp' = bp_disk bp"
    and "bp_dirty bp' = bp_dirty bp - {pid}" and "bp_observers bp' = bp_observers bp"
    and "pool_page bp' q = (if q = pid then disk_page (bp_disk bp) pid else pool_page bp q)"
proof -
  from ok have wf: "pool_wf bp" by (rule pool_ok_wf)
  from run have eqs: "r = Inr ()" "bp' = (if bp_pages bp pid = None then bp
      else bp\<lparr>bp_pages := (bp_pages bp)(pid \<mapsto> disk_page (bp_disk bp) pid), bp_dirty := bp_dirty bp - {pid}\<rparr>)"
    by (simp_all add: DiscardPage_eq [OF wf])
  have has: "disk_has (bp_disk bp) pid" if "bp_pages bp pid \<noteq> None"
    using wf that by (auto simp: pool_wf_def pool_has_def)
  have clean: "pid \<notin> bp_dirty bp" if "bp_pages bp pid = None" using wf that by (auto simp: pool_wf_def)
  show "r = Inr ()" "bp_disk bp' = bp_disk bp" "bp_observers bp' = bp_observers bp"
    by (simp_all add: eqs)
  show "bp_dirty bp' = bp_dirty bp - {pid}" using clean by (auto simp: eqs)
  show "pool_page bp' q = (if q = pid then disk_page (bp_disk bp) pid else pool_page bp q)"
    by (auto simp: eqs pool_page_def split: option.splits)
  have "length (disk_page (bp_disk bp) pid) = 4096" if "bp_pages bp pid \<noteq> None"
    using wf has [OF that] by (simp add: length_disk_page pool_wf_def)
  with ok has show "pool_ok bp'"
    by (auto simp: eqs pool_ok_def pool_wf_def pool_has_def split: if_splits)
qed

lemma NewPage_ok:
  assumes ok: "pool_ok bp" and room: "unat (next_page_id (bp_disk bp)) + 1 < 2 ^ 32"
    and run: "NewPage tid bp = (Inr (pid, n), bp')"
  shows "pool_ok bp'" and "pid = next_page_id (bp_disk bp)" and "\<not> pool_has bp pid"
    and "pool_has bp' q \<longleftrightarrow> pool_has bp q \<or> q = pid"
    and "pool_page bp' pid = blank_page"
    and "\<And>q. pool_has bp q \<Longrightarrow> pool_page bp' q = pool_page bp q"
    and "bp_dirty bp' = insert pid (bp_dirty bp)" and "bp_observers bp' = bp_observers bp"
    and "n = map_option (\<lambda>(txn, oid). (txn, PageKey oid pid)) (bp_observers bp tid)"
    and "\<And>q. pool_has bp q \<Longrightarrow> disk_page (bp_disk bp') q = disk_page (bp_disk bp) q"
    and "bp_pages bp' pid = Some blank_page"
    and "disk_page (bp_disk bp') pid = blank_page"
proof -
  from ok have wf: "pool_wf bp" by (rule pool_ok_wf)
  from run obtain d where alloc: "AllocatePage (bp_disk bp) = (Inr pid, d)"
    and bp': "bp' = bp\<lparr>bp_disk := d, bp_pages := (bp_pages bp)(pid \<mapsto> blank_page),
        bp_dirty := insert pid (bp_dirty bp)\<rparr>"
    and n: "n = map_option (\<lambda>(txn, oid). (txn, PageKey oid pid)) (bp_observers bp tid)"
    by (auto simp: NewPage_def MarkDirtyLocked_def split: prod.splits sum.splits)
  have dok: "disk_ok (bp_disk bp)" using wf by (simp add: pool_wf_def)
  note a = AllocatePage_ok [OF dok room alloc]
  show has: "pool_has bp' q \<longleftrightarrow> pool_has bp q \<or> q = pid" for q
    using a(7) by (simp add: bp' pool_has_def)
  show "pid = next_page_id (bp_disk bp)" by (rule a(2))
  then show fresh: "\<not> pool_has bp pid" by (simp add: pool_has_def disk_has_def)
  show "pool_page bp' pid = blank_page" "bp_pages bp' pid = Some blank_page" by (simp_all add: bp' pool_page_def)
  show "bp_dirty bp' = insert pid (bp_dirty bp)" "bp_observers bp' = bp_observers bp"
    by (simp_all add: bp')
  show "n = map_option (\<lambda>(txn, oid). (txn, PageKey oid pid)) (bp_observers bp tid)" by (rule n)
  show disk: "disk_page (bp_disk bp') q = disk_page (bp_disk bp) q" if "pool_has bp q" for q
    using a(6) that by (simp add: bp' pool_has_def)
  show "disk_page (bp_disk bp') pid = blank_page" using a(5) by (simp add: bp')
  show "pool_page bp' q = pool_page bp q" if "pool_has bp q" for q
    using that fresh disk [OF that] by (auto simp: bp' pool_page_def split: option.splits)
  have wf': "pool_wf bp'"
    using wf a(1) has by (auto simp: pool_wf_def bp' pool_has_def)
  have "p = disk_page d q" if "bp_pages bp q = Some p" "q \<notin> bp_dirty bp" "q \<noteq> pid" for p q
  proof -
    from wf that(1) have "pool_has bp q" by (auto simp: pool_wf_def)
    with a(6) have "disk_page d q = disk_page (bp_disk bp) q" by (simp add: pool_has_def)
    with ok that show ?thesis by (simp add: pool_ok_def)
  qed
  with wf' show "pool_ok bp'" by (auto simp: pool_ok_def bp')
qed

section \<open>Properties of the buffer pool\<close>


text \<open>A pool over a two-page file with both pages cached and dirty.\<close>

definition two_page_pool :: pool where
  "two_page_pool =
     \<lparr>bp_pages = [0 \<mapsto> InitHeapPage 0, 1 \<mapsto> InitHeapPage 1], bp_dirty = {0, 1}, bp_observers = Map.empty,
      bp_disk = \<lparr>disk_file = blank_page @ blank_page, next_page_id = 2, disk_capacity = 8192\<rparr>\<rparr>"

lemma two_page_pool_ok: "pool_ok two_page_pool"
  by (auto simp: pool_ok_def pool_wf_def two_page_pool_def disk_ok_def pool_has_def disk_has_def
      length_InitHeapPage split: if_splits)

lemma two_page_pool_has: "pool_has two_page_pool 0" "pool_has two_page_pool 1"
  by (simp_all add: two_page_pool_def pool_has_def disk_has_def)

lemma two_page_pool_disk: "disk_page (bp_disk two_page_pool) 1 = blank_page"
  by (simp add: two_page_pool_def disk_page_def read_bytes_def)


end
