(* ===== verification/Lock_Manager.thy ===== *)
theory Lock_Manager
  imports Flint_Prelude
begin

text \<open>
  The strict two-phase lock table of \<open>src/src/txn/lock_manager.h\<close> and \<open>lock_manager.cpp\<close>. One
  iteration of the \<open>AcquireLock\<close> loop is a function returning what the iteration does: grant, wait
  on the condition variable, or throw. The threads that run it concurrently are the step relation
  \<open>lock_step\<close>: the loop body runs under the mutex and is one step, a sleeping thread re-runs the
  loop after a notification or a spurious wake-up, and \<open>ReleaseAll\<close> wakes every sleeper.
\<close>

datatype LockMode = kShared | kExclusive

record LockEntry =
  shared_holders :: "TxnId set"
  exclusive_holder :: "TxnId option"

record lock_table =
  locks :: "PageKey \<rightharpoonup> LockEntry"
  held_by_txn :: "TxnId \<rightharpoonup> PageKey set"

definition LockManager_init :: lock_table where
  "LockManager_init = \<lparr>locks = Map.empty, held_by_txn = Map.empty\<rparr>"

section \<open>Operations\<close>

definition ConflictsWithOthers :: "LockEntry \<Rightarrow> TxnId \<Rightarrow> LockMode \<Rightarrow> bool" where
  "ConflictsWithOthers entry txn mode =
     (case mode of
        kShared \<Rightarrow> (case exclusive_holder entry of None \<Rightarrow> False | Some h \<Rightarrow> h \<noteq> txn)
      | kExclusive \<Rightarrow>
          (case exclusive_holder entry of None \<Rightarrow> False | Some h \<Rightarrow> h \<noteq> txn) \<or>
          (\<exists>h \<in> shared_holders entry. h \<noteq> txn))"

definition OtherHolders :: "LockEntry \<Rightarrow> TxnId \<Rightarrow> TxnId set" where
  "OtherHolders entry txn =
     (case exclusive_holder entry of None \<Rightarrow> {} | Some h \<Rightarrow> if h \<noteq> txn then {h} else {}) \<union>
     {h \<in> shared_holders entry. h \<noteq> txn}"

definition note_held :: "TxnId \<Rightarrow> PageKey \<Rightarrow> (TxnId \<rightharpoonup> PageKey set) \<Rightarrow> (TxnId \<rightharpoonup> PageKey set)" where
  "note_held txn key held =
     held(txn \<mapsto> insert key (case held txn of None \<Rightarrow> {} | Some K \<Rightarrow> K))"

datatype acquire_outcome = Granted lock_table | Waits | Dies

definition AcquireLock_round :: "TxnId \<Rightarrow> PageKey \<Rightarrow> LockMode \<Rightarrow> lock_table \<Rightarrow> acquire_outcome" where
  "AcquireLock_round txn key mode lm =
     (case locks lm key of
        None \<Rightarrow>
          (let fresh = (if mode = kExclusive
                        then \<lparr>shared_holders = {}, exclusive_holder = Some txn\<rparr>
                        else \<lparr>shared_holders = {txn}, exclusive_holder = None\<rparr>)
           in Granted \<lparr>locks = (locks lm)(key \<mapsto> fresh), held_by_txn = note_held txn key (held_by_txn lm)\<rparr>)
      | Some entry \<Rightarrow>
          if exclusive_holder entry = Some txn then Granted lm
          else if mode = kShared \<and> txn \<in> shared_holders entry then Granted lm
          else if \<not> ConflictsWithOthers entry txn mode then
            (let entry' = (if mode = kExclusive
                           then entry\<lparr>shared_holders := shared_holders entry - {txn},
                                      exclusive_holder := Some txn\<rparr>
                           else entry\<lparr>shared_holders := insert txn (shared_holders entry)\<rparr>)
             in Granted \<lparr>locks = (locks lm)(key \<mapsto> entry'),
                         held_by_txn = note_held txn key (held_by_txn lm)\<rparr>)
          else if \<forall>h \<in> OtherHolders entry txn. txn < h then Waits
          else Dies)"

definition release_entry :: "TxnId \<Rightarrow> LockEntry \<Rightarrow> LockEntry" where
  "release_entry txn entry =
     entry\<lparr>shared_holders := shared_holders entry - {txn},
           exclusive_holder := (if exclusive_holder entry = Some txn then None else exclusive_holder entry)\<rparr>"

definition release_key :: "TxnId \<Rightarrow> PageKey \<Rightarrow> (PageKey \<rightharpoonup> LockEntry) \<Rightarrow> (PageKey \<rightharpoonup> LockEntry)" where
  "release_key txn key lks =
     (case lks key of
        None \<Rightarrow> lks
      | Some entry \<Rightarrow>
          (let entry' = release_entry txn entry
           in if shared_holders entry' = {} \<and> exclusive_holder entry' = None
              then lks(key := None) else lks(key \<mapsto> entry')))"

text \<open>The boolean says whether \<open>cv_.notify_all\<close> was reached.\<close>

definition ReleaseAll :: "TxnId \<Rightarrow> lock_table \<Rightarrow> bool \<times> lock_table" where
  "ReleaseAll txn lm =
     (case held_by_txn lm txn of
        None \<Rightarrow> (False, lm)
      | Some keys \<Rightarrow>
          (True, \<lparr>locks = fold (release_key txn) (sorted_list_of_set keys) (locks lm),
                  held_by_txn = (held_by_txn lm)(txn := None)\<rparr>))"

definition HasAnyLock :: "TxnId \<Rightarrow> lock_table \<Rightarrow> bool" where
  "HasAnyLock txn lm = (case held_by_txn lm txn of None \<Rightarrow> False | Some keys \<Rightarrow> keys \<noteq> {})"

section \<open>The invariant of the lock table\<close>

definition entry_holders :: "LockEntry \<Rightarrow> TxnId set" where
  "entry_holders e = shared_holders e \<union> set_option (exclusive_holder e)"

definition holds :: "lock_table \<Rightarrow> TxnId \<Rightarrow> PageKey \<Rightarrow> bool" where
  "holds lm txn key = (case locks lm key of None \<Rightarrow> False | Some e \<Rightarrow> txn \<in> entry_holders e)"

definition holds_exclusive :: "lock_table \<Rightarrow> TxnId \<Rightarrow> PageKey \<Rightarrow> bool" where
  "holds_exclusive lm txn key =
     (case locks lm key of None \<Rightarrow> False | Some e \<Rightarrow> exclusive_holder e = Some txn)"

definition entry_ok :: "LockEntry \<Rightarrow> bool" where
  "entry_ok e \<longleftrightarrow> entry_holders e \<noteq> {} \<and> (exclusive_holder e \<noteq> None \<longrightarrow> shared_holders e = {})"

definition lock_inv :: "lock_table \<Rightarrow> bool" where
  "lock_inv lm \<longleftrightarrow>
     (\<forall>key e. locks lm key = Some e \<longrightarrow> entry_ok e) \<and>
     (\<forall>txn key. holds lm txn key \<longleftrightarrow> (\<exists>K. held_by_txn lm txn = Some K \<and> key \<in> K)) \<and>
     (\<forall>txn K. held_by_txn lm txn = Some K \<longrightarrow> K \<noteq> {})"

lemma lock_inv_entry: "lock_inv lm \<Longrightarrow> locks lm key = Some e \<Longrightarrow> entry_ok e"
  unfolding lock_inv_def by blast

lemma lock_inv_holds: "lock_inv lm \<Longrightarrow> holds lm txn key \<longleftrightarrow> (\<exists>K. held_by_txn lm txn = Some K \<and> key \<in> K)"
  unfolding lock_inv_def by blast

lemma lock_inv_nonempty: "lock_inv lm \<Longrightarrow> held_by_txn lm txn = Some K \<Longrightarrow> K \<noteq> {}"
  unfolding lock_inv_def by blast

lemma OtherHolders_eq: "OtherHolders e txn = entry_holders e - {txn}"
  by (auto simp: OtherHolders_def entry_holders_def split: option.splits)

lemma lock_inv_init: "lock_inv LockManager_init"
  by (simp add: lock_inv_def LockManager_init_def holds_def)

lemma note_held_iff:
  "(\<exists>K. note_held txn key held u = Some K \<and> k \<in> K) \<longleftrightarrow>
   (\<exists>K. held u = Some K \<and> k \<in> K) \<or> (u = txn \<and> k = key)"
  by (auto simp: note_held_def split: option.splits)

lemma note_held_nonempty:
  "(\<forall>t K. held t = Some K \<longrightarrow> K \<noteq> {}) \<Longrightarrow> note_held txn key held u = Some K \<Longrightarrow> K \<noteq> {}"
  by (auto simp: note_held_def split: if_splits)

text \<open>A grant changes the table only by adding the requester to the holders of the page.\<close>

lemma granted_cases:
  assumes "AcquireLock_round txn key mode lm = Granted lm'"
  obtains (already) e where "lm' = lm" "locks lm key = Some e" "txn \<in> entry_holders e"
      "mode = kExclusive \<longrightarrow> exclusive_holder e = Some txn"
  | (entry) e where "lm' = \<lparr>locks = (locks lm)(key \<mapsto> e), held_by_txn = note_held txn key (held_by_txn lm)\<rparr>"
      "entry_holders e = insert txn (case locks lm key of None \<Rightarrow> {} | Some e0 \<Rightarrow> entry_holders e0)"
      "(\<And>e0. locks lm key = Some e0 \<Longrightarrow> entry_ok e0) \<Longrightarrow> entry_ok e"
      "mode = kExclusive \<longrightarrow> exclusive_holder e = Some txn"
proof (cases "locks lm key")
  case None
  with assms show ?thesis
    by (intro entry [where e = "if mode = kExclusive then \<lparr>shared_holders = {}, exclusive_holder = Some txn\<rparr>
        else \<lparr>shared_holders = {txn}, exclusive_holder = None\<rparr>"])
      (auto simp: AcquireLock_round_def entry_holders_def entry_ok_def)
next
  case (Some e)
  let ?e' = "if mode = kExclusive
    then e\<lparr>shared_holders := shared_holders e - {txn}, exclusive_holder := Some txn\<rparr>
    else e\<lparr>shared_holders := insert txn (shared_holders e)\<rparr>"
  show ?thesis
  proof (cases "exclusive_holder e = Some txn \<or> mode = kShared \<and> txn \<in> shared_holders e")
    case True
    with assms Some show ?thesis
      by (intro already [of e]) (auto simp: AcquireLock_round_def entry_holders_def split: if_splits)
  next
    case False
    with assms Some have free: "\<not> ConflictsWithOthers e txn mode"
      and lm': "lm' = \<lparr>locks = (locks lm)(key \<mapsto> ?e'), held_by_txn = note_held txn key (held_by_txn lm)\<rparr>"
      by (auto simp: AcquireLock_round_def Let_def split: if_splits)
    have excl: "exclusive_holder e = None"
      using free False by (auto simp: ConflictsWithOthers_def split: LockMode.splits option.splits)
    show ?thesis
    proof (rule entry [of ?e'])
      show "entry_holders ?e' = insert txn (case locks lm key of None \<Rightarrow> {} | Some e0 \<Rightarrow> entry_holders e0)"
        using Some excl by (auto simp: entry_holders_def)
      show "entry_ok ?e'"
        using free excl by (auto simp: entry_ok_def entry_holders_def ConflictsWithOthers_def split: LockMode.splits)
    qed (use lm' in auto)
  qed
qed

lemma granted_holds:
  assumes "AcquireLock_round txn key mode lm = Granted lm'"
  shows "holds lm' u k \<longleftrightarrow> holds lm u k \<or> (u = txn \<and> k = key)"
  using assms by (cases rule: granted_cases) (auto simp: holds_def split: option.splits)

lemma granted_exclusive:
  assumes "AcquireLock_round txn key kExclusive lm = Granted lm'"
  shows "holds_exclusive lm' txn key"
  using assms by (cases rule: granted_cases) (auto simp: holds_exclusive_def)

lemma granted_inv:
  assumes inv: "lock_inv lm" and gr: "AcquireLock_round txn key mode lm = Granted lm'"
  shows "lock_inv lm'"
  using gr
proof (cases rule: granted_cases)
  case (entry e)
  have h: "holds lm' u k \<longleftrightarrow> holds lm u k \<or> (u = txn \<and> k = key)" for u k
    using gr by (rule granted_holds)
  have "\<forall>k e. locks lm' k = Some e \<longrightarrow> entry_ok e"
    using inv entry by (auto dest: lock_inv_entry)
  moreover have "holds lm' u k \<longleftrightarrow> (\<exists>K. held_by_txn lm' u = Some K \<and> k \<in> K)" for u k
    unfolding h lock_inv_holds [OF inv] by (simp add: entry(1) note_held_iff)
  moreover have "\<forall>u K. held_by_txn lm' u = Some K \<longrightarrow> K \<noteq> {}"
    using lock_inv_nonempty [OF inv] note_held_nonempty [of "held_by_txn lm"] by (simp add: entry(1))
  ultimately show ?thesis unfolding lock_inv_def by blast
qed (use inv in simp)

lemma waits_younger:
  assumes "AcquireLock_round txn key mode lm = Waits"
  shows "\<exists>u > txn. holds lm u key"
proof -
  from assms obtain e where e: "locks lm key = Some e" "ConflictsWithOthers e txn mode"
    "\<forall>h \<in> OtherHolders e txn. txn < h"
    by (auto simp: AcquireLock_round_def Let_def split: option.splits if_splits)
  from e(2) obtain h where "h \<in> OtherHolders e txn"
    by (auto simp: ConflictsWithOthers_def OtherHolders_eq entry_holders_def split: LockMode.splits option.splits)
  with e show ?thesis by (auto simp: holds_def OtherHolders_eq)
qed

lemma dies_older:
  assumes "AcquireLock_round txn key mode lm = Dies"
  shows "\<exists>u < txn. holds lm u key"
proof -
  from assms obtain e h where e: "locks lm key = Some e" "h \<in> OtherHolders e txn" "\<not> txn < h"
    by (auto simp: AcquireLock_round_def Let_def split: option.splits if_splits)
  then show ?thesis by (auto simp: holds_def OtherHolders_eq intro!: exI [of _ h])
qed

definition released :: "TxnId \<Rightarrow> LockEntry option \<Rightarrow> LockEntry option" where
  "released txn eo =
     (case eo of
        None \<Rightarrow> None
      | Some e \<Rightarrow> if entry_holders (release_entry txn e) = {} then None else Some (release_entry txn e))"

lemma release_key_eq: "release_key txn key lks = lks(key := released txn (lks key))"
  by (cases "lks key")
    (auto simp: release_key_def released_def entry_holders_def Let_def fun_eq_iff)

lemma released_idem [simp]: "released txn (released txn eo) = released txn eo"
  by (auto simp: released_def release_entry_def split: option.splits)

lemma fold_release_key:
  "fold (release_key txn) ks lks = (\<lambda>k. if k \<in> set ks then released txn (lks k) else lks k)"
  by (induction ks arbitrary: lks) (auto simp: release_key_eq)

lemma holders_release_entry: "entry_ok e \<Longrightarrow> entry_holders (release_entry txn e) = entry_holders e - {txn}"
  by (auto simp: entry_ok_def entry_holders_def release_entry_def)

lemma release_entry_ok: "entry_ok e \<Longrightarrow> entry_holders (release_entry txn e) \<noteq> {} \<Longrightarrow> entry_ok (release_entry txn e)"
  by (auto simp: entry_ok_def release_entry_def)

lemma release_holds:
  assumes inv: "lock_inv lm"
  shows "holds (snd (ReleaseAll txn lm)) u k \<longleftrightarrow> holds lm u k \<and> u \<noteq> txn"
proof (cases "held_by_txn lm txn")
  case None
  then have "\<not> holds lm txn k" by (simp add: lock_inv_holds [OF inv])
  with None show ?thesis by (auto simp: ReleaseAll_def)
next
  case (Some K)
  then have mem: "holds lm txn k \<longleftrightarrow> k \<in> K" by (simp add: lock_inv_holds [OF inv])
  show ?thesis
  proof (cases "locks lm k")
    case None
    then show ?thesis by (simp add: ReleaseAll_def Some holds_def fold_release_key released_def)
  next
    case (Some e)
    with inv have "entry_ok e" by (rule lock_inv_entry)
    then show ?thesis
      using mem \<open>held_by_txn lm txn = Some K\<close> Some
      by (auto simp: ReleaseAll_def holds_def fold_release_key released_def holders_release_entry)
  qed
qed

lemma release_inv:
  assumes inv: "lock_inv lm"
  shows "lock_inv (snd (ReleaseAll txn lm))"
proof (cases "held_by_txn lm txn")
  case None
  with inv show ?thesis by (simp add: ReleaseAll_def)
next
  case (Some K)
  let ?lm = "snd (ReleaseAll txn lm)"
  have "entry_ok e'" if "locks ?lm key = Some e'" for key e'
  proof -
    from that Some obtain e where "locks lm key = Some e" "e' = e \<or>
        e' = release_entry txn e \<and> entry_holders (release_entry txn e) \<noteq> {}"
      by (auto simp: ReleaseAll_def fold_release_key released_def split: if_splits option.splits)
    with lock_inv_entry [OF inv] release_entry_ok show ?thesis by blast
  qed
  moreover have "holds ?lm u k \<longleftrightarrow> (\<exists>K. held_by_txn ?lm u = Some K \<and> k \<in> K)" for u k
    unfolding release_holds [OF inv] lock_inv_holds [OF inv] by (auto simp: ReleaseAll_def Some)
  moreover have "\<forall>u K. held_by_txn ?lm u = Some K \<longrightarrow> K \<noteq> {}"
    using lock_inv_nonempty [OF inv] by (auto simp: ReleaseAll_def Some split: if_splits)
  ultimately show ?thesis unfolding lock_inv_def by blast
qed

lemma release_notifies: "lock_inv lm \<Longrightarrow> holds lm txn k \<Longrightarrow> fst (ReleaseAll txn lm)"
  by (auto simp: lock_inv_holds ReleaseAll_def)

section \<open>Wait-die as an interface\<close>

text \<open>
  What the concurrent threads rely on: a grant only adds the requester, a release only removes
  the caller, a request waits only behind a younger holder and dies only before an older one.
\<close>

locale wait_die_table =
  fixes inv :: "'l \<Rightarrow> bool"
    and held :: "'l \<Rightarrow> ('t::linorder) \<Rightarrow> 'k \<Rightarrow> bool"
    and grants :: "'t \<Rightarrow> 'k \<Rightarrow> 'm \<Rightarrow> 'l \<Rightarrow> 'l \<Rightarrow> bool"
    and waits :: "'t \<Rightarrow> 'k \<Rightarrow> 'm \<Rightarrow> 'l \<Rightarrow> bool"
    and dies :: "'t \<Rightarrow> 'k \<Rightarrow> 'm \<Rightarrow> 'l \<Rightarrow> bool"
    and release :: "'t \<Rightarrow> 'l \<Rightarrow> 'l"
  assumes grants_inv: "inv l \<Longrightarrow> grants t k m l l' \<Longrightarrow> inv l'"
    and grants_held: "grants t k m l l' \<Longrightarrow> held l' u j \<longleftrightarrow> held l u j \<or> (u = t \<and> j = k)"
    and waits_behind: "waits t k m l \<Longrightarrow> \<exists>u > t. held l u k"
    and dies_before: "dies t k m l \<Longrightarrow> \<exists>u < t. held l u k"
    and round_total: "(\<exists>l'. grants t k m l l') \<or> waits t k m l \<or> dies t k m l"
    and release_keeps_inv: "inv l \<Longrightarrow> inv (release t l)"
    and release_held: "inv l \<Longrightarrow> held (release t l) u j \<longleftrightarrow> held l u j \<and> u \<noteq> t"
begin

lemma youngest_never_waits: "(\<And>u. held l u k \<Longrightarrow> u \<le> t) \<Longrightarrow> \<not> waits t k m l"
  using waits_behind by fastforce

lemma oldest_never_dies: "(\<And>u. held l u k \<Longrightarrow> t \<le> u) \<Longrightarrow> \<not> dies t k m l"
  using dies_before by fastforce

lemma younger_holder_kept_by_grant:
  "grants t k m l l' \<Longrightarrow> \<exists>u > v. held l u j \<Longrightarrow> \<exists>u > v. held l' u j"
  using grants_held by blast

end

interpretation lock_table: wait_die_table lock_inv holds
  "\<lambda>t k m l l'. AcquireLock_round t k m l = Granted l'"
  "\<lambda>t k m l. AcquireLock_round t k m l = Waits"
  "\<lambda>t k m l. AcquireLock_round t k m l = Dies"
  "\<lambda>t l. snd (ReleaseAll t l)"
proof
  fix t k m l
  show "(\<exists>l'. AcquireLock_round t k m l = Granted l') \<or> AcquireLock_round t k m l = Waits \<or>
      AcquireLock_round t k m l = Dies"
    by (cases "AcquireLock_round t k m l") auto
qed (fact granted_inv granted_holds waits_younger dies_older release_inv release_holds)+

section \<open>Concurrent transactions\<close>

datatype txn_status =
    Running
  | Requesting PageKey LockMode
  | Sleeping PageKey LockMode
  | Doomed

record lock_system =
  ls_table :: lock_table
  ls_status :: "TxnId \<rightharpoonup> txn_status"
  ls_next :: TxnId

definition lock_system_init :: lock_system where
  "lock_system_init = \<lparr>ls_table = LockManager_init, ls_status = Map.empty, ls_next = 1\<rparr>"

definition wake :: "txn_status \<Rightarrow> txn_status" where
  "wake st = (case st of Sleeping k m \<Rightarrow> Requesting k m | _ \<Rightarrow> st)"

definition set_status :: "TxnId \<Rightarrow> txn_status \<Rightarrow> lock_system \<Rightarrow> lock_system" where
  "set_status t st s = s\<lparr>ls_status := (ls_status s)(t \<mapsto> st)\<rparr>"

definition end_txn :: "TxnId \<Rightarrow> lock_system \<Rightarrow> lock_system" where
  "end_txn t s =
     (case ReleaseAll t (ls_table s) of
        (notified, lm) \<Rightarrow>
          s\<lparr>ls_table := lm,
            ls_status := (\<lambda>u. if u = t then None
                              else map_option (if notified then wake else id) (ls_status s u))\<rparr>)"

text \<open>
  A transaction begins, calls \<open>AcquireLock\<close>, runs one iteration of its loop (granted, asleep in
  \<open>cv_.wait\<close>, or thrown out with \<open>TransactionAbortedException\<close>), wakes up spuriously, or commits
  or aborts and calls \<open>ReleaseAll\<close>.
\<close>

inductive lock_step :: "lock_system \<Rightarrow> lock_system \<Rightarrow> bool" where
  begin_txn: "ls_status s (ls_next s) = None \<Longrightarrow>
     lock_step s (set_status (ls_next s) Running (s\<lparr>ls_next := ls_next s + 1\<rparr>))"
| call: "ls_status s t = Some Running \<Longrightarrow> lock_step s (set_status t (Requesting k m) s)"
| grant: "ls_status s t = Some (Requesting k m) \<Longrightarrow>
     AcquireLock_round t k m (ls_table s) = Granted lm \<Longrightarrow>
     lock_step s (set_status t Running (s\<lparr>ls_table := lm\<rparr>))"
| sleep: "ls_status s t = Some (Requesting k m) \<Longrightarrow>
     AcquireLock_round t k m (ls_table s) = Waits \<Longrightarrow> lock_step s (set_status t (Sleeping k m) s)"
| die: "ls_status s t = Some (Requesting k m) \<Longrightarrow>
     AcquireLock_round t k m (ls_table s) = Dies \<Longrightarrow> lock_step s (set_status t Doomed s)"
| spurious: "ls_status s t = Some (Sleeping k m) \<Longrightarrow> lock_step s (set_status t (Requesting k m) s)"
| finish: "ls_status s t = Some Running \<or> ls_status s t = Some Doomed \<Longrightarrow> lock_step s (end_txn t s)"

inductive lock_reachable :: "lock_system \<Rightarrow> bool" where
  start: "lock_reachable lock_system_init"
| more: "lock_reachable s \<Longrightarrow> lock_step s s' \<Longrightarrow> lock_reachable s'"

definition lock_system_inv :: "lock_system \<Rightarrow> bool" where
  "lock_system_inv s \<longleftrightarrow>
     lock_inv (ls_table s) \<and>
     (\<forall>t k. holds (ls_table s) t k \<longrightarrow> ls_status s t \<noteq> None) \<and>
     (\<forall>t k m. ls_status s t = Some (Sleeping k m) \<longrightarrow> (\<exists>u > t. holds (ls_table s) u k))"

lemma lock_system_invI:
  assumes "lock_inv (ls_table s)" and "\<And>t k. holds (ls_table s) t k \<Longrightarrow> ls_status s t \<noteq> None"
    and "\<And>t k m. ls_status s t = Some (Sleeping k m) \<Longrightarrow> \<exists>u > t. holds (ls_table s) u k"
  shows "lock_system_inv s"
  using assms unfolding lock_system_inv_def by blast

lemma lock_system_invD:
  assumes "lock_system_inv s"
  shows "lock_inv (ls_table s)" and "holds (ls_table s) t k \<Longrightarrow> ls_status s t \<noteq> None"
    and "ls_status s t = Some (Sleeping k m) \<Longrightarrow> \<exists>u > t. holds (ls_table s) u k"
  using assms unfolding lock_system_inv_def by blast+

lemma set_status_simps [simp]:
  "ls_table (set_status t st s) = ls_table s" "ls_next (set_status t st s) = ls_next s"
  "ls_status (set_status t st s) u = (if u = t then Some st else ls_status s u)"
  by (simp_all add: set_status_def)

lemma wake_not_sleeping [simp]: "wake st \<noteq> Sleeping k m"
  by (cases st) (simp_all add: wake_def)

lemma end_txn_inv:
  assumes inv: "lock_system_inv s"
  shows "lock_system_inv (end_txn t s)"
proof (rule lock_system_invI)
  note I = lock_system_invD [OF inv]
  obtain b lm where rel: "ReleaseAll t (ls_table s) = (b, lm)" by (cases "ReleaseAll t (ls_table s)")
  have tab: "ls_table (end_txn t s) = lm" by (simp add: end_txn_def rel)
  have h: "holds lm u k \<longleftrightarrow> holds (ls_table s) u k \<and> u \<noteq> t" for u k
    using lock_table.release_held [OF I(1), of t u k] rel by simp
  show "lock_inv (ls_table (end_txn t s))"
    using lock_table.release_keeps_inv [OF I(1), of t] rel by (simp add: tab)
  show "ls_status (end_txn t s) u \<noteq> None" if "holds (ls_table (end_txn t s)) u k" for u k
    using that I(2) [of u k] by (auto simp: tab h) (auto simp: end_txn_def rel)
  show "\<exists>v > u. holds (ls_table (end_txn t s)) v k" if sl: "ls_status (end_txn t s) u = Some (Sleeping k m)" for u k m
  proof -
    from sl have "\<not> b" "ls_status s u = Some (Sleeping k m)"
      by (auto simp: end_txn_def rel split: if_splits)
    with I(3) obtain v where v: "v > u" "holds (ls_table s) v k" by blast
    have "v \<noteq> t" using release_notifies [OF I(1), of t k] v(2) \<open>\<not> b\<close> rel by auto
    with v show ?thesis by (auto simp: tab h)
  qed
qed

lemma lock_step_inv: "lock_step s s' \<Longrightarrow> lock_system_inv s \<Longrightarrow> lock_system_inv s'"
proof (induction rule: lock_step.induct)
  case (begin_txn s)
  note I = lock_system_invD [OF begin_txn(2)]
  show ?case by (rule lock_system_invI) (use I in \<open>auto split: if_splits\<close>)
next
  case (call s t k m)
  note I = lock_system_invD [OF call(2)]
  show ?case by (rule lock_system_invI) (use I in \<open>auto split: if_splits\<close>)
next
  case (grant s t k m lm)
  note I = lock_system_invD [OF grant(3)]
  note h = lock_table.grants_held [OF grant(2)]
  show ?case
  proof (rule lock_system_invI)
    show "lock_inv (ls_table (set_status t Running (s\<lparr>ls_table := lm\<rparr>)))"
      using lock_table.grants_inv [OF I(1) grant(2)] by simp
    show "ls_status (set_status t Running (s\<lparr>ls_table := lm\<rparr>)) u \<noteq> None"
      if "holds (ls_table (set_status t Running (s\<lparr>ls_table := lm\<rparr>))) u j" for u j
      using that I(2) [of u j] by (auto simp: h)
    show "\<exists>v > u. holds (ls_table (set_status t Running (s\<lparr>ls_table := lm\<rparr>))) v j"
      if "ls_status (set_status t Running (s\<lparr>ls_table := lm\<rparr>)) u = Some (Sleeping j n)" for u j n
      using that I(3) [of u j n] by (auto simp: h split: if_splits)
  qed
next
  case (sleep s t k m)
  note I = lock_system_invD [OF sleep(3)]
  show ?case
    by (rule lock_system_invI) (use I lock_table.waits_behind [OF sleep(2)] in \<open>auto split: if_splits\<close>)
next
  case (die s t k m)
  note I = lock_system_invD [OF die(3)]
  show ?case by (rule lock_system_invI) (use I in \<open>auto split: if_splits\<close>)
next
  case (spurious s t k m)
  note I = lock_system_invD [OF spurious(2)]
  show ?case by (rule lock_system_invI) (use I in \<open>auto split: if_splits\<close>)
next
  case (finish s t)
  then show ?case by (simp add: end_txn_inv)
qed

lemma lock_reachable_inv: "lock_reachable s \<Longrightarrow> lock_system_inv s"
proof (induction rule: lock_reachable.induct)
  case start
  show ?case
    by (rule lock_system_invI)
      (auto simp: lock_system_init_def lock_inv_init holds_def LockManager_init_def [THEN arg_cong [where f = locks]])
next
  case (more s s')
  then show ?case by (blast intro: lock_step_inv)
qed

lemma exclusive_holds: "holds_exclusive lm t k \<Longrightarrow> holds lm t k"
  by (auto simp: holds_exclusive_def holds_def entry_holders_def split: option.splits)

lemma exclusive_alone:
  assumes "lock_inv lm" and "holds_exclusive lm t k" and "holds lm u k"
  shows "u = t"
proof -
  from assms(2) obtain e where e: "locks lm k = Some e" "exclusive_holder e = Some t"
    by (auto simp: holds_exclusive_def split: option.splits)
  with lock_inv_entry [OF assms(1) e(1)] assms(3) show ?thesis
    by (auto simp: entry_ok_def entry_holders_def holds_def)
qed

section \<open>Properties of the lock manager\<close>

text \<open>
  C26. In every state the concurrent threads can reach, a page held in exclusive mode has no other
  holder: no other transaction holds it, in either mode.
\<close>

theorem lock_mutual_exclusion:
  assumes "lock_reachable s" and "holds_exclusive (ls_table s) t k" and "holds (ls_table s) u k"
  shows "u = t"
  using exclusive_alone [OF lock_system_invD(1) [OF lock_reachable_inv [OF assms(1)]]] assms(2,3)
  by blast

definition one_exclusive :: lock_system where
  "one_exclusive =
     \<lparr>ls_table = \<lparr>locks = [PageKey 0 0 \<mapsto> \<lparr>shared_holders = {}, exclusive_holder = Some 1\<rparr>],
                  held_by_txn = [1 \<mapsto> {PageKey 0 0}]\<rparr>,
      ls_status = [1 \<mapsto> Running], ls_next = 2\<rparr>"

lemma one_exclusive_reachable: "lock_reachable one_exclusive"
proof -
  let ?a = "lock_system_init\<lparr>ls_next := 2, ls_status := [1 \<mapsto> Running]\<rparr>"
  let ?b = "?a\<lparr>ls_status := [1 \<mapsto> Requesting (PageKey 0 0) kExclusive]\<rparr>"
  have "lock_step lock_system_init ?a"
    using lock_step.begin_txn [of lock_system_init] by (simp add: lock_system_init_def set_status_def)
  then have "lock_reachable ?a" by (rule lock_reachable.more [OF lock_reachable.start])
  moreover have "lock_step ?a ?b"
    using lock_step.call [of ?a 1 "PageKey 0 0" kExclusive] by (simp add: set_status_def)
  ultimately have "lock_reachable ?b" by (rule lock_reachable.more)
  moreover have "lock_step ?b one_exclusive"
    using lock_step.grant [of ?b 1 "PageKey 0 0" kExclusive "ls_table one_exclusive"]
    by (simp add: set_status_def one_exclusive_def lock_system_init_def LockManager_init_def
        AcquireLock_round_def note_held_def)
  ultimately show ?thesis by (rule lock_reachable.more)
qed

theorem lock_mutual_exclusion_witness:
  "lock_reachable one_exclusive \<and> holds_exclusive (ls_table one_exclusive) 1 (PageKey 0 0) \<and>
   \<not> holds (ls_table one_exclusive) 2 (PageKey 0 0)"
proof -
  have "holds_exclusive (ls_table one_exclusive) 1 (PageKey 0 0)"
    by (simp add: one_exclusive_def holds_exclusive_def)
  with lock_mutual_exclusion [OF one_exclusive_reachable, of 1 "PageKey 0 0" 2] one_exclusive_reachable
  show ?thesis by auto
qed

text \<open>
  C27. Wait-die never deadlocks: whenever a transaction is active, the youngest active one is awake,
  and if it is inside \<open>AcquireLock\<close> its next iteration grants the lock or throws, so it never goes
  to sleep. Some transaction can therefore always run until it commits or aborts and wakes the
  others.
\<close>

theorem lock_no_deadlock:
  assumes "lock_reachable s" and "ls_status s t \<noteq> None"
  shows "\<exists>u st. t \<le> u \<and> ls_status s u = Some st \<and> (\<forall>v. ls_status s v \<noteq> None \<longrightarrow> v \<le> u) \<and>
    (case st of Sleeping k m \<Rightarrow> False
     | Requesting k m \<Rightarrow> AcquireLock_round u k m (ls_table s) \<noteq> Waits
     | _ \<Rightarrow> True)"
proof -
  note I = lock_system_invD [OF lock_reachable_inv [OF assms(1)]]
  define u where "u = Max {v. ls_status s v \<noteq> None}"
  have u: "ls_status s u \<noteq> None" "\<And>v. ls_status s v \<noteq> None \<Longrightarrow> v \<le> u"
    using Max_in [of "{v. ls_status s v \<noteq> None}"] assms(2) by (auto simp: u_def)
  then obtain st where st: "ls_status s u = Some st" by auto
  have young: "v \<le> u" if "holds (ls_table s) v k" for v k
    using I(2) [OF that] by (rule u(2))
  have "case st of Sleeping k m \<Rightarrow> False
     | Requesting k m \<Rightarrow> AcquireLock_round u k m (ls_table s) \<noteq> Waits | _ \<Rightarrow> True"
  proof (cases st)
    case (Sleeping k m)
    with I(3) st obtain v where "v > u" "holds (ls_table s) v k" by blast
    with young show ?thesis by (meson leD)
  next
    case (Requesting k m)
    with lock_table.youngest_never_waits young show ?thesis by simp
  qed simp_all
  with u st assms(2) show ?thesis by blast
qed

theorem lock_no_deadlock_witness:
  "lock_reachable one_exclusive \<and> ls_status one_exclusive 1 \<noteq> None \<and>
   (\<exists>u st. 1 \<le> u \<and> ls_status one_exclusive u = Some st \<and> \<not> (\<exists>k m. st = Sleeping k m))"
proof -
  have "ls_status one_exclusive 1 \<noteq> None" by (simp add: one_exclusive_def)
  from lock_no_deadlock [OF one_exclusive_reachable this] obtain u st where
    "1 \<le> u" "ls_status one_exclusive u = Some st" "case st of Sleeping k m \<Rightarrow> False | Requesting k m \<Rightarrow>
       AcquireLock_round u k m (ls_table one_exclusive) \<noteq> Waits | _ \<Rightarrow> True"
    by blast
  moreover from this(3) have "\<not> (\<exists>k m. st = Sleeping k m)" by (cases st) auto
  ultimately show ?thesis using one_exclusive_reachable \<open>ls_status one_exclusive 1 \<noteq> None\<close> by blast
qed

text \<open>
  C28. Strict two-phase locking: no step takes a lock away from a transaction, or weakens an
  exclusive lock, except the step in which that transaction ends.
\<close>

theorem lock_strict_two_phase:
  assumes "lock_reachable s" and "lock_step s s'" and "ls_status s' t \<noteq> None"
  shows "(holds (ls_table s) t k \<longrightarrow> holds (ls_table s') t k) \<and>
    (holds_exclusive (ls_table s) t k \<longrightarrow> holds_exclusive (ls_table s') t k)"
proof -
  note I = lock_system_invD [OF lock_reachable_inv [OF assms(1)]]
  have "holds (ls_table s) t k \<longrightarrow> holds (ls_table s') t k"
    using assms(2) assms(3) I(1)
  proof cases
    case (grant u j m lm)
    then show ?thesis by (simp add: granted_holds)
  next
    case (finish u)
    with assms(3) have "u \<noteq> t" by (auto simp: end_txn_def split: prod.splits)
    with finish release_holds [OF I(1), of u t k] show ?thesis
      by (auto simp: end_txn_def split: prod.splits)
  qed auto
  moreover have "holds_exclusive (ls_table s) t k \<longrightarrow> holds_exclusive (ls_table s') t k"
    using assms(2) assms(3) I(1)
  proof cases
    case (grant u j m lm)
    show ?thesis
    proof
      assume x: "holds_exclusive (ls_table s) t k"
      from grant(3) show "holds_exclusive (ls_table s') t k"
      proof (cases rule: granted_cases)
        case (entry e)
        show ?thesis
        proof (cases "k = j")
          case True
          from x obtain e0 where e0: "locks (ls_table s) j = Some e0" "exclusive_holder e0 = Some t"
            using True by (auto simp: holds_exclusive_def split: option.splits)
          have "entry_ok e" using entry(3) lock_inv_entry [OF I(1)] by blast
          with entry(2) e0 lock_inv_entry [OF I(1) e0(1)] have "t \<in> entry_holders e" "u = t \<or> u \<noteq> t"
            by (auto simp: entry_holders_def)
          moreover have "u = t"
            using grant(3) e0 lock_inv_entry [OF I(1) e0(1)]
            by (auto simp: AcquireLock_round_def ConflictsWithOthers_def Let_def entry_ok_def
                split: if_splits LockMode.splits)
          ultimately show ?thesis
            using grant(3) e0 x True grant(1) by (auto simp: AcquireLock_round_def split: if_splits)
        next
          case False
          with x entry grant(1) show ?thesis by (simp add: holds_exclusive_def)
        qed
      qed (use x grant in simp)
    qed
  next
    case (finish u)
    with assms(3) have ut: "u \<noteq> t" by (auto simp: end_txn_def split: prod.splits)
    show ?thesis
    proof
      assume x: "holds_exclusive (ls_table s) t k"
      then obtain e where e: "locks (ls_table s) k = Some e" "exclusive_holder e = Some t"
        by (auto simp: holds_exclusive_def split: option.splits)
      with ut have "released u (Some e) = Some (release_entry u e)"
        "exclusive_holder (release_entry u e) = Some t"
        by (auto simp: released_def release_entry_def entry_holders_def)
      with e finish(1) show "holds_exclusive (ls_table s') t k"
        by (auto simp: end_txn_def ReleaseAll_def holds_exclusive_def fold_release_key
            split: option.splits prod.splits)
    qed
  qed auto
  ultimately show ?thesis ..
qed

theorem lock_strict_two_phase_witness:
  "\<exists>s'. lock_step one_exclusive s' \<and> holds_exclusive (ls_table s') 1 (PageKey 0 0)"
proof -
  let ?s = "set_status 1 (Requesting (PageKey 0 7) kShared) one_exclusive"
  have step: "lock_step one_exclusive ?s" by (rule lock_step.call) (simp add: one_exclusive_def)
  have "ls_status ?s 1 \<noteq> None" by simp
  from lock_strict_two_phase [OF one_exclusive_reachable step this, of "PageKey 0 0"] step show ?thesis
    by (auto simp: one_exclusive_def holds_exclusive_def)
qed

text \<open>One whole iteration of an \<open>AcquireLock\<close> call that no other thread interrupts.\<close>

definition call_now :: "TxnId \<Rightarrow> PageKey \<Rightarrow> LockMode \<Rightarrow> lock_system \<Rightarrow> lock_system" where
  "call_now t k m s =
     (case AcquireLock_round t k m (ls_table s) of
        Granted lm \<Rightarrow> set_status t Running (s\<lparr>ls_table := lm\<rparr>)
      | Waits \<Rightarrow> set_status t (Sleeping k m) s
      | Dies \<Rightarrow> set_status t Doomed s)"

definition begin_now :: "lock_system \<Rightarrow> lock_system" where
  "begin_now s = set_status (ls_next s) Running (s\<lparr>ls_next := ls_next s + 1\<rparr>)"

lemma reachable_call_now:
  assumes "lock_reachable s" and "ls_status s t = Some Running"
  shows "lock_reachable (call_now t k m s)"
proof -
  let ?r = "set_status t (Requesting k m) s"
  have r: "lock_reachable ?r" using assms lock_step.call by (blast intro: lock_reachable.more)
  have "lock_step ?r (call_now t k m s)"
  proof (cases "AcquireLock_round t k m (ls_table s)")
    case (Granted lm)
    then show ?thesis using lock_step.grant [of ?r t k m lm] by (simp add: call_now_def set_status_def)
  next
    case Waits
    then show ?thesis using lock_step.sleep [of ?r t k m] by (simp add: call_now_def set_status_def)
  next
    case Dies
    then show ?thesis using lock_step.die [of ?r t k m] by (simp add: call_now_def set_status_def)
  qed
  with r show ?thesis by (rule lock_reachable.more)
qed

lemma reachable_begin_now:
  "lock_reachable s \<Longrightarrow> ls_status s (ls_next s) = None \<Longrightarrow> lock_reachable (begin_now s)"
  unfolding begin_now_def by (blast intro: lock_reachable.more lock_step.begin_txn)

text \<open>\<open>t\<close> sleeps in \<open>cv_.wait\<close> for a page on which \<open>u\<close> is one of the conflicting holders.\<close>

definition waits_for :: "lock_system \<Rightarrow> TxnId \<Rightarrow> TxnId \<Rightarrow> bool" where
  "waits_for s t u =
     (case ls_status s t of
        Some (Sleeping k m) \<Rightarrow>
          (case locks (ls_table s) k of
             Some e \<Rightarrow> ConflictsWithOthers e t m \<and> u \<in> OtherHolders e t
           | None \<Rightarrow> False)
      | _ \<Rightarrow> False)"

text \<open>
  Three transactions and two pages \<open>A\<close> and \<open>B\<close>: 3 reads \<open>A\<close>, 2 writes \<open>B\<close> and asks to write \<open>A\<close> (it
  sleeps behind the younger 3), 1 reads \<open>A\<close> beside 3 and asks to write \<open>B\<close> (it sleeps behind 2).
\<close>

definition cycle_state :: lock_system where
  "cycle_state =
     call_now 1 (PageKey 0 1) kExclusive
     (call_now 1 (PageKey 0 0) kShared
     (call_now 2 (PageKey 0 0) kExclusive
     (call_now 2 (PageKey 0 1) kExclusive
     (call_now 3 (PageKey 0 0) kShared
     (begin_now (begin_now (begin_now lock_system_init)))))))"

lemmas schedule_simps = call_now_def begin_now_def set_status_def lock_system_init_def
  LockManager_init_def AcquireLock_round_def ConflictsWithOthers_def OtherHolders_def note_held_def

lemma cycle_state_reachable: "lock_reachable cycle_state"
  unfolding cycle_state_def
  by (intro reachable_call_now reachable_begin_now lock_reachable.start)
    (simp_all add: schedule_simps)

text \<open>
  C29. Waiting only for younger transactions does not keep the waits-for graph acyclic: an upgrade
  may sleep behind a younger reader, and an older reader granted afterwards joins the conflicting
  holders without waking it. Two sleeping transactions can each wait for the other; only the end
  of a third one wakes them.
\<close>

theorem wait_cycle_reachable:
  "\<exists>s. lock_reachable s \<and> waits_for s 1 2 \<and> waits_for s 2 1"
proof -
  have "waits_for cycle_state 1 2" "waits_for cycle_state 2 1"
    by (simp_all add: cycle_state_def waits_for_def schedule_simps)
  with cycle_state_reachable show ?thesis by blast
qed

end
