(* ===== verification/Log_Manager.thy ===== *)
theory Log_Manager
  imports Disk_Manager "HOL-Library.Sublist"
begin

unbundle bit_operations_syntax

text \<open>
  The write-ahead log of \<open>src/src/wal/log_record.h\<close>, \<open>log_manager.h\<close> and \<open>log_manager.cpp\<close>: the
  29-byte record header, the FNV-1a checksum, the scan that cuts a torn tail when the file is
  opened, \<open>AppendRecord\<close>, the quiescent checkpoint, and the group commit of \<open>FlushThrough\<close>. The state
  keeps, beside the members of \<open>LogManager\<close>, the bytes of the file, how many of them a completed
  \<open>fsync\<close> covers, and the two ways the file system can fail (no room left, \<open>fsync\<close> error).
\<close>

datatype LogRecordType = kBegin | kUpdate | kCommit | kAbort

fun record_type_tag :: "LogRecordType \<Rightarrow> byte" where
  "record_type_tag kBegin = 1"
| "record_type_tag kUpdate = 2"
| "record_type_tag kCommit = 3"
| "record_type_tag kAbort = 4"

record LogRecord =
  lr_lsn :: Lsn
  lr_type :: LogRecordType
  lr_txn_id :: TxnId
  lr_object_id :: ObjectId
  lr_page_id :: PageId
  lr_page_image :: page

record wal =
  wal_file :: "byte list"
  wal_synced :: nat
  wal_capacity :: nat
  wal_fsync_ok :: bool
  next_lsn :: Lsn
  records_on_open :: "LogRecord list"
  durable_lsn :: Lsn
  flush_in_progress :: bool

section \<open>Record format\<close>

abbreviation (input) kWalHeaderSize :: nat where
  "kWalHeaderSize \<equiv> 29"

abbreviation (input) kChecksumSize :: nat where
  "kChecksumSize \<equiv> 4"

definition fnv_step :: "uint32 \<Rightarrow> byte \<Rightarrow> uint32" where
  "fnv_step hash b = (hash XOR ucast b) * 0x01000193"

definition Fnv1a32 :: "byte list \<Rightarrow> uint32" where
  "Fnv1a32 data = foldl fnv_step 0x811c9dc5 data"

definition IsValidType :: "byte \<Rightarrow> bool" where
  "IsValidType raw \<longleftrightarrow>
     raw = record_type_tag kBegin \<or> raw = record_type_tag kUpdate \<or>
     raw = record_type_tag kCommit \<or> raw = record_type_tag kAbort"

text \<open>\<open>static_cast<LogRecordType>\<close> of a tag \<open>IsValidType\<close> accepts.\<close>

definition cast_type :: "byte \<Rightarrow> LogRecordType" where
  "cast_type raw = (if raw = 1 then kBegin else if raw = 2 then kUpdate else if raw = 3 then kCommit else kAbort)"

definition ExpectedPayloadLen :: "LogRecordType \<Rightarrow> uint32" where
  "ExpectedPayloadLen ty = (if ty = kUpdate then 4096 else 0)"

text \<open>The buffer \<open>AppendRecord\<close> builds before the physical write.\<close>

definition record_buffer ::
    "Lsn \<Rightarrow> LogRecordType \<Rightarrow> TxnId \<Rightarrow> ObjectId \<Rightarrow> PageId \<Rightarrow> byte list \<Rightarrow> byte list" where
  "record_buffer lsn ty txn oid pid payload =
     (let len = length payload;
          b0 = replicate (kWalHeaderSize + len + kChecksumSize) (0 :: byte);
          b1 = WriteAt 8 b0 0 lsn;
          b2 = WriteAt 1 b1 8 (record_type_tag ty);
          b3 = WriteAt 8 b2 9 txn;
          b4 = WriteAt 4 b3 17 oid;
          b5 = WriteAt 4 b4 21 pid;
          b6 = WriteAt 4 b5 25 (of_nat len :: uint32);
          b7 = (if len > 0 then write_bytes b6 kWalHeaderSize payload else b6);
          checksum = Fnv1a32 (read_bytes b7 0 (kWalHeaderSize + len))
      in WriteAt 4 b7 (kWalHeaderSize + len) checksum)"

text \<open>One iteration of the scan in the constructor: the record at \<open>off\<close>, or \<open>break\<close>.\<close>

definition parse_record :: "byte list \<Rightarrow> nat \<Rightarrow> (LogRecord \<times> nat) option" where
  "parse_record data off =
     (if off + kWalHeaderSize \<le> length data then
        (let lsn = ReadAt 8 data (off + 0);
             raw_type = ReadAt 1 data (off + 8) :: byte;
             txn = ReadAt 8 data (off + 9);
             oid = ReadAt 4 data (off + 17);
             pid = ReadAt 4 data (off + 21);
             payload_len = ReadAt 4 data (off + 25) :: uint32
         in if \<not> IsValidType raw_type then None
            else if payload_len \<noteq> ExpectedPayloadLen (cast_type raw_type) then None
            else (let record_len = kWalHeaderSize + unat payload_len + kChecksumSize
                  in if off + record_len > length data then None
                     else if (ReadAt 4 data (off + kWalHeaderSize + unat payload_len) :: uint32) \<noteq>
                             Fnv1a32 (read_bytes data off (kWalHeaderSize + unat payload_len)) then None
                     else Some (\<lparr>lr_lsn = lsn, lr_type = cast_type raw_type, lr_txn_id = txn,
                                  lr_object_id = oid, lr_page_id = pid,
                                  lr_page_image =
                                    (if unat payload_len > 0
                                     then read_bytes data (off + kWalHeaderSize) (unat payload_len)
                                     else blank_page)\<rparr>,
                                off + record_len)))
      else None)"

lemma parse_record_advances:
  assumes "parse_record data off = Some (r, off')"
  shows "off < off'" and "off' \<le> length data"
  using assms unfolding parse_record_def Let_def by (auto split: if_splits)

function scan_records :: "byte list \<Rightarrow> nat \<Rightarrow> LogRecord list \<times> nat" where
  "scan_records data off =
     (case parse_record data off of
        None \<Rightarrow> ([], off)
      | Some (r, off') \<Rightarrow> (case scan_records data off' of (rs, fin) \<Rightarrow> (r # rs, fin)))"
  by pat_completeness auto
termination
proof (relation "measure (\<lambda>(data, off). length data - off)", simp)
  fix data :: "byte list" and off :: nat and x r off'
  assume "parse_record data off = Some x" and "(r, off') = x"
  then have "parse_record data off = Some (r, off')" by simp
  from parse_record_advances [OF this]
  show "((data, off'), data, off) \<in> measure (\<lambda>(data, off). length data - off)" by simp
qed

declare scan_records.simps [simp del]

section \<open>Operations\<close>

text \<open>The append loop, over a schedule of kernel transfers as in \<open>Disk_Manager\<close>.\<close>

primrec FullWrite :: "io_step list \<Rightarrow> byte list \<Rightarrow> byte list \<Rightarrow> (exn + unit) \<times> byte list" where
  "FullWrite [] fl bs = (Inr (), fl @ bs)"
| "FullWrite (st # steps) fl bs =
     (if bs = [] then (Inr (), fl)
      else case st of
          Eintr \<Rightarrow> FullWrite steps fl bs
        | Io_error \<Rightarrow> (Inl (Runtime_error ''write failed''), fl)
        | Transfer k \<Rightarrow> FullWrite steps (fl @ take (max 1 k) bs) (drop (max 1 k) bs))"

definition LogManager_open :: "nat \<Rightarrow> byte list \<Rightarrow> wal" where
  "LogManager_open capacity data =
     (case scan_records data 0 of
        (rs, good) \<Rightarrow>
          \<lparr>wal_file = (if good < length data then ftruncate good data else data),
           wal_synced = 0, wal_capacity = capacity, wal_fsync_ok = True,
           next_lsn = (if rs = [] then 1 else lr_lsn (last rs) + 1),
           records_on_open = rs, durable_lsn = 0, flush_in_progress = False\<rparr>)"

definition RecordsOnOpen :: "wal \<Rightarrow> LogRecord list" where
  "RecordsOnOpen w = records_on_open w"

text \<open>
  When the file system runs out of room the write loop transfers what fits and then throws, with
  the LSN already taken.
\<close>

definition append_schedule :: "nat \<Rightarrow> io_step list" where
  "append_schedule room = (if room = 0 then [Io_error] else [Transfer room, Io_error])"

definition AppendRecord ::
    "LogRecordType \<Rightarrow> TxnId \<Rightarrow> ObjectId \<Rightarrow> PageId \<Rightarrow> byte list \<Rightarrow> (wal, Lsn) operation" where
  "AppendRecord ty txn oid pid payload w =
     (let lsn = next_lsn w;
          buf = record_buffer lsn ty txn oid pid payload;
          room = wal_capacity w - length (wal_file w)
      in case FullWrite (append_schedule room) (wal_file w) buf of
           (Inl e, fl) \<Rightarrow> (Inl e, w\<lparr>next_lsn := lsn + 1, wal_file := fl\<rparr>)
         | (Inr _, fl) \<Rightarrow> (Inr lsn, w\<lparr>next_lsn := lsn + 1, wal_file := fl\<rparr>))"

definition AppendBegin :: "TxnId \<Rightarrow> (wal, Lsn) operation" where
  "AppendBegin txn = AppendRecord kBegin txn INVALID_OBJECT_ID INVALID_PAGE_ID []"

definition AppendUpdate :: "TxnId \<Rightarrow> ObjectId \<Rightarrow> PageId \<Rightarrow> page \<Rightarrow> (wal, Lsn) operation" where
  "AppendUpdate txn oid pid img = AppendRecord kUpdate txn oid pid img"

definition AppendCommit :: "TxnId \<Rightarrow> (wal, Lsn) operation" where
  "AppendCommit txn = AppendRecord kCommit txn INVALID_OBJECT_ID INVALID_PAGE_ID []"

definition AppendAbort :: "TxnId \<Rightarrow> (wal, Lsn) operation" where
  "AppendAbort txn = AppendRecord kAbort txn INVALID_OBJECT_ID INVALID_PAGE_ID []"

definition fsync :: "wal \<Rightarrow> wal" where
  "fsync w = w\<lparr>wal_synced := length (wal_file w)\<rparr>"

definition Flush :: "(wal, unit) operation" where
  "Flush w =
     (if wal_fsync_ok w then (Inr (), fsync w) else (Inl (Runtime_error ''LogManager::Flush: fsync failed''), w))"

definition DurableLsn :: "wal \<Rightarrow> Lsn" where
  "DurableLsn w = durable_lsn w"

definition NextLsn :: "wal \<Rightarrow> Lsn" where
  "NextLsn w = next_lsn w"

text \<open>
  The loop of \<open>FlushThrough\<close>, cut where it gives up \<open>flush_mutex_\<close>: what an iteration decides, and
  what the flusher publishes after its \<open>fsync\<close>.
\<close>

datatype flush_decision = Flush_returns | Flush_waits | Flush_starts Lsn wal

definition FlushThrough_round :: "Lsn \<Rightarrow> wal \<Rightarrow> flush_decision" where
  "FlushThrough_round target w =
     (if \<not> durable_lsn w < target then Flush_returns
      else if flush_in_progress w then Flush_waits
      else Flush_starts (max target (NextLsn w - 1)) (w\<lparr>flush_in_progress := True\<rparr>))"

definition FlushThrough_publish :: "bool \<Rightarrow> Lsn \<Rightarrow> wal \<Rightarrow> wal" where
  "FlushThrough_publish ok to_cover w =
     w\<lparr>flush_in_progress := False,
       durable_lsn := (if ok then max (durable_lsn w) to_cover else durable_lsn w)\<rparr>"

text \<open>
  A call no other thread interferes with: after a successful round the loop condition is false
  (\<open>FlushThrough_second_round\<close>), after a failed one the exception leaves the loop.
\<close>

definition FlushThrough :: "Lsn \<Rightarrow> (wal, unit) operation" where
  "FlushThrough target w =
     (case FlushThrough_round target w of
        Flush_returns \<Rightarrow> (Inr (), w)
      | Flush_waits \<Rightarrow> (Inl Would_wait, w)
      | Flush_starts to_cover w1 \<Rightarrow>
          if wal_fsync_ok w1 then (Inr (), FlushThrough_publish True to_cover (fsync w1))
          else (Inl (Runtime_error ''LogManager::FlushThrough: fsync failed''),
                FlushThrough_publish False to_cover w1))"

text \<open>Nothing of the emptied file is covered by an \<open>fsync\<close>.\<close>

definition Checkpoint :: "wal \<Rightarrow> wal" where
  "Checkpoint w = w\<lparr>wal_file := ftruncate 0 (wal_file w), wal_synced := 0, next_lsn := 1\<rparr>"

lemma FlushThrough_second_round:
  "FlushThrough_round target w = Flush_starts c w1 \<Longrightarrow>
   FlushThrough_round target (FlushThrough_publish True c (fsync w1)) = Flush_returns"
  by (auto simp: FlushThrough_round_def FlushThrough_publish_def fsync_def max_def split: if_splits)

section \<open>Record round trip\<close>

text \<open>The records the log can hold: only an update carries a page image.\<close>

definition record_ok :: "LogRecord \<Rightarrow> bool" where
  "record_ok r \<longleftrightarrow>
     (if lr_type r = kUpdate then length (lr_page_image r) = PAGE_SIZE else lr_page_image r = blank_page)"

definition payload_of :: "LogRecord \<Rightarrow> byte list" where
  "payload_of r = (if lr_type r = kUpdate then lr_page_image r else [])"

definition record_bytes :: "LogRecord \<Rightarrow> byte list" where
  "record_bytes r = record_buffer (lr_lsn r) (lr_type r) (lr_txn_id r) (lr_object_id r) (lr_page_id r) (payload_of r)"

definition header_bytes :: "Lsn \<Rightarrow> byte \<Rightarrow> TxnId \<Rightarrow> ObjectId \<Rightarrow> PageId \<Rightarrow> uint32 \<Rightarrow> byte list" where
  "header_bytes lsn tag txn oid pid len =
     word_bytes 8 lsn @ word_bytes 1 tag @ word_bytes 8 txn @ word_bytes 4 oid @ word_bytes 4 pid @ word_bytes 4 len"

lemma length_header_bytes [simp]: "length (header_bytes lsn tag txn oid pid len) = 29"
  by (simp add: header_bytes_def)

lemma write_bytes_zeros:
  "length pre = off \<Longrightarrow>
   write_bytes (pre @ replicate m 0) off bs = (pre @ bs) @ replicate (m - length bs) 0"
  by (simp add: write_bytes_def)

lemma WriteAt_zeros:
  "length pre = off \<Longrightarrow>
   WriteAt n (pre @ replicate m 0) off v = (pre @ word_bytes n v) @ replicate (m - n) 0"
  by (simp add: WriteAt_def write_bytes_zeros)

lemma record_buffer_eq:
  "record_buffer lsn ty txn oid pid payload =
     (let body = header_bytes lsn (record_type_tag ty) txn oid pid (of_nat (length payload)) @ payload
      in body @ word_bytes 4 (Fnv1a32 body))"
proof -
  define m where "m = length payload"
  let ?h = "header_bytes lsn (record_type_tag ty) txn oid pid (of_nat m)"
  have "WriteAt 4 (WriteAt 4 (WriteAt 4 (WriteAt 8 (WriteAt 1 (WriteAt 8 ([] @ replicate (29 + m + 4) 0) 0 lsn) 8
      (record_type_tag ty)) 9 txn) 17 oid) 21 pid) 25 (of_nat m :: uint32) = ?h @ replicate (m + 4) 0"
    by (simp add: WriteAt_zeros header_bytes_def m_def del: append_Nil append_assoc replicate_append_same)
  then have b6: "WriteAt 4 (WriteAt 4 (WriteAt 4 (WriteAt 8 (WriteAt 1 (WriteAt 8 (replicate (29 + m + 4) 0) 0 lsn) 8
      (record_type_tag ty)) 9 txn) 17 oid) 21 pid) 25 (of_nat m :: uint32) = ?h @ replicate (m + 4) 0"
    by (simp only: append_Nil)
  have b7: "(if m > 0 then write_bytes (?h @ replicate (m + 4) 0) 29 payload else ?h @ replicate (m + 4) 0) =
      (?h @ payload) @ replicate 4 0"
    by (simp add: write_bytes_zeros m_def)
  have sum: "read_bytes ((?h @ payload) @ replicate 4 0) 0 (29 + m) = ?h @ payload"
    by (simp add: read_bytes_def m_def)
  have fin: "WriteAt 4 ((?h @ payload) @ replicate 4 0) (29 + m) (Fnv1a32 (?h @ payload)) =
      (?h @ payload) @ word_bytes 4 (Fnv1a32 (?h @ payload))"
    using WriteAt_zeros [of "?h @ payload" "29 + m" 4 4 "Fnv1a32 (?h @ payload)"] by (simp add: m_def)
  show ?thesis
    unfolding record_buffer_def Let_def m_def [symmetric] b6 b7 sum fin ..
qed

lemma length_record_buffer: "length (record_buffer lsn ty txn oid pid payload) = 33 + length payload"
  by (simp add: record_buffer_eq Let_def)

lemma read_header_fields:
  "ReadAt 8 (header_bytes lsn tag txn oid pid len @ ys) 0 = lsn"
  "ReadAt 1 (header_bytes lsn tag txn oid pid len @ ys) 8 = tag"
  "ReadAt 8 (header_bytes lsn tag txn oid pid len @ ys) 9 = txn"
  "ReadAt 4 (header_bytes lsn tag txn oid pid len @ ys) 17 = oid"
  "ReadAt 4 (header_bytes lsn tag txn oid pid len @ ys) 21 = pid"
  "ReadAt 4 (header_bytes lsn tag txn oid pid len @ ys) 25 = len"
  using bytes_word_8 [of tag] by (simp_all add: header_bytes_def ReadAt_def read_bytes_def)

lemma valid_type_tag [simp]: "IsValidType (record_type_tag ty)" "cast_type (record_type_tag ty) = ty"
  by (cases ty; simp add: IsValidType_def cast_type_def)+

lemma valid_cast_type: "IsValidType raw \<Longrightarrow> record_type_tag (cast_type raw) = raw"
  by (auto simp: IsValidType_def cast_type_def)

lemma payload_len_of:
  "record_ok r \<Longrightarrow> of_nat (length (payload_of r)) = ExpectedPayloadLen (lr_type r)"
  "record_ok r \<Longrightarrow> unat (ExpectedPayloadLen (lr_type r)) = length (payload_of r)"
  by (auto simp: record_ok_def payload_of_def ExpectedPayloadLen_def)

lemma record_bytes_split:
  assumes "record_ok r"
  shows "record_bytes r =
    (header_bytes (lr_lsn r) (record_type_tag (lr_type r)) (lr_txn_id r) (lr_object_id r) (lr_page_id r)
       (ExpectedPayloadLen (lr_type r)) @ payload_of r) @
    word_bytes 4 (Fnv1a32 (header_bytes (lr_lsn r) (record_type_tag (lr_type r)) (lr_txn_id r) (lr_object_id r)
       (lr_page_id r) (ExpectedPayloadLen (lr_type r)) @ payload_of r))"
  using payload_len_of(1) [OF assms] by (simp add: record_bytes_def record_buffer_eq Let_def)

lemma length_record_bytes: "length (record_bytes r) = 33 + length (payload_of r)"
  by (simp add: record_bytes_def length_record_buffer)

text \<open>What the scan makes of an arbitrary header, payload and checksum.\<close>

lemma parse_record_frame:
  fixes sum :: uint32
  assumes "length payload = unat len"
  shows "parse_record (header_bytes lsn raw txn oid pid len @ payload @ word_bytes 4 sum @ ys) 0 =
    (if IsValidType raw \<and> len = ExpectedPayloadLen (cast_type raw) \<and>
        sum = Fnv1a32 (header_bytes lsn raw txn oid pid len @ payload)
     then Some (\<lparr>lr_lsn = lsn, lr_type = cast_type raw, lr_txn_id = txn, lr_object_id = oid, lr_page_id = pid,
                 lr_page_image = (if payload \<noteq> [] then payload else blank_page)\<rparr>, 33 + length payload)
     else None)"
proof -
  let ?h = "header_bytes lsn raw txn oid pid len"
  have sum: "ReadAt 4 (?h @ payload @ word_bytes 4 sum @ ys) (29 + unat len) = sum"
    by (simp add: ReadAt_def read_bytes_def assms [symmetric])
  have body: "read_bytes (?h @ payload @ word_bytes 4 sum @ ys) 0 (29 + unat len) = ?h @ payload"
    by (simp add: read_bytes_def assms [symmetric])
  have pay: "read_bytes (?h @ payload @ word_bytes 4 sum @ ys) 29 (unat len) = payload"
    by (simp add: read_bytes_def assms [symmetric])
  have ne: "unat len > 0 \<longleftrightarrow> payload \<noteq> []" by (simp flip: assms)
  show ?thesis
    unfolding parse_record_def Let_def add_0 add_0_right read_header_fields sum body pay ne
    using assms by auto
qed

lemma parse_record_bytes:
  assumes "record_ok r"
  shows "parse_record (record_bytes r @ ys) 0 = Some (r, length (record_bytes r))"
proof -
  have img: "(if payload_of r \<noteq> [] then payload_of r else blank_page) = lr_page_image r"
    using assms by (auto simp: record_ok_def payload_of_def split: if_splits)
  show ?thesis
    using parse_record_frame [OF payload_len_of(2) [OF assms, symmetric], of "lr_lsn r" "record_type_tag (lr_type r)"
        "lr_txn_id r" "lr_object_id r" "lr_page_id r" "Fnv1a32 (header_bytes (lr_lsn r) (record_type_tag (lr_type r)) (lr_txn_id r) (lr_object_id r)
       (lr_page_id r) (ExpectedPayloadLen (lr_type r)) @ payload_of r)" ys]
    by (simp only: record_bytes_split [OF assms] append_assoc valid_type_tag simp_thms if_True img)
      (simp add: payload_len_of [OF assms])
qed

text \<open>The scan looks only at the bytes from its offset on, and never past the record it returns.\<close>

lemma read_bytes_shift [buffer_simps]: "read_bytes (xs @ ys) (length xs + off) n = read_bytes ys off n"
  by (simp add: read_bytes_def)

lemma parse_record_shift:
  "parse_record (xs @ ys) (length xs) = map_option (apsnd ((+) (length xs))) (parse_record ys 0)"
proof -
  have r: "(ReadAt n (xs @ ys) (length xs + off) :: 'w::len word) = ReadAt n ys off" for n off
    by (simp add: ReadAt_def read_bytes_shift)
  have b: "read_bytes (xs @ ys) (length xs) n = read_bytes ys 0 n" for n
    using read_bytes_shift [of xs ys 0 n] by simp
  have a: "length xs + 29 + n = length xs + (29 + n)" for n by simp
  show ?thesis
    unfolding parse_record_def Let_def r b a read_bytes_shift
    by (simp add: add.assoc)
qed

lemma parse_record_mono:
  assumes "parse_record xs 0 = Some p"
  shows "parse_record (xs @ ys) 0 = Some p"
proof -
  have hd: "29 \<le> length xs" using assms by (auto simp: parse_record_def split: if_splits)
  have fields: "(ReadAt 8 (xs @ ys) 0 :: 64 word) = ReadAt 8 xs 0" "(ReadAt 1 (xs @ ys) 8 :: byte) = ReadAt 1 xs 8"
    "(ReadAt 8 (xs @ ys) 9 :: 64 word) = ReadAt 8 xs 9" "(ReadAt 4 (xs @ ys) 17 :: 32 word) = ReadAt 4 xs 17"
    "(ReadAt 4 (xs @ ys) 21 :: 32 word) = ReadAt 4 xs 21" "(ReadAt 4 (xs @ ys) 25 :: 32 word) = ReadAt 4 xs 25"
    using hd by (simp_all add: ReadAt_append1)
  define len where "len = unat (ReadAt 4 xs 25 :: uint32)"
  have fits: "29 + len + 4 \<le> length xs"
    using assms hd unfolding parse_record_def Let_def add_0 len_def by (auto split: if_splits)
  then have tail: "(ReadAt 4 (xs @ ys) (29 + len) :: 32 word) = ReadAt 4 xs (29 + len)"
    "read_bytes (xs @ ys) 0 (29 + len) = read_bytes xs 0 (29 + len)"
    "read_bytes (xs @ ys) 29 len = read_bytes xs 29 len"
    by (simp_all add: ReadAt_append1 read_bytes_append1)
  show ?thesis
    using assms hd fits unfolding parse_record_def Let_def add_0 add_0_right fields len_def [symmetric] tail
    by (auto split: if_splits)
qed

lemma parse_record_torn:
  assumes ok: "record_ok r" and n: "n < length (record_bytes r)"
  shows "parse_record (take n (record_bytes r)) 0 = None"
proof (rule ccontr)
  assume "parse_record (take n (record_bytes r)) 0 \<noteq> None"
  then obtain p where p: "parse_record (take n (record_bytes r)) 0 = Some p" by blast
  from parse_record_mono [OF p, of "drop n (record_bytes r)"] parse_record_bytes [OF ok, of "[]"]
  have "p = (r, length (record_bytes r))" by simp
  with parse_record_advances(2) [of "take n (record_bytes r)" 0 r "length (record_bytes r)"] p n
  show False by simp
qed

section \<open>Framed logs as an interface\<close>

text \<open>
  A file of self-delimiting records and the scan that reads it back: reading is local, a written
  record is read back whole, and a proper prefix of one is never taken for a record.
\<close>

locale framed_log =
  fixes rec_ok :: "'r \<Rightarrow> bool"
    and enc :: "'r \<Rightarrow> 'b list"
    and dec :: "'b list \<Rightarrow> nat \<Rightarrow> ('r \<times> nat) option"
    and scan :: "'b list \<Rightarrow> nat \<Rightarrow> 'r list \<times> nat"
  assumes dec_shift: "dec (xs @ ys) (length xs) = map_option (apsnd ((+) (length xs))) (dec ys 0)"
    and dec_mono: "dec xs 0 = Some p \<Longrightarrow> dec (xs @ ys) 0 = Some p"
    and dec_bound: "dec data off = Some (r, off') \<Longrightarrow> off < off' \<and> off' \<le> length data"
    and dec_enc: "rec_ok r \<Longrightarrow> dec (enc r @ ys) 0 = Some (r, length (enc r))"
    and dec_torn: "rec_ok r \<Longrightarrow> n < length (enc r) \<Longrightarrow> dec (take n (enc r)) 0 = None"
    and scan_step: "scan data off =
      (case dec data off of
         None \<Rightarrow> ([], off)
       | Some (r, off') \<Rightarrow> (case scan data off' of (rs, fin) \<Rightarrow> (r # rs, fin)))"
begin

lemma scan_at: "scan (pre @ data) (length pre) = apsnd ((+) (length pre)) (scan data 0)"
proof (induction "length data" arbitrary: pre data rule: less_induct)
  case less
  show ?case
  proof (cases "dec data 0")
    case None
    then show ?thesis
      by (simp add: scan_step [of "pre @ data"] scan_step [of data 0] dec_shift)
  next
    case (Some p)
    obtain r k where p: "p = (r, k)" by (cases p)
    with Some dec_bound have k: "0 < k" "k \<le> length data" by blast+
    let ?a = "take k data" and ?b = "drop k data"
    have a: "length ?a = k" and ab: "data = ?a @ ?b" using k by auto
    have less1: "length ?b < length data" using k by simp
    have "scan (pre @ data) (length pre + k) = apsnd ((+) (length (pre @ ?a))) (scan ?b 0)"
      using less [OF less1, of "pre @ ?a"] a ab by (metis append_assoc length_append)
    moreover have "scan data k = apsnd ((+) (length ?a)) (scan ?b 0)"
      using less [OF less1, of ?a] a ab by metis
    ultimately show ?thesis
      using a Some p
      by (cases "scan ?b 0")
        (simp add: scan_step [of "pre @ data" "length pre"] scan_step [of data 0] dec_shift)
  qed
qed

lemma scan_enc:
  assumes "list_all rec_ok rs" and "dec ys 0 = None"
  shows "scan (concat (map enc rs) @ ys) 0 = (rs, length (concat (map enc rs)))"
  using assms(1)
proof (induction rs)
  case Nil
  then show ?case using assms(2) by (simp add: scan_step [of ys 0])
next
  case (Cons r rs)
  let ?rest = "concat (map enc rs) @ ys"
  have "scan (enc r @ ?rest) (length (enc r)) = (rs, length (enc r) + length (concat (map enc rs)))"
    using Cons by (simp add: scan_at)
  with Cons.prems dec_enc [of r ?rest] show ?case
    by (simp add: scan_step [of "enc r @ ?rest" 0])
qed

lemma scan_enc_then:
  "list_all rec_ok rs \<Longrightarrow> fst (scan (concat (map enc rs) @ ys) 0) = rs @ fst (scan ys 0)"
proof (induction rs)
  case Nil
  then show ?case by simp
next
  case (Cons r rs)
  let ?rest = "concat (map enc rs) @ ys"
  from Cons dec_enc [of r ?rest] scan_at [of "enc r" ?rest] show ?case
    by (cases "scan ?rest 0") (simp add: scan_step [of "enc r @ ?rest" 0])
qed

lemma dec_nil: "dec [] 0 = None"
  using dec_bound [of "[]" 0] by (cases "dec [] 0") force+

lemma scan_enc_all:
  "list_all rec_ok rs \<Longrightarrow> scan (concat (map enc rs)) 0 = (rs, length (concat (map enc rs)))"
  using scan_enc [of rs "[]"] dec_nil by simp

lemma scan_torn:
  assumes "list_all rec_ok rs" and "rec_ok r" and "n < length (enc r)"
  shows "scan (concat (map enc rs) @ take n (enc r)) 0 = (rs, length (concat (map enc rs)))"
  using assms by (intro scan_enc dec_torn) auto

text \<open>More bytes at the end never change the records already read.\<close>

lemma scan_prefix: "prefix (fst (scan xs 0)) (fst (scan (xs @ ys) 0))"
proof (induction "length xs" arbitrary: xs rule: less_induct)
  case less
  show ?case
  proof (cases "dec xs 0")
    case None
    then show ?thesis by (simp add: scan_step [of xs 0])
  next
    case (Some p)
    obtain r k where p: "p = (r, k)" by (cases p)
    with Some dec_bound have k: "0 < k" "k \<le> length xs" by blast+
    let ?a = "take k xs" and ?b = "drop k xs"
    have a: "length ?a = k" and ab: "xs = ?a @ ?b" using k by auto
    have "scan xs k = apsnd ((+) k) (scan ?b 0)" using scan_at [of ?a ?b] a ab by metis
    moreover have "scan (xs @ ys) k = apsnd ((+) k) (scan (?b @ ys) 0)"
      using scan_at [of ?a "?b @ ys"] a ab by (metis append_assoc)
    moreover have "prefix (fst (scan ?b 0)) (fst (scan (?b @ ys) 0))"
      using k by (intro less) simp
    ultimately show ?thesis
      using Some p dec_mono [of xs p ys]
      by (cases "scan ?b 0"; cases "scan (?b @ ys) 0")
        (simp add: scan_step [of xs 0] scan_step [of "xs @ ys" 0])
  qed
qed

text \<open>Cutting a file of whole records anywhere keeps a prefix of them, in full.\<close>

lemma scan_cut:
  assumes "list_all rec_ok rs"
  shows "\<exists>as bs. rs = as @ bs \<and> fst (scan (take n (concat (map enc rs))) 0) = as \<and>
    length (concat (map enc as)) \<le> n \<and> (bs \<noteq> [] \<longrightarrow> n < length (concat (map enc (as @ [hd bs]))))"
  using assms
proof (induction rs arbitrary: n)
  case Nil
  then show ?case by (simp add: scan_step [of "[]" 0] dec_nil)
next
  case (Cons r rs)
  show ?case
  proof (cases "n < length (enc r)")
    case True
    then have "fst (scan (take n (enc r @ concat (map enc rs))) 0) = []"
      using Cons.prems dec_torn [of r n] by (simp add: scan_step [of "take n (enc r)" 0])
    with True show ?thesis by (intro exI [of _ "[]"] exI [of _ "r # rs"]) simp
  next
    case False
    let ?m = "n - length (enc r)"
    obtain as bs where ab: "rs = as @ bs" "fst (scan (take ?m (concat (map enc rs))) 0) = as"
      "length (concat (map enc as)) \<le> ?m" "bs \<noteq> [] \<longrightarrow> ?m < length (concat (map enc (as @ [hd bs])))"
      using Cons.IH [of ?m] Cons.prems unfolding list.pred_inject by blast
    let ?rest = "take ?m (concat (map enc rs))"
    have "take n (enc r @ concat (map enc rs)) = enc r @ ?rest" using False by simp
    moreover have "fst (scan (enc r @ ?rest) 0) = r # as"
      using Cons.prems ab(2) dec_enc [of r ?rest] scan_at [of "enc r" ?rest]
      by (cases "scan ?rest 0") (simp add: scan_step [of "enc r @ ?rest" 0])
    ultimately show ?thesis
      using ab False by (intro exI [of _ "r # as"] exI [of _ bs]) auto
  qed
qed

end

interpretation wal_log: framed_log record_ok record_bytes parse_record scan_records
proof
  show "scan_records data off =
      (case parse_record data off of
         None \<Rightarrow> ([], off)
       | Some (r, off') \<Rightarrow> (case scan_records data off' of (rs, fin) \<Rightarrow> (r # rs, fin)))" for data off
    by (rule scan_records.simps)
qed (blast intro: parse_record_shift parse_record_mono parse_record_bytes parse_record_torn
    dest: parse_record_advances)+

section \<open>The checksum\<close>

lemma fnv_prime_cancel: "x * 0x01000193 = y * 0x01000193 \<Longrightarrow> x = (y :: uint32)"
proof -
  assume "x * 0x01000193 = y * 0x01000193"
  then have "x * 0x01000193 * 0x359c449b = y * 0x01000193 * (0x359c449b :: uint32)" by (rule arg_cong)
  moreover have one: "(0x01000193 * 0x359c449b :: uint32) = 1" by simp
  ultimately show ?thesis by (simp only: mult.assoc one mult_1_right)
qed

lemma fnv_step_state: "fnv_step h b = fnv_step h' b \<Longrightarrow> h = h'"
proof -
  assume "fnv_step h b = fnv_step h' b"
  then have "h XOR ucast b = h' XOR ucast b" unfolding fnv_step_def by (rule fnv_prime_cancel)
  then have "(h XOR ucast b) XOR ucast b = (h' XOR ucast b) XOR ucast b" by (rule arg_cong)
  then show ?thesis by (simp add: xor.assoc)
qed

lemma fnv_step_byte: "fnv_step h b = fnv_step h b' \<Longrightarrow> b = b'"
proof -
  assume "fnv_step h b = fnv_step h b'"
  then have "h XOR ucast b = h XOR ucast b'" unfolding fnv_step_def by (rule fnv_prime_cancel)
  then have "h XOR (h XOR ucast b) = h XOR (h XOR ucast b')" by (rule arg_cong)
  then have "(ucast b :: uint32) = ucast b'" by (simp flip: xor.assoc)
  then have "unat (ucast b :: uint32) = unat (ucast b' :: uint32)" by (rule arg_cong)
  then show ?thesis by (simp add: unsigned_ucast_eq take_bit_nat_eq_self word_unat_eq_iff
        order_less_trans [OF unsigned_less])
qed

lemma fnv_fold_state: "foldl fnv_step h xs = foldl fnv_step h' xs \<Longrightarrow> h = h'"
  by (induction xs arbitrary: h h') (auto dest: fnv_step_state)

lemma Fnv1a32_one_byte:
  assumes "i < length xs" and "b \<noteq> xs ! i"
  shows "Fnv1a32 (xs[i := b]) \<noteq> Fnv1a32 xs"
proof
  let ?h = "foldl fnv_step 0x811c9dc5 (take i xs)"
  assume "Fnv1a32 (xs[i := b]) = Fnv1a32 xs"
  moreover have "xs[i := b] = take i xs @ b # drop (Suc i) xs" using assms(1) by (rule upd_conv_take_nth_drop)
  moreover have "xs = take i xs @ xs ! i # drop (Suc i) xs" using assms(1) by (rule id_take_nth_drop)
  ultimately have "foldl fnv_step (fnv_step ?h b) (drop (Suc i) xs) =
      foldl fnv_step (fnv_step ?h (xs ! i)) (drop (Suc i) xs)"
    unfolding Fnv1a32_def by (metis foldl_Cons foldl_append)
  then have "fnv_step ?h b = fnv_step ?h (xs ! i)" by (rule fnv_fold_state)
  with fnv_step_byte assms(2) show False by blast
qed

text \<open>The scan accepts nothing but the image of a record: whatever it returns, \<open>AppendRecord\<close> would write.\<close>

lemma header_bytes_fields:
  assumes "length h = 29"
  shows "header_bytes (ReadAt 8 h 0) (ReadAt 1 h 8) (ReadAt 8 h 9) (ReadAt 4 h 17) (ReadAt 4 h 21) (ReadAt 4 h 25) = h"
proof -
  have "header_bytes (ReadAt 8 h 0) (ReadAt 1 h 8) (ReadAt 8 h 9) (ReadAt 4 h 17) (ReadAt 4 h 21) (ReadAt 4 h 25) =
      read_bytes h 0 8 @ read_bytes h 8 1 @ read_bytes h 9 8 @ read_bytes h 17 4 @ read_bytes h 21 4 @ read_bytes h 25 4"
    unfolding header_bytes_def ReadAt_def
    by (intro arg_cong2 [where f = append] word_bytes_bytes_word) (simp_all add: length_read_bytes assms)
  also have "\<dots> = read_bytes h 0 29"
    using read_bytes_split [of 25 29 h 0] read_bytes_split [of 21 25 h 0] read_bytes_split [of 17 21 h 0]
      read_bytes_split [of 9 17 h 0] read_bytes_split [of 8 9 h 0] by (simp flip: append_assoc)
  finally show ?thesis by (simp add: read_bytes_def assms)
qed

lemma parse_record_image:
  assumes "parse_record data 0 = Some (r, k)"
  shows "record_ok r" and "k = length (record_bytes r)" and "take k data = record_bytes r"
proof -
  define h rest where "h = take 29 data" and "rest = drop 29 data"
  have len: "29 \<le> length data" using assms by (auto simp: parse_record_def split: if_splits)
  then have h: "length h = 29" and data: "data = h @ rest" by (simp_all add: h_def rest_def)
  define lsn :: Lsn where "lsn = ReadAt 8 h 0"
  define raw :: byte where "raw = ReadAt 1 h 8"
  define txn :: TxnId where "txn = ReadAt 8 h 9"
  define oid :: ObjectId where "oid = ReadAt 4 h 17"
  define pid :: PageId where "pid = ReadAt 4 h 21"
  define plen :: uint32 where "plen = ReadAt 4 h 25"
  have hb: "h = header_bytes lsn raw txn oid pid plen"
    using header_bytes_fields [OF h] by (simp add: lsn_def raw_def txn_def oid_def pid_def plen_def)
  have fits: "unat plen + 4 \<le> length rest"
    using assms len unfolding data hb parse_record_def Let_def add_0 read_header_fields
    by (auto split: if_splits)
  define payload sum ys where "payload = take (unat plen) rest" and "sum = (ReadAt 4 rest (unat plen) :: uint32)"
    and "ys = drop (unat plen + 4) rest"
  have "word_bytes 4 sum = read_bytes rest (unat plen) 4"
    unfolding sum_def ReadAt_def using fits by (intro word_bytes_bytes_word) (simp_all add: length_read_bytes)
  then have rest: "rest = payload @ word_bytes 4 sum @ ys"
    by (simp add: payload_def ys_def read_bytes_def) (metis add.commute append_take_drop_id drop_drop)
  have plen: "length payload = unat plen" using fits by (simp add: payload_def)
  from assms have eq: "IsValidType raw" "plen = ExpectedPayloadLen (cast_type raw)"
    "sum = Fnv1a32 (h @ payload)" "k = 33 + length payload"
    "r = \<lparr>lr_lsn = lsn, lr_type = cast_type raw, lr_txn_id = txn, lr_object_id = oid, lr_page_id = pid,
          lr_page_image = (if payload \<noteq> [] then payload else blank_page)\<rparr>"
    unfolding data rest hb parse_record_frame [OF plen] by (auto split: if_splits)
  have upd: "cast_type raw = kUpdate \<longleftrightarrow> payload \<noteq> []" "cast_type raw = kUpdate \<Longrightarrow> length payload = 4096"
    using plen eq(2) by (auto simp: ExpectedPayloadLen_def split: if_splits)
  show ok: "record_ok r" using upd by (auto simp: eq(5) record_ok_def)
  have pay: "payload_of r = payload" using upd by (auto simp: eq(5) payload_of_def)
  have "record_bytes r = (h @ payload) @ word_bytes 4 (Fnv1a32 (h @ payload))"
    unfolding record_bytes_split [OF ok] pay using eq by (simp add: hb valid_cast_type)
  then show "take k data = record_bytes r" and "k = length (record_bytes r)"
    using eq h unfolding data rest by simp_all
qed

lemma record_bytes_inj_type:
  assumes "record_ok r" and "record_ok r'" and "lr_type r = lr_type r'"
  shows "length (record_bytes r) = length (record_bytes r')"
  using assms by (auto simp: length_record_bytes payload_of_def record_ok_def)

lemma record_bytes_fields:
  assumes "record_ok r"
  shows "read_bytes (record_bytes r @ ys) 8 1 = word_bytes 1 (record_type_tag (lr_type r))"
    and "read_bytes (record_bytes r @ ys) 25 4 = word_bytes 4 (ExpectedPayloadLen (lr_type r))"
    and "record_bytes r = take (29 + length (payload_of r)) (record_bytes r) @
           word_bytes 4 (Fnv1a32 (take (29 + length (payload_of r)) (record_bytes r)))"
  by (simp_all add: record_bytes_split [OF assms] header_bytes_def read_bytes_def)

text \<open>One corrupted byte anywhere in a record makes the scan stop in front of it.\<close>

lemma parse_record_corrupt:
  assumes ok: "record_ok r" and i: "i < length (record_bytes r)" and b: "b \<noteq> record_bytes r ! i"
  shows "parse_record ((record_bytes r)[i := b] @ ys) 0 = None"
proof (rule ccontr)
  let ?e = "record_bytes r" and ?d = "(record_bytes r)[i := b] @ ys"
  assume "parse_record ?d 0 \<noteq> None"
  then obtain r' k where "parse_record ?d 0 = Some (r', k)" by auto
  note img = parse_record_image [OF this]
  have d: "?d = record_bytes r' @ drop k ?d" using img(3) by (metis append_take_drop_id)
  have len29: "29 \<le> length ?e" by (simp add: length_record_bytes)
  have len: "length (record_bytes r') = length ?e"
  proof (cases "i = 8")
    case True
    then have "read_bytes ?d 25 4 = read_bytes ?e 25 4" using len29 by (simp add: read_bytes_def)
    then have "word_bytes 4 (ExpectedPayloadLen (lr_type r')) = word_bytes 4 (ExpectedPayloadLen (lr_type r))"
      using record_bytes_fields(2) [OF img(1), of "drop k ?d"] record_bytes_fields(2) [OF ok, of "[]"] d by simp
    then have "ExpectedPayloadLen (lr_type r') = ExpectedPayloadLen (lr_type r)" by (metis bytes_word_32)
    then show ?thesis
      using payload_len_of(2) [OF ok] payload_len_of(2) [OF img(1)] by (simp add: length_record_bytes)
  next
    case False
    have one: "read_bytes xs 8 1 = [xs ! 8]" if "29 \<le> length xs" for xs :: "byte list"
      using that by (simp add: read_bytes_def take_Suc hd_drop_conv_nth)
    have "read_bytes ?d 8 1 = read_bytes ?e 8 1"
      using len29 False one [of ?d] one [of ?e] by (simp add: nth_append)
    then have "word_bytes 1 (record_type_tag (lr_type r')) = word_bytes 1 (record_type_tag (lr_type r))"
      using record_bytes_fields(1) [OF img(1), of "drop k ?d"] record_bytes_fields(1) [OF ok, of "[]"] d by simp
    then have "lr_type r' = lr_type r" by (metis bytes_word_8 valid_type_tag(2))
    then show ?thesis using record_bytes_inj_type [OF img(1) ok] by simp
  qed
  have eq: "?e[i := b] = record_bytes r'" using d len by (metis append_eq_append_conv length_list_update)
  define m where "m = 29 + length (payload_of r)"
  have m': "m = 29 + length (payload_of r')" using len by (simp add: m_def length_record_bytes)
  note body = record_bytes_fields(3) [OF ok, folded m_def]
    and body' = record_bytes_fields(3) [OF img(1), folded m', folded eq]
  show False
  proof (cases "i < m")
    case True
    have "drop m (?e[i := b]) = drop m ?e" using True by simp
    moreover have "m \<le> length ?e" by (simp add: m_def length_record_bytes)
    ultimately have "word_bytes 4 (Fnv1a32 (take m (?e[i := b]))) = word_bytes 4 (Fnv1a32 (take m ?e))"
      using arg_cong [OF body, of "drop m"] arg_cong [OF body', of "drop m"] by simp
    then have "Fnv1a32 (take m (?e[i := b])) = Fnv1a32 (take m ?e)" by (metis bytes_word_32)
    with Fnv1a32_one_byte [of i "take m ?e" b] True b i show False by (simp add: take_update_swap)
  next
    case False
    then have "take m (?e[i := b]) = take m ?e" by simp
    with body body' have "?e[i := b] = ?e" by metis
    with b i show False by (metis nth_list_update_eq)
  qed
qed

section \<open>Properties of the log file\<close>

definition log_bytes :: "LogRecord list \<Rightarrow> byte list" where
  "log_bytes rs = concat (map record_bytes rs)"

lemma log_bytes_Nil [simp]: "log_bytes [] = []"
  by (simp add: log_bytes_def)

lemma LogManager_open_scan:
  assumes "list_all record_ok rs" and "parse_record ys 0 = None"
  shows "LogManager_open cap (log_bytes rs @ ys) =
    \<lparr>wal_file = log_bytes rs, wal_synced = 0, wal_capacity = cap, wal_fsync_ok = True,
     next_lsn = (if rs = [] then 1 else lr_lsn (last rs) + 1),
     records_on_open = rs, durable_lsn = 0, flush_in_progress = False\<rparr>"
  using wal_log.scan_enc [OF assms] by (simp add: LogManager_open_def log_bytes_def ftruncate_def)

text \<open>
  C22. Opening a log whose last write was cut short (any proper prefix of one more record follows the
  complete ones) recovers exactly the complete records, cuts the torn bytes off the file, and goes
  on numbering after the last recovered record.
\<close>

theorem wal_torn_tail:
  assumes "list_all record_ok rs" and "record_ok r" and "n < length (record_bytes r)"
  shows "let w = LogManager_open cap (log_bytes rs @ take n (record_bytes r))
    in RecordsOnOpen w = rs \<and> wal_file w = log_bytes rs \<and>
       NextLsn w = (if rs = [] then 1 else lr_lsn (last rs) + 1)"
  using LogManager_open_scan [OF assms(1) parse_record_torn [OF assms(2,3)]]
  by (simp add: RecordsOnOpen_def NextLsn_def Let_def)

definition begin_record :: LogRecord where
  "begin_record = \<lparr>lr_lsn = 1, lr_type = kBegin, lr_txn_id = 7, lr_object_id = INVALID_OBJECT_ID,
     lr_page_id = INVALID_PAGE_ID, lr_page_image = blank_page\<rparr>"

definition commit_record :: LogRecord where
  "commit_record = begin_record\<lparr>lr_lsn := 2, lr_type := kCommit\<rparr>"

lemma example_records_ok [simp]:
  "record_ok begin_record" "record_ok commit_record"
  "length (record_bytes begin_record) = 33" "length (record_bytes commit_record) = 33"
  by (simp_all add: record_ok_def begin_record_def commit_record_def length_record_bytes payload_of_def)

theorem wal_torn_tail_witness:
  "RecordsOnOpen (LogManager_open 100 (log_bytes [begin_record] @ take 32 (record_bytes commit_record))) = [begin_record] \<and>
   NextLsn (LogManager_open 100 (log_bytes [begin_record] @ take 32 (record_bytes commit_record))) = 2"
  using wal_torn_tail [of "[begin_record]" commit_record 32 100]
  by (simp add: begin_record_def [THEN arg_cong [where f = lr_lsn]] Let_def)

text \<open>
  C21. A record with any single byte changed, wherever the byte is (LSN, type, ids, length, payload or
  checksum) and whatever follows it, is never accepted: opening the file returns exactly the
  records in front of it.
\<close>

theorem wal_corruption_detected:
  assumes "list_all record_ok rs" and "record_ok r"
    and "i < length (record_bytes r)" and "b \<noteq> record_bytes r ! i"
  shows "RecordsOnOpen (LogManager_open cap (log_bytes rs @ (record_bytes r)[i := b] @ ys)) = rs \<and>
    wal_file (LogManager_open cap (log_bytes rs @ (record_bytes r)[i := b] @ ys)) = log_bytes rs"
  using LogManager_open_scan [OF assms(1) parse_record_corrupt [OF assms(2-4)]]
  by (simp add: RecordsOnOpen_def)

theorem wal_corruption_detected_witness:
  "\<exists>b. RecordsOnOpen (LogManager_open 100 (log_bytes [begin_record] @ (record_bytes commit_record)[8 := b] @
      record_bytes commit_record)) = [begin_record]"
  using wal_corruption_detected [of "[begin_record]" commit_record 8 "record_bytes commit_record ! 8 + 1" 100
      "record_bytes commit_record"]
  by (intro exI [of _ "record_bytes commit_record ! 8 + 1"]) simp

section \<open>Appending\<close>

text \<open>The record an append writes.\<close>

definition new_record :: "wal \<Rightarrow> LogRecordType \<Rightarrow> TxnId \<Rightarrow> ObjectId \<Rightarrow> PageId \<Rightarrow> byte list \<Rightarrow> LogRecord" where
  "new_record w ty txn oid pid payload =
     \<lparr>lr_lsn = next_lsn w, lr_type = ty, lr_txn_id = txn, lr_object_id = oid, lr_page_id = pid,
      lr_page_image = (if ty = kUpdate then payload else blank_page)\<rparr>"

definition payload_ok :: "LogRecordType \<Rightarrow> byte list \<Rightarrow> bool" where
  "payload_ok ty payload \<longleftrightarrow> (if ty = kUpdate then length payload = PAGE_SIZE else payload = [])"

lemma new_record_ok: "payload_ok ty payload \<Longrightarrow> record_ok (new_record w ty txn oid pid payload)"
  by (auto simp: payload_ok_def record_ok_def new_record_def)

lemma new_record_bytes:
  "payload_ok ty payload \<Longrightarrow>
   record_bytes (new_record w ty txn oid pid payload) = record_buffer (next_lsn w) ty txn oid pid payload"
  by (auto simp: payload_ok_def record_bytes_def new_record_def payload_of_def split: if_splits)

lemma lr_lsn_new_record [simp]: "lr_lsn (new_record w ty txn oid pid payload) = next_lsn w"
  by (simp add: new_record_def)

lemma FullWrite_append_schedule:
  "FullWrite (append_schedule room) fl bs =
     (if length bs \<le> room then (Inr (), fl @ bs)
      else (Inl (Runtime_error ''write failed''), fl @ take room bs))"
  by (auto simp: append_schedule_def)

lemma AppendRecord_eq:
  assumes "payload_ok ty payload"
  shows "AppendRecord ty txn oid pid payload w =
    (let bs = record_bytes (new_record w ty txn oid pid payload);
         room = wal_capacity w - length (wal_file w)
     in if length bs \<le> room
        then (Inr (next_lsn w), w\<lparr>next_lsn := next_lsn w + 1, wal_file := wal_file w @ bs\<rparr>)
        else (Inl (Runtime_error ''write failed''),
              w\<lparr>next_lsn := next_lsn w + 1, wal_file := wal_file w @ take room bs\<rparr>))"
  using new_record_bytes [OF assms] by (simp add: AppendRecord_def FullWrite_append_schedule Let_def)

lemma AppendRecord_Inr:
  assumes "payload_ok ty payload" and "AppendRecord ty txn oid pid payload w = (Inr lsn, w')"
  shows "lsn = next_lsn w"
    and "w' = w\<lparr>next_lsn := next_lsn w + 1, wal_file := wal_file w @ record_bytes (new_record w ty txn oid pid payload)\<rparr>"
  using assms by (auto simp: AppendRecord_eq Let_def split: if_splits)

section \<open>Group commit\<close>

text \<open>
  Threads append, and call \<open>FlushThrough\<close> for an LSN already handed out. The mutexes make the
  appends and the parts of the loop between them atomic; the \<open>fsync\<close> runs unlocked, beside other
  threads' appends. The flag allows quiescent checkpoints.
\<close>

datatype flush_status =
    Flush_idle
  | Flush_checking Lsn
  | Flush_sleeping Lsn
  | Flush_syncing Lsn Lsn
  | Flush_synced Lsn Lsn bool
  | Flush_done Lsn
  | Flush_failed Lsn

record wal_system =
  ws_wal :: wal
  ws_threads :: "thread_id \<Rightarrow> flush_status"

definition wake_flusher :: "flush_status \<Rightarrow> flush_status" where
  "wake_flusher st = (case st of Flush_sleeping l \<Rightarrow> Flush_checking l | _ \<Rightarrow> st)"

definition set_thread :: "thread_id \<Rightarrow> flush_status \<Rightarrow> wal_system \<Rightarrow> wal_system" where
  "set_thread i st s = s\<lparr>ws_threads := (ws_threads s)(i := st)\<rparr>"

definition publish :: "thread_id \<Rightarrow> bool \<Rightarrow> Lsn \<Rightarrow> flush_status \<Rightarrow> wal_system \<Rightarrow> wal_system" where
  "publish i ok to_cover st s =
     \<lparr>ws_wal = FlushThrough_publish ok to_cover (ws_wal s),
      ws_threads = (wake_flusher \<circ> ws_threads s)(i := st)\<rparr>"

definition between_calls :: "flush_status \<Rightarrow> bool" where
  "between_calls st = (case st of Flush_idle \<Rightarrow> True | Flush_done _ \<Rightarrow> True | Flush_failed _ \<Rightarrow> True | _ \<Rightarrow> False)"

inductive wal_step :: "bool \<Rightarrow> wal_system \<Rightarrow> wal_system \<Rightarrow> bool" for ckpt where
  append: "payload_ok ty payload \<Longrightarrow> next_lsn (ws_wal s) \<noteq> - 1 \<Longrightarrow>
     AppendRecord ty txn oid pid payload (ws_wal s) = (Inr lsn, w) \<Longrightarrow>
     wal_step ckpt s (s\<lparr>ws_wal := w\<rparr>)"
| call: "between_calls (ws_threads s i) \<Longrightarrow> target < next_lsn (ws_wal s) \<Longrightarrow>
     wal_step ckpt s (set_thread i (Flush_checking target) s)"
| returns: "ws_threads s i = Flush_checking target \<Longrightarrow> FlushThrough_round target (ws_wal s) = Flush_returns \<Longrightarrow>
     wal_step ckpt s (set_thread i (Flush_done target) s)"
| waits: "ws_threads s i = Flush_checking target \<Longrightarrow> FlushThrough_round target (ws_wal s) = Flush_waits \<Longrightarrow>
     wal_step ckpt s (set_thread i (Flush_sleeping target) s)"
| starts: "ws_threads s i = Flush_checking target \<Longrightarrow>
     FlushThrough_round target (ws_wal s) = Flush_starts to_cover w \<Longrightarrow>
     wal_step ckpt s (set_thread i (Flush_syncing target to_cover) (s\<lparr>ws_wal := w\<rparr>))"
| sync_ok: "ws_threads s i = Flush_syncing target to_cover \<Longrightarrow>
     wal_step ckpt s (set_thread i (Flush_synced target to_cover True) (s\<lparr>ws_wal := fsync (ws_wal s)\<rparr>))"
| sync_fails: "ws_threads s i = Flush_syncing target to_cover \<Longrightarrow>
     wal_step ckpt s (set_thread i (Flush_synced target to_cover False) s)"
| publish_ok: "ws_threads s i = Flush_synced target to_cover True \<Longrightarrow>
     wal_step ckpt s (publish i True to_cover (Flush_checking target) s)"
| publish_fails: "ws_threads s i = Flush_synced target to_cover False \<Longrightarrow>
     wal_step ckpt s (publish i False to_cover (Flush_failed target) s)"
| spurious: "ws_threads s i = Flush_sleeping target \<Longrightarrow>
     wal_step ckpt s (set_thread i (Flush_checking target) s)"
| checkpoint: "ckpt \<Longrightarrow> \<forall>i. between_calls (ws_threads s i) \<Longrightarrow>
     wal_step ckpt s (s\<lparr>ws_wal := Checkpoint (ws_wal s)\<rparr>)"

text \<open>A log the engine may find on disk: complete records numbered upwards from at least 1.\<close>

definition log_ok :: "LogRecord list \<Rightarrow> bool" where
  "log_ok rs \<longleftrightarrow> list_all record_ok rs \<and> sorted_wrt (<) (map lr_lsn rs) \<and> (\<forall>r \<in> set rs. 0 < lr_lsn r \<and> lr_lsn r \<noteq> - 1)"

inductive wal_reachable :: "bool \<Rightarrow> wal_system \<Rightarrow> bool" for ckpt where
  start: "log_ok rs \<Longrightarrow>
     wal_reachable ckpt \<lparr>ws_wal = LogManager_open cap (log_bytes rs), ws_threads = (\<lambda>_. Flush_idle)\<rparr>"
| more: "wal_reachable ckpt s \<Longrightarrow> wal_step ckpt s s' \<Longrightarrow> wal_reachable ckpt s'"

text \<open>The records a reopened file is read as.\<close>

definition wal_records :: "byte list \<Rightarrow> LogRecord list" where
  "wal_records data = fst (scan_records data 0)"

text \<open>What a crash may leave of the file: the synced bytes, then anything.\<close>

definition crash_image :: "wal \<Rightarrow> byte list \<Rightarrow> bool" where
  "crash_image w data \<longleftrightarrow> prefix (take (wal_synced w) (wal_file w)) data"

definition synced_through :: "wal \<Rightarrow> Lsn \<Rightarrow> bool" where
  "synced_through w l \<longleftrightarrow>
     (\<forall>r \<in> set (wal_records (wal_file w)). lr_lsn r \<le> l \<longrightarrow>
        r \<in> set (wal_records (take (wal_synced w) (wal_file w))))"

definition thread_ok :: "wal \<Rightarrow> flush_status \<Rightarrow> bool" where
  "thread_ok w st =
     (case st of
        Flush_checking t \<Rightarrow> t < next_lsn w
      | Flush_sleeping t \<Rightarrow> t < next_lsn w
      | Flush_syncing t c \<Rightarrow> t < next_lsn w \<and> c < next_lsn w
      | Flush_synced t c ok \<Rightarrow> t < next_lsn w \<and> c < next_lsn w \<and> (ok \<longrightarrow> synced_through w c)
      | Flush_done t \<Rightarrow> t < next_lsn w \<and> synced_through w t
      | _ \<Rightarrow> True)"

definition wal_inv :: "wal \<Rightarrow> bool" where
  "wal_inv w \<longleftrightarrow>
     (\<exists>rs. wal_file w = log_bytes rs \<and> log_ok rs \<and> (\<forall>r \<in> set rs. lr_lsn r < next_lsn w)) \<and>
     wal_synced w \<le> length (wal_file w) \<and> durable_lsn w < next_lsn w \<and> synced_through w (durable_lsn w)"

definition wal_system_inv :: "wal_system \<Rightarrow> bool" where
  "wal_system_inv s \<longleftrightarrow> wal_inv (ws_wal s) \<and> (\<forall>i. thread_ok (ws_wal s) (ws_threads s i))"

lemma wal_records_log_bytes: "log_ok rs \<Longrightarrow> wal_records (log_bytes rs) = rs"
  by (simp add: wal_records_def log_bytes_def log_ok_def wal_log.scan_enc_all)

lemma synced_through_all: "synced_through (fsync w) l"
  by (simp add: synced_through_def fsync_def)

lemma synced_through_mono: "synced_through w l \<Longrightarrow> l' \<le> l \<Longrightarrow> synced_through w l'"
  unfolding synced_through_def by (meson order_trans)

lemma synced_through_publish [simp]:
  "synced_through (FlushThrough_publish ok c w) l = synced_through w l"
  by (simp add: synced_through_def FlushThrough_publish_def)

text \<open>An append adds a record above every LSN handed out before, behind the synced bytes.\<close>

lemma wal_inv_append:
  assumes inv: "wal_inv w" and pay: "payload_ok ty payload" and room: "next_lsn w \<noteq> - 1"
    and app: "AppendRecord ty txn oid pid payload w = (Inr lsn, w')"
  shows "wal_inv w'" and "next_lsn w < next_lsn w'" and "l < next_lsn w \<Longrightarrow> synced_through w l \<Longrightarrow> synced_through w' l"
proof -
  let ?r = "new_record w ty txn oid pid payload"
  have w': "w' = w\<lparr>next_lsn := next_lsn w + 1, wal_file := wal_file w @ record_bytes ?r\<rparr>"
    using AppendRecord_Inr(2) [OF pay app] .
  from inv obtain rs where rs: "wal_file w = log_bytes rs" "log_ok rs" "\<forall>r \<in> set rs. lr_lsn r < next_lsn w"
    and sync: "wal_synced w \<le> length (wal_file w)" and dur: "durable_lsn w < next_lsn w"
    and cov: "synced_through w (durable_lsn w)"
    unfolding wal_inv_def by blast
  have up: "next_lsn w < next_lsn w + 1" using room by (rule word_less_plus_one)
  then show "next_lsn w < next_lsn w'" by (simp add: w')
  have pos: "0 < next_lsn w" using dur by (rule order_le_less_trans [OF word_zero_le])
  have f': "wal_file w' = log_bytes (rs @ [?r])" by (simp add: w' rs(1) log_bytes_def)
  have ok': "log_ok (rs @ [?r])"
    using rs(2,3) new_record_ok [OF pay] pos room by (auto simp: log_ok_def sorted_wrt_append)
  have tk: "take (wal_synced w') (log_bytes (rs @ [?r])) = take (wal_synced w) (log_bytes rs)"
    using sync by (simp add: w' rs(1) log_bytes_def)
  show through: "synced_through w' l" if "l < next_lsn w" "synced_through w l" for l
    using that unfolding synced_through_def tk f' rs(1) wal_records_log_bytes [OF ok'] wal_records_log_bytes [OF rs(2)]
    by auto
  have "\<forall>r \<in> set (rs @ [?r]). lr_lsn r < next_lsn w'"
    using rs(3) up by (auto simp: w' intro: order_less_trans)
  moreover have "wal_synced w' \<le> length (wal_file w')" using sync by (simp add: w')
  moreover have "durable_lsn w' < next_lsn w'" using dur up by (simp add: w')
  moreover have "synced_through w' (durable_lsn w')" using through [OF dur cov] by (simp add: w')
  ultimately show "wal_inv w'" unfolding wal_inv_def using f' ok' by blast
qed

lemma thread_ok_append:
  assumes "wal_inv w" and "payload_ok ty payload" and "next_lsn w \<noteq> - 1"
    and "AppendRecord ty txn oid pid payload w = (Inr lsn, w')" and "thread_ok w st"
  shows "thread_ok w' st"
  using assms(5) wal_inv_append(2) [OF assms(1-4)] wal_inv_append(3) [OF assms(1-4)]
  by (auto simp: thread_ok_def split: flush_status.splits intro: order_less_trans)

lemma thread_ok_wake [simp]: "thread_ok w st \<Longrightarrow> thread_ok w (wake_flusher st)"
  by (cases st) (simp_all add: thread_ok_def wake_flusher_def)

lemma thread_ok_fsync: "thread_ok w st \<Longrightarrow> thread_ok (fsync w) st"
  using synced_through_all by (cases st) (simp_all add: thread_ok_def fsync_def)

lemma thread_ok_publish [simp]: "thread_ok (FlushThrough_publish ok c w) st = thread_ok w st"
  by (cases st) (simp_all add: thread_ok_def FlushThrough_publish_def synced_through_def)

lemma wal_inv_fsync: "wal_inv w \<Longrightarrow> wal_inv (fsync w)"
  using synced_through_all by (auto simp: wal_inv_def fsync_def)

lemma wal_inv_publish: "wal_inv w \<Longrightarrow> (ok \<Longrightarrow> c < next_lsn w \<and> synced_through w c) \<Longrightarrow> wal_inv (FlushThrough_publish ok c w)"
  by (auto simp: wal_inv_def FlushThrough_publish_def synced_through_def max_def split: if_splits)

lemma round_returns: "wal_inv w \<Longrightarrow> FlushThrough_round t w = Flush_returns \<Longrightarrow> synced_through w t"
  by (auto simp: FlushThrough_round_def wal_inv_def not_less split: if_splits intro: synced_through_mono)

lemma round_starts:
  assumes "wal_inv w" and "t < next_lsn w" and "FlushThrough_round t w = Flush_starts c w'"
  shows "w' = w\<lparr>flush_in_progress := True\<rparr>" and "t \<le> c" and "c < next_lsn w"
proof -
  have c: "c = max t (next_lsn w - 1)" and w': "w' = w\<lparr>flush_in_progress := True\<rparr>"
    using assms(3) by (auto simp: FlushThrough_round_def NextLsn_def split: if_splits)
  have "next_lsn w - 1 < next_lsn w" using assms(2) word_less_plus_one [of "next_lsn w - 1"] by fastforce
  with c w' assms(2) show "w' = w\<lparr>flush_in_progress := True\<rparr>" and "t \<le> c" and "c < next_lsn w" by auto
qed

lemma flag_irrelevant [simp]:
  "wal_inv (w\<lparr>flush_in_progress := b\<rparr>) = wal_inv w" "thread_ok (w\<lparr>flush_in_progress := b\<rparr>) st = thread_ok w st"
  by (cases st; simp add: wal_inv_def thread_ok_def synced_through_def)+

lemma set_thread_simps [simp]:
  "ws_wal (set_thread i st s) = ws_wal s" "ws_threads (set_thread i st s) = (ws_threads s)(i := st)"
  by (simp_all add: set_thread_def)

lemma wal_system_invD:
  assumes "wal_system_inv s"
  shows "wal_inv (ws_wal s)" and "thread_ok (ws_wal s) (ws_threads s i)"
  using assms by (auto simp: wal_system_inv_def)

lemma wal_step_inv: "wal_step False s s' \<Longrightarrow> wal_system_inv s \<Longrightarrow> wal_system_inv s'"
proof (induction rule: wal_step.induct)
  case (append ty payload s txn oid pid lsn w)
  then show ?case using wal_inv_append(1) thread_ok_append by (auto simp: wal_system_inv_def)
next
  case (call s i target)
  then show ?case by (auto simp: wal_system_inv_def thread_ok_def)
next
  case (returns s i target)
  note I = wal_system_invD [OF returns(3)]
  from I(2) [of i] returns(1) round_returns [OF I(1) returns(2)] show ?case
    using returns(3) by (auto simp: wal_system_inv_def thread_ok_def)
next
  case (waits s i target)
  then show ?case using wal_system_invD(2) [OF waits(3), of i] by (auto simp: wal_system_inv_def thread_ok_def)
next
  case (starts s i target to_cover w)
  note I = wal_system_invD [OF starts(3)]
  from I(2) [of i] starts(1) have t: "target < next_lsn (ws_wal s)" by (simp add: thread_ok_def)
  from round_starts [OF I(1) t starts(2)] t have "thread_ok (ws_wal s) (Flush_syncing target to_cover)"
    "w = (ws_wal s)\<lparr>flush_in_progress := True\<rparr>" by (simp_all add: thread_ok_def)
  with starts(3) show ?case by (auto simp: wal_system_inv_def)
next
  case (sync_ok s i target to_cover)
  note I = wal_system_invD [OF sync_ok(2)]
  have "thread_ok (fsync (ws_wal s)) (Flush_synced target to_cover True)"
    using I(2) [of i] sync_ok(1) synced_through_all by (simp add: thread_ok_def fsync_def)
  with I wal_inv_fsync thread_ok_fsync show ?case by (auto simp: wal_system_inv_def)
next
  case (sync_fails s i target to_cover)
  then show ?case using wal_system_invD(2) [OF sync_fails(2), of i] by (auto simp: wal_system_inv_def thread_ok_def)
next
  case (publish_ok s i target to_cover)
  note I = wal_system_invD [OF publish_ok(2)]
  from I(2) [of i] publish_ok(1) have t: "target < next_lsn (ws_wal s)" "to_cover < next_lsn (ws_wal s)"
    "synced_through (ws_wal s) to_cover" by (simp_all add: thread_ok_def)
  moreover from t have "thread_ok (ws_wal s) (Flush_checking target)" by (simp add: thread_ok_def)
  ultimately show ?case
    using I by (auto simp: wal_system_inv_def publish_def wal_inv_publish)
next
  case (publish_fails s i target to_cover)
  then show ?case
    by (auto simp: wal_system_inv_def publish_def wal_inv_publish) (simp add: thread_ok_def)
next
  case (spurious s i target)
  then show ?case using wal_system_invD(2) [OF spurious(2), of i] by (auto simp: wal_system_inv_def thread_ok_def)
qed simp

lemma wal_inv_open:
  assumes "log_ok rs"
  shows "wal_inv (LogManager_open cap (log_bytes rs))"
proof -
  let ?w = "LogManager_open cap (log_bytes rs)"
  let ?n = "if rs = [] then 1 else lr_lsn (last rs) + 1 :: Lsn"
  have w: "?w = \<lparr>wal_file = log_bytes rs, wal_synced = 0, wal_capacity = cap, wal_fsync_ok = True,
      next_lsn = ?n, records_on_open = rs, durable_lsn = 0, flush_in_progress = False\<rparr>"
    using LogManager_open_scan [of rs "[]" cap] assms wal_log.dec_nil by (simp add: log_ok_def)
  have last: "rs \<noteq> [] \<Longrightarrow> lr_lsn (last rs) < lr_lsn (last rs) + 1"
    using assms last_in_set [of rs] unfolding log_ok_def by (metis word_less_plus_one)
  have "lr_lsn r < ?n" if r: "r \<in> set rs" for r
  proof -
    from r have ne: "rs \<noteq> []" by auto
    then have sp: "rs = butlast rs @ [last rs]" by simp
    have "sorted_wrt (<) (map lr_lsn (butlast rs @ [last rs]))" using assms sp unfolding log_ok_def by metis
    then have "\<forall>x \<in> set (butlast rs). lr_lsn x < lr_lsn (last rs)" by (simp add: sorted_wrt_append)
    moreover have "r \<in> set (butlast rs) \<or> r = last rs" using r sp by (metis Un_iff empty_iff insert_iff list.set set_append)
    ultimately have "lr_lsn r \<le> lr_lsn (last rs)" by auto
    with last [OF ne] ne show ?thesis by simp
  qed
  moreover have "0 < ?n"
    using last by (auto intro: order_le_less_trans [OF word_zero_le])
  moreover have "synced_through ?w 0"
    using assms by (auto simp: synced_through_def w wal_records_log_bytes log_ok_def)
  ultimately show ?thesis
    unfolding wal_inv_def using assms by (intro conjI exI [of _ rs]) (simp_all add: w)
qed

lemma wal_reachable_inv: "wal_reachable False s \<Longrightarrow> wal_system_inv s"
proof (induction rule: wal_reachable.induct)
  case (start rs cap)
  then show ?case using wal_inv_open by (simp add: wal_system_inv_def thread_ok_def)
next
  case (more s s')
  then show ?case using wal_step_inv by blast
qed

lemma synced_survives:
  assumes "synced_through w l" and "crash_image w data"
    and "r \<in> set (wal_records (wal_file w))" and "lr_lsn r \<le> l"
  shows "r \<in> set (RecordsOnOpen (LogManager_open cap data))"
proof -
  from assms have "r \<in> set (wal_records (take (wal_synced w) (wal_file w)))" by (auto simp: synced_through_def)
  moreover from assms(2) obtain ys where "data = take (wal_synced w) (wal_file w) @ ys"
    by (auto simp: crash_image_def prefix_def)
  ultimately have "r \<in> set (wal_records data)"
    using wal_log.scan_prefix by (metis set_mono_prefix subsetD wal_records_def)
  then show ?thesis
    by (cases "scan_records data 0") (simp add: RecordsOnOpen_def LogManager_open_def wal_records_def)
qed



text \<open>A commit by one thread, from an empty log to the return of its \<open>FlushThrough\<close>.\<close>

definition wal_run_append :: "LogRecordType \<Rightarrow> TxnId \<Rightarrow> wal \<Rightarrow> wal" where
  "wal_run_append ty txn w = snd (AppendRecord ty txn INVALID_OBJECT_ID INVALID_PAGE_ID [] w)"

lemma wal_run_append_eq:
  "length (wal_file w) + 33 \<le> wal_capacity w \<Longrightarrow> ty \<noteq> kUpdate \<Longrightarrow>
   AppendRecord ty txn INVALID_OBJECT_ID INVALID_PAGE_ID [] w = (Inr (next_lsn w), wal_run_append ty txn w) \<and>
   wal_run_append ty txn w = w\<lparr>next_lsn := next_lsn w + 1, wal_file := wal_file w @
     record_bytes (new_record w ty txn INVALID_OBJECT_ID INVALID_PAGE_ID [])\<rparr>"
  by (simp add: wal_run_append_def AppendRecord_eq payload_ok_def Let_def length_record_bytes payload_of_def new_record_def)

lemma reachable_append:
  assumes "wal_reachable ck s" and "ty \<noteq> kUpdate" and "next_lsn (ws_wal s) \<noteq> - 1"
    and "length (wal_file (ws_wal s)) + 33 \<le> wal_capacity (ws_wal s)"
  shows "wal_reachable ck (s\<lparr>ws_wal := wal_run_append ty txn (ws_wal s)\<rparr>)"
  using assms wal_step.append [of ty "[]" s txn INVALID_OBJECT_ID INVALID_PAGE_ID] wal_run_append_eq
  by (metis wal_reachable.more payload_ok_def)

text \<open>A whole uncontended \<open>FlushThrough\<close> is a sequence of steps that ends in \<open>Flush_done\<close>.\<close>

lemma reachable_flush:
  assumes re: "wal_reachable ck s" and idle: "between_calls (ws_threads s i)"
    and t: "target < next_lsn (ws_wal s)" and free: "\<not> flush_in_progress (ws_wal s)" "wal_fsync_ok (ws_wal s)"
    and fl: "FlushThrough target (ws_wal s) = (Inr (), w')"
  shows "wal_reachable ck \<lparr>ws_wal = w', ws_threads = (wake_flusher \<circ> ws_threads s)(i := Flush_done target)\<rparr> \<or>
         wal_reachable ck (set_thread i (Flush_done target) (s\<lparr>ws_wal := w'\<rparr>))"
proof -
  let ?a = "set_thread i (Flush_checking target) s"
  have a: "wal_reachable ck ?a" using re idle t by (blast intro: wal_reachable.more wal_step.call)
  show ?thesis
  proof (cases "FlushThrough_round target (ws_wal s)")
    case Flush_returns
    then have "wal_step ck ?a (set_thread i (Flush_done target) ?a)" by (intro wal_step.returns) simp_all
    with a have "wal_reachable ck (set_thread i (Flush_done target) ?a)" by (rule wal_reachable.more)
    moreover have "w' = ws_wal s" using fl Flush_returns by (simp add: FlushThrough_def)
    ultimately show ?thesis by (simp add: set_thread_def)
  next
    case Flush_waits
    with free show ?thesis by (simp add: FlushThrough_round_def split: if_splits)
  next
    case (Flush_starts c w1)
    then have w1: "w1 = (ws_wal s)\<lparr>flush_in_progress := True\<rparr>" by (auto simp: FlushThrough_round_def split: if_splits)
    with fl free Flush_starts have w': "w' = FlushThrough_publish True c (fsync w1)" by (simp add: FlushThrough_def)
    let ?b = "set_thread i (Flush_syncing target c) (?a\<lparr>ws_wal := w1\<rparr>)"
    let ?c = "set_thread i (Flush_synced target c True) (?b\<lparr>ws_wal := fsync (ws_wal ?b)\<rparr>)"
    let ?d = "publish i True c (Flush_checking target) ?c"
    let ?e = "set_thread i (Flush_done target) ?d"
    have "wal_step ck ?a ?b" using Flush_starts by (intro wal_step.starts) simp_all
    with a have "wal_reachable ck ?b" by (rule wal_reachable.more)
    moreover have "wal_step ck ?b ?c" by (intro wal_step.sync_ok) simp
    ultimately have "wal_reachable ck ?c" by (rule wal_reachable.more)
    moreover have "wal_step ck ?c ?d" by (intro wal_step.publish_ok) simp
    ultimately have "wal_reachable ck ?d" by (rule wal_reachable.more)
    moreover have "FlushThrough_round target (FlushThrough_publish True c (fsync w1)) = Flush_returns"
      using Flush_starts by (rule FlushThrough_second_round)
    then have "wal_step ck ?d ?e" by (intro wal_step.returns) (simp_all add: publish_def set_thread_def)
    ultimately have "wal_reachable ck ?e" by (rule wal_reachable.more)
    moreover have "?e = \<lparr>ws_wal = w', ws_threads = (wake_flusher \<circ> ws_threads s)(i := Flush_done target)\<rparr>"
      by (simp add: publish_def set_thread_def w' fun_eq_iff)
    ultimately show ?thesis by simp
  qed
qed

definition empty_wal :: wal where
  "empty_wal = \<lparr>wal_file = [], wal_synced = 0, wal_capacity = 100, wal_fsync_ok = True, next_lsn = 1,
     records_on_open = [], durable_lsn = 0, flush_in_progress = False\<rparr>"

definition committed_wal :: wal where
  "committed_wal = snd (FlushThrough 1 (wal_run_append kCommit 7 empty_wal))"

definition committed_system :: wal_system where
  "committed_system = \<lparr>ws_wal = committed_wal, ws_threads = (\<lambda>_. Flush_idle)(0 := Flush_done 1)\<rparr>"

abbreviation (input) first_commit :: LogRecord where
  "first_commit \<equiv> new_record empty_wal kCommit 7 INVALID_OBJECT_ID INVALID_PAGE_ID []"

lemma committed_wal_eq:
  "FlushThrough 1 (wal_run_append kCommit 7 empty_wal) = (Inr (), committed_wal)"
  "committed_wal = empty_wal\<lparr>next_lsn := 2, wal_file := record_bytes first_commit, wal_synced := 33, durable_lsn := 1\<rparr>"
  using wal_run_append_eq [of empty_wal kCommit 7]
  by (simp_all add: committed_wal_def empty_wal_def FlushThrough_def FlushThrough_round_def FlushThrough_publish_def
      fsync_def NextLsn_def length_record_bytes payload_of_def new_record_def)

lemma committed_system_reachable: "wal_reachable ck committed_system"
proof -
  let ?s0 = "\<lparr>ws_wal = empty_wal, ws_threads = (\<lambda>_. Flush_idle)\<rparr>"
  have "LogManager_open 100 (log_bytes []) = empty_wal"
    using LogManager_open_scan [of "[]" "[]" 100] wal_log.dec_nil by (simp add: empty_wal_def)
  then have "wal_reachable ck ?s0" using wal_reachable.start [of "[]" ck 100] by (simp add: log_ok_def)
  then have "wal_reachable ck (?s0\<lparr>ws_wal := wal_run_append kCommit 7 empty_wal\<rparr>)"
    using reachable_append [of ck ?s0 kCommit 7] by (simp add: empty_wal_def)
  from reachable_flush [OF this, of 0 1 committed_wal] wal_run_append_eq [of empty_wal kCommit 7] committed_wal_eq(1)
  show ?thesis
    by (simp add: between_calls_def empty_wal_def committed_system_def set_thread_def wake_flusher_def comp_def)
qed


lemma first_commit_ok: "record_ok first_commit" "log_ok [first_commit]"
  by (auto simp: log_ok_def empty_wal_def new_record_def record_ok_def)


text \<open>
  C20. \<open>Checkpoint\<close> restarts the LSNs at 1 but keeps \<open>durable_lsn_\<close>. After one commit and one
  checkpoint, \<open>FlushThrough\<close> returns for the next commit record without any \<open>fsync\<close>: a thread is
  told its commit is durable, and a crash that keeps every synced byte loses it.
\<close>

theorem checkpoint_breaks_group_commit:
  "\<exists>s r data. wal_reachable True s \<and> ws_threads s 0 = Flush_done (lr_lsn r) \<and> lr_type r = kCommit \<and>
     r \<in> set (wal_records (wal_file (ws_wal s))) \<and> crash_image (ws_wal s) data \<and>
     r \<notin> set (RecordsOnOpen (LogManager_open 100 data))"
proof -
  let ?w1 = "Checkpoint committed_wal"
  let ?w2 = "wal_run_append kCommit 7 ?w1"
  let ?s1 = "committed_system\<lparr>ws_wal := ?w1\<rparr>" and ?s2 = "committed_system\<lparr>ws_wal := ?w2\<rparr>"
  have w1: "?w1 = empty_wal\<lparr>durable_lsn := 1\<rparr>"
    by (simp add: Checkpoint_def committed_wal_eq(2) empty_wal_def ftruncate_def)
  have nr: "new_record ?w1 kCommit 7 INVALID_OBJECT_ID INVALID_PAGE_ID [] = first_commit"
    by (simp add: w1 new_record_def)
  have w2: "?w2 = empty_wal\<lparr>next_lsn := 2, wal_file := record_bytes first_commit, durable_lsn := 1\<rparr>"
    using wal_run_append_eq [of ?w1 kCommit 7] unfolding nr by (simp add: w1 empty_wal_def)
  have "wal_step True committed_system ?s1"
    using wal_step.checkpoint [of True committed_system] by (simp add: committed_system_def between_calls_def)
  with committed_system_reachable have "wal_reachable True ?s1" by (rule wal_reachable.more)
  then have "wal_reachable True ?s2"
    using reachable_append [of True ?s1 kCommit 7] by (simp add: w1 empty_wal_def)
  moreover have "FlushThrough 1 ?w2 = (Inr (), ?w2)"
    by (simp add: FlushThrough_def FlushThrough_round_def w2)
  ultimately have re: "wal_reachable True ?s2"
    using reachable_flush [of True ?s2 0 1 ?w2]
    by (simp add: w2 between_calls_def empty_wal_def committed_system_def)
  have "first_commit \<in> set (wal_records (wal_file ?w2))"
    using wal_records_log_bytes [OF first_commit_ok(2)] by (simp add: w2 log_bytes_def)
  moreover have "crash_image ?w2 []" by (simp add: crash_image_def w2 empty_wal_def)
  moreover have "RecordsOnOpen (LogManager_open 100 []) = []"
    using LogManager_open_scan [of "[]" "[]" 100] wal_log.dec_nil by (simp add: RecordsOnOpen_def log_bytes_def)
  ultimately show ?thesis
    using re by (intro exI [of _ ?s2] exI [of _ first_commit] exI [of _ "[]"])
      (simp add: committed_system_def empty_wal_def, simp add: new_record_def)
qed

end
