(* ===== verification/Recovery.thy ===== *)
theory Recovery
  imports Log_Manager
begin

text \<open>
  Redo recovery, \<open>RunRecovery\<close> of \<open>src/src/wal/recovery.h\<close> and \<open>recovery.cpp\<close>: the first pass collects the
  transactions with a commit record, the second writes the page images of their updates through
  the disk manager of the object each of them names.
\<close>

type_synonym disks = "ObjectId \<rightharpoonup> disk"

definition committed_txns :: "LogRecord list \<Rightarrow> TxnId set" where
  "committed_txns records = fold (\<lambda>r S. if lr_type r = kCommit then insert (lr_txn_id r) S else S) records {}"

text \<open>The body of the second loop; the state is the data files and the counter \<open>replayed\<close>.\<close>

definition replay_record :: "TxnId set \<Rightarrow> LogRecord \<Rightarrow> (disks \<times> nat, unit) operation" where
  "replay_record committed r st =
     (case st of (ds, replayed) \<Rightarrow>
        if lr_type r \<noteq> kUpdate then (Inr (), st)
        else if lr_txn_id r \<notin> committed then (Inr (), st)
        else (case ds (lr_object_id r) of
                None \<Rightarrow> (Inl (Out_of_range ''unordered_map::at''), st)
              | Some d \<Rightarrow>
                  (case WritePage (lr_page_id r) (lr_page_image r) d of
                     (Inl e, d') \<Rightarrow> (Inl e, (ds(lr_object_id r \<mapsto> d'), replayed))
                   | (Inr _, d') \<Rightarrow> (Inr (), (ds(lr_object_id r \<mapsto> d'), replayed + 1)))))"

definition RunRecovery :: "LogRecord list \<Rightarrow> (disks, nat) operation" where
  "RunRecovery records ds =
     (case for_each records (replay_record (committed_txns records)) (ds, 0) of
        (Inl e, (ds', replayed)) \<Rightarrow> (Inl e, ds')
      | (Inr _, (ds', replayed)) \<Rightarrow> (Inr replayed, ds'))"

section \<open>The data files as one keyed store\<close>

definition disks_ok :: "disks \<Rightarrow> bool" where
  "disks_ok ds \<longleftrightarrow> (\<forall>oid d. ds oid = Some d \<longrightarrow> disk_ok d)"

definition disks_has :: "disks \<Rightarrow> PageKey \<Rightarrow> bool" where
  "disks_has ds k = (case ds (key_object k) of None \<Rightarrow> False | Some d \<Rightarrow> disk_has d (key_page k))"

definition disks_page :: "disks \<Rightarrow> PageKey \<Rightarrow> page" where
  "disks_page ds k = (case ds (key_object k) of None \<Rightarrow> [] | Some d \<Rightarrow> disk_page d (key_page k))"

definition put_disks :: "PageKey \<Rightarrow> page \<Rightarrow> disks \<Rightarrow> disks" where
  "put_disks k p ds =
     (case ds (key_object k) of None \<Rightarrow> ds | Some d \<Rightarrow> ds(key_object k \<mapsto> put_page (key_page k) p d))"

interpretation disks_store: kv_store disks_ok disks_has "\<lambda>p. length p = PAGE_SIZE" disks_page put_disks
proof
  fix ds k j and p :: page
  assume ok: "disks_ok ds" and has: "disks_has ds k" and len: "length p = 4096"
  then obtain d where d: "ds (key_object k) = Some d" "disk_has d (key_page k)" "disk_ok d"
    by (auto simp: disks_has_def disks_ok_def split: option.splits)
  note put = put_page_ok [OF d(3) d(2) len]
  show "disks_ok (put_disks k p ds)" using ok d put by (simp add: disks_ok_def put_disks_def)
  show "disks_has (put_disks k p ds) j = disks_has ds j" using d by (simp add: disks_has_def put_disks_def)
  assume j: "disks_has ds j"
  show "disks_page (put_disks k p ds) j = (if j = k then p else disks_page ds j)"
    using j d disk_page_put_page [OF d(3) d(2) _ len, of "key_page j"]
    by (auto simp: disks_page_def put_disks_def disks_has_def PageKey.expand)
qed

section \<open>What recovery computes\<close>

definition record_key :: "LogRecord \<Rightarrow> PageKey" where
  "record_key r = PageKey (lr_object_id r) (lr_page_id r)"

definition redo_writes :: "TxnId set \<Rightarrow> LogRecord list \<Rightarrow> (PageKey \<times> page) list" where
  "redo_writes C rs = map (\<lambda>r. (record_key r, lr_page_image r)) (filter (\<lambda>r. lr_type r = kUpdate \<and> lr_txn_id r \<in> C) rs)"

lemma redo_writes_simps [simp]:
  "redo_writes C [] = []"
  "redo_writes C (r # rs) =
     (if lr_type r = kUpdate \<and> lr_txn_id r \<in> C then [(record_key r, lr_page_image r)] else []) @ redo_writes C rs"
  "redo_writes C (rs @ ss) = redo_writes C rs @ redo_writes C ss"
  by (simp_all add: redo_writes_def)

lemma committed_txns_eq: "committed_txns rs = {lr_txn_id r | r. r \<in> set rs \<and> lr_type r = kCommit}"
proof -
  have "fold (\<lambda>r S. if lr_type r = kCommit then insert (lr_txn_id r) S else S) rs S =
      S \<union> {lr_txn_id r | r. r \<in> set rs \<and> lr_type r = kCommit}" for S
    by (induction rs arbitrary: S) auto
  then show ?thesis by (simp add: committed_txns_def)
qed

lemma mem_committed_txns: "t \<in> committed_txns rs \<longleftrightarrow> (\<exists>c \<in> set rs. lr_type c = kCommit \<and> lr_txn_id c = t)"
  by (auto simp: committed_txns_eq)

lemma mem_redo_writes:
  "r \<in> set rs \<Longrightarrow> lr_type r = kUpdate \<Longrightarrow> lr_txn_id r \<in> C \<Longrightarrow> (record_key r, lr_page_image r) \<in> set (redo_writes C rs)"
  by (auto simp: redo_writes_def)

abbreviation replay_all :: "(PageKey \<times> page) list \<Rightarrow> disks \<Rightarrow> disks" where
  "replay_all ws \<equiv> fold (\<lambda>(k, p). put_disks k p) ws"

definition writes_fit :: "disks \<Rightarrow> (PageKey \<times> page) list \<Rightarrow> bool" where
  "writes_fit ds ws \<longleftrightarrow> (\<forall>(k, p) \<in> set ws. disks_has ds k \<and> length p = PAGE_SIZE)"

lemma replay_record_hit:
  assumes "disks_ok ds" and "disks_has ds (record_key r)" and "length (lr_page_image r) = PAGE_SIZE"
    and "lr_type r = kUpdate" and "lr_txn_id r \<in> C"
  shows "replay_record C r (ds, n) = (Inr (), (put_disks (record_key r) (lr_page_image r) ds, n + 1))"
  using assms
  by (auto simp: replay_record_def record_key_def disks_has_def disks_ok_def put_disks_def WritePage_eq
      split: option.splits)

lemma replay_record_skip:
  "\<not> (lr_type r = kUpdate \<and> lr_txn_id r \<in> C) \<Longrightarrow> replay_record C r (ds, n) = (Inr (), (ds, n))"
  by (auto simp: replay_record_def)

lemma replay_records_eq:
  assumes "disks_ok ds" and "writes_fit ds (redo_writes C rs)"
  shows "for_each rs (replay_record C) (ds, n) =
    (Inr (), (replay_all (redo_writes C rs) ds, n + length (redo_writes C rs)))"
  using assms
proof (induction rs arbitrary: ds n)
  case Nil
  then show ?case by simp
next
  case (Cons r rs)
  show ?case
  proof (cases "lr_type r = kUpdate \<and> lr_txn_id r \<in> C")
    case True
    let ?ds = "put_disks (record_key r) (lr_page_image r) ds"
    from True Cons.prems have fit: "disks_has ds (record_key r)" "length (lr_page_image r) = 4096"
      by (auto simp: writes_fit_def)
    have "disks_ok ?ds" "writes_fit ?ds (redo_writes C rs)"
      using disks_store.store_ok [OF Cons.prems(1) fit] disks_store.store_has [OF Cons.prems(1) fit] Cons.prems(2) True
      by (auto simp: writes_fit_def)
    with Cons.IH [of ?ds "n + 1"] True replay_record_hit [OF Cons.prems(1) fit, of C n] show ?thesis
      by (simp add: bind_op_def)
  next
    case False
    with Cons show ?thesis by (auto simp: bind_op_def replay_record_skip)
  qed
qed

lemma RunRecovery_eq:
  assumes "disks_ok ds" and "writes_fit ds (redo_writes (committed_txns rs) rs)"
  shows "RunRecovery rs ds =
    (Inr (length (redo_writes (committed_txns rs) rs)), replay_all (redo_writes (committed_txns rs) rs) ds)"
  using replay_records_eq [OF assms] by (simp add: RunRecovery_def)

text \<open>The specification: the image of the last update of the page by a committed transaction.\<close>

definition last_committed_image :: "LogRecord list \<Rightarrow> PageKey \<Rightarrow> page option" where
  "last_committed_image rs k =
     (let us = filter (\<lambda>r. lr_type r = kUpdate \<and> record_key r = k \<and>
                         (\<exists>c \<in> set rs. lr_type c = kCommit \<and> lr_txn_id c = lr_txn_id r)) rs
      in if us = [] then None else Some (lr_page_image (last us)))"

lemma last_committed_image_redo:
  "last_committed_image rs k = map_of (rev (redo_writes (committed_txns rs) rs)) k"
proof -
  have "map_of (rev (redo_writes C ss)) k =
      (let us = filter (\<lambda>r. lr_type r = kUpdate \<and> record_key r = k \<and> lr_txn_id r \<in> C) ss
       in if us = [] then None else Some (lr_page_image (last us)))" for C ss
    by (induction ss rule: rev_induct) (auto simp: Let_def)
  then show ?thesis unfolding last_committed_image_def mem_committed_txns [symmetric] by simp
qed

definition updates_land :: "LogRecord list \<Rightarrow> disks \<Rightarrow> bool" where
  "updates_land rs ds \<longleftrightarrow>
     (\<forall>r \<in> set rs. lr_type r = kUpdate \<longrightarrow> (\<exists>c \<in> set rs. lr_type c = kCommit \<and> lr_txn_id c = lr_txn_id r) \<longrightarrow>
        disks_has ds (record_key r))"

lemma updates_land_fit:
  assumes "list_all record_ok rs" and "updates_land rs ds"
  shows "writes_fit ds (redo_writes (committed_txns rs) rs)"
  using assms unfolding updates_land_def mem_committed_txns [symmetric]
  by (auto simp: writes_fit_def redo_writes_def list_all_iff record_ok_def)

lemma RunRecovery_redo_lemma:
  assumes "disks_ok ds" and "list_all record_ok rs" and "updates_land rs ds"
  shows "\<exists>n ds'. RunRecovery rs ds = (Inr n, ds') \<and> disks_ok ds' \<and>
    (\<forall>k. disks_has ds' k = disks_has ds k) \<and>
    (\<forall>k. disks_has ds k \<longrightarrow> disks_page ds' k =
       (case last_committed_image rs k of None \<Rightarrow> disks_page ds k | Some img \<Rightarrow> img))"
proof -
  let ?ws = "redo_writes (committed_txns rs) rs"
  have fit: "writes_fit ds ?ws" using updates_land_fit assms(2,3) by blast
  then have fit': "\<forall>(k, p) \<in> set ?ws. disks_has ds k \<and> length p = 4096" by (simp add: writes_fit_def)
  show ?thesis
    using RunRecovery_eq [OF assms(1) fit] disks_store.stores_ok_has [OF assms(1) fit']
      disks_store.lookup_stores [OF assms(1) fit']
    by (auto simp: last_committed_image_redo)
qed

section \<open>Properties of recovery\<close>

text \<open>
  C16. Recovery redoes exactly the committed work: when every committed update names a page that exists,
  \<open>RunRecovery\<close> succeeds, every page ends up with the image of its last committed update, and every
  page no committed transaction updated keeps its bytes, updates of transactions without a commit
  record included.
\<close>

theorem RunRecovery_redo:
  assumes "disks_ok ds" and "list_all record_ok rs" and "updates_land rs ds"
  shows "\<exists>n ds'. RunRecovery rs ds = (Inr n, ds') \<and> disks_ok ds' \<and>
    (\<forall>k. disks_has ds' k = disks_has ds k) \<and>
    (\<forall>k. disks_has ds k \<longrightarrow> disks_page ds' k =
       (case last_committed_image rs k of None \<Rightarrow> disks_page ds k | Some img \<Rightarrow> img))"
  using assms by (rule RunRecovery_redo_lemma)

text \<open>
  C17. Recovery can be interrupted: if the process dies after replaying any prefix of the log and
  recovery runs again from the start on the files that were left, every page is as if the first
  run had completed. With the whole log as the prefix: recovery is idempotent.
\<close>

theorem RunRecovery_restartable:
  assumes "disks_ok ds" and "list_all record_ok rs" and "updates_land rs ds"
    and "for_each (take m rs) (replay_record (committed_txns rs)) (ds, 0) = (Inr (), (crashed, n))"
    and "disks_has ds k"
  shows "disks_page (snd (RunRecovery rs crashed)) k = disks_page (snd (RunRecovery rs ds)) k"
proof -
  let ?C = "committed_txns rs"
  let ?ws = "redo_writes ?C rs" and ?ws1 = "redo_writes ?C (take m rs)"
  have fit: "writes_fit ds ?ws" using updates_land_fit assms(2,3) by blast
  have split: "?ws = ?ws1 @ redo_writes ?C (drop m rs)"
    using redo_writes_simps(3) [of ?C "take m rs" "drop m rs"] by simp
  then have fit1: "writes_fit ds ?ws1" using fit by (auto simp: writes_fit_def)
  have cr: "crashed = replay_all ?ws1 ds" using replay_records_eq [OF assms(1) fit1, of 0] assms(4) by simp
  have ok: "disks_ok crashed" "\<And>j. disks_has crashed j = disks_has ds j"
    using disks_store.stores_ok_has [OF assms(1), of ?ws1] fit1 by (auto simp: cr writes_fit_def)
  then have fit2: "writes_fit crashed ?ws" using fit by (simp add: writes_fit_def)
  have l0: "disks_page (replay_all ?ws ds) k = (case map_of (rev ?ws) k of None \<Rightarrow> disks_page ds k | Some v \<Rightarrow> v)"
    using disks_store.lookup_stores [OF assms(1) _ assms(5), of ?ws] fit by (simp add: writes_fit_def)
  have l1: "disks_page (replay_all ?ws crashed) k = (case map_of (rev ?ws) k of None \<Rightarrow> disks_page crashed k | Some v \<Rightarrow> v)"
    using disks_store.lookup_stores [OF ok(1), of ?ws k] fit2 ok(2) assms(5) by (simp add: writes_fit_def)
  have "disks_page crashed k = disks_page ds k" if "map_of (rev ?ws) k = None"
    using disks_store.lookup_stores [OF assms(1) _ assms(5), of ?ws1] fit1 that
    by (simp add: cr writes_fit_def split split: option.splits)
  with l0 l1 show ?thesis
    using RunRecovery_eq [OF assms(1) fit] RunRecovery_eq [OF ok(1) fit2] by (simp split: option.split)
qed

text \<open>
  C18. A committed update whose page is not there stops recovery: when the log holds a committed update
  of an unknown object, or of a page beyond the end of its data file, \<open>RunRecovery\<close> throws
  \<open>std::out_of_range\<close>. Page allocation is not logged and not synced, so a lost file extension has
  this effect.
\<close>

theorem RunRecovery_lost_page:
  assumes "disks_ok ds" and "list_all record_ok rs" and "\<not> updates_land rs ds"
  shows "\<exists>msg ds'. RunRecovery rs ds = (Inl (Out_of_range msg), ds')"
proof -
  let ?C = "committed_txns rs"
  let ?bad = "\<lambda>r. lr_type r = kUpdate \<and> lr_txn_id r \<in> ?C \<and> \<not> disks_has ds (record_key r)"
  have "\<exists>r \<in> set rs. ?bad r"
    using assms(3) unfolding updates_land_def mem_committed_txns [symmetric] by blast
  then obtain as r bs where rs: "rs = as @ r # bs" "?bad r" "\<forall>x \<in> set as. \<not> ?bad x"
    using split_list_first_prop [of rs ?bad] by blast
  have fit: "writes_fit ds (redo_writes ?C as)"
    using rs(3) assms(2) rs(1) by (auto simp: writes_fit_def redo_writes_def list_all_iff record_ok_def)
  let ?ds = "replay_all (redo_writes ?C as) ds" and ?n = "length (redo_writes ?C as)"
  have ok: "disks_ok ?ds" "\<not> disks_has ?ds (record_key r)"
    using disks_store.stores_ok_has [OF assms(1), of "redo_writes ?C as"] fit rs(2) by (auto simp: writes_fit_def)
  have len: "length (lr_page_image r) = 4096" using assms(2) rs by (auto simp: list_all_iff record_ok_def)
  obtain msg st where "replay_record ?C r (?ds, ?n) = (Inl (Out_of_range msg), st)"
    using rs(2) ok len
    by (cases "?ds (lr_object_id r)")
      (auto simp: replay_record_def disks_has_def record_key_def disks_ok_def WritePage_eq)
  then have "for_each rs (replay_record ?C) (ds, 0) = (Inl (Out_of_range msg), st)"
    using replay_records_eq [OF assms(1) fit, of 0]
    unfolding rs(1) for_each_append by (simp add: bind_op_def)
  then show ?thesis unfolding RunRecovery_def by (cases st) simp
qed

section \<open>Witnesses\<close>

definition update_record :: LogRecord where
  "update_record = \<lparr>lr_lsn = 1, lr_type = kUpdate, lr_txn_id = 7, lr_object_id = 3, lr_page_id = 0,
     lr_page_image = InitHeapPage 0\<rparr>"

definition one_page_disks :: disks where
  "one_page_disks = [3 \<mapsto> \<lparr>disk_file = blank_page, next_page_id = 1, disk_capacity = 8192\<rparr>]"

lemma update_record_fields [simp]:
  "lr_type update_record = kUpdate" "lr_txn_id update_record = 7" "lr_page_image update_record = InitHeapPage 0"
  "record_key update_record = PageKey 3 0" "record_ok update_record"
  "lr_type commit_record = kCommit" "lr_txn_id commit_record = 7"
  by (simp_all add: update_record_def record_key_def record_ok_def length_InitHeapPage commit_record_def begin_record_def)

lemma one_page_disks_ok: "disks_ok one_page_disks" "disks_has one_page_disks (PageKey 3 0)"
  by (simp_all add: disks_ok_def one_page_disks_def disk_ok_def disks_has_def disk_has_def)

lemma example_lands: "updates_land [update_record, commit_record] one_page_disks"
  using one_page_disks_ok by (simp add: updates_land_def)

theorem RunRecovery_redo_witness:
  "\<exists>n ds'. RunRecovery [update_record, commit_record] one_page_disks = (Inr n, ds') \<and>
     disks_page ds' (PageKey 3 0) = InitHeapPage 0"
  using RunRecovery_redo [OF one_page_disks_ok(1) _ example_lands] one_page_disks_ok(2)
  by (auto simp: last_committed_image_def)

theorem RunRecovery_restartable_witness:
  "\<exists>crashed n. for_each (take 1 [update_record, commit_record])
       (replay_record (committed_txns [update_record, commit_record])) (one_page_disks, 0) = (Inr (), (crashed, n)) \<and>
     disks_page (snd (RunRecovery [update_record, commit_record] crashed)) (PageKey 3 0) =
     disks_page (snd (RunRecovery [update_record, commit_record] one_page_disks)) (PageKey 3 0)"
proof -
  have "for_each (take 1 [update_record, commit_record]) (replay_record (committed_txns [update_record, commit_record]))
      (one_page_disks, 0) = (Inr (), (put_disks (PageKey 3 0) (InitHeapPage 0) one_page_disks, 1))"
    using replay_record_hit [of one_page_disks update_record "{7}" 0] one_page_disks_ok
    by (simp add: bind_op_def committed_txns_def length_InitHeapPage)
  from this RunRecovery_restartable [OF one_page_disks_ok(1) _ example_lands this one_page_disks_ok(2)]
  show ?thesis by auto
qed

theorem RunRecovery_lost_page_witness:
  "\<exists>msg ds'. RunRecovery [update_record, commit_record] Map.empty = (Inl (Out_of_range msg), ds')"
  using RunRecovery_lost_page [of Map.empty "[update_record, commit_record]"]
  by (simp add: disks_ok_def updates_land_def disks_has_def)

end
