(* ===== verification/Transaction_Manager.thy ===== *)
theory Transaction_Manager
  imports Buffer_Pool Lock_Manager Recovery
begin

text \<open>
  Transactions: \<open>src/src/txn/transaction.h\<close>, \<open>transaction.cpp\<close>, \<open>transaction_manager.h\<close> and
  \<open>transaction_manager.cpp\<close>. The state \<open>engine\<close> is what the threads of one database share: the buffer
  pool of every registered object, the log, the lock table, the active transactions with the pages
  each has dirtied, and the thread-local current transactions; beside them the members of the
  \<open>HeapFile\<close> objects that live over the pools. An operation is one call made by a
  thread; \<open>Would_wait\<close> marks the point where it blocks in the lock manager or behind another
  thread's \<open>fsync\<close>.
\<close>

record engine =
  en_pools :: "ObjectId \<rightharpoonup> pool"
  en_wal :: wal
  en_locks :: lock_table
  en_active :: "TxnId \<rightharpoonup> PageKey set"
  en_next_txn :: TxnId
  en_current :: "thread_id \<rightharpoonup> TxnId"
  en_heaps :: "ObjectId \<rightharpoonup> PageId list"

definition TransactionManager_init :: "wal \<Rightarrow> engine" where
  "TransactionManager_init w =
     \<lparr>en_pools = Map.empty, en_wal = w, en_locks = LockManager_init, en_active = Map.empty,
      en_next_txn = 1, en_current = Map.empty, en_heaps = Map.empty\<rparr>"

section \<open>Calls into the parts\<close>

definition wal_op :: "(wal, 'a) operation \<Rightarrow> (engine, 'a) operation" where
  "wal_op f en = (case f (en_wal en) of (r, w) \<Rightarrow> (r, en\<lparr>en_wal := w\<rparr>))"

definition pool_op :: "ObjectId \<Rightarrow> (pool, 'a) operation \<Rightarrow> (engine, 'a) operation" where
  "pool_op oid f en =
     (case en_pools en oid of
        None \<Rightarrow> (Inl (Out_of_range ''unordered_map::at''), en)
      | Some bp \<Rightarrow> (case f bp of (r, bp') \<Rightarrow> (r, en\<lparr>en_pools := (en_pools en)(oid \<mapsto> bp')\<rparr>)))"

section \<open>Transaction objects\<close>

definition GetCurrentTransaction :: "thread_id \<Rightarrow> engine \<Rightarrow> TxnId option" where
  "GetCurrentTransaction tid en = en_current en tid"

definition SetCurrentTransactionForThisThread :: "thread_id \<Rightarrow> TxnId option \<Rightarrow> engine \<Rightarrow> engine" where
  "SetCurrentTransactionForThisThread tid t en = en\<lparr>en_current := (en_current en)(tid := t)\<rparr>"

definition NotifyDirty :: "notification \<Rightarrow> engine \<Rightarrow> engine" where
  "NotifyDirty n en =
     (case n of
        None \<Rightarrow> en
      | Some (txn, key) \<Rightarrow>
          en\<lparr>en_active := (\<lambda>t. if t = txn then map_option (insert key) (en_active en t) else en_active en t)\<rparr>)"

definition DirtiedPages :: "TxnId \<Rightarrow> engine \<Rightarrow> PageKey set" where
  "DirtiedPages txn en = (case en_active en txn of None \<Rightarrow> {} | Some D \<Rightarrow> D)"

definition Transaction_AcquireLock :: "TxnId \<Rightarrow> ObjectId \<Rightarrow> PageId \<Rightarrow> LockMode \<Rightarrow> (engine, unit) operation" where
  "Transaction_AcquireLock txn oid pid mode en =
     (case AcquireLock_round txn (PageKey oid pid) mode (en_locks en) of
        Granted lm \<Rightarrow> (Inr (), en\<lparr>en_locks := lm\<rparr>)
      | Waits \<Rightarrow> (Inl Would_wait, en)
      | Dies \<Rightarrow> (Inl (Transaction_aborted txn), en))"

text \<open>\<open>BufferPool::MarkDirty\<close> with the observer's call into the transaction.\<close>

definition MarkDirty_op :: "thread_id \<Rightarrow> ObjectId \<Rightarrow> PageId \<Rightarrow> (engine, unit) operation" where
  "MarkDirty_op tid oid pid =
     bind_op (pool_op oid (\<lambda>bp. case MarkDirty tid pid bp of (n, bp') \<Rightarrow> (Inr n, bp')))
       (\<lambda>n. modify_op (NotifyDirty n))"

definition NewPage_op :: "thread_id \<Rightarrow> ObjectId \<Rightarrow> (engine, PageId) operation" where
  "NewPage_op tid oid =
     bind_op (pool_op oid (NewPage tid)) (\<lambda>(pid, n). bind_op (modify_op (NotifyDirty n)) (\<lambda>_. return_op pid))"

definition NewHeapPage_op :: "thread_id \<Rightarrow> ObjectId \<Rightarrow> (engine, PageId) operation" where
  "NewHeapPage_op tid oid =
     bind_op (pool_op oid (NewHeapPage tid)) (\<lambda>(pid, n). bind_op (modify_op (NotifyDirty n)) (\<lambda>_. return_op pid))"

definition FetchPage_op :: "ObjectId \<Rightarrow> PageId \<Rightarrow> (engine, page) operation" where
  "FetchPage_op oid pid = pool_op oid (FetchPage pid)"

definition write_page_op :: "ObjectId \<Rightarrow> PageId \<Rightarrow> page \<Rightarrow> (engine, unit) operation" where
  "write_page_op oid pid p = pool_op oid (\<lambda>bp. (Inr (), write_page pid p bp))"

section \<open>The transaction manager\<close>

definition RegisterObject :: "ObjectId \<Rightarrow> pool \<Rightarrow> engine \<Rightarrow> engine" where
  "RegisterObject oid bp en = en\<lparr>en_pools := (en_pools en)(oid \<mapsto> bp)\<rparr>"

text \<open>The objects in increasing order; each occurs once.\<close>

definition GroupDirtiedPagesByObject :: "PageKey set \<Rightarrow> (ObjectId \<times> PageId set) list" where
  "GroupDirtiedPagesByObject D =
     map (\<lambda>oid. (oid, key_page ` {k \<in> D. key_object k = oid})) (sorted_list_of_set (key_object ` D))"

definition set_observers :: "thread_id \<Rightarrow> TxnId \<Rightarrow> engine \<Rightarrow> engine" where
  "set_observers tid txn en =
     en\<lparr>en_pools := (\<lambda>oid. map_option (SetActiveTransactionObserver tid (txn, oid)) (en_pools en oid))\<rparr>"

definition clear_observers :: "thread_id \<Rightarrow> engine \<Rightarrow> engine" where
  "clear_observers tid en =
     en\<lparr>en_pools := (\<lambda>oid. map_option (ClearActiveTransactionObserver tid) (en_pools en oid))\<rparr>"

definition Begin :: "thread_id \<Rightarrow> (engine, TxnId) operation" where
  "Begin tid en =
     (if GetCurrentTransaction tid en \<noteq> None then (Inl (Logic_error ''TransactionManager::Begin''), en)
      else (let txn = en_next_txn en;
                en1 = en\<lparr>en_next_txn := txn + 1\<rparr>
            in bind_op (wal_op (AppendBegin txn))
                 (\<lambda>_. bind_op (modify_op (\<lambda>e. e\<lparr>en_active := (en_active e)(txn \<mapsto> {})\<rparr>))
                 (\<lambda>_. bind_op (modify_op (SetCurrentTransactionForThisThread tid (Some txn)))
                 (\<lambda>_. bind_op (modify_op (set_observers tid txn))
                 (\<lambda>_. return_op txn)))) en1))"

definition log_update :: "TxnId \<Rightarrow> ObjectId \<Rightarrow> PageId \<Rightarrow> (engine, unit) operation" where
  "log_update txn oid pid =
     bind_op (FetchPage_op oid pid)
       (\<lambda>p. discard_op (wal_op (AppendUpdate txn oid pid p)))"

text \<open>\<open>lock_manager_.ReleaseAll\<close>, the thread-local slot, and \<open>active_txns_.erase\<close>.\<close>

definition end_transaction :: "thread_id \<Rightarrow> TxnId \<Rightarrow> engine \<Rightarrow> engine" where
  "end_transaction tid txn en =
     (SetCurrentTransactionForThisThread tid None (en\<lparr>en_locks := snd (ReleaseAll txn (en_locks en))\<rparr>))
       \<lparr>en_active := (en_active en)(txn := None)\<rparr>"

definition Commit :: "thread_id \<Rightarrow> TxnId \<Rightarrow> (engine, unit) operation" where
  "Commit tid txn en =
     (if GetCurrentTransaction tid en \<noteq> Some txn then (Inl (Logic_error ''TransactionManager::Commit''), en)
      else (let by_object = GroupDirtiedPagesByObject (DirtiedPages txn en)
            in bind_op (modify_op (clear_observers tid))
                 (\<lambda>_. bind_op
                   (for_each by_object (\<lambda>(oid, pids). for_each (sorted_list_of_set pids) (log_update txn oid)))
                 (\<lambda>_. bind_op (wal_op (AppendCommit txn))
                 (\<lambda>commit_lsn. bind_op (wal_op (FlushThrough commit_lsn))
                 (\<lambda>_. bind_op (for_each by_object (\<lambda>(oid, pids). pool_op oid (FlushPages pids)))
                 (\<lambda>_. modify_op (end_transaction tid txn)))))) en))"

definition Abort :: "thread_id \<Rightarrow> TxnId \<Rightarrow> (engine, unit) operation" where
  "Abort tid txn en =
     (if GetCurrentTransaction tid en \<noteq> Some txn then (Inl (Logic_error ''TransactionManager::Abort''), en)
      else (let by_object = GroupDirtiedPagesByObject (DirtiedPages txn en)
            in bind_op (modify_op (clear_observers tid))
                 (\<lambda>_. bind_op
                   (for_each by_object (\<lambda>(oid, pids). for_each (sorted_list_of_set pids) (\<lambda>pid. pool_op oid (DiscardPage pid))))
                 (\<lambda>_. bind_op (wal_op (AppendAbort txn))
                 (\<lambda>_. modify_op (end_transaction tid txn)))) en))"

definition HasActiveTransaction :: "engine \<Rightarrow> bool" where
  "HasActiveTransaction en \<longleftrightarrow> dom (en_active en) \<noteq> {}"

definition NumActiveTransactions :: "engine \<Rightarrow> nat" where
  "NumActiveTransactions en = card (dom (en_active en))"

section \<open>Views of the shared state\<close>

definition en_has :: "engine \<Rightarrow> PageKey \<Rightarrow> bool" where
  "en_has en k = (case en_pools en (key_object k) of None \<Rightarrow> False | Some bp \<Rightarrow> pool_has bp (key_page k))"

definition en_page :: "engine \<Rightarrow> PageKey \<Rightarrow> page" where
  "en_page en k = (case en_pools en (key_object k) of None \<Rightarrow> [] | Some bp \<Rightarrow> pool_page bp (key_page k))"

definition en_dirty :: "engine \<Rightarrow> PageKey \<Rightarrow> bool" where
  "en_dirty en k = (case en_pools en (key_object k) of None \<Rightarrow> False | Some bp \<Rightarrow> key_page k \<in> bp_dirty bp)"

definition en_disks :: "engine \<Rightarrow> disks" where
  "en_disks en oid = map_option bp_disk (en_pools en oid)"

text \<open>The pools are coherent, and what a transaction has dirtied is dirty in its pool.\<close>

definition pools_ok :: "engine \<Rightarrow> bool" where
  "pools_ok en \<longleftrightarrow> (\<forall>oid bp. en_pools en oid = Some bp \<longrightarrow> pool_ok bp)"

definition engine_ok :: "engine \<Rightarrow> bool" where
  "engine_ok en \<longleftrightarrow>
     pools_ok en \<and> lock_inv (en_locks en) \<and>
     (\<forall>t D. en_active en t = Some D \<longrightarrow> (\<forall>k \<in> D. en_dirty en k)) \<and>
     (\<forall>tid t. en_current en tid = Some t \<longrightarrow> en_active en t \<noteq> None)"

definition pages_of :: "PageKey set \<Rightarrow> ObjectId \<Rightarrow> PageId set" where
  "pages_of D oid = key_page ` {k \<in> D. key_object k = oid}"

definition txn_keys :: "PageKey set \<Rightarrow> PageKey list" where
  "txn_keys D = concat (map (\<lambda>(oid, pids). map (PageKey oid) (sorted_list_of_set pids)) (GroupDirtiedPagesByObject D))"

lemma mem_pages_of [simp]: "pid \<in> pages_of D oid \<longleftrightarrow> PageKey oid pid \<in> D"
  by (auto simp: pages_of_def image_iff intro: bexI [of _ "PageKey oid pid"])

lemma set_txn_keys [simp]: "set (txn_keys D) = D"
proof -
  have "set (txn_keys D) = {PageKey oid pid | oid pid. oid \<in> key_object ` D \<and> PageKey oid pid \<in> D}"
    by (auto simp: txn_keys_def GroupDirtiedPagesByObject_def simp flip: pages_of_def)
  also have "\<dots> = D" by (auto simp: image_iff) (metis PageKey.exhaust_sel)+
  finally show ?thesis .
qed

lemma group_map_of:
  "map_of (GroupDirtiedPagesByObject D) oid = (if oid \<in> key_object ` D then Some (pages_of D oid) else None)"
  by (simp add: GroupDirtiedPagesByObject_def map_of_map_keys pages_of_def map_of_eq_None_iff)
    (auto simp: map_of_eq_Some_iff comp_def image_iff)

lemma group_distinct: "distinct (map fst (GroupDirtiedPagesByObject D))"
  by (simp add: GroupDirtiedPagesByObject_def comp_def)

lemma for_each_group:
  "for_each (GroupDirtiedPagesByObject D) (\<lambda>(oid, pids). for_each (sorted_list_of_set pids) (f oid)) =
   for_each (txn_keys D) (\<lambda>k. f (key_object k) (key_page k))"
proof -
  have "(\<lambda>(oid, pids). for_each (sorted_list_of_set pids) (f oid)) =
      (\<lambda>x. for_each ((\<lambda>(oid, pids). map (PageKey oid) (sorted_list_of_set pids)) x) (\<lambda>k. f (key_object k) (key_page k)))"
    by (auto simp: fun_eq_iff for_each_map)
  then show ?thesis unfolding txn_keys_def by (simp only: for_each_concat)
qed

lemma en_disks_has: "disks_has (en_disks en) k = en_has en k"
  by (simp add: disks_has_def en_disks_def en_has_def pool_has_def split: option.split)

lemma disks_page_en: "disks_page (en_disks en) k =
    (case en_pools en (key_object k) of None \<Rightarrow> [] | Some bp \<Rightarrow> disk_page (bp_disk bp) (key_page k))"
  by (simp add: disks_page_def en_disks_def split: option.split)

lemma pools_ok_disks: "pools_ok en \<Longrightarrow> disks_ok (en_disks en)"
  by (auto simp: pools_ok_def disks_ok_def en_disks_def pool_ok_def pool_wf_def)

lemma dirty_cached:
  assumes "pools_ok en" and "en_dirty en k"
  obtains bp p where "en_pools en (key_object k) = Some bp" "bp_pages bp (key_page k) = Some p"
    "en_page en k = p" "en_has en k" "length p = PAGE_SIZE"
proof -
  from assms(2) obtain bp where bp: "en_pools en (key_object k) = Some bp" "key_page k \<in> bp_dirty bp"
    by (auto simp: en_dirty_def split: option.splits)
  with assms(1) have wf: "pool_wf bp" by (auto simp: pools_ok_def pool_ok_def)
  with bp obtain p where p: "bp_pages bp (key_page k) = Some p" by (auto simp: pool_wf_def)
  with wf have "pool_has bp (key_page k)" "length p = 4096" by (auto simp: pool_wf_def)
  with bp p show ?thesis by (intro that [of bp p]) (simp_all add: en_page_def en_has_def pool_page_def)
qed

lemma dirty_page:
  assumes "pools_ok en" and "en_dirty en k"
  shows "length (en_page en k) = PAGE_SIZE" and "en_has en k"
  using dirty_cached [OF assms] by metis+

lemma wal_op_view [simp]:
  "en_pools (en\<lparr>en_wal := w\<rparr>) = en_pools en" "en_page (en\<lparr>en_wal := w\<rparr>) = en_page en"
  "en_dirty (en\<lparr>en_wal := w\<rparr>) = en_dirty en" "en_has (en\<lparr>en_wal := w\<rparr>) = en_has en"
  "pools_ok (en\<lparr>en_wal := w\<rparr>) = pools_ok en" "en_disks (en\<lparr>en_wal := w\<rparr>) = en_disks en"
  by (simp_all add: en_page_def en_dirty_def en_has_def pools_ok_def en_disks_def fun_eq_iff)

section \<open>Logging the updates of a transaction\<close>

fun update_records :: "Lsn \<Rightarrow> TxnId \<Rightarrow> (PageKey \<times> page) list \<Rightarrow> LogRecord list" where
  "update_records lsn txn [] = []"
| "update_records lsn txn ((k, p) # ws) =
     \<lparr>lr_lsn = lsn, lr_type = kUpdate, lr_txn_id = txn, lr_object_id = key_object k, lr_page_id = key_page k,
      lr_page_image = p\<rparr> # update_records (lsn + 1) txn ws"

definition commit_log :: "Lsn \<Rightarrow> TxnId \<Rightarrow> (PageKey \<times> page) list \<Rightarrow> LogRecord list" where
  "commit_log lsn txn ws =
     update_records lsn txn ws @
     [\<lparr>lr_lsn = lsn + of_nat (length ws), lr_type = kCommit, lr_txn_id = txn,
       lr_object_id = INVALID_OBJECT_ID, lr_page_id = INVALID_PAGE_ID, lr_page_image = blank_page\<rparr>]"

definition txn_writes :: "PageKey set \<Rightarrow> engine \<Rightarrow> (PageKey \<times> page) list" where
  "txn_writes D en = map (\<lambda>k. (k, en_page en k)) (txn_keys D)"

lemma log_bytes_append [simp]: "log_bytes (rs @ ss) = log_bytes rs @ log_bytes ss"
  by (simp add: log_bytes_def)

lemma log_update_eq:
  assumes "pools_ok en" and "en_dirty en k"
  shows "log_update txn (key_object k) (key_page k) en =
    wal_op (discard_op (AppendUpdate txn (key_object k) (key_page k) (en_page en k))) en"
  using assms
proof (rule dirty_cached)
  fix bp p
  assume *: "en_pools en (key_object k) = Some bp" "bp_pages bp (key_page k) = Some p" "en_page en k = p"
  then have "en\<lparr>en_pools := (en_pools en)(key_object k \<mapsto> bp)\<rparr> = en" by (simp add: map_upd_triv)
  with * have "FetchPage_op (key_object k) (key_page k) en = (Inr p, en)"
    by (simp add: FetchPage_op_def pool_op_def FetchPage_def)
  with *(3) show ?thesis
    by (simp add: log_update_def bind_op_def discard_op_def wal_op_def split: prod.splits sum.splits)
qed

lemma log_updates_eq:
  assumes "pools_ok en" and "\<forall>k \<in> set ks. en_dirty en k"
  shows "for_each ks (\<lambda>k. log_update txn (key_object k) (key_page k)) en =
    wal_op (for_each (map (\<lambda>k. (k, en_page en k)) ks)
      (\<lambda>(k, p). discard_op (AppendUpdate txn (key_object k) (key_page k) p))) en"
  using assms
proof (induction ks arbitrary: en)
  case Nil
  then show ?case by (simp add: wal_op_def)
next
  case (Cons k ks)
  have step: "wal_op (bind_op f (\<lambda>_. g)) e = bind_op (wal_op f) (\<lambda>_. wal_op g) e" for f g and e :: engine
    by (simp add: wal_op_def bind_op_def split: prod.splits sum.splits)
  let ?f = "discard_op (AppendUpdate txn (key_object k) (key_page k) (en_page en k))"
  obtain r w where w: "?f (en_wal en) = (r, w)" by (cases "?f (en_wal en)")
  have "for_each ks (\<lambda>k. log_update txn (key_object k) (key_page k)) (en\<lparr>en_wal := w\<rparr>) =
      wal_op (for_each (map (\<lambda>k. (k, en_page en k)) ks)
      (\<lambda>(k, p). discard_op (AppendUpdate txn (key_object k) (key_page k) p))) (en\<lparr>en_wal := w\<rparr>)"
    using Cons.IH [of "en\<lparr>en_wal := w\<rparr>"] Cons.prems by simp
  with w log_update_eq [OF Cons.prems(1), of k txn] Cons.prems(2) show ?case
    by (simp add: step bind_op_def [of "wal_op ?f"] bind_op_def [of "log_update txn (key_object k) (key_page k)"])
      (simp add: wal_op_def split: sum.split)
qed

lemma append_updates_eq:
  assumes "\<forall>(k, p) \<in> set ws. length p = PAGE_SIZE"
    and "length (wal_file w) + 4129 * length ws \<le> wal_capacity w"
  shows "for_each ws (\<lambda>(k, p). discard_op (AppendUpdate txn (key_object k) (key_page k) p)) w =
    (Inr (), w\<lparr>next_lsn := next_lsn w + of_nat (length ws),
               wal_file := wal_file w @ log_bytes (update_records (next_lsn w) txn ws)\<rparr>)"
  using assms
proof (induction ws arbitrary: w)
  case Nil
  then show ?case by simp
next
  case (Cons x ws)
  obtain k p where x: "x = (k, p)" by (cases x)
  let ?r = "new_record w kUpdate txn (key_object k) (key_page k) p"
  let ?w = "w\<lparr>next_lsn := next_lsn w + 1, wal_file := wal_file w @ record_bytes ?r\<rparr>"
  have pay: "payload_ok kUpdate p" and len: "length (record_bytes ?r) = 4129"
    using Cons.prems(1) x by (auto simp: payload_ok_def length_record_bytes payload_of_def new_record_def)
  then have "discard_op (AppendUpdate txn (key_object k) (key_page k) p) w = (Inr (), ?w)"
    using Cons.prems(2) by (simp add: discard_op_def AppendUpdate_def AppendRecord_eq Let_def)
  moreover have "for_each ws (\<lambda>(k, p). discard_op (AppendUpdate txn (key_object k) (key_page k) p)) ?w =
    (Inr (), ?w\<lparr>next_lsn := next_lsn ?w + of_nat (length ws),
               wal_file := wal_file ?w @ log_bytes (update_records (next_lsn ?w) txn ws)\<rparr>)"
    using Cons.prems len by (intro Cons.IH) auto
  moreover have "?r = \<lparr>lr_lsn = next_lsn w, lr_type = kUpdate, lr_txn_id = txn, lr_object_id = key_object k,
      lr_page_id = key_page k, lr_page_image = p\<rparr>" by (simp add: new_record_def)
  ultimately show ?case by (simp add: x bind_op_def log_bytes_def add.assoc)
qed

section \<open>Flushing and discarding the pages of a transaction\<close>

definition flush_set :: "PageId set \<Rightarrow> pool \<Rightarrow> pool" where
  "flush_set S bp = fold flushed (sorted_list_of_set S) bp"

definition flush_txn :: "PageKey set \<Rightarrow> engine \<Rightarrow> engine" where
  "flush_txn D en = en\<lparr>en_pools := (\<lambda>oid. map_option (flush_set (pages_of D oid)) (en_pools en oid))\<rparr>"

lemma flush_set_ok: "pool_ok bp \<Longrightarrow> pool_ok (flush_set S bp)"
  using fold_flushed [of bp "sorted_list_of_set S"] pool_ok_wf by (auto simp: flush_set_def)

lemma flush_set_fields:
  assumes "pool_ok bp"
  shows "pool_has (flush_set S bp) q = pool_has bp q" "bp_dirty (flush_set S bp) = bp_dirty bp - S"
    "bp_observers (flush_set S bp) = bp_observers bp" "bp_pages (flush_set S bp) = bp_pages bp"
    "pool_has bp q \<Longrightarrow> pool_page (flush_set S bp) q = pool_page bp q"
    "pool_has bp q \<Longrightarrow> disk_page (bp_disk (flush_set S bp)) q =
       (if q \<in> S \<and> q \<in> bp_dirty bp then pool_page bp q else disk_page (bp_disk bp) q)"
  using fold_flushed [OF pool_ok_wf [OF assms], of "sorted_list_of_set S"] by (auto simp: flush_set_def)

lemma flush_objects_eq:
  assumes "pools_ok en" and "distinct (map fst bo)" and "\<forall>oid \<in> fst ` set bo. en_pools en oid \<noteq> None"
  shows "for_each bo (\<lambda>(oid, pids). pool_op oid (FlushPages pids)) en =
    (Inr (), en\<lparr>en_pools := (\<lambda>oid. case map_of bo oid of None \<Rightarrow> en_pools en oid
                                    | Some S \<Rightarrow> map_option (flush_set S) (en_pools en oid))\<rparr>)"
  using assms
proof (induction bo arbitrary: en)
  case Nil
  then show ?case by simp
next
  case (Cons x bo)
  obtain oid S where x: "x = (oid, S)" by (cases x)
  from Cons.prems(3) x obtain bp where bp: "en_pools en oid = Some bp" by auto
  with Cons.prems(1) have ok: "pool_ok bp" by (simp add: pools_ok_def)
  let ?en = "en\<lparr>en_pools := (en_pools en)(oid \<mapsto> flush_set S bp)\<rparr>"
  have step: "pool_op oid (FlushPages S) en = (Inr (), ?en)"
    using bp ok by (simp add: pool_op_def FlushPages_eq pool_ok_wf flush_set_def)
  have "pools_ok ?en" using Cons.prems(1) flush_set_ok [OF ok] by (simp add: pools_ok_def)
  moreover have "\<forall>o' \<in> fst ` set bo. en_pools ?en o' \<noteq> None" using Cons.prems(3) by auto
  ultimately have "for_each bo (\<lambda>(oid, pids). pool_op oid (FlushPages pids)) ?en =
    (Inr (), ?en\<lparr>en_pools := (\<lambda>o'. case map_of bo o' of None \<Rightarrow> en_pools ?en o'
                                    | Some S \<Rightarrow> map_option (flush_set S) (en_pools ?en o'))\<rparr>)"
    using Cons.prems(2) by (intro Cons.IH) auto
  moreover have "map_of bo oid = None" using Cons.prems(2) x by (simp add: map_of_eq_None_iff)
  ultimately show ?case
    using step x bp by (auto simp: bind_op_def fun_eq_iff split: option.split intro!: arg_cong [where f = "\<lambda>m. en\<lparr>en_pools := m\<rparr>"])
qed

lemma flush_txn_eq:
  assumes "pools_ok en" and "\<forall>k \<in> D. en_dirty en k"
  shows "for_each (GroupDirtiedPagesByObject D) (\<lambda>(oid, pids). pool_op oid (FlushPages pids)) en = (Inr (), flush_txn D en)"
proof -
  have "\<forall>oid \<in> fst ` set (GroupDirtiedPagesByObject D). en_pools en oid \<noteq> None"
    using assms(2) by (auto simp: GroupDirtiedPagesByObject_def en_dirty_def split: option.splits)
  note eq = flush_objects_eq [OF assms(1) group_distinct this]
  have "(case map_of (GroupDirtiedPagesByObject D) oid of None \<Rightarrow> en_pools en oid
       | Some S \<Rightarrow> map_option (flush_set S) (en_pools en oid)) = map_option (flush_set (pages_of D oid)) (en_pools en oid)" for oid
  proof (cases "oid \<in> key_object ` D")
    case False
    then have "pages_of D oid = {}" by (auto simp: pages_of_def)
    then show ?thesis using False by (cases "en_pools en oid") (simp_all add: group_map_of flush_set_def)
  qed (simp add: group_map_of)
  then show ?thesis unfolding eq flush_txn_def by presburger
qed

lemma flush_txn_views:
  assumes "pools_ok en"
  shows "pools_ok (flush_txn D en)" and "en_has (flush_txn D en) k = en_has en k"
    and "en_dirty (flush_txn D en) k \<longleftrightarrow> en_dirty en k \<and> k \<notin> D"
    and "en_has en k \<Longrightarrow> en_page (flush_txn D en) k = en_page en k"
    and "en_has en k \<Longrightarrow> disks_page (en_disks (flush_txn D en)) k =
      (if k \<in> D \<and> en_dirty en k then en_page en k else disks_page (en_disks en) k)"
proof -
  have ok: "pool_ok bp" if "en_pools en oid = Some bp" for oid bp using assms that by (simp add: pools_ok_def)
  show "pools_ok (flush_txn D en)" using ok flush_set_ok by (auto simp: pools_ok_def flush_txn_def)
  show "en_has (flush_txn D en) k = en_has en k"
    using ok [of "key_object k"] flush_set_fields(1) by (auto simp: en_has_def flush_txn_def split: option.splits)
  show "en_dirty (flush_txn D en) k \<longleftrightarrow> en_dirty en k \<and> k \<notin> D"
    using ok [of "key_object k"] flush_set_fields(2) by (cases k) (auto simp: en_dirty_def flush_txn_def split: option.splits)
  show "en_page (flush_txn D en) k = en_page en k" if "en_has en k"
    using that ok [of "key_object k"] flush_set_fields(5) by (auto simp: en_page_def en_has_def flush_txn_def split: option.splits)
  show "disks_page (en_disks (flush_txn D en)) k =
      (if k \<in> D \<and> en_dirty en k then en_page en k else disks_page (en_disks en) k)" if "en_has en k"
    using that ok [of "key_object k"] flush_set_fields(6)
    by (cases k) (auto simp: en_page_def en_has_def en_dirty_def disks_page_en flush_txn_def split: option.splits)
qed

lemma flush_txn_rest [simp]:
  "en_wal (flush_txn D en) = en_wal en" "en_locks (flush_txn D en) = en_locks en"
  "en_active (flush_txn D en) = en_active en" "en_current (flush_txn D en) = en_current en"
  "en_next_txn (flush_txn D en) = en_next_txn en" "en_heaps (flush_txn D en) = en_heaps en"
  by (simp_all add: flush_txn_def)

lemma discard_txn_eq:
  assumes "pools_ok en" and "\<forall>k \<in> set ks. en_pools en (key_object k) \<noteq> None"
  shows "\<exists>m. for_each ks (\<lambda>k. pool_op (key_object k) (DiscardPage (key_page k))) en = (Inr (), en\<lparr>en_pools := m\<rparr>) \<and>
    pools_ok (en\<lparr>en_pools := m\<rparr>) \<and> en_disks (en\<lparr>en_pools := m\<rparr>) = en_disks en \<and>
    (\<forall>k. en_page (en\<lparr>en_pools := m\<rparr>) k = (if k \<in> set ks then disks_page (en_disks en) k else en_page en k)) \<and>
    (\<forall>k. en_dirty (en\<lparr>en_pools := m\<rparr>) k \<longleftrightarrow> en_dirty en k \<and> k \<notin> set ks) \<and>
    (\<forall>oid. map_option bp_observers (m oid) = map_option bp_observers (en_pools en oid))"
  using assms
proof (induction ks arbitrary: en)
  case Nil
  then show ?case by (intro exI [of _ "en_pools en"]) simp
next
  case (Cons k ks)
  from Cons.prems(2) obtain bp where bp: "en_pools en (key_object k) = Some bp" by auto
  with Cons.prems(1) have ok: "pool_ok bp" by (simp add: pools_ok_def)
  obtain r bp' where run: "DiscardPage (key_page k) bp = (r, bp')" by (cases "DiscardPage (key_page k) bp")
  note d = DiscardPage_ok [OF ok run]
  let ?en = "en\<lparr>en_pools := (en_pools en)(key_object k \<mapsto> bp')\<rparr>"
  have step: "pool_op (key_object k) (DiscardPage (key_page k)) en = (Inr (), ?en)"
    using bp run d(1) by (simp add: pool_op_def)
  have ok': "pools_ok ?en" using Cons.prems(1) d(2) by (simp add: pools_ok_def)
  have disks: "en_disks ?en = en_disks en" using bp d(3) by (auto simp: en_disks_def fun_eq_iff)
  have page: "en_page ?en j = (if j = k then disks_page (en_disks en) j else en_page en j)" for j
    using bp d(6) [of "key_page j"] by (cases j; cases k) (auto simp: en_page_def disks_page_en split: option.splits)
  have dirty: "en_dirty ?en j \<longleftrightarrow> en_dirty en j \<and> j \<noteq> k" for j
    using bp d(4) by (cases j; cases k) (auto simp: en_dirty_def split: option.splits)
  have obs: "map_option bp_observers (en_pools ?en oid) = map_option bp_observers (en_pools en oid)" for oid
    using bp d(5) by simp
  have dom': "\<forall>j \<in> set ks. en_pools ?en (key_object j) \<noteq> None" using Cons.prems(2) by auto
  have upd: "?en\<lparr>en_pools := m\<rparr> = en\<lparr>en_pools := m\<rparr>" for m by simp
  from Cons.IH [OF ok' dom', unfolded upd disks] obtain m where
    "for_each ks (\<lambda>k. pool_op (key_object k) (DiscardPage (key_page k))) ?en = (Inr (), en\<lparr>en_pools := m\<rparr>) \<and>
    pools_ok (en\<lparr>en_pools := m\<rparr>) \<and> en_disks (en\<lparr>en_pools := m\<rparr>) = en_disks en \<and>
    (\<forall>j. en_page (en\<lparr>en_pools := m\<rparr>) j = (if j \<in> set ks then disks_page (en_disks en) j else en_page ?en j)) \<and>
    (\<forall>j. en_dirty (en\<lparr>en_pools := m\<rparr>) j \<longleftrightarrow> en_dirty ?en j \<and> j \<notin> set ks) \<and>
    (\<forall>oid. map_option bp_observers (m oid) = map_option bp_observers (en_pools ?en oid))"
    by blast
  note m = this
  have "for_each (k # ks) (\<lambda>k. pool_op (key_object k) (DiscardPage (key_page k))) en = (Inr (), en\<lparr>en_pools := m\<rparr>)"
    using m step by (simp add: bind_op_def)
  moreover have "en_page (en\<lparr>en_pools := m\<rparr>) j =
      (if j \<in> set (k # ks) then disks_page (en_disks en) j else en_page en j)" for j
    using m page [of j] by (cases "j = k") simp_all
  moreover have "en_dirty (en\<lparr>en_pools := m\<rparr>) j \<longleftrightarrow> en_dirty en j \<and> j \<notin> set (k # ks)" for j
    using m dirty [of j] by auto
  moreover have "map_option bp_observers (m oid) = map_option bp_observers (en_pools en oid)" for oid
    using m obs [of oid] by simp
  ultimately show ?case using m by blast
qed

lemma clear_observer_pool [simp]:
  "pool_ok (ClearActiveTransactionObserver tid bp) = pool_ok bp" "pool_page (ClearActiveTransactionObserver tid bp) = pool_page bp"
  "pool_has (ClearActiveTransactionObserver tid bp) = pool_has bp" "bp_disk (ClearActiveTransactionObserver tid bp) = bp_disk bp"
  "bp_dirty (ClearActiveTransactionObserver tid bp) = bp_dirty bp"
  by (simp_all add: ClearActiveTransactionObserver_def pool_ok_def pool_wf_def fun_eq_iff)

lemma clear_observers_views [simp]:
  "en_page (clear_observers tid en) = en_page en" "en_dirty (clear_observers tid en) = en_dirty en"
  "en_has (clear_observers tid en) = en_has en" "en_disks (clear_observers tid en) = en_disks en"
  "pools_ok (clear_observers tid en) = pools_ok en"
  by (auto simp: en_page_def en_dirty_def en_has_def en_disks_def pools_ok_def clear_observers_def fun_eq_iff
      option.map_comp comp_def split: option.split) (metis clear_observer_pool(1))

lemma clear_observers_rest [simp]:
  "en_wal (clear_observers tid en) = en_wal en" "en_locks (clear_observers tid en) = en_locks en"
  "en_active (clear_observers tid en) = en_active en" "en_current (clear_observers tid en) = en_current en"
  "en_next_txn (clear_observers tid en) = en_next_txn en" "en_heaps (clear_observers tid en) = en_heaps en"
  by (simp_all add: clear_observers_def)

lemma end_transaction_views [simp]:
  "en_page (end_transaction tid txn en) = en_page en" "en_dirty (end_transaction tid txn en) = en_dirty en"
  "en_has (end_transaction tid txn en) = en_has en" "en_disks (end_transaction tid txn en) = en_disks en"
  "pools_ok (end_transaction tid txn en) = pools_ok en" "en_wal (end_transaction tid txn en) = en_wal en"
  "en_pools (end_transaction tid txn en) = en_pools en"
  "en_active (end_transaction tid txn en) = (en_active en)(txn := None)"
  "en_current (end_transaction tid txn en) = (en_current en)(tid := None)"
  "en_locks (end_transaction tid txn en) = snd (ReleaseAll txn (en_locks en))"
  "en_next_txn (end_transaction tid txn en) = en_next_txn en"
  by (simp_all add: en_page_def en_dirty_def en_has_def en_disks_def pools_ok_def end_transaction_def
      SetCurrentTransactionForThisThread_def fun_eq_iff)

section \<open>The log side of a commit\<close>

lemma distinct_txn_keys: "distinct (txn_keys D)"
  unfolding txn_keys_def
proof (rule distinct_concat)
  let ?f = "\<lambda>(oid, pids). map (PageKey oid) (sorted_list_of_set pids)"
  show "distinct (map ?f (GroupDirtiedPagesByObject D))"
    unfolding GroupDirtiedPagesByObject_def map_map
  proof (subst distinct_map, intro conjI inj_onI)
    fix x y
    assume xy: "x \<in> set (sorted_list_of_set (key_object ` D))" "y \<in> set (sorted_list_of_set (key_object ` D))"
      and eq: "(?f \<circ> (\<lambda>oid. (oid, key_page ` {k \<in> D. key_object k = oid}))) x =
               (?f \<circ> (\<lambda>oid. (oid, key_page ` {k \<in> D. key_object k = oid}))) y"
    then have "PageKey x ` key_page ` {k \<in> D. key_object k = x} = PageKey y ` key_page ` {k \<in> D. key_object k = y}"
      by (metis (no_types, lifting) case_prod_conv comp_apply finite list.set_map set_sorted_list_of_set)
    moreover from xy(1) have "{k \<in> D. key_object k = x} \<noteq> {}" by auto
    ultimately show "x = y" by blast
  qed simp
next
  fix ys
  assume "ys \<in> set (map (\<lambda>(oid, pids). map (PageKey oid) (sorted_list_of_set pids)) (GroupDirtiedPagesByObject D))"
  then show "distinct ys" by (auto simp: distinct_map inj_on_def)
next
  fix ys zs
  assume "ys \<in> set (map (\<lambda>(oid, pids). map (PageKey oid) (sorted_list_of_set pids)) (GroupDirtiedPagesByObject D))"
    and "zs \<in> set (map (\<lambda>(oid, pids). map (PageKey oid) (sorted_list_of_set pids)) (GroupDirtiedPagesByObject D))"
    and "ys \<noteq> zs"
  then show "set ys \<inter> set zs = {}" by (auto simp: GroupDirtiedPagesByObject_def)
qed

lemma length_txn_keys [simp]: "length (txn_keys D) = card D"
  using distinct_card [OF distinct_txn_keys, of D] by simp

lemma length_txn_writes [simp]: "length (txn_writes D en) = card D"
  by (simp add: txn_writes_def)

lemma commit_log_ok:
  "\<forall>(k, p) \<in> set ws. length p = PAGE_SIZE \<Longrightarrow> list_all record_ok (commit_log lsn txn ws)"
proof -
  assume "\<forall>(k, p) \<in> set ws. length p = PAGE_SIZE"
  then have "list_all record_ok (update_records lsn txn ws)"
    by (induction lsn txn ws rule: update_records.induct) (auto simp: record_ok_def)
  then show ?thesis by (simp add: commit_log_def record_ok_def)
qed

text \<open>Room for the records of a commit: file bytes and log sequence numbers.\<close>

definition log_room :: "nat \<Rightarrow> wal \<Rightarrow> bool" where
  "log_room n w \<longleftrightarrow> length (wal_file w) + 4129 * n + 33 \<le> wal_capacity w \<and> unat (next_lsn w) + n + 1 < 2 ^ 64"

lemma next_lsn_no_wrap:
  "log_room n w \<Longrightarrow> unat (next_lsn w + of_nat n) = unat (next_lsn w) + n"
  by (simp add: log_room_def unat_word_ariths unat_of_nat)

lemma append_updates_inv:
  assumes "wal_inv w" and "\<forall>(k, p) \<in> set ws. length p = PAGE_SIZE" and "log_room (length ws) w"
  shows "wal_inv (w\<lparr>next_lsn := next_lsn w + of_nat (length ws),
               wal_file := wal_file w @ log_bytes (update_records (next_lsn w) txn ws)\<rparr>)"
  using assms
proof (induction ws arbitrary: w)
  case Nil
  then show ?case by simp
next
  case (Cons x ws)
  obtain k p where x: "x = (k, p)" by (cases x)
  let ?r = "new_record w kUpdate txn (key_object k) (key_page k) p"
  let ?w = "w\<lparr>next_lsn := next_lsn w + 1, wal_file := wal_file w @ record_bytes ?r\<rparr>"
  have pay: "payload_ok kUpdate p" and len: "length (record_bytes ?r) = 4129"
    using Cons.prems(2) x by (auto simp: payload_ok_def length_record_bytes payload_of_def new_record_def)
  have app: "AppendRecord kUpdate txn (key_object k) (key_page k) p w = (Inr (next_lsn w), ?w)"
    using Cons.prems(3) pay len by (auto simp: AppendRecord_eq Let_def log_room_def)
  have u: "unat (next_lsn w) + 1 < 2 ^ 64" using Cons.prems(3) by (simp add: log_room_def)
  then have u1: "unat (next_lsn w + 1) = Suc (unat (next_lsn w))" by (intro unat_Suc_small) simp
  then have "next_lsn w \<noteq> - 1" by auto
  with wal_inv_append(1) [OF Cons.prems(1) pay _ app] have "wal_inv ?w" by blast
  moreover have "log_room (length ws) ?w" using Cons.prems(3) len u1 by (simp add: log_room_def)
  ultimately have "wal_inv (?w\<lparr>next_lsn := next_lsn ?w + of_nat (length ws),
               wal_file := wal_file ?w @ log_bytes (update_records (next_lsn ?w) txn ws)\<rparr>)"
    using Cons.prems(2) by (intro Cons.IH) auto
  moreover have "?r = \<lparr>lr_lsn = next_lsn w, lr_type = kUpdate, lr_txn_id = txn, lr_object_id = key_object k,
      lr_page_id = key_page k, lr_page_image = p\<rparr>" by (simp add: new_record_def)
  ultimately show ?case by (simp add: x log_bytes_def add.assoc)
qed

definition committed_log :: "TxnId \<Rightarrow> (PageKey \<times> page) list \<Rightarrow> wal \<Rightarrow> wal" where
  "committed_log txn ws w =
     (let fl = wal_file w @ log_bytes (commit_log (next_lsn w) txn ws)
      in w\<lparr>wal_file := fl, wal_synced := length fl, next_lsn := next_lsn w + of_nat (length ws) + 1,
           durable_lsn := next_lsn w + of_nat (length ws), flush_in_progress := False\<rparr>)"

text \<open>The three calls \<open>Commit\<close> makes on the log, with their combined effect.\<close>

lemma commit_log_calls:
  fixes w :: wal and ws :: "(PageKey \<times> page) list" and txn :: TxnId
  defines "w1 \<equiv> w\<lparr>next_lsn := next_lsn w + of_nat (length ws),
                   wal_file := wal_file w @ log_bytes (update_records (next_lsn w) txn ws)\<rparr>"
  assumes inv: "wal_inv w" and pages: "\<forall>(k, p) \<in> set ws. length p = PAGE_SIZE" and room: "log_room (length ws) w"
    and fl: "wal_fsync_ok w" "\<not> flush_in_progress w"
  shows "\<exists>w2. AppendCommit txn w1 = (Inr (next_lsn w1), w2) \<and>
      FlushThrough (next_lsn w1) w2 = (Inr (), committed_log txn ws w)"
    and "wal_inv (committed_log txn ws w)"
proof -
  let ?n = "next_lsn w + of_nat (length ws)"
  let ?c = "new_record w1 kCommit txn INVALID_OBJECT_ID INVALID_PAGE_ID []"
  let ?w2 = "w1\<lparr>next_lsn := ?n + 1, wal_file := wal_file w1 @ record_bytes ?c\<rparr>"
  have c: "?c = \<lparr>lr_lsn = ?n, lr_type = kCommit, lr_txn_id = txn, lr_object_id = INVALID_OBJECT_ID,
      lr_page_id = INVALID_PAGE_ID, lr_page_image = blank_page\<rparr>"
    by (simp add: new_record_def w1_def)
  have len1: "length (log_bytes (update_records l txn ws)) = 4129 * length ws" for l
    using pages
    by (induction l txn ws rule: update_records.induct) (auto simp: log_bytes_def length_record_bytes payload_of_def)
  have room1: "length (wal_file w1) + 33 \<le> wal_capacity w1" using room len1 by (simp add: w1_def log_room_def)
  have pay: "payload_ok kCommit []" by (simp add: payload_ok_def)
  have app: "AppendRecord kCommit txn INVALID_OBJECT_ID INVALID_PAGE_ID [] w1 = (Inr ?n, ?w2)"
    using room1 by (simp add: AppendRecord_eq [OF pay] Let_def length_record_bytes payload_of_def new_record_def)
      (simp add: w1_def)
  have un: "unat ?n = unat (next_lsn w) + length ws" using next_lsn_no_wrap [OF room] .
  then have "unat ?n + 1 < 2 ^ 64" using room by (simp add: log_room_def)
  then have "unat (?n + 1) = Suc (unat ?n)" by (intro unat_Suc_small) simp
  then have top: "?n \<noteq> - 1" by auto
  have inv1: "wal_inv w1" unfolding w1_def using inv pages room by (rule append_updates_inv)
  with wal_inv_append(1) [OF inv1 pay _ app] top have inv2: "wal_inv ?w2" by (simp add: w1_def)
  have "durable_lsn w < next_lsn w" using inv by (auto simp: wal_inv_def)
  then have dur: "durable_lsn w < ?n" using un by (simp add: word_less_nat_alt)
  then have "FlushThrough ?n ?w2 = (Inr (), FlushThrough_publish True ?n (fsync (?w2\<lparr>flush_in_progress := True\<rparr>)))"
    using fl by (simp add: FlushThrough_def FlushThrough_round_def NextLsn_def w1_def)
  also have "FlushThrough_publish True ?n (fsync (?w2\<lparr>flush_in_progress := True\<rparr>)) = committed_log txn ws w"
    using dur c order_less_imp_le [OF dur]
    by (intro wal.equality)
      (simp_all add: FlushThrough_publish_def fsync_def committed_log_def commit_log_def log_bytes_def
        Let_def w1_def max_def)
  finally show "\<exists>w2. AppendCommit txn w1 = (Inr (next_lsn w1), w2) \<and>
      FlushThrough (next_lsn w1) w2 = (Inr (), committed_log txn ws w)"
    using app by (auto simp: AppendCommit_def w1_def)
  have "?n < next_lsn (fsync (?w2\<lparr>flush_in_progress := True\<rparr>))"
    using word_less_plus_one [OF top] by (simp add: fsync_def)
  moreover have "wal_inv (fsync (?w2\<lparr>flush_in_progress := True\<rparr>))"
    by (rule wal_inv_fsync) (simp only: flag_irrelevant inv2)
  ultimately have "wal_inv (FlushThrough_publish True ?n (fsync (?w2\<lparr>flush_in_progress := True\<rparr>)))"
    using synced_through_all by (intro wal_inv_publish) blast+
  then show "wal_inv (committed_log txn ws w)"
    using \<open>FlushThrough_publish True ?n (fsync (?w2\<lparr>flush_in_progress := True\<rparr>)) = committed_log txn ws w\<close> by simp
qed

section \<open>Properties of the transaction manager\<close>

lemma wal_op_Inr: "f (en_wal en) = (Inr x, w) \<Longrightarrow> wal_op f en = (Inr x, en\<lparr>en_wal := w\<rparr>)"
  by (simp add: wal_op_def)

lemma wal_op_only: "wal_op f en0 = (r, en1) \<Longrightarrow> \<exists>w. en1 = en0\<lparr>en_wal := w\<rparr>"
  by (auto simp: wal_op_def split: prod.splits)

lemma Commit_run:
  assumes ok: "engine_ok en" and cur: "en_current en tid = Some txn"
    and wal: "wal_inv (en_wal en)" "wal_fsync_ok (en_wal en)" "\<not> flush_in_progress (en_wal en)"
    and room: "log_room (card (DirtiedPages txn en)) (en_wal en)"
  defines "D \<equiv> DirtiedPages txn en"
  shows "Commit tid txn en = (Inr (), end_transaction tid txn
      (flush_txn D (clear_observers tid (en\<lparr>en_wal := committed_log txn (txn_writes D en) (en_wal en)\<rparr>))))"
    and "wal_inv (committed_log txn (txn_writes D en) (en_wal en))"
    and "\<forall>(k, p) \<in> set (txn_writes D en). length p = PAGE_SIZE"
proof -
  have pok: "pools_ok en" and dirty: "\<forall>k \<in> D. en_dirty en k"
    using ok by (auto simp: engine_ok_def D_def DirtiedPages_def split: option.splits)
  show pages: "\<forall>(k, p) \<in> set (txn_writes D en). length p = 4096"
    using dirty dirty_page [OF pok] by (auto simp: txn_writes_def)
  have room': "log_room (length (txn_writes D en)) (en_wal en)" using room by (simp add: D_def)
  note calls = commit_log_calls [OF wal(1) pages room' wal(2,3), of txn]
  show "wal_inv (committed_log txn (txn_writes D en) (en_wal en))" by (rule calls(2))
  let ?w1 = "(en_wal en)\<lparr>next_lsn := next_lsn (en_wal en) + of_nat (length (txn_writes D en)),
      wal_file := wal_file (en_wal en) @ log_bytes (update_records (next_lsn (en_wal en)) txn (txn_writes D en))\<rparr>"
  let ?e0 = "clear_observers tid en"
  let ?w3 = "committed_log txn (txn_writes D en) (en_wal en)"
  from calls(1) obtain w2 where w2: "AppendCommit txn ?w1 = (Inr (next_lsn ?w1), w2)"
    "FlushThrough (next_lsn ?w1) w2 = (Inr (), ?w3)" by blast
  have "for_each (txn_keys D) (\<lambda>k. log_update txn (key_object k) (key_page k)) ?e0 = (Inr (), ?e0\<lparr>en_wal := ?w1\<rparr>)"
    using log_updates_eq [of ?e0 "txn_keys D" txn] pok dirty
      append_updates_eq [OF pages, of "en_wal en" txn] room'
    by (simp add: wal_op_def txn_writes_def log_room_def)
  then have log: "for_each (GroupDirtiedPagesByObject D) (\<lambda>(oid, pids). for_each (sorted_list_of_set pids) (log_update txn oid)) ?e0 =
      (Inr (), ?e0\<lparr>en_wal := ?w1\<rparr>)" by (simp add: for_each_group)
  have com: "wal_op (AppendCommit txn) (?e0\<lparr>en_wal := ?w1\<rparr>) = (Inr (next_lsn ?w1), ?e0\<lparr>en_wal := w2\<rparr>)"
    using w2(1) by (simp add: wal_op_def)
  have fl: "wal_op (FlushThrough (next_lsn ?w1)) (?e0\<lparr>en_wal := w2\<rparr>) = (Inr (), ?e0\<lparr>en_wal := ?w3\<rparr>)"
    using w2(2) by (simp add: wal_op_def)
  have "for_each (GroupDirtiedPagesByObject D) (\<lambda>(oid, pids). pool_op oid (FlushPages pids)) (?e0\<lparr>en_wal := ?w3\<rparr>) =
      (Inr (), flush_txn D (?e0\<lparr>en_wal := ?w3\<rparr>))"
    using pok dirty by (intro flush_txn_eq) simp_all
  moreover have "?e0\<lparr>en_wal := ?w3\<rparr> = clear_observers tid (en\<lparr>en_wal := ?w3\<rparr>)" by (simp add: clear_observers_def)
  ultimately show "Commit tid txn en = (Inr (), end_transaction tid txn (flush_txn D (clear_observers tid (en\<lparr>en_wal := ?w3\<rparr>))))"
    using cur log com fl
    by (simp add: Commit_def GetCurrentTransaction_def Let_def D_def [symmetric] bind_op_Inr)
qed

text \<open>
  C12. A commit makes exactly its transaction durable. When the log has room, \<open>fsync\<close> works and no other
  thread is flushing, \<open>Commit\<close> succeeds; the log gains one update record per dirtied page, with the
  page's current content, and then the commit record, all of it synced; every dirtied page of the
  transaction now stands in its data file as the cache has it, every other page of the files is
  untouched, and the cache shows no change; the locks of the transaction, and only those, are
  released, and it is no longer active.
\<close>

theorem Commit_durable:
  assumes "engine_ok en" and "en_current en tid = Some txn"
    and "wal_inv (en_wal en)" and "wal_fsync_ok (en_wal en)" and "\<not> flush_in_progress (en_wal en)"
    and "log_room (card (DirtiedPages txn en)) (en_wal en)"
  shows "\<exists>en'. Commit tid txn en = (Inr (), en') \<and>
    wal_records (wal_file (en_wal en')) =
      wal_records (wal_file (en_wal en)) @
      commit_log (next_lsn (en_wal en)) txn (map (\<lambda>k. (k, en_page en k)) (txn_keys (DirtiedPages txn en))) \<and>
    wal_synced (en_wal en') = length (wal_file (en_wal en')) \<and>
    (\<forall>k. en_has en k \<longrightarrow> disks_page (en_disks en') k =
       (if k \<in> DirtiedPages txn en then en_page en k else disks_page (en_disks en) k)) \<and>
    (\<forall>k. en_has en k \<longrightarrow> en_has en' k \<and> en_page en' k = en_page en k) \<and>
    (\<forall>t k. holds (en_locks en') t k \<longleftrightarrow> holds (en_locks en) t k \<and> t \<noteq> txn) \<and>
    en_active en' = (en_active en)(txn := None) \<and> en_current en' tid = None"
proof -
  let ?D = "DirtiedPages txn en"
  let ?ws = "txn_writes ?D en"
  let ?w = "committed_log txn ?ws (en_wal en)"
  let ?e = "clear_observers tid (en\<lparr>en_wal := ?w\<rparr>)"
  note run = Commit_run [OF assms]
  have pok: "pools_ok en" and dirty: "\<forall>k \<in> ?D. en_dirty en k" and linv: "lock_inv (en_locks en)"
    using assms(1) by (auto simp: engine_ok_def DirtiedPages_def split: option.splits)
  have pok': "pools_ok ?e" using pok by simp
  note v = flush_txn_views [OF pok', where D = ?D]
  from assms(3) obtain rs where rs: "wal_file (en_wal en) = log_bytes rs" "log_ok rs" unfolding wal_inv_def by blast
  have fl: "wal_file ?w = log_bytes (rs @ commit_log (next_lsn (en_wal en)) txn ?ws)"
    by (simp add: committed_log_def rs(1) Let_def)
  have "wal_records (wal_file ?w) = rs @ commit_log (next_lsn (en_wal en)) txn ?ws"
    using wal_log.scan_enc_all [of "rs @ commit_log (next_lsn (en_wal en)) txn ?ws"] rs(2)
      commit_log_ok [OF run(3), of "next_lsn (en_wal en)" txn]
    by (simp add: fl wal_records_def log_bytes_def log_ok_def)
  then have recs: "wal_records (wal_file ?w) = wal_records (wal_file (en_wal en)) @ commit_log (next_lsn (en_wal en)) txn ?ws"
    using rs wal_records_log_bytes by simp
  have sync: "wal_synced ?w = length (wal_file ?w)" by (simp add: committed_log_def Let_def)
  show ?thesis
    using run(1) recs sync v(2,4,5) dirty release_holds [OF linv, of txn]
    by (intro exI conjI) (auto simp: txn_writes_def)
qed


text \<open>
  C13. An abort takes everything back: when the log has room for the abort record, \<open>Abort\<close> succeeds; every
  page the transaction dirtied shows its data-file content again, every other cached page and all
  data files are unchanged, the locks of the transaction, and only those, are released, and it is
  no longer active. The log gains one abort record and no update.
\<close>

theorem Abort_reverts:
  assumes "engine_ok en" and "en_current en tid = Some txn" and "wal_inv (en_wal en)"
    and "length (wal_file (en_wal en)) + 33 \<le> wal_capacity (en_wal en)"
  shows "\<exists>en' r. Abort tid txn en = (Inr (), en') \<and>
    (\<forall>k. en_page en' k = (if k \<in> DirtiedPages txn en then disks_page (en_disks en) k else en_page en k)) \<and>
    en_disks en' = en_disks en \<and>
    (\<forall>t k. holds (en_locks en') t k \<longleftrightarrow> holds (en_locks en) t k \<and> t \<noteq> txn) \<and>
    en_active en' = (en_active en)(txn := None) \<and> en_current en' tid = None \<and>
    lr_type r = kAbort \<and> wal_records (wal_file (en_wal en')) = wal_records (wal_file (en_wal en)) @ [r]"
proof -
  let ?D = "DirtiedPages txn en" and ?e0 = "clear_observers tid en"
  let ?r = "new_record (en_wal en) kAbort txn INVALID_OBJECT_ID INVALID_PAGE_ID []"
  let ?w = "(en_wal en)\<lparr>next_lsn := next_lsn (en_wal en) + 1, wal_file := wal_file (en_wal en) @ record_bytes ?r\<rparr>"
  have pok: "pools_ok en" and dirty: "\<forall>k \<in> ?D. en_dirty en k" and linv: "lock_inv (en_locks en)"
    using assms(1) by (auto simp: engine_ok_def DirtiedPages_def split: option.splits)
  have pools: "\<forall>k \<in> set (txn_keys ?D). en_pools ?e0 (key_object k) \<noteq> None"
    using dirty by (auto simp: clear_observers_def en_dirty_def split: option.splits)
  from discard_txn_eq [of ?e0 "txn_keys ?D"] pok pools obtain m where
    m: "for_each (txn_keys ?D) (\<lambda>k. pool_op (key_object k) (DiscardPage (key_page k))) ?e0 = (Inr (), ?e0\<lparr>en_pools := m\<rparr>)"
    "en_disks (?e0\<lparr>en_pools := m\<rparr>) = en_disks en"
    "\<And>k. en_page (?e0\<lparr>en_pools := m\<rparr>) k = (if k \<in> ?D then disks_page (en_disks en) k else en_page en k)"
    by auto
  have "AppendAbort txn (en_wal en) = (Inr (next_lsn (en_wal en)), ?w)"
    using assms(4) by (simp add: AppendAbort_def AppendRecord_eq payload_ok_def Let_def length_record_bytes
        payload_of_def new_record_def)
  then have app: "wal_op (AppendAbort txn) (?e0\<lparr>en_pools := m\<rparr>) = (Inr (next_lsn (en_wal en)), ?e0\<lparr>en_pools := m, en_wal := ?w\<rparr>)"
    by (simp add: wal_op_def)
  have run: "Abort tid txn en = (Inr (), end_transaction tid txn (?e0\<lparr>en_pools := m, en_wal := ?w\<rparr>))"
    using assms(2) m(1) app
    by (simp add: Abort_def GetCurrentTransaction_def Let_def for_each_group bind_op_Inr)
  from assms(3) obtain rs where rs: "wal_file (en_wal en) = log_bytes rs" "log_ok rs" unfolding wal_inv_def by blast
  have "record_ok ?r" by (simp add: new_record_ok payload_ok_def)
  then have "wal_records (wal_file ?w) = rs @ [?r]"
    using wal_log.scan_enc_all [of "rs @ [?r]"] rs by (simp add: wal_records_def log_bytes_def log_ok_def)
  then have recs: "wal_records (wal_file ?w) = wal_records (wal_file (en_wal en)) @ [?r]"
    using rs wal_records_log_bytes by simp
  have disks: "en_disks (?e0\<lparr>en_pools := m, en_wal := ?w\<rparr>) = en_disks en"
    using m(2) by (simp add: en_disks_def fun_eq_iff)
  have page: "en_page (?e0\<lparr>en_pools := m, en_wal := ?w\<rparr>) k = (if k \<in> ?D then disks_page (en_disks en) k else en_page en k)" for k
    using m(3) [of k] by (simp add: en_page_def)
  show ?thesis
    using run recs disks page release_holds [OF linv, of txn]
    by (intro exI [of _ "end_transaction tid txn (?e0\<lparr>en_pools := m, en_wal := ?w\<rparr>)"] exI [of _ ?r] conjI)
      (simp_all add: new_record_def)
qed

section \<open>Witnesses\<close>

text \<open>Thread 0 runs transaction 7, which has formatted page 0 of object 3 and not committed yet.\<close>

definition dirty_pool :: pool where
  "dirty_pool = \<lparr>bp_pages = [0 \<mapsto> InitHeapPage 0], bp_dirty = {0}, bp_observers = [0 \<mapsto> (7, 3)],
     bp_disk = \<lparr>disk_file = blank_page, next_page_id = 1, disk_capacity = 8192\<rparr>\<rparr>"

definition one_txn_engine :: "nat \<Rightarrow> engine" where
  "one_txn_engine cap =
     \<lparr>en_pools = [3 \<mapsto> dirty_pool],
      en_wal = empty_wal\<lparr>wal_capacity := cap\<rparr>,
      en_locks = \<lparr>locks = [PageKey 3 0 \<mapsto> \<lparr>shared_holders = {}, exclusive_holder = Some 7\<rparr>],
                  held_by_txn = [7 \<mapsto> {PageKey 3 0}]\<rparr>,
      en_active = [7 \<mapsto> {PageKey 3 0}], en_next_txn = 8, en_current = [0 \<mapsto> 7],
      en_heaps = Map.empty\<rparr>"

lemma dirty_pool_ok: "pool_ok dirty_pool"
  by (simp add: pool_ok_def pool_wf_def dirty_pool_def disk_ok_def pool_has_def disk_has_def length_InitHeapPage)

lemma one_txn_engine_ok: "engine_ok (one_txn_engine cap)"
proof -
  have "lock_inv (en_locks (one_txn_engine cap))"
    by (auto simp: one_txn_engine_def lock_inv_def entry_ok_def entry_holders_def holds_def split: if_splits)
  then show ?thesis
    using dirty_pool_ok
    by (auto simp: engine_ok_def pools_ok_def one_txn_engine_def en_dirty_def dirty_pool_def split: if_splits)
qed

lemma one_txn_engine_facts:
  "DirtiedPages 7 (one_txn_engine cap) = {PageKey 3 0}" "en_current (one_txn_engine cap) 0 = Some 7"
  "en_has (one_txn_engine cap) (PageKey 3 0)" "en_page (one_txn_engine cap) (PageKey 3 0) = InitHeapPage 0"
  "disks_page (en_disks (one_txn_engine cap)) (PageKey 3 0) = blank_page"
  "wal_fsync_ok (en_wal (one_txn_engine cap))" "\<not> flush_in_progress (en_wal (one_txn_engine cap))"
  "wal_file (en_wal (one_txn_engine cap)) = []" "wal_capacity (en_wal (one_txn_engine cap)) = cap"
  "next_lsn (en_wal (one_txn_engine cap)) = 1"
  by (simp_all add: DirtiedPages_def one_txn_engine_def en_has_def dirty_pool_def pool_has_def disk_has_def
      en_page_def pool_page_def disks_page_def en_disks_def disk_page_def read_bytes_def empty_wal_def)

lemma one_txn_engine_wal: "wal_inv (en_wal (one_txn_engine cap))"
proof -
  have "log_ok []" by (simp add: log_ok_def)
  moreover have "wal_records [] = []"
    using wal_records_log_bytes [OF \<open>log_ok []\<close>] by simp
  ultimately show ?thesis
    by (auto simp: wal_inv_def one_txn_engine_def empty_wal_def synced_through_def intro!: exI [of _ "[]"])
qed

theorem Commit_durable_witness:
  "\<exists>en'. Commit 0 7 (one_txn_engine 10000) = (Inr (), en') \<and>
     disks_page (en_disks en') (PageKey 3 0) = InitHeapPage 0 \<and> \<not> holds (en_locks en') 7 (PageKey 3 0)"
  using Commit_durable [OF one_txn_engine_ok [of 10000] one_txn_engine_facts(2) one_txn_engine_wal
      one_txn_engine_facts(6,7)] one_txn_engine_facts [of 10000]
  by (auto simp: log_room_def)

lemma Commit_no_room: "\<exists>e en'. Commit 0 7 (one_txn_engine 0) = (Inl e, en')"
proof -
  let ?en = "one_txn_engine 0" and ?e0 = "clear_observers 0 (one_txn_engine 0)"
  let ?k = "PageKey 3 0 :: PageKey"
  have "set (txn_keys {?k}) = {?k}" "length (txn_keys {?k}) = 1" by simp_all
  then have keys: "txn_keys {?k} = [?k]" by (cases "txn_keys {?k}") auto
  have pay: "payload_ok kUpdate (InitHeapPage 0)" by (simp add: payload_ok_def length_InitHeapPage)
  have "en_dirty ?e0 ?k" by (simp add: en_dirty_def one_txn_engine_def dirty_pool_def)
  moreover have "pools_ok ?e0" using one_txn_engine_ok [of 0] by (simp add: engine_ok_def)
  ultimately have "for_each [?k] (\<lambda>k. log_update 7 (key_object k) (key_page k)) ?e0 =
      wal_op (for_each [(?k, InitHeapPage 0)] (\<lambda>(k, p). discard_op (AppendUpdate 7 (key_object k) (key_page k) p))) ?e0"
    using log_updates_eq [of ?e0 "[?k]" 7] one_txn_engine_facts(4) [of 0] by simp
  moreover have "\<exists>e w. AppendUpdate 7 3 0 (InitHeapPage 0) (en_wal ?en) = (Inl e, w)"
    using one_txn_engine_facts(8,9) [of 0] length_record_bytes [of "new_record (en_wal ?en) kUpdate 7 3 0 (InitHeapPage 0)"]
    by (auto simp: AppendUpdate_def AppendRecord_eq [OF pay] Let_def)
  ultimately show ?thesis
    using one_txn_engine_facts(1,2) [of 0] keys
    by (auto simp: Commit_def GetCurrentTransaction_def Let_def for_each_group bind_op_def wal_op_def discard_op_def)
qed


theorem Abort_reverts_witness:
  "\<exists>en'. Abort 0 7 (one_txn_engine 100) = (Inr (), en') \<and> en_page en' (PageKey 3 0) = blank_page \<and>
     en_active en' 7 = None"
  using Abort_reverts [OF one_txn_engine_ok [of 100] one_txn_engine_facts(2) one_txn_engine_wal]
    one_txn_engine_facts [of 100]
  by auto

end
