(* ===== verification/Crash_Safety.thy ===== *)
theory Crash_Safety
  imports Transaction_Manager
begin

text \<open>
  What a crash leaves and what recovery makes of it: the interplay of \<open>TransactionManager::Commit\<close>,
  the log, the data files and \<open>RunRecovery\<close>.
\<close>

section \<open>Commit logs and committed images\<close>

lemma committed_txns_append: "committed_txns (rs @ ss) = committed_txns rs \<union> committed_txns ss"
  by (auto simp: committed_txns_eq)

lemma update_records_redo:
  "committed_txns (update_records l t ws) = {}" "redo_writes C (update_records l t ws) = (if t \<in> C then ws else [])"
  by (induction l t ws rule: update_records.induct) (auto simp: committed_txns_eq record_key_def)

lemma commit_log_redo:
  "committed_txns (commit_log l t ws) = {t}" "redo_writes C (commit_log l t ws) = (if t \<in> C then ws else [])"
  by (auto simp: commit_log_def committed_txns_append update_records_redo) (auto simp: committed_txns_eq)

lemma length_update_records: "length (update_records l t ws) = length ws"
  by (induction l t ws rule: update_records.induct) auto

lemma take_update_records: "take i (update_records l t ws) = update_records l t (take i ws)"
proof (induction l t ws arbitrary: i rule: update_records.induct)
  case (2 l t k p ws)
  then show ?case by (cases i) simp_all
qed simp

text \<open>The transaction has neither an update nor a commit in the log yet.\<close>

definition fresh_txn :: "TxnId \<Rightarrow> LogRecord list \<Rightarrow> bool" where
  "fresh_txn t rs \<longleftrightarrow> (\<forall>r \<in> set rs. lr_txn_id r = t \<longrightarrow> lr_type r \<noteq> kUpdate \<and> lr_type r \<noteq> kCommit)"

lemma fresh_txn_redo:
  assumes "fresh_txn t rs"
  shows "t \<notin> committed_txns rs" and "redo_writes (insert t C) rs = redo_writes C rs"
proof -
  show "t \<notin> committed_txns rs" using assms by (auto simp: fresh_txn_def committed_txns_eq)
  show "redo_writes (insert t C) rs = redo_writes C rs"
    unfolding redo_writes_def by (intro arg_cong [where f = "map _"] filter_cong) (use assms in \<open>auto simp: fresh_txn_def\<close>)
qed

lemma image_uncommitted:
  assumes "fresh_txn t rs"
  shows "last_committed_image (rs @ update_records l t ws) k = last_committed_image rs k"
  using fresh_txn_redo [OF assms]
  by (simp add: last_committed_image_redo committed_txns_append update_records_redo)

lemma image_committed:
  assumes "fresh_txn t rs"
  shows "last_committed_image (rs @ commit_log l t ws) k =
    (case map_of (rev ws) k of Some p \<Rightarrow> Some p | None \<Rightarrow> last_committed_image rs k)"
  using fresh_txn_redo [OF assms]
  by (simp add: last_committed_image_redo committed_txns_append commit_log_redo map_add_def split: option.split)

lemma recover_image:
  assumes "disks_ok ds" and "list_all record_ok rs"
    and "\<And>k img. last_committed_image rs k = Some img \<Longrightarrow> disks_has ds k"
  shows "\<exists>n ds'. RunRecovery rs ds = (Inr n, ds') \<and>
    (\<forall>k. disks_has ds k \<longrightarrow> disks_page ds' k =
       (case last_committed_image rs k of None \<Rightarrow> disks_page ds k | Some img \<Rightarrow> img))"
proof -
  have "updates_land rs ds"
    unfolding updates_land_def
  proof (intro ballI impI)
    fix r assume r: "r \<in> set rs" "lr_type r = kUpdate" "\<exists>c \<in> set rs. lr_type c = kCommit \<and> lr_txn_id c = lr_txn_id r"
    then have "last_committed_image rs (record_key r) \<noteq> None"
      by (auto simp: last_committed_image_def Let_def filter_empty_conv)
    with assms(3) show "disks_has ds (record_key r)" by blast
  qed
  with RunRecovery_redo_lemma [OF assms(1,2)] show ?thesis by blast
qed

section \<open>Crashes during a commit\<close>

text \<open>
  Recovery has nothing to do: whatever suffix of the unsynced log a crash removes, every committed
  image that is left is what the data file holds already.
\<close>

definition log_applied :: "wal \<Rightarrow> disks \<Rightarrow> bool" where
  "log_applied w ds \<longleftrightarrow>
     (\<forall>n \<ge> wal_synced w. \<forall>k img. last_committed_image (wal_records (take n (wal_file w))) k = Some img \<longrightarrow>
        disks_has ds k \<and> disks_page ds k = img)"

text \<open>
  The bytes of the log file and the data files a crash at some point of \<open>Commit tid txn\<close> leaves: while
  the updates are logged, once the commit record is written but not synced (the log loses any
  unsynced suffix), or while the pages are written after the sync.
\<close>

inductive commit_crash :: "thread_id \<Rightarrow> TxnId \<Rightarrow> engine \<Rightarrow> byte list \<Rightarrow> disks \<Rightarrow> bool" for tid txn en where
  logging: "for_each (take i (txn_keys (DirtiedPages txn en))) (\<lambda>k. log_update txn (key_object k) (key_page k))
       (clear_observers tid en) = (Inr (), e1) \<Longrightarrow>
     wal_synced (en_wal e1) \<le> n \<Longrightarrow>
     commit_crash tid txn en (take n (wal_file (en_wal e1))) (en_disks e1)"
| logged: "for_each (txn_keys (DirtiedPages txn en)) (\<lambda>k. log_update txn (key_object k) (key_page k))
       (clear_observers tid en) = (Inr (), e1) \<Longrightarrow>
     wal_op (AppendCommit txn) e1 = (Inr lsn, e2) \<Longrightarrow> wal_synced (en_wal e2) \<le> n \<Longrightarrow>
     commit_crash tid txn en (take n (wal_file (en_wal e2))) (en_disks e2)"
| flushing: "for_each (txn_keys (DirtiedPages txn en)) (\<lambda>k. log_update txn (key_object k) (key_page k))
       (clear_observers tid en) = (Inr (), e1) \<Longrightarrow>
     wal_op (AppendCommit txn) e1 = (Inr lsn, e2) \<Longrightarrow> wal_op (FlushThrough lsn) e2 = (Inr (), e3) \<Longrightarrow>
     for_each (take i (txn_keys (DirtiedPages txn en))) (\<lambda>k. pool_op (key_object k) (flush_if_dirty (key_page k))) e3 =
       (Inr (), e4) \<Longrightarrow>
     commit_crash tid txn en (wal_file (en_wal e4)) (en_disks e4)"

lemma wal_records_then:
  "list_all record_ok rs \<Longrightarrow> wal_records (log_bytes rs @ ys) = rs @ wal_records ys"
  by (simp add: wal_records_def log_bytes_def wal_log.scan_enc_then)

lemma wal_records_cut:
  assumes "list_all record_ok rs"
  shows "\<exists>i. wal_records (take n (log_bytes rs)) = take i rs \<and> (n < length (log_bytes rs) \<longrightarrow> i < length rs)"
proof -
  from wal_log.scan_cut [OF assms, of n] obtain as bs where
    ab: "rs = as @ bs" "wal_records (take n (log_bytes rs)) = as" "length (log_bytes as) \<le> n"
    unfolding wal_records_def log_bytes_def by blast
  moreover have "n < length (log_bytes rs) \<Longrightarrow> bs \<noteq> []" using ab by auto
  ultimately show ?thesis by (intro exI [of _ "length as"]) auto
qed

lemma RecordsOnOpen_records: "RecordsOnOpen (LogManager_open cap data) = wal_records data"
  by (cases "scan_records data 0") (simp add: RecordsOnOpen_def LogManager_open_def wal_records_def)

lemma append_updates_Inr:
  assumes "\<forall>(k, p) \<in> set ws. length p = PAGE_SIZE"
    and "for_each ws (\<lambda>(k, p). discard_op (AppendUpdate txn (key_object k) (key_page k) p)) w = (Inr (), w')"
  shows "w' = w\<lparr>next_lsn := next_lsn w + of_nat (length ws),
               wal_file := wal_file w @ log_bytes (update_records (next_lsn w) txn ws)\<rparr>"
  using assms
proof (induction ws arbitrary: w)
  case Nil
  then show ?case by simp
next
  case (Cons x ws)
  obtain k p where x: "x = (k, p)" by (cases x)
  let ?r = "new_record w kUpdate txn (key_object k) (key_page k) p"
  have pay: "payload_ok kUpdate p" using Cons.prems(1) x by (simp add: payload_ok_def)
  from Cons.prems(2) obtain w1 where w1: "discard_op (AppendUpdate txn (key_object k) (key_page k) p) w = (Inr (), w1)"
    "for_each ws (\<lambda>(k, p). discard_op (AppendUpdate txn (key_object k) (key_page k) p)) w1 = (Inr (), w')"
    unfolding x by (auto elim: bind_op_InrE)
  from w1(1) obtain lsn where "AppendRecord kUpdate txn (key_object k) (key_page k) p w = (Inr lsn, w1)"
    by (auto simp: discard_op_def AppendUpdate_def split: prod.splits sum.splits)
  note a = AppendRecord_Inr(2) [OF pay this]
  have "?r = \<lparr>lr_lsn = next_lsn w, lr_type = kUpdate, lr_txn_id = txn, lr_object_id = key_object k,
      lr_page_id = key_page k, lr_page_image = p\<rparr>" by (simp add: new_record_def)
  with Cons.IH [OF _ w1(2)] Cons.prems(1) a x show ?case by (simp add: log_bytes_def add.assoc)
qed

lemma logging_state:
  assumes ok: "pools_ok en" and dirty: "\<forall>k \<in> set ks. en_dirty en k"
    and run: "for_each ks (\<lambda>k. log_update txn (key_object k) (key_page k)) (clear_observers tid en) = (Inr (), e1)"
  shows "e1 = (clear_observers tid en)\<lparr>en_wal := (en_wal en)\<lparr>next_lsn := next_lsn (en_wal en) + of_nat (length ks),
      wal_file := wal_file (en_wal en) @
        log_bytes (update_records (next_lsn (en_wal en)) txn (map (\<lambda>k. (k, en_page en k)) ks))\<rparr>\<rparr>"
proof -
  let ?ws = "map (\<lambda>k. (k, en_page en k)) ks"
  have pages: "\<forall>(k, p) \<in> set ?ws. length p = 4096" using dirty dirty_page(1) [OF ok] by auto
  obtain r w where w: "for_each ?ws (\<lambda>(k, p). discard_op (AppendUpdate txn (key_object k) (key_page k) p)) (en_wal en) = (r, w)"
    by (cases "for_each ?ws (\<lambda>(k, p). discard_op (AppendUpdate txn (key_object k) (key_page k) p)) (en_wal en)")
  have "wal_op (for_each ?ws (\<lambda>(k, p). discard_op (AppendUpdate txn (key_object k) (key_page k) p))) (clear_observers tid en) =
      (Inr (), e1)"
    using log_updates_eq [of "clear_observers tid en" ks txn] ok dirty run by simp
  with w have "r = Inr ()" "e1 = (clear_observers tid en)\<lparr>en_wal := w\<rparr>" by (auto simp: wal_op_def)
  with append_updates_Inr [OF pages] w show ?thesis by simp
qed

lemma FlushThrough_file: "FlushThrough l w = (r, w') \<Longrightarrow> wal_file w' = wal_file w"
  by (auto simp: FlushThrough_def FlushThrough_round_def FlushThrough_publish_def fsync_def split: if_splits)

lemma flush_keys_eq:
  assumes "pools_ok en" and "\<forall>k \<in> set ks. en_pools en (key_object k) \<noteq> None"
  shows "\<exists>m. for_each ks (\<lambda>k. pool_op (key_object k) (flush_if_dirty (key_page k))) en = (Inr (), en\<lparr>en_pools := m\<rparr>) \<and>
    pools_ok (en\<lparr>en_pools := m\<rparr>) \<and> (\<forall>k. en_has (en\<lparr>en_pools := m\<rparr>) k = en_has en k) \<and>
    (\<forall>k. en_has en k \<longrightarrow> disks_page (en_disks (en\<lparr>en_pools := m\<rparr>)) k =
       (if k \<in> set ks \<and> en_dirty en k then en_page en k else disks_page (en_disks en) k))"
  using assms
proof (induction ks arbitrary: en)
  case Nil
  then show ?case by (intro exI [of _ "en_pools en"]) simp
next
  case (Cons k ks)
  from Cons.prems(2) obtain bp where bp: "en_pools en (key_object k) = Some bp" by auto
  with Cons.prems(1) have ok: "pool_ok bp" by (simp add: pools_ok_def)
  then have wf: "pool_wf bp" by (rule pool_ok_wf)
  let ?bp = "flushed (key_page k) bp"
  let ?en = "en\<lparr>en_pools := (en_pools en)(key_object k \<mapsto> ?bp)\<rparr>"
  have step: "pool_op (key_object k) (flush_if_dirty (key_page k)) en = (Inr (), ?en)"
    using bp wf by (simp add: pool_op_def flush_if_dirty_eq)
  have ok': "pools_ok ?en" using Cons.prems(1) flushed_ok [OF ok] by (simp add: pools_ok_def)
  have has: "en_has ?en j = en_has en j" for j
    using bp flushed_fields(4) [OF wf] by (simp add: en_has_def)
  have dirty: "en_dirty ?en j \<longleftrightarrow> en_dirty en j \<and> j \<noteq> k" for j
    using bp flushed_fields(3) [OF wf] by (cases j; cases k) (auto simp: en_dirty_def split: option.splits)
  have page: "en_page ?en j = en_page en j" if "en_has en j" for j
    using bp flushed_page [OF wf] that by (auto simp: en_page_def en_has_def split: option.splits)
  have disk: "disks_page (en_disks ?en) j = (if j = k \<and> en_dirty en j then en_page en j else disks_page (en_disks en) j)"
    if "en_has en j" for j
    using bp flushed_fields(5) [OF wf] that
    by (cases j; cases k) (auto simp: disks_page_en en_has_def en_dirty_def en_page_def split: option.splits)
  have dom': "\<forall>j \<in> set ks. en_pools ?en (key_object j) \<noteq> None" using Cons.prems(2) by auto
  have upd: "?en\<lparr>en_pools := m\<rparr> = en\<lparr>en_pools := m\<rparr>" for m by simp
  from Cons.IH [OF ok' dom', unfolded upd] obtain m where
    m: "for_each ks (\<lambda>k. pool_op (key_object k) (flush_if_dirty (key_page k))) ?en = (Inr (), en\<lparr>en_pools := m\<rparr>)"
    "pools_ok (en\<lparr>en_pools := m\<rparr>)" "\<And>j. en_has (en\<lparr>en_pools := m\<rparr>) j = en_has ?en j"
    "\<And>j. en_has ?en j \<Longrightarrow> disks_page (en_disks (en\<lparr>en_pools := m\<rparr>)) j =
       (if j \<in> set ks \<and> en_dirty ?en j then en_page ?en j else disks_page (en_disks ?en) j)"
    by blast
  have "disks_page (en_disks (en\<lparr>en_pools := m\<rparr>)) j =
      (if j \<in> set (k # ks) \<and> en_dirty en j then en_page en j else disks_page (en_disks en) j)" if j: "en_has en j" for j
    using m(4) [of j] disk [OF j] page [OF j] dirty [of j] j unfolding has by (cases "j = k") auto
  with step m has show ?case by (intro exI [of _ m]) (simp add: bind_op_def)
qed

text \<open>
  What recovery sees: a log without the new commit (and untouched data files), or the whole new log
  (and data files with some of the new pages).
\<close>

definition sees_old :: "engine \<Rightarrow> byte list \<Rightarrow> disks \<Rightarrow> bool" where
  "sees_old en data ds \<longleftrightarrow> ds = en_disks en \<and> list_all record_ok (wal_records data) \<and>
     (\<forall>k img. last_committed_image (wal_records data) k = Some img \<longrightarrow> disks_has ds k \<and> disks_page ds k = img)"

definition sees_new :: "TxnId \<Rightarrow> engine \<Rightarrow> byte list \<Rightarrow> disks \<Rightarrow> bool" where
  "sees_new txn en data ds \<longleftrightarrow>
     wal_records data = wal_records (wal_file (en_wal en)) @
       commit_log (next_lsn (en_wal en)) txn (txn_writes (DirtiedPages txn en) en) \<and>
     disks_ok ds \<and> (\<forall>k. disks_has ds k = en_has en k) \<and>
     (\<forall>k. en_has en k \<longrightarrow> k \<notin> DirtiedPages txn en \<longrightarrow> disks_page ds k = disks_page (en_disks en) k)"

lemma map_of_txn_writes:
  "map_of (rev (txn_writes D en)) k = (if k \<in> D then Some (en_page en k) else None)"
proof -
  have "map_of (map (\<lambda>k. (k, f k)) ks) k = (if k \<in> set ks then Some (f k) else None)" for f :: "PageKey \<Rightarrow> page" and ks
    by (induction ks) auto
  then show ?thesis by (simp add: txn_writes_def rev_map)
qed

lemma recover_old:
  assumes "pools_ok en" and "sees_old en data ds"
  shows "\<exists>n ds'. RunRecovery (wal_records data) ds = (Inr n, ds') \<and>
    (\<forall>k. en_has en k \<longrightarrow> disks_page ds' k = disks_page (en_disks en) k)"
proof -
  from assms(2) have ds: "ds = en_disks en" and ok: "list_all record_ok (wal_records data)"
    and img: "\<And>k img. last_committed_image (wal_records data) k = Some img \<Longrightarrow> disks_has ds k \<and> disks_page ds k = img"
    by (auto simp: sees_old_def)
  have "disks_ok ds" using pools_ok_disks [OF assms(1)] ds by simp
  from recover_image [OF this ok] img obtain n ds' where r: "RunRecovery (wal_records data) ds = (Inr n, ds')"
    "\<And>k. disks_has ds k \<Longrightarrow> disks_page ds' k =
       (case last_committed_image (wal_records data) k of None \<Rightarrow> disks_page ds k | Some img \<Rightarrow> img)" by blast
  have "disks_page ds' k = disks_page (en_disks en) k" if "en_has en k" for k
    using r(2) [of k] img [of k] that ds by (auto simp: en_disks_has split: option.splits)
  with r(1) show ?thesis by blast
qed

lemma recover_new:
  assumes ok: "engine_ok en" and inv: "wal_inv (en_wal en)"
    and fresh: "fresh_txn txn (wal_records (wal_file (en_wal en)))"
    and app: "log_applied (en_wal en) (en_disks en)" and new: "sees_new txn en data ds"
  shows "\<exists>n ds'. RunRecovery (wal_records data) ds = (Inr n, ds') \<and>
    (\<forall>k. en_has en k \<longrightarrow> disks_page ds' k =
       (if k \<in> DirtiedPages txn en then en_page en k else disks_page (en_disks en) k))"
proof -
  let ?D = "DirtiedPages txn en" and ?rs = "wal_records (wal_file (en_wal en))"
  let ?ws = "txn_writes ?D en"
  have pok: "pools_ok en" and dirty: "\<forall>k \<in> ?D. en_dirty en k"
    using ok by (auto simp: engine_ok_def DirtiedPages_def split: option.splits)
  have pages: "\<forall>(k, p) \<in> set ?ws. length p = 4096"
    using dirty dirty_page(1) [OF pok] by (auto simp: txn_writes_def)
  from inv obtain rs where rs: "wal_file (en_wal en) = log_bytes rs" "log_ok rs" unfolding wal_inv_def by blast
  then have recs: "?rs = rs" using wal_records_log_bytes by simp
  have data: "wal_records data = rs @ commit_log (next_lsn (en_wal en)) txn ?ws" and dok: "disks_ok ds"
    and has: "\<And>k. disks_has ds k = en_has en k"
    and other: "\<And>k. en_has en k \<Longrightarrow> k \<notin> ?D \<Longrightarrow> disks_page ds k = disks_page (en_disks en) k"
    using new recs by (auto simp: sees_new_def)
  have rok: "list_all record_ok (wal_records data)"
    using rs(2) commit_log_ok [OF pages] by (simp add: data log_ok_def)
  have old: "disks_has (en_disks en) k \<and> disks_page (en_disks en) k = img" if "last_committed_image rs k = Some img" for k img
    using app that recs inv unfolding log_applied_def wal_inv_def by (metis nle_le take_all)
  have img: "last_committed_image (wal_records data) k =
      (if k \<in> ?D then Some (en_page en k) else last_committed_image rs k)" for k
    using image_committed [of txn rs] fresh recs by (simp add: data map_of_txn_writes)
  have "disks_has ds k" if "last_committed_image (wal_records data) k = Some p" for k p
    using that old dirty dirty_page(2) [OF pok] by (auto simp: img has en_disks_has split: if_splits)
  with recover_image [OF dok rok] obtain n ds' where r: "RunRecovery (wal_records data) ds = (Inr n, ds')"
    "\<And>k. disks_has ds k \<Longrightarrow> disks_page ds' k =
       (case last_committed_image (wal_records data) k of None \<Rightarrow> disks_page ds k | Some img \<Rightarrow> img)" by blast
  have "disks_page ds' k = (if k \<in> ?D then en_page en k else disks_page (en_disks en) k)" if "en_has en k" for k
    using r(2) [of k] that has other old [of k] by (auto simp: img split: option.splits)
  with r(1) show ?thesis by blast
qed

lemma log_cut_cases:
  assumes rs: "wal_file w = log_bytes rs" "log_ok rs" and us: "list_all record_ok us"
    and n: "wal_synced w \<le> n"
  obtains (within) m where "wal_synced w \<le> m" "take n (log_bytes (rs @ us)) = take m (wal_file w)"
  | (beyond) i where "wal_records (take n (log_bytes (rs @ us))) = rs @ take i us" "i < length us"
  | (whole) "wal_records (take n (log_bytes (rs @ us))) = rs @ us"
proof (cases "n \<le> length (wal_file w)")
  case True
  then have "take n (log_bytes (rs @ us)) = take n (wal_file w)" by (simp add: rs)
  with n within show thesis by blast
next
  case False
  let ?m = "n - length (log_bytes rs)"
  have "take n (log_bytes (rs @ us)) = log_bytes rs @ take ?m (log_bytes us)" using False by (simp add: rs)
  then have "wal_records (take n (log_bytes (rs @ us))) = rs @ wal_records (take ?m (log_bytes us))"
    using rs(2) wal_records_then by (simp add: log_ok_def)
  moreover from wal_records_cut [OF us, of ?m] obtain i where "wal_records (take ?m (log_bytes us)) = take i us" by blast
  ultimately show thesis using beyond [of i] whole by (cases "i < length us") auto
qed

lemma crash_sees:
  assumes ok: "engine_ok en" and inv: "wal_inv (en_wal en)"
    and fresh: "fresh_txn txn (wal_records (wal_file (en_wal en)))"
    and app: "log_applied (en_wal en) (en_disks en)" and crash: "commit_crash tid txn en data ds"
  shows "sees_old en data ds \<or> sees_new txn en data ds"
proof -
  let ?D = "DirtiedPages txn en" and ?w = "en_wal en" and ?l = "next_lsn (en_wal en)"
  let ?ws = "txn_writes ?D en"
  have pok: "pools_ok en" and dirty: "\<forall>k \<in> ?D. en_dirty en k"
    using ok by (auto simp: engine_ok_def DirtiedPages_def split: option.splits)
  have pages: "\<forall>(k, p) \<in> set ?ws. length p = 4096"
    using dirty dirty_page(1) [OF pok] by (auto simp: txn_writes_def)
  note rok = commit_log_ok [OF pages, of ?l txn]
  from inv obtain rs where rs: "wal_file ?w = log_bytes rs" "log_ok rs" unfolding wal_inv_def by blast
  then have recs: "wal_records (wal_file ?w) = rs" using wal_records_log_bytes by simp
  have app': "disks_has (en_disks en) k \<and> disks_page (en_disks en) k = img"
    if "wal_synced ?w \<le> m" "last_committed_image (wal_records (take m (wal_file ?w))) k = Some img" for m k img
    using app that unfolding log_applied_def by blast
  have old: "sees_old en d (en_disks en)"
    if "wal_records d = rs @ update_records ?l txn (take j ?ws)" for d j
  proof -
    have "list_all record_ok (update_records ?l txn (take j ?ws))"
      using commit_log_ok [of "take j ?ws" ?l txn] pages by (auto simp: commit_log_def dest: in_set_takeD)
    moreover have "last_committed_image (wal_records d) k = last_committed_image rs k" for k
      using image_uncommitted [of txn rs] fresh recs by (simp add: that)
    moreover have "last_committed_image rs k = Some img \<longrightarrow> disks_has (en_disks en) k \<and> disks_page (en_disks en) k = img" for k img
      using app' [of "length (wal_file ?w)"] inv recs by (auto simp: wal_inv_def)
    ultimately show ?thesis using rs(2) that by (simp add: sees_old_def log_ok_def)
  qed
  have within: "sees_old en (take m (wal_file ?w)) (en_disks en)" if "wal_synced ?w \<le> m" for m
  proof -
    from rs(2) have "list_all record_ok rs" by (simp add: log_ok_def)
    from wal_records_cut [OF this, of m] obtain i where "wal_records (take m (wal_file ?w)) = take i rs" by (auto simp: rs)
    then have "list_all record_ok (wal_records (take m (wal_file ?w)))"
      using \<open>list_all record_ok rs\<close> by (auto simp: list_all_iff dest: in_set_takeD)
    with app' [OF that] show ?thesis by (simp add: sees_old_def)
  qed
  have cut: "sees_old en (take n (log_bytes (rs @ commit_log ?l txn ?ws))) (en_disks en) \<or>
      wal_records (take n (log_bytes (rs @ commit_log ?l txn ?ws))) = rs @ commit_log ?l txn ?ws"
    if n: "wal_synced ?w \<le> n" for n
    using rs rok n
  proof (cases rule: log_cut_cases)
    case (within m)
    then show ?thesis using \<open>\<And>m. wal_synced ?w \<le> m \<Longrightarrow> sees_old en (take m (wal_file ?w)) (en_disks en)\<close> by simp
  next
    case (beyond j)
    then have "take j (commit_log ?l txn ?ws) = update_records ?l txn (take j ?ws)"
      by (simp add: commit_log_def length_update_records take_update_records)
    with beyond old show ?thesis by metis
  next
    case whole
    then show ?thesis ..
  qed
  have unlogged: "sees_old en (take n (log_bytes (rs @ update_records ?l txn (take i ?ws)))) (en_disks en)"
    if n: "wal_synced ?w \<le> n" for n i
  proof -
    have us: "list_all record_ok (update_records ?l txn (take i ?ws))"
      using commit_log_ok [of "take i ?ws" ?l txn] pages by (auto simp: commit_log_def dest: in_set_takeD)
    show ?thesis
      using rs us n
    proof (cases rule: log_cut_cases)
      case (within m)
      then show ?thesis using \<open>\<And>m. wal_synced ?w \<le> m \<Longrightarrow> sees_old en (take m (wal_file ?w)) (en_disks en)\<close> by simp
    next
      case (beyond j)
      then show ?thesis using old [of _ "min j i"] by (simp add: take_update_records)
    next
      case whole
      then show ?thesis using old by simp
    qed
  qed
  have keys: "\<forall>k \<in> set (txn_keys ?D). en_dirty en k" using dirty by simp
  have ws: "map (\<lambda>k. (k, en_page en k)) (txn_keys ?D) = ?ws"
    "map (\<lambda>k. (k, en_page en k)) (take i (txn_keys ?D)) = take i ?ws" for i
    by (simp_all add: txn_writes_def take_map)
  have commit_state: "wal_file (en_wal e2) = log_bytes (rs @ commit_log ?l txn ?ws) \<and> wal_synced (en_wal e2) = wal_synced ?w \<and>
      e2 = (clear_observers tid en)\<lparr>en_wal := en_wal e2\<rparr>"
    if "for_each (txn_keys ?D) (\<lambda>k. log_update txn (key_object k) (key_page k)) (clear_observers tid en) = (Inr (), e1)"
      and "wal_op (AppendCommit txn) e1 = (Inr lsn, e2)" for e1 e2 lsn
  proof -
    note e1 = logging_state [OF pok keys that(1), unfolded ws]
    have pay: "payload_ok kCommit []" by (simp add: payload_ok_def)
    from that(2) obtain w2 where w2: "AppendRecord kCommit txn INVALID_OBJECT_ID INVALID_PAGE_ID [] (en_wal e1) = (Inr lsn, w2)"
      "e2 = e1\<lparr>en_wal := w2\<rparr>"
      by (auto simp: wal_op_def AppendCommit_def split: prod.splits)
    note a = AppendRecord_Inr(2) [OF pay w2(1)]
    show ?thesis
      by (simp add: w2(2) a e1 rs(1) commit_log_def log_bytes_def new_record_def)
  qed
  show ?thesis
    using crash
  proof cases
    case (logging i e1 n)
    have "\<forall>k \<in> set (take i (txn_keys ?D)). en_dirty en k" using keys by (auto dest: in_set_takeD)
    note e1 = logging_state [OF pok this logging(3), unfolded ws]
    then have "data = take n (log_bytes (rs @ update_records ?l txn (take i ?ws)))" "ds = en_disks en"
      using logging(1,2) by (simp_all add: rs(1))
    with unlogged [of n i] logging(4) e1 show ?thesis by simp
  next
    case (logged e1 lsn e2 n)
    note e2 = commit_state [OF logged(3,4)]
    then have ds: "ds = en_disks en" and data: "data = take n (log_bytes (rs @ commit_log ?l txn ?ws))"
      using logged(1,2) by (metis clear_observers_views(4) wal_op_view(6), simp)
    from cut [of n] logged(5) e2 show ?thesis
      using pools_ok_disks [OF pok] by (auto simp: data ds sees_new_def recs en_disks_has)
  next
    case (flushing e1 lsn e2 e3 i e4)
    note e2 = commit_state [OF flushing(3,4)]
    from flushing(5) have e3: "e3 = e2\<lparr>en_wal := en_wal e3\<rparr>" "wal_file (en_wal e3) = wal_file (en_wal e2)"
      by (auto simp: wal_op_def dest: FlushThrough_file split: prod.splits)
    obtain w where e3': "e3 = (clear_observers tid en)\<lparr>en_wal := w\<rparr>"
      using e2 e3(1) by (metis engine.surjective engine.update_convs(2))
    have "\<forall>k \<in> set (take i (txn_keys ?D)). en_pools e3 (key_object k) \<noteq> None"
      using keys by (auto simp: e3' clear_observers_def en_dirty_def dest!: in_set_takeD split: option.splits)
    from flush_keys_eq [OF _ this] pok obtain m where
      m: "e4 = e3\<lparr>en_pools := m\<rparr>" "pools_ok e4" "\<And>k. en_has e4 k = en_has en k"
      "\<And>k. en_has en k \<Longrightarrow> k \<notin> set (take i (txn_keys ?D)) \<Longrightarrow> disks_page (en_disks e4) k = disks_page (en_disks en) k"
      using flushing(6) by (auto simp: e3')
    have data: "data = log_bytes (rs @ commit_log ?l txn ?ws)" using flushing(1) m(1) e3(2) e2 by simp
    have "wal_records data = rs @ commit_log ?l txn ?ws"
      using wal_log.scan_enc_all [of "rs @ commit_log ?l txn ?ws"] rs(2) rok
      by (simp add: data wal_records_def log_bytes_def log_ok_def)
    moreover have "k \<notin> set (take i (txn_keys ?D))" if "k \<notin> ?D" for k using that by (auto dest: in_set_takeD)
    ultimately have "sees_new txn en data ds"
      using flushing(2) m(3,4) pools_ok_disks [OF m(2)] by (simp add: sees_new_def recs en_disks_has)
    then show ?thesis ..
  qed
qed

section \<open>Properties\<close>



section \<open>Transaction ids after a restart\<close>

text \<open>
  A log left by an earlier run: transaction 1 formatted page 0 of object 3 and committed, and the
  page is in the data file. The restarted engine opens this log and runs a new transaction that
  writes pages 0 and 1.
\<close>

definition old_log :: "LogRecord list" where
  "old_log = commit_log 1 1 [(PageKey 3 0, InitHeapPage 0)]"

definition two_page_disk :: disk where
  "two_page_disk = \<lparr>disk_file = InitHeapPage 0 @ blank_page, next_page_id = 2, disk_capacity = 8192\<rparr>"

definition restarted :: engine where
  "restarted = RegisterObject 3 (BufferPool_init two_page_disk)
     (TransactionManager_init (LogManager_open 20000 (log_bytes old_log)))"

definition write_and_mark :: "thread_id \<Rightarrow> ObjectId \<Rightarrow> PageId \<Rightarrow> page \<Rightarrow> (engine, unit) operation" where
  "write_and_mark tid oid pid p =
     bind_op (FetchPage_op oid pid) (\<lambda>_. bind_op (write_page_op oid pid p) (\<lambda>_. MarkDirty_op tid oid pid))"

definition rewriting :: "(engine, TxnId) operation" where
  "rewriting = bind_op (Begin 0) (\<lambda>txn. bind_op (write_and_mark 0 3 0 (InitHeapPage 7))
     (\<lambda>_. bind_op (write_and_mark 0 3 1 (InitHeapPage 8)) (\<lambda>_. return_op txn)))"

lemma old_log_ok: "list_all record_ok old_log" "log_ok old_log" "length (log_bytes old_log) = 4162"
proof -
  show ok: "list_all record_ok old_log" unfolding old_log_def by (rule commit_log_ok) (simp add: length_InitHeapPage)
  then show "log_ok old_log" by (simp add: log_ok_def old_log_def commit_log_def)
  show "length (log_bytes old_log) = 4162"
    by (simp add: old_log_def commit_log_def log_bytes_def length_record_bytes payload_of_def length_InitHeapPage)
qed

lemma restarted_wal: "en_wal restarted =
    empty_wal\<lparr>wal_file := log_bytes old_log, wal_capacity := 20000, next_lsn := 3, records_on_open := old_log\<rparr>"
proof -
  have "next_lsn (LogManager_open 20000 (log_bytes old_log)) = 3" "old_log \<noteq> []"
    using LogManager_open_scan [OF old_log_ok(1) wal_log.dec_nil, of 20000] by (simp_all add: old_log_def commit_log_def)
  then show ?thesis
    using LogManager_open_scan [OF old_log_ok(1) wal_log.dec_nil, of 20000]
    by (simp add: restarted_def RegisterObject_def TransactionManager_init_def empty_wal_def old_log_def commit_log_def)
qed

definition begin_again :: LogRecord where
  "begin_again = \<lparr>lr_lsn = 3, lr_type = kBegin, lr_txn_id = 1, lr_object_id = INVALID_OBJECT_ID,
     lr_page_id = INVALID_PAGE_ID, lr_page_image = blank_page\<rparr>"

definition rewriting_engine :: engine where
  "rewriting_engine =
     \<lparr>en_pools = [3 \<mapsto> \<lparr>bp_pages = [0 \<mapsto> InitHeapPage 7, 1 \<mapsto> InitHeapPage 8], bp_dirty = {0, 1},
                      bp_observers = [0 \<mapsto> (1, 3)], bp_disk = two_page_disk\<rparr>],
      en_wal = (en_wal restarted)\<lparr>wal_file := log_bytes (old_log @ [begin_again]), next_lsn := 4\<rparr>,
      en_locks = LockManager_init, en_active = [1 \<mapsto> {PageKey 3 0, PageKey 3 1}],
      en_next_txn = 2, en_current = [0 \<mapsto> 1], en_heaps = Map.empty\<rparr>"

lemma two_page_disk_facts:
  "disk_ok two_page_disk" "disk_page two_page_disk 0 = InitHeapPage 0" "disk_page two_page_disk 1 = blank_page"
  "disk_has two_page_disk 0" "disk_has two_page_disk 1"
  by (simp_all add: two_page_disk_def disk_ok_def disk_page_def read_bytes_def length_InitHeapPage disk_has_def)

lemma begin_again_run:
  "AppendBegin 1 (en_wal restarted) = (Inr 3, (en_wal restarted)\<lparr>next_lsn := 4, wal_file := log_bytes (old_log @ [begin_again])\<rparr>)"
proof -
  have "new_record (en_wal restarted) kBegin 1 INVALID_OBJECT_ID INVALID_PAGE_ID [] = begin_again"
    by (simp add: new_record_def begin_again_def restarted_wal)
  moreover have "length (record_bytes begin_again) = 33"
    by (simp add: length_record_bytes payload_of_def begin_again_def)
  ultimately show ?thesis
    using old_log_ok(3)
    by (simp add: AppendBegin_def AppendRecord_eq payload_ok_def Let_def restarted_wal empty_wal_def log_bytes_def)
qed

lemma rewriting_run: "rewriting restarted = (Inr 1, rewriting_engine)"
proof -
  have r: "en_pools restarted = [3 \<mapsto> BufferPool_init two_page_disk]" "en_current restarted = Map.empty"
    "en_next_txn restarted = 1" "en_active restarted = Map.empty" "en_locks restarted = LockManager_init"
    "en_heaps restarted = Map.empty"
    by (simp_all add: restarted_def RegisterObject_def TransactionManager_init_def)
  let ?e1 = "\<lparr>en_pools = [3 \<mapsto> \<lparr>bp_pages = Map.empty, bp_dirty = {}, bp_observers = [0 \<mapsto> (1, 3)], bp_disk = two_page_disk\<rparr>],
      en_wal = (en_wal restarted)\<lparr>next_lsn := 4, wal_file := log_bytes (old_log @ [begin_again])\<rparr>,
      en_locks = LockManager_init, en_active = [1 \<mapsto> {}],
      en_next_txn = 2, en_current = [0 \<mapsto> 1], en_heaps = Map.empty\<rparr>"
  have "Begin 0 restarted = (Inr 1, ?e1)"
    using begin_again_run r
    by (simp add: Begin_def GetCurrentTransaction_def Let_def bind_op_def wal_op_def
        SetCurrentTransactionForThisThread_def set_observers_def SetActiveTransactionObserver_def BufferPool_init_def fun_eq_iff)
  moreover have "write_and_mark 0 3 1 (InitHeapPage 8) (snd (write_and_mark 0 3 0 (InitHeapPage 7) ?e1)) = (Inr (), rewriting_engine)"
    "fst (write_and_mark 0 3 0 (InitHeapPage 7) ?e1) = Inr ()"
    using two_page_disk_facts
    by (simp_all add: write_and_mark_def bind_op_def FetchPage_op_def write_page_op_def MarkDirty_op_def pool_op_def
        FetchPage_def ReadPage_eq write_page_def MarkDirty_def MarkDirtyLocked_def NotifyDirty_def rewriting_engine_def
        insert_commute fun_eq_iff)
  ultimately show ?thesis
    by (cases "write_and_mark 0 3 0 (InitHeapPage 7) ?e1") (simp add: rewriting_def bind_op_def)
qed

lemma rewriting_engine_ok: "engine_ok rewriting_engine"
proof -
  have "pool_ok \<lparr>bp_pages = [0 \<mapsto> InitHeapPage 7, 1 \<mapsto> InitHeapPage 8], bp_dirty = {0, 1},
      bp_observers = [0 \<mapsto> (1, 3)], bp_disk = two_page_disk\<rparr>"
    using two_page_disk_facts by (auto simp: pool_ok_def pool_wf_def pool_has_def length_InitHeapPage split: if_splits)
  then show ?thesis
    by (auto simp: engine_ok_def pools_ok_def rewriting_engine_def lock_inv_init en_dirty_def split: if_splits)
qed

lemma rewriting_log_ok: "log_ok (old_log @ [begin_again])"
  using old_log_ok(1) by (auto simp: log_ok_def old_log_def commit_log_def begin_again_def record_ok_def)

lemma rewriting_wal: "wal_inv (en_wal rewriting_engine)"
proof -
  have "\<forall>r \<in> set (old_log @ [begin_again]). lr_lsn r < (4 :: Lsn)"
    by (auto simp: old_log_def commit_log_def begin_again_def)
  moreover have "synced_through (en_wal rewriting_engine) 0"
    using wal_records_log_bytes [OF rewriting_log_ok] rewriting_log_ok
    by (auto simp: synced_through_def rewriting_engine_def restarted_wal log_ok_def simp del: log_bytes_append)
  ultimately show ?thesis
    unfolding wal_inv_def using rewriting_log_ok
    by (intro conjI exI [of _ "old_log @ [begin_again]"]) (simp_all add: rewriting_engine_def restarted_wal empty_wal_def)
qed

lemma rewriting_log_applied: "log_applied (en_wal rewriting_engine) (en_disks rewriting_engine)"
proof -
  let ?rs = "old_log @ [begin_again]"
  have ok: "list_all record_ok ?rs" using rewriting_log_ok by (simp add: log_ok_def)
  have sub: "set (redo_writes C ?rs) \<subseteq> {(PageKey 3 0, InitHeapPage 0)}" for C
    by (auto simp: old_log_def commit_log_redo begin_again_def)
  have part: "set (redo_writes C (take i ?rs)) \<subseteq> set (redo_writes C ?rs)" for C i
    by (auto simp: redo_writes_def dest: in_set_takeD)
  have "k = PageKey 3 0 \<and> img = InitHeapPage 0"
    if "last_committed_image (wal_records (take n (log_bytes ?rs))) k = Some img" for n k img
  proof -
    from wal_records_cut [OF ok, of n] obtain i where i: "wal_records (take n (log_bytes ?rs)) = take i ?rs" by blast
    from that have "(k, img) \<in> set (redo_writes (committed_txns (take i ?rs)) (take i ?rs))"
      unfolding last_committed_image_redo i by (metis map_of_SomeD set_rev)
    with part sub show ?thesis by blast
  qed
  moreover have "disks_has (en_disks rewriting_engine) (PageKey 3 0)"
    "disks_page (en_disks rewriting_engine) (PageKey 3 0) = InitHeapPage 0"
    using two_page_disk_facts by (simp_all add: disks_has_def disks_page_def en_disks_def rewriting_engine_def)
  moreover have "wal_file (en_wal rewriting_engine) = log_bytes ?rs" by (simp add: rewriting_engine_def restarted_wal)
  ultimately show ?thesis unfolding log_applied_def by metis
qed

lemma rewriting_crash:
  "commit_crash 0 1 rewriting_engine
     (log_bytes (old_log @ [begin_again] @ update_records 4 1 [(PageKey 3 0, InitHeapPage 7)])) (en_disks rewriting_engine)"
proof -
  let ?en = "rewriting_engine" and ?D = "{PageKey 3 0, PageKey 3 1} :: PageKey set"
  have D: "DirtiedPages 1 ?en = ?D" by (simp add: DirtiedPages_def rewriting_engine_def)
  have "key_page ` {k \<in> ?D. key_object k = 3} = {0, 1}" unfolding pages_of_def [symmetric] by (rule set_eqI) simp
  then have "GroupDirtiedPagesByObject ?D = [(3, {0, 1})]" by (simp add: GroupDirtiedPagesByObject_def)
  then have keys: "txn_keys ?D = [PageKey 3 0, PageKey 3 1]" by (simp add: txn_keys_def)
  have pok: "pools_ok (clear_observers 0 ?en)" using rewriting_engine_ok by (simp add: engine_ok_def)
  have dirty: "en_dirty ?en (PageKey 3 0)" "en_page ?en (PageKey 3 0) = InitHeapPage 7"
    by (simp_all add: en_dirty_def en_page_def pool_page_def rewriting_engine_def)
  have room: "length (wal_file (en_wal ?en)) + 4129 * length [(PageKey 3 0, InitHeapPage 7)] \<le> wal_capacity (en_wal ?en)"
    using old_log_ok(3)
    by (simp add: rewriting_engine_def restarted_wal) (simp add: log_bytes_def length_record_bytes payload_of_def begin_again_def)
  have "for_each (take 1 (txn_keys ?D)) (\<lambda>k. log_update 1 (key_object k) (key_page k)) (clear_observers 0 ?en) =
      (Inr (), (clear_observers 0 ?en)\<lparr>en_wal := (en_wal ?en)\<lparr>next_lsn := next_lsn (en_wal ?en) + of_nat 1,
         wal_file := wal_file (en_wal ?en) @ log_bytes (update_records (next_lsn (en_wal ?en)) 1 [(PageKey 3 0, InitHeapPage 7)])\<rparr>\<rparr>)"
    using log_updates_eq [OF pok, of "take 1 (txn_keys ?D)" 1] dirty
      append_updates_eq [OF _ room, of 1]
    by (simp add: keys wal_op_def length_InitHeapPage)
  then have "commit_crash 0 1 ?en (take (wal_synced (en_wal ?en) + 100000)
      (wal_file (en_wal ?en) @ log_bytes (update_records (next_lsn (en_wal ?en)) 1 [(PageKey 3 0, InitHeapPage 7)]))) (en_disks ?en)"
    using commit_crash.logging [of 1 1 ?en 0 _ "wal_synced (en_wal ?en) + 100000"] by (fastforce simp: D)
  moreover have "length (wal_file (en_wal ?en) @ log_bytes (update_records (next_lsn (en_wal ?en)) 1 [(PageKey 3 0, InitHeapPage 7)])) \<le> 100000"
    using room by (simp add: rewriting_engine_def restarted_wal) (simp add: log_bytes_def length_record_bytes payload_of_def length_InitHeapPage)
  ultimately have "commit_crash 0 1 ?en (wal_file (en_wal ?en) @
      log_bytes (update_records (next_lsn (en_wal ?en)) 1 [(PageKey 3 0, InitHeapPage 7)])) (en_disks ?en)"
    by (simp only: take_all trans_le_add2)
  moreover have "wal_file (en_wal ?en) = log_bytes (old_log @ [begin_again])" "next_lsn (en_wal ?en) = 4"
    by (simp_all add: rewriting_engine_def)
  ultimately show ?thesis by (simp only: log_bytes_append append_assoc)
qed

text \<open>
  C15. Transaction ids restart at 1 when the database is reopened, while the log of the earlier run, with
  its commit records, stays. A transaction that reuses the id of a committed one and is interrupted
  in the middle of its commit is then half replayed: in this run recovery installs its page 0,
  although it never committed, and leaves page 1 as it was.
\<close>

theorem txn_id_reuse_breaks_atomicity:
  "\<exists>data n ds'. rewriting restarted = (Inr 1, rewriting_engine) \<and>
     log_applied (en_wal rewriting_engine) (en_disks rewriting_engine) \<and>
     commit_crash 0 1 rewriting_engine data (en_disks rewriting_engine) \<and>
     RunRecovery (RecordsOnOpen (LogManager_open 20000 data)) (en_disks rewriting_engine) = (Inr n, ds') \<and>
     disks_page (en_disks rewriting_engine) (PageKey 3 0) = InitHeapPage 0 \<and>
     disks_page ds' (PageKey 3 0) = InitHeapPage 7 \<and> InitHeapPage 7 \<noteq> InitHeapPage 0 \<and>
     en_page rewriting_engine (PageKey 3 1) = InitHeapPage 8 \<and>
     disks_page ds' (PageKey 3 1) = blank_page \<and> blank_page \<noteq> InitHeapPage 8"
proof -
  let ?en = "rewriting_engine" and ?k = "PageKey 3 0 :: PageKey" and ?j = "PageKey 3 1 :: PageKey"
  define rs where "rs = old_log @ [begin_again] @ update_records 4 1 [(?k, InitHeapPage 7)]"
  have ok: "list_all record_ok rs"
    using rewriting_log_ok by (simp add: rs_def log_ok_def record_ok_def length_InitHeapPage)
  have recs: "RecordsOnOpen (LogManager_open 20000 (log_bytes rs)) = rs"
    using wal_log.scan_enc_all [OF ok] unfolding RecordsOnOpen_records wal_records_def log_bytes_def by simp
  have C: "committed_txns rs = {1}"
    unfolding rs_def committed_txns_append update_records_redo old_log_def commit_log_redo
    by (simp add: committed_txns_eq begin_again_def)
  have redo: "redo_writes {1} rs = [(?k, InitHeapPage 0), (?k, InitHeapPage 7)]"
    unfolding rs_def redo_writes_simps(3) old_log_def commit_log_redo update_records_redo by (simp add: begin_again_def)
  have img: "last_committed_image rs k = (if k = ?k then Some (InitHeapPage 7) else None)" for k
    unfolding last_committed_image_redo C redo by simp
  have facts: "disks_has (en_disks ?en) ?k" "disks_has (en_disks ?en) ?j"
    "disks_page (en_disks ?en) ?k = InitHeapPage 0" "disks_page (en_disks ?en) ?j = blank_page"
    "en_page ?en ?j = InitHeapPage 8"
    using two_page_disk_facts
    by (simp_all add: disks_has_def disks_page_def en_disks_def rewriting_engine_def en_page_def pool_page_def)
  have "disks_ok (en_disks ?en)" using rewriting_engine_ok pools_ok_disks by (simp add: engine_ok_def)
  moreover have "disks_has (en_disks ?en) k" if "last_committed_image rs k = Some p" for k p
    using that facts(1) by (simp add: img split: if_splits)
  ultimately obtain n ds' where
    r: "RunRecovery rs (en_disks ?en) = (Inr n, ds')"
    "\<And>k. disks_has (en_disks ?en) k \<Longrightarrow> disks_page ds' k =
       (case last_committed_image rs k of None \<Rightarrow> disks_page (en_disks ?en) k | Some img \<Rightarrow> img)"
    using recover_image [OF _ ok] by blast
  have "disks_page ds' ?k = InitHeapPage 7" "disks_page ds' ?j = blank_page"
    using r(2) [of ?k] r(2) [of ?j] facts by (simp_all add: img)
  moreover have "InitHeapPage 7 \<noteq> InitHeapPage 0"
  proof
    assume "InitHeapPage 7 = InitHeapPage 0"
    then have "GetPageId (InitHeapPage 7) = GetPageId (InitHeapPage 0)" by simp
    then show False by (simp add: InitHeapPage_fields)
  qed
  moreover have "blank_page \<noteq> InitHeapPage 8" 
  proof
    assume "blank_page = InitHeapPage 8"
    then have "GetPageId blank_page = 8" using InitHeapPage_fields(1) [of 8] by metis
    moreover have "read_bytes blank_page 0 4 = [0, 0, 0, 0]"
      unfolding read_bytes_def blank_page_def drop_0 take_replicate by (simp add: numeral_eq_Suc)
    ultimately show False by (simp add: GetPageId_def ReadAt_def bytes_word_def)
  qed
  ultimately show ?thesis
    using rewriting_run rewriting_log_applied rewriting_crash [folded rs_def] r(1) facts recs
    by (intro exI [of _ "log_bytes rs"] exI [of _ n] exI [of _ ds']) simp
qed

end
