(* ===== verification/Sql_Syntax.thy ===== *)
theory Sql_Syntax
  imports Flint_Prelude
begin

text \<open>
  The vocabulary of the SQL front end: the tokens of \<open>src/src/sql/token.h\<close>, the column types and the
  schema records of \<open>src/src/catalog/catalog.h\<close> that the syntax tree refers to, and the syntax tree of
  \<open>src/src/sql/ast.h\<close>. Enumerators are written with the name of their enumeration, as in the code
  (\<open>TokenType.kEq\<close> beside \<open>Comparator.kEq\<close>). A signed 64-bit integer is a \<open>64 word\<close> read by \<open>sint\<close>.
\<close>

section \<open>Tokens\<close>

datatype TokenType =
    kCreate | kTable | kIndex | kOn | kInteger | kText | kPrimary | kKey | kInsert | kInto | kValues
  | kSelect | kFrom | kJoin | kWhere | kAnd | kUpdate | kSet | kDelete | kBegin | kCommit | kRollback
  | kIdentifier | kIntegerLiteral | kStringLiteral
  | kLParen | kRParen | kComma | kDot | kStar
  | kEq | kNeq | kLt | kLe | kGt | kGe
  | kSemicolon | kEndOfInput

record Token =
  tok_type :: TokenType
  tok_text :: string
  tok_int_value :: int64
  tok_position :: nat

fun TokenTypeName :: "TokenType \<Rightarrow> string" where
  "TokenTypeName kCreate = ''CREATE''"
| "TokenTypeName kTable = ''TABLE''"
| "TokenTypeName kIndex = ''INDEX''"
| "TokenTypeName kOn = ''ON''"
| "TokenTypeName kInteger = ''INTEGER''"
| "TokenTypeName kText = ''TEXT''"
| "TokenTypeName kPrimary = ''PRIMARY''"
| "TokenTypeName kKey = ''KEY''"
| "TokenTypeName kInsert = ''INSERT''"
| "TokenTypeName kInto = ''INTO''"
| "TokenTypeName kValues = ''VALUES''"
| "TokenTypeName kSelect = ''SELECT''"
| "TokenTypeName kFrom = ''FROM''"
| "TokenTypeName kJoin = ''JOIN''"
| "TokenTypeName kWhere = ''WHERE''"
| "TokenTypeName kAnd = ''AND''"
| "TokenTypeName kUpdate = ''UPDATE''"
| "TokenTypeName kSet = ''SET''"
| "TokenTypeName kDelete = ''DELETE''"
| "TokenTypeName kBegin = ''BEGIN''"
| "TokenTypeName kCommit = ''COMMIT''"
| "TokenTypeName kRollback = ''ROLLBACK''"
| "TokenTypeName kIdentifier = ''IDENTIFIER''"
| "TokenTypeName kIntegerLiteral = ''INTEGER_LITERAL''"
| "TokenTypeName kStringLiteral = ''STRING_LITERAL''"
| "TokenTypeName kLParen = [CHR 0x27, CHR ''('', CHR 0x27]"
| "TokenTypeName kRParen = [CHR 0x27, CHR '')'', CHR 0x27]"
| "TokenTypeName kComma = [CHR 0x27, CHR '','', CHR 0x27]"
| "TokenTypeName kDot = [CHR 0x27, CHR ''.'', CHR 0x27]"
| "TokenTypeName kStar = [CHR 0x27, CHR ''*'', CHR 0x27]"
| "TokenTypeName kEq = [CHR 0x27, CHR ''='', CHR 0x27]"
| "TokenTypeName kNeq = [CHR 0x27, CHR ''!'', CHR ''='', CHR 0x27]"
| "TokenTypeName kLt = [CHR 0x27, CHR ''<'', CHR 0x27]"
| "TokenTypeName kLe = [CHR 0x27, CHR ''<'', CHR ''='', CHR 0x27]"
| "TokenTypeName kGt = [CHR 0x27, CHR ''>'', CHR 0x27]"
| "TokenTypeName kGe = [CHR 0x27, CHR ''>'', CHR ''='', CHR 0x27]"
| "TokenTypeName kSemicolon = [CHR 0x27, CHR '';'', CHR 0x27]"
| "TokenTypeName kEndOfInput = ''end of input''"

section \<open>Columns and literals\<close>

datatype ColumnType = kInteger | kText

record ColumnDef =
  col_name :: string
  col_type :: ColumnType

datatype LiteralKind = kInteger | kString

record LiteralValue =
  lit_kind :: LiteralKind
  lit_int_value :: int64
  lit_string_value :: string

record ColumnRef =
  ref_table_name :: "string option"
  ref_column_name :: string

datatype Comparator = kEq | kNeq | kLt | kLe | kGt | kGe

record Predicate =
  pred_column :: ColumnRef
  pred_op :: Comparator
  pred_value :: LiteralValue

record Assignment =
  asg_column_name :: string
  asg_value :: LiteralValue

section \<open>Statements\<close>

record JoinClause =
  join_table_name :: string
  join_left_column :: ColumnRef
  join_right_column :: ColumnRef

record CreateTableStatement =
  ct_table_name :: string
  ct_columns :: "ColumnDef list"
  ct_primary_key_column :: "string option"

record CreateIndexStatement =
  ci_index_name :: string
  ci_table_name :: string
  ci_column_name :: string

record InsertStatement =
  ins_table_name :: string
  ins_values :: "LiteralValue list"

record SelectStatement =
  sel_star :: bool
  sel_list :: "ColumnRef list"
  sel_from_table :: string
  sel_join :: "JoinClause option"
  sel_where :: "Predicate list"

record UpdateStatement =
  upd_table_name :: string
  upd_assignments :: "Assignment list"
  upd_where :: "Predicate list"

record DeleteStatement =
  del_table_name :: string
  del_where :: "Predicate list"

datatype Statement =
    CreateTable_stmt CreateTableStatement
  | CreateIndex_stmt CreateIndexStatement
  | Insert_stmt InsertStatement
  | Select_stmt SelectStatement
  | Update_stmt UpdateStatement
  | Delete_stmt DeleteStatement
  | BeginStatement
  | CommitStatement
  | RollbackStatement

text \<open>The literals the parser builds leave the member of the other kind at its default.\<close>

definition int_literal :: "int64 \<Rightarrow> LiteralValue" where
  "int_literal v = \<lparr>lit_kind = LiteralKind.kInteger, lit_int_value = v, lit_string_value = []\<rparr>"

definition string_literal :: "string \<Rightarrow> LiteralValue" where
  "string_literal s = \<lparr>lit_kind = LiteralKind.kString, lit_int_value = 0, lit_string_value = s\<rparr>"

lemma literal_fields [simp]:
  "lit_kind (int_literal v) = LiteralKind.kInteger" "lit_int_value (int_literal v) = v"
  "lit_kind (string_literal s) = LiteralKind.kString" "lit_string_value (string_literal s) = s"
  "lit_string_value (int_literal v) = []" "lit_int_value (string_literal s) = 0"
  by (simp_all add: int_literal_def string_literal_def)

end
