(* ===== verification/Decimal_Text.thy ===== *)
theory Decimal_Text
  imports Flint_Prelude
begin

text \<open>
  Characters and decimal numerals as the C++ library treats them in the "C" locale: \<open>std::isalpha\<close>,
  \<open>std::isalnum\<close>, \<open>std::isdigit\<close> and \<open>std::toupper\<close>, the numerals written by \<open>ostream <<\<close> and
  \<open>std::to_string\<close>, and the value read back from a run of digits. Shared by the lexer and the
  catalog's metadata file.
\<close>

definition isdigit :: "char \<Rightarrow> bool" where
  "isdigit c \<longleftrightarrow> 48 \<le> (of_char c :: nat) \<and> (of_char c :: nat) \<le> 57"

definition isalpha :: "char \<Rightarrow> bool" where
  "isalpha c \<longleftrightarrow> 65 \<le> (of_char c :: nat) \<and> (of_char c :: nat) \<le> 90 \<or>
     97 \<le> (of_char c :: nat) \<and> (of_char c :: nat) \<le> 122"

definition isalnum :: "char \<Rightarrow> bool" where
  "isalnum c \<longleftrightarrow> isalpha c \<or> isdigit c"

definition toupper :: "char \<Rightarrow> char" where
  "toupper c = (if 97 \<le> (of_char c :: nat) \<and> (of_char c :: nat) \<le> 122 then char_of ((of_char c :: nat) - 32) else c)"

lemma isdigit_not_alpha: "isdigit c \<Longrightarrow> \<not> isalpha c"
  by (auto simp: isdigit_def isalpha_def)

section \<open>Decimal numerals\<close>

definition digit_char :: "nat \<Rightarrow> char" where
  "digit_char d = char_of (48 + d)"

fun decimal :: "nat \<Rightarrow> string" where
  "decimal n = (if n < 10 then [digit_char n] else decimal (n div 10) @ [digit_char (n mod 10)])"

declare decimal.simps [simp del]

definition digits_value :: "string \<Rightarrow> nat" where
  "digits_value ds = foldl (\<lambda>v c. 10 * v + (of_char c - 48)) 0 ds"

lemma of_char_digit: "d < 10 \<Longrightarrow> of_char (digit_char d) = 48 + d"
  by (simp add: digit_char_def)

lemma isdigit_digit_char [simp]: "d < 10 \<Longrightarrow> isdigit (digit_char d)"
  by (simp add: isdigit_def of_char_digit)

lemma digits_value_snoc: "digits_value (ds @ [c]) = 10 * digits_value ds + (of_char c - 48)"
  by (simp add: digits_value_def)

lemma digits_value_decimal [simp]: "digits_value (decimal n) = n"
proof (induction n rule: decimal.induct)
  case (1 n)
  show ?case
  proof (cases "n < 10")
    case True
    then show ?thesis by (subst decimal.simps) (simp add: digits_value_def of_char_digit)
  next
    case False
    with 1 show ?thesis by (subst decimal.simps) (simp add: digits_value_snoc of_char_digit)
  qed
qed

lemma decimal_digits: "list_all isdigit (decimal n)"
proof (induction n rule: decimal.induct)
  case (1 n)
  then show ?case by (subst decimal.simps) simp
qed

lemma decimal_nonempty [simp]: "decimal n \<noteq> []"
  by (subst decimal.simps) simp

lemma decimal_isdigit: "c \<in> set (decimal n) \<Longrightarrow> isdigit c"
  using decimal_digits [of n] by (simp add: list_all_iff)

text \<open>\<open>std::stoll\<close> on an optional minus sign and digits; \<open>None\<close> is the \<open>out_of_range\<close> exception.\<close>

definition stoll :: "string \<Rightarrow> int64 option" where
  "stoll ds =
     (let v = (case ds of
                 [] \<Rightarrow> 0
               | c # cs \<Rightarrow> if c = CHR ''-'' then - int (digits_value cs) else int (digits_value ds))
      in if - (2 ^ 63) \<le> v \<and> v < 2 ^ 63 then Some (word_of_int v) else None)"

definition int_text :: "int64 \<Rightarrow> string" where
  "int_text v = (if sint v < 0 then CHR ''-'' # decimal (nat (- sint v)) else decimal (nat (sint v)))"

lemma sint_bounds64: "- (2 ^ 63) \<le> sint (v :: int64)" "sint (v :: int64) < 2 ^ 63"
  using sint_greater_eq [of v] sint_less [of v] by simp_all

lemma stoll_int_text: "stoll (int_text v) = Some v"
proof -
  have b: "- (2 ^ 63) \<le> sint v" "sint v < 2 ^ 63" by (rule sint_bounds64)+
  have nosign: "decimal n \<noteq> CHR ''-'' # cs" for n cs
    using decimal_isdigit [of "CHR ''-''" n] by (auto simp: isdigit_def)
  show ?thesis
  proof (cases "sint v < 0")
    case True
    with b show ?thesis by (simp add: stoll_def int_text_def Let_def)
  next
    case False
    obtain c cs where d: "decimal (nat (sint v)) = c # cs" by (meson decimal_nonempty list.exhaust)
    then have "c \<noteq> CHR ''-''" using nosign by auto
    moreover have "digits_value (c # cs) = nat (sint v)" using digits_value_decimal [of "nat (sint v)"] d by simp
    ultimately have "(case decimal (nat (sint v)) of [] \<Rightarrow> 0 | c # cs \<Rightarrow> if c = CHR ''-'' then - int (digits_value cs)
        else int (digits_value (decimal (nat (sint v))))) = sint v"
      using False d by simp
    with False b show ?thesis by (simp add: stoll_def int_text_def Let_def)
  qed
qed

end
