(* ===== verification/Lexer.thy ===== *)
theory Lexer
  imports Sql_Syntax Decimal_Text "HOL-Library.Sublist"
begin

text \<open>
  The lexer of \<open>src/src/sql/lexer.cpp\<close>. The loop of \<open>Tokenize\<close> is a recursion on the unread input with
  the byte offset \<open>pos\<close> beside it; one iteration that produces a token is \<open>lex_token\<close>. The specification
  is a layout: the source is the spellings of the tokens with white space between them, so nothing is
  dropped, reordered or misplaced; and every printed token sequence is read back.
\<close>

section \<open>The lexer\<close>

definition KeywordTable :: "(string \<times> TokenType) list" where
  "KeywordTable =
     [(''CREATE'', kCreate), (''TABLE'', kTable), (''INDEX'', kIndex), (''ON'', kOn),
      (''INTEGER'', TokenType.kInteger), (''TEXT'', TokenType.kText), (''PRIMARY'', kPrimary), (''KEY'', kKey),
      (''INSERT'', kInsert), (''INTO'', kInto), (''VALUES'', kValues), (''SELECT'', kSelect),
      (''FROM'', kFrom), (''JOIN'', kJoin), (''WHERE'', kWhere), (''AND'', kAnd),
      (''UPDATE'', kUpdate), (''SET'', kSet), (''DELETE'', kDelete), (''BEGIN'', kBegin),
      (''COMMIT'', kCommit), (''ROLLBACK'', kRollback)]"

definition IsIdentStart :: "char \<Rightarrow> bool" where
  "IsIdentStart c \<longleftrightarrow> isalpha c \<or> c = CHR ''_''"

definition IsIdentCont :: "char \<Rightarrow> bool" where
  "IsIdentCont c \<longleftrightarrow> isalnum c \<or> c = CHR ''_''"

abbreviation IsDigit :: "char \<Rightarrow> bool" where
  "IsDigit \<equiv> isdigit"

definition ToUpper :: "string \<Rightarrow> string" where
  "ToUpper s = map toupper s"

abbreviation (input) quote :: char where
  "quote \<equiv> CHR 0x27"

definition is_space :: "char \<Rightarrow> bool" where
  "is_space c \<longleftrightarrow> c = CHR '' '' \<or> c = CHR 0x09 \<or> c = CHR 0x0A \<or> c = CHR 0x0D"

text \<open>The body of a string literal after the opening quote: its decoded value and what follows the closing quote.\<close>

fun string_body :: "string \<Rightarrow> (string \<times> string) option" where
  "string_body [] = None"
| "string_body (c # cs) =
     (if c = quote then
        (case cs of
           [] \<Rightarrow> Some ([], [])
         | d # ds \<Rightarrow> if d = quote then map_option (\<lambda>(v, r). (quote # v, r)) (string_body ds) else Some ([], cs))
      else map_option (\<lambda>(v, r). (c # v, r)) (string_body cs))"

definition mk_token :: "TokenType \<Rightarrow> string \<Rightarrow> int64 \<Rightarrow> nat \<Rightarrow> Token" where
  "mk_token ty text v pos = \<lparr>tok_type = ty, tok_text = text, tok_int_value = v, tok_position = pos\<rparr>"

text \<open>The single-character cases of the switch.\<close>

definition punctuation :: "char \<Rightarrow> TokenType option" where
  "punctuation c = map_of
     [(CHR ''('', kLParen), (CHR '')'', kRParen), (CHR '','', kComma), (CHR ''.'', kDot), (CHR ''*'', kStar),
      (CHR '';'', kSemicolon)] c"

text \<open>The word that starts at \<open>c\<close>: a keyword if its upper-case spelling is in the table.\<close>

definition word_type :: "string \<Rightarrow> TokenType" where
  "word_type w = (case map_of KeywordTable (ToUpper w) of Some k \<Rightarrow> k | None \<Rightarrow> kIdentifier)"

definition lex_word :: "nat \<Rightarrow> char \<Rightarrow> string \<Rightarrow> Token \<times> string" where
  "lex_word pos c cs =
     (let word = c # takeWhile IsIdentCont cs
      in (mk_token (word_type word) word 0 pos, dropWhile IsIdentCont cs))"

definition lex_integer :: "nat \<Rightarrow> char \<Rightarrow> string \<Rightarrow> exn + Token \<times> string" where
  "lex_integer pos c cs =
     (let digits = c # takeWhile IsDigit cs
      in case stoll digits of
           Some v \<Rightarrow> Inr (mk_token kIntegerLiteral digits v pos, dropWhile IsDigit cs)
         | None \<Rightarrow> Inl (Sql_syntax_error pos))"

definition lex_string :: "nat \<Rightarrow> string \<Rightarrow> exn + Token \<times> string" where
  "lex_string pos cs =
     (case string_body cs of
        None \<Rightarrow> Inl (Sql_syntax_error pos)
      | Some (v, rest) \<Rightarrow> Inr (mk_token kStringLiteral v 0 pos, rest))"

definition lex_comparator :: "nat \<Rightarrow> char \<Rightarrow> string \<Rightarrow> exn + Token \<times> string" where
  "lex_comparator pos c cs =
     (let eq_next = (cs \<noteq> [] \<and> hd cs = CHR ''='')
      in if c = CHR ''='' then Inr (mk_token TokenType.kEq ''='' 0 pos, cs)
         else if c = CHR ''!'' then
           (if eq_next then Inr (mk_token TokenType.kNeq ''!='' 0 pos, tl cs) else Inl (Sql_syntax_error pos))
         else if c = CHR ''<'' then
           (if eq_next then Inr (mk_token TokenType.kLe ''<='' 0 pos, tl cs) else Inr (mk_token TokenType.kLt ''<'' 0 pos, cs))
         else if c = CHR ''>'' then
           (if eq_next then Inr (mk_token TokenType.kGe ''>='' 0 pos, tl cs) else Inr (mk_token TokenType.kGt ''>'' 0 pos, cs))
         else Inl (Sql_syntax_error pos))"

definition lex_token :: "nat \<Rightarrow> char \<Rightarrow> string \<Rightarrow> exn + Token \<times> string" where
  "lex_token pos c cs =
     (if IsIdentStart c then Inr (lex_word pos c cs)
      else if IsDigit c \<or> c = CHR ''-'' \<and> cs \<noteq> [] \<and> IsDigit (hd cs) then lex_integer pos c cs
      else if c = quote then lex_string pos cs
      else case punctuation c of
             Some ty \<Rightarrow> Inr (mk_token ty [c] 0 pos, cs)
           | None \<Rightarrow> lex_comparator pos c cs)"

lemma string_body_shorter: "string_body cs = Some (v, r) \<Longrightarrow> length r < length cs"
proof (induction cs arbitrary: v rule: string_body.induct)
  case (2 c cs)
  then show ?case by (fastforce split: if_splits list.splits)
qed simp

lemma lex_token_shorter: "lex_token pos c cs = Inr (t, rest) \<Longrightarrow> length rest \<le> length cs"
  by (auto simp: lex_token_def lex_word_def lex_integer_def lex_string_def lex_comparator_def Let_def
      length_dropWhile_le dest: string_body_shorter split: if_splits option.splits)

function lex_from :: "nat \<Rightarrow> string \<Rightarrow> exn + Token list" where
  "lex_from pos [] = Inr [mk_token kEndOfInput [] 0 pos]"
| "lex_from pos (c # cs) =
     (if is_space c then lex_from (pos + 1) cs
      else case lex_token pos c cs of
             Inl e \<Rightarrow> Inl e
           | Inr (t, rest) \<Rightarrow>
               map_sum id ((#) t) (lex_from (pos + (length (c # cs) - length rest)) rest))"
  by pat_completeness auto
termination
  by (relation "measure (length \<circ> snd)") (auto dest: lex_token_shorter)

definition Tokenize :: "string \<Rightarrow> exn + Token list" where
  "Tokenize sql = lex_from 0 sql"

section \<open>Spellings\<close>

definition escape :: "string \<Rightarrow> string" where
  "escape s = concat (map (\<lambda>c. if c = quote then [quote, quote] else [c]) s)"

definition show_token :: "Token \<Rightarrow> string" where
  "show_token t = (if tok_type t = kStringLiteral then quote # escape (tok_text t) @ [quote] else tok_text t)"

definition is_word :: "string \<Rightarrow> bool" where
  "is_word s \<longleftrightarrow> s \<noteq> [] \<and> IsIdentStart (hd s) \<and> list_all IsIdentCont (tl s)"

definition is_integer :: "string \<Rightarrow> bool" where
  "is_integer s \<longleftrightarrow> s \<noteq> [] \<and> list_all IsDigit (tl s) \<and> (IsDigit (hd s) \<or> hd s = CHR ''-'' \<and> tl s \<noteq> [])"

definition symbol_text :: "TokenType \<Rightarrow> string option" where
  "symbol_text ty = map_of
     [(kLParen, ''(''), (kRParen, '')''), (kComma, '',''), (kDot, ''.''), (kStar, ''*''), (kSemicolon, '';''),
      (TokenType.kEq, ''=''), (TokenType.kNeq, ''!=''), (TokenType.kLt, ''<''), (TokenType.kLe, ''<=''),
      (TokenType.kGt, ''>''), (TokenType.kGe, ''>='')] ty"

definition valid_token :: "Token \<Rightarrow> bool" where
  "valid_token t \<longleftrightarrow>
     (if tok_type t = kStringLiteral then tok_int_value t = 0
      else if tok_type t = kIntegerLiteral then is_integer (tok_text t) \<and> stoll (tok_text t) = Some (tok_int_value t)
      else tok_int_value t = 0 \<and>
        (case symbol_text (tok_type t) of
           Some s \<Rightarrow> tok_text t = s
         | None \<Rightarrow> is_word (tok_text t) \<and> word_type (tok_text t) = tok_type t))"

definition word_kind :: "TokenType \<Rightarrow> bool" where
  "word_kind ty \<longleftrightarrow> ty \<notin> {kStringLiteral, kIntegerLiteral, kEndOfInput} \<and> symbol_text ty = None"

lemma word_kinds: "list_all word_kind (map snd KeywordTable)" "word_kind kIdentifier"
  by (simp_all add: KeywordTable_def word_kind_def symbol_text_def)

lemma word_type_kind: "word_kind (word_type w)"
proof (cases "map_of KeywordTable (ToUpper w)")
  case (Some k)
  then have "(ToUpper w, k) \<in> set KeywordTable" by (rule map_of_SomeD)
  with word_kinds(1) have "word_kind k" by (auto simp: list_all_iff)
  with Some show ?thesis by (simp add: word_type_def)
qed (simp add: word_type_def word_kinds)

lemma word_type_range:
  "word_type w \<noteq> kStringLiteral" "word_type w \<noteq> kIntegerLiteral" "symbol_text (word_type w) = None"
  "word_type w \<noteq> kEndOfInput"
  using word_type_kind [of w] by (simp_all add: word_kind_def)

lemma punctuation_cases:
  assumes "punctuation c = Some ty"
  shows "symbol_text ty = Some [c]" and "ty \<noteq> kStringLiteral" and "ty \<noteq> kIntegerLiteral"
  using assms by (auto simp: punctuation_def symbol_text_def split: if_splits)

lemma string_body_eq: "string_body cs = Some (v, r) \<Longrightarrow> cs = escape v @ quote # r"
proof (induction cs arbitrary: v rule: string_body.induct)
  case (2 c cs)
  consider (plain) "c \<noteq> quote" | (last) "c = quote" "cs = []" | (esc) ds where "c = quote" "cs = quote # ds"
    | (stop) d ds where "c = quote" "cs = d # ds" "d \<noteq> quote"
    by (cases cs) auto
  then show ?case
  proof cases
    case plain
    with "2.prems" obtain v' where "string_body cs = Some (v', r)" "v = c # v'" by auto
    with "2.IH"(2) [OF plain] plain show ?thesis by (simp add: escape_def)
  next
    case last
    with "2.prems" show ?thesis by (simp add: escape_def)
  next
    case (esc ds)
    with "2.prems" obtain v' where "string_body ds = Some (v', r)" "v = quote # v'" by auto
    with "2.IH"(1) [OF esc refl] esc show ?thesis by (simp add: escape_def)
  next
    case (stop d ds)
    with "2.prems" show ?thesis by (simp add: escape_def)
  qed
qed simp

lemma string_body_escape: "rest = [] \<or> hd rest \<noteq> quote \<Longrightarrow> string_body (escape v @ quote # rest) = Some (v, rest)"
proof (induction v)
  case Nil
  then show ?case by (cases rest) (auto simp: escape_def)
next
  case (Cons c v)
  then show ?case by (simp add: escape_def)
qed

lemma comparator_sound:
  assumes "lex_comparator pos c cs = Inr (t, rest)"
  shows "valid_token t \<and> tok_position t = pos \<and> c # cs = show_token t @ rest"
  using assms
  by (cases cs) (auto simp: lex_comparator_def Let_def valid_token_def show_token_def mk_token_def symbol_text_def split: if_splits)

lemma word_sound:
  assumes "IsIdentStart c" and "lex_word pos c cs = (t, rest)"
  shows "valid_token t \<and> tok_position t = pos \<and> c # cs = show_token t @ rest"
  using assms word_type_range [of "c # takeWhile IsIdentCont cs"]
  by (auto simp: lex_word_def Let_def valid_token_def show_token_def mk_token_def is_word_def list_all_iff
      dest: set_takeWhileD)

lemma integer_sound:
  assumes "IsDigit c \<or> c = CHR ''-'' \<and> cs \<noteq> [] \<and> IsDigit (hd cs)" and "lex_integer pos c cs = Inr (t, rest)"
  shows "valid_token t \<and> tok_position t = pos \<and> c # cs = show_token t @ rest"
  using assms
  by (cases cs) (auto simp: lex_integer_def Let_def valid_token_def show_token_def mk_token_def is_integer_def
      list_all_iff split: option.splits if_splits dest: set_takeWhileD)

lemma string_sound:
  assumes "lex_string pos cs = Inr (t, rest)"
  shows "valid_token t \<and> tok_position t = pos \<and> quote # cs = show_token t @ rest"
  using assms string_body_eq [of cs]
  by (auto simp: lex_string_def valid_token_def show_token_def mk_token_def split: option.splits)

lemma lex_token_sound:
  assumes "lex_token pos c cs = Inr (t, rest)"
  shows "valid_token t \<and> tok_position t = pos \<and> c # cs = show_token t @ rest"
proof (cases "punctuation c")
  case None
  with assms show ?thesis
    using comparator_sound word_sound integer_sound string_sound
    by (auto simp: lex_token_def split: if_splits)
next
  case (Some ty)
  have "valid_token (mk_token ty [c] 0 pos) \<and> show_token (mk_token ty [c] 0 pos) = [c]"
    using punctuation_cases [OF Some] by (simp add: valid_token_def show_token_def mk_token_def)
  with assms Some show ?thesis
    using comparator_sound word_sound integer_sound string_sound
    by (auto simp: lex_token_def mk_token_def split: if_splits)
qed

lemma takeWhile_stop: "list_all P xs \<Longrightarrow> \<not> P b \<Longrightarrow> takeWhile P (xs @ b # ys) = xs \<and> dropWhile P (xs @ b # ys) = b # ys"
  by (induction xs) auto

lemma space_facts:
  assumes "is_space b"
  shows "\<not> IsIdentCont b" and "\<not> IsDigit b" and "b \<noteq> quote" and "b \<noteq> CHR ''=''" and "\<not> IsIdentStart b"
    and "b \<noteq> CHR ''-''"
  using assms by (auto simp: is_space_def IsIdentCont_def IsIdentStart_def isalnum_def isalpha_def isdigit_def)

lemma char_class_simps:
  "IsIdentStart (CHR ''('') = False" "IsIdentStart (CHR '')'') = False" "IsIdentStart (CHR '','') = False"
  "IsIdentStart (CHR ''.'') = False" "IsIdentStart (CHR ''*'') = False" "IsIdentStart (CHR '';'') = False"
  "IsIdentStart (CHR ''='') = False" "IsIdentStart (CHR ''!'') = False" "IsIdentStart (CHR ''<'') = False"
  "IsIdentStart (CHR ''>'') = False"
  "IsDigit (CHR ''('') = False" "IsDigit (CHR '')'') = False" "IsDigit (CHR '','') = False"
  "IsDigit (CHR ''.'') = False" "IsDigit (CHR ''*'') = False" "IsDigit (CHR '';'') = False"
  "IsDigit (CHR ''='') = False" "IsDigit (CHR ''!'') = False" "IsDigit (CHR ''<'') = False"
  "IsDigit (CHR ''>'') = False"
  by (simp_all add: IsIdentStart_def isalpha_def isdigit_def)

lemma lex_symbol:
  assumes "symbol_text ty = Some s" and "is_space b"
  shows "s = hd s # tl s" and "\<not> is_space (hd s)"
    and "lex_token pos (hd s) (tl s @ b # rest) = Inr (mk_token ty s 0 pos, b # rest)"
proof -
  have b: "b \<noteq> CHR ''=''" using space_facts(4) [OF assms(2)] .
  show "s = hd s # tl s" using assms(1) by (cases ty) (auto simp: symbol_text_def)
  show "\<not> is_space (hd s)" using assms(1) by (cases ty) (auto simp: symbol_text_def is_space_def)
  show "lex_token pos (hd s) (tl s @ b # rest) = Inr (mk_token ty s 0 pos, b # rest)"
    using assms(1) b
    by (cases ty) (auto simp: symbol_text_def lex_token_def punctuation_def lex_comparator_def char_class_simps)
qed

text \<open>A token followed by white space is read back from its spelling.\<close>

lemma lex_token_show:
  assumes v: "valid_token t" and b: "is_space b"
  obtains c cs where "show_token t = c # cs" "\<not> is_space c"
    "lex_token pos c (cs @ b # rest) = Inr (t\<lparr>tok_position := pos\<rparr>, b # rest)"
proof -
  have t: "t\<lparr>tok_position := pos\<rparr> = mk_token (tok_type t) (tok_text t) (tok_int_value t) pos"
    by (cases t) (simp add: mk_token_def)
  note sp = space_facts [OF b]
  consider (str) "tok_type t = kStringLiteral" | (int) "tok_type t = kIntegerLiteral"
    | (sym) s where "symbol_text (tok_type t) = Some s" "tok_type t \<noteq> kStringLiteral" "tok_type t \<noteq> kIntegerLiteral"
    | (word) "symbol_text (tok_type t) = None" "tok_type t \<noteq> kStringLiteral" "tok_type t \<noteq> kIntegerLiteral"
    by fastforce
  then show thesis
  proof cases
    case str
    have "string_body ((escape (tok_text t) @ [quote]) @ b # rest) = Some (tok_text t, b # rest)"
      using sp(3) by (simp add: string_body_escape)
    moreover have "\<not> IsIdentStart quote" "\<not> IsDigit quote" "\<not> is_space quote"
      by (auto simp: IsIdentStart_def isalpha_def isdigit_def is_space_def)
    ultimately show thesis
      using v str t by (intro that [of quote "escape (tok_text t) @ [quote]"])
        (simp_all add: show_token_def valid_token_def lex_token_def lex_string_def)
  next
    case int
    then have i: "is_integer (tok_text t)" "stoll (tok_text t) = Some (tok_int_value t)" using v by (auto simp: valid_token_def)
    then obtain c cs where cs: "tok_text t = c # cs" "list_all IsDigit cs" "IsDigit c \<or> c = CHR ''-'' \<and> cs \<noteq> []"
      by (cases "tok_text t") (auto simp: is_integer_def)
    have tw: "takeWhile IsDigit (cs @ b # rest) = cs" "dropWhile IsDigit (cs @ b # rest) = b # rest"
      using takeWhile_stop [OF cs(2) sp(2)] by auto
    have "IsDigit c \<or> c = CHR ''-'' \<and> cs @ b # rest \<noteq> [] \<and> IsDigit (hd (cs @ b # rest))"
      using cs by (cases cs) auto
    moreover have "\<not> IsIdentStart c" "\<not> is_space c"
      using cs(3) isdigit_not_alpha [of c] by (auto simp: IsIdentStart_def isalpha_def isdigit_def is_space_def)
    ultimately show thesis
      using int i(2) t cs(1) tw by (intro that [of c cs]) (simp_all add: show_token_def lex_token_def lex_integer_def)
  next
    case sym
    then have s: "show_token t = s" "tok_text t = s" "tok_int_value t = 0" using v by (auto simp: valid_token_def show_token_def)
    with lex_symbol [OF sym(1) b] t show thesis by (intro that [of "hd s" "tl s"]) simp_all
  next
    case word
    then have w: "is_word (tok_text t)" "word_type (tok_text t) = tok_type t" "tok_int_value t = 0"
      using v by (auto simp: valid_token_def)
    then obtain c cs where cs: "tok_text t = c # cs" "IsIdentStart c" "list_all IsIdentCont cs"
      by (cases "tok_text t") (auto simp: is_word_def)
    have "takeWhile IsIdentCont (cs @ b # rest) = cs" "dropWhile IsIdentCont (cs @ b # rest) = b # rest"
      using takeWhile_stop [OF cs(3) sp(1)] by auto
    moreover have "\<not> is_space c" using cs(2) space_facts(5) by blast
    ultimately show thesis
      using w t cs word by (intro that [of c cs]) (simp_all add: show_token_def lex_token_def lex_word_def Let_def)
  qed
qed

section \<open>Properties of the lexer\<close>

text \<open>
  The source is laid out as the tokens: white space, the spelling of the first token at its recorded
  position, white space, and so on, with white space at the end.
\<close>

fun layout :: "nat \<Rightarrow> Token list \<Rightarrow> string \<Rightarrow> bool" where
  "layout pos [] s \<longleftrightarrow> list_all is_space s"
| "layout pos (t # ts) s \<longleftrightarrow>
     (let gap = length (takeWhile is_space s); n = length (show_token t)
      in tok_position t = pos + gap \<and> take n (drop gap s) = show_token t \<and>
         layout (pos + gap + n) ts (drop (gap + n) s))"

lemma layout_space: "is_space c \<Longrightarrow> layout (pos + 1) ts cs \<Longrightarrow> layout pos ts (c # cs)"
  by (cases ts) (auto simp: Let_def)

lemma lex_token_error: "lex_token pos c cs = Inl e \<Longrightarrow> e = Sql_syntax_error pos"
  by (auto simp: lex_token_def lex_integer_def lex_string_def lex_comparator_def Let_def split: if_splits option.splits)

lemma lex_from_layout:
  "lex_from pos s = Inr ts \<Longrightarrow>
   \<exists>us. ts = us @ [mk_token kEndOfInput [] 0 (pos + length s)] \<and> layout pos us s \<and> list_all valid_token us"
proof (induction pos s arbitrary: ts rule: lex_from.induct)
  case (1 pos)
  then show ?case by (intro exI [of _ "[]"]) simp
next
  case (2 pos c cs)
  show ?case
  proof (cases "is_space c")
    case True
    with "2.prems" have "lex_from (pos + 1) cs = Inr ts" by simp
    from "2.IH"(1) [OF True this] obtain us where
      "ts = us @ [mk_token kEndOfInput [] 0 (pos + 1 + length cs)]" "layout (pos + 1) us cs" "list_all valid_token us" by blast
    with layout_space [OF True, of pos us cs] show ?thesis by (intro exI [of _ us]) simp
  next
    case False
    with "2.prems" obtain t rest where lt: "lex_token pos c cs = Inr (t, rest)" by (auto split: sum.splits)
    let ?p = "pos + (length (c # cs) - length rest)"
    from "2.prems" False lt obtain ts' where rec: "lex_from ?p rest = Inr ts'" and ts: "ts = t # ts'"
      by (cases "lex_from ?p rest") auto
    from "2.IH"(2) [OF False lt refl rec] obtain us where
      us: "ts' = us @ [mk_token kEndOfInput [] 0 (?p + length rest)]" "layout ?p us rest" "list_all valid_token us" by blast
    note sound = lex_token_sound [OF lt]
    have len: "length (c # cs) - length rest = length (show_token t)" "length rest \<le> length (c # cs)"
      using sound by simp_all
    have gap: "takeWhile is_space (c # cs) = []" using False by simp
    have "layout pos (t # us) (c # cs)"
      unfolding layout.simps gap using sound us(2) len by (simp add: Let_def)
    with us sound len ts show ?thesis by (intro exI [of _ "t # us"]) (simp add: add.assoc)
  qed
qed

lemma lex_from_error:
  "lex_from pos s = Inl e \<Longrightarrow> \<exists>p. e = Sql_syntax_error p \<and> pos \<le> p \<and> p < pos + length s"
proof (induction pos s rule: lex_from.induct)
  case (2 pos c cs)
  show ?case
  proof (cases "is_space c")
    case True
    with 2 show ?thesis by fastforce
  next
    case False
    show ?thesis
    proof (cases "lex_token pos c cs")
      case (Inl e')
      with False "2.prems" lex_token_error [OF Inl] show ?thesis by (intro exI [of _ pos]) simp
    next
      case (Inr x)
      obtain t rest where lt: "lex_token pos c cs = Inr (t, rest)" using Inr by (cases x) simp
      let ?p = "pos + (length (c # cs) - length rest)"
      from "2.prems" False lt have "lex_from ?p rest = Inl e" by (cases "lex_from ?p rest") auto
      with "2.IH"(2) [OF False lt refl] lex_token_shorter [OF lt] show ?thesis by fastforce
    qed
  qed
qed simp

text \<open>Printing: every token followed by a blank; the positions the lexer will give them.\<close>

definition show_tokens :: "Token list \<Rightarrow> string" where
  "show_tokens ts = concat (map (\<lambda>t. show_token t @ '' '') ts)"

fun place :: "nat \<Rightarrow> Token list \<Rightarrow> Token list" where
  "place pos [] = [mk_token kEndOfInput [] 0 pos]"
| "place pos (t # ts) = t\<lparr>tok_position := pos\<rparr> # place (pos + length (show_token t) + 1) ts"

lemma lex_from_show: "list_all valid_token ts \<Longrightarrow> lex_from pos (show_tokens ts) = Inr (place pos ts)"
proof (induction ts arbitrary: pos)
  case Nil
  then show ?case by (simp add: show_tokens_def)
next
  case (Cons t ts)
  have sp: "is_space (CHR '' '')" by (simp add: is_space_def)
  have v: "valid_token t" using Cons.prems by simp
  obtain c cs where c: "show_token t = c # cs" "\<not> is_space c"
    "lex_token pos c (cs @ CHR '' '' # show_tokens ts) = Inr (t\<lparr>tok_position := pos\<rparr>, CHR '' '' # show_tokens ts)"
    by (rule lex_token_show [OF v sp])
  have "lex_from pos (show_tokens (t # ts)) =
      map_sum id ((#) (t\<lparr>tok_position := pos\<rparr>)) (lex_from (pos + length (show_token t)) (CHR '' '' # show_tokens ts))"
    using c by (simp add: show_tokens_def)
  also have "lex_from (pos + length (show_token t)) (CHR '' '' # show_tokens ts) = Inr (place (pos + length (show_token t) + 1) ts)"
    using Cons by (simp add: sp)
  finally show ?case by simp
qed

text \<open>
  C32. What \<open>Tokenize\<close> returns is the source, token by token: the source consists of the spellings of the
  returned tokens at their recorded positions with only white space between and around them, every
  token is well formed (a keyword exactly when the word is one in some letter case, an integer literal
  with its value, a string literal with its quotes decoded), and one end-of-input token closes the
  list at the end of the source.
\<close>

theorem Tokenize_layout:
  assumes "Tokenize sql = Inr ts"
  shows "\<exists>us. ts = us @ [mk_token kEndOfInput [] 0 (length sql)] \<and> layout 0 us sql \<and> list_all valid_token us"
  using lex_from_layout [of 0 sql ts] assms by (simp add: Tokenize_def)

text \<open>
  C33. \<open>Tokenize\<close> fails only with a syntax error at a position inside the source; and every sequence of
  well-formed tokens, written with a blank after each, is read back as exactly these tokens at the
  positions where they stand.
\<close>

theorem Tokenize_total:
  "(\<forall>sql e. Tokenize sql = Inl e \<longrightarrow> (\<exists>p < length sql. e = Sql_syntax_error p)) \<and>
   (\<forall>ts. list_all valid_token ts \<longrightarrow> Tokenize (show_tokens ts) = Inr (place 0 ts))"
  using lex_from_error [of 0] lex_from_show [of _ 0] by (fastforce simp: Tokenize_def)

theorem Tokenize_layout_witness:
  "\<exists>us. layout 0 us ''GO t'' \<and> us @ [mk_token kEndOfInput [] 0 4] =
     [mk_token kIdentifier ''GO'' 0 0, mk_token kIdentifier ''t'' 0 3, mk_token kEndOfInput [] 0 4]"
proof -
  have t: "Tokenize ''GO t'' = Inr
     [mk_token kIdentifier ''GO'' 0 0, mk_token kIdentifier ''t'' 0 3, mk_token kEndOfInput [] 0 4]"
    by code_simp
  have n: "length ''GO t'' = 4" by simp
  show ?thesis using Tokenize_layout [OF t, unfolded n] by metis
qed

theorem Tokenize_total_witness:
  "Tokenize ''SELECT 'a'' = Inl (Sql_syntax_error 7) \<and> (\<exists>p < 9. Sql_syntax_error 7 = Sql_syntax_error p) \<and>
   Tokenize (show_tokens [mk_token kCommit ''commit'' 0 0]) = Inr (place 0 [mk_token kCommit ''commit'' 0 0])"
proof -
  have e: "Tokenize ''SELECT 'a'' = Inl (Sql_syntax_error 7)" by code_simp
  have v: "list_all valid_token [mk_token kCommit ''commit'' 0 0]" by code_simp
  from Tokenize_total e have "\<exists>p < length ''SELECT 'a''. Sql_syntax_error 7 = Sql_syntax_error p" by blast
  then have "\<exists>p < 9. Sql_syntax_error 7 = Sql_syntax_error p" by simp
  moreover from Tokenize_total v have "Tokenize (show_tokens [mk_token kCommit ''commit'' 0 0]) = Inr (place 0 [mk_token kCommit ''commit'' 0 0])"
    by blast
  ultimately show ?thesis using e by blast
qed

end
