(* ===== verification/Parser.thy ===== *)
theory Parser
  imports Lexer
begin

text \<open>
  The recursive-descent parser of \<open>src/src/sql/parser.cpp\<close>. The state is the list of tokens from \<open>pos_\<close> on;
  \<open>Peek\<close> past the end of the vector, which is undefined behaviour in C++, is the error value
  \<open>Logic_error\<close>, and a theorem below shows that no source text reaches it. A syntax error carries
  the position of the token it was raised at.
\<close>

type_synonym 'a parser = "(Token list, 'a) operation"

section \<open>Token access\<close>

fun Peek :: "Token parser" where
  "Peek [] = (Inl (Logic_error ''tokens_[pos_]''), [])"
| "Peek (t # ts) = (Inr t, t # ts)"

definition Check :: "TokenType \<Rightarrow> bool parser" where
  "Check ty = bind_op Peek (\<lambda>t. return_op (tok_type t = ty))"

fun Advance :: "Token parser" where
  "Advance [] = (Inl (Logic_error ''tokens_[pos_]''), [])"
| "Advance (t # ts) = (Inr t, if tok_type t \<noteq> kEndOfInput then ts else t # ts)"

definition Match :: "TokenType \<Rightarrow> bool parser" where
  "Match ty = bind_op (Check ty) (\<lambda>b. if \<not> b then return_op False else bind_op Advance (\<lambda>_. return_op True))"

definition syntax_error :: "'a parser" where
  "syntax_error = bind_op Peek (\<lambda>t. throw_op (Sql_syntax_error (tok_position t)))"

definition Expect :: "TokenType \<Rightarrow> Token parser" where
  "Expect ty = bind_op (Check ty) (\<lambda>b. if \<not> b then syntax_error else Advance)"

definition ExpectIdentifier :: "string parser" where
  "ExpectIdentifier = bind_op (Expect kIdentifier) (\<lambda>t. return_op (tok_text t))"

definition ExpectLiteral :: "LiteralValue parser" where
  "ExpectLiteral =
     bind_op (Check kIntegerLiteral) (\<lambda>i.
       if i then bind_op Advance (\<lambda>t. return_op (int_literal (tok_int_value t)))
       else bind_op (Check kStringLiteral) (\<lambda>s.
         if s then bind_op Advance (\<lambda>t. return_op (string_literal (tok_text t)))
         else syntax_error))"

definition ExpectColumnType :: "ColumnType parser" where
  "ExpectColumnType =
     bind_op (Match TokenType.kInteger) (\<lambda>i.
       if i then return_op ColumnType.kInteger
       else bind_op (Match TokenType.kText) (\<lambda>t.
         if t then return_op ColumnType.kText else syntax_error))"

definition ParseColumnRef :: "ColumnRef parser" where
  "ParseColumnRef =
     bind_op ExpectIdentifier (\<lambda>first.
       bind_op (Match kDot) (\<lambda>dot.
         if dot then bind_op ExpectIdentifier (\<lambda>col. return_op \<lparr>ref_table_name = Some first, ref_column_name = col\<rparr>)
         else return_op \<lparr>ref_table_name = None, ref_column_name = first\<rparr>))"

text \<open>The comparator tokens in the order \<open>ExpectComparator\<close> tries them.\<close>

fun expect_first :: "(TokenType \<times> 'a) list \<Rightarrow> 'a parser" where
  "expect_first [] = syntax_error"
| "expect_first ((ty, x) # alts) = bind_op (Match ty) (\<lambda>m. if m then return_op x else expect_first alts)"

definition ExpectComparator :: "Comparator parser" where
  "ExpectComparator = expect_first
     [(TokenType.kEq, Comparator.kEq), (TokenType.kNeq, Comparator.kNeq), (TokenType.kLt, Comparator.kLt),
      (TokenType.kLe, Comparator.kLe), (TokenType.kGt, Comparator.kGt), (TokenType.kGe, Comparator.kGe)]"

definition ParsePredicate :: "Predicate parser" where
  "ParsePredicate =
     bind_op ParseColumnRef (\<lambda>c.
       bind_op ExpectComparator (\<lambda>cmp.
         bind_op ExpectLiteral (\<lambda>v. return_op \<lparr>pred_column = c, pred_op = cmp, pred_value = v\<rparr>)))"

section \<open>Parsers never give tokens back\<close>

definition shrinking :: "'a parser \<Rightarrow> bool" where
  "shrinking p \<longleftrightarrow> (\<forall>ts. length (snd (p ts)) \<le> length ts)"

lemma shrinkingD: "shrinking p \<Longrightarrow> p ts = (r, ts') \<Longrightarrow> length ts' \<le> length ts"
  unfolding shrinking_def by (metis snd_conv)

named_theorems shrinking_intros

lemma shrinking_bind [shrinking_intros]:
  assumes "shrinking p" and "\<And>x. shrinking (q x)"
  shows "shrinking (bind_op p q)"
  unfolding shrinking_def
proof
  fix ts
  show "length (snd (bind_op p q ts)) \<le> length ts"
  proof (cases "bind_op p q ts")
    case (Pair r t)
    then show ?thesis
    proof (cases rule: bind_op_cases)
      case (fail e)
      with Pair assms(1) show ?thesis by (auto dest: shrinkingD)
    next
      case (go x s)
      with Pair shrinkingD [OF assms(1) go(1)] shrinkingD [OF assms(2) go(2)] show ?thesis by simp
    qed
  qed
qed

lemma shrinking_if [shrinking_intros]: "shrinking p \<Longrightarrow> shrinking q \<Longrightarrow> shrinking (if b then p else q)"
  by simp

lemma shrinking_basic [shrinking_intros]:
  "shrinking (return_op x)" "shrinking (throw_op e)" "shrinking Peek" "shrinking Advance"
proof -
  show "shrinking (return_op x)" "shrinking (throw_op e)" by (simp_all add: shrinking_def)
  have "length (snd (Peek ts)) \<le> length ts" "length (snd (Advance ts)) \<le> length ts" for ts by (cases ts; simp)+
  then show "shrinking Peek" "shrinking Advance" by (simp_all add: shrinking_def)
qed

lemma shrinking_tokens [shrinking_intros]:
  "shrinking (Check ty)" "shrinking (Match ty)" "shrinking syntax_error" "shrinking (Expect ty)"
  "shrinking ExpectIdentifier" "shrinking ExpectLiteral" "shrinking ExpectColumnType" "shrinking ParseColumnRef"
proof -
  show c: "shrinking (Check ty)" for ty unfolding Check_def by (intro shrinking_intros)
  show m: "shrinking (Match ty)" for ty unfolding Match_def by (intro shrinking_intros c)
  show s: "shrinking (syntax_error :: 'a parser)" unfolding syntax_error_def by (intro shrinking_intros)
  have s': "shrinking (syntax_error :: 'b parser)" unfolding syntax_error_def by (intro shrinking_intros)
  show e: "shrinking (Expect ty)" for ty unfolding Expect_def syntax_error_def by (intro shrinking_intros c)
  show i: "shrinking ExpectIdentifier" unfolding ExpectIdentifier_def by (intro shrinking_intros e)
  show "shrinking ExpectLiteral" unfolding ExpectLiteral_def syntax_error_def by (intro shrinking_intros c)
  show "shrinking ExpectColumnType" unfolding ExpectColumnType_def syntax_error_def by (intro shrinking_intros m)
  show "shrinking ParseColumnRef" unfolding ParseColumnRef_def by (intro shrinking_intros m i)
qed

lemma shrinking_first [shrinking_intros]: "shrinking (expect_first alts)"
  by (induction alts rule: expect_first.induct) (auto intro!: shrinking_intros)

lemma shrinking_predicate [shrinking_intros]: "shrinking ExpectComparator" "shrinking ParsePredicate"
  unfolding ExpectComparator_def ParsePredicate_def by (intro shrinking_intros)+

lemma Match_true:
  assumes "Match ty ts = (Inr True, ts')"
  obtains t us where "ts = t # us" "tok_type t = ty" "ts' = (if ty = kEndOfInput then ts else us)"
  using assms by (cases ts) (auto simp: Match_def Check_def bind_op_def split: if_splits)

lemma Match_shorter: "Match ty ts = (Inr True, ts') \<Longrightarrow> ty \<noteq> kEndOfInput \<Longrightarrow> length ts' < length ts"
  by (erule Match_true) simp

section \<open>Lists\<close>

text \<open>
  The loops \<open>while (Match(sep)) v.push_back(...)\<close>: each returns the elements after the first. They end
  because the separator is consumed and no element parser gives tokens back.
\<close>

function where_tail :: "Predicate list parser" where
  "where_tail ts =
     bind_op (Match kAnd) (\<lambda>m ts1.
       if m then bind_op ParsePredicate (\<lambda>p. bind_op where_tail (\<lambda>ps. return_op (p # ps))) ts1
       else return_op [] ts1) ts"
  by pat_completeness auto
termination
  by (relation "measure length") (auto dest!: Match_shorter shrinkingD [OF shrinking_predicate(2)])

function value_tail :: "LiteralValue list parser" where
  "value_tail ts =
     bind_op (Match kComma) (\<lambda>m ts1.
       if m then bind_op ExpectLiteral (\<lambda>v. bind_op value_tail (\<lambda>vs. return_op (v # vs))) ts1
       else return_op [] ts1) ts"
  by pat_completeness auto
termination
  by (relation "measure length") (auto dest!: Match_shorter shrinkingD [OF shrinking_tokens(6)])

function column_tail :: "ColumnRef list parser" where
  "column_tail ts =
     bind_op (Match kComma) (\<lambda>m ts1.
       if m then bind_op ParseColumnRef (\<lambda>c. bind_op column_tail (\<lambda>cs. return_op (c # cs))) ts1
       else return_op [] ts1) ts"
  by pat_completeness auto
termination
  by (relation "measure length") (auto dest!: Match_shorter shrinkingD [OF shrinking_tokens(8)])

definition parse_assignment :: "Assignment parser" where
  "parse_assignment =
     bind_op ExpectIdentifier (\<lambda>c.
       bind_op (Expect TokenType.kEq) (\<lambda>_.
         bind_op ExpectLiteral (\<lambda>v. return_op \<lparr>asg_column_name = c, asg_value = v\<rparr>)))"

lemma shrinking_assignment [shrinking_intros]: "shrinking parse_assignment"
  unfolding parse_assignment_def by (intro shrinking_intros)

function assignment_tail :: "Assignment list parser" where
  "assignment_tail ts =
     bind_op (Match kComma) (\<lambda>m ts1.
       if m then bind_op parse_assignment (\<lambda>a. bind_op assignment_tail (\<lambda>as. return_op (a # as))) ts1
       else return_op [] ts1) ts"
  by pat_completeness auto
termination
  by (relation "measure length") (auto dest!: Match_shorter shrinkingD [OF shrinking_assignment])

text \<open>The loop of \<open>ParseCreateTable\<close> with the statement's columns and primary key so far.\<close>

definition parse_primary_key :: "string \<Rightarrow> string option \<Rightarrow> string option parser" where
  "parse_primary_key name pk =
     bind_op (Match kPrimary) (\<lambda>m.
       if m then bind_op (Expect kKey) (\<lambda>_. if pk \<noteq> None then syntax_error else return_op (Some name))
       else return_op pk)"

lemma shrinking_primary_key [shrinking_intros]: "shrinking (parse_primary_key name pk)"
  unfolding parse_primary_key_def by (intro shrinking_intros)

function column_defs :: "ColumnDef list \<Rightarrow> string option \<Rightarrow> (ColumnDef list \<times> string option) parser" where
  "column_defs cols pk ts =
     bind_op ExpectIdentifier (\<lambda>name.
       bind_op ExpectColumnType (\<lambda>ty.
         bind_op (parse_primary_key name pk) (\<lambda>pk'.
           bind_op (Match kComma) (\<lambda>m ts1.
             if m then column_defs (cols @ [\<lparr>col_name = name, col_type = ty\<rparr>]) pk' ts1
             else return_op (cols @ [\<lparr>col_name = name, col_type = ty\<rparr>], pk') ts1)))) ts"
  by pat_completeness auto
termination
  by (relation "measure (\<lambda>(_, _, ts). length ts)")
    (auto dest!: Match_shorter shrinkingD [OF shrinking_tokens(5)] shrinkingD [OF shrinking_tokens(7)]
      shrinkingD [OF shrinking_primary_key])

declare where_tail.simps [simp del] value_tail.simps [simp del] column_tail.simps [simp del]
  assignment_tail.simps [simp del] column_defs.simps [simp del]

section \<open>Statements\<close>

definition ParseWhereClause :: "Predicate list parser" where
  "ParseWhereClause =
     bind_op (Expect kWhere) (\<lambda>_. bind_op ParsePredicate (\<lambda>p. bind_op where_tail (\<lambda>ps. return_op (p # ps))))"

definition ParseOptionalWhereClause :: "Predicate list parser" where
  "ParseOptionalWhereClause = bind_op (Check kWhere) (\<lambda>w. if w then ParseWhereClause else return_op [])"

definition ParseCreateTable :: "CreateTableStatement parser" where
  "ParseCreateTable =
     bind_op (Expect kTable) (\<lambda>_.
       bind_op ExpectIdentifier (\<lambda>name.
         bind_op (Expect kLParen) (\<lambda>_.
           bind_op (column_defs [] None) (\<lambda>(cols, pk).
             bind_op (Expect kRParen) (\<lambda>_.
               return_op \<lparr>ct_table_name = name, ct_columns = cols, ct_primary_key_column = pk\<rparr>)))))"

definition ParseCreateIndex :: "CreateIndexStatement parser" where
  "ParseCreateIndex =
     bind_op (Expect kIndex) (\<lambda>_.
       bind_op ExpectIdentifier (\<lambda>name.
         bind_op (Expect kOn) (\<lambda>_.
           bind_op ExpectIdentifier (\<lambda>table.
             bind_op (Expect kLParen) (\<lambda>_.
               bind_op ExpectIdentifier (\<lambda>col.
                 bind_op (Expect kRParen) (\<lambda>_.
                   return_op \<lparr>ci_index_name = name, ci_table_name = table, ci_column_name = col\<rparr>)))))))"

definition ParseInsert :: "InsertStatement parser" where
  "ParseInsert =
     bind_op (Expect kInto) (\<lambda>_.
       bind_op ExpectIdentifier (\<lambda>table.
         bind_op (Expect kValues) (\<lambda>_.
           bind_op (Expect kLParen) (\<lambda>_.
             bind_op ExpectLiteral (\<lambda>v.
               bind_op value_tail (\<lambda>vs.
                 bind_op (Expect kRParen) (\<lambda>_.
                   return_op \<lparr>ins_table_name = table, ins_values = v # vs\<rparr>)))))))"

definition ParseJoinClause :: "JoinClause parser" where
  "ParseJoinClause =
     bind_op (Expect kJoin) (\<lambda>_.
       bind_op ExpectIdentifier (\<lambda>table.
         bind_op (Expect kOn) (\<lambda>_.
           bind_op ParseColumnRef (\<lambda>l.
             bind_op (Expect TokenType.kEq) (\<lambda>_.
               bind_op ParseColumnRef (\<lambda>r.
                 return_op \<lparr>join_table_name = table, join_left_column = l, join_right_column = r\<rparr>))))))"

definition ParseSelect :: "SelectStatement parser" where
  "ParseSelect =
     bind_op (Match kStar) (\<lambda>star.
       bind_op (if star then return_op []
                else bind_op ParseColumnRef (\<lambda>c. bind_op column_tail (\<lambda>cs. return_op (c # cs)))) (\<lambda>cols.
         bind_op (Expect kFrom) (\<lambda>_.
           bind_op ExpectIdentifier (\<lambda>table.
             bind_op (Check kJoin) (\<lambda>j.
               bind_op (if j then bind_op ParseJoinClause (\<lambda>jc. return_op (Some jc)) else return_op None) (\<lambda>join.
                 bind_op ParseOptionalWhereClause (\<lambda>preds.
                   return_op \<lparr>sel_star = star, sel_list = cols, sel_from_table = table, sel_join = join,
                     sel_where = preds\<rparr>)))))))"

definition ParseUpdate :: "UpdateStatement parser" where
  "ParseUpdate =
     bind_op ExpectIdentifier (\<lambda>table.
       bind_op (Expect kSet) (\<lambda>_.
         bind_op parse_assignment (\<lambda>a.
           bind_op assignment_tail (\<lambda>as.
             bind_op ParseOptionalWhereClause (\<lambda>preds.
               return_op \<lparr>upd_table_name = table, upd_assignments = a # as, upd_where = preds\<rparr>)))))"

definition ParseDelete :: "DeleteStatement parser" where
  "ParseDelete =
     bind_op (Expect kFrom) (\<lambda>_.
       bind_op ExpectIdentifier (\<lambda>table.
         bind_op ParseOptionalWhereClause (\<lambda>preds. return_op \<lparr>del_table_name = table, del_where = preds\<rparr>)))"

definition ParseCreate :: "Statement parser" where
  "ParseCreate =
     bind_op (Check kTable) (\<lambda>t.
       if t then bind_op ParseCreateTable (\<lambda>s. return_op (CreateTable_stmt s))
       else bind_op (Check kIndex) (\<lambda>i.
         if i then bind_op ParseCreateIndex (\<lambda>s. return_op (CreateIndex_stmt s)) else syntax_error))"

fun dispatch :: "(TokenType \<times> 'a parser) list \<Rightarrow> 'a parser" where
  "dispatch [] = syntax_error"
| "dispatch ((ty, p) # alts) = bind_op (Match ty) (\<lambda>m. if m then p else dispatch alts)"

definition ParseOneStatement :: "Statement parser" where
  "ParseOneStatement = dispatch
     [(kCreate, ParseCreate),
      (kInsert, bind_op ParseInsert (\<lambda>s. return_op (Insert_stmt s))),
      (kSelect, bind_op ParseSelect (\<lambda>s. return_op (Select_stmt s))),
      (kUpdate, bind_op ParseUpdate (\<lambda>s. return_op (Update_stmt s))),
      (kDelete, bind_op ParseDelete (\<lambda>s. return_op (Delete_stmt s))),
      (kBegin, return_op BeginStatement),
      (kCommit, return_op CommitStatement),
      (kRollback, return_op RollbackStatement)]"

definition ParseStatementTopLevel :: "Statement parser" where
  "ParseStatementTopLevel =
     bind_op ParseOneStatement (\<lambda>stmt.
       bind_op (Match kSemicolon) (\<lambda>_.
         bind_op (Check kEndOfInput) (\<lambda>e. if \<not> e then syntax_error else return_op stmt)))"

definition Parse :: "string \<Rightarrow> exn + Statement" where
  "Parse sql = (case Tokenize sql of Inl e \<Rightarrow> Inl e | Inr tokens \<Rightarrow> fst (ParseStatementTopLevel tokens))"

section \<open>Safety\<close>

text \<open>
  A safe parser, on a list closed by the end-of-input token, keeps that token in view and fails only
  with a syntax error at a token of the list.
\<close>

definition closed :: "Token list \<Rightarrow> bool" where
  "closed ts \<longleftrightarrow> ts \<noteq> [] \<and> tok_type (last ts) = kEndOfInput"

definition safe :: "'a parser \<Rightarrow> bool" where
  "safe p \<longleftrightarrow> (\<forall>ts. closed ts \<longrightarrow>
     (case p ts of (r, ts') \<Rightarrow> closed ts' \<and> set ts' \<subseteq> set ts \<and>
        (case r of Inl e \<Rightarrow> \<exists>t \<in> set ts. e = Sql_syntax_error (tok_position t) | Inr x \<Rightarrow> True)))"

lemma safeD:
  assumes "safe p" and "closed ts" and "p ts = (r, ts')"
  shows "closed ts'" and "set ts' \<subseteq> set ts" and "\<And>e. r = Inl e \<Longrightarrow> \<exists>t \<in> set ts. e = Sql_syntax_error (tok_position t)"
proof -
  from assms have "closed ts' \<and> set ts' \<subseteq> set ts \<and>
      (case r of Inl e \<Rightarrow> \<exists>t \<in> set ts. e = Sql_syntax_error (tok_position t) | Inr x \<Rightarrow> True)"
    by (auto simp: safe_def dest!: spec [of _ ts])
  then show "closed ts'" "set ts' \<subseteq> set ts" "\<And>e. r = Inl e \<Longrightarrow> \<exists>t \<in> set ts. e = Sql_syntax_error (tok_position t)"
    by auto
qed

lemma safeI:
  assumes "\<And>ts r ts'. closed ts \<Longrightarrow> p ts = (r, ts') \<Longrightarrow>
    closed ts' \<and> set ts' \<subseteq> set ts \<and> (\<forall>e. r = Inl e \<longrightarrow> (\<exists>t \<in> set ts. e = Sql_syntax_error (tok_position t)))"
  shows "safe p"
  unfolding safe_def using assms by (fastforce split: sum.split)

named_theorems safe_intros

lemma safe_bind_at:
  assumes p: "safe p" and run: "bind_op p q ts = (r, ts')" and c: "closed ts"
    and q: "\<And>x t1. p ts = (Inr x, t1) \<Longrightarrow> closed t1 \<Longrightarrow> set t1 \<subseteq> set ts \<Longrightarrow> q x t1 = (r, ts') \<Longrightarrow>
      closed ts' \<and> set ts' \<subseteq> set t1 \<and> (\<forall>e. r = Inl e \<longrightarrow> (\<exists>t \<in> set t1. e = Sql_syntax_error (tok_position t)))"
  shows "closed ts' \<and> set ts' \<subseteq> set ts \<and> (\<forall>e. r = Inl e \<longrightarrow> (\<exists>t \<in> set ts. e = Sql_syntax_error (tok_position t)))"
  using run
proof (cases rule: bind_op_cases)
  case (fail e)
  with safeD [OF p c fail(1)] show ?thesis by auto
next
  case (go x s)
  with q [OF go(1) safeD(1,2) [OF p c go(1)] go(2)] safeD(2) [OF p c go(1)] show ?thesis by blast
qed

lemma safe_bind [safe_intros]:
  assumes "safe p" and "\<And>x. safe (q x)"
  shows "safe (bind_op p q)"
proof (rule safeI)
  fix ts r ts' assume *: "closed ts" "bind_op p q ts = (r, ts')"
  show "closed ts' \<and> set ts' \<subseteq> set ts \<and> (\<forall>e. r = Inl e \<longrightarrow> (\<exists>t \<in> set ts. e = Sql_syntax_error (tok_position t)))"
  proof (rule safe_bind_at [OF assms(1) *(2,1)])
    fix x t1 assume "closed t1" "q x t1 = (r, ts')"
    with safeD [OF assms(2) this] show "closed ts' \<and> set ts' \<subseteq> set t1 \<and>
        (\<forall>e. r = Inl e \<longrightarrow> (\<exists>t \<in> set t1. e = Sql_syntax_error (tok_position t)))" by blast
  qed
qed

lemma safe_if [safe_intros]: "safe p \<Longrightarrow> safe q \<Longrightarrow> safe (if b then p else q)"
  by simp

lemma safe_case_prod [safe_intros]: "(\<And>a b. safe (q a b)) \<Longrightarrow> safe (case x of (a, b) \<Rightarrow> q a b)"
  by (cases x) simp

lemma safe_return [safe_intros]: "safe (return_op x)"
  by (simp add: safe_def)

lemma Peek_safe [safe_intros]: "safe Peek"
proof (rule safeI)
  fix ts r ts' assume "closed ts" "Peek ts = (r, ts')"
  then show "closed ts' \<and> set ts' \<subseteq> set ts \<and> (\<forall>e. r = Inl e \<longrightarrow> (\<exists>t \<in> set ts. e = Sql_syntax_error (tok_position t)))"
    by (cases ts) (auto simp: closed_def)
qed

lemma Advance_safe [safe_intros]: "safe Advance"
proof (rule safeI)
  fix ts r ts' assume "closed ts" "Advance ts = (r, ts')"
  then show "closed ts' \<and> set ts' \<subseteq> set ts \<and> (\<forall>e. r = Inl e \<longrightarrow> (\<exists>t \<in> set ts. e = Sql_syntax_error (tok_position t)))"
    by (cases ts) (auto simp: closed_def split: if_splits)
qed

lemma syntax_error_safe [safe_intros]: "safe syntax_error"
proof (rule safeI)
  fix ts and r :: "exn + 'a" and ts' assume "closed ts" "syntax_error ts = (r, ts')"
  then show "closed ts' \<and> set ts' \<subseteq> set ts \<and> (\<forall>e. r = Inl e \<longrightarrow> (\<exists>t \<in> set ts. e = Sql_syntax_error (tok_position t)))"
    by (cases ts) (auto simp: closed_def syntax_error_def bind_op_def)
qed

lemma Check_safe [safe_intros]: "safe (Check ty)" unfolding Check_def by (intro safe_intros)
lemma Match_safe [safe_intros]: "safe (Match ty)" unfolding Match_def by (intro safe_intros)
lemma Expect_safe [safe_intros]: "safe (Expect ty)" unfolding Expect_def by (intro safe_intros)
lemma ExpectIdentifier_safe [safe_intros]: "safe ExpectIdentifier" unfolding ExpectIdentifier_def by (intro safe_intros)
lemma ExpectLiteral_safe [safe_intros]: "safe ExpectLiteral" unfolding ExpectLiteral_def by (intro safe_intros)
lemma ExpectColumnType_safe [safe_intros]: "safe ExpectColumnType" unfolding ExpectColumnType_def by (intro safe_intros)
lemma ParseColumnRef_safe [safe_intros]: "safe ParseColumnRef" unfolding ParseColumnRef_def by (intro safe_intros)

lemma expect_first_safe [safe_intros]: "safe (expect_first alts)"
  by (induction alts rule: expect_first.induct) (auto intro!: safe_intros)

lemma ParsePredicate_safe [safe_intros]: "safe ParsePredicate"
  unfolding ParsePredicate_def ExpectComparator_def by (intro safe_intros)

lemma parse_assignment_safe [safe_intros]: "safe parse_assignment"
  unfolding parse_assignment_def by (intro safe_intros)

lemma parse_primary_key_safe [safe_intros]: "safe (parse_primary_key name pk)"
  unfolding parse_primary_key_def by (intro safe_intros)

text \<open>A loop \<open>while (Match(sep)) push_back(p())\<close> is safe when its body is.\<close>

lemma sep_loop_safe:
  assumes eq: "\<And>ts. loop ts = bind_op (Match sep) (\<lambda>m ts1.
       if m then bind_op p (\<lambda>x. bind_op loop (\<lambda>xs. return_op (x # xs))) ts1 else return_op [] ts1) ts"
    and p: "safe p" "shrinking p" and sep: "sep \<noteq> kEndOfInput"
  shows "safe loop"
proof (rule safeI)
  fix ts r ts'
  show "closed ts \<Longrightarrow> loop ts = (r, ts') \<Longrightarrow> closed ts' \<and> set ts' \<subseteq> set ts \<and>
      (\<forall>e. r = Inl e \<longrightarrow> (\<exists>t \<in> set ts. e = Sql_syntax_error (tok_position t)))"
  proof (induction "length ts" arbitrary: ts r ts' rule: less_induct)
    case less
    have run: "bind_op (Match sep) (\<lambda>m ts1.
       if m then bind_op p (\<lambda>x. bind_op loop (\<lambda>xs. return_op (x # xs))) ts1 else return_op [] ts1) ts = (r, ts')"
      using less.prems(2) eq [of ts] by simp
    show ?case
    proof (rule safe_bind_at [OF Match_safe run less.prems(1)])
      fix m t1
      assume m: "Match sep ts = (Inr m, t1)" and c: "closed t1" and sub: "set t1 \<subseteq> set ts"
        and q: "(if m then bind_op p (\<lambda>x. bind_op loop (\<lambda>xs. return_op (x # xs))) t1 else return_op [] t1) = (r, ts')"
      show "closed ts' \<and> set ts' \<subseteq> set t1 \<and> (\<forall>e. r = Inl e \<longrightarrow> (\<exists>t \<in> set t1. e = Sql_syntax_error (tok_position t)))"
      proof (cases m)
        case False
        with q c show ?thesis by auto
      next
        case True
        then have q: "bind_op p (\<lambda>x. bind_op loop (\<lambda>xs. return_op (x # xs))) t1 = (r, ts')" using q by simp
        show ?thesis
        proof (rule safe_bind_at [OF p(1) q c])
          fix x t2
          assume x: "p t1 = (Inr x, t2)" "closed t2" "bind_op loop (\<lambda>xs. return_op (x # xs)) t2 = (r, ts')"
          have "length t2 < length ts"
            using Match_shorter [of sep ts t1] m True sep shrinkingD [OF p(2) x(1)] by simp
          with x less.hyps show "closed ts' \<and> set ts' \<subseteq> set t2 \<and>
              (\<forall>e. r = Inl e \<longrightarrow> (\<exists>t \<in> set t2. e = Sql_syntax_error (tok_position t)))"
            by (elim bind_op_cases) fastforce+
        qed
      qed
    qed
  qed
qed

lemma where_tail_safe [safe_intros]: "safe where_tail"
  by (rule sep_loop_safe [OF where_tail.simps ParsePredicate_safe shrinking_predicate(2)]) simp

lemma value_tail_safe [safe_intros]: "safe value_tail"
  by (rule sep_loop_safe [OF value_tail.simps ExpectLiteral_safe shrinking_tokens(6)]) simp

lemma column_tail_safe [safe_intros]: "safe column_tail"
  by (rule sep_loop_safe [OF column_tail.simps ParseColumnRef_safe shrinking_tokens(8)]) simp

lemma assignment_tail_safe [safe_intros]: "safe assignment_tail"
  by (rule sep_loop_safe [OF assignment_tail.simps parse_assignment_safe shrinking_assignment]) simp

lemma column_defs_safe [safe_intros]: "safe (column_defs cols pk)"
proof (rule safeI)
  fix ts r ts'
  show "closed ts \<Longrightarrow> column_defs cols pk ts = (r, ts') \<Longrightarrow> closed ts' \<and> set ts' \<subseteq> set ts \<and>
      (\<forall>e. r = Inl e \<longrightarrow> (\<exists>t \<in> set ts. e = Sql_syntax_error (tok_position t)))"
  proof (induction "length ts" arbitrary: ts r ts' cols pk rule: less_induct)
    case less
    note run = less.prems(2) [unfolded column_defs.simps [of cols pk ts]]
    show ?case
    proof (rule safe_bind_at [OF ExpectIdentifier_safe run less.prems(1)], goal_cases)
      case (1 name t1)
      show ?case
      proof (rule safe_bind_at [OF ExpectColumnType_safe 1(4,2)], goal_cases)
        case (1 ty t2)
        show ?case
        proof (rule safe_bind_at [OF parse_primary_key_safe 1(4,2)], goal_cases)
          case (1 pk' t3)
          show ?case
          proof (rule safe_bind_at [OF Match_safe 1(4,2)], goal_cases)
            case (1 m t4)
            have "length t4 < length ts" if m
              using Match_shorter [of kComma t3 t4] 1(1) that
                shrinkingD [OF shrinking_primary_key \<open>parse_primary_key name pk t2 = (Inr pk', t3)\<close>]
                shrinkingD [OF shrinking_tokens(7) \<open>ExpectColumnType t1 = (Inr ty, t2)\<close>]
                shrinkingD [OF shrinking_tokens(5) \<open>ExpectIdentifier ts = (Inr name, t1)\<close>] by simp
            with 1 less.hyps [of t4] show ?case by (cases m) auto
          qed
        qed
      qed
    qed
  qed
qed

lemma ParseOptionalWhereClause_safe [safe_intros]: "safe ParseOptionalWhereClause"
  unfolding ParseOptionalWhereClause_def ParseWhereClause_def by (intro safe_intros)

lemma ParseCreate_safe [safe_intros]: "safe ParseCreate"
  unfolding ParseCreate_def ParseCreateTable_def ParseCreateIndex_def by (intro safe_intros)

lemma ParseInsert_safe [safe_intros]: "safe ParseInsert"
  unfolding ParseInsert_def by (intro safe_intros)

lemma ParseSelect_safe [safe_intros]: "safe ParseSelect"
  unfolding ParseSelect_def ParseJoinClause_def by (intro safe_intros)

lemma ParseUpdate_safe [safe_intros]: "safe ParseUpdate"
  unfolding ParseUpdate_def by (intro safe_intros)

lemma ParseDelete_safe [safe_intros]: "safe ParseDelete"
  unfolding ParseDelete_def by (intro safe_intros)

lemma ParseStatementTopLevel_safe: "safe ParseStatementTopLevel"
  unfolding ParseStatementTopLevel_def ParseOneStatement_def dispatch.simps by (intro safe_intros)

lemma layout_positions: "layout pos ts s \<Longrightarrow> t \<in> set ts \<Longrightarrow> tok_position t \<le> pos + length s"
proof (induction ts arbitrary: pos s)
  case (Cons u ts)
  let ?gap = "length (takeWhile is_space s)" and ?n = "length (show_token u)"
  have l: "tok_position u = pos + ?gap" "take ?n (drop ?gap s) = show_token u"
    "layout (pos + ?gap + ?n) ts (drop (?gap + ?n) s)" using Cons.prems(1) by (auto simp: Let_def)
  have g: "?gap \<le> length s" by (rule length_takeWhile_le)
  show ?case
  proof (cases "t = u")
    case True
    with l(1) g show ?thesis by simp
  next
    case False
    with Cons.IH [OF l(3)] Cons.prems(2) have "tok_position t \<le> pos + ?gap + ?n + (length s - (?gap + ?n))" by simp
    moreover have "?gap + ?n \<le> length s"
      using arg_cong [OF l(2), of length] g by (auto simp: min_def split: if_splits)
    ultimately show ?thesis by linarith
  qed
qed simp

lemma Parse_error:
  assumes "Parse sql = Inl e"
  shows "\<exists>p \<le> length sql. e = Sql_syntax_error p"
proof (cases "Tokenize sql")
  case (Inl e')
  then have "\<exists>p. e' = Sql_syntax_error p \<and> 0 \<le> p \<and> p < 0 + length sql"
    unfolding Tokenize_def by (rule lex_from_error)
  with assms Inl show ?thesis by (auto simp: Parse_def intro: less_imp_le)
next
  case (Inr ts)
  from lex_from_layout [OF Inr [unfolded Tokenize_def]] obtain us where
    us: "ts = us @ [mk_token kEndOfInput [] 0 (length sql)]" "layout 0 us sql" by auto
  have closed: "closed ts" using us(1) by (simp add: closed_def mk_token_def)
  have pos: "tok_position t \<le> length sql" if "t \<in> set ts" for t
    using that us layout_positions [OF us(2)] by (auto simp: mk_token_def)
  obtain r ts' where run: "ParseStatementTopLevel ts = (r, ts')" by (cases "ParseStatementTopLevel ts")
  with assms Inr have "r = Inl e" by (simp add: Parse_def)
  from safeD(3) [OF ParseStatementTopLevel_safe closed run this] pos show ?thesis by blast
qed

text \<open>
  The fuzz target of \<open>src/src/sql/fuzz_parser.cpp\<close>: it swallows \<open>SqlSyntaxError\<close> and lets every other exception escape.
\<close>

definition LLVMFuzzerTestOneInput :: "string \<Rightarrow> exn + int" where
  "LLVMFuzzerTestOneInput data =
     (case Parse data of
        Inr _ \<Rightarrow> Inr 0
      | Inl (Sql_syntax_error _) \<Rightarrow> Inr 0
      | Inl e \<Rightarrow> Inl e)"

text \<open>
  C31. \<open>Parse\<close> either returns a statement or throws \<open>SqlSyntaxError\<close> with a position inside the source or at its
  end. It throws nothing else and, for no source text, reads past its token vector, which the code
  relies on in \<open>Peek\<close> and \<open>Advance\<close> without a bounds check: the fuzz target can find no crash.
\<close>

theorem Parse_safe:
  "(case Parse sql of Inl e \<Rightarrow> \<exists>p \<le> length sql. e = Sql_syntax_error p | Inr _ \<Rightarrow> True) \<and> LLVMFuzzerTestOneInput sql = Inr 0"
  using Parse_error [of sql] by (auto simp: LLVMFuzzerTestOneInput_def split: sum.split)

end
