(* ===== verification/Sql_Printer.thy ===== *)
theory Sql_Printer
  imports Parser
begin

text \<open>
  A printer for statements, and the proof that lexer and parser together read back every statement
  they can produce. The printer is a specification device; the code has none.
\<close>

section \<open>Printing\<close>

definition tk :: "TokenType \<Rightarrow> Token" where
  "tk ty = mk_token ty (case symbol_text ty of Some s \<Rightarrow> s | None \<Rightarrow> TokenTypeName ty) 0 0"

definition name_tok :: "string \<Rightarrow> Token" where
  "name_tok s = mk_token kIdentifier s 0 0"

definition print_literal :: "LiteralValue \<Rightarrow> Token" where
  "print_literal v =
     (case lit_kind v of
        LiteralKind.kInteger \<Rightarrow> mk_token kIntegerLiteral (int_text (lit_int_value v)) (lit_int_value v) 0
      | LiteralKind.kString \<Rightarrow> mk_token kStringLiteral (lit_string_value v) 0 0)"

definition print_ref :: "ColumnRef \<Rightarrow> Token list" where
  "print_ref c =
     (case ref_table_name c of
        None \<Rightarrow> [name_tok (ref_column_name c)]
      | Some t \<Rightarrow> [name_tok t, tk kDot, name_tok (ref_column_name c)])"

fun print_cmp :: "Comparator \<Rightarrow> Token" where
  "print_cmp Comparator.kEq = tk TokenType.kEq"
| "print_cmp Comparator.kNeq = tk TokenType.kNeq"
| "print_cmp Comparator.kLt = tk TokenType.kLt"
| "print_cmp Comparator.kLe = tk TokenType.kLe"
| "print_cmp Comparator.kGt = tk TokenType.kGt"
| "print_cmp Comparator.kGe = tk TokenType.kGe"

definition print_pred :: "Predicate \<Rightarrow> Token list" where
  "print_pred p = print_ref (pred_column p) @ [print_cmp (pred_op p), print_literal (pred_value p)]"

text \<open>The elements after the first, each with its separator before it.\<close>

definition print_tail :: "TokenType \<Rightarrow> ('a \<Rightarrow> Token list) \<Rightarrow> 'a list \<Rightarrow> Token list" where
  "print_tail sep pr xs = concat (map (\<lambda>x. tk sep # pr x) xs)"

definition print_where :: "Predicate list \<Rightarrow> Token list" where
  "print_where ps = (case ps of [] \<Rightarrow> [] | p # ps' \<Rightarrow> tk kWhere # print_pred p @ print_tail kAnd print_pred ps')"

fun print_type :: "ColumnType \<Rightarrow> Token" where
  "print_type ColumnType.kInteger = tk TokenType.kInteger"
| "print_type ColumnType.kText = tk TokenType.kText"

fun print_columns :: "string option \<Rightarrow> ColumnDef list \<Rightarrow> Token list" where
  "print_columns pk [] = []"
| "print_columns pk (c # cs) =
     name_tok (col_name c) # print_type (col_type c) #
     (if pk = Some (col_name c) then [tk kPrimary, tk kKey] else []) @
     (if cs = [] then [] else tk kComma # print_columns (if pk = Some (col_name c) then None else pk) cs)"

definition print_join :: "JoinClause \<Rightarrow> Token list" where
  "print_join j =
     [tk kJoin, name_tok (join_table_name j), tk kOn] @ print_ref (join_left_column j) @ [tk TokenType.kEq] @
     print_ref (join_right_column j)"

definition print_assignment :: "Assignment \<Rightarrow> Token list" where
  "print_assignment a = [name_tok (asg_column_name a), tk TokenType.kEq, print_literal (asg_value a)]"

fun statement_tokens :: "Statement \<Rightarrow> Token list" where
  "statement_tokens (CreateTable_stmt s) =
     [tk kCreate, tk kTable, name_tok (ct_table_name s), tk kLParen] @
     print_columns (ct_primary_key_column s) (ct_columns s) @ [tk kRParen]"
| "statement_tokens (CreateIndex_stmt s) =
     [tk kCreate, tk kIndex, name_tok (ci_index_name s), tk kOn, name_tok (ci_table_name s), tk kLParen,
      name_tok (ci_column_name s), tk kRParen]"
| "statement_tokens (Insert_stmt s) =
     [tk kInsert, tk kInto, name_tok (ins_table_name s), tk kValues, tk kLParen, print_literal (hd (ins_values s))] @
     print_tail kComma (\<lambda>v. [print_literal v]) (tl (ins_values s)) @ [tk kRParen]"
| "statement_tokens (Select_stmt s) =
     tk kSelect #
     (if sel_star s then [tk kStar] else print_ref (hd (sel_list s)) @ print_tail kComma print_ref (tl (sel_list s))) @
     [tk kFrom, name_tok (sel_from_table s)] @
     (case sel_join s of None \<Rightarrow> [] | Some j \<Rightarrow> print_join j) @ print_where (sel_where s)"
| "statement_tokens (Update_stmt s) =
     [tk kUpdate, name_tok (upd_table_name s), tk kSet] @ print_assignment (hd (upd_assignments s)) @
     print_tail kComma print_assignment (tl (upd_assignments s)) @ print_where (upd_where s)"
| "statement_tokens (Delete_stmt s) =
     [tk kDelete, tk kFrom, name_tok (del_table_name s)] @ print_where (del_where s)"
| "statement_tokens BeginStatement = [tk kBegin]"
| "statement_tokens CommitStatement = [tk kCommit]"
| "statement_tokens RollbackStatement = [tk kRollback]"

section \<open>The statements the parser can produce\<close>

definition is_name :: "string \<Rightarrow> bool" where
  "is_name s \<longleftrightarrow> is_word s \<and> word_type s = kIdentifier"

definition wf_literal :: "LiteralValue \<Rightarrow> bool" where
  "wf_literal v \<longleftrightarrow>
     (case lit_kind v of LiteralKind.kInteger \<Rightarrow> lit_string_value v = [] | LiteralKind.kString \<Rightarrow> lit_int_value v = 0)"

definition wf_ref :: "ColumnRef \<Rightarrow> bool" where
  "wf_ref c \<longleftrightarrow> pred_option is_name (ref_table_name c) \<and> is_name (ref_column_name c)"

definition wf_pred :: "Predicate \<Rightarrow> bool" where
  "wf_pred p \<longleftrightarrow> wf_ref (pred_column p) \<and> wf_literal (pred_value p)"

definition wf_join :: "JoinClause \<Rightarrow> bool" where
  "wf_join j \<longleftrightarrow> is_name (join_table_name j) \<and> wf_ref (join_left_column j) \<and> wf_ref (join_right_column j)"

definition wf_assignment :: "Assignment \<Rightarrow> bool" where
  "wf_assignment a \<longleftrightarrow> is_name (asg_column_name a) \<and> wf_literal (asg_value a)"

fun wf_statement :: "Statement \<Rightarrow> bool" where
  "wf_statement (CreateTable_stmt s) \<longleftrightarrow>
     is_name (ct_table_name s) \<and> ct_columns s \<noteq> [] \<and> list_all (\<lambda>c. is_name (col_name c)) (ct_columns s) \<and>
     pred_option (\<lambda>pk. pk \<in> col_name ` set (ct_columns s)) (ct_primary_key_column s)"
| "wf_statement (CreateIndex_stmt s) \<longleftrightarrow>
     is_name (ci_index_name s) \<and> is_name (ci_table_name s) \<and> is_name (ci_column_name s)"
| "wf_statement (Insert_stmt s) \<longleftrightarrow> is_name (ins_table_name s) \<and> ins_values s \<noteq> [] \<and> list_all wf_literal (ins_values s)"
| "wf_statement (Select_stmt s) \<longleftrightarrow>
     (if sel_star s then sel_list s = [] else sel_list s \<noteq> []) \<and> list_all wf_ref (sel_list s) \<and>
     is_name (sel_from_table s) \<and> pred_option wf_join (sel_join s) \<and> list_all wf_pred (sel_where s)"
| "wf_statement (Update_stmt s) \<longleftrightarrow>
     is_name (upd_table_name s) \<and> upd_assignments s \<noteq> [] \<and> list_all wf_assignment (upd_assignments s) \<and>
     list_all wf_pred (upd_where s)"
| "wf_statement (Delete_stmt s) \<longleftrightarrow> is_name (del_table_name s) \<and> list_all wf_pred (del_where s)"
| "wf_statement BeginStatement \<longleftrightarrow> True"
| "wf_statement CommitStatement \<longleftrightarrow> True"
| "wf_statement RollbackStatement \<longleftrightarrow> True"

section \<open>Printed tokens are well formed\<close>

lemma tk_word_valid:
  "list_all valid_token (map tk [kCreate, kTable, kIndex, kOn, TokenType.kInteger, TokenType.kText, kPrimary, kKey,
     kInsert, kInto, kValues, kSelect, kFrom, kJoin, kWhere, kAnd, kUpdate, kSet, kDelete, kBegin, kCommit, kRollback,
     kLParen, kRParen, kComma, kDot, kStar, TokenType.kEq, TokenType.kNeq, TokenType.kLt, TokenType.kLe,
     TokenType.kGt, TokenType.kGe])"
  by code_simp

lemma tk_valid [simp]: "ty \<notin> {kIdentifier, kIntegerLiteral, kStringLiteral, kSemicolon, kEndOfInput} \<Longrightarrow> valid_token (tk ty)"
  using tk_word_valid by (cases ty) simp_all

lemma name_tok_valid [simp]: "is_name s \<Longrightarrow> valid_token (name_tok s)"
  by (simp add: is_name_def name_tok_def valid_token_def mk_token_def symbol_text_def)

lemma int_text_integer: "is_integer (int_text v)"
proof -
  have d: "list_all isdigit (decimal n)" "decimal n \<noteq> []" for n by (rule decimal_digits) simp
  have "decimal n = hd (decimal n) # tl (decimal n)" for n by simp
  then have "isdigit (hd (decimal n))" "list_all isdigit (tl (decimal n))" for n
    using d(1) [of n] by (metis list.pred_inject(2))+
  with d show ?thesis by (simp add: is_integer_def int_text_def)
qed

lemma print_literal_valid [simp]: "wf_literal v \<Longrightarrow> valid_token (print_literal v)"
  by (cases "lit_kind v") (auto simp: print_literal_def valid_token_def mk_token_def stoll_int_text int_text_integer)

lemma print_cmp_valid [simp]: "valid_token (print_cmp c)"
  by (cases c) simp_all

lemma print_type_valid [simp]: "valid_token (print_type t)"
  by (cases t) simp_all

lemma print_ref_valid [simp]: "wf_ref c \<Longrightarrow> list_all valid_token (print_ref c)"
  by (auto simp: print_ref_def wf_ref_def split: option.split)

lemma print_pred_valid [simp]: "wf_pred p \<Longrightarrow> list_all valid_token (print_pred p)"
  by (simp add: print_pred_def wf_pred_def)

lemma print_tail_valid:
  "valid_token (tk sep) \<Longrightarrow> (\<And>x. x \<in> set xs \<Longrightarrow> list_all valid_token (pr x)) \<Longrightarrow> list_all valid_token (print_tail sep pr xs)"
  by (induction xs) (auto simp: print_tail_def)

lemma print_where_valid [simp]: "list_all wf_pred ps \<Longrightarrow> list_all valid_token (print_where ps)"
  by (auto simp: print_where_def list_all_iff [of wf_pred] intro!: print_tail_valid split: list.split)

lemma print_columns_valid [simp]:
  "list_all (\<lambda>c. is_name (col_name c)) cs \<Longrightarrow> list_all valid_token (print_columns pk cs)"
  by (induction cs arbitrary: pk) auto

lemma print_assignment_valid [simp]: "wf_assignment a \<Longrightarrow> list_all valid_token (print_assignment a)"
  by (simp add: print_assignment_def wf_assignment_def)

lemma print_join_valid [simp]: "wf_join j \<Longrightarrow> list_all valid_token (print_join j)"
  by (simp add: print_join_def wf_join_def)

lemma list_all_hd_tl: "list_all P xs \<Longrightarrow> xs \<noteq> [] \<Longrightarrow> P (hd xs) \<and> (\<forall>x \<in> set (tl xs). P x)"
  by (cases xs) (auto simp: list_all_iff)

lemma statement_tokens_valid: "wf_statement st \<Longrightarrow> list_all valid_token (statement_tokens st)"
  by (cases st) (auto intro!: print_tail_valid dest!: list_all_hd_tl split: option.split)

section \<open>Parsing printed tokens\<close>

text \<open>Tokens up to their positions; the parser never looks at a position except to report it.\<close>

definition bare :: "Token \<Rightarrow> Token" where
  "bare t = t\<lparr>tok_position := 0\<rparr>"

lemma bare_position [simp]: "bare (t\<lparr>tok_position := p\<rparr>) = bare t"
  by (simp add: bare_def)

lemma bare_tok: "bare t = mk_token ty tx v 0 \<longleftrightarrow> tok_type t = ty \<and> tok_text t = tx \<and> tok_int_value t = v"
  by (cases t) (auto simp: bare_def mk_token_def)

definition tk_text :: "TokenType \<Rightarrow> string" where
  "tk_text ty = (case symbol_text ty of Some s \<Rightarrow> s | None \<Rightarrow> TokenTypeName ty)"

lemma bare_tk [simp]: "bare t = tk ty \<longleftrightarrow> tok_type t = ty \<and> tok_text t = tk_text ty \<and> tok_int_value t = 0"
  by (simp add: tk_def bare_tok tk_text_def)

lemma bare_name [simp]: "bare t = name_tok s \<longleftrightarrow> tok_type t = kIdentifier \<and> tok_text t = s \<and> tok_int_value t = 0"
  by (simp add: name_tok_def bare_tok)

lemma bare_tk_sym [simp]: "tk ty = bare t \<longleftrightarrow> bare t = tk ty" "name_tok s = bare t \<longleftrightarrow> bare t = name_tok s"
  by (auto simp del: bare_tk bare_name)

lemma map_bare_append:
  assumes "map bare us = xs @ ys"
  obtains us1 us2 where "us = us1 @ us2" "map bare us1 = xs" "map bare us2 = ys"
  using assms by (auto simp: map_eq_append_conv)

named_theorems reads

lemma Check_Cons [reads]: "Check ty (t # ts) = (Inr (tok_type t = ty), t # ts)"
  by (simp add: Check_def bind_op_def)

lemma Match_Cons [reads]:
  "Match ty (t # ts) =
     (if tok_type t = ty then (Inr True, if ty = kEndOfInput then t # ts else ts) else (Inr False, t # ts))"
  by (simp add: Match_def Check_Cons bind_op_def)

lemma Expect_Cons [reads]: "tok_type t = ty \<Longrightarrow> ty \<noteq> kEndOfInput \<Longrightarrow> Expect ty (t # ts) = (Inr t, ts)"
  by (simp add: Expect_def Check_Cons bind_op_def)

lemma ExpectIdentifier_Cons [reads]: "tok_type t = kIdentifier \<Longrightarrow> ExpectIdentifier (t # ts) = (Inr (tok_text t), ts)"
  by (simp add: ExpectIdentifier_def Expect_Cons bind_op_def)

lemma Expect_bind: "tok_type t = ty \<Longrightarrow> ty \<noteq> kEndOfInput \<Longrightarrow> bind_op (Expect ty) k (t # ts) = k t ts"
  by (simp add: Expect_Cons bind_op_def)

lemma ExpectIdentifier_bind: "tok_type t = kIdentifier \<Longrightarrow> bind_op ExpectIdentifier k (t # ts) = k (tok_text t) ts"
  by (simp add: ExpectIdentifier_Cons bind_op_def)

lemma ExpectLiteral_Cons [reads]:
  "bare t = print_literal v \<Longrightarrow> wf_literal v \<Longrightarrow> ExpectLiteral (t # ts) = (Inr v, ts)"
  by (cases "lit_kind v")
    (auto simp: print_literal_def bare_tok ExpectLiteral_def Check_Cons bind_op_def wf_literal_def
      int_literal_def string_literal_def)

lemma ExpectComparator_Cons [reads]: "bare t = print_cmp c \<Longrightarrow> ExpectComparator (t # ts) = (Inr c, ts)"
  by (cases c) (simp_all add: ExpectComparator_def Match_Cons bind_op_def)

lemma ExpectColumnType_Cons [reads]: "bare t = print_type ty \<Longrightarrow> ExpectColumnType (t # ts) = (Inr ty, ts)"
  by (cases ty) (simp_all add: ExpectColumnType_def Match_Cons bind_op_def)

lemma ParseColumnRef_read [reads]:
  assumes "map bare us = print_ref c" and "tok_type t \<noteq> kDot"
  shows "ParseColumnRef (us @ t # ts) = (Inr c, t # ts)"
  using assms
  by (cases c; cases "ref_table_name c")
    (auto simp: print_ref_def map_eq_Cons_conv ParseColumnRef_def bind_op_def reads)

lemma print_cmp_not_dot: "bare t = print_cmp c \<Longrightarrow> tok_type t \<noteq> kDot"
  by (cases c) simp_all

lemma ParsePredicate_read [reads]:
  assumes "map bare us = print_pred p" and "wf_pred p"
  shows "ParsePredicate (us @ ts) = (Inr p, ts)"
proof -
  obtain us1 t1 t2 where us: "us = us1 @ [t1, t2]" "map bare us1 = print_ref (pred_column p)"
    "bare t1 = print_cmp (pred_op p)" "bare t2 = print_literal (pred_value p)"
    using assms(1) by (auto simp: print_pred_def map_eq_append_conv map_eq_Cons_conv)
  have "ParseColumnRef (us1 @ t1 # t2 # ts) = (Inr (pred_column p), t1 # t2 # ts)"
    using us(2) print_cmp_not_dot [OF us(3)] by (rule ParseColumnRef_read)
  with us assms(2) show ?thesis by (simp add: ParsePredicate_def bind_op_def reads wf_pred_def)
qed

lemma parse_assignment_read [reads]:
  assumes "map bare us = print_assignment a" and "wf_assignment a"
  shows "parse_assignment (us @ ts) = (Inr a, ts)"
  using assms
  by (auto simp: print_assignment_def map_eq_Cons_conv parse_assignment_def bind_op_def reads wf_assignment_def)

text \<open>The separated lists, for an element parser that may look at the token after the element.\<close>

lemma sep_loop_read:
  assumes eq: "\<And>ts. loop ts = bind_op (Match sep) (\<lambda>m ts1.
       if m then bind_op p (\<lambda>x. bind_op loop (\<lambda>xs. return_op (x # xs))) ts1 else return_op [] ts1) ts"
    and p: "\<And>us x t ts. map bare us = pr x \<Longrightarrow> x \<in> set xs \<Longrightarrow> ok (tok_type t) \<Longrightarrow> p (us @ t # ts) = (Inr x, t # ts)"
    and sep: "sep \<noteq> kEndOfInput" "ok sep" and last: "ok (tok_type t0)" "tok_type t0 \<noteq> sep"
    and us: "map bare us = print_tail sep pr xs"
  shows "loop (us @ t0 # rest) = (Inr xs, t0 # rest)"
  using p us
proof (induction xs arbitrary: us)
  case Nil
  then show ?case using last by (subst eq) (simp add: print_tail_def Match_Cons bind_op_def)
next
  case (Cons x xs)
  have step: "print_tail sep pr (x # xs) = tk sep # pr x @ print_tail sep pr xs" by (simp add: print_tail_def)
  obtain s us1 us2 where u: "us = s # us1 @ us2" "bare s = tk sep" "map bare us1 = pr x" "map bare us2 = print_tail sep pr xs"
    using Cons.prems(2) unfolding step by (auto simp: map_eq_Cons_conv map_eq_append_conv)
  have IH: "loop (us2 @ t0 # rest) = (Inr xs, t0 # rest)" using Cons.prems(1) u(4) by (intro Cons.IH) auto
  have "\<exists>t ts. us2 @ t0 # rest = t # ts \<and> ok (tok_type t)"
  proof (cases xs)
    case Nil
    with u(4) last show ?thesis by (simp add: print_tail_def)
  next
    case (Cons y ys)
    with u(4) sep show ?thesis by (auto simp: print_tail_def map_eq_Cons_conv)
  qed
  then obtain t ts where t: "us2 @ t0 # rest = t # ts" "ok (tok_type t)" by blast
  have "p (us1 @ t # ts) = (Inr x, t # ts)" using Cons.prems(1) [OF u(3) _ t(2)] by simp
  then show ?case
    using u(1,2) t(1) IH sep by (subst eq) (simp add: Match_Cons bind_op_def)
qed

lemmas where_tail_read = sep_loop_read [OF where_tail.simps, where pr = print_pred and ok = "\<lambda>_. True"]
lemmas value_tail_read = sep_loop_read [OF value_tail.simps, where pr = "\<lambda>v. [print_literal v]" and ok = "\<lambda>_. True"]
lemmas column_tail_read = sep_loop_read [OF column_tail.simps, where pr = print_ref and ok = "\<lambda>ty. ty \<noteq> kDot"]
lemmas assignment_tail_read = sep_loop_read [OF assignment_tail.simps, where pr = print_assignment and ok = "\<lambda>_. True"]

lemma column_defs_read:
  assumes "map bare us = print_columns pk cs" and "cs \<noteq> []" and "pk0 = None \<or> pk = None"
    and "pred_option (\<lambda>k. k \<in> col_name ` set cs) pk" and t0: "tok_type t0 \<noteq> kComma" "tok_type t0 \<noteq> kPrimary"
  shows "column_defs acc pk0 (us @ t0 # rest) = (Inr (acc @ cs, if pk = None then pk0 else pk), t0 # rest)"
  using assms(1-4)
proof (induction cs arbitrary: us acc pk pk0)
  case (Cons c cs)
  let ?key = "pk = Some (col_name c)"
  let ?pk' = "if ?key then None else pk"
  obtain n ty us1 us2 where u: "us = n # ty # us1 @ us2" "bare n = name_tok (col_name c)" "bare ty = print_type (col_type c)"
    "map bare us1 = (if ?key then [tk kPrimary, tk kKey] else [])"
    "map bare us2 = (if cs = [] then [] else tk kComma # print_columns ?pk' cs)"
    using Cons.prems(1) unfolding print_columns.simps by (auto simp: map_eq_Cons_conv map_eq_append_conv)
  have "\<exists>t ts. us2 @ t0 # rest = t # ts \<and> tok_type t \<noteq> kPrimary"
    using u(5) t0 by (cases "cs = []") (auto simp: map_eq_Cons_conv)
  then obtain t ts where t: "us2 @ t0 # rest = t # ts" "tok_type t \<noteq> kPrimary" by blast
  have key: "parse_primary_key (col_name c) pk0 (us1 @ t # ts) = (Inr (if ?key then pk else pk0), t # ts)"
    using u(4) t(2) Cons.prems(3)
    by (auto simp: parse_primary_key_def bind_op_def reads map_eq_Cons_conv split: if_splits)
  have cdef: "\<lparr>col_name = col_name c, col_type = col_type c\<rparr> = c" by simp
  have head: "column_defs acc pk0 (us @ t0 # rest) =
      bind_op (Match kComma) (\<lambda>m ts1. if m then column_defs (acc @ [c]) (if ?key then pk else pk0) ts1
        else return_op (acc @ [c], if ?key then pk else pk0) ts1) (t # ts)"
    using u(1-3) t(1) key by (subst column_defs.simps) (simp add: bind_op_def reads cdef)
  show ?case
  proof (cases "cs = []")
    case True
    with u(5) t have "t = t0" "ts = rest" by auto
    with head t0 True Cons.prems(3,4) show ?thesis
      by (auto simp: Match_Cons bind_op_def split: option.splits)
  next
    case False
    with u(5) t(1) obtain us3 where us3: "bare t = tk kComma" "ts = us3 @ t0 # rest" "map bare us3 = print_columns ?pk' cs"
      by (auto simp: map_eq_Cons_conv)
    have "column_defs (acc @ [c]) (if ?key then pk else pk0) (us3 @ t0 # rest) =
        (Inr ((acc @ [c]) @ cs, if ?pk' = None then (if ?key then pk else pk0) else ?pk'), t0 # rest)"
      using us3(3) False Cons.prems(3,4) by (intro Cons.IH; cases pk) auto
    then show ?thesis using head us3 by (auto simp: Match_Cons bind_op_def)
  qed
qed simp

lemma ParseOptionalWhereClause_read:
  assumes "map bare us = print_where ps" and "list_all wf_pred ps" and "tok_type t0 = kEndOfInput"
  shows "ParseOptionalWhereClause (us @ t0 # rest) = (Inr ps, t0 # rest)"
proof (cases ps)
  case Nil
  with assms show ?thesis by (simp add: print_where_def ParseOptionalWhereClause_def bind_op_def reads)
next
  case (Cons p ps')
  with assms(1) obtain w us1 us2 where u: "us = w # us1 @ us2" "tok_type w = kWhere" "map bare us1 = print_pred p"
    "map bare us2 = print_tail kAnd print_pred ps'"
    by (auto simp: print_where_def map_eq_Cons_conv map_eq_append_conv)
  have "where_tail (us2 @ t0 # rest) = (Inr ps', t0 # rest)"
    using u(4) assms(2,3) Cons by (intro where_tail_read) (auto simp: ParsePredicate_read list_all_iff)
  with u assms(2) Cons show ?thesis
    by (simp add: ParseOptionalWhereClause_def ParseWhereClause_def bind_op_def reads)
qed

lemma ParseJoinClause_read:
  assumes "map bare us = print_join j" and "tok_type t0 \<noteq> kDot"
  shows "ParseJoinClause (us @ t0 # rest) = (Inr j, t0 # rest)"
proof -
  from assms(1) obtain a b c us1 e us2 where u: "us = a # b # c # us1 @ e # us2" "tok_type a = kJoin"
    "tok_type b = kIdentifier" "tok_text b = join_table_name j" "tok_type c = kOn"
    "map bare us1 = print_ref (join_left_column j)" "tok_type e = TokenType.kEq"
    "map bare us2 = print_ref (join_right_column j)"
    unfolding print_join_def by (clarsimp simp: map_eq_Cons_conv map_eq_append_conv)
  have "ParseColumnRef (us1 @ e # us2 @ t0 # rest) = (Inr (join_left_column j), e # us2 @ t0 # rest)"
    using u(6,7) by (intro ParseColumnRef_read) simp_all
  moreover have "ParseColumnRef (us2 @ t0 # rest) = (Inr (join_right_column j), t0 # rest)"
    using u(8) assms(2) by (rule ParseColumnRef_read)
  ultimately show ?thesis using u by (simp add: ParseJoinClause_def bind_op_def reads)
qed

lemma where_start:
  assumes "map bare us = print_where ps" and "tok_type t0 = kEndOfInput"
  obtains t ts where "us @ t0 # rest = t # ts" "tok_type t \<in> {kWhere, kEndOfInput}"
  using assms by (cases ps) (auto simp: print_where_def map_eq_Cons_conv)

lemma ParseCreateTable_read:
  assumes "map bare us = statement_tokens (CreateTable_stmt s)" and "wf_statement (CreateTable_stmt s)"
  shows "ParseOneStatement (us @ t0 # rest) = (Inr (CreateTable_stmt s), t0 # rest)"
proof -
  from assms(1) obtain a b n l us1 r where u: "us = a # b # n # l # us1 @ [r]" "tok_type a = kCreate" "tok_type b = kTable"
    "tok_type n = kIdentifier" "tok_text n = ct_table_name s" "tok_type l = kLParen"
    "map bare us1 = print_columns (ct_primary_key_column s) (ct_columns s)" "tok_type r = kRParen"
    by (auto simp: map_eq_Cons_conv map_eq_append_conv)
  have "column_defs [] None (us1 @ r # t0 # rest) = (Inr ([] @ ct_columns s, if ct_primary_key_column s = None then None
      else ct_primary_key_column s), r # t0 # rest)"
    using u(7,8) assms(2) by (intro column_defs_read) auto
  then have "column_defs [] None (us1 @ r # t0 # rest) = (Inr (ct_columns s, ct_primary_key_column s), r # t0 # rest)"
    by (cases "ct_primary_key_column s") simp_all
  with u show ?thesis by (simp add: ParseOneStatement_def ParseCreate_def ParseCreateTable_def bind_op_def reads)
qed

lemma ParseInsert_read:
  assumes "map bare us = statement_tokens (Insert_stmt s)" and "wf_statement (Insert_stmt s)"
  shows "ParseOneStatement (us @ t0 # rest) = (Inr (Insert_stmt s), t0 # rest)"
proof -
  obtain v vs where vs: "ins_values s = v # vs" using assms(2) by (cases "ins_values s") auto
  from assms(1) obtain a b n c l x us1 r where u: "us = a # b # n # c # l # x # us1 @ [r]" "tok_type a = kInsert"
    "tok_type b = kInto" "tok_type n = kIdentifier" "tok_text n = ins_table_name s" "tok_type c = kValues"
    "tok_type l = kLParen" "bare x = print_literal v"
    "map bare us1 = print_tail kComma (\<lambda>v. [print_literal v]) vs" "tok_type r = kRParen"
    by (auto simp: map_eq_Cons_conv map_eq_append_conv vs)
  have "value_tail (us1 @ r # t0 # rest) = (Inr vs, r # t0 # rest)"
    using u(9,10) assms(2) vs by (intro value_tail_read) (auto simp: map_eq_Cons_conv list_all_iff reads)
  moreover have "\<lparr>ins_table_name = ins_table_name s, ins_values = v # vs\<rparr> = s" using vs by simp
  ultimately show ?thesis
    using u assms(2) vs by (simp add: ParseOneStatement_def ParseInsert_def bind_op_def reads)
qed

lemma select_list_read:
  assumes "map bare us = (if star then [tk kStar] else print_ref (hd cols) @ print_tail kComma print_ref (tl cols))"
    and "if star then cols = [] else cols \<noteq> []" and "tok_type t0 = kFrom"
  shows "bind_op (Match kStar) (\<lambda>s. bind_op (if s then return_op []
      else bind_op ParseColumnRef (\<lambda>c. bind_op column_tail (\<lambda>cs. return_op (c # cs)))) (k s)) (us @ t0 # rest) =
    k star cols (t0 # rest)"
proof (cases star)
  case True
  with assms show ?thesis by (auto simp: map_eq_Cons_conv bind_op_def reads)
next
  case False
  then obtain c cs where cs: "cols = c # cs" using assms(2) by (cases cols) auto
  with False assms(1) obtain us1 us2 where u: "us = us1 @ us2" "map bare us1 = print_ref c"
    "map bare us2 = print_tail kComma print_ref cs"
    by (auto simp: map_eq_append_conv)
  have tail: "column_tail (us2 @ t0 # rest) = (Inr cs, t0 # rest)"
    using u(3) assms(3) by (intro column_tail_read) (auto intro: ParseColumnRef_read)
  obtain t ts where t: "us2 @ t0 # rest = t # ts" "tok_type t \<noteq> kDot"
    using u(3) assms(3) by (cases cs) (auto simp: print_tail_def map_eq_Cons_conv)
  have "\<exists>x xs. us1 = x # xs \<and> tok_type x = kIdentifier"
    using u(2) by (auto simp: print_ref_def map_eq_Cons_conv split: option.splits)
  then obtain x xs where x: "us1 = x # xs" "tok_type x = kIdentifier" by blast
  have "ParseColumnRef (us1 @ t # ts) = (Inr c, t # ts)" using u(2) t(2) by (rule ParseColumnRef_read)
  then have "bind_op ParseColumnRef (\<lambda>c. bind_op column_tail (\<lambda>cs. return_op (c # cs))) (us @ t0 # rest) = (Inr cols, t0 # rest)"
    using u(1) t(1) tail cs by (simp add: bind_op_def)
  moreover have "Match kStar (us @ t0 # rest) = (Inr False, us @ t0 # rest)" using u(1) x by (simp add: reads)
  ultimately show ?thesis using False by (simp add: bind_op_def)
qed

lemma ParseSelect_read:
  assumes "map bare us = statement_tokens (Select_stmt s)" and "wf_statement (Select_stmt s)" and "tok_type t0 = kEndOfInput"
  shows "ParseOneStatement (us @ t0 # rest) = (Inr (Select_stmt s), t0 # rest)"
proof -
  let ?list = "if sel_star s then [tk kStar] else print_ref (hd (sel_list s)) @ print_tail kComma print_ref (tl (sel_list s))"
  let ?join = "case sel_join s of None \<Rightarrow> [] | Some j \<Rightarrow> print_join j"
  have toks: "statement_tokens (Select_stmt s) = [tk kSelect] @ ?list @ [tk kFrom, name_tok (sel_from_table s)] @ ?join @
      print_where (sel_where s)"
    by simp
  from assms(1) [unfolded toks] obtain as us1 fn us2 us3 where v: "us = as @ us1 @ fn @ us2 @ us3" "map bare as = [tk kSelect]"
    "map bare us1 = ?list" "map bare fn = [tk kFrom, name_tok (sel_from_table s)]"
    "map bare us2 = ?join" "map bare us3 = print_where (sel_where s)"
    by (elim map_bare_append) metis
  from v(2) obtain a where a: "as = [a]" "tok_type a = kSelect" by (auto simp: map_eq_Cons_conv)
  from v(4) obtain f n where fn: "fn = [f, n]" "tok_type f = kFrom" "tok_type n = kIdentifier" "tok_text n = sel_from_table s"
    by (auto simp: map_eq_Cons_conv)
  have u: "us = a # us1 @ f # n # us2 @ us3" "tok_type a = kSelect"
    "map bare us1 = ?list" "tok_type f = kFrom" "tok_type n = kIdentifier" "tok_text n = sel_from_table s"
    "map bare us2 = ?join" "map bare us3 = print_where (sel_where s)"
    using v a fn by simp_all
  have star: "if sel_star s then sel_list s = [] else sel_list s \<noteq> []" using assms(2) by simp
  have wh: "ParseOptionalWhereClause (us3 @ t0 # rest) = (Inr (sel_where s), t0 # rest)"
    using u(8) assms(2,3) by (intro ParseOptionalWhereClause_read) simp_all
  obtain t ts where t: "us3 @ t0 # rest = t # ts" "tok_type t \<in> {kWhere, kEndOfInput}"
    using where_start [OF u(8) assms(3)] by metis
  have join: "bind_op (Check kJoin) (\<lambda>j. bind_op (if j then bind_op ParseJoinClause (\<lambda>jc. return_op (Some jc)) else return_op None) k)
      (us2 @ t # ts) = k (sel_join s) (t # ts)" for k :: "JoinClause option \<Rightarrow> SelectStatement parser"
  proof (cases "sel_join s")
    case None
    with u(7) t(2) show ?thesis by (auto simp: bind_op_def reads)
  next
    case (Some j)
    have "ParseJoinClause (us2 @ t # ts) = (Inr j, t # ts)" using u(7) t(2) Some by (intro ParseJoinClause_read) auto
    moreover have "Check kJoin (us2 @ t # ts) = (Inr True, us2 @ t # ts)"
      using u(7) Some by (auto simp: print_join_def map_eq_Cons_conv reads)
    ultimately show ?thesis using Some by (simp add: bind_op_def)
  qed
  have "ParseSelect (us1 @ f # n # us2 @ us3 @ t0 # rest) = (Inr s, t0 # rest)"
    unfolding ParseSelect_def select_list_read [OF u(3) star u(4)] using u(4-6) wh [unfolded t(1)]
    by (simp add: Expect_bind ExpectIdentifier_bind t(1) join bind_op_Inr [of ParseOptionalWhereClause])
  with u(1,2) show ?thesis by (simp add: ParseOneStatement_def bind_op_def reads)
qed

lemma ParseUpdate_read:
  assumes "map bare us = statement_tokens (Update_stmt s)" and "wf_statement (Update_stmt s)" and "tok_type t0 = kEndOfInput"
  shows "ParseOneStatement (us @ t0 # rest) = (Inr (Update_stmt s), t0 # rest)"
proof -
  obtain x xs where xs: "upd_assignments s = x # xs" using assms(2) by (cases "upd_assignments s") auto
  have toks: "statement_tokens (Update_stmt s) = [tk kUpdate, name_tok (upd_table_name s), tk kSet] @ print_assignment x @
      print_tail kComma print_assignment xs @ print_where (upd_where s)"
    using xs by simp
  from assms(1) [unfolded toks] obtain as us1 us2 us3 where v: "us = as @ us1 @ us2 @ us3"
    "map bare as = [tk kUpdate, name_tok (upd_table_name s), tk kSet]" "map bare us1 = print_assignment x"
    "map bare us2 = print_tail kComma print_assignment xs" "map bare us3 = print_where (upd_where s)"
    by (elim map_bare_append) metis
  from v(2) obtain a n b where "as = [a, n, b]" "tok_type a = kUpdate" "tok_type n = kIdentifier"
    "tok_text n = upd_table_name s" "tok_type b = kSet"
    by (auto simp: map_eq_Cons_conv)
  with v have u: "us = a # n # b # us1 @ us2 @ us3" "tok_type a = kUpdate"
    "tok_type n = kIdentifier" "tok_text n = upd_table_name s" "tok_type b = kSet" "map bare us1 = print_assignment x"
    "map bare us2 = print_tail kComma print_assignment xs" "map bare us3 = print_where (upd_where s)"
    by simp_all
  have wh: "ParseOptionalWhereClause (us3 @ t0 # rest) = (Inr (upd_where s), t0 # rest)"
    using u(8) assms(2,3) by (intro ParseOptionalWhereClause_read) simp_all
  obtain t ts where t: "us3 @ t0 # rest = t # ts" "tok_type t \<in> {kWhere, kEndOfInput}"
    using where_start [OF u(8) assms(3)] by metis
  have tail: "assignment_tail (us2 @ t # ts) = (Inr xs, t # ts)"
    using u(7) t(2) assms(2) xs
    by (intro assignment_tail_read) (auto simp: list_all_iff intro: parse_assignment_read)
  have "\<lparr>upd_table_name = upd_table_name s, upd_assignments = x # xs, upd_where = upd_where s\<rparr> = s" using xs by simp
  with u tail wh t(1) xs assms(2) show ?thesis
    by (simp add: ParseOneStatement_def ParseUpdate_def bind_op_def reads)
qed

lemma ParseDelete_read:
  assumes "map bare us = statement_tokens (Delete_stmt s)" and "wf_statement (Delete_stmt s)" and "tok_type t0 = kEndOfInput"
  shows "ParseOneStatement (us @ t0 # rest) = (Inr (Delete_stmt s), t0 # rest)"
proof -
  from assms(1) obtain a b n us1 where u: "us = a # b # n # us1" "tok_type a = kDelete" "tok_type b = kFrom"
    "tok_type n = kIdentifier" "tok_text n = del_table_name s" "map bare us1 = print_where (del_where s)"
    by (auto simp: map_eq_Cons_conv)
  have "ParseOptionalWhereClause (us1 @ t0 # rest) = (Inr (del_where s), t0 # rest)"
    using u(6) assms(2,3) by (intro ParseOptionalWhereClause_read) simp_all
  with u show ?thesis by (simp add: ParseOneStatement_def ParseDelete_def bind_op_def reads)
qed

lemma ParseOneStatement_read:
  assumes "map bare us = statement_tokens st" and "wf_statement st" and "tok_type t0 = kEndOfInput"
  shows "ParseOneStatement (us @ t0 # rest) = (Inr st, t0 # rest)"
proof (cases st)
  case (CreateIndex_stmt s)
  with assms show ?thesis
    by (auto simp: map_eq_Cons_conv ParseOneStatement_def ParseCreate_def ParseCreateIndex_def bind_op_def reads)
qed (use assms ParseCreateTable_read ParseInsert_read ParseSelect_read ParseUpdate_read ParseDelete_read in
    \<open>auto simp: map_eq_Cons_conv ParseOneStatement_def bind_op_def reads\<close>)

section \<open>The round trip\<close>

lemma place_bare:
  "\<exists>us p. place pos ts = us @ [mk_token kEndOfInput [] 0 p] \<and> map bare us = map bare ts"
proof (induction ts arbitrary: pos)
  case (Cons t ts)
  obtain us p where "place (Suc (pos + length (show_token t))) ts = us @ [mk_token kEndOfInput [] 0 p]" "map bare us = map bare ts"
    using Cons.IH by blast
  then show ?case by (intro exI [of _ "t\<lparr>tok_position := pos\<rparr> # us"] exI [of _ p]) simp
qed auto

lemma bare_printed [simp]:
  "bare (tk ty) = tk ty" "bare (name_tok s) = name_tok s" "bare (print_literal v) = print_literal v"
  "bare (print_cmp c) = print_cmp c" "bare (print_type t) = print_type t"
proof -
  show tk: "bare (tk ty) = tk ty" for ty by (simp add: tk_def bare_def mk_token_def)
  show "bare (name_tok s) = name_tok s" by (simp add: name_tok_def bare_def mk_token_def)
  show "bare (print_literal v) = print_literal v"
    by (cases "lit_kind v") (simp_all add: print_literal_def bare_def mk_token_def)
  show "bare (print_cmp c) = print_cmp c" by (cases c) (simp_all only: print_cmp.simps tk)
  show "bare (print_type t) = print_type t" by (cases t) (simp_all only: print_type.simps tk)
qed

lemma statement_tokens_bare: "map bare (statement_tokens st) = statement_tokens st"
proof -
  have ref: "map bare (print_ref c) = print_ref c" for c
    by (auto simp: print_ref_def simp del: bare_tk bare_name split: option.split)
  have pred: "map bare (print_pred p) = print_pred p" for p by (simp add: print_pred_def ref del: bare_tk bare_name)
  have asg: "map bare (print_assignment a) = print_assignment a" for a by (simp add: print_assignment_def del: bare_tk bare_name)
  have wh: "map bare (print_where ps) = print_where ps" for ps
  proof (cases ps)
    case (Cons p ps')
    have "map bare (print_tail kAnd print_pred ps') = print_tail kAnd print_pred ps'"
      by (induction ps') (simp_all add: print_tail_def pred del: bare_tk bare_name)
    with Cons show ?thesis by (simp add: print_where_def pred del: bare_tk bare_name)
  qed (simp add: print_where_def)
  have cols: "map bare (print_columns pk cs) = print_columns pk cs" for pk cs
    by (induction cs arbitrary: pk) (simp_all del: bare_tk bare_name)
  have lits: "map bare (print_tail kComma (\<lambda>v. [print_literal v]) vs) = print_tail kComma (\<lambda>v. [print_literal v]) vs" for vs
    by (induction vs) (simp_all add: print_tail_def del: bare_tk bare_name)
  have refs: "map bare (print_tail kComma print_ref vs) = print_tail kComma print_ref vs" for vs
    by (induction vs) (simp_all add: print_tail_def ref del: bare_tk bare_name)
  have asgs: "map bare (print_tail kComma print_assignment vs) = print_tail kComma print_assignment vs" for vs
    by (induction vs) (simp_all add: print_tail_def asg del: bare_tk bare_name)
  show ?thesis
    by (cases st)
      (simp_all add: ref pred asg wh cols lits refs asgs print_join_def del: bare_tk bare_name split: option.split)
qed

text \<open>
  C30. Parsing inverts printing: for every statement the grammar can express (legal identifiers, non-empty
  lists, a primary key among the columns, any 64-bit integer and any string, quotes included), \<open>Parse\<close>
  of its printed text returns exactly that statement. So the lexer and the parser accept the whole
  grammar and lose nothing of a statement.
\<close>

theorem Parse_print:
  assumes "wf_statement st"
  shows "Parse (show_tokens (statement_tokens st)) = Inr st"
proof -
  have "Tokenize (show_tokens (statement_tokens st)) = Inr (place 0 (statement_tokens st))"
    unfolding Tokenize_def using statement_tokens_valid [OF assms] by (rule lex_from_show)
  moreover obtain us p where us: "place 0 (statement_tokens st) = us @ [mk_token kEndOfInput [] 0 p]"
    "map bare us = statement_tokens st"
    using place_bare [of 0 "statement_tokens st"] statement_tokens_bare [of st] by metis
  moreover have "ParseOneStatement (us @ mk_token kEndOfInput [] 0 p # []) = (Inr st, mk_token kEndOfInput [] 0 p # [])"
    using us(2) assms by (rule ParseOneStatement_read) (simp add: mk_token_def)
  ultimately show ?thesis
    by (simp add: Parse_def ParseStatementTopLevel_def bind_op_def reads mk_token_def)
qed

theorem Parse_print_witness:
  "Parse (show_tokens (statement_tokens (Insert_stmt \<lparr>ins_table_name = ''t'',
     ins_values = [int_literal (- 5), string_literal [quote, CHR ''a'']]\<rparr>))) =
   Inr (Insert_stmt \<lparr>ins_table_name = ''t'', ins_values = [int_literal (- 5), string_literal [quote, CHR ''a'']]\<rparr>)"
proof -
  have n: "is_name ''t''" by code_simp
  show ?thesis by (rule Parse_print) (simp add: n wf_literal_def)
qed

end
