(* ===== verification/Btree_Node.thy ===== *)
theory Btree_Node
  imports Slotted_Page
begin

text \<open>
  The nodes of a B+-tree and their bytes (\<open>src/src/index/btree.cpp\<close>, lines 28 to 310): capacities, the
  leaf, internal and header page formats, and the two searches for a split position. A node that is
  written and read back is unchanged (\<open>Deserialize_SerializeLeaf\<close>, \<open>Deserialize_SerializeInternal\<close>);
  a split position separates different keys (\<open>FindSplitBoundary_strict\<close>, \<open>FindRebalanceSplit_strict\<close>).
  Keys are signed: they are compared through \<^const>\<open>sint\<close>.
\<close>

section \<open>Constants\<close>

definition kOffPageType :: nat where
  "kOffPageType = 4"

definition kOffKeyCount :: nat where
  "kOffKeyCount = 6"

definition kOffNextLeaf :: nat where
  "kOffNextLeaf = 8"

definition kBTreeHeaderSize :: nat where
  "kBTreeHeaderSize = 16"

definition kRootHeaderPageId :: PageId where
  "kRootHeaderPageId = 0"

definition kLeafEntrySize :: nat where
  "kLeafEntrySize = 8 + 4 + 2"

definition kMaxTraversalSteps :: nat where
  "kMaxTraversalSteps = 10000"

definition kMaxValidateDepth :: nat where
  "kMaxValidateDepth = 500"

definition kLeafMaxKeys :: nat where
  "kLeafMaxKeys = (PAGE_SIZE - kBTreeHeaderSize) div kLeafEntrySize"

definition kLeafMinKeys :: nat where
  "kLeafMinKeys = kLeafMaxKeys div 2"

definition kInternalMaxKeys :: nat where
  "kInternalMaxKeys = (PAGE_SIZE - kBTreeHeaderSize - 4) div (8 + 4)"

definition kInternalMinKeys :: nat where
  "kInternalMinKeys = kInternalMaxKeys div 2"

definition kOffHeaderRootPageId :: nat where
  "kOffHeaderRootPageId = kBTreeHeaderSize"

lemma capacities:
  "kLeafMaxKeys = 291" "kLeafMinKeys = 145" "kInternalMaxKeys = 339" "kInternalMinKeys = 169"
  by (simp_all add: kLeafMaxKeys_def kLeafMinKeys_def kInternalMaxKeys_def kInternalMinKeys_def kBTreeHeaderSize_def kLeafEntrySize_def)

lemmas node_offsets = kOffPageType_def kOffKeyCount_def kOffNextLeaf_def kBTreeHeaderSize_def kLeafEntrySize_def kOffHeaderRootPageId_def

section \<open>Nodes and their pages\<close>

record LeafNode =
  leaf_page_id :: PageId
  leaf_next_leaf :: PageId
  leaf_keys :: "int64 list"
  leaf_values :: "RID list"

record InternalNode =
  node_page_id :: PageId
  node_keys :: "int64 list"
  node_children :: "PageId list"

definition ReadPageType :: "page \<Rightarrow> uint16" where
  "ReadPageType buf = ReadAt 2 buf kOffPageType"

text \<open>The loop over the entries; \<open>off\<close> moves by one entry in each round.\<close>

fun write_entries :: "nat \<Rightarrow> int64 list \<Rightarrow> RID list \<Rightarrow> page \<Rightarrow> page" where
  "write_entries off (k # ks) (v # vs) buf =
     write_entries (off + 14) ks vs
       (WriteAt 2 (WriteAt 4 (WriteAt 8 buf off k) (off + 8) (rid_page_id v)) (off + 12) (rid_slot_id v))"
| "write_entries off _ _ buf = buf"

definition SerializeLeaf :: "LeafNode \<Rightarrow> page" where
  "SerializeLeaf leaf =
     (let b1 = WriteAt 4 blank_page 0 (leaf_page_id leaf);
          b2 = WriteAt 2 b1 kOffPageType (page_type_tag kBTreeLeaf);
          b3 = WriteAt 2 b2 kOffKeyCount (of_nat (length (leaf_keys leaf)) :: uint16);
          b4 = WriteAt 4 b3 kOffNextLeaf (leaf_next_leaf leaf)
      in write_entries kBTreeHeaderSize (leaf_keys leaf) (leaf_values leaf) b4)"

fun read_entries :: "nat \<Rightarrow> nat \<Rightarrow> page \<Rightarrow> (int64 \<times> RID) list" where
  "read_entries 0 off buf = []"
| "read_entries (Suc n) off buf =
     (ReadAt 8 buf off, \<lparr>rid_page_id = ReadAt 4 buf (off + 8), rid_slot_id = ReadAt 2 buf (off + 12)\<rparr>)
       # read_entries n (off + 14) buf"

definition DeserializeLeaf :: "page \<Rightarrow> LeafNode" where
  "DeserializeLeaf buf =
     (let count = unat (ReadAt 2 buf kOffKeyCount :: uint16); es = read_entries count kBTreeHeaderSize buf
      in \<lparr>leaf_page_id = ReadAt 4 buf 0, leaf_next_leaf = ReadAt 4 buf kOffNextLeaf,
          leaf_keys = map fst es, leaf_values = map snd es\<rparr>)"

fun write_children :: "nat \<Rightarrow> int64 list \<Rightarrow> PageId list \<Rightarrow> page \<Rightarrow> page" where
  "write_children off (k # ks) (c # cs) buf =
     write_children (off + 12) ks cs (WriteAt 4 (WriteAt 8 buf off k) (off + 8) c)"
| "write_children off _ _ buf = buf"

definition SerializeInternal :: "InternalNode \<Rightarrow> page" where
  "SerializeInternal node =
     (let b1 = WriteAt 4 blank_page 0 (node_page_id node);
          b2 = WriteAt 2 b1 kOffPageType (page_type_tag kBTreeInternal);
          b3 = WriteAt 2 b2 kOffKeyCount (of_nat (length (node_keys node)) :: uint16);
          b4 = WriteAt 4 b3 kBTreeHeaderSize (hd (node_children node))
      in write_children (kBTreeHeaderSize + 4) (node_keys node) (tl (node_children node)) b4)"

fun read_children :: "nat \<Rightarrow> nat \<Rightarrow> page \<Rightarrow> (int64 \<times> PageId) list" where
  "read_children 0 off buf = []"
| "read_children (Suc n) off buf = (ReadAt 8 buf off, ReadAt 4 buf (off + 8)) # read_children n (off + 12) buf"

definition DeserializeInternal :: "page \<Rightarrow> InternalNode" where
  "DeserializeInternal buf =
     (let count = unat (ReadAt 2 buf kOffKeyCount :: uint16); es = read_children count (kBTreeHeaderSize + 4) buf
      in \<lparr>node_page_id = ReadAt 4 buf 0, node_keys = map fst es,
          node_children = ReadAt 4 buf kBTreeHeaderSize # map snd es\<rparr>)"

definition SerializeHeader :: "PageId \<Rightarrow> page" where
  "SerializeHeader root_page_id =
     (let b1 = WriteAt 4 blank_page 0 kRootHeaderPageId;
          b2 = WriteAt 2 b1 kOffPageType (page_type_tag kBTreeHeader)
      in WriteAt 4 b2 kOffHeaderRootPageId root_page_id)"

definition DeserializeHeaderRootPageId :: "page \<Rightarrow> PageId" where
  "DeserializeHeaderRootPageId buf = ReadAt 4 buf kOffHeaderRootPageId"

section \<open>Split positions\<close>

text \<open>The forward loop from \<open>i\<close>, then the backward loop; \<open>keys[i - 1]\<close> is read only for \<open>i\<close> positive.\<close>

fun split_forward :: "int64 list \<Rightarrow> nat \<Rightarrow> nat \<Rightarrow> nat option" where
  "split_forward keys i 0 = None"
| "split_forward keys i (Suc n) = (if keys ! i \<noteq> keys ! (i - 1) then Some i else split_forward keys (i + 1) n)"

fun split_backward :: "int64 list \<Rightarrow> nat \<Rightarrow> nat option" where
  "split_backward keys 0 = None"
| "split_backward keys (Suc i) = (if keys ! Suc i \<noteq> keys ! i then Some (Suc i) else split_backward keys i)"

definition FindSplitBoundary :: "int64 list \<Rightarrow> nat \<Rightarrow> nat" where
  "FindSplitBoundary keys naive_mid =
     (case split_forward keys naive_mid (length keys - naive_mid) of
        Some i \<Rightarrow> i
      | None \<Rightarrow> (case split_backward keys naive_mid of Some i \<Rightarrow> i | None \<Rightarrow> naive_mid))"

text \<open>The outward search; the loop ends when \<open>offset\<close> leaves the range on both sides.\<close>

function rebalance_search :: "int64 list \<Rightarrow> nat \<Rightarrow> nat \<Rightarrow> nat \<Rightarrow> nat \<Rightarrow> nat option" where
  "rebalance_search keys min_split max_split ideal offset =
     (if ideal + offset \<le> max_split \<and> keys ! (ideal + offset - 1) \<noteq> keys ! (ideal + offset) then Some (ideal + offset)
      else if offset \<le> ideal - min_split \<and> keys ! (ideal - offset - 1) \<noteq> keys ! (ideal - offset) then Some (ideal - offset)
      else if ideal + offset \<le> max_split \<or> offset \<le> ideal - min_split
        then rebalance_search keys min_split max_split ideal (offset + 1)
      else None)"
  by pat_completeness auto
termination
  by (relation "measure (\<lambda>(_, min_split, max_split, ideal, offset). (max_split + ideal + 1) - offset)") auto

declare rebalance_search.simps [simp del]

definition clamp :: "nat \<Rightarrow> nat \<Rightarrow> nat \<Rightarrow> nat" where
  "clamp v lo hi = (if v < lo then lo else if v > hi then hi else v)"

definition FindRebalanceSplit :: "int64 list \<Rightarrow> nat \<Rightarrow> nat \<Rightarrow> nat \<Rightarrow> nat option" where
  "FindRebalanceSplit keys min_split max_split ideal0 =
     (let ideal1 = (if ideal0 < min_split then min_split else ideal0);
          ideal = (if ideal1 > max_split then max_split else ideal1)
      in if keys ! (ideal - 1) \<noteq> keys ! ideal then Some ideal
         else rebalance_search keys min_split max_split ideal 1)"

text \<open>
  \<open>std::upper_bound\<close> on a sorted range: the first position whose key is greater.
\<close>

definition upper_bound :: "int64 list \<Rightarrow> int64 \<Rightarrow> nat" where
  "upper_bound keys key = length (takeWhile (\<lambda>k. sint k \<le> sint key) keys)"

section \<open>Round trips\<close>

lemma length_write_entries:
  "length ks = length vs \<Longrightarrow> off + 14 * length ks \<le> length buf \<Longrightarrow> length (write_entries off ks vs buf) = length buf"
  by (induction off ks vs buf rule: write_entries.induct) (simp_all add: length_WriteAt)

lemma ReadAt_write_entries:
  "length ks = length vs \<Longrightarrow> off + 14 * length ks \<le> length buf \<Longrightarrow> o1 + n \<le> off \<Longrightarrow>
   ReadAt n (write_entries off ks vs buf) o1 = (ReadAt n buf o1 :: 'a::len word)"
  by (induction off ks vs buf rule: write_entries.induct) (simp_all add: length_WriteAt ReadAt_WriteAt_before)

lemma read_write_entries:
  "length ks = length vs \<Longrightarrow> off + 14 * length ks \<le> length buf \<Longrightarrow>
   read_entries (length ks) off (write_entries off ks vs buf) = zip ks vs"
  by (induction off ks vs buf rule: write_entries.induct)
    (simp_all add: buffer_simps ReadAt_write_entries)

lemma length_write_children:
  "length ks = length cs \<Longrightarrow> off + 12 * length ks \<le> length buf \<Longrightarrow> length (write_children off ks cs buf) = length buf"
  by (induction off ks cs buf rule: write_children.induct) (simp_all add: length_WriteAt)

lemma ReadAt_write_children:
  "length ks = length cs \<Longrightarrow> off + 12 * length ks \<le> length buf \<Longrightarrow> o1 + n \<le> off \<Longrightarrow>
   ReadAt n (write_children off ks cs buf) o1 = (ReadAt n buf o1 :: 'a::len word)"
  by (induction off ks cs buf rule: write_children.induct) (simp_all add: length_WriteAt ReadAt_WriteAt_before)

lemma read_write_children:
  "length ks = length cs \<Longrightarrow> off + 12 * length ks \<le> length buf \<Longrightarrow>
   read_children (length ks) off (write_children off ks cs buf) = zip ks cs"
  by (induction off ks cs buf rule: write_children.induct)
    (simp_all add: buffer_simps ReadAt_write_children)

lemma page_tags:
  "page_type_tag kBTreeLeaf \<noteq> page_type_tag kBTreeInternal" "page_type_tag kBTreeLeaf \<noteq> page_type_tag kBTreeHeader"
  by simp_all

lemma Deserialize_SerializeLeaf:
  assumes "length (leaf_keys leaf) = length (leaf_values leaf)" and "length (leaf_keys leaf) \<le> kLeafMaxKeys"
  shows "DeserializeLeaf (SerializeLeaf leaf) = leaf" and "ReadPageType (SerializeLeaf leaf) = page_type_tag kBTreeLeaf"
    and "length (SerializeLeaf leaf) = PAGE_SIZE"
proof -
  have small: "length (leaf_keys leaf) \<le> 291" using assms(2) by (simp add: capacities)
  then have u: "unat (of_nat (length (leaf_values leaf)) :: uint16) = length (leaf_values leaf)"
    using assms(1) by (intro unat_of_nat_small) simp
  show "DeserializeLeaf (SerializeLeaf leaf) = leaf"
    using small assms(1) read_write_entries [OF assms(1)] u
    by (simp add: SerializeLeaf_def DeserializeLeaf_def Let_def node_offsets ReadAt_write_entries buffer_simps length_blank_page)
  show "ReadPageType (SerializeLeaf leaf) = page_type_tag kBTreeLeaf"
    using small assms(1)
    by (simp add: SerializeLeaf_def ReadPageType_def Let_def node_offsets ReadAt_write_entries buffer_simps length_blank_page)
  show "length (SerializeLeaf leaf) = PAGE_SIZE"
    using small assms(1) by (simp add: SerializeLeaf_def Let_def node_offsets length_write_entries buffer_simps length_blank_page)
qed

lemma Deserialize_SerializeInternal:
  assumes "length (node_children node) = Suc (length (node_keys node))" and "length (node_keys node) \<le> kInternalMaxKeys"
  shows "DeserializeInternal (SerializeInternal node) = node" and "ReadPageType (SerializeInternal node) = page_type_tag kBTreeInternal"
    and "length (SerializeInternal node) = PAGE_SIZE"
proof -
  have small: "length (node_keys node) \<le> 339" using assms(2) by (simp add: capacities)
  have eq: "length (node_keys node) = length (tl (node_children node))" using assms(1) by simp
  have u: "unat (of_nat (length (node_keys node)) :: uint16) = length (node_keys node)"
    using small by (intro unat_of_nat_small) simp
  have cs: "hd (node_children node) # tl (node_children node) = node_children node"
    using assms(1) by (cases "node_children node") simp_all
  show "DeserializeInternal (SerializeInternal node) = node"
    using small cs read_write_children [OF eq] eq u
    by (simp add: SerializeInternal_def DeserializeInternal_def Let_def node_offsets ReadAt_write_children buffer_simps length_blank_page
      del: length_tl)
  show "ReadPageType (SerializeInternal node) = page_type_tag kBTreeInternal"
    using small eq
    by (simp add: SerializeInternal_def ReadPageType_def Let_def node_offsets ReadAt_write_children buffer_simps length_blank_page
      del: length_tl)
  show "length (SerializeInternal node) = PAGE_SIZE"
    using small eq by (simp add: SerializeInternal_def Let_def node_offsets length_write_children buffer_simps length_blank_page
      del: length_tl)
qed

lemma Deserialize_SerializeHeader:
  "DeserializeHeaderRootPageId (SerializeHeader root) = root" "length (SerializeHeader root) = PAGE_SIZE"
  by (simp_all add: SerializeHeader_def DeserializeHeaderRootPageId_def Let_def node_offsets buffer_simps length_blank_page)

section \<open>Split positions separate keys\<close>

lemma split_forward_Some:
  "split_forward keys i n = Some j \<Longrightarrow> i \<le> j \<and> j < i + n \<and> keys ! j \<noteq> keys ! (j - 1)"
  by (induction keys i n rule: split_forward.induct) (auto split: if_splits)

lemma split_forward_None:
  "split_forward keys i n = None \<Longrightarrow> i \<le> j \<Longrightarrow> j < i + n \<Longrightarrow> keys ! j = keys ! (j - 1)"
proof (induction keys i n rule: split_forward.induct)
  case (2 keys i n)
  then show ?case by (cases "j = i") (auto split: if_splits)
qed simp

lemma split_backward_Some: "split_backward keys i = Some j \<Longrightarrow> 0 < j \<and> j \<le> i \<and> keys ! j \<noteq> keys ! (j - 1)"
  by (induction keys i rule: split_backward.induct) (auto split: if_splits)

lemma split_backward_None: "split_backward keys i = None \<Longrightarrow> 0 < j \<Longrightarrow> j \<le> i \<Longrightarrow> keys ! j = keys ! (j - 1)"
proof (induction keys i rule: split_backward.induct)
  case (2 keys i)
  then show ?case by (cases "j = Suc i") (auto split: if_splits)
qed simp

lemma same_neighbours:
  assumes "\<forall>j. 0 < j \<and> j < n \<longrightarrow> xs ! j = xs ! (j - 1)"
  shows "i < n \<Longrightarrow> xs ! i = xs ! 0"
proof (induction i)
  case (Suc i)
  then show ?case using assms [rule_format, of "Suc i"] by simp
qed simp

text \<open>Unless all keys are equal, a split puts different keys on its two sides and leaves neither empty.\<close>

lemma FindSplitBoundary_strict:
  assumes "0 < mid" and "mid < length keys" and "\<exists>k \<in> set keys. k \<noteq> keys ! 0"
  defines "m \<equiv> FindSplitBoundary keys mid"
  shows "0 < m" and "m < length keys" and "keys ! m \<noteq> keys ! (m - 1)"
proof -
  have "0 < m \<and> m < length keys \<and> keys ! m \<noteq> keys ! (m - 1)"
  proof (cases "split_forward keys mid (length keys - mid)")
    case (Some j)
    with split_forward_Some [OF Some] assms(1,2) show ?thesis by (auto simp: m_def FindSplitBoundary_def)
  next
    case None
    show ?thesis
    proof (cases "split_backward keys mid")
      case (Some j)
      with None split_backward_Some [OF Some] assms(1,2) show ?thesis by (auto simp: m_def FindSplitBoundary_def)
    next
      case bNone: None
      have "\<forall>j. 0 < j \<and> j < length keys \<longrightarrow> keys ! j = keys ! (j - 1)"
        using split_forward_None [OF None] split_backward_None [OF bNone] assms(2)
        by (metis add_diff_inverse_nat le_eq_less_or_eq not_le order_less_imp_not_less)
      with same_neighbours [of "length keys" keys] assms(3) show ?thesis by (auto simp: in_set_conv_nth)
    qed
  qed
  then show "0 < m" "m < length keys" "keys ! m \<noteq> keys ! (m - 1)" by simp_all
qed

lemma FindSplitBoundary_distinct: "0 < mid \<Longrightarrow> mid < length keys \<Longrightarrow> distinct keys \<Longrightarrow> FindSplitBoundary keys mid = mid"
proof -
  assume a: "0 < mid" "mid < length keys" "distinct keys"
  then obtain n where "length keys - mid = Suc n" by (metis Suc_diff_Suc)
  moreover have "keys ! mid \<noteq> keys ! (mid - 1)" using a by (simp add: nth_eq_iff_index_eq)
  ultimately show "FindSplitBoundary keys mid = mid" by (simp add: FindSplitBoundary_def)
qed

lemma rebalance_search_Some:
  assumes "min_split \<le> ideal" and "ideal \<le> max_split" and "rebalance_search keys min_split max_split ideal offset = Some j"
  shows "min_split \<le> j \<and> j \<le> max_split \<and> keys ! (j - 1) \<noteq> keys ! j"
  using assms
proof (induction keys min_split max_split ideal offset rule: rebalance_search.induct)
  case (1 keys min_split max_split ideal offset)
  from 1(4) show ?case
    by (subst (asm) rebalance_search.simps) (use 1(1-3) in \<open>auto split: if_splits\<close>)
qed

lemma rebalance_search_None:
  assumes "rebalance_search keys min_split max_split ideal offset = None" and "offset \<le> d"
  shows "(ideal + d \<le> max_split \<longrightarrow> keys ! (ideal + d - 1) = keys ! (ideal + d)) \<and>
    (d \<le> ideal - min_split \<longrightarrow> keys ! (ideal - d - 1) = keys ! (ideal - d))"
  using assms
proof (induction keys min_split max_split ideal offset rule: rebalance_search.induct)
  case (1 keys min_split max_split ideal offset)
  from 1(2) have step: "\<not> (ideal + offset \<le> max_split \<and> keys ! (ideal + offset - 1) \<noteq> keys ! (ideal + offset))"
    "\<not> (offset \<le> ideal - min_split \<and> keys ! (ideal - offset - 1) \<noteq> keys ! (ideal - offset))"
    "ideal + offset \<le> max_split \<or> offset \<le> ideal - min_split \<Longrightarrow> rebalance_search keys min_split max_split ideal (offset + 1) = None"
    by (subst (asm) rebalance_search.simps, simp split: if_splits)+
  show ?case
  proof (cases "d = offset")
    case True
    with step(1,2) show ?thesis by auto
  next
    case False
    with 1(3) have d: "offset + 1 \<le> d" by simp
    show ?thesis
    proof (cases "ideal + offset \<le> max_split \<or> offset \<le> ideal - min_split")
      case True
      from 1(1) [OF step(1,2) True step(3) [OF True] d] show ?thesis .
    next
      case False
      with d show ?thesis by auto
    qed
  qed
qed

text \<open>If some position in the range separates different keys, the search finds one.\<close>

lemma FindRebalanceSplit_strict:
  assumes "min_split \<le> b" and "b \<le> max_split" and "keys ! (b - 1) \<noteq> keys ! b"
  obtains j where "FindRebalanceSplit keys min_split max_split ideal0 = Some j" "min_split \<le> j" "j \<le> max_split" "keys ! (j - 1) \<noteq> keys ! j"
proof -
  define ideal where "ideal = (let i = (if ideal0 < min_split then min_split else ideal0) in if i > max_split then max_split else i)"
  have range: "min_split \<le> ideal" "ideal \<le> max_split" using assms(1,2) by (auto simp: ideal_def Let_def)
  have f: "FindRebalanceSplit keys min_split max_split ideal0 =
      (if keys ! (ideal - 1) \<noteq> keys ! ideal then Some ideal else rebalance_search keys min_split max_split ideal 1)"
    by (simp add: FindRebalanceSplit_def ideal_def Let_def)
  show thesis
  proof (cases "keys ! (ideal - 1) \<noteq> keys ! ideal")
    case True
    with f range that show thesis by auto
  next
    case False
    have "rebalance_search keys min_split max_split ideal 1 \<noteq> None"
    proof
      assume none: "rebalance_search keys min_split max_split ideal 1 = None"
      show False
      proof (cases "ideal \<le> b")
        case True
        with False assms(3) have "1 \<le> b - ideal" by (cases "b = ideal") auto
        from rebalance_search_None [OF none this] True assms(2,3) show False by simp
      next
        case b: False
        then have "1 \<le> ideal - b" by simp
        from rebalance_search_None [OF none this] b assms(1,3) show False by simp
      qed
    qed
    then obtain j where "rebalance_search keys min_split max_split ideal 1 = Some j" by blast
    with rebalance_search_Some [OF range this] f False that show thesis by auto
  qed
qed

end
