(* ===== verification/Heap_File.thy ===== *)
theory Heap_File
  imports Transaction_Manager
begin

text \<open>
  The heap file of \<open>src/src/storage/heap_file.h\<close> and \<open>heap_file.cpp\<close>: rows in slotted pages, addressed by
  \<open>RID\<close>. The member \<open>page_ids_\<close> is kept per object in \<open>en_heaps\<close>. Every operation is one call of a
  thread: it takes its page locks through the thread's current transaction, if there is one, and
  may throw \<open>Transaction_aborted\<close> or block (\<open>Would_wait\<close>).
\<close>

abbreviation (input) kMaxRowSize :: nat where
  "kMaxRowSize \<equiv> 4076"

section \<open>Operations\<close>

definition LockPage :: "thread_id \<Rightarrow> ObjectId \<Rightarrow> PageId \<Rightarrow> LockMode \<Rightarrow> (engine, unit) operation" where
  "LockPage tid oid pid mode en =
     (case GetCurrentTransaction tid en of
        None \<Rightarrow> (Inr (), en)
      | Some txn \<Rightarrow> Transaction_AcquireLock txn oid pid mode en)"

definition heap_page_ids :: "ObjectId \<Rightarrow> engine \<Rightarrow> PageId list" where
  "heap_page_ids oid en = (case en_heaps en oid of None \<Rightarrow> [] | Some ids \<Rightarrow> ids)"

definition HeapFile_open :: "ObjectId \<Rightarrow> (engine, unit) operation" where
  "HeapFile_open oid =
     bind_op (pool_op oid (\<lambda>bp. (Inr (NumPagesOnDisk bp), bp)))
       (\<lambda>existing. modify_op (\<lambda>en. en\<lparr>en_heaps := (en_heaps en)(oid \<mapsto> map of_nat [0..<existing])\<rparr>))"

definition push_page_id :: "ObjectId \<Rightarrow> PageId \<Rightarrow> engine \<Rightarrow> engine" where
  "push_page_id oid pid en = en\<lparr>en_heaps := (en_heaps en)(oid \<mapsto> heap_page_ids oid en @ [pid])\<rparr>"

text \<open>\<open>page->InsertRecord\<close> on a fetched page, and \<open>MarkDirty\<close> when it succeeds.\<close>

definition insert_on_page :: "thread_id \<Rightarrow> ObjectId \<Rightarrow> PageId \<Rightarrow> byte list \<Rightarrow> (engine, SlotId option) operation" where
  "insert_on_page tid oid pid row =
     bind_op (FetchPage_op oid pid) (\<lambda>p.
       case InsertRecord p row of
         (None, _) \<Rightarrow> return_op None
       | (Some slot, p') \<Rightarrow>
           bind_op (write_page_op oid pid p') (\<lambda>_. bind_op (MarkDirty_op tid oid pid) (\<lambda>_. return_op (Some slot))))"

definition insert_fresh :: "thread_id \<Rightarrow> ObjectId \<Rightarrow> byte list \<Rightarrow> (engine, RID) operation" where
  "insert_fresh tid oid row =
     bind_op (NewHeapPage_op tid oid) (\<lambda>new_pid.
       bind_op (LockPage tid oid new_pid kExclusive) (\<lambda>_.
       bind_op (modify_op (push_page_id oid new_pid)) (\<lambda>_.
       bind_op (insert_on_page tid oid new_pid row) (\<lambda>slot.
         case slot of
           None \<Rightarrow> throw_op (Logic_error ''HeapFile::Insert'')
         | Some s \<Rightarrow> return_op \<lparr>rid_page_id = new_pid, rid_slot_id = s\<rparr>))))"

definition HeapFile_Insert :: "thread_id \<Rightarrow> ObjectId \<Rightarrow> byte list \<Rightarrow> (engine, RID) operation" where
  "HeapFile_Insert tid oid row en =
     (if length row > kMaxRowSize then (Inl (Invalid_argument ''HeapFile::Insert''), en)
      else if heap_page_ids oid en = [] then insert_fresh tid oid row en
      else (let last_pid = last (heap_page_ids oid en)
            in bind_op (LockPage tid oid last_pid kExclusive) (\<lambda>_.
                 bind_op (insert_on_page tid oid last_pid row) (\<lambda>slot.
                   case slot of
                     Some s \<Rightarrow> return_op \<lparr>rid_page_id = last_pid, rid_slot_id = s\<rparr>
                   | None \<Rightarrow> insert_fresh tid oid row)) en))"

definition HeapFile_GetRow :: "thread_id \<Rightarrow> ObjectId \<Rightarrow> RID \<Rightarrow> (engine, byte list option) operation" where
  "HeapFile_GetRow tid oid rid en =
     (if rid_page_id rid \<notin> set (heap_page_ids oid en) then (Inr None, en)
      else bind_op (LockPage tid oid (rid_page_id rid) kShared) (\<lambda>_.
             bind_op (FetchPage_op oid (rid_page_id rid)) (\<lambda>p.
               if GetSlotCount p \<le> rid_slot_id rid \<or> IsDeleted p (rid_slot_id rid) then return_op None
               else return_op (Some (GetRecord p (rid_slot_id rid))))) en)"

text \<open>The inner loop of \<open>Scan\<close> over one page.\<close>

definition page_rows :: "PageId \<Rightarrow> page \<Rightarrow> (RID \<times> byte list) list" where
  "page_rows pid p =
     map (\<lambda>s. (\<lparr>rid_page_id = pid, rid_slot_id = s\<rparr>, GetRecord p s))
       (filter (\<lambda>s. \<not> IsDeleted p s) (map of_nat [0..<unat (GetSlotCount p)]))"

primrec scan_pages :: "thread_id \<Rightarrow> ObjectId \<Rightarrow> PageId list \<Rightarrow> (engine, (RID \<times> byte list) list) operation" where
  "scan_pages tid oid [] = return_op []"
| "scan_pages tid oid (pid # pids) =
     bind_op (LockPage tid oid pid kShared) (\<lambda>_.
       bind_op (FetchPage_op oid pid) (\<lambda>p.
         bind_op (scan_pages tid oid pids) (\<lambda>rest. return_op (page_rows pid p @ rest))))"

definition HeapFile_Scan :: "thread_id \<Rightarrow> ObjectId \<Rightarrow> (engine, (RID \<times> byte list) list) operation" where
  "HeapFile_Scan tid oid en = scan_pages tid oid (heap_page_ids oid en) en"

definition HeapFile_NumRows :: "thread_id \<Rightarrow> ObjectId \<Rightarrow> (engine, nat) operation" where
  "HeapFile_NumRows tid oid = bind_op (HeapFile_Scan tid oid) (\<lambda>rows. return_op (length rows))"

primrec find_pages ::
    "(byte list \<Rightarrow> bool) \<Rightarrow> thread_id \<Rightarrow> ObjectId \<Rightarrow> PageId list \<Rightarrow> (engine, RID option) operation" where
  "find_pages pred tid oid [] = return_op None"
| "find_pages pred tid oid (pid # pids) =
     bind_op (LockPage tid oid pid kShared) (\<lambda>_.
       bind_op (FetchPage_op oid pid) (\<lambda>p.
         case find (\<lambda>(rid, row). pred row) (page_rows pid p) of
           Some (rid, row) \<Rightarrow> return_op (Some rid)
         | None \<Rightarrow> find_pages pred tid oid pids))"

definition HeapFile_Find ::
    "(byte list \<Rightarrow> bool) \<Rightarrow> thread_id \<Rightarrow> ObjectId \<Rightarrow> (engine, RID option) operation" where
  "HeapFile_Find pred tid oid en = find_pages pred tid oid (heap_page_ids oid en) en"

definition HeapFile_Delete :: "thread_id \<Rightarrow> ObjectId \<Rightarrow> RID \<Rightarrow> (engine, bool) operation" where
  "HeapFile_Delete tid oid rid en =
     (if rid_page_id rid \<notin> set (heap_page_ids oid en) then (Inr False, en)
      else bind_op (LockPage tid oid (rid_page_id rid) kExclusive) (\<lambda>_.
             bind_op (FetchPage_op oid (rid_page_id rid)) (\<lambda>p.
               if GetSlotCount p \<le> rid_slot_id rid \<or> IsDeleted p (rid_slot_id rid) then return_op False
               else bind_op (write_page_op oid (rid_page_id rid) (DeleteRecord p (rid_slot_id rid))) (\<lambda>_.
                      bind_op (MarkDirty_op tid oid (rid_page_id rid)) (\<lambda>_. return_op True)))) en)"

section \<open>The rows of a heap file\<close>

definition heap_rows :: "ObjectId \<Rightarrow> engine \<Rightarrow> (RID \<times> byte list) list" where
  "heap_rows oid en = concat (map (\<lambda>pid. page_rows pid (en_page en (PageKey oid pid))) (heap_page_ids oid en))"

definition heap_ok :: "ObjectId \<Rightarrow> engine \<Rightarrow> bool" where
  "heap_ok oid en \<longleftrightarrow>
     pools_ok en \<and> en_pools en oid \<noteq> None \<and> distinct (heap_page_ids oid en) \<and>
     (\<forall>pid \<in> set (heap_page_ids oid en). en_has en (PageKey oid pid) \<and> page_ok (en_page en (PageKey oid pid)))"

text \<open>States that show the same pages to every reader.\<close>

definition same_pages :: "engine \<Rightarrow> engine \<Rightarrow> bool" where
  "same_pages en en' \<longleftrightarrow>
     (pools_ok en \<longrightarrow> pools_ok en') \<and> (\<forall>oid. (en_pools en' oid = None) = (en_pools en oid = None)) \<and>
     (\<forall>k. en_has en' k = en_has en k) \<and> (\<forall>k. en_has en k \<longrightarrow> en_page en' k = en_page en k) \<and>
     en_heaps en' = en_heaps en"

lemma same_pages_refl [simp]: "same_pages en en"
  by (simp add: same_pages_def)

lemma same_pages_trans: "same_pages a b \<Longrightarrow> same_pages b c \<Longrightarrow> same_pages a c"
  by (auto simp: same_pages_def)

lemma heap_page_ids_cong: "en_heaps en' = en_heaps en \<Longrightarrow> heap_page_ids oid en' = heap_page_ids oid en"
  by (simp add: heap_page_ids_def)

lemma same_pages_heap:
  assumes "same_pages en en'" and "heap_ok oid en"
  shows "heap_ok oid en'" and "heap_rows oid en' = heap_rows oid en" and "heap_page_ids oid en' = heap_page_ids oid en"
proof -
  from assms(1) show ids: "heap_page_ids oid en' = heap_page_ids oid en"
    by (intro heap_page_ids_cong) (simp add: same_pages_def)
  show "heap_ok oid en'" using assms by (auto simp: heap_ok_def ids same_pages_def)
  show "heap_rows oid en' = heap_rows oid en"
    unfolding heap_rows_def ids using assms
    by (intro arg_cong [where f = concat] map_cong) (auto simp: heap_ok_def same_pages_def)
qed

lemma LockPage_cases:
  obtains (granted) en' where "LockPage tid oid pid mode en = (Inr (), en')" "same_pages en en'"
      "en_disks en' = en_disks en" "en_current en' = en_current en"
  | (refused) e where "LockPage tid oid pid mode en = (Inl e, en)" "en_current en tid \<noteq> None"
proof (cases "LockPage tid oid pid mode en")
  case (Pair r en')
  then show ?thesis
  proof (cases "r = Inr ()")
    case True
    with Pair have "\<exists>lm. en' = en\<lparr>en_locks := lm\<rparr> \<or> en' = en"
      by (auto simp: LockPage_def Transaction_AcquireLock_def split: option.splits acquire_outcome.splits)
    with True Pair granted show ?thesis
      by (auto simp: same_pages_def pools_ok_def en_has_def en_page_def en_disks_def fun_eq_iff)
  next
    case False
    with Pair refused show ?thesis
      by (auto simp: LockPage_def Transaction_AcquireLock_def GetCurrentTransaction_def
          split: option.splits acquire_outcome.splits)
  qed
qed

lemma FetchPage_op_eq:
  assumes "pools_ok en" and "en_has en (PageKey oid pid)"
  obtains en' where "FetchPage_op oid pid en = (Inr (en_page en (PageKey oid pid)), en')" "same_pages en en'"
    "en_disks en' = en_disks en" "en_current en' = en_current en"
proof -
  from assms(2) obtain bp where bp: "en_pools en oid = Some bp" "pool_has bp pid" by (auto simp: en_has_def split: option.splits)
  with assms(1) have ok: "pool_ok bp" by (simp add: pools_ok_def)
  let ?bp = "bp\<lparr>bp_pages := (bp_pages bp)(pid \<mapsto> pool_page bp pid)\<rparr>"
  let ?en = "en\<lparr>en_pools := (en_pools en)(oid \<mapsto> ?bp)\<rparr>"
  have "FetchPage_op oid pid en = (Inr (en_page en (PageKey oid pid)), ?en)"
    using bp FetchPage_eq [OF pool_ok_wf [OF ok], of pid] by (simp add: FetchPage_op_def pool_op_def en_page_def)
  moreover have "same_pages en ?en"
    using bp fetch_ok [OF ok bp(2)] by (auto simp: same_pages_def pools_ok_def en_has_def en_page_def split: option.splits)
  moreover have "en_disks ?en = en_disks en" using bp by (simp add: en_disks_def fun_eq_iff)
  moreover have "en_current ?en = en_current en" by simp
  ultimately show ?thesis by (rule that)
qed

text \<open>A page is overwritten: every other page, the files and \<open>page_ids_\<close> stay.\<close>

definition page_written :: "engine \<Rightarrow> PageKey \<Rightarrow> page \<Rightarrow> engine \<Rightarrow> bool" where
  "page_written en k p en' \<longleftrightarrow>
     pools_ok en' \<and> (\<forall>oid. (en_pools en' oid = None) = (en_pools en oid = None)) \<and>
     (\<forall>j. en_has en' j = en_has en j) \<and>
     (\<forall>j. en_has en j \<longrightarrow> en_page en' j = (if j = k then p else en_page en j)) \<and>
     en_heaps en' = en_heaps en \<and> en_disks en' = en_disks en \<and> en_dirty en' k"

lemma NotifyDirty_views [simp]:
  "en_pools (NotifyDirty n en) = en_pools en" "en_heaps (NotifyDirty n en) = en_heaps en"
  "en_page (NotifyDirty n en) = en_page en" "en_has (NotifyDirty n en) = en_has en"
  "en_disks (NotifyDirty n en) = en_disks en" "pools_ok (NotifyDirty n en) = pools_ok en"
  "en_dirty (NotifyDirty n en) = en_dirty en" "en_current (NotifyDirty n en) = en_current en"
  by (auto simp: NotifyDirty_def en_page_def en_has_def en_disks_def pools_ok_def en_dirty_def fun_eq_iff split: option.split)

lemma write_mark_op:
  assumes "pools_ok en" and "en_has en (PageKey oid pid)" and "length p = PAGE_SIZE"
  obtains en' where "bind_op (write_page_op oid pid p) (\<lambda>_. bind_op (MarkDirty_op tid oid pid) (\<lambda>_. return_op x)) en = (Inr x, en')"
    "page_written en (PageKey oid pid) p en'"
proof -
  from assms(2) obtain bp where bp: "en_pools en oid = Some bp" "pool_has bp pid" by (auto simp: en_has_def split: option.splits)
  with assms(1) have ok: "pool_ok bp" by (simp add: pools_ok_def)
  obtain n bp' where md: "MarkDirty tid pid (write_page pid p bp) = (n, bp')" by (cases "MarkDirty tid pid (write_page pid p bp)")
  have ok': "pool_ok bp'" using write_mark_ok [OF ok bp(2) assms(3), of tid] md by simp
  have f: "pool_has bp' q = pool_has bp q" "pool_page bp' q = (if q = pid then p else pool_page bp q)"
    "bp_disk bp' = bp_disk bp" "pid \<in> bp_dirty bp'" for q
    using MarkDirty_fields [of tid pid "write_page pid p bp"] md by auto
  let ?en = "en\<lparr>en_pools := (en_pools en)(oid \<mapsto> bp')\<rparr>"
  have "bind_op (write_page_op oid pid p) (\<lambda>_. bind_op (MarkDirty_op tid oid pid) (\<lambda>_. return_op x)) en = (Inr x, NotifyDirty n ?en)"
    using bp md by (simp add: bind_op_def write_page_op_def MarkDirty_op_def pool_op_def)
  moreover have "page_written en (PageKey oid pid) p (NotifyDirty n ?en)"
    using assms(1) bp ok' f
    by (auto simp: page_written_def pools_ok_def en_has_def en_page_def en_disks_def en_dirty_def fun_eq_iff PageKey.expand
        split: option.splits)
  ultimately show ?thesis by (rule that)
qed

lemma NewHeapPage_op_cases:
  assumes ok: "pools_ok en" and bp: "en_pools en oid = Some bp" and room: "unat (next_page_id (bp_disk bp)) + 1 < 2 ^ 32"
  obtains (new) pid en' where "NewHeapPage_op tid oid en = (Inr pid, en')" "pools_ok en'" "\<not> en_has en (PageKey oid pid)"
      "\<And>o'. (en_pools en' o' = None) = (en_pools en o' = None)"
      "\<And>k. en_has en' k \<longleftrightarrow> en_has en k \<or> k = PageKey oid pid" "en_page en' (PageKey oid pid) = InitHeapPage pid"
      "\<And>k. en_has en k \<Longrightarrow> en_page en' k = en_page en k" "en_heaps en' = en_heaps en"
  | (failed) e en' where "NewHeapPage_op tid oid en = (Inl e, en')" "en_heaps en' = en_heaps en"
      "\<And>k. en_page en' k = en_page en k"
proof (cases "NewPage tid bp")
  case (Pair r bp1)
  have pok: "pool_ok bp" using ok bp by (simp add: pools_ok_def)
  show ?thesis
  proof (cases r)
    case (Inl e)
    with Pair have b1: "bp_pages bp1 = bp_pages bp \<and> disk_file (bp_disk bp1) = disk_file (bp_disk bp)"
      by (auto simp: NewPage_def AllocatePage_def Let_def split: prod.splits sum.splits if_splits)
    have "NewHeapPage_op tid oid en = (Inl e, en\<lparr>en_pools := (en_pools en)(oid \<mapsto> bp1)\<rparr>)"
      using bp Pair Inl by (simp add: NewHeapPage_op_def NewHeapPage_def bind_op_def pool_op_def)
    moreover have "en_page (en\<lparr>en_pools := (en_pools en)(oid \<mapsto> bp1)\<rparr>) k = en_page en k" for k
      using b1 bp by (auto simp: en_page_def pool_page_def disk_page_def split: option.splits)
    ultimately show ?thesis by (intro failed [of e "en\<lparr>en_pools := (en_pools en)(oid \<mapsto> bp1)\<rparr>"]) simp_all
  next
    case (Inr x)
    obtain pid n where x: "x = (pid, n)" by (cases x)
    note np = NewPage_ok [OF pok room Pair [unfolded Inr x]]
    let ?bp = "write_page pid (InitHeapPage pid) bp1"
    let ?en = "en\<lparr>en_pools := (en_pools en)(oid \<mapsto> ?bp)\<rparr>"
    have run: "NewHeapPage_op tid oid en = (Inr pid, NotifyDirty n ?en)"
      using bp Pair Inr x by (simp add: NewHeapPage_op_def NewHeapPage_def bind_op_def pool_op_def)
    have "pool_ok ?bp"
      using np(1,4,7) by (auto simp: pool_ok_def pool_wf_def write_page_def length_InitHeapPage)
    moreover have "en_has ?en k \<longleftrightarrow> en_has en k \<or> k = PageKey oid pid" for k
      using bp np(4) by (cases k) (auto simp: en_has_def split: option.splits)
    moreover have "en_page ?en k = en_page en k" if "en_has en k" for k
      using bp np(3,6) that by (cases k) (auto simp: en_page_def en_has_def split: option.splits)
    moreover have "en_page ?en (PageKey oid pid) = InitHeapPage pid" by (simp add: en_page_def)
    moreover have "\<not> en_has en (PageKey oid pid)" using bp np(3) by (simp add: en_has_def)
    ultimately show ?thesis
      using run ok bp by (intro new [of pid "NotifyDirty n ?en"]) (simp_all add: pools_ok_def)
  qed
qed

lemma page_ok_length: "page_ok p \<Longrightarrow> length p = PAGE_SIZE"
  by (auto simp: page_ok_def heap_page_ok_def)

lemma page_rows_live:
  "page_rows pid p =
     map (\<lambda>(i, r). (\<lparr>rid_page_id = pid, rid_slot_id = of_nat i\<rparr>, r)) (live_slots (page_slots p))"
proof -
  have "enumerate 0 (page_slots p) =
      map (\<lambda>i. (i, IsDeleted p (of_nat i), GetRecord p (of_nat i))) [0..<unat (GetSlotCount p)]"
    by (rule nth_equalityI) (simp_all add: nth_enumerate_eq page_slots_def)
  then show ?thesis by (simp add: live_slots_def page_rows_def filter_map comp_def)
qed

lemma page_rows_insert:
  "page_ok p \<Longrightarrow> InsertRecord p row = (Some s, q) \<Longrightarrow>
   page_rows pid q = page_rows pid p @ [(\<lparr>rid_page_id = pid, rid_slot_id = s\<rparr>, row)]"
  using heap_page.ins_live [of p row "Some s" q] by (simp add: page_rows_live)

lemma page_ok_delete: "page_ok p \<Longrightarrow> s < GetSlotCount p \<Longrightarrow> page_ok (DeleteRecord p s)"
  by (rule heap_page.del_ok) (simp_all add: word_less_nat_alt)

lemma page_rows_delete:
  assumes "page_ok p" and "s < GetSlotCount p"
  shows "page_rows pid (DeleteRecord p s) =
    filter (\<lambda>(rid, _). rid \<noteq> \<lparr>rid_page_id = pid, rid_slot_id = s\<rparr>) (page_rows pid p)"
proof -
  have s: "unat s < length (page_slots p)" using assms(2) by (simp add: word_less_nat_alt)
  have "(of_nat i = s) = (i = unat s)" if "(i, r) \<in> set (live_slots (page_slots p))" for i r
  proof -
    from that have "i < unat (GetSlotCount p)" by (simp add: live_slots_mem)
    then have "unat (of_nat i :: SlotId) = i" using of_nat_unat_less by blast
    then show ?thesis by auto
  qed
  then have "filter (\<lambda>(j, _). j \<noteq> unat s) (live_slots (page_slots p)) =
      filter (\<lambda>(j, _). (of_nat j :: SlotId) \<noteq> s) (live_slots (page_slots p))"
    by (intro filter_cong) auto
  then show ?thesis
    using heap_page.del_live [OF assms(1) s] by (simp add: page_rows_live filter_map comp_def case_prod_unfold)
qed

lemma page_rows_page: "(rid, row) \<in> set (page_rows pid p) \<Longrightarrow> rid_page_id rid = pid"
  by (auto simp: page_rows_def)

lemma page_rows_slot:
  assumes "rid_page_id rid = pid"
  shows "(rid, row) \<in> set (page_rows pid p) \<longleftrightarrow>
    rid_slot_id rid < GetSlotCount p \<and> \<not> IsDeleted p (rid_slot_id rid) \<and> row = GetRecord p (rid_slot_id rid)"
proof
  assume "(rid, row) \<in> set (page_rows pid p)"
  then show "rid_slot_id rid < GetSlotCount p \<and> \<not> IsDeleted p (rid_slot_id rid) \<and> row = GetRecord p (rid_slot_id rid)"
    by (auto simp: page_rows_def of_nat_unat_less [THEN conjunct2])
next
  assume *: "rid_slot_id rid < GetSlotCount p \<and> \<not> IsDeleted p (rid_slot_id rid) \<and> row = GetRecord p (rid_slot_id rid)"
  then have "rid_slot_id rid \<in> of_nat ` {0..<unat (GetSlotCount p)}"
    by (intro image_eqI [of _ _ "unat (rid_slot_id rid)"]) (simp_all add: word_less_nat_alt)
  with * assms show "(rid, row) \<in> set (page_rows pid p)"
    by (cases rid) (auto simp: page_rows_def)
qed

lemma page_rows_distinct: "distinct (map fst (page_rows pid p))"
proof -
  have "inj_on (of_nat :: nat \<Rightarrow> SlotId) {0..<unat (GetSlotCount p)}"
    by (rule inj_on_inverseI [where g = unat]) (simp add: of_nat_unat_less [THEN conjunct1])
  then have "distinct (map of_nat [0..<unat (GetSlotCount p)] :: SlotId list)" by (simp add: distinct_map)
  then have "distinct (filter (\<lambda>s. \<not> IsDeleted p s) (map of_nat [0..<unat (GetSlotCount p)]))" by (rule distinct_filter)
  moreover have "inj (\<lambda>s. \<lparr>rid_page_id = pid, rid_slot_id = s\<rparr>)" by (auto simp: inj_on_def)
  ultimately have "distinct (map (\<lambda>s. \<lparr>rid_page_id = pid, rid_slot_id = s\<rparr>)
      (filter (\<lambda>s. \<not> IsDeleted p s) (map of_nat [0..<unat (GetSlotCount p)])))"
    by (metis distinct_map inj_on_subset subset_UNIV)
  then show ?thesis by (simp add: page_rows_def comp_def)
qed

lemma insert_on_page_cases:
  assumes "pools_ok en" and "en_has en (PageKey oid pid)" and "page_ok (en_page en (PageKey oid pid))"
  obtains (full) en' where "insert_on_page tid oid pid row en = (Inr None, en')" "same_pages en en'"
      "fst (InsertRecord (en_page en (PageKey oid pid)) row) = None"
  | (stored) s q en' where "insert_on_page tid oid pid row en = (Inr (Some s), en')"
      "InsertRecord (en_page en (PageKey oid pid)) row = (Some s, q)" "page_written en (PageKey oid pid) q en'"
proof -
  let ?k = "PageKey oid pid"
  obtain en1 where e1: "FetchPage_op oid pid en = (Inr (en_page en ?k), en1)" "same_pages en en1" "en_disks en1 = en_disks en"
    using FetchPage_op_eq [OF assms(1,2)] by blast
  obtain so q where ins: "InsertRecord (en_page en ?k) row = (so, q)" by (cases "InsertRecord (en_page en ?k) row")
  show thesis
  proof (cases so)
    case None
    with e1 ins show thesis by (intro full [of en1]) (simp_all add: insert_on_page_def bind_op_def)
  next
    case (Some s)
    have "length q = 4096" using heap_page.ins_ok [OF assms(3) ins] by (rule page_ok_length)
    moreover have "pools_ok en1" "en_has en1 ?k" using e1(2) assms by (auto simp: same_pages_def)
    ultimately obtain en2 where e2: "bind_op (write_page_op oid pid q) (\<lambda>_. bind_op (MarkDirty_op tid oid pid) (\<lambda>_. return_op (Some s))) en1 = (Inr (Some s), en2)"
      "page_written en1 ?k q en2"
      using write_mark_op [of en1 oid pid q tid "Some s"] by blast
    have "page_written en ?k q en2"
      using e2(2) e1(2,3) by (simp add: page_written_def same_pages_def)
    with e1 e2 ins Some show thesis by (intro stored [of s en2 q]) (simp_all add: insert_on_page_def bind_op_def)
  qed
qed

lemma page_written_heap:
  assumes ok: "heap_ok oid en" and w: "page_written en (PageKey oid pid) q en'" and q: "page_ok q"
  shows "heap_ok oid en'" and "heap_page_ids oid en' = heap_page_ids oid en"
    and "heap_rows oid en' = concat (map (\<lambda>p. if p = pid then page_rows pid q else page_rows p (en_page en (PageKey oid p)))
           (heap_page_ids oid en))"
proof -
  from w show ids: "heap_page_ids oid en' = heap_page_ids oid en" by (intro heap_page_ids_cong) (simp add: page_written_def)
  show "heap_ok oid en'" using ok w q by (auto simp: heap_ok_def ids page_written_def)
  show "heap_rows oid en' = concat (map (\<lambda>p. if p = pid then page_rows pid q else page_rows p (en_page en (PageKey oid p)))
           (heap_page_ids oid en))"
    unfolding heap_rows_def ids using ok w
    by (intro arg_cong [where f = concat] map_cong) (auto simp: heap_ok_def page_written_def)
qed

lemma insert_fresh_rows:
  assumes ok: "heap_ok oid en" and bp: "en_pools en oid = Some bp"
    and room: "unat (next_page_id (bp_disk bp)) + 1 < 2 ^ 32" and len: "length row \<le> kMaxRowSize"
    and run: "insert_fresh tid oid row en = (r, en')"
  shows "case r of
      Inr rid \<Rightarrow> heap_ok oid en' \<and> heap_rows oid en' = heap_rows oid en @ [(rid, row)]
    | Inl e \<Rightarrow> heap_rows oid en' = heap_rows oid en"
proof -
  have pok: "pools_ok en" using ok by (simp add: heap_ok_def)
  show ?thesis
    using pok bp room
  proof (cases rule: NewHeapPage_op_cases [of _ _ _ tid])
    case (failed e en1)
    then have "r = Inl e" "en' = en1" using run by (auto simp: insert_fresh_def bind_op_def)
    with failed show ?thesis by (simp add: heap_rows_def heap_page_ids_def)
  next
    case (new pid en1)
    let ?k = "PageKey oid pid"
    have ids1: "heap_page_ids oid en1 = heap_page_ids oid en" using new(8) by (rule heap_page_ids_cong)
    have fresh: "pid \<notin> set (heap_page_ids oid en)" using ok new(3) by (auto simp: heap_ok_def)
    have rows1: "heap_rows oid en1 = heap_rows oid en"
      unfolding heap_rows_def ids1 using ok new(7)
      by (intro arg_cong [where f = concat] map_cong) (auto simp: heap_ok_def)
    have ok1: "heap_ok oid en1" using ok new by (auto simp: heap_ok_def ids1)
    show ?thesis
    proof (cases rule: LockPage_cases [of tid oid pid kExclusive en1])
      case (refused e)
      then have "r = Inl e" "en' = en1" using run new(1) by (auto simp: insert_fresh_def bind_op_def)
      with rows1 show ?thesis by simp
    next
      case (granted en2)
      note s2 = same_pages_heap [OF granted(2) ok1]
      let ?en3 = "push_page_id oid pid en2"
      have ids3: "heap_page_ids oid ?en3 = heap_page_ids oid en @ [pid]" using s2(3) ids1 by (simp add: push_page_id_def heap_page_ids_def)
      have views: "pools_ok ?en3" "en_has ?en3 = en_has en2" "en_page ?en3 = en_page en2" "en_pools ?en3 = en_pools en2"
        using s2(1) by (auto simp: push_page_id_def pools_ok_def en_has_def en_page_def heap_ok_def fun_eq_iff)
      have p2: "en_has en2 ?k" "en_page en2 ?k = InitHeapPage pid" using granted(2) new(5,6) by (auto simp: same_pages_def)
      have pgok: "page_ok (en_page ?en3 ?k)" using InitHeapPage_ok by (simp add: views p2 page_ok_def)
      have init: "page_rows pid (InitHeapPage pid) = []" by (simp add: page_rows_live InitHeapPage_slots)
      have rows3: "heap_rows oid ?en3 = heap_rows oid en"
        using s2(2) rows1 init by (simp add: heap_rows_def ids3 views p2 s2(3) ids1)
      have ok3: "heap_ok oid ?en3"
        using s2(1) fresh p2 pgok views by (auto simp: heap_ok_def ids3 s2(3) ids1)
      have ins: "\<exists>s q. InsertRecord (InitHeapPage pid) row = (Some s, q)"
        using len by (simp add: InsertRecord_eq InitHeapPage_ok FreeSpace_def InitHeapPage_fields)
      have has3: "en_has ?en3 ?k" using views p2 by simp
      show ?thesis
        using views(1) has3 pgok
      proof (cases rule: insert_on_page_cases [of _ _ _ tid row])
        case (full en4)
        with ins show ?thesis by (auto simp: views p2)
      next
        case (stored s q en4)
        have q: "page_ok q" using heap_page.ins_ok [OF pgok stored(2)] .
        note w = page_written_heap [OF ok3 stored(3) q]
        have "r = Inr \<lparr>rid_page_id = pid, rid_slot_id = s\<rparr>" "en' = en4"
          using run new(1) granted(1) stored(1) by (auto simp: insert_fresh_def bind_op_def)
        moreover have "heap_rows oid en4 = heap_rows oid en @ page_rows pid q"
        proof -
          have "map (\<lambda>p. if p = pid then page_rows pid q else page_rows p (en_page ?en3 (PageKey oid p))) (heap_page_ids oid en) =
              map (\<lambda>p. page_rows p (en_page ?en3 (PageKey oid p))) (heap_page_ids oid en)"
            using fresh by (intro map_cong) auto
          moreover have "heap_rows oid ?en3 = concat (map (\<lambda>p. page_rows p (en_page ?en3 (PageKey oid p))) (heap_page_ids oid en))"
            using init by (simp add: heap_rows_def ids3 views p2)
          ultimately show ?thesis using w(3) rows3 by (simp add: ids3 del: map_eq_conv)
        qed
        moreover have "page_rows pid q = [(\<lparr>rid_page_id = pid, rid_slot_id = s\<rparr>, row)]"
          using page_rows_insert [OF pgok stored(2), of pid] init by (simp add: views p2)
        ultimately show ?thesis using w(1) by simp
      qed
    qed
  qed
qed

lemma heap_rows_distinct:
  assumes "distinct (heap_page_ids oid en)"
  shows "distinct (map fst (heap_rows oid en))"
proof -
  have "distinct (map fst (concat (map (\<lambda>pid. page_rows pid (f pid)) ids)))" if "distinct ids" for f and ids :: "PageId list"
    using that
  proof (induction ids)
    case (Cons pid ids)
    have "fst ` set (page_rows pid (f pid)) \<inter> fst ` (\<Union>p \<in> set ids. set (page_rows p (f p))) = {}"
      using Cons.prems by (auto dest!: page_rows_page)
    with Cons page_rows_distinct show ?case by (simp add: image_Un)
  qed simp
  with assms show ?thesis by (simp add: heap_rows_def)
qed

lemma heap_rows_mem:
  "(rid, row) \<in> set (heap_rows oid en) \<longleftrightarrow>
   rid_page_id rid \<in> set (heap_page_ids oid en) \<and>
   (let p = en_page en (PageKey oid (rid_page_id rid))
    in rid_slot_id rid < GetSlotCount p \<and> \<not> IsDeleted p (rid_slot_id rid) \<and> row = GetRecord p (rid_slot_id rid))"
proof -
  have "(rid, row) \<in> set (heap_rows oid en) \<longleftrightarrow>
      rid_page_id rid \<in> set (heap_page_ids oid en) \<and>
      (rid, row) \<in> set (page_rows (rid_page_id rid) (en_page en (PageKey oid (rid_page_id rid))))"
    by (auto simp: heap_rows_def dest: page_rows_page)
  then show ?thesis by (simp add: page_rows_slot Let_def)
qed

lemma same_pages_room:
  assumes "same_pages en en'" and "en_pools en oid = Some bp" and "unat (next_page_id (bp_disk bp)) + 1 < 2 ^ 32"
  obtains bp' where "en_pools en' oid = Some bp'" "unat (next_page_id (bp_disk bp')) + 1 < 2 ^ 32"
proof -
  from assms(1,2) have "en_pools en' oid \<noteq> None" by (simp add: same_pages_def)
  then obtain bp' where bp': "en_pools en' oid = Some bp'" by blast
  have "disk_has (bp_disk bp') q = disk_has (bp_disk bp) q" for q
    using assms(1,2) bp' by (auto simp: same_pages_def en_has_def pool_has_def dest!: spec [of _ "PageKey oid q"])
  then have "next_page_id (bp_disk bp') = next_page_id (bp_disk bp)"
    unfolding disk_has_def by (metis linorder_less_linear order_less_irrefl)
  with assms(3) bp' that show ?thesis by simp
qed

text \<open>A record stored on the last page becomes the last row.\<close>

lemma stored_last_rows:
  assumes ok: "heap_ok oid en" and ne: "heap_page_ids oid en \<noteq> []" and pid: "pid = last (heap_page_ids oid en)"
    and ins: "InsertRecord (en_page en (PageKey oid pid)) row = (Some s, q)"
    and w: "page_written en (PageKey oid pid) q en'"
  shows "heap_ok oid en'" and "heap_rows oid en' = heap_rows oid en @ [(\<lparr>rid_page_id = pid, rid_slot_id = s\<rparr>, row)]"
proof -
  let ?ids = "heap_page_ids oid en"
  have pg: "page_ok (en_page en (PageKey oid pid))" using ok ne pid by (simp add: heap_ok_def)
  have q: "page_ok q" using heap_page.ins_ok [OF pg ins] .
  note w' = page_written_heap [OF ok w q]
  show "heap_ok oid en'" by (rule w'(1))
  have sp: "?ids = butlast ?ids @ [pid]" using ne pid by simp
  have new: "pid \<notin> set (butlast ?ids)"
    using ok ne pid unfolding heap_ok_def by (metis append_butlast_last_id disjoint_insert(1) distinct_append list.set(2))
  have "map (\<lambda>p. if p = pid then page_rows pid q else page_rows p (en_page en (PageKey oid p))) (butlast ?ids) =
      map (\<lambda>p. page_rows p (en_page en (PageKey oid p))) (butlast ?ids)"
    using new by (intro map_cong) auto
  moreover have "heap_rows oid en = concat (map (\<lambda>p. page_rows p (en_page en (PageKey oid p))) (butlast ?ids)) @
      page_rows pid (en_page en (PageKey oid pid))"
    unfolding heap_rows_def by (subst sp) simp
  moreover have "heap_rows oid en' = concat (map (\<lambda>p. if p = pid then page_rows pid q
      else page_rows p (en_page en (PageKey oid p))) (butlast ?ids)) @ page_rows pid q"
    unfolding w'(3) by (subst sp) simp
  moreover note page_rows_insert [OF pg ins, of pid]
  ultimately show "heap_rows oid en' = heap_rows oid en @ [(\<lparr>rid_page_id = pid, rid_slot_id = s\<rparr>, row)]"
    by (simp del: map_eq_conv)
qed

section \<open>Properties of the heap file\<close>

text \<open>
  \<open>HeapFile::Insert\<close> adds exactly one row or none. If it returns a \<open>RID\<close>, the row is appended to the
  rows of the heap file under that \<open>RID\<close>, which no row had before, and every other row stays where it
  is; if it throws (the row is too large, the transaction loses its lock request, the file cannot
  grow), the rows are unchanged. It never reports a row of legal size as not fitting a fresh page.
\<close>

theorem HeapFile_Insert_rows:
  assumes "heap_ok oid en" and "en_pools en oid = Some bp" and "unat (next_page_id (bp_disk bp)) + 1 < 2 ^ 32"
    and "HeapFile_Insert tid oid row en = (r, en')"
  shows "case r of
      Inr rid \<Rightarrow> heap_ok oid en' \<and> heap_rows oid en' = heap_rows oid en @ [(rid, row)] \<and>
        rid \<notin> fst ` set (heap_rows oid en)
    | Inl e \<Rightarrow> heap_rows oid en' = heap_rows oid en"
proof -
  have core: "case r of Inr rid \<Rightarrow> heap_ok oid en' \<and> heap_rows oid en' = heap_rows oid en @ [(rid, row)]
      | Inl e \<Rightarrow> heap_rows oid en' = heap_rows oid en"
  proof (cases "length row > kMaxRowSize \<or> heap_page_ids oid en = []")
    case True
    with assms insert_fresh_rows [OF assms(1-3), of row tid r en'] show ?thesis
      by (auto simp: HeapFile_Insert_def split: if_splits)
  next
    case False
    let ?ids = "heap_page_ids oid en"
    let ?pid = "last ?ids"
    let ?k = "PageKey oid ?pid"
    have mem: "?pid \<in> set ?ids" using False by simp
    show ?thesis
    proof (cases rule: LockPage_cases [of tid oid ?pid kExclusive en])
      case (refused e)
      then show ?thesis using assms(4) False by (auto simp: HeapFile_Insert_def Let_def bind_op_def)
    next
      case (granted en1)
      note s1 = same_pages_heap [OF granted(2) assms(1)]
      have page1: "en_page en1 ?k = en_page en ?k" and has1: "en_has en1 ?k" and pok1: "pools_ok en1"
        using granted(2) assms(1) mem by (auto simp: same_pages_def heap_ok_def)
      have pg: "page_ok (en_page en1 ?k)" using assms(1) mem page1 by (simp add: heap_ok_def)
      show ?thesis
        using pok1 has1 pg
      proof (cases rule: insert_on_page_cases [of _ _ _ tid row])
        case (full en2)
        note s2 = same_pages_heap [OF full(2) s1(1)]
        have run: "insert_fresh tid oid row en2 = (r, en')"
          using assms(4) False granted(1) full(1) by (simp add: HeapFile_Insert_def Let_def bind_op_def)
        obtain bp2 where "en_pools en2 oid = Some bp2" "unat (next_page_id (bp_disk bp2)) + 1 < 2 ^ 32"
          using same_pages_room [OF same_pages_trans [OF granted(2) full(2)] assms(2,3)] .
        from insert_fresh_rows [OF s2(1) this _ run] False s2(2) s1(2) show ?thesis by (simp add: sum.case_eq_if)
      next
        case (stored s q en2)
        have "r = Inr \<lparr>rid_page_id = ?pid, rid_slot_id = s\<rparr>" "en' = en2"
          using assms(4) False granted(1) stored(1) by (auto simp: HeapFile_Insert_def Let_def bind_op_def)
        with stored_last_rows [OF s1(1) _ _ stored(2,3)] False s1(2,3) show ?thesis by simp
      qed
    qed
  qed
  moreover have "rid \<notin> fst ` set (heap_rows oid en)"
    if "heap_ok oid en'" "heap_rows oid en' = heap_rows oid en @ [(rid, row)]" for rid
    using heap_rows_distinct [of oid en'] that by (auto simp: heap_ok_def)
  ultimately show ?thesis by (auto split: sum.splits)
qed

lemma lock_fetch_cases:
  assumes "pools_ok en" and "en_has en (PageKey oid pid)"
  obtains (refused) e where "LockPage tid oid pid mode en = (Inl e, en)" "en_current en tid \<noteq> None"
  | (fetched) en1 en' where "LockPage tid oid pid mode en = (Inr (), en1)"
      "FetchPage_op oid pid en1 = (Inr (en_page en (PageKey oid pid)), en')"
      "same_pages en en'" "en_current en' = en_current en"
proof (cases rule: LockPage_cases [of tid oid pid mode en])
  case (refused e)
  then show ?thesis by (rule that(1))
next
  case (granted en1)
  have "pools_ok en1" "en_has en1 (PageKey oid pid)" using granted(2) assms by (auto simp: same_pages_def)
  then obtain en2 where f: "FetchPage_op oid pid en1 = (Inr (en_page en1 (PageKey oid pid)), en2)" "same_pages en1 en2"
    "en_current en2 = en_current en1"
    by (rule FetchPage_op_eq)
  have "en_page en1 (PageKey oid pid) = en_page en (PageKey oid pid)"
    using granted(2) assms(2) by (simp add: same_pages_def)
  with granted f show ?thesis
    by (intro that(2) [of en1 en2]) (auto intro: same_pages_trans)
qed

lemma scan_pages_rows:
  assumes "pools_ok en" and "\<forall>pid \<in> set pids. en_has en (PageKey oid pid)" and "scan_pages tid oid pids en = (r, en')"
  shows "same_pages en en' \<and> (case r of
      Inr rows \<Rightarrow> rows = concat (map (\<lambda>pid. page_rows pid (en_page en (PageKey oid pid))) pids)
    | Inl e \<Rightarrow> en_current en tid \<noteq> None)"
  using assms
proof (induction pids arbitrary: en r en')
  case Nil
  then show ?case by auto
next
  case (Cons pid pids)
  have has: "en_has en (PageKey oid pid)" using Cons.prems(2) by simp
  show ?case
    using Cons.prems(1) has
  proof (cases rule: lock_fetch_cases [of en oid pid tid kShared])
    case (refused e)
    with Cons.prems(3) show ?thesis by (auto simp: bind_op_def)
  next
    case (fetched en0 en1)
    obtain r1 en2 where rest: "scan_pages tid oid pids en1 = (r1, en2)" by (cases "scan_pages tid oid pids en1")
    have same: "en_page en1 (PageKey oid p) = en_page en (PageKey oid p)" if "p \<in> set pids" for p
      using fetched(3) Cons.prems(2) that by (simp add: same_pages_def)
    have "pools_ok en1" "\<forall>p \<in> set pids. en_has en1 (PageKey oid p)"
      using fetched(3) Cons.prems by (auto simp: same_pages_def)
    note IH = Cons.IH [OF this rest]
    from same_pages_trans [OF fetched(3)] IH have "same_pages en en2" by blast
    moreover have "map (\<lambda>p. page_rows p (en_page en1 (PageKey oid p))) pids = map (\<lambda>p. page_rows p (en_page en (PageKey oid p))) pids"
      using same by (intro map_cong) auto
    ultimately show ?thesis
      using Cons.prems(3) rest IH fetched(1,2,4) by (cases r1) (auto simp: bind_op_def simp del: map_eq_conv)
  qed
qed

lemma concat_map_filter_at:
  "concat (map (\<lambda>p. if p = pid then filter P (f p) else f p) ids) =
   filter (\<lambda>x. P x) (concat (map f ids))"
  if "\<And>p x. p \<noteq> pid \<Longrightarrow> x \<in> set (f p) \<Longrightarrow> P x"
  using that by (induction ids) (auto simp: filter_id_conv)

lemma deleted_rows:
  assumes ok: "heap_ok oid en" and pid: "rid_page_id rid \<in> set (heap_page_ids oid en)"
    and slot: "rid_slot_id rid < GetSlotCount (en_page en (PageKey oid (rid_page_id rid)))"
    and w: "page_written en (PageKey oid (rid_page_id rid))
      (DeleteRecord (en_page en (PageKey oid (rid_page_id rid))) (rid_slot_id rid)) en'"
  shows "heap_ok oid en'" and "heap_rows oid en' = filter (\<lambda>(r, _). r \<noteq> rid) (heap_rows oid en)"
proof -
  let ?p = "en_page en (PageKey oid (rid_page_id rid))"
  have p: "page_ok ?p" using ok pid by (simp add: heap_ok_def)
  have q: "page_ok (DeleteRecord ?p (rid_slot_id rid))"
    using p slot by (rule page_ok_delete)
  note w' = page_written_heap [OF ok w q]
  show "heap_ok oid en'" by (rule w'(1))
  have rid: "\<lparr>rid_page_id = rid_page_id rid, rid_slot_id = rid_slot_id rid\<rparr> = rid" by (cases rid) simp
  have "page_rows (rid_page_id rid) (DeleteRecord ?p (rid_slot_id rid)) =
      filter (\<lambda>(r, _). r \<noteq> rid) (page_rows (rid_page_id rid) ?p)"
    using page_rows_delete [OF p slot, of "rid_page_id rid"] unfolding rid .
  then have "heap_rows oid en' = concat (map (\<lambda>p. if p = rid_page_id rid then
        filter (\<lambda>(r, _). r \<noteq> rid) (page_rows p (en_page en (PageKey oid p))) else page_rows p (en_page en (PageKey oid p)))
      (heap_page_ids oid en))"
    unfolding w'(3) by (intro arg_cong [where f = concat] map_cong) auto
  also have "\<dots> = filter (\<lambda>(r, _). r \<noteq> rid) (heap_rows oid en)"
    unfolding heap_rows_def by (rule concat_map_filter_at) (auto dest: page_rows_page)
  finally show "heap_rows oid en' = filter (\<lambda>(r, _). r \<noteq> rid) (heap_rows oid en)" .
qed

text \<open>
  \<open>HeapFile::Delete\<close> returns true exactly when the \<open>RID\<close> names a live row, and then removes that row and no
  other; when it returns false, or loses its lock request, the rows are unchanged.
\<close>

theorem HeapFile_Delete_rows:
  assumes "heap_ok oid en" and "HeapFile_Delete tid oid rid en = (r, en')"
  shows "heap_ok oid en' \<and>
    (case r of
       Inr found \<Rightarrow> (found \<longleftrightarrow> rid \<in> fst ` set (heap_rows oid en)) \<and>
         heap_rows oid en' = filter (\<lambda>(r, _). r \<noteq> rid) (heap_rows oid en)
     | Inl e \<Rightarrow> en_current en tid \<noteq> None \<and> heap_rows oid en' = heap_rows oid en)"
proof -
  let ?pid = "rid_page_id rid"
  let ?p = "en_page en (PageKey oid ?pid)"
  have live: "rid \<in> fst ` set (heap_rows oid en) \<longleftrightarrow>
      ?pid \<in> set (heap_page_ids oid en) \<and> rid_slot_id rid < GetSlotCount ?p \<and> \<not> IsDeleted ?p (rid_slot_id rid)"
  proof
    assume "rid \<in> fst ` set (heap_rows oid en)"
    then obtain row where "(rid, row) \<in> set (heap_rows oid en)" by auto
    then show "?pid \<in> set (heap_page_ids oid en) \<and> rid_slot_id rid < GetSlotCount ?p \<and> \<not> IsDeleted ?p (rid_slot_id rid)"
      by (simp add: heap_rows_mem Let_def)
  next
    assume "?pid \<in> set (heap_page_ids oid en) \<and> rid_slot_id rid < GetSlotCount ?p \<and> \<not> IsDeleted ?p (rid_slot_id rid)"
    then have "(rid, GetRecord ?p (rid_slot_id rid)) \<in> set (heap_rows oid en)" by (simp add: heap_rows_mem Let_def)
    then show "rid \<in> fst ` set (heap_rows oid en)" by (rule rev_image_eqI) simp
  qed
  have keep: "filter (\<lambda>(r, _). r \<noteq> rid) (heap_rows oid en) = heap_rows oid en" if "rid \<notin> fst ` set (heap_rows oid en)"
    using that by (intro filter_True ballI) (auto intro: rev_image_eqI)
  show ?thesis
  proof (cases "?pid \<in> set (heap_page_ids oid en)")
    case False
    with assms live keep show ?thesis by (auto simp: HeapFile_Delete_def)
  next
    case True
    have "pools_ok en" "en_has en (PageKey oid ?pid)" using assms(1) True by (auto simp: heap_ok_def)
    then show ?thesis
    proof (cases rule: lock_fetch_cases [of en oid ?pid tid kExclusive])
      case (refused e)
      with True assms show ?thesis by (auto simp: HeapFile_Delete_def bind_op_def)
    next
      case (fetched en0 en1)
      note s1 = same_pages_heap [OF fetched(3) assms(1)]
      have p1: "en_page en1 (PageKey oid ?pid) = ?p" "pools_ok en1" "en_has en1 (PageKey oid ?pid)"
        using fetched(3) assms(1) True by (auto simp: same_pages_def heap_ok_def)
      show ?thesis
      proof (cases "GetSlotCount ?p \<le> rid_slot_id rid \<or> IsDeleted ?p (rid_slot_id rid)")
        case dead: True
        then have "rid \<notin> fst ` set (heap_rows oid en)" using live by auto
        with True dead assms fetched s1 keep show ?thesis by (auto simp: HeapFile_Delete_def bind_op_def)
      next
        case False
        let ?q = "DeleteRecord ?p (rid_slot_id rid)"
        have slot: "rid_slot_id rid < GetSlotCount ?p" using False by (simp add: not_le)
        have "page_ok ?p" using assms(1) True by (simp add: heap_ok_def)
        then have "length ?q = PAGE_SIZE" using page_ok_delete [OF _ slot] page_ok_length by blast
        with p1 obtain en2 where w: "bind_op (write_page_op oid ?pid ?q)
            (\<lambda>_. bind_op (MarkDirty_op tid oid ?pid) (\<lambda>_. return_op True)) en1 = (Inr True, en2)"
          "page_written en1 (PageKey oid ?pid) ?q en2"
          using write_mark_op [of en1 oid ?pid ?q tid True] by blast
        have "r = Inr True" "en' = en2"
          using assms(2) True False fetched(1,2) w(1) by (auto simp: HeapFile_Delete_def bind_op_def)
        moreover have "heap_ok oid en2" "heap_rows oid en2 = filter (\<lambda>(r, _). r \<noteq> rid) (heap_rows oid en)"
          using deleted_rows [OF s1(1), of rid en2] True slot w(2) s1(2,3) p1(1) by simp_all
        ultimately show ?thesis using live True False slot by simp
      qed
    qed
  qed
qed

section \<open>Witnesses\<close>

text \<open>Object 3 has one heap page, page 0, which holds the row \<open>AB\<close>; transaction 7 of thread 0 has it locked.\<close>

definition row_page :: page where
  "row_page = snd (InsertRecord (InitHeapPage 0) [65, 66])"

definition row_pool :: pool where
  "row_pool = dirty_pool\<lparr>bp_pages := [0 \<mapsto> row_page]\<rparr>"

definition row_engine :: engine where
  "row_engine = (one_txn_engine 10000)\<lparr>en_pools := [3 \<mapsto> row_pool], en_heaps := [3 \<mapsto> [0]]\<rparr>"

lemma row_page_insert: "InsertRecord (InitHeapPage 0) [65, 66] = (Some 0, row_page)"
  by (simp add: row_page_def InsertRecord_eq InitHeapPage_ok FreeSpace_def InitHeapPage_fields)

lemma row_page_ok: "page_ok row_page"
  using heap_page.ins_ok [OF _ row_page_insert] InitHeapPage_ok by (simp add: page_ok_def)

lemma row_engine_facts:
  "heap_page_ids 3 row_engine = [0]" "en_page row_engine (PageKey 3 0) = row_page" "en_pools row_engine 3 = Some row_pool"
  "bp_disk row_pool = bp_disk dirty_pool" "en_current row_engine 0 = Some 7"
  by (simp_all add: row_engine_def row_pool_def heap_page_ids_def en_page_def pool_page_def one_txn_engine_def)

lemma row_engine_ok: "heap_ok 3 row_engine"
proof -
  have "pool_ok row_pool"
    by (simp add: row_pool_def pool_ok_def pool_wf_def dirty_pool_def disk_ok_def pool_has_def disk_has_def
        page_ok_length [OF row_page_ok])
  then have "pools_ok row_engine" by (simp add: pools_ok_def row_engine_def)
  moreover have "en_has row_engine (PageKey 3 0)"
    by (simp add: en_has_def row_engine_facts pool_has_def disk_has_def) (simp add: dirty_pool_def)
  ultimately show ?thesis using row_page_ok by (simp add: heap_ok_def row_engine_facts)
qed

lemma row_engine_rows: "heap_rows 3 row_engine = [(\<lparr>rid_page_id = 0, rid_slot_id = 0\<rparr>, [65, 66])]"
proof -
  have "page_rows 0 (InitHeapPage 0) = []" by (simp add: page_rows_live InitHeapPage_slots)
  then show ?thesis
    using page_rows_insert [OF _ row_page_insert, of 0] InitHeapPage_ok
    by (simp add: heap_rows_def row_engine_facts page_ok_def)
qed

theorem HeapFile_Insert_rows_witness:
  "\<exists>r en'. HeapFile_Insert 1 3 [67] row_engine = (r, en') \<and>
     (case r of
        Inr rid \<Rightarrow> heap_rows 3 en' = [(\<lparr>rid_page_id = 0, rid_slot_id = 0\<rparr>, [65, 66]), (rid, [67])]
      | Inl e \<Rightarrow> heap_rows 3 en' = [(\<lparr>rid_page_id = 0, rid_slot_id = 0\<rparr>, [65, 66])])"
proof -
  obtain r en' where run: "HeapFile_Insert 1 3 [67] row_engine = (r, en')" by (cases "HeapFile_Insert 1 3 [67] row_engine")
  have "unat (next_page_id (bp_disk row_pool)) + 1 < 2 ^ 32" by (simp add: row_engine_facts dirty_pool_def)
  from HeapFile_Insert_rows [OF row_engine_ok row_engine_facts(3) this run] run show ?thesis
    by (intro exI [of _ r] exI [of _ en']) (auto simp: row_engine_rows split: sum.splits)
qed

theorem HeapFile_Delete_rows_witness:
  "\<exists>en'. HeapFile_Delete 1 3 \<lparr>rid_page_id = 0, rid_slot_id = 0\<rparr> row_engine = (Inr True, en') \<and> heap_rows 3 en' = []"
proof (cases "HeapFile_Delete 1 3 \<lparr>rid_page_id = 0, rid_slot_id = 0\<rparr> row_engine")
  case (Pair r en')
  have "en_current row_engine 1 = None" by (simp add: row_engine_def one_txn_engine_def)
  with HeapFile_Delete_rows [OF row_engine_ok Pair] Pair show ?thesis
    by (auto simp: row_engine_rows split: sum.splits)
qed

end
