(* ===== verification/Btree.thy ===== *)
theory Btree
  imports Btree_Node Heap_File
begin

text \<open>
  The operations of \<open>BPlusTree\<close> (\<open>src/src/index/btree.cpp\<close>, lines 314 to 945). The class works on the pages
  of one buffer pool under the locks of one object; these calls are the record \<open>page_ops\<close>, so that
  every operation is a function of it, and \<open>engine_ops\<close> is the record for an object of the engine.
  A write through a page's data and the later \<open>MarkDirty\<close> are two calls, as in the code.

  The recursion of \<open>Insert\<close> and \<open>Delete\<close> is unbounded in the code: a cycle of child pointers exhausts the
  stack. The model bounds it by \<open>recursion_fuel\<close> levels and reports the overflow as an error; the
  theorems show that a tree, which has at most 32 levels of internal nodes, never reaches the bound.
\<close>

record 's page_ops =
  po_lock :: "PageId \<Rightarrow> LockMode \<Rightarrow> ('s, unit) operation"
  po_fetch :: "PageId \<Rightarrow> ('s, page) operation"
  po_new :: "('s, PageId) operation"
  po_write :: "PageId \<Rightarrow> page \<Rightarrow> ('s, unit) operation"
  po_mark :: "PageId \<Rightarrow> ('s, unit) operation"

definition engine_ops :: "thread_id \<Rightarrow> ObjectId \<Rightarrow> engine page_ops" where
  "engine_ops tid oid =
     \<lparr>po_lock = LockPage tid oid, po_fetch = FetchPage_op oid, po_new = NewPage_op tid oid,
      po_write = write_page_op oid, po_mark = MarkDirty_op tid oid\<rparr>"

definition LockRoot :: "'s page_ops \<Rightarrow> LockMode \<Rightarrow> ('s, unit) operation" where
  "LockRoot ops mode = po_lock ops kRootHeaderPageId mode"

definition ThrowTraversalStepsExceeded :: "('s, 'a) operation" where
  "ThrowTraversalStepsExceeded = throw_op (Runtime_error ''BPlusTree: traversal'')"

definition recursion_fuel :: nat where
  "recursion_fuel = 64"

text \<open>\<open>v[i]\<close> on a vector of children; out of range it is undefined behaviour, an error value here.\<close>

definition child_at :: "PageId list \<Rightarrow> nat \<Rightarrow> ('s, PageId) operation" where
  "child_at cs i = (if i < length cs then return_op (cs ! i) else throw_op (Logic_error ''children[i]''))"

definition insert_nth :: "nat \<Rightarrow> 'a \<Rightarrow> 'a list \<Rightarrow> 'a list" where
  "insert_nth i x xs = take i xs @ x # drop i xs"

definition erase_nth :: "nat \<Rightarrow> 'a list \<Rightarrow> 'a list" where
  "erase_nth i xs = take i xs @ drop (Suc i) xs"

definition is_leaf :: "page \<Rightarrow> bool" where
  "is_leaf page \<longleftrightarrow> ReadPageType page = page_type_tag kBTreeLeaf"

definition lock_fetch :: "'s page_ops \<Rightarrow> PageId \<Rightarrow> LockMode \<Rightarrow> ('s, page) operation" where
  "lock_fetch ops pid mode = bind_op (po_lock ops pid mode) (\<lambda>_. po_fetch ops pid)"

section \<open>The root pointer\<close>

definition GetRootPageId :: "'s page_ops \<Rightarrow> ('s, PageId) operation" where
  "GetRootPageId ops = bind_op (po_fetch ops kRootHeaderPageId) (\<lambda>header. return_op (DeserializeHeaderRootPageId header))"

definition SetRootPageId :: "'s page_ops \<Rightarrow> PageId \<Rightarrow> ('s, unit) operation" where
  "SetRootPageId ops page_id =
     bind_op (po_fetch ops kRootHeaderPageId) (\<lambda>_.
     bind_op (po_write ops kRootHeaderPageId (SerializeHeader page_id)) (\<lambda>_.
     po_mark ops kRootHeaderPageId))"

text \<open>The constructor, on the engine: it also asks for the page count and flushes the header.\<close>

definition BPlusTree_open :: "thread_id \<Rightarrow> ObjectId \<Rightarrow> (engine, unit) operation" where
  "BPlusTree_open tid oid =
     bind_op (pool_op oid (\<lambda>bp. (Inr (NumPagesOnDisk bp), bp))) (\<lambda>n.
       if n \<noteq> 0 then return_op ()
       else bind_op (NewPage_op tid oid) (\<lambda>header_pid.
            bind_op (write_page_op oid header_pid (SerializeHeader INVALID_PAGE_ID)) (\<lambda>_.
            bind_op (MarkDirty_op tid oid header_pid) (\<lambda>_.
            pool_op oid (FlushPages {header_pid})))))"

definition BPlusTree_Empty :: "'s page_ops \<Rightarrow> ('s, bool) operation" where
  "BPlusTree_Empty ops = bind_op (GetRootPageId ops) (\<lambda>root. return_op (root = INVALID_PAGE_ID))"

section \<open>Reading\<close>

primrec height_loop :: "nat \<Rightarrow> 's page_ops \<Rightarrow> nat \<Rightarrow> page \<Rightarrow> ('s, nat) operation" where
  "height_loop 0 ops h page = (if is_leaf page then return_op h else ThrowTraversalStepsExceeded)"
| "height_loop (Suc n) ops h page =
     (if is_leaf page then return_op h
      else bind_op (child_at (node_children (DeserializeInternal page)) 0) (\<lambda>cur.
           bind_op (lock_fetch ops cur kShared) (\<lambda>page'. height_loop n ops (h + 1) page')))"

definition BPlusTree_Height :: "'s page_ops \<Rightarrow> ('s, nat) operation" where
  "BPlusTree_Height ops =
     bind_op (LockRoot ops kShared) (\<lambda>_.
     bind_op (GetRootPageId ops) (\<lambda>root.
       if root = INVALID_PAGE_ID then return_op 0
       else bind_op (lock_fetch ops root kShared) (height_loop kMaxTraversalSteps ops 1)))"

primrec search_loop :: "nat \<Rightarrow> 's page_ops \<Rightarrow> int64 \<Rightarrow> PageId \<Rightarrow> ('s, RID list) operation" where
  "search_loop 0 ops key cur = ThrowTraversalStepsExceeded"
| "search_loop (Suc n) ops key cur =
     bind_op (lock_fetch ops cur kShared) (\<lambda>page.
       if is_leaf page
       then let leaf = DeserializeLeaf page
            in return_op (map snd (filter (\<lambda>(k, _). k = key) (zip (leaf_keys leaf) (leaf_values leaf))))
       else let node = DeserializeInternal page
            in bind_op (child_at (node_children node) (upper_bound (node_keys node) key)) (search_loop n ops key))"

definition BPlusTree_Search :: "'s page_ops \<Rightarrow> int64 \<Rightarrow> ('s, RID list) operation" where
  "BPlusTree_Search ops key =
     bind_op (LockRoot ops kShared) (\<lambda>_.
     bind_op (GetRootPageId ops) (\<lambda>root.
       if root = INVALID_PAGE_ID then return_op [] else search_loop kMaxTraversalSteps ops key root))"

primrec descend_loop :: "nat \<Rightarrow> 's page_ops \<Rightarrow> page \<Rightarrow> ('s, page) operation" where
  "descend_loop 0 ops page = (if is_leaf page then return_op page else ThrowTraversalStepsExceeded)"
| "descend_loop (Suc n) ops page =
     (if is_leaf page then return_op page
      else bind_op (child_at (node_children (DeserializeInternal page)) 0) (\<lambda>cur.
           bind_op (lock_fetch ops cur kShared) (descend_loop n ops)))"

primrec chain_loop :: "nat \<Rightarrow> 's page_ops \<Rightarrow> (int64 \<times> RID) list \<Rightarrow> page \<Rightarrow> ('s, (int64 \<times> RID) list) operation" where
  "chain_loop 0 ops out page = ThrowTraversalStepsExceeded"
| "chain_loop (Suc n) ops out page =
     (let leaf = DeserializeLeaf page; out' = out @ zip (leaf_keys leaf) (leaf_values leaf)
      in if leaf_next_leaf leaf = INVALID_PAGE_ID then return_op out'
         else bind_op (lock_fetch ops (leaf_next_leaf leaf) kShared) (chain_loop n ops out'))"

definition RangeScanAll :: "'s page_ops \<Rightarrow> ('s, (int64 \<times> RID) list) operation" where
  "RangeScanAll ops =
     bind_op (LockRoot ops kShared) (\<lambda>_.
     bind_op (GetRootPageId ops) (\<lambda>root.
       if root = INVALID_PAGE_ID then return_op []
       else bind_op (lock_fetch ops root kShared) (\<lambda>page.
            bind_op (descend_loop kMaxTraversalSteps ops page) (chain_loop kMaxTraversalSteps ops []))))"

section \<open>Validation\<close>

text \<open>The loop over the keys of a leaf; \<open>prev\<close> is the key before the current one.\<close>

fun leaf_violation :: "int64 option \<Rightarrow> int64 option \<Rightarrow> int64 option \<Rightarrow> int64 list \<Rightarrow> string option" where
  "leaf_violation lower upper prev [] = None"
| "leaf_violation lower upper prev (k # ks) =
     (if (case prev of None \<Rightarrow> False | Some p \<Rightarrow> sint k < sint p) then Some ''leaf keys not sorted''
      else if (case lower of None \<Rightarrow> False | Some l \<Rightarrow> sint k < sint l) then Some ''leaf lower bound''
      else if (case upper of None \<Rightarrow> False | Some u \<Rightarrow> sint u \<le> sint k) then Some ''leaf upper bound''
      else leaf_violation lower upper (Some k) ks)"

definition keys_sorted :: "int64 list \<Rightarrow> bool" where
  "keys_sorted ks \<longleftrightarrow> list_all (\<lambda>(a, b). sint a \<le> sint b) (zip ks (tl ks))"

text \<open>The bounds of each child: the separators around it, the parent's bounds at the ends.\<close>

fun child_bounds :: "int64 option \<Rightarrow> int64 option \<Rightarrow> int64 list \<Rightarrow> (int64 option \<times> int64 option) list" where
  "child_bounds lower upper [] = [(lower, upper)]"
| "child_bounds lower upper (k # ks) = (lower, Some k) # child_bounds (Some k) upper ks"

fun first_some :: "('x \<Rightarrow> ('s, 'e option) operation) \<Rightarrow> 'x list \<Rightarrow> ('s, 'e option) operation" where
  "first_some f [] = return_op None"
| "first_some f (x # xs) = bind_op (f x) (\<lambda>r. case r of Some e \<Rightarrow> return_op (Some e) | None \<Rightarrow> first_some f xs)"

primrec ValidateSubtree :: "nat \<Rightarrow> 's page_ops \<Rightarrow> PageId \<Rightarrow> int64 option \<Rightarrow> int64 option \<Rightarrow> ('s, string option) operation" where
  "ValidateSubtree 0 ops page_id lower upper = return_op (Some ''maximum validation depth'')"
| "ValidateSubtree (Suc n) ops page_id lower upper =
     bind_op (po_fetch ops page_id) (\<lambda>page.
       if is_leaf page
       then let leaf = DeserializeLeaf page
            in return_op (if length (leaf_keys leaf) > kLeafMaxKeys then Some ''leaf overflowed''
                          else leaf_violation lower upper None (leaf_keys leaf))
       else let node = DeserializeInternal page
            in if length (node_keys node) > kInternalMaxKeys then return_op (Some ''internal overflowed'')
               else if length (node_children node) \<noteq> length (node_keys node) + 1 then return_op (Some ''internal children'')
               else if \<not> keys_sorted (node_keys node) then return_op (Some ''internal keys not sorted'')
               else first_some (\<lambda>(c, lo, hi). ValidateSubtree n ops c lo hi)
                      (zip (node_children node) (child_bounds lower upper (node_keys node))))"

definition ValidateInvariants :: "'s page_ops \<Rightarrow> ('s, string option) operation" where
  "ValidateInvariants ops =
     bind_op (GetRootPageId ops) (\<lambda>root.
       if root = INVALID_PAGE_ID then return_op None
       else ValidateSubtree (kMaxValidateDepth + 1) ops root None None)"

section \<open>Insertion\<close>

record SplitResult =
  split_key :: int64
  new_right_page_id :: PageId

text \<open>The leaf case of \<open>InsertRecursive\<close>.\<close>

definition insert_leaf :: "'s page_ops \<Rightarrow> PageId \<Rightarrow> LeafNode \<Rightarrow> int64 \<Rightarrow> RID \<Rightarrow> ('s, SplitResult option) operation" where
  "insert_leaf ops page_id leaf0 key rid =
     (let pos = upper_bound (leaf_keys leaf0) key;
          keys = insert_nth pos key (leaf_keys leaf0);
          vals = insert_nth pos rid (leaf_values leaf0)
      in if length keys \<le> kLeafMaxKeys
         then bind_op (po_write ops page_id (SerializeLeaf (leaf0\<lparr>leaf_keys := keys, leaf_values := vals\<rparr>))) (\<lambda>_.
              bind_op (po_mark ops page_id) (\<lambda>_. return_op None))
         else
           let mid = FindSplitBoundary keys (length keys div 2)
           in bind_op (po_new ops) (\<lambda>right_pid.
              bind_op (po_lock ops right_pid kExclusive) (\<lambda>_.
              let right = \<lparr>leaf_page_id = right_pid, leaf_next_leaf = leaf_next_leaf leaf0,
                           leaf_keys = drop mid keys, leaf_values = drop mid vals\<rparr>;
                  leaf = leaf0\<lparr>leaf_next_leaf := right_pid, leaf_keys := take mid keys, leaf_values := take mid vals\<rparr>
              in bind_op (po_write ops page_id (SerializeLeaf leaf)) (\<lambda>_.
                 bind_op (po_write ops right_pid (SerializeLeaf right)) (\<lambda>_.
                 bind_op (po_mark ops page_id) (\<lambda>_.
                 bind_op (po_mark ops right_pid) (\<lambda>_.
                   return_op (Some \<lparr>split_key = hd (leaf_keys right), new_right_page_id = right_pid\<rparr>))))))))"

text \<open>The internal case, after the recursive call has split the child.\<close>

definition insert_internal :: "'s page_ops \<Rightarrow> PageId \<Rightarrow> InternalNode \<Rightarrow> nat \<Rightarrow> SplitResult \<Rightarrow> ('s, SplitResult option) operation" where
  "insert_internal ops page_id node0 idx child_split =
     (let keys = insert_nth idx (split_key child_split) (node_keys node0);
          children = insert_nth (idx + 1) (new_right_page_id child_split) (node_children node0)
      in if length keys \<le> kInternalMaxKeys
         then bind_op (po_write ops page_id (SerializeInternal (node0\<lparr>node_keys := keys, node_children := children\<rparr>))) (\<lambda>_.
              bind_op (po_mark ops page_id) (\<lambda>_. return_op None))
         else
           let mid = FindSplitBoundary keys (length keys div 2)
           in bind_op (po_new ops) (\<lambda>right_pid.
              bind_op (po_lock ops right_pid kExclusive) (\<lambda>_.
              let right = \<lparr>node_page_id = right_pid, node_keys = drop (mid + 1) keys, node_children = drop (mid + 1) children\<rparr>;
                  node = node0\<lparr>node_keys := take mid keys, node_children := take (mid + 1) children\<rparr>
              in bind_op (po_write ops page_id (SerializeInternal node)) (\<lambda>_.
                 bind_op (po_write ops right_pid (SerializeInternal right)) (\<lambda>_.
                 bind_op (po_mark ops page_id) (\<lambda>_.
                 bind_op (po_mark ops right_pid) (\<lambda>_.
                   return_op (Some \<lparr>split_key = keys ! mid, new_right_page_id = right_pid\<rparr>))))))))"

primrec InsertRecursive :: "nat \<Rightarrow> 's page_ops \<Rightarrow> PageId \<Rightarrow> int64 \<Rightarrow> RID \<Rightarrow> ('s, SplitResult option) operation" where
  "InsertRecursive 0 ops page_id key rid = throw_op (Logic_error ''stack overflow'')"
| "InsertRecursive (Suc n) ops page_id key rid =
     bind_op (lock_fetch ops page_id kExclusive) (\<lambda>page.
       if is_leaf page then insert_leaf ops page_id (DeserializeLeaf page) key rid
       else let node = DeserializeInternal page; idx = upper_bound (node_keys node) key
            in bind_op (child_at (node_children node) idx) (\<lambda>child.
               bind_op (InsertRecursive n ops child key rid) (\<lambda>child_split.
                 case child_split of
                   None \<Rightarrow> return_op None
                 | Some sp \<Rightarrow> insert_internal ops page_id node idx sp)))"

definition BPlusTree_Insert :: "'s page_ops \<Rightarrow> int64 \<Rightarrow> RID \<Rightarrow> ('s, unit) operation" where
  "BPlusTree_Insert ops key rid =
     bind_op (LockRoot ops kExclusive) (\<lambda>_.
     bind_op (GetRootPageId ops) (\<lambda>root.
       if root = INVALID_PAGE_ID
       then bind_op (po_new ops) (\<lambda>pid.
            bind_op (po_lock ops pid kExclusive) (\<lambda>_.
            bind_op (po_write ops pid (SerializeLeaf \<lparr>leaf_page_id = pid, leaf_next_leaf = INVALID_PAGE_ID,
                                         leaf_keys = [key], leaf_values = [rid]\<rparr>)) (\<lambda>_.
            bind_op (po_mark ops pid) (\<lambda>_. SetRootPageId ops pid))))
       else bind_op (InsertRecursive recursion_fuel ops root key rid) (\<lambda>split.
              case split of
                None \<Rightarrow> return_op ()
              | Some sp \<Rightarrow>
                  bind_op (po_new ops) (\<lambda>new_root_pid.
                  bind_op (po_lock ops new_root_pid kExclusive) (\<lambda>_.
                  bind_op (po_write ops new_root_pid (SerializeInternal
                             \<lparr>node_page_id = new_root_pid, node_keys = [split_key sp],
                              node_children = [root, new_right_page_id sp]\<rparr>)) (\<lambda>_.
                  bind_op (po_mark ops new_root_pid) (\<lambda>_. SetRootPageId ops new_root_pid)))))))"

section \<open>Deletion\<close>

record DeleteResult =
  del_found :: bool
  del_underflow :: bool

fun entry_position :: "int64 list \<Rightarrow> RID list \<Rightarrow> int64 \<Rightarrow> RID \<Rightarrow> nat \<Rightarrow> nat option" where
  "entry_position (k # ks) (v # vs) key rid i = (if k = key \<and> v = rid then Some i else entry_position ks vs key rid (i + 1))"
| "entry_position _ _ key rid i = None"

definition delete_leaf :: "'s page_ops \<Rightarrow> PageId \<Rightarrow> bool \<Rightarrow> LeafNode \<Rightarrow> int64 \<Rightarrow> RID \<Rightarrow> ('s, DeleteResult) operation" where
  "delete_leaf ops page_id is_root leaf0 key rid =
     (case entry_position (leaf_keys leaf0) (leaf_values leaf0) key rid 0 of
        None \<Rightarrow> return_op \<lparr>del_found = False, del_underflow = False\<rparr>
      | Some pos \<Rightarrow>
          let leaf = leaf0\<lparr>leaf_keys := erase_nth pos (leaf_keys leaf0), leaf_values := erase_nth pos (leaf_values leaf0)\<rparr>
          in bind_op (po_write ops page_id (SerializeLeaf leaf)) (\<lambda>_.
             bind_op (po_mark ops page_id) (\<lambda>_.
               return_op \<lparr>del_found = True, del_underflow = (\<not> is_root \<and> length (leaf_keys leaf) < kLeafMinKeys)\<rparr>)))"

definition drop_child :: "nat \<Rightarrow> InternalNode \<Rightarrow> InternalNode" where
  "drop_child i parent =
     parent\<lparr>node_keys := erase_nth i (node_keys parent), node_children := erase_nth (i + 1) (node_children parent)\<rparr>"

text \<open>
  The two leaf cases of \<open>FixUnderflow\<close>: the underfull leaf and a sibling are merged when they fit in one
  page, otherwise their entries are divided anew. \<open>left\<close> and \<open>right\<close> are the two leaves in key order,
  \<open>i\<close> the position of the separator between them.
\<close>

definition merge_leaves :: "'s page_ops \<Rightarrow> PageId \<Rightarrow> LeafNode \<Rightarrow> LeafNode \<Rightarrow> InternalNode \<Rightarrow> nat \<Rightarrow> ('s, InternalNode) operation" where
  "merge_leaves ops left_pid left right parent i =
     bind_op (po_write ops left_pid (SerializeLeaf (left\<lparr>leaf_keys := leaf_keys left @ leaf_keys right,
                leaf_values := leaf_values left @ leaf_values right, leaf_next_leaf := leaf_next_leaf right\<rparr>))) (\<lambda>_.
     bind_op (po_mark ops left_pid) (\<lambda>_. return_op (drop_child i parent)))"

definition fix_leaf_left :: "'s page_ops \<Rightarrow> InternalNode \<Rightarrow> nat \<Rightarrow> PageId \<Rightarrow> LeafNode \<Rightarrow> ('s, InternalNode) operation" where
  "fix_leaf_left ops parent idx child_pid child =
     bind_op (child_at (node_children parent) (idx - 1)) (\<lambda>left_pid.
     bind_op (lock_fetch ops left_pid kExclusive) (\<lambda>left_page.
       let left = DeserializeLeaf left_page; combined_size = length (leaf_keys left) + length (leaf_keys child)
       in if combined_size \<le> kLeafMaxKeys then merge_leaves ops left_pid left child parent (idx - 1)
          else
            let keys = leaf_keys left @ leaf_keys child; vals = leaf_values left @ leaf_values child;
                min_split = combined_size - kLeafMaxKeys; max_split = kLeafMaxKeys; ideal = combined_size - kLeafMinKeys;
                split_at = (case FindRebalanceSplit keys min_split max_split ideal of
                              Some i \<Rightarrow> i | None \<Rightarrow> clamp ideal min_split max_split);
                left' = left\<lparr>leaf_keys := take split_at keys, leaf_values := take split_at vals\<rparr>;
                child' = child\<lparr>leaf_keys := drop split_at keys, leaf_values := drop split_at vals\<rparr>
            in bind_op (po_write ops left_pid (SerializeLeaf left')) (\<lambda>_.
               bind_op (po_write ops child_pid (SerializeLeaf child')) (\<lambda>_.
               bind_op (po_mark ops left_pid) (\<lambda>_.
               bind_op (po_mark ops child_pid) (\<lambda>_.
                 return_op (parent\<lparr>node_keys := (node_keys parent)[idx - 1 := hd (leaf_keys child')]\<rparr>)))))))"

definition fix_leaf_right :: "'s page_ops \<Rightarrow> InternalNode \<Rightarrow> nat \<Rightarrow> PageId \<Rightarrow> LeafNode \<Rightarrow> ('s, InternalNode) operation" where
  "fix_leaf_right ops parent idx child_pid child =
     bind_op (child_at (node_children parent) (idx + 1)) (\<lambda>right_pid.
     bind_op (lock_fetch ops right_pid kExclusive) (\<lambda>right_page.
       let right = DeserializeLeaf right_page; combined_size = length (leaf_keys child) + length (leaf_keys right)
       in if combined_size \<le> kLeafMaxKeys then merge_leaves ops child_pid child right parent idx
          else
            let keys = leaf_keys child @ leaf_keys right; vals = leaf_values child @ leaf_values right;
                min_split = combined_size - kLeafMaxKeys; max_split = kLeafMaxKeys; ideal = kLeafMinKeys;
                split_at = (case FindRebalanceSplit keys min_split max_split ideal of
                              Some i \<Rightarrow> i | None \<Rightarrow> clamp ideal min_split max_split);
                child' = child\<lparr>leaf_keys := take split_at keys, leaf_values := take split_at vals\<rparr>;
                right' = right\<lparr>leaf_keys := drop split_at keys, leaf_values := drop split_at vals\<rparr>
            in bind_op (po_write ops right_pid (SerializeLeaf right')) (\<lambda>_.
               bind_op (po_write ops child_pid (SerializeLeaf child')) (\<lambda>_.
               bind_op (po_mark ops right_pid) (\<lambda>_.
               bind_op (po_mark ops child_pid) (\<lambda>_.
                 return_op (parent\<lparr>node_keys := (node_keys parent)[idx := hd (leaf_keys right')]\<rparr>)))))))"

text \<open>The internal cases: borrow one child from the left, else from the right, else merge.\<close>

definition borrow_left :: "'s page_ops \<Rightarrow> InternalNode \<Rightarrow> nat \<Rightarrow> PageId \<Rightarrow> InternalNode \<Rightarrow> ('s, InternalNode option) operation" where
  "borrow_left ops parent idx child_pid child =
     bind_op (child_at (node_children parent) (idx - 1)) (\<lambda>left_pid.
     bind_op (lock_fetch ops left_pid kExclusive) (\<lambda>left_page.
       let left = DeserializeInternal left_page
       in if \<not> length (node_keys left) > kInternalMinKeys then return_op None
          else
            let moved_child = last (node_children left); demoted = node_keys parent ! (idx - 1); promoted = last (node_keys left);
                child' = child\<lparr>node_keys := demoted # node_keys child, node_children := moved_child # node_children child\<rparr>;
                left' = left\<lparr>node_keys := butlast (node_keys left), node_children := butlast (node_children left)\<rparr>
            in bind_op (po_write ops left_pid (SerializeInternal left')) (\<lambda>_.
               bind_op (po_write ops child_pid (SerializeInternal child')) (\<lambda>_.
               bind_op (po_mark ops left_pid) (\<lambda>_.
               bind_op (po_mark ops child_pid) (\<lambda>_.
                 return_op (Some (parent\<lparr>node_keys := (node_keys parent)[idx - 1 := promoted]\<rparr>))))))))"

definition borrow_right :: "'s page_ops \<Rightarrow> InternalNode \<Rightarrow> nat \<Rightarrow> PageId \<Rightarrow> InternalNode \<Rightarrow> ('s, InternalNode option) operation" where
  "borrow_right ops parent idx child_pid child =
     bind_op (child_at (node_children parent) (idx + 1)) (\<lambda>right_pid.
     bind_op (lock_fetch ops right_pid kExclusive) (\<lambda>right_page.
       let right = DeserializeInternal right_page
       in if \<not> length (node_keys right) > kInternalMinKeys then return_op None
          else
            let moved_child = hd (node_children right); demoted = node_keys parent ! idx; promoted = hd (node_keys right);
                child' = child\<lparr>node_keys := node_keys child @ [demoted], node_children := node_children child @ [moved_child]\<rparr>;
                right' = right\<lparr>node_keys := tl (node_keys right), node_children := tl (node_children right)\<rparr>
            in bind_op (po_write ops right_pid (SerializeInternal right')) (\<lambda>_.
               bind_op (po_write ops child_pid (SerializeInternal child')) (\<lambda>_.
               bind_op (po_mark ops right_pid) (\<lambda>_.
               bind_op (po_mark ops child_pid) (\<lambda>_.
                 return_op (Some (parent\<lparr>node_keys := (node_keys parent)[idx := promoted]\<rparr>))))))))"

definition merge_internals :: "'s page_ops \<Rightarrow> PageId \<Rightarrow> InternalNode \<Rightarrow> InternalNode \<Rightarrow> InternalNode \<Rightarrow> nat \<Rightarrow> ('s, InternalNode) operation" where
  "merge_internals ops left_pid left right parent i =
     bind_op (po_write ops left_pid (SerializeInternal (left\<lparr>
                node_keys := node_keys left @ [node_keys parent ! i] @ node_keys right,
                node_children := node_children left @ node_children right\<rparr>))) (\<lambda>_.
     bind_op (po_mark ops left_pid) (\<lambda>_. return_op (drop_child i parent)))"

definition merge_left :: "'s page_ops \<Rightarrow> InternalNode \<Rightarrow> nat \<Rightarrow> InternalNode \<Rightarrow> ('s, InternalNode) operation" where
  "merge_left ops parent idx child =
     bind_op (child_at (node_children parent) (idx - 1)) (\<lambda>left_pid.
     bind_op (lock_fetch ops left_pid kExclusive) (\<lambda>left_page.
       merge_internals ops left_pid (DeserializeInternal left_page) child parent (idx - 1)))"

definition merge_right :: "'s page_ops \<Rightarrow> InternalNode \<Rightarrow> nat \<Rightarrow> PageId \<Rightarrow> InternalNode \<Rightarrow> ('s, InternalNode) operation" where
  "merge_right ops parent idx child_pid child =
     bind_op (child_at (node_children parent) (idx + 1)) (\<lambda>right_pid.
     bind_op (lock_fetch ops right_pid kExclusive) (\<lambda>right_page.
       merge_internals ops child_pid child (DeserializeInternal right_page) parent idx))"

text \<open>The parent is passed by reference in the code; the model returns it updated.\<close>

definition FixUnderflow :: "'s page_ops \<Rightarrow> InternalNode \<Rightarrow> nat \<Rightarrow> ('s, InternalNode) operation" where
  "FixUnderflow ops parent idx =
     bind_op (child_at (node_children parent) idx) (\<lambda>child_pid.
     bind_op (lock_fetch ops child_pid kExclusive) (\<lambda>child_page.
       let has_left = 0 < idx; has_right = idx + 1 < length (node_children parent)
       in if is_leaf child_page
          then let child = DeserializeLeaf child_page
               in if has_left then fix_leaf_left ops parent idx child_pid child
                  else fix_leaf_right ops parent idx child_pid child
          else let child = DeserializeInternal child_page
               in bind_op (if has_left then borrow_left ops parent idx child_pid child else return_op None) (\<lambda>r1.
                    case r1 of
                      Some p \<Rightarrow> return_op p
                    | None \<Rightarrow>
                        bind_op (if has_right then borrow_right ops parent idx child_pid child else return_op None) (\<lambda>r2.
                          case r2 of
                            Some p \<Rightarrow> return_op p
                          | None \<Rightarrow> if has_left then merge_left ops parent idx child
                                     else merge_right ops parent idx child_pid child))))"

primrec DeleteRecursive :: "nat \<Rightarrow> 's page_ops \<Rightarrow> PageId \<Rightarrow> bool \<Rightarrow> int64 \<Rightarrow> RID \<Rightarrow> ('s, DeleteResult) operation" where
  "DeleteRecursive 0 ops page_id is_root key rid = throw_op (Logic_error ''stack overflow'')"
| "DeleteRecursive (Suc n) ops page_id is_root key rid =
     bind_op (lock_fetch ops page_id kExclusive) (\<lambda>page.
       if is_leaf page then delete_leaf ops page_id is_root (DeserializeLeaf page) key rid
       else let node0 = DeserializeInternal page; idx = upper_bound (node_keys node0) key
            in bind_op (child_at (node_children node0) idx) (\<lambda>child.
               bind_op (DeleteRecursive n ops child False key rid) (\<lambda>child_result.
                 if \<not> del_found child_result then return_op \<lparr>del_found = False, del_underflow = False\<rparr>
                 else bind_op (if del_underflow child_result then FixUnderflow ops node0 idx else return_op node0) (\<lambda>node.
                      bind_op (po_write ops page_id (SerializeInternal node)) (\<lambda>_.
                      bind_op (po_mark ops page_id) (\<lambda>_.
                        return_op \<lparr>del_found = True,
                          del_underflow = (\<not> is_root \<and> length (node_keys node) < kInternalMinKeys)\<rparr>))))))"

definition BPlusTree_Delete :: "'s page_ops \<Rightarrow> int64 \<Rightarrow> RID \<Rightarrow> ('s, bool) operation" where
  "BPlusTree_Delete ops key rid =
     bind_op (LockRoot ops kExclusive) (\<lambda>_.
     bind_op (GetRootPageId ops) (\<lambda>root.
       if root = INVALID_PAGE_ID then return_op False
       else bind_op (DeleteRecursive recursion_fuel ops root True key rid) (\<lambda>result.
              if \<not> del_found result then return_op False
              else bind_op (po_fetch ops root) (\<lambda>root_page.
                   bind_op (if is_leaf root_page
                            then if leaf_keys (DeserializeLeaf root_page) = [] then SetRootPageId ops INVALID_PAGE_ID else return_op ()
                            else if length (node_children (DeserializeInternal root_page)) = 1
                                 then bind_op (child_at (node_children (DeserializeInternal root_page)) 0) (SetRootPageId ops)
                                 else return_op ()) (\<lambda>_. return_op True)))))"

end
