(* ===== verification/Catalog.thy ===== *)
theory Catalog
  imports Sql_Syntax Decimal_Text
begin

text \<open>
  The catalog of \<open>src/src/catalog/catalog.h\<close> and \<open>catalog.cpp\<close>: the schema, the assignment of object
  ids, and the metadata file it is rewritten to. The state holds the members of the class and the
  two files \<open>catalog.meta\<close> and \<open>catalog.meta.tmp\<close>; \<open>cat_fault\<close> says how the file system behaves when the
  catalog is next written. \<open>ostream <<\<close> is a list of words, each with the separator written after it,
  and \<open>istream >>\<close> skips white space and reads a word or a number.
\<close>

section \<open>Schema records\<close>

record IndexInfo =
  idx_name :: string
  idx_table_name :: string
  idx_column_name :: string
  idx_object_id :: ObjectId
  idx_is_primary_key :: bool

record TableInfo =
  tab_name :: string
  tab_columns :: "ColumnDef list"
  tab_primary_key_column :: "string option"
  tab_heap_object_id :: ObjectId

fun ColumnTypeToString :: "ColumnType \<Rightarrow> string" where
  "ColumnTypeToString ColumnType.kInteger = ''INTEGER''"
| "ColumnTypeToString ColumnType.kText = ''TEXT''"

definition ColumnTypeFromString :: "string \<Rightarrow> exn + ColumnType" where
  "ColumnTypeFromString s =
     (if s = ''INTEGER'' then Inr ColumnType.kInteger
      else if s = ''TEXT'' then Inr ColumnType.kText
      else Inl (Invalid_argument ''ColumnTypeFromString''))"

definition find_column :: "ColumnDef list \<Rightarrow> string \<Rightarrow> ColumnDef option" where
  "find_column cols name = find (\<lambda>c. col_name c = name) cols"

definition FindColumn :: "TableInfo \<Rightarrow> string \<Rightarrow> ColumnDef option" where
  "FindColumn t name = find_column (tab_columns t) name"

datatype persist_fault = No_fault | Open_fails | Write_fails nat | Fsync_fails | Rename_fails

record catalog =
  cat_tables :: "TableInfo list"
  cat_indexes :: "IndexInfo list"
  cat_next_object_id :: ObjectId
  cat_meta_file :: "string option"
  cat_tmp_file :: "string option"
  cat_fault :: persist_fault

section \<open>Lookups\<close>

definition FindTable :: "catalog \<Rightarrow> string \<Rightarrow> TableInfo option" where
  "FindTable c name = find (\<lambda>t. tab_name t = name) (cat_tables c)"

definition FindIndex :: "catalog \<Rightarrow> string \<Rightarrow> IndexInfo option" where
  "FindIndex c name = find (\<lambda>i. idx_name i = name) (cat_indexes c)"

definition IndexesOnTable :: "catalog \<Rightarrow> string \<Rightarrow> IndexInfo list" where
  "IndexesOnTable c table_name = filter (\<lambda>i. idx_table_name i = table_name) (cat_indexes c)"

definition PrimaryKeyIndex :: "catalog \<Rightarrow> string \<Rightarrow> IndexInfo option" where
  "PrimaryKeyIndex c table_name = find (\<lambda>i. idx_table_name i = table_name \<and> idx_is_primary_key i) (cat_indexes c)"

section \<open>The metadata file\<close>

abbreviation (input) sp :: char where
  "sp \<equiv> CHR '' ''"

abbreviation (input) nl :: char where
  "nl \<equiv> CHR 0x0A"

definition stream_text :: "(string \<times> char) list \<Rightarrow> string" where
  "stream_text ws = concat (map (\<lambda>(w, sep). w @ [sep]) ws)"

definition column_words :: "ColumnDef \<Rightarrow> (string \<times> char) list" where
  "column_words col = [(''COLUMN'', sp), (col_name col, sp), (ColumnTypeToString (col_type col), nl)]"

definition index_words :: "IndexInfo \<Rightarrow> (string \<times> char) list" where
  "index_words idx =
     [(''INDEX'', sp), (idx_name idx, sp), (idx_column_name idx, sp), (decimal (unat (idx_object_id idx)), sp),
      (if idx_is_primary_key idx then ''PK'' else ''SEC'', nl)]"

definition table_words :: "catalog \<Rightarrow> TableInfo \<Rightarrow> (string \<times> char) list" where
  "table_words c t =
     [(''TABLE'', sp), (tab_name t, nl),
      (''HEAP_OBJECT_ID'', sp), (decimal (unat (tab_heap_object_id t)), nl),
      (''NUM_COLUMNS'', sp), (decimal (length (tab_columns t)), nl)] @
     concat (map column_words (tab_columns t)) @
     [(''PRIMARY_KEY'', sp), (case tab_primary_key_column t of Some pk \<Rightarrow> pk | None \<Rightarrow> ''NONE'', nl),
      (''NUM_INDEXES'', sp), (decimal (length (IndexesOnTable c (tab_name t))), nl)] @
     concat (map index_words (IndexesOnTable c (tab_name t)))"

definition metadata_text :: "catalog \<Rightarrow> string" where
  "metadata_text c = stream_text
     ([(''FLINTDB_CATALOG'', sp), (''1'', nl),
       (''NEXT_OBJECT_ID'', sp), (decimal (unat (cat_next_object_id c)), nl),
       (''NUM_TABLES'', sp), (decimal (length (cat_tables c)), nl)] @
      concat (map (table_words c) (cat_tables c)))"

text \<open>
  \<open>Persist\<close>: open and truncate the temporary file, write it, sync it, rename it over the metadata file. A
  failure leaves what was written of the temporary file and the old metadata file.
\<close>

definition Persist :: "(catalog, unit) operation" where
  "Persist c =
     (let content = metadata_text c
      in case cat_fault c of
           Open_fails \<Rightarrow> (Inl (Runtime_error ''Catalog''), c)
         | Write_fails n \<Rightarrow> (Inl (Runtime_error ''Catalog''), c\<lparr>cat_tmp_file := Some (take n content)\<rparr>)
         | Fsync_fails \<Rightarrow> (Inl (Runtime_error ''Catalog''), c\<lparr>cat_tmp_file := Some content\<rparr>)
         | Rename_fails \<Rightarrow> (Inl (Runtime_error ''Catalog''), c\<lparr>cat_tmp_file := Some content\<rparr>)
         | No_fault \<Rightarrow> (Inr (), c\<lparr>cat_meta_file := Some content, cat_tmp_file := None\<rparr>))"

section \<open>Reading the metadata file\<close>

definition isspace :: "char \<Rightarrow> bool" where
  "isspace ch \<longleftrightarrow> (of_char ch :: nat) = 32 \<or> 9 \<le> (of_char ch :: nat) \<and> (of_char ch :: nat) \<le> 13"

type_synonym 'a reader = "(string, 'a) operation"

definition malformed :: exn where
  "malformed = Runtime_error ''Catalog: malformed metadata file''"

definition read_word :: "string reader" where
  "read_word s =
     (let s' = dropWhile isspace s; w = takeWhile (\<lambda>ch. \<not> isspace ch) s'
      in if w = [] then (Inl malformed, s') else (Inr w, dropWhile (\<lambda>ch. \<not> isspace ch) s'))"

definition split_sign :: "string \<Rightarrow> bool \<times> string" where
  "split_sign s =
     (case s of
        [] \<Rightarrow> (False, [])
      | ch # r \<Rightarrow> if ch = CHR ''-'' then (True, r) else if ch = CHR ''+'' then (False, r) else (False, s))"

text \<open>\<open>in >> value\<close> for an unsigned type of \<open>bits\<close> bits; a minus sign wraps around, as in \<open>strtoull\<close>.\<close>

definition read_unsigned :: "nat \<Rightarrow> nat reader" where
  "read_unsigned bits s =
     (let (neg, r) = split_sign (dropWhile isspace s); v = digits_value (takeWhile isdigit r)
      in if takeWhile isdigit r = [] \<or> v \<ge> 2 ^ bits then (Inl malformed, r)
         else (Inr (if neg then (2 ^ bits - v) mod 2 ^ bits else v), dropWhile isdigit r))"

definition read_int :: "int reader" where
  "read_int s =
     (let (neg, r) = split_sign (dropWhile isspace s); v = int (digits_value (takeWhile isdigit r)); i = (if neg then - v else v)
      in if takeWhile isdigit r = [] \<or> i < - (2 ^ 31) \<or> i \<ge> 2 ^ 31 then (Inl malformed, r)
         else (Inr i, dropWhile isdigit r))"

definition ExpectTag :: "string \<Rightarrow> unit reader" where
  "ExpectTag expected = bind_op read_word (\<lambda>tag. if tag \<noteq> expected then throw_op malformed else return_op ())"

definition ReadField :: "nat \<Rightarrow> string \<Rightarrow> nat reader" where
  "ReadField bits tag = bind_op (ExpectTag tag) (\<lambda>_. read_unsigned bits)"

fun load_columns :: "nat \<Rightarrow> ColumnDef list reader" where
  "load_columns 0 = return_op []"
| "load_columns (Suc n) =
     bind_op (ExpectTag ''COLUMN'') (\<lambda>_.
       bind_op read_word (\<lambda>name.
         bind_op read_word (\<lambda>ty.
           case ColumnTypeFromString ty of
             Inl e \<Rightarrow> throw_op e
           | Inr t \<Rightarrow> bind_op (load_columns n) (\<lambda>cols. return_op (\<lparr>col_name = name, col_type = t\<rparr> # cols)))))"

fun load_indexes :: "string \<Rightarrow> nat \<Rightarrow> IndexInfo list reader" where
  "load_indexes table 0 = return_op []"
| "load_indexes table (Suc n) =
     bind_op (ExpectTag ''INDEX'') (\<lambda>_.
       bind_op read_word (\<lambda>name.
         bind_op read_word (\<lambda>column.
           bind_op (read_unsigned 32) (\<lambda>object_id.
             bind_op read_word (\<lambda>kind.
               if kind \<noteq> ''PK'' \<and> kind \<noteq> ''SEC'' then throw_op malformed
               else bind_op (load_indexes table n) (\<lambda>idxs.
                 return_op (\<lparr>idx_name = name, idx_table_name = table, idx_column_name = column,
                   idx_object_id = of_nat object_id, idx_is_primary_key = (kind = ''PK'')\<rparr> # idxs)))))))"

definition load_table :: "(TableInfo \<times> IndexInfo list) reader" where
  "load_table =
     bind_op (ExpectTag ''TABLE'') (\<lambda>_.
       bind_op read_word (\<lambda>name.
         bind_op (ReadField 32 ''HEAP_OBJECT_ID'') (\<lambda>heap_object_id.
           bind_op (ReadField 64 ''NUM_COLUMNS'') (\<lambda>num_columns.
             bind_op (load_columns num_columns) (\<lambda>columns.
               bind_op (ExpectTag ''PRIMARY_KEY'') (\<lambda>_.
                 bind_op read_word (\<lambda>pk.
                   bind_op (ReadField 64 ''NUM_INDEXES'') (\<lambda>num_indexes.
                     bind_op (load_indexes name num_indexes) (\<lambda>indexes.
                       return_op
                         (\<lparr>tab_name = name, tab_columns = columns,
                           tab_primary_key_column = (if pk \<noteq> ''NONE'' then Some pk else None),
                           tab_heap_object_id = of_nat heap_object_id\<rparr>, indexes))))))))))"

fun load_tables :: "nat \<Rightarrow> (TableInfo list \<times> IndexInfo list) reader" where
  "load_tables 0 = return_op ([], [])"
| "load_tables (Suc n) =
     bind_op load_table (\<lambda>(t, is).
       bind_op (load_tables n) (\<lambda>(ts, js). return_op (t # ts, is @ js)))"

definition load_catalog :: "(ObjectId \<times> TableInfo list \<times> IndexInfo list) reader" where
  "load_catalog =
     bind_op (ExpectTag ''FLINTDB_CATALOG'') (\<lambda>_.
       bind_op read_int (\<lambda>version.
         if version \<noteq> 1 then throw_op (Runtime_error ''Catalog: unsupported version'')
         else bind_op (ReadField 32 ''NEXT_OBJECT_ID'') (\<lambda>next.
           bind_op (ReadField 64 ''NUM_TABLES'') (\<lambda>num_tables.
             bind_op (load_tables num_tables) (\<lambda>(tables, indexes). return_op (of_nat next, tables, indexes))))))"

text \<open>The constructor: an absent metadata file gives the empty catalog.\<close>

definition empty_catalog :: catalog where
  "empty_catalog = \<lparr>cat_tables = [], cat_indexes = [], cat_next_object_id = 0, cat_meta_file = None, cat_tmp_file = None,
     cat_fault = No_fault\<rparr>"

definition Catalog_open :: "string option \<Rightarrow> exn + catalog" where
  "Catalog_open meta =
     (case meta of
        None \<Rightarrow> Inr empty_catalog
      | Some text \<Rightarrow>
          (case fst (load_catalog text) of
             Inl e \<Rightarrow> Inl e
           | Inr (next, tables, indexes) \<Rightarrow>
               Inr (empty_catalog\<lparr>cat_tables := tables, cat_indexes := indexes, cat_next_object_id := next,
                 cat_meta_file := meta\<rparr>)))"

section \<open>Schema changes\<close>

definition AllocateObjectId :: "(catalog, ObjectId) operation" where
  "AllocateObjectId c = (Inr (cat_next_object_id c), c\<lparr>cat_next_object_id := cat_next_object_id c + 1\<rparr>)"

definition validate_primary_key :: "ColumnDef list \<Rightarrow> string option \<Rightarrow> exn option" where
  "validate_primary_key columns pk =
     (case pk of
        None \<Rightarrow> None
      | Some k \<Rightarrow>
          (case find_column columns k of
             None \<Rightarrow> Some (Invalid_argument ''Catalog::CreateTable'')
           | Some col \<Rightarrow> if col_type col \<noteq> ColumnType.kInteger then Some (Invalid_argument ''Catalog::CreateTable'') else None))"

definition validate_table :: "catalog \<Rightarrow> string \<Rightarrow> ColumnDef list \<Rightarrow> string option \<Rightarrow> exn option" where
  "validate_table c name columns pk =
     (if FindTable c name \<noteq> None \<or> FindIndex c name \<noteq> None then Some (Invalid_argument ''Catalog::CreateTable'')
      else if columns = [] then Some (Invalid_argument ''Catalog::CreateTable'')
      else if \<not> distinct (map col_name columns) then Some (Invalid_argument ''Catalog::CreateTable'')
      else validate_primary_key columns pk)"

definition pk_index_name :: "string \<Rightarrow> string \<Rightarrow> string" where
  "pk_index_name table column = table @ ''.'' @ column @ ''#pk''"

definition push_table :: "TableInfo \<Rightarrow> catalog \<Rightarrow> catalog" where
  "push_table t c = c\<lparr>cat_tables := cat_tables c @ [t]\<rparr>"

definition push_index :: "IndexInfo \<Rightarrow> catalog \<Rightarrow> catalog" where
  "push_index i c = c\<lparr>cat_indexes := cat_indexes c @ [i]\<rparr>"

definition CreateTable :: "string \<Rightarrow> ColumnDef list \<Rightarrow> string option \<Rightarrow> (catalog, ObjectId) operation" where
  "CreateTable name columns pk c =
     (case validate_table c name columns pk of
        Some e \<Rightarrow> (Inl e, c)
      | None \<Rightarrow>
          bind_op AllocateObjectId (\<lambda>heap.
            bind_op (modify_op (push_table \<lparr>tab_name = name, tab_columns = columns, tab_primary_key_column = pk,
                tab_heap_object_id = heap\<rparr>)) (\<lambda>_.
              bind_op (case pk of
                  None \<Rightarrow> return_op ()
                | Some k \<Rightarrow> bind_op AllocateObjectId (\<lambda>oid.
                    modify_op (push_index \<lparr>idx_name = pk_index_name name k, idx_table_name = name, idx_column_name = k,
                      idx_object_id = oid, idx_is_primary_key = True\<rparr>))) (\<lambda>_.
                bind_op Persist (\<lambda>_. return_op heap)))) c)"

definition validate_index :: "catalog \<Rightarrow> string \<Rightarrow> string \<Rightarrow> string \<Rightarrow> exn option" where
  "validate_index c name table_name column_name =
     (if FindTable c name \<noteq> None \<or> FindIndex c name \<noteq> None then Some (Invalid_argument ''Catalog::CreateIndex'')
      else case FindTable c table_name of
             None \<Rightarrow> Some (Invalid_argument ''Catalog::CreateIndex'')
           | Some t \<Rightarrow>
               (case FindColumn t column_name of
                  None \<Rightarrow> Some (Invalid_argument ''Catalog::CreateIndex'')
                | Some col \<Rightarrow>
                    if col_type col \<noteq> ColumnType.kInteger then Some (Invalid_argument ''Catalog::CreateIndex'') else None))"

definition CreateIndex :: "string \<Rightarrow> string \<Rightarrow> string \<Rightarrow> (catalog, ObjectId) operation" where
  "CreateIndex name table_name column_name c =
     (case validate_index c name table_name column_name of
        Some e \<Rightarrow> (Inl e, c)
      | None \<Rightarrow>
          bind_op AllocateObjectId (\<lambda>oid.
            bind_op (modify_op (push_index \<lparr>idx_name = name, idx_table_name = table_name, idx_column_name = column_name,
                idx_object_id = oid, idx_is_primary_key = False\<rparr>)) (\<lambda>_.
              bind_op Persist (\<lambda>_. return_op oid))) c)"

definition FilePathFor :: "string \<Rightarrow> ObjectId \<Rightarrow> string" where
  "FilePathFor dir_path object_id = dir_path @ ''/obj_'' @ decimal (unat object_id) @ ''.dat''"

definition MetadataFilePath :: "string \<Rightarrow> string" where
  "MetadataFilePath dir_path = dir_path @ ''/catalog.meta''"

section \<open>Reading back what was written\<close>

definition plain :: "string \<Rightarrow> bool" where
  "plain w \<longleftrightarrow> w \<noteq> [] \<and> list_all (\<lambda>ch. \<not> isspace ch) w"

definition strm :: "string \<Rightarrow> (string \<times> char) list \<Rightarrow> string" where
  "strm pre ws = pre @ stream_text ws"

lemma isspace_sep [simp]: "isspace sp" "isspace nl"
  by (simp_all add: isspace_def)

lemma isspace_not_digit: "isspace ch \<Longrightarrow> \<not> isdigit ch"
  by (auto simp: isspace_def isdigit_def)

lemma dropWhile_space: "list_all isspace pre \<Longrightarrow> dropWhile isspace (pre @ s) = dropWhile isspace s"
  by (induction pre) auto

lemma strm_Cons: "strm pre ((w, sep) # ws) = pre @ w @ sep # strm [] ws" "strm [sep] ws = sep # strm [] ws"
  by (simp_all add: strm_def stream_text_def)

lemma read_word_strm:
  assumes "list_all isspace pre" and "plain w" and "isspace sep"
  shows "read_word (strm pre ((w, sep) # ws)) = (Inr w, strm [sep] ws)"
proof -
  have "dropWhile isspace (w @ sep # strm [] ws) = w @ sep # strm [] ws"
    using assms(2) by (cases w) (auto simp: plain_def)
  moreover have "takeWhile (\<lambda>ch. \<not> isspace ch) (w @ sep # strm [] ws) = w"
    "dropWhile (\<lambda>ch. \<not> isspace ch) (w @ sep # strm [] ws) = sep # strm [] ws"
    using assms(2,3) by (auto simp: plain_def list_all_iff takeWhile_append2 dropWhile_append2)
  ultimately show ?thesis
    using assms(1,2) by (simp add: read_word_def strm_Cons dropWhile_space plain_def)
qed

lemma decimal_not_space: "ch \<in> set (decimal n) \<Longrightarrow> \<not> isspace ch"
  using decimal_isdigit isspace_not_digit by blast

lemma plain_decimal [simp]: "plain (decimal n)"
  using decimal_not_space by (auto simp: plain_def list_all_iff)

lemma split_sign_decimal: "split_sign (decimal n @ s) = (False, decimal n @ s)"
proof -
  obtain ch cs where d: "decimal n = ch # cs" by (meson decimal_nonempty list.exhaust)
  then have "isdigit ch" using decimal_isdigit [of ch n] by simp
  then have "ch \<noteq> CHR ''-''" "ch \<noteq> CHR ''+''" by (auto simp: isdigit_def)
  with d show ?thesis by (simp add: split_sign_def)
qed

lemma number_strm:
  assumes "list_all isspace pre" and "isspace sep"
  shows "split_sign (dropWhile isspace (strm pre ((decimal n, sep) # ws))) = (False, decimal n @ strm [sep] ws)"
    and "takeWhile isdigit (decimal n @ strm [sep] ws) = decimal n"
    and "dropWhile isdigit (decimal n @ strm [sep] ws) = strm [sep] ws"
proof -
  have "dropWhile isspace (decimal n @ strm [sep] ws) = decimal n @ strm [sep] ws"
    using decimal_not_space [of _ n] by (cases "decimal n") (auto simp del: decimal.simps)
  then show "split_sign (dropWhile isspace (strm pre ((decimal n, sep) # ws))) = (False, decimal n @ strm [sep] ws)"
    using assms by (simp add: strm_Cons dropWhile_space split_sign_decimal)
  have "\<not> isdigit sep" using isspace_not_digit [OF assms(2)] .
  then show "takeWhile isdigit (decimal n @ strm [sep] ws) = decimal n"
    "dropWhile isdigit (decimal n @ strm [sep] ws) = strm [sep] ws"
    using decimal_isdigit [of _ n] by (simp_all add: strm_Cons takeWhile_append2 dropWhile_append2)
qed

lemma read_unsigned_strm:
  assumes "list_all isspace pre" and "isspace sep" and "n < 2 ^ bits"
  shows "read_unsigned bits (strm pre ((decimal n, sep) # ws)) = (Inr n, strm [sep] ws)"
  using assms(3) number_strm [OF assms(1,2), of n ws] by (simp add: read_unsigned_def)

lemma decimal_1: "decimal 1 = ''1''"
  by code_simp

lemma read_int_strm: "list_all isspace pre \<Longrightarrow> isspace sep \<Longrightarrow> read_int (strm pre ((''1'', sep) # ws)) = (Inr 1, strm [sep] ws)"
  using number_strm [of pre sep 1 ws] digits_value_decimal [of 1] unfolding decimal_1 by (simp add: read_int_def)

lemma plain_tags [simp]:
  "plain ''FLINTDB_CATALOG''" "plain ''NEXT_OBJECT_ID''" "plain ''NUM_TABLES''" "plain ''TABLE''" "plain ''HEAP_OBJECT_ID''"
  "plain ''NUM_COLUMNS''" "plain ''COLUMN''" "plain ''PRIMARY_KEY''" "plain ''NUM_INDEXES''" "plain ''INDEX''"
  "plain ''PK''" "plain ''SEC''" "plain ''NONE''" "plain ''INTEGER''" "plain ''TEXT''"
  by (simp_all add: plain_def isspace_def)

lemma ExpectTag_strm:
  "list_all isspace pre \<Longrightarrow> plain tag \<Longrightarrow> isspace sep \<Longrightarrow> ExpectTag tag (strm pre ((tag, sep) # ws)) = (Inr (), strm [sep] ws)"
  by (simp add: ExpectTag_def bind_op_def read_word_strm)

lemma ReadField_strm:
  "list_all isspace pre \<Longrightarrow> plain tag \<Longrightarrow> n < 2 ^ bits \<Longrightarrow>
   ReadField bits tag (strm pre ((tag, sp) # (decimal n, nl) # ws)) = (Inr n, strm [nl] ws)"
  by (simp add: ReadField_def bind_op_def ExpectTag_strm read_unsigned_strm)

lemmas strm_reads = read_word_strm read_unsigned_strm read_int_strm ExpectTag_strm ReadField_strm

lemma ColumnType_string [simp]: "ColumnTypeFromString (ColumnTypeToString t) = Inr t" "plain (ColumnTypeToString t)"
  by (cases t; simp add: ColumnTypeFromString_def)+

lemma load_columns_strm:
  "list_all (\<lambda>col. plain (col_name col)) cols \<Longrightarrow>
   load_columns (length cols) (strm [nl] (concat (map column_words cols) @ ws)) = (Inr cols, strm [nl] ws)"
  by (induction cols) (simp_all add: column_words_def bind_op_def strm_reads)

lemma object_id_bound: "unat (w :: ObjectId) < 2 ^ 32"
  using unsigned_less [of w] by simp

lemma load_indexes_strm:
  "list_all (\<lambda>i. plain (idx_name i) \<and> plain (idx_column_name i) \<and> idx_table_name i = t) idxs \<Longrightarrow>
   load_indexes t (length idxs) (strm [nl] (concat (map index_words idxs) @ ws)) = (Inr idxs, strm [nl] ws)"
proof (induction idxs)
  case (Cons i idxs)
  have i: "\<lparr>idx_name = idx_name i, idx_table_name = t, idx_column_name = idx_column_name i,
      idx_object_id = idx_object_id i, idx_is_primary_key = idx_is_primary_key i\<rparr> = i"
    using Cons.prems by simp
  with Cons object_id_bound [of "idx_object_id i"] show ?case
    by (simp add: index_words_def bind_op_def strm_reads del: IndexInfo.surjective)
qed (simp add: strm_def)

text \<open>A table that the metadata file can hold.\<close>

definition storable_table :: "catalog \<Rightarrow> TableInfo \<Rightarrow> bool" where
  "storable_table c t \<longleftrightarrow>
     plain (tab_name t) \<and> list_all (\<lambda>col. plain (col_name col)) (tab_columns t) \<and>
     pred_option plain (tab_primary_key_column t) \<and>
     list_all (\<lambda>i. plain (idx_name i) \<and> plain (idx_column_name i)) (IndexesOnTable c (tab_name t)) \<and>
     length (tab_columns t) < 2 ^ 64 \<and> length (IndexesOnTable c (tab_name t)) < 2 ^ 64"

text \<open>The table as it is read back: the primary key NONE is taken for the absence of one.\<close>

definition reloaded :: "TableInfo \<Rightarrow> TableInfo" where
  "reloaded t = t\<lparr>tab_primary_key_column := (if tab_primary_key_column t = Some ''NONE'' then None else tab_primary_key_column t)\<rparr>"

lemma load_table_strm:
  assumes "storable_table c t"
  shows "load_table (strm [nl] (table_words c t @ ws)) = (Inr (reloaded t, IndexesOnTable c (tab_name t)), strm [nl] ws)"
proof -
  let ?is = "IndexesOnTable c (tab_name t)"
  let ?pk = "case tab_primary_key_column t of Some pk \<Rightarrow> pk | None \<Rightarrow> ''NONE''"
  have pk: "plain ?pk" "(if ?pk \<noteq> ''NONE'' then Some ?pk else None) = tab_primary_key_column (reloaded t)"
    using assms by (auto simp: storable_table_def reloaded_def split: option.splits)
  have "list_all (\<lambda>i. plain (idx_name i) \<and> plain (idx_column_name i) \<and> idx_table_name i = tab_name t) ?is"
    using assms by (auto simp: storable_table_def list_all_iff IndexesOnTable_def)
  note idx = load_indexes_strm [OF this]
  have "\<lparr>tab_name = tab_name t, tab_columns = tab_columns t, tab_primary_key_column = tab_primary_key_column (reloaded t),
      tab_heap_object_id = tab_heap_object_id t\<rparr> = reloaded t" by (cases t) (simp add: reloaded_def)
  with pk idx assms object_id_bound [of "tab_heap_object_id t"] show ?thesis
    unfolding load_table_def table_words_def
    by (simp add: bind_op_def strm_reads load_columns_strm storable_table_def del: TableInfo.surjective)
qed

lemma load_tables_strm:
  "list_all (storable_table c) ts \<Longrightarrow>
   load_tables (length ts) (strm [nl] (concat (map (table_words c) ts) @ ws)) =
     (Inr (map reloaded ts, concat (map (\<lambda>t. IndexesOnTable c (tab_name t)) ts)), strm [nl] ws)"
  by (induction ts) (simp_all add: bind_op_def load_table_strm)

lemma Catalog_open_metadata:
  assumes "list_all (storable_table c) (cat_tables c)" and "length (cat_tables c) < 2 ^ 64"
  shows "Catalog_open (Some (metadata_text c)) = Inr (empty_catalog\<lparr>cat_tables := map reloaded (cat_tables c),
    cat_indexes := concat (map (\<lambda>t. IndexesOnTable c (tab_name t)) (cat_tables c)),
    cat_next_object_id := cat_next_object_id c, cat_meta_file := Some (metadata_text c)\<rparr>)"
proof -
  have "metadata_text c = strm []
     ([(''FLINTDB_CATALOG'', sp), (''1'', nl),
       (''NEXT_OBJECT_ID'', sp), (decimal (unat (cat_next_object_id c)), nl),
       (''NUM_TABLES'', sp), (decimal (length (cat_tables c)), nl)] @
      concat (map (table_words c) (cat_tables c)) @ [])"
    by (simp add: metadata_text_def strm_def)
  then have "fst (load_catalog (metadata_text c)) = Inr (cat_next_object_id c, map reloaded (cat_tables c),
      concat (map (\<lambda>t. IndexesOnTable c (tab_name t)) (cat_tables c)))"
    using assms object_id_bound [of "cat_next_object_id c"] load_tables_strm [OF assms(1), of "[]"]
    by (simp add: load_catalog_def bind_op_def strm_reads)
  then show ?thesis by (simp add: Catalog_open_def)
qed

section \<open>The catalog invariant\<close>

definition plain_name :: "string \<Rightarrow> bool" where
  "plain_name w \<longleftrightarrow> plain w \<and> CHR ''#'' \<notin> set w \<and> CHR ''.'' \<notin> set w"

definition table_ok :: "TableInfo \<Rightarrow> bool" where
  "table_ok t \<longleftrightarrow>
     plain_name (tab_name t) \<and> tab_columns t \<noteq> [] \<and> distinct (map col_name (tab_columns t)) \<and>
     list_all plain_name (map col_name (tab_columns t)) \<and>
     validate_primary_key (tab_columns t) (tab_primary_key_column t) = None"

text \<open>The named column exists and is an INTEGER column, the only kind a B+-tree can index.\<close>

definition integer_column :: "TableInfo \<Rightarrow> string \<Rightarrow> bool" where
  "integer_column t k \<longleftrightarrow> (case FindColumn t k of None \<Rightarrow> False | Some col \<Rightarrow> col_type col = ColumnType.kInteger)"

definition index_ok :: "TableInfo list \<Rightarrow> IndexInfo \<Rightarrow> bool" where
  "index_ok tables i \<longleftrightarrow>
     (\<exists>t \<in> set tables. tab_name t = idx_table_name i \<and> integer_column t (idx_column_name i)) \<and>
     (if idx_is_primary_key i then idx_name i = pk_index_name (idx_table_name i) (idx_column_name i)
      else plain_name (idx_name i))"

definition pk_columns :: "IndexInfo list \<Rightarrow> string \<Rightarrow> string list" where
  "pk_columns indexes t = map idx_column_name (filter (\<lambda>i. idx_table_name i = t \<and> idx_is_primary_key i) indexes)"

definition object_ids :: "catalog \<Rightarrow> ObjectId list" where
  "object_ids c = map tab_heap_object_id (cat_tables c) @ map idx_object_id (cat_indexes c)"

definition catalog_ok :: "catalog \<Rightarrow> bool" where
  "catalog_ok c \<longleftrightarrow>
     list_all table_ok (cat_tables c) \<and> list_all (index_ok (cat_tables c)) (cat_indexes c) \<and>
     distinct (map tab_name (cat_tables c) @ map idx_name (cat_indexes c)) \<and>
     (\<forall>t \<in> set (cat_tables c). pk_columns (cat_indexes c) (tab_name t) = (case tab_primary_key_column t of None \<Rightarrow> [] | Some k \<Rightarrow> [k])) \<and>
     distinct (object_ids c) \<and> (\<forall>oid \<in> set (object_ids c). oid < cat_next_object_id c)"

lemma find_None: "find P xs = None \<longleftrightarrow> (\<forall>x \<in> set xs. \<not> P x)"
  by (auto simp: find_None_iff)

lemma find_append: "find P (xs @ ys) = (case find P xs of None \<Rightarrow> find P ys | Some x \<Rightarrow> Some x)"
  by (induction xs) auto

lemma find_distinct:
  assumes "distinct (map f xs)" and "x \<in> set xs"
  shows "find (\<lambda>y. f y = f x) xs = Some x"
  using assms by (induction xs) auto

lemma find_SomeD: "find P xs = Some x \<Longrightarrow> x \<in> set xs \<and> P x"
  by (auto simp: find_Some_iff)

lemma pk_index_name_inj:
  "CHR ''.'' \<notin> set t \<Longrightarrow> CHR ''.'' \<notin> set t' \<Longrightarrow> pk_index_name t k = pk_index_name t' k' \<Longrightarrow> t = t'"
  unfolding pk_index_name_def
proof (induction t arbitrary: t')
  case Nil
  then show ?case by (cases t') auto
next
  case (Cons c t)
  then show ?case by (cases t') auto
qed

lemma plain_not_pk_name: "plain_name w \<Longrightarrow> w \<noteq> pk_index_name t k"
  by (auto simp: plain_name_def pk_index_name_def)

lemma FindTable_ok: "catalog_ok c \<Longrightarrow> t \<in> set (cat_tables c) \<Longrightarrow> FindTable c (tab_name t) = Some t"
  unfolding FindTable_def catalog_ok_def using find_distinct [of tab_name "cat_tables c" t] by simp

lemma plain_pk_name: "plain t \<Longrightarrow> plain k \<Longrightarrow> plain (pk_index_name t k)"
  by (auto simp: plain_def pk_index_name_def isspace_def)

lemma catalog_ok_column_plain:
  assumes "catalog_ok c" and "i \<in> set (cat_indexes c)"
  shows "plain (idx_name i)" and "plain (idx_column_name i)"
proof -
  from assms have i: "index_ok (cat_tables c) i" by (simp add: catalog_ok_def list_all_iff)
  then obtain t where t: "t \<in> set (cat_tables c)" "tab_name t = idx_table_name i" "integer_column t (idx_column_name i)"
    by (auto simp: index_ok_def)
  with assms have ok: "table_ok t" by (simp add: catalog_ok_def list_all_iff)
  from t(3) obtain col where "find_column (tab_columns t) (idx_column_name i) = Some col"
    by (auto simp: integer_column_def FindColumn_def split: option.splits)
  then have "col \<in> set (tab_columns t) \<and> col_name col = idx_column_name i" unfolding find_column_def by (rule find_SomeD)
  with ok show p: "plain (idx_column_name i)" by (auto simp: table_ok_def list_all_iff plain_name_def)
  from ok t(2) have "plain (idx_table_name i)" by (auto simp: table_ok_def plain_name_def)
  with i p show "plain (idx_name i)" by (auto simp: index_ok_def plain_name_def plain_pk_name split: if_splits)
qed

lemma catalog_ok_storable:
  assumes "catalog_ok c" and "t \<in> set (cat_tables c)"
    and "length (tab_columns t) < 2 ^ 64" and "length (cat_indexes c) < 2 ^ 64"
  shows "storable_table c t"
proof -
  have t: "table_ok t" using assms(1,2) by (simp add: catalog_ok_def list_all_iff)
  have "length (IndexesOnTable c (tab_name t)) \<le> length (cat_indexes c)" by (simp add: IndexesOnTable_def)
  moreover have "list_all (\<lambda>i. plain (idx_name i) \<and> plain (idx_column_name i)) (IndexesOnTable c (tab_name t))"
    using catalog_ok_column_plain [OF assms(1)] by (auto simp: IndexesOnTable_def list_all_iff)
  moreover have "pred_option plain (tab_primary_key_column t)"
  proof (cases "tab_primary_key_column t")
    case (Some k)
    with t obtain col where "find_column (tab_columns t) k = Some col"
      by (auto simp: table_ok_def validate_primary_key_def split: option.splits)
    then have "col \<in> set (tab_columns t) \<and> col_name col = k" unfolding find_column_def by (rule find_SomeD)
    with t Some show ?thesis by (auto simp: table_ok_def list_all_iff plain_name_def)
  qed simp
  ultimately show ?thesis
    using t assms(3,4) by (auto simp: storable_table_def table_ok_def list_all_iff plain_name_def)
qed

text \<open>Grouping the indexes by table, as the metadata file does, changes no lookup.\<close>

lemma filter_grouped:
  assumes "distinct ts" and "\<forall>i \<in> set is. f i \<in> set ts"
  shows "filter (\<lambda>i. f i = t) (concat (map (\<lambda>t. filter (\<lambda>i. f i = t) is) ts)) = filter (\<lambda>i. f i = t) is"
proof -
  have "filter (\<lambda>i. f i = t) (concat (map (\<lambda>t. filter (\<lambda>i. f i = t) is) ts)) = (if t \<in> set ts then filter (\<lambda>i. f i = t) is else [])"
    using assms(1)
  proof (induction ts)
    case (Cons u ts)
    have "filter (\<lambda>i. f i = t) (filter (\<lambda>i. f i = u) is) = (if t = u then filter (\<lambda>i. f i = t) is else [])"
      by (auto simp: filter_empty_conv)
    with Cons show ?case by auto
  qed simp
  moreover have "filter (\<lambda>i. f i = t) is = []" if "t \<notin> set ts" using assms(2) that by (auto simp: filter_empty_conv)
  ultimately show ?thesis by simp
qed

lemma filter_as_table: "filter (\<lambda>i. f i = t \<and> P i) is = filter P (filter (\<lambda>i. f i = t) is)"
  by (simp add: conj_commute)

lemma find_filter: "find P (filter Q xs) = find (\<lambda>x. Q x \<and> P x) xs"
  by (induction xs) auto

lemma set_grouped:
  assumes "\<forall>i \<in> set is. f i \<in> set ts"
  shows "set (concat (map (\<lambda>t. filter (\<lambda>i. f i = t) is) ts)) = set is"
  using assms by auto

lemma distinct_grouped:
  assumes "distinct ts" and "distinct (map g is)"
  shows "distinct (map g (concat (map (\<lambda>t. filter (\<lambda>i. f i = t) is) ts)))"
  using assms(1)
proof (induction ts)
  case (Cons t ts)
  have "g ` set (filter (\<lambda>i. f i = t) is) \<inter> g ` (\<Union>u \<in> set ts. set (filter (\<lambda>i. f i = u) is)) = {}"
    using Cons.prems inj_onD [OF distinct_map [THEN iffD1, OF assms(2), THEN conjunct2]] by auto
  moreover have "distinct (map g (filter (\<lambda>i. f i = t) is))"
    using assms(2) by (auto simp: distinct_map intro: inj_on_subset)
  ultimately show ?case using Cons by (auto simp: image_UN)
qed simp

lemma find_same_set:
  assumes "distinct (map g xs)" and "distinct (map g ys)" and "set xs = set ys"
  shows "find (\<lambda>x. g x = n) xs = find (\<lambda>x. g x = n) ys"
proof (cases "\<exists>x \<in> set xs. g x = n")
  case True
  then obtain x where "x \<in> set xs" "g x = n" by blast
  with find_distinct [OF assms(1), of x] find_distinct [OF assms(2), of x] assms(3) show ?thesis by simp
next
  case False
  then have "find (\<lambda>x. g x = n) xs = None" "find (\<lambda>x. g x = n) ys = None" using assms(3) by (auto simp: find_None)
  then show ?thesis by simp
qed

section \<open>Properties of the catalog\<close>

definition same_schema :: "catalog \<Rightarrow> catalog \<Rightarrow> bool" where
  "same_schema c c' \<longleftrightarrow>
     cat_tables c' = cat_tables c \<and> cat_next_object_id c' = cat_next_object_id c \<and>
     (\<forall>n. FindTable c' n = FindTable c n) \<and> (\<forall>n. FindIndex c' n = FindIndex c n) \<and>
     (\<forall>n. IndexesOnTable c' n = IndexesOnTable c n) \<and> (\<forall>n. PrimaryKeyIndex c' n = PrimaryKeyIndex c n)"

lemma PrimaryKeyIndex_on_table: "PrimaryKeyIndex c n = find idx_is_primary_key (IndexesOnTable c n)"
  by (simp add: PrimaryKeyIndex_def IndexesOnTable_def find_filter)

text \<open>
  C35. Reopening a catalog gives back the schema: the metadata file written for any well-formed catalog
  parses, and the catalog loaded from it has the same tables, the same next object id, and answers every
  lookup (table, index, indexes of a table, primary key index) as the original did, and is well formed
  again. The hypothesis that no primary key column is called NONE is needed.
\<close>

theorem Catalog_reopen:
  assumes "catalog_ok c" and "\<forall>t \<in> set (cat_tables c). tab_primary_key_column t \<noteq> Some ''NONE''"
    and "\<forall>t \<in> set (cat_tables c). length (tab_columns t) < 2 ^ 64" and "length (cat_indexes c) < 2 ^ 64"
    and "length (cat_tables c) < 2 ^ 64"
  shows "\<exists>c'. Catalog_open (Some (metadata_text c)) = Inr c' \<and> same_schema c c' \<and> catalog_ok c'"
proof -
  let ?ts = "map tab_name (cat_tables c)"
  let ?is = "concat (map (\<lambda>t. filter (\<lambda>i. idx_table_name i = t) (cat_indexes c)) ?ts)"
  let ?c = "empty_catalog\<lparr>cat_tables := cat_tables c, cat_indexes := ?is, cat_next_object_id := cat_next_object_id c,
    cat_meta_file := Some (metadata_text c)\<rparr>"
  have "list_all (storable_table c) (cat_tables c)"
    using assms by (auto simp: list_all_iff intro: catalog_ok_storable)
  from Catalog_open_metadata [OF this assms(5)] have "open": "Catalog_open (Some (metadata_text c)) = Inr ?c"
    using assms(2) by (simp add: IndexesOnTable_def comp_def map_idI reloaded_def)
  have dt: "distinct ?ts" and di: "distinct (map idx_name (cat_indexes c))" and dj: "set ?ts \<inter> idx_name ` set (cat_indexes c) = {}"
    using assms(1) by (auto simp: catalog_ok_def)
  have mem: "\<forall>i \<in> set (cat_indexes c). idx_table_name i \<in> set ?ts"
  proof
    fix i assume "i \<in> set (cat_indexes c)"
    with assms(1) have "index_ok (cat_tables c) i" by (simp add: catalog_ok_def list_all_iff)
    then obtain t where "t \<in> set (cat_tables c)" "tab_name t = idx_table_name i" unfolding index_ok_def by blast
    then show "idx_table_name i \<in> set ?ts" by (metis image_eqI list.set_map)
  qed
  define c1 where "c1 = ?c"
  have f: "cat_tables c1 = cat_tables c" "cat_indexes c1 = ?is" "cat_next_object_id c1 = cat_next_object_id c"
    by (simp_all add: c1_def)
  have on: "IndexesOnTable c1 n = IndexesOnTable c n" for n
    unfolding IndexesOnTable_def f(2) by (rule filter_grouped [OF dt mem])
  have set: "set (cat_indexes c1) = set (cat_indexes c)" unfolding f(2) by (rule set_grouped [OF mem])
  have dg: "distinct (map idx_name (cat_indexes c1))" unfolding f(2) by (rule distinct_grouped [OF dt di])
  have "FindIndex c1 n = FindIndex c n" for n
    unfolding FindIndex_def by (rule find_same_set [OF dg di set])
  moreover have "FindTable c1 n = FindTable c n" for n by (simp add: FindTable_def f(1))
  ultimately have same: "same_schema c c1" using on f(1,3) by (simp add: same_schema_def PrimaryKeyIndex_on_table)
  have pk: "pk_columns (cat_indexes c1) n = pk_columns (cat_indexes c) n" for n
    using on [of n] unfolding pk_columns_def filter_as_table IndexesOnTable_def by simp
  have "distinct (map idx_object_id (cat_indexes c))" "set (map tab_heap_object_id (cat_tables c)) \<inter> idx_object_id ` set (cat_indexes c) = {}"
    using assms(1) by (auto simp: catalog_ok_def object_ids_def)
  moreover have "distinct (map idx_object_id (cat_indexes c1))"
    unfolding f(2) by (rule distinct_grouped [OF dt calculation(1)])
  ultimately have ids: "distinct (object_ids c1)" "set (object_ids c1) = set (object_ids c)"
    using assms(1) set f(1) by (simp_all add: object_ids_def catalog_ok_def)
  have "catalog_ok c1"
    unfolding catalog_ok_def using assms(1) set pk ids dt dg dj f(1,3)
    by (simp add: catalog_ok_def list_all_iff)
  with "open" same c1_def show ?thesis by blast
qed

lemma Persist_schema:
  assumes "Persist c = (r, c')"
  shows "cat_tables c' = cat_tables c" and "cat_indexes c' = cat_indexes c" and "cat_next_object_id c' = cat_next_object_id c"
    and "r = Inr () \<Longrightarrow> cat_meta_file c' = Some (metadata_text c')" and "r \<noteq> Inr () \<Longrightarrow> cat_meta_file c' = cat_meta_file c"
    and "(r = Inr ()) = (cat_fault c = No_fault)"
proof -
  show *: "cat_tables c' = cat_tables c" "cat_indexes c' = cat_indexes c" "cat_next_object_id c' = cat_next_object_id c"
    using assms by (auto simp: Persist_def Let_def split: persist_fault.splits)
  then have "metadata_text c' = metadata_text c"
    by (simp add: metadata_text_def table_words_def [abs_def] IndexesOnTable_def)
  then show "r = Inr () \<Longrightarrow> cat_meta_file c' = Some (metadata_text c')"
    using assms by (auto simp: Persist_def Let_def split: persist_fault.splits)
  show "r \<noteq> Inr () \<Longrightarrow> cat_meta_file c' = cat_meta_file c" "(r = Inr ()) = (cat_fault c = No_fault)"
    using assms by (auto simp: Persist_def Let_def split: persist_fault.splits)
qed

lemma catalog_ok_cong:
  "cat_tables c' = cat_tables c \<Longrightarrow> cat_indexes c' = cat_indexes c \<Longrightarrow> cat_next_object_id c' = cat_next_object_id c \<Longrightarrow>
   catalog_ok c' = catalog_ok c"
  by (simp add: catalog_ok_def object_ids_def)

lemma index_ok_more: "index_ok ts i \<Longrightarrow> index_ok (ts @ us) i"
  by (auto simp: index_ok_def)

definition new_table :: "catalog \<Rightarrow> string \<Rightarrow> ColumnDef list \<Rightarrow> string option \<Rightarrow> TableInfo" where
  "new_table c name columns pk =
     \<lparr>tab_name = name, tab_columns = columns, tab_primary_key_column = pk, tab_heap_object_id = cat_next_object_id c\<rparr>"

definition new_pk_index :: "catalog \<Rightarrow> string \<Rightarrow> string option \<Rightarrow> IndexInfo list" where
  "new_pk_index c name pk =
     (case pk of
        None \<Rightarrow> []
      | Some k \<Rightarrow> [\<lparr>idx_name = pk_index_name name k, idx_table_name = name, idx_column_name = k,
          idx_object_id = cat_next_object_id c + 1, idx_is_primary_key = True\<rparr>])"

definition with_table :: "catalog \<Rightarrow> string \<Rightarrow> ColumnDef list \<Rightarrow> string option \<Rightarrow> catalog" where
  "with_table c name columns pk =
     c\<lparr>cat_tables := cat_tables c @ [new_table c name columns pk],
       cat_indexes := cat_indexes c @ new_pk_index c name pk,
       cat_next_object_id := cat_next_object_id c + (if pk = None then 1 else 2)\<rparr>"

lemma CreateTable_run:
  assumes "validate_table c name columns pk = None"
  shows "CreateTable name columns pk c = bind_op Persist (\<lambda>_. return_op (cat_next_object_id c)) (with_table c name columns pk)"
  using assms
  by (cases pk; cases c) (simp_all add: CreateTable_def bind_op_def AllocateObjectId_def with_table_def new_table_def
      new_pk_index_def push_table_def push_index_def add.commute)

lemma catalog_ok_tables:
  assumes "catalog_ok c" and "i \<in> set (cat_indexes c)"
  shows "\<exists>t \<in> set (cat_tables c). tab_name t = idx_table_name i"
  using assms by (auto simp: catalog_ok_def list_all_iff index_ok_def)

lemma fresh_ids:
  assumes "catalog_ok c" and "unat (cat_next_object_id c) + 2 < 2 ^ 32"
  shows "cat_next_object_id c \<notin> set (object_ids c)" and "cat_next_object_id c + 1 \<notin> set (object_ids c)"
    and "\<And>oid. oid \<in> set (object_ids c) \<Longrightarrow> oid < cat_next_object_id c + 1 \<and> oid < cat_next_object_id c + 2"
    and "cat_next_object_id c < cat_next_object_id c + 1" and "cat_next_object_id c < cat_next_object_id c + 2"
    and "cat_next_object_id c + 1 < cat_next_object_id c + 2"
proof -
  let ?n = "cat_next_object_id c"
  have u: "unat (?n + 1) = unat ?n + 1" "unat (?n + 2) = unat ?n + 2"
    using assms(2) by (simp_all add: unat_word_ariths)
  have less: "oid < ?n" if "oid \<in> set (object_ids c)" for oid using assms(1) that by (simp add: catalog_ok_def)
  show "?n \<notin> set (object_ids c)" using less by blast
  show "?n + 1 \<notin> set (object_ids c)" using less u by (auto simp: word_less_nat_alt dest!: less)
  show "oid < ?n + 1 \<and> oid < ?n + 2" if "oid \<in> set (object_ids c)" for oid
    using less [OF that] u by (simp add: word_less_nat_alt)
  show "?n < ?n + 1" "?n < ?n + 2" "?n + 1 < ?n + 2" using u by (simp_all add: word_less_nat_alt)
qed

lemma catalog_ok_with_table:
  assumes ok: "catalog_ok c" and name: "plain_name name" and cols: "list_all plain_name (map col_name columns)"
    and room: "unat (cat_next_object_id c) + 2 < 2 ^ 32" and v: "validate_table c name columns pk = None"
  shows "catalog_ok (with_table c name columns pk)"
proof -
  let ?c = "with_table c name columns pk" and ?t = "new_table c name columns pk" and ?i = "new_pk_index c name pk"
  have f: "cat_tables ?c = cat_tables c @ [?t]" "cat_indexes ?c = cat_indexes c @ ?i"
    by (simp_all add: with_table_def)
  have v': "name \<notin> tab_name ` set (cat_tables c)" "name \<notin> idx_name ` set (cat_indexes c)"
    "columns \<noteq> []" "distinct (map col_name columns)" "validate_primary_key columns pk = None"
    using v by (auto simp: validate_table_def FindTable_def FindIndex_def find_None split: if_splits)
  have t: "table_ok ?t" "tab_name ?t = name" using name cols v' by (simp_all add: table_ok_def new_table_def)
  have own: "\<forall>i \<in> set (cat_indexes c). idx_table_name i \<noteq> name"
    using catalog_ok_tables [OF ok] v'(1) by (metis image_eqI)
  have i: "list_all (index_ok [?t]) ?i"
    using v'(5) by (auto simp: new_pk_index_def index_ok_def integer_column_def FindColumn_def new_table_def
        validate_primary_key_def split: option.splits if_splits)
  have fresh: "idx_name j \<notin> insert name (tab_name ` set (cat_tables c)) \<and> idx_name j \<notin> idx_name ` set (cat_indexes c)"
    if "j \<in> set ?i" for j
  proof -
    from that obtain k where j: "idx_name j = pk_index_name name k" by (auto simp: new_pk_index_def split: option.splits)
    have "plain_name (tab_name t)" if "t \<in> set (cat_tables c)" for t
      using ok that by (simp add: catalog_ok_def list_all_iff table_ok_def)
    then have "idx_name j \<notin> insert name (tab_name ` set (cat_tables c))"
      using name j plain_not_pk_name by (metis (no_types, lifting) imageE insertE)
    moreover have "idx_name j \<noteq> idx_name l" if l: "l \<in> set (cat_indexes c)" for l
    proof (cases "idx_is_primary_key l")
      case True
      have "index_ok (cat_tables c) l" using ok l by (simp add: catalog_ok_def list_all_iff)
      with True obtain t where "t \<in> set (cat_tables c)" "tab_name t = idx_table_name l"
        "idx_name l = pk_index_name (idx_table_name l) (idx_column_name l)" by (auto simp: index_ok_def)
      with \<open>\<And>t. t \<in> set (cat_tables c) \<Longrightarrow> plain_name (tab_name t)\<close> own l name j show ?thesis
        using pk_index_name_inj [of name "idx_table_name l"] unfolding plain_name_def by metis
    next
      case False
      then have "plain_name (idx_name l)" using ok l by (auto simp: catalog_ok_def list_all_iff index_ok_def)
      with j plain_not_pk_name show ?thesis by metis
    qed
    ultimately show ?thesis by (metis imageE)
  qed
  have single: "distinct (map idx_name ?i)" "distinct (map idx_object_id ?i)" by (auto simp: new_pk_index_def split: option.split)
  have pk_old: "pk_columns (cat_indexes c @ ?i) (tab_name u) = pk_columns (cat_indexes c) (tab_name u)" if "u \<in> set (cat_tables c)" for u
  proof -
    have "tab_name u \<noteq> name" using v'(1) that by auto
    then show ?thesis by (auto simp: pk_columns_def new_pk_index_def split: option.split)
  qed
  have pk_new: "pk_columns (cat_indexes c @ ?i) name = (case pk of None \<Rightarrow> [] | Some k \<Rightarrow> [k])"
    using own by (auto simp: pk_columns_def new_pk_index_def filter_empty_conv split: option.split)
  note ids = fresh_ids [OF ok room]
  have "list_all table_ok (cat_tables ?c)" "list_all (index_ok (cat_tables ?c)) (cat_indexes ?c)"
    using ok t i by (auto simp: f catalog_ok_def list_all_iff index_ok_def)
  moreover have "distinct (map tab_name (cat_tables ?c) @ map idx_name (cat_indexes ?c))"
  proof -
    have old: "distinct (map tab_name (cat_tables c) @ map idx_name (cat_indexes c))" using ok by (simp add: catalog_ok_def)
    show ?thesis
    proof (cases "?i")
      case Nil
      with old t v'(1,2) show ?thesis by (simp add: f)
    next
      case (Cons j js)
      then have "js = []" by (auto simp: new_pk_index_def split: option.splits)
      with Cons old t v'(1,2) fresh [of j] show ?thesis by (auto simp: f)
    qed
  qed
  moreover have "\<forall>u \<in> set (cat_tables ?c). pk_columns (cat_indexes ?c) (tab_name u) =
      (case tab_primary_key_column u of None \<Rightarrow> [] | Some k \<Rightarrow> [k])"
    using ok pk_old pk_new by (auto simp: f catalog_ok_def new_table_def)
  moreover have "distinct (object_ids ?c)"
    using ok ids(1,2,4) by (auto simp: object_ids_def f catalog_ok_def new_table_def new_pk_index_def split: option.split)
  moreover have "\<forall>oid \<in> set (object_ids ?c). oid < cat_next_object_id ?c"
    using ids by (auto simp: object_ids_def f with_table_def new_table_def new_pk_index_def split: option.split)
  ultimately show ?thesis unfolding catalog_ok_def by blast
qed

lemma FindTable_with_table:
  assumes "validate_table c name columns pk = None"
  shows "FindTable (with_table c name columns pk) n = (if n = name then Some (new_table c name columns pk) else FindTable c n)"
  using assms by (auto simp: validate_table_def FindTable_def with_table_def find_append new_table_def split: option.split if_splits)

lemma FindTable_cong: "cat_tables c' = cat_tables c \<Longrightarrow> FindTable c' n = FindTable c n"
  by (simp add: FindTable_def)

lemma IndexesOnTable_cong: "cat_indexes c' = cat_indexes c \<Longrightarrow> IndexesOnTable c' n = IndexesOnTable c n"
  by (simp add: IndexesOnTable_def)

text \<open>
  \<open>Catalog::CreateTable\<close> keeps the catalog well formed (unique names across tables and indexes, every
  index on an existing INTEGER column, distinct object ids below the next one, exactly one primary key
  index per primary key and none otherwise). It refuses a request exactly when the validation does,
  and then changes nothing; otherwise the new table is found under its name, every other table and
  the indexes of every other table are unchanged, and the new table has exactly its primary key
  index. If it returns, the metadata file holds the new catalog; if writing fails, the metadata file
  is the old one.
\<close>

theorem CreateTable_correct:
  assumes "catalog_ok c" and "plain_name name" and "list_all plain_name (map col_name columns)"
    and "unat (cat_next_object_id c) + 2 < 2 ^ 32" and "CreateTable name columns pk c = (r, c')"
  shows "catalog_ok c' \<and>
    (case validate_table c name columns pk of
       Some e \<Rightarrow> r = Inl e \<and> c' = c
     | None \<Rightarrow>
         FindTable c' name = Some (new_table c name columns pk) \<and> (\<forall>n. n \<noteq> name \<longrightarrow> FindTable c' n = FindTable c n) \<and>
         IndexesOnTable c' name = new_pk_index c name pk \<and> (\<forall>n. n \<noteq> name \<longrightarrow> IndexesOnTable c' n = IndexesOnTable c n) \<and>
         (if cat_fault c = No_fault then r = Inr (cat_next_object_id c) \<and> cat_meta_file c' = Some (metadata_text c')
          else (\<exists>e. r = Inl e) \<and> cat_meta_file c' = cat_meta_file c))"
proof (cases "validate_table c name columns pk")
  case (Some e)
  with assms show ?thesis by (simp add: CreateTable_def)
next
  case None
  let ?c = "with_table c name columns pk"
  obtain pr where p: "Persist ?c = (pr, c')" and r: "r = (case pr of Inl e \<Rightarrow> Inl e | Inr _ \<Rightarrow> Inr (cat_next_object_id c))"
    using assms(5) CreateTable_run [OF None] by (cases "Persist ?c") (auto simp: bind_op_def split: sum.splits)
  note ps = Persist_schema [OF p]
  have ok: "catalog_ok ?c" by (rule catalog_ok_with_table [OF assms(1-4) None])
  then have "catalog_ok c'" using catalog_ok_cong [OF ps(1-3)] by simp
  moreover have "FindTable c' n = (if n = name then Some (new_table c name columns pk) else FindTable c n)" for n
    using FindTable_cong [OF ps(1)] FindTable_with_table [OF None] by simp
  moreover have "\<forall>i \<in> set (cat_indexes c). idx_table_name i \<noteq> name"
  proof
    fix i assume "i \<in> set (cat_indexes c)"
    then obtain t where "t \<in> set (cat_tables c)" "tab_name t = idx_table_name i" using catalog_ok_tables [OF assms(1)] by blast
    with None show "idx_table_name i \<noteq> name" by (auto simp: validate_table_def FindTable_def find_None split: if_splits)
  qed
  then have "IndexesOnTable c' n = (if n = name then new_pk_index c name pk else IndexesOnTable c n)" for n
    unfolding IndexesOnTable_cong [OF ps(2)]
    by (auto simp: IndexesOnTable_def with_table_def new_pk_index_def filter_empty_conv split: option.split)
  moreover have "cat_fault ?c = cat_fault c" "cat_meta_file ?c = cat_meta_file c" by (simp_all add: with_table_def)
  ultimately show ?thesis
    using None ps(4-6) r by (cases pr) auto
qed

definition with_index :: "catalog \<Rightarrow> string \<Rightarrow> string \<Rightarrow> string \<Rightarrow> catalog" where
  "with_index c name table_name column_name =
     c\<lparr>cat_indexes := cat_indexes c @ [\<lparr>idx_name = name, idx_table_name = table_name, idx_column_name = column_name,
         idx_object_id = cat_next_object_id c, idx_is_primary_key = False\<rparr>],
       cat_next_object_id := cat_next_object_id c + 1\<rparr>"

lemma CreateIndex_run:
  assumes "validate_index c name table_name column_name = None"
  shows "CreateIndex name table_name column_name c =
    bind_op Persist (\<lambda>_. return_op (cat_next_object_id c)) (with_index c name table_name column_name)"
  using assms by (cases c) (simp add: CreateIndex_def bind_op_def AllocateObjectId_def with_index_def push_index_def)

lemma catalog_ok_with_index:
  assumes ok: "catalog_ok c" and name: "plain_name name" and room: "unat (cat_next_object_id c) + 2 < 2 ^ 32"
    and v: "validate_index c name table_name column_name = None"
  shows "catalog_ok (with_index c name table_name column_name)"
proof -
  let ?c = "with_index c name table_name column_name"
  have f: "cat_tables ?c = cat_tables c" by (simp add: with_index_def)
  have v': "name \<notin> tab_name ` set (cat_tables c)" "name \<notin> idx_name ` set (cat_indexes c)"
    using v by (auto simp: validate_index_def FindTable_def FindIndex_def find_None split: if_splits)
  from v obtain t where t: "FindTable c table_name = Some t" "integer_column t column_name"
    by (auto simp: validate_index_def integer_column_def split: if_splits option.splits)
  then have "t \<in> set (cat_tables c)" "tab_name t = table_name" using find_SomeD unfolding FindTable_def by fastforce+
  with t(2) name have "list_all (index_ok (cat_tables ?c)) (cat_indexes ?c)"
    using ok unfolding f by (auto simp: with_index_def catalog_ok_def index_ok_def)
  moreover have "pk_columns (cat_indexes ?c) n = pk_columns (cat_indexes c) n" for n by (simp add: pk_columns_def with_index_def)
  moreover note fresh_ids [OF ok room]
  ultimately show ?thesis
    unfolding catalog_ok_def f using ok v'
    by (simp add: catalog_ok_def object_ids_def with_index_def)
qed

text \<open>
  \<open>Catalog::CreateIndex\<close> keeps the catalog well formed, refuses exactly what its validation refuses and then
  changes nothing; otherwise it appends one secondary index on the table, under the name asked for, and
  leaves every table and the indexes of every other table alone. The metadata file is the new catalog
  if it returns and the old one if writing fails.
\<close>

theorem CreateIndex_correct:
  assumes "catalog_ok c" and "plain_name name" and "unat (cat_next_object_id c) + 2 < 2 ^ 32"
    and "CreateIndex name table_name column_name c = (r, c')"
  shows "catalog_ok c' \<and> cat_tables c' = cat_tables c \<and>
    (case validate_index c name table_name column_name of
       Some e \<Rightarrow> r = Inl e \<and> c' = c
     | None \<Rightarrow>
         IndexesOnTable c' table_name = IndexesOnTable c table_name @
           [\<lparr>idx_name = name, idx_table_name = table_name, idx_column_name = column_name,
             idx_object_id = cat_next_object_id c, idx_is_primary_key = False\<rparr>] \<and>
         (\<forall>n. n \<noteq> table_name \<longrightarrow> IndexesOnTable c' n = IndexesOnTable c n) \<and>
         (if cat_fault c = No_fault then r = Inr (cat_next_object_id c) \<and> cat_meta_file c' = Some (metadata_text c')
          else (\<exists>e. r = Inl e) \<and> cat_meta_file c' = cat_meta_file c))"
proof (cases "validate_index c name table_name column_name")
  case (Some e)
  with assms show ?thesis by (simp add: CreateIndex_def)
next
  case None
  let ?c = "with_index c name table_name column_name"
  obtain pr where p: "Persist ?c = (pr, c')" and r: "r = (case pr of Inl e \<Rightarrow> Inl e | Inr _ \<Rightarrow> Inr (cat_next_object_id c))"
    using assms(4) CreateIndex_run [OF None] by (cases "Persist ?c") (auto simp: bind_op_def split: sum.splits)
  note ps = Persist_schema [OF p]
  have "catalog_ok c'" using catalog_ok_with_index [OF assms(1-3) None] catalog_ok_cong [OF ps(1-3)] by simp
  moreover have "cat_fault ?c = cat_fault c" "cat_meta_file ?c = cat_meta_file c" "cat_tables ?c = cat_tables c"
    by (simp_all add: with_index_def)
  ultimately show ?thesis
    using None ps(1,4-6) r unfolding IndexesOnTable_cong [OF ps(2)]
    by (cases pr) (auto simp: IndexesOnTable_def with_index_def)
qed

lemma empty_catalog_ok: "catalog_ok empty_catalog"
  by (simp add: catalog_ok_def empty_catalog_def object_ids_def)

text \<open>
  C36. A primary key column called NONE does not survive: the metadata file writes the name where it would
  write the marker for a table without primary key, so after reopening the table has none, although its
  primary key index is still there and everything else is read back.
\<close>

theorem pk_named_NONE_lost:
  "\<exists>c c'. CreateTable ''t'' [\<lparr>col_name = ''NONE'', col_type = ColumnType.kInteger\<rparr>] (Some ''NONE'') empty_catalog = (Inr 0, c) \<and>
     map tab_primary_key_column (cat_tables c) = [Some ''NONE''] \<and>
     Catalog_open (cat_meta_file c) = Inr c' \<and> map tab_primary_key_column (cat_tables c') = [None] \<and>
     map idx_is_primary_key (cat_indexes c') = [True]"
proof -
  let ?cols = "[\<lparr>col_name = ''NONE'', col_type = ColumnType.kInteger\<rparr>]"
  let ?c = "with_table empty_catalog ''t'' ?cols (Some ''NONE'')"
  have v: "validate_table empty_catalog ''t'' ?cols (Some ''NONE'') = None" by code_simp
  have f: "cat_tables ?c = [new_table empty_catalog ''t'' ?cols (Some ''NONE'')]"
    "cat_indexes ?c = new_pk_index empty_catalog ''t'' (Some ''NONE'')"
    by (simp_all add: with_table_def empty_catalog_def)
  have names: "plain_name ''t''" "plain_name ''NONE''" by code_simp+
  have ok: "catalog_ok ?c"
    by (rule catalog_ok_with_table [OF empty_catalog_ok names(1) _ _ v]) (simp_all add: names empty_catalog_def)
  have "storable_table ?c (new_table empty_catalog ''t'' ?cols (Some ''NONE''))"
    by (rule catalog_ok_storable [OF ok]) (simp_all add: f new_table_def new_pk_index_def)
  from Catalog_open_metadata [of ?c] this f obtain c' where c': "Catalog_open (Some (metadata_text ?c)) = Inr c'"
    "cat_tables c' = map reloaded (cat_tables ?c)" "cat_indexes c' = IndexesOnTable ?c ''t''"
    by (simp add: new_table_def)
  obtain c2 where run: "CreateTable ''t'' ?cols (Some ''NONE'') empty_catalog = (Inr 0, c2)" "cat_tables c2 = cat_tables ?c"
    "cat_meta_file c2 = Some (metadata_text ?c)"
    using CreateTable_run [OF v] by (simp add: bind_op_def Persist_def with_table_def empty_catalog_def)
  have "map tab_primary_key_column (cat_tables c') = [None]" "map idx_is_primary_key (cat_indexes c') = [True]"
    by (simp_all add: c'(2,3) f reloaded_def new_table_def IndexesOnTable_def new_pk_index_def)
  with c'(1) run show ?thesis by (intro exI [of _ c2] exI [of _ c']) (simp add: f new_table_def)
qed

section \<open>Witnesses\<close>

definition one_table :: catalog where
  "one_table = with_table empty_catalog ''t'' [\<lparr>col_name = ''id'', col_type = ColumnType.kInteger\<rparr>] (Some ''id'')"

lemma plain_examples: "plain_name ''t''" "plain_name ''id''" "plain_name ''i''"
  by code_simp+

lemma one_table_valid:
  "validate_table empty_catalog ''t'' [\<lparr>col_name = ''id'', col_type = ColumnType.kInteger\<rparr>] (Some ''id'') = None"
  by code_simp

lemma one_table_ok: "catalog_ok one_table"
  unfolding one_table_def
  by (rule catalog_ok_with_table [OF empty_catalog_ok _ _ _ one_table_valid])
    (simp_all add: plain_examples empty_catalog_def)

lemma one_table_fields:
  "map tab_name (cat_tables one_table) = [''t'']" "map tab_primary_key_column (cat_tables one_table) = [Some ''id'']"
  "map (length \<circ> tab_columns) (cat_tables one_table) = [1]" "length (cat_indexes one_table) = 1"
  "length (cat_tables one_table) = 1" "cat_next_object_id one_table = 2"
  by code_simp+

theorem Catalog_reopen_witness:
  "\<exists>c'. Catalog_open (Some (metadata_text one_table)) = Inr c' \<and> same_schema one_table c' \<and> catalog_ok c'"
proof -
  have ts: "cat_tables one_table = [new_table empty_catalog ''t'' [\<lparr>col_name = ''id'', col_type = ColumnType.kInteger\<rparr>] (Some ''id'')]"
    by (simp add: one_table_def with_table_def empty_catalog_def)
  show ?thesis
    by (rule Catalog_reopen [OF one_table_ok]) (simp_all add: ts new_table_def one_table_fields(4))
qed

theorem CreateTable_correct_witness:
  "\<exists>r c'. CreateTable ''t'' [\<lparr>col_name = ''id'', col_type = ColumnType.kInteger\<rparr>] (Some ''id'') empty_catalog = (r, c') \<and>
     r = Inr 0 \<and> catalog_ok c' \<and>
     FindTable c' ''t'' = Some (new_table empty_catalog ''t'' [\<lparr>col_name = ''id'', col_type = ColumnType.kInteger\<rparr>] (Some ''id''))"
proof -
  let ?cols = "[\<lparr>col_name = ''id'', col_type = ColumnType.kInteger\<rparr>]"
  obtain r c' where run: "CreateTable ''t'' ?cols (Some ''id'') empty_catalog = (r, c')"
    by (cases "CreateTable ''t'' ?cols (Some ''id'') empty_catalog")
  have "list_all plain_name (map col_name ?cols)" "unat (cat_next_object_id empty_catalog) + 2 < 2 ^ 32"
    "cat_fault empty_catalog = No_fault" "cat_next_object_id empty_catalog = 0"
    by (simp_all add: plain_examples empty_catalog_def)
  with CreateTable_correct [OF empty_catalog_ok plain_examples(1) _ _ run] run one_table_valid show ?thesis by simp
qed

theorem CreateIndex_correct_witness:
  "\<exists>r c'. CreateIndex ''i'' ''t'' ''id'' one_table = (r, c') \<and> catalog_ok c' \<and> length (IndexesOnTable c' ''t'') = 2"
proof -
  obtain r c' where run: "CreateIndex ''i'' ''t'' ''id'' one_table = (r, c')" by (cases "CreateIndex ''i'' ''t'' ''id'' one_table")
  have v: "validate_index one_table ''i'' ''t'' ''id'' = None" "length (IndexesOnTable one_table ''t'') = 1" by code_simp+
  have "unat (cat_next_object_id one_table) + 2 < 2 ^ 32" by (simp add: one_table_fields)
  from CreateIndex_correct [OF one_table_ok plain_examples(3) this run] run v show ?thesis by auto
qed

end
