(* ===== verification/Database.thy ===== *)
theory Database
  imports Btree Catalog Recovery
begin

text \<open>
  The database of \<open>src/src/db/database.h\<close> and \<open>database.cpp\<close>: one directory with the catalog, the log and a file
  per object, and over them the storage stack of every object. The state holds the catalog, the \<open>engine\<close>
  that the transaction manager shares with all pools, and for every object of \<open>objects_\<close> whether its storage
  carries a heap file or a tree; \<open>db_files\<close> are the files of the directory that are not open yet. A
  \<open>HeapFile*\<close> or \<open>BPlusTree*\<close> is the id of its object, the null pointer \<open>None\<close>.
\<close>

datatype object_kind = Heap_object | Index_object

record database =
  db_catalog :: catalog
  db_engine :: engine
  db_objects :: "ObjectId \<rightharpoonup> object_kind"
  db_files :: "ObjectId \<Rightarrow> byte list"
  db_capacity :: nat

section \<open>Calls into the parts\<close>

definition engine_op :: "(engine, 'a) operation \<Rightarrow> (database, 'a) operation" where
  "engine_op f db = (case f (db_engine db) of (r, en) \<Rightarrow> (r, db\<lparr>db_engine := en\<rparr>))"

definition catalog_op :: "(catalog, 'a) operation \<Rightarrow> (database, 'a) operation" where
  "catalog_op f db = (case f (db_catalog db) of (r, c) \<Rightarrow> (r, db\<lparr>db_catalog := c\<rparr>))"

definition lift_sum :: "exn + 'a \<Rightarrow> ('s, 'a) operation" where
  "lift_sum r s = (r, s)"

section \<open>Storage stacks\<close>

text \<open>\<open>std::unordered_map::emplace\<close>: an existing entry stays.\<close>

definition emplace :: "'k \<Rightarrow> 'v \<Rightarrow> ('k \<rightharpoonup> 'v) \<Rightarrow> ('k \<rightharpoonup> 'v)" where
  "emplace k v m = (if m k = None then m(k \<mapsto> v) else m)"

text \<open>\<open>std::make_unique<DiskManager>(catalog_.FilePathFor(object_id))\<close>: an absent file is created empty.\<close>

definition open_file :: "ObjectId \<Rightarrow> (database, disk) operation" where
  "open_file oid db = (DiskManager_open (db_capacity db) (db_files db oid), db)"

definition AttachHeapStorage :: "ObjectId \<Rightarrow> disk \<Rightarrow> (database, unit) operation" where
  "AttachHeapStorage oid d =
     bind_op (engine_op (modify_op (RegisterObject oid (BufferPool_init d)))) (\<lambda>_.
     bind_op (engine_op (HeapFile_open oid)) (\<lambda>_.
     modify_op (\<lambda>db. db\<lparr>db_objects := emplace oid Heap_object (db_objects db)\<rparr>)))"

text \<open>A constructor of \<open>BPlusTree\<close> that throws destroys the storage before it is registered.\<close>

definition AttachIndexStorage :: "thread_id \<Rightarrow> ObjectId \<Rightarrow> disk \<Rightarrow> (database, unit) operation" where
  "AttachIndexStorage tid oid d db =
     (case BPlusTree_open tid oid (RegisterObject oid (BufferPool_init d) (db_engine db)) of
        (Inl e, _) \<Rightarrow> (Inl e, db)
      | (Inr _, en) \<Rightarrow> (Inr (), db\<lparr>db_engine := en, db_objects := emplace oid Index_object (db_objects db)\<rparr>))"

section \<open>Opening a directory\<close>

record directory =
  dir_metadata :: "string option"
  dir_log :: "byte list"
  dir_objects :: "ObjectId \<Rightarrow> byte list"
  dir_capacity :: nat
  dir_log_capacity :: nat

text \<open>The disk managers of the first phase, in the order of the tables and then of the indexes.\<close>

fun open_disks :: "nat \<Rightarrow> (ObjectId \<Rightarrow> byte list) \<Rightarrow> ObjectId list \<Rightarrow> disks \<Rightarrow> exn + disks" where
  "open_disks capacity fs [] ds = Inr ds"
| "open_disks capacity fs (oid # oids) ds =
     (case DiskManager_open capacity (fs oid) of
        Inl e \<Rightarrow> Inl e
      | Inr d \<Rightarrow> open_disks capacity fs oids (emplace oid d ds))"

definition disk_of :: "disks \<Rightarrow> ObjectId \<Rightarrow> (database, disk) operation" where
  "disk_of ds oid = (case ds oid of None \<Rightarrow> throw_op (Out_of_range ''unordered_map::at'') | Some d \<Rightarrow> return_op d)"

definition Database_open :: "thread_id \<Rightarrow> directory \<Rightarrow> exn + database" where
  "Database_open tid dir =
     (case Catalog_open (dir_metadata dir) of
        Inl e \<Rightarrow> Inl e
      | Inr c \<Rightarrow>
          let log = LogManager_open (dir_log_capacity dir) (dir_log dir);
              heaps = map tab_heap_object_id (cat_tables c); trees = map idx_object_id (cat_indexes c)
          in (case open_disks (dir_capacity dir) (dir_objects dir) (heaps @ trees) Map.empty of
                Inl e \<Rightarrow> Inl e
              | Inr ds0 \<Rightarrow>
                  (case RunRecovery (RecordsOnOpen log) ds0 of
                     (Inl e, _) \<Rightarrow> Inl e
                   | (Inr _, ds) \<Rightarrow>
                       (case bind_op (for_each heaps (\<lambda>oid. bind_op (disk_of ds oid) (AttachHeapStorage oid)))
                               (\<lambda>_. for_each trees (\<lambda>oid. bind_op (disk_of ds oid) (AttachIndexStorage tid oid)))
                               \<lparr>db_catalog = c, db_engine = TransactionManager_init log, db_objects = Map.empty,
                                db_files = dir_objects dir, db_capacity = dir_capacity dir\<rparr> of
                          (Inl e, _) \<Rightarrow> Inl e
                        | (Inr _, db) \<Rightarrow> Inr db))))"

section \<open>Schema changes\<close>

definition null_pointer :: exn where
  "null_pointer = Logic_error ''null pointer''"

definition Database_CreateTable :: "thread_id \<Rightarrow> string \<Rightarrow> ColumnDef list \<Rightarrow> string option \<Rightarrow> (database, ObjectId) operation" where
  "Database_CreateTable tid name columns pk =
     bind_op (catalog_op (CreateTable name columns pk)) (\<lambda>heap_id.
     bind_op (open_file heap_id) (\<lambda>d.
     bind_op (AttachHeapStorage heap_id d) (\<lambda>_.
     bind_op (if pk = None then return_op ()
              else bind_op get_op (\<lambda>db.
                   case PrimaryKeyIndex (db_catalog db) name of
                     None \<Rightarrow> throw_op null_pointer
                   | Some idx \<Rightarrow> bind_op (open_file (idx_object_id idx)) (AttachIndexStorage tid (idx_object_id idx)))) (\<lambda>_.
     return_op heap_id))))"

text \<open>\<open>populate\<close> is the function object of the caller, applied to the new tree.\<close>

definition Database_CreateIndex ::
    "thread_id \<Rightarrow> string \<Rightarrow> string \<Rightarrow> string \<Rightarrow> (ObjectId \<Rightarrow> (database, unit) operation) option \<Rightarrow> (database, ObjectId) operation" where
  "Database_CreateIndex tid name table_name column_name populate =
     bind_op (catalog_op (CreateIndex name table_name column_name)) (\<lambda>oid.
     bind_op (open_file oid) (\<lambda>d.
     bind_op (AttachIndexStorage tid oid d) (\<lambda>_.
     bind_op (case populate of
                None \<Rightarrow> return_op ()
              | Some fill \<Rightarrow> bind_op (fill oid) (\<lambda>_. engine_op (pool_op oid FlushAll))) (\<lambda>_.
     return_op oid))))"

section \<open>Access to the objects\<close>

definition GetHeapFile :: "ObjectId \<Rightarrow> (database, ObjectId option) operation" where
  "GetHeapFile oid db =
     (case db_objects db oid of
        None \<Rightarrow> (Inl (Out_of_range ''unordered_map::at''), db)
      | Some kind \<Rightarrow> (Inr (if kind = Heap_object then Some oid else None), db))"

definition GetIndex :: "ObjectId \<Rightarrow> (database, ObjectId option) operation" where
  "GetIndex oid db =
     (case db_objects db oid of
        None \<Rightarrow> (Inl (Out_of_range ''unordered_map::at''), db)
      | Some kind \<Rightarrow> (Inr (if kind = Index_object then Some oid else None), db))"

definition GetHeapFileForTable :: "string \<Rightarrow> (database, ObjectId option) operation" where
  "GetHeapFileForTable table_name db =
     (case FindTable (db_catalog db) table_name of
        None \<Rightarrow> (Inr None, db)
      | Some t \<Rightarrow> GetHeapFile (tab_heap_object_id t) db)"

definition GetIndexByName :: "string \<Rightarrow> (database, ObjectId option) operation" where
  "GetIndexByName index_name db =
     (case FindIndex (db_catalog db) index_name of
        None \<Rightarrow> (Inr None, db)
      | Some i \<Rightarrow> GetIndex (idx_object_id i) db)"

text \<open>A call through the pointer; through the null pointer it is undefined behaviour, an error value here.\<close>

definition deref :: "ObjectId option \<Rightarrow> (database, ObjectId) operation" where
  "deref p = (case p of None \<Rightarrow> throw_op null_pointer | Some oid \<Rightarrow> return_op oid)"

section \<open>Checkpoint\<close>

text \<open>The objects in increasing order; \<open>objects_\<close> is an unordered map.\<close>

definition Database_Checkpoint :: "(database, unit) operation" where
  "Database_Checkpoint db =
     (if HasActiveTransaction (db_engine db) then (Inl (Logic_error ''Database::Checkpoint''), db)
      else bind_op (for_each (sorted_list_of_set (dom (db_objects db))) (\<lambda>oid. engine_op (pool_op oid FlushAll)))
             (\<lambda>_. engine_op (modify_op (\<lambda>en. en\<lparr>en_wal := Checkpoint (en_wal en)\<rparr>))) db)"

end
