(* ===== verification/Row_Codec.thy ===== *)
theory Row_Codec
  imports Sql_Syntax
begin

text \<open>
  The row encoding of \<open>src/src/sql/row_codec.cpp\<close>: integers as eight bytes, texts as a four-byte length
  and their bytes, in column order, with no tags. An access beyond \<open>values\<close> in \<open>EncodeRow\<close>, undefined
  behaviour in C++, is an error value.
\<close>

section \<open>Characters as bytes\<close>

definition char_byte :: "char \<Rightarrow> byte" where
  "char_byte c = of_nat (of_char c)"

definition byte_char :: "byte \<Rightarrow> char" where
  "byte_char b = char_of (unat b)"

lemma byte_char_char_byte [simp]: "byte_char (char_byte c) = c"
  by (simp add: byte_char_def char_byte_def unat_of_nat_small)

lemma map_byte_char [simp]: "map (byte_char \<circ> char_byte) s = s"
  by (simp add: comp_def)

section \<open>Encoding and decoding\<close>

definition AppendInt64 :: "byte list \<Rightarrow> int64 \<Rightarrow> byte list" where
  "AppendInt64 out v = out @ word_bytes 8 v"

definition ReadInt64 :: "byte list \<Rightarrow> nat \<Rightarrow> exn + int64" where
  "ReadInt64 row_bytes offset =
     (if offset + 8 > length row_bytes then Inl (Runtime_error ''DecodeRow'') else Inr (ReadAt 8 row_bytes offset))"

definition AppendUint32 :: "byte list \<Rightarrow> uint32 \<Rightarrow> byte list" where
  "AppendUint32 out v = out @ word_bytes 4 v"

definition ReadUint32 :: "byte list \<Rightarrow> nat \<Rightarrow> exn + uint32" where
  "ReadUint32 row_bytes offset =
     (if offset + 4 > length row_bytes then Inl (Runtime_error ''DecodeRow'') else Inr (ReadAt 4 row_bytes offset))"

definition encode_value :: "byte list \<Rightarrow> ColumnDef \<Rightarrow> LiteralValue \<Rightarrow> byte list" where
  "encode_value out col v =
     (case col_type col of
        ColumnType.kInteger \<Rightarrow> AppendInt64 out (lit_int_value v)
      | ColumnType.kText \<Rightarrow>
          AppendUint32 out (of_nat (length (lit_string_value v))) @ map char_byte (lit_string_value v))"

fun encode_from :: "byte list \<Rightarrow> ColumnDef list \<Rightarrow> LiteralValue list \<Rightarrow> exn + byte list" where
  "encode_from out [] vs = Inr out"
| "encode_from out (c # cs) [] = Inl (Logic_error ''values[i]'')"
| "encode_from out (c # cs) (v # vs) = encode_from (encode_value out c v) cs vs"

definition EncodeRow :: "ColumnDef list \<Rightarrow> LiteralValue list \<Rightarrow> exn + byte list" where
  "EncodeRow columns values = encode_from [] columns values"

text \<open>One iteration of \<open>DecodeRow\<close>: the value of a column at \<open>offset\<close> and the offset after it.\<close>

definition decode_value :: "ColumnDef \<Rightarrow> byte list \<Rightarrow> nat \<Rightarrow> exn + LiteralValue \<times> nat" where
  "decode_value col row_bytes offset =
     (case col_type col of
        ColumnType.kInteger \<Rightarrow>
          (case ReadInt64 row_bytes offset of Inl e \<Rightarrow> Inl e | Inr v \<Rightarrow> Inr (int_literal v, offset + 8))
      | ColumnType.kText \<Rightarrow>
          (case ReadUint32 row_bytes offset of
             Inl e \<Rightarrow> Inl e
           | Inr len \<Rightarrow>
               (if offset + 4 + unat len > length row_bytes then Inl (Runtime_error ''DecodeRow'')
                else Inr (string_literal (map byte_char (read_bytes row_bytes (offset + 4) (unat len))),
                          offset + 4 + unat len))))"

fun decode_from :: "nat \<Rightarrow> ColumnDef list \<Rightarrow> byte list \<Rightarrow> exn + LiteralValue list" where
  "decode_from offset [] row_bytes = Inr []"
| "decode_from offset (c # cs) row_bytes =
     (case decode_value c row_bytes offset of
        Inl e \<Rightarrow> Inl e
      | Inr (v, offset') \<Rightarrow> map_sum id ((#) v) (decode_from offset' cs row_bytes))"

definition DecodeRow :: "ColumnDef list \<Rightarrow> byte list \<Rightarrow> exn + LiteralValue list" where
  "DecodeRow columns row_bytes = decode_from 0 columns row_bytes"

section \<open>Rows that fit their columns\<close>

text \<open>The literals \<open>RequireLiteralMatchesColumn\<close> lets through, as the parser builds them.\<close>

definition value_fits :: "ColumnDef \<Rightarrow> LiteralValue \<Rightarrow> bool" where
  "value_fits c v \<longleftrightarrow>
     (case col_type c of
        ColumnType.kInteger \<Rightarrow> v = int_literal (lit_int_value v)
      | ColumnType.kText \<Rightarrow> v = string_literal (lit_string_value v) \<and> length (lit_string_value v) < 2 ^ 32)"

abbreviation row_fits :: "ColumnDef list \<Rightarrow> LiteralValue list \<Rightarrow> bool" where
  "row_fits \<equiv> list_all2 value_fits"

definition value_bytes :: "ColumnDef \<Rightarrow> LiteralValue \<Rightarrow> byte list" where
  "value_bytes c v = encode_value [] c v"

lemma encode_value_append: "encode_value out c v = out @ value_bytes c v"
  by (simp add: encode_value_def value_bytes_def AppendInt64_def AppendUint32_def split: ColumnType.split)

lemma encode_from_eq:
  "length cs = length vs \<Longrightarrow> encode_from out cs vs = Inr (out @ concat (map2 value_bytes cs vs))"
  by (induction cs vs arbitrary: out rule: list_induct2) (simp_all add: encode_value_append)

lemma EncodeRow_eq: "length cs = length vs \<Longrightarrow> EncodeRow cs vs = Inr (concat (map2 value_bytes cs vs))"
  by (simp add: EncodeRow_def encode_from_eq)

lemma read_bytes_mid: "read_bytes (xs @ ys @ zs) (length xs) (length ys) = ys"
  by (simp add: read_bytes_def)

lemma ReadAt_mid:
  "LENGTH('a::len) \<le> 8 * n \<Longrightarrow> (ReadAt n (xs @ word_bytes n w @ zs) (length xs) :: 'a word) = w"
  using read_bytes_mid [of xs "word_bytes n w" zs] by (simp add: ReadAt_def bytes_word_word_bytes)

lemma decode_value_bytes:
  assumes "value_fits c v"
  shows "decode_value c (pre @ value_bytes c v @ post) (length pre) = Inr (v, length (pre @ value_bytes c v))"
proof (cases "col_type c")
  case kInteger
  then have v: "value_bytes c v = word_bytes 8 (lit_int_value v)" "int_literal (lit_int_value v) = v"
    using assms by (simp_all add: value_fits_def value_bytes_def encode_value_def AppendInt64_def)
  then show ?thesis
    using kInteger ReadAt_mid [of 8 pre "lit_int_value v" post] by (simp add: decode_value_def ReadInt64_def)
next
  case kText
  let ?n = "of_nat (length (lit_string_value v)) :: uint32"
  have v: "value_bytes c v = word_bytes 4 ?n @ map char_byte (lit_string_value v)" "string_literal (lit_string_value v) = v"
    and n: "unat ?n = length (lit_string_value v)"
    using assms kText by (simp_all add: value_fits_def value_bytes_def encode_value_def AppendUint32_def unat_of_nat_small)
  have "ReadUint32 (pre @ value_bytes c v @ post) (length pre) = Inr ?n"
    using ReadAt_mid [of 4 pre ?n "map char_byte (lit_string_value v) @ post"] by (simp add: ReadUint32_def v)
  moreover have "read_bytes (pre @ value_bytes c v @ post) (length pre + 4) (unat ?n) = map char_byte (lit_string_value v)"
    using read_bytes_mid [of "pre @ word_bytes 4 ?n" "map char_byte (lit_string_value v)" post] by (simp add: v n)
  ultimately show ?thesis
    using kText v n by (simp add: decode_value_def)
qed

lemma decode_from_bytes:
  "row_fits cs vs \<Longrightarrow> decode_from (length pre) cs (pre @ concat (map2 value_bytes cs vs) @ post) = Inr vs"
proof (induction cs vs arbitrary: pre rule: list_all2_induct)
  case (Cons c cs v vs)
  have "decode_from (length (pre @ value_bytes c v)) cs ((pre @ value_bytes c v) @ concat (map2 value_bytes cs vs) @ post) = Inr vs"
    by (rule Cons.IH)
  with decode_value_bytes [OF Cons.hyps(1), of pre "concat (map2 value_bytes cs vs) @ post"] show ?case by simp
qed simp

text \<open>A column whose bytes are cut off is not decoded.\<close>

lemma decode_value_short:
  assumes "value_fits c v" and "k < length (value_bytes c v)"
  shows "decode_value c (pre @ take k (value_bytes c v)) (length pre) = Inl (Runtime_error ''DecodeRow'')"
proof (cases "col_type c")
  case kInteger
  with assms show ?thesis
    by (simp add: decode_value_def ReadInt64_def value_bytes_def encode_value_def AppendInt64_def)
next
  case kText
  let ?n = "of_nat (length (lit_string_value v)) :: uint32"
  have v: "value_bytes c v = word_bytes 4 ?n @ map char_byte (lit_string_value v)"
    and n: "unat ?n = length (lit_string_value v)"
    using assms kText by (simp_all add: value_fits_def value_bytes_def encode_value_def AppendUint32_def unat_of_nat_small)
  show ?thesis
  proof (cases "k < 4")
    case True
    then show ?thesis using kText by (simp add: decode_value_def ReadUint32_def v)
  next
    case False
    have "ReadUint32 (pre @ take k (value_bytes c v)) (length pre) = Inr ?n"
      using False ReadAt_mid [of 4 pre ?n "take (k - 4) (map char_byte (lit_string_value v))"]
      by (simp add: ReadUint32_def v)
    then show ?thesis using kText False assms(2) by (simp add: decode_value_def v n)
  qed
qed

lemma decode_from_short:
  assumes "row_fits cs vs" and "k < length (concat (map2 value_bytes cs vs))"
  shows "decode_from (length pre) cs (pre @ take k (concat (map2 value_bytes cs vs))) = Inl (Runtime_error ''DecodeRow'')"
  using assms
proof (induction cs vs arbitrary: pre k rule: list_all2_induct)
  case (Cons c cs v vs)
  show ?case
  proof (cases "k < length (value_bytes c v)")
    case True
    with decode_value_short [OF Cons.hyps(1) True, of pre] show ?thesis by simp
  next
    case False
    let ?k = "k - length (value_bytes c v)"
    have "decode_from (length (pre @ value_bytes c v)) cs ((pre @ value_bytes c v) @ take ?k (concat (map2 value_bytes cs vs))) =
        Inl (Runtime_error ''DecodeRow'')"
      using False Cons.prems by (intro Cons.IH) simp
    with False decode_value_bytes [OF Cons.hyps(1), of pre "take ?k (concat (map2 value_bytes cs vs))"] show ?thesis by simp
  qed
qed simp

section \<open>Properties of the row encoding\<close>

text \<open>
  C34. For every schema and every row whose values match it, \<open>EncodeRow\<close> succeeds and \<open>DecodeRow\<close> returns
  exactly that row, also when other bytes follow; and every proper prefix of the encoding is refused
  with \<open>std::runtime_error\<close>, so a truncated row is never taken for a shorter one.
\<close>

theorem DecodeRow_EncodeRow:
  assumes "row_fits columns values"
  shows "\<exists>bytes. EncodeRow columns values = Inr bytes \<and> (\<forall>rest. DecodeRow columns (bytes @ rest) = Inr values) \<and>
    (\<forall>k < length bytes. DecodeRow columns (take k bytes) = Inl (Runtime_error ''DecodeRow''))"
proof (intro exI conjI allI impI)
  let ?b = "concat (map2 value_bytes columns values)"
  show "EncodeRow columns values = Inr ?b" using list_all2_lengthD [OF assms] by (rule EncodeRow_eq)
  show "DecodeRow columns (?b @ rest) = Inr values" for rest
    using decode_from_bytes [OF assms, of "[]" rest] by (simp add: DecodeRow_def)
  show "DecodeRow columns (take k ?b) = Inl (Runtime_error ''DecodeRow'')" if "k < length ?b" for k
    using decode_from_short [OF assms that, of "[]"] by (simp add: DecodeRow_def)
qed

theorem DecodeRow_EncodeRow_witness:
  "\<exists>bytes. EncodeRow [\<lparr>col_name = ''id'', col_type = ColumnType.kInteger\<rparr>, \<lparr>col_name = ''t'', col_type = ColumnType.kText\<rparr>]
     [int_literal (- 1), string_literal ''ab''] = Inr bytes \<and>
   DecodeRow [\<lparr>col_name = ''id'', col_type = ColumnType.kInteger\<rparr>, \<lparr>col_name = ''t'', col_type = ColumnType.kText\<rparr>]
     (bytes @ [7]) = Inr [int_literal (- 1), string_literal ''ab'']"
  using DecodeRow_EncodeRow [of "[\<lparr>col_name = ''id'', col_type = ColumnType.kInteger\<rparr>, \<lparr>col_name = ''t'', col_type = ColumnType.kText\<rparr>]"
      "[int_literal (- 1), string_literal ''ab'']"]
  by (auto simp: value_fits_def)

end
