(* ===== verification/Planner.thy ===== *)
theory Planner
  imports Catalog Row_Codec
begin

text \<open>
  Semantic resolution (\<open>src/src/sql/sql_semantics.cpp\<close>), the planner (\<open>src/src/sql/planner.cpp\<close>), and the
  evaluation of predicates on a decoded row that the executor shares with it
  (\<open>src/src/sql/executor.cpp\<close>, lines 27 to 76). All of it is pure: a function of the catalog and the
  statement that returns a plan or throws \<open>SqlSemanticError\<close>.
\<close>

section \<open>Results that may be errors\<close>

definition bind_sum :: "exn + 'a \<Rightarrow> ('a \<Rightarrow> exn + 'b) \<Rightarrow> exn + 'b" where
  "bind_sum m f = (case m of Inl e \<Rightarrow> Inl e | Inr x \<Rightarrow> f x)"

lemma bind_sum_simps [simp]: "bind_sum (Inl e) f = Inl e" "bind_sum (Inr x) f = f x"
  by (simp_all add: bind_sum_def)

lemma bind_sum_Inr: "bind_sum m f = Inr y \<longleftrightarrow> (\<exists>x. m = Inr x \<and> f x = Inr y)"
  by (cases m) auto

text \<open>A loop that checks every element in turn and stops at the first error.\<close>

fun check_all :: "('a \<Rightarrow> exn + unit) \<Rightarrow> 'a list \<Rightarrow> exn + unit" where
  "check_all f [] = Inr ()"
| "check_all f (x # xs) = bind_sum (f x) (\<lambda>_. check_all f xs)"

fun map_sum_list :: "('a \<Rightarrow> exn + 'b) \<Rightarrow> 'a list \<Rightarrow> exn + 'b list" where
  "map_sum_list f [] = Inr []"
| "map_sum_list f (x # xs) = bind_sum (f x) (\<lambda>y. bind_sum (map_sum_list f xs) (\<lambda>ys. Inr (y # ys)))"

lemma check_all_Inr: "check_all f xs = Inr () \<longleftrightarrow> (\<forall>x \<in> set xs. f x = Inr ())"
  by (induction xs) (auto simp: bind_sum_Inr)

lemma map_sum_list_Inr: "map_sum_list f xs = Inr ys \<longleftrightarrow> list_all2 (\<lambda>x y. f x = Inr y) xs ys"
  by (induction xs arbitrary: ys) (auto simp: bind_sum_Inr list_all2_Cons1)

section \<open>Columns and literals\<close>

definition RequireColumn :: "TableInfo \<Rightarrow> string \<Rightarrow> exn + ColumnDef" where
  "RequireColumn table column_name =
     (case FindColumn table column_name of
        None \<Rightarrow> Inl (Sql_semantic_error ''no such column'')
      | Some col \<Rightarrow> Inr col)"

definition RequireLiteralMatchesColumn :: "TableInfo \<Rightarrow> ColumnDef \<Rightarrow> LiteralValue \<Rightarrow> exn + unit" where
  "RequireLiteralMatchesColumn table col v =
     (if col_type col = ColumnType.kInteger \<and> lit_kind v = LiteralKind.kInteger \<or>
         col_type col = ColumnType.kText \<and> lit_kind v = LiteralKind.kString
      then Inr () else Inl (Sql_semantic_error ''literal kind''))"

fun column_position :: "ColumnDef list \<Rightarrow> string \<Rightarrow> nat \<Rightarrow> nat option" where
  "column_position [] name i = None"
| "column_position (c # cs) name i = (if col_name c = name then Some i else column_position cs name (i + 1))"

definition ColumnIndex :: "TableInfo \<Rightarrow> string \<Rightarrow> exn + nat" where
  "ColumnIndex table column_name =
     bind_sum (RequireColumn table column_name) (\<lambda>_.
       case column_position (tab_columns table) column_name 0 of
         Some i \<Rightarrow> Inr i
       | None \<Rightarrow> Inl (Logic_error ''ColumnIndex''))"

section \<open>Comparing values\<close>

text \<open>\<open>std::string::operator<\<close>: lexicographic on unsigned bytes.\<close>

fun string_less :: "string \<Rightarrow> string \<Rightarrow> bool" where
  "string_less s [] = False"
| "string_less [] (d # ds) = True"
| "string_less (c # cs) (d # ds) =
     ((of_char c :: nat) < of_char d \<or> c = d \<and> string_less cs ds)"

definition LiteralsEqual :: "LiteralValue \<Rightarrow> LiteralValue \<Rightarrow> bool" where
  "LiteralsEqual a b =
     (if lit_kind a = LiteralKind.kInteger then lit_int_value a = lit_int_value b
      else lit_string_value a = lit_string_value b)"

definition CompareLiterals :: "LiteralValue \<Rightarrow> LiteralValue \<Rightarrow> int" where
  "CompareLiterals a b =
     (if lit_kind a = LiteralKind.kInteger then
        (if sint (lit_int_value a) < sint (lit_int_value b) then - 1
         else if sint (lit_int_value a) > sint (lit_int_value b) then 1 else 0)
      else if string_less (lit_string_value a) (lit_string_value b) then - 1
      else if string_less (lit_string_value b) (lit_string_value a) then 1 else 0)"

fun compare_holds :: "Comparator \<Rightarrow> int \<Rightarrow> bool" where
  "compare_holds Comparator.kEq cmp = (cmp = 0)"
| "compare_holds Comparator.kNeq cmp = (cmp \<noteq> 0)"
| "compare_holds Comparator.kLt cmp = (cmp < 0)"
| "compare_holds Comparator.kLe cmp = (cmp \<le> 0)"
| "compare_holds Comparator.kGt cmp = (cmp > 0)"
| "compare_holds Comparator.kGe cmp = (cmp \<ge> 0)"

text \<open>\<open>values[idx]\<close>; beyond the vector it is undefined behaviour, an error value here.\<close>

definition value_at :: "LiteralValue list \<Rightarrow> nat \<Rightarrow> exn + LiteralValue" where
  "value_at values i = (if i < length values then Inr (values ! i) else Inl (Logic_error ''values[idx]''))"

definition EvaluatePredicate :: "TableInfo \<Rightarrow> LiteralValue list \<Rightarrow> Predicate \<Rightarrow> exn + bool" where
  "EvaluatePredicate table values pred =
     bind_sum (ColumnIndex table (ref_column_name (pred_column pred))) (\<lambda>idx.
       bind_sum (value_at values idx) (\<lambda>v.
         Inr (compare_holds (pred_op pred) (CompareLiterals v (pred_value pred)))))"

fun MatchesAll :: "TableInfo \<Rightarrow> LiteralValue list \<Rightarrow> Predicate list \<Rightarrow> exn + bool" where
  "MatchesAll table values [] = Inr True"
| "MatchesAll table values (p # ps) =
     bind_sum (EvaluatePredicate table values p) (\<lambda>b. if \<not> b then Inr False else MatchesAll table values ps)"

section \<open>Plans\<close>

datatype ScanMethod = kSeqScan | kIndexScan

record TableAccessPlan =
  tap_table_name :: string
  tap_method :: ScanMethod
  tap_index_name :: string
  tap_index_key :: int64
  tap_residual_predicates :: "Predicate list"

record JoinPlan =
  jp_outer :: TableAccessPlan
  jp_inner_table_name :: string
  jp_inner_method :: ScanMethod
  jp_inner_index_name :: string
  jp_inner_residual_predicates :: "Predicate list"
  jp_outer_join_column :: string
  jp_inner_join_column :: string

datatype access_plan = Single_access TableAccessPlan | Join_access JoinPlan

record SelectPlan =
  sp_select_star :: bool
  sp_select_list :: "ColumnRef list"
  sp_access :: access_plan

definition ValidatePredicateAgainstTable :: "TableInfo \<Rightarrow> Predicate \<Rightarrow> exn + unit" where
  "ValidatePredicateAgainstTable table pred =
     (if ref_table_name (pred_column pred) \<noteq> None \<and> ref_table_name (pred_column pred) \<noteq> Some (tab_name table)
      then Inl (Sql_semantic_error ''table not in scope'')
      else bind_sum (RequireColumn table (ref_column_name (pred_column pred))) (\<lambda>col.
             RequireLiteralMatchesColumn table col (pred_value pred)))"

definition FindIndexOnColumn :: "catalog \<Rightarrow> string \<Rightarrow> string \<Rightarrow> IndexInfo option" where
  "FindIndexOnColumn c table_name column_name =
     find (\<lambda>idx. idx_column_name idx = column_name) (IndexesOnTable c table_name)"

datatype JoinSide = kOuter | kInner

definition ResolveColumnSide :: "TableInfo \<Rightarrow> TableInfo \<Rightarrow> ColumnRef \<Rightarrow> exn + JoinSide" where
  "ResolveColumnSide outer inner col =
     (case ref_table_name col of
        Some t \<Rightarrow>
          (if t = tab_name outer then bind_sum (RequireColumn outer (ref_column_name col)) (\<lambda>_. Inr kOuter)
           else if t = tab_name inner then bind_sum (RequireColumn inner (ref_column_name col)) (\<lambda>_. Inr kInner)
           else Inl (Sql_semantic_error ''unknown table''))
      | None \<Rightarrow>
          (let in_outer = FindColumn outer (ref_column_name col); in_inner = FindColumn inner (ref_column_name col)
           in if in_outer \<noteq> None \<and> in_inner \<noteq> None then Inl (Sql_semantic_error ''ambiguous column'')
              else if in_outer \<noteq> None then Inr kOuter
              else if in_inner \<noteq> None then Inr kInner
              else Inl (Sql_semantic_error ''no such column'')))"

text \<open>The first equality on an indexed column: its position among the predicates, the index and the key.\<close>

fun driving_predicate :: "catalog \<Rightarrow> string \<Rightarrow> nat \<Rightarrow> Predicate list \<Rightarrow> (nat \<times> IndexInfo \<times> int64) option" where
  "driving_predicate c table_name i [] = None"
| "driving_predicate c table_name i (p # ps) =
     (if pred_op p \<noteq> Comparator.kEq then driving_predicate c table_name (i + 1) ps
      else case FindIndexOnColumn c table_name (ref_column_name (pred_column p)) of
             None \<Rightarrow> driving_predicate c table_name (i + 1) ps
           | Some idx \<Rightarrow> Some (i, idx, lit_int_value (pred_value p)))"

definition drop_nth :: "nat \<Rightarrow> 'a list \<Rightarrow> 'a list" where
  "drop_nth i xs = map snd (filter (\<lambda>(j, _). j \<noteq> i) (enumerate 0 xs))"

definition PlanTableAccess :: "catalog \<Rightarrow> string \<Rightarrow> Predicate list \<Rightarrow> exn + TableAccessPlan" where
  "PlanTableAccess c table_name predicates =
     (case FindTable c table_name of
        None \<Rightarrow> Inl (Sql_semantic_error ''no such table'')
      | Some table \<Rightarrow>
          bind_sum (check_all (ValidatePredicateAgainstTable table) predicates) (\<lambda>_.
            Inr (case driving_predicate c table_name 0 predicates of
                   None \<Rightarrow> \<lparr>tap_table_name = table_name, tap_method = kSeqScan, tap_index_name = [], tap_index_key = 0,
                     tap_residual_predicates = predicates\<rparr>
                 | Some (i, idx, key) \<Rightarrow> \<lparr>tap_table_name = table_name, tap_method = kIndexScan, tap_index_name = idx_name idx,
                     tap_index_key = key, tap_residual_predicates = drop_nth i predicates\<rparr>)))"

definition plan_select_column :: "TableInfo \<Rightarrow> ColumnRef \<Rightarrow> exn + ColumnRef" where
  "plan_select_column table col =
     (if ref_table_name col \<noteq> None \<and> ref_table_name col \<noteq> Some (tab_name table)
      then Inl (Sql_semantic_error ''unknown table in select list'')
      else bind_sum (RequireColumn table (ref_column_name col)) (\<lambda>_.
             Inr \<lparr>ref_table_name = Some (tab_name table), ref_column_name = ref_column_name col\<rparr>))"

definition plan_join_column :: "TableInfo \<Rightarrow> TableInfo \<Rightarrow> ColumnRef \<Rightarrow> exn + ColumnRef" where
  "plan_join_column outer inner col =
     bind_sum (ResolveColumnSide outer inner col) (\<lambda>side.
       Inr \<lparr>ref_table_name = Some (tab_name (if side = kOuter then outer else inner)), ref_column_name = ref_column_name col\<rparr>)"

text \<open>One iteration of the loop that splits the WHERE predicates of a join.\<close>

definition check_join_predicate :: "TableInfo \<Rightarrow> TableInfo \<Rightarrow> Predicate \<Rightarrow> exn + JoinSide \<times> Predicate" where
  "check_join_predicate outer inner pred =
     bind_sum (ResolveColumnSide outer inner (pred_column pred)) (\<lambda>side.
       let side_table = (if side = kOuter then outer else inner)
       in bind_sum (RequireColumn side_table (ref_column_name (pred_column pred))) (\<lambda>col.
            bind_sum (RequireLiteralMatchesColumn side_table col (pred_value pred)) (\<lambda>_. Inr (side, pred))))"

definition plan_join :: "catalog \<Rightarrow> SelectStatement \<Rightarrow> TableInfo \<Rightarrow> JoinClause \<Rightarrow> exn + SelectPlan" where
  "plan_join c stmt from_table join =
     (case FindTable c (join_table_name join) of
        None \<Rightarrow> Inl (Sql_semantic_error ''no such table'')
      | Some inner_table \<Rightarrow>
          if tab_name inner_table = tab_name from_table then Inl (Sql_semantic_error ''self join'')
          else
            bind_sum (ResolveColumnSide from_table inner_table (join_left_column join)) (\<lambda>left_side.
            bind_sum (ResolveColumnSide from_table inner_table (join_right_column join)) (\<lambda>right_side.
            if left_side = right_side then Inl (Sql_semantic_error ''join columns of one table'')
            else
              let outer_join_column = ref_column_name (if left_side = kOuter then join_left_column join else join_right_column join);
                  inner_join_column = ref_column_name (if left_side = kInner then join_left_column join else join_right_column join)
              in
              bind_sum (RequireColumn from_table outer_join_column) (\<lambda>outer_col.
              bind_sum (RequireColumn inner_table inner_join_column) (\<lambda>inner_col.
              if col_type outer_col \<noteq> col_type inner_col then Inl (Sql_semantic_error ''join column types'')
              else
                bind_sum (map_sum_list (check_join_predicate from_table inner_table) (sel_where stmt)) (\<lambda>sided.
                bind_sum (PlanTableAccess c (tab_name from_table) (map snd (filter (\<lambda>(s, _). s = kOuter) sided))) (\<lambda>outer_plan.
                bind_sum (if sel_star stmt then Inr [] else map_sum_list (plan_join_column from_table inner_table) (sel_list stmt)) (\<lambda>cols.
                  Inr \<lparr>sp_select_star = sel_star stmt, sp_select_list = cols,
                    sp_access = Join_access
                      \<lparr>jp_outer = outer_plan, jp_inner_table_name = tab_name inner_table,
                       jp_inner_method = (if FindIndexOnColumn c (tab_name inner_table) inner_join_column \<noteq> None
                                          then kIndexScan else kSeqScan),
                       jp_inner_index_name = (case FindIndexOnColumn c (tab_name inner_table) inner_join_column of
                                                None \<Rightarrow> [] | Some idx \<Rightarrow> idx_name idx),
                       jp_inner_residual_predicates = map snd (filter (\<lambda>(s, _). s = kInner) sided),
                       jp_outer_join_column = outer_join_column, jp_inner_join_column = inner_join_column\<rparr>\<rparr>))))))))"

definition PlanSelect :: "catalog \<Rightarrow> SelectStatement \<Rightarrow> exn + SelectPlan" where
  "PlanSelect c stmt =
     (case FindTable c (sel_from_table stmt) of
        None \<Rightarrow> Inl (Sql_semantic_error ''no such table'')
      | Some from_table \<Rightarrow>
          (case sel_join stmt of
             None \<Rightarrow>
               bind_sum (if sel_star stmt then Inr [] else map_sum_list (plan_select_column from_table) (sel_list stmt)) (\<lambda>cols.
               bind_sum (PlanTableAccess c (sel_from_table stmt) (sel_where stmt)) (\<lambda>access.
                 Inr \<lparr>sp_select_star = sel_star stmt, sp_select_list = cols, sp_access = Single_access access\<rparr>))
           | Some join \<Rightarrow> plan_join c stmt from_table join))"

section \<open>Reference semantics of a WHERE clause\<close>

text \<open>
  What a query means, with no plan: a value is an integer or a text, the tables in scope are listed with
  one row each, and a column reference denotes the value of the one column it can name.
\<close>

datatype sql_value = Int_value int | Text_value string

definition sql_value_of :: "LiteralValue \<Rightarrow> sql_value" where
  "sql_value_of v = (if lit_kind v = LiteralKind.kInteger then Int_value (sint (lit_int_value v)) else Text_value (lit_string_value v))"

definition byte_order :: "(char \<times> char) set" where
  "byte_order = {(a, b). (of_char a :: nat) < of_char b}"

fun sql_less :: "sql_value \<Rightarrow> sql_value \<Rightarrow> bool" where
  "sql_less (Int_value a) (Int_value b) = (a < b)"
| "sql_less (Text_value a) (Text_value b) = ((a, b) \<in> lexord byte_order)"
| "sql_less _ _ = False"

fun sql_holds :: "Comparator \<Rightarrow> sql_value \<Rightarrow> sql_value \<Rightarrow> bool" where
  "sql_holds Comparator.kEq a b = (a = b)"
| "sql_holds Comparator.kNeq a b = (a \<noteq> b)"
| "sql_holds Comparator.kLt a b = sql_less a b"
| "sql_holds Comparator.kLe a b = (sql_less a b \<or> a = b)"
| "sql_holds Comparator.kGt a b = sql_less b a"
| "sql_holds Comparator.kGe a b = (sql_less b a \<or> a = b)"

type_synonym scope = "(TableInfo \<times> LiteralValue list) list"

definition table_values :: "ColumnRef \<Rightarrow> TableInfo \<times> LiteralValue list \<Rightarrow> LiteralValue list" where
  "table_values r tr =
     (if ref_table_name r = None \<or> ref_table_name r = Some (tab_name (fst tr))
      then map snd (filter (\<lambda>(c, v). col_name c = ref_column_name r) (zip (tab_columns (fst tr)) (snd tr))) else [])"

definition ref_value :: "scope \<Rightarrow> ColumnRef \<Rightarrow> sql_value option" where
  "ref_value sc r = (case concat (map (table_values r) sc) of [v] \<Rightarrow> Some (sql_value_of v) | _ \<Rightarrow> None)"

definition predicate_true :: "scope \<Rightarrow> Predicate \<Rightarrow> bool" where
  "predicate_true sc p \<longleftrightarrow>
     (case ref_value sc (pred_column p) of None \<Rightarrow> False | Some v \<Rightarrow> sql_holds (pred_op p) v (sql_value_of (pred_value p)))"

definition where_true :: "scope \<Rightarrow> Predicate list \<Rightarrow> bool" where
  "where_true sc ps \<longleftrightarrow> list_all (predicate_true sc) ps"

section \<open>Comparison\<close>

lemma of_char_eq: "(of_char c :: nat) = of_char d \<longleftrightarrow> c = d"
  by simp

lemma string_less_lexord: "string_less s t \<longleftrightarrow> (s, t) \<in> lexord byte_order"
  by (induction s t rule: string_less.induct) (auto simp: byte_order_def)

lemma lexord_byte_total: "(s, t) \<in> lexord byte_order \<or> s = t \<or> (t, s) \<in> lexord byte_order"
proof -
  have "\<forall>a b. (a, b) \<in> byte_order \<or> a = b \<or> (b, a) \<in> byte_order"
    unfolding byte_order_def using of_char_eq by (metis (mono_tags, lifting) case_prodI linorder_neqE_nat mem_Collect_eq)
  then show ?thesis by (rule lexord_linear)
qed

lemma lexord_byte_asym: "(s, t) \<in> lexord byte_order \<Longrightarrow> (t, s) \<notin> lexord byte_order"
proof -
  have "asym byte_order" by (auto simp: byte_order_def asym_on_def)
  then show "(s, t) \<in> lexord byte_order \<Longrightarrow> (t, s) \<notin> lexord byte_order"
    using lexord_asym [of byte_order] by (metis asymD)
qed

lemma lexord_byte_irrefl: "(s, s) \<notin> lexord byte_order"
  using lexord_byte_asym by blast

lemma compare_holds_sql:
  assumes "lit_kind a = lit_kind b"
  shows "compare_holds op (CompareLiterals a b) = sql_holds op (sql_value_of a) (sql_value_of b)"
proof (cases "lit_kind a")
  case kInteger
  with assms show ?thesis
    by (cases op) (auto simp: CompareLiterals_def sql_value_of_def)
next
  case kString
  with assms show ?thesis
    using lexord_byte_total [of "lit_string_value a" "lit_string_value b"] lexord_byte_asym lexord_byte_irrefl
    by (cases op) (auto simp: CompareLiterals_def sql_value_of_def string_less_lexord)
qed

lemma LiteralsEqual_sql: "lit_kind a = lit_kind b \<Longrightarrow> LiteralsEqual a b \<longleftrightarrow> sql_value_of a = sql_value_of b"
  by (cases "lit_kind a") (auto simp: LiteralsEqual_def sql_value_of_def signed_word_eqI)

section \<open>Resolving columns\<close>

abbreviation column_values :: "ColumnDef list \<Rightarrow> LiteralValue list \<Rightarrow> string \<Rightarrow> LiteralValue list" where
  "column_values cs row n \<equiv> map snd (filter (\<lambda>(c, v). col_name c = n) (zip cs row))"

lemma column_lookup:
  assumes "row_fits cs row" and "distinct (map col_name cs)" and "find_column cs n = Some col"
  shows "\<exists>i < length row. column_position cs n k = Some (k + i) \<and> value_fits col (row ! i) \<and> column_values cs row n = [row ! i]"
  using assms
proof (induction cs row arbitrary: k rule: list_all2_induct)
  case Nil
  then show ?case by (simp add: find_column_def)
next
  case (Cons c cs v vs)
  show ?case
  proof (cases "col_name c = n")
    case True
    then have none: "column_values cs vs n = []"
      using Cons.prems(1) by (auto simp: filter_empty_conv) (metis image_eqI set_zip_leftD)
    with True Cons show ?thesis by (intro exI [of _ 0]) (simp add: find_column_def)
  next
    case False
    with Cons obtain i where "i < length vs" "column_position cs n (Suc k) = Some (Suc k + i)" "value_fits col (vs ! i)"
      "column_values cs vs n = [vs ! i]"
      by (fastforce simp: find_column_def)
    with False show ?thesis by (intro exI [of _ "Suc i"]) simp
  qed
qed

lemma column_absent: "find_column cs n = None \<Longrightarrow> column_values cs row n = []"
  by (auto simp: find_column_def find_None filter_empty_conv dest: set_zip_leftD)

text \<open>The value of a column in a row: what both the executor and the reference semantics read.\<close>

definition cell :: "TableInfo \<Rightarrow> LiteralValue list \<Rightarrow> string \<Rightarrow> LiteralValue" where
  "cell t row n = hd (column_values (tab_columns t) row n)"

definition resolves :: "TableInfo \<Rightarrow> LiteralValue list \<Rightarrow> string \<Rightarrow> ColumnDef \<Rightarrow> bool" where
  "resolves t row n col \<longleftrightarrow>
     FindColumn t n = Some col \<and> table_ok t \<and> row_fits (tab_columns t) row"

lemma resolvesD:
  assumes "resolves t row n col"
  shows "bind_sum (ColumnIndex t n) (value_at row) = Inr (cell t row n)" and "value_fits col (cell t row n)"
    and "column_values (tab_columns t) row n = [cell t row n]" and "bind_sum (ColumnIndex t n) (\<lambda>i. bind_sum (value_at row i) f) = f (cell t row n)"
proof -
  obtain i where i: "i < length row" "column_position (tab_columns t) n 0 = Some (0 + i)" "value_fits col (row ! i)"
    "column_values (tab_columns t) row n = [row ! i]"
    using assms column_lookup [of "tab_columns t" row n col 0] by (auto simp: resolves_def table_ok_def FindColumn_def)
  moreover have "ColumnIndex t n = Inr i"
    using assms i(2) by (simp add: ColumnIndex_def RequireColumn_def resolves_def)
  ultimately show "bind_sum (ColumnIndex t n) (value_at row) = Inr (cell t row n)" "value_fits col (cell t row n)"
    "column_values (tab_columns t) row n = [cell t row n]" "bind_sum (ColumnIndex t n) (\<lambda>i. bind_sum (value_at row i) f) = f (cell t row n)"
    by (simp_all add: value_at_def cell_def)
qed

lemma RequireColumn_Inr: "RequireColumn t n = Inr col \<longleftrightarrow> FindColumn t n = Some col"
  by (simp add: RequireColumn_def split: option.split)

lemma fits_kind:
  "value_fits col v \<Longrightarrow> lit_kind v = (if col_type col = ColumnType.kInteger then LiteralKind.kInteger else LiteralKind.kString)"
  by (cases "col_type col") (simp_all add: value_fits_def, metis literal_fields(1), metis literal_fields(3))

lemma RequireLiteral_kind:
  "RequireLiteralMatchesColumn t col lit = Inr () \<longleftrightarrow>
     lit_kind lit = (if col_type col = ColumnType.kInteger then LiteralKind.kInteger else LiteralKind.kString)"
  by (cases "col_type col"; cases "lit_kind lit") (simp_all add: RequireLiteralMatchesColumn_def)

lemma EvaluatePredicate_cell:
  assumes "resolves t row (ref_column_name (pred_column p)) col" and "RequireLiteralMatchesColumn t' col (pred_value p) = Inr ()"
  shows "EvaluatePredicate t row p =
    Inr (sql_holds (pred_op p) (sql_value_of (cell t row (ref_column_name (pred_column p)))) (sql_value_of (pred_value p)))"
proof -
  have "lit_kind (cell t row (ref_column_name (pred_column p))) = lit_kind (pred_value p)"
    using fits_kind [OF resolvesD(2) [OF assms(1)]] assms(2) by (simp add: RequireLiteral_kind)
  then show ?thesis
    by (simp add: EvaluatePredicate_def resolvesD(4) [OF assms(1)] compare_holds_sql)
qed

lemma MatchesAll_list:
  "\<forall>p \<in> set ps. EvaluatePredicate t row p = Inr (P p) \<Longrightarrow> MatchesAll t row ps = Inr (list_all P ps)"
  by (induction ps) auto

lemma ValidatePredicate_Inr:
  "ValidatePredicateAgainstTable t p = Inr () \<longleftrightarrow>
     (ref_table_name (pred_column p) = None \<or> ref_table_name (pred_column p) = Some (tab_name t)) \<and>
     (\<exists>col. FindColumn t (ref_column_name (pred_column p)) = Some col \<and> RequireLiteralMatchesColumn t col (pred_value p) = Inr ())"
  by (auto simp: ValidatePredicateAgainstTable_def bind_sum_Inr RequireColumn_Inr)

lemma predicate_single:
  assumes "ValidatePredicateAgainstTable t p = Inr ()" and "table_ok t" and "row_fits (tab_columns t) row"
  shows "EvaluatePredicate t row p = Inr (predicate_true [(t, row)] p)"
proof -
  obtain col where col: "resolves t row (ref_column_name (pred_column p)) col" "RequireLiteralMatchesColumn t col (pred_value p) = Inr ()"
    and q: "ref_table_name (pred_column p) = None \<or> ref_table_name (pred_column p) = Some (tab_name t)"
    using assms by (auto simp: ValidatePredicate_Inr resolves_def)
  have "ref_value [(t, row)] (pred_column p) = Some (sql_value_of (cell t row (ref_column_name (pred_column p))))"
    using q resolvesD(3) [OF col(1)] by (auto simp: ref_value_def table_values_def)
  with EvaluatePredicate_cell [OF col] show ?thesis by (simp add: predicate_true_def)
qed

section \<open>Single-table access\<close>

text \<open>
  The rows that a table access delivers: those whose indexed column holds the probed key, when the plan
  is an index scan, and that pass the residual predicates.
\<close>

definition access_selects :: "catalog \<Rightarrow> TableAccessPlan \<Rightarrow> LiteralValue list \<Rightarrow> exn + bool" where
  "access_selects c plan row =
     (case FindTable c (tap_table_name plan) of
        None \<Rightarrow> Inl (Logic_error ''no table'')
      | Some t \<Rightarrow>
          (case tap_method plan of
             kSeqScan \<Rightarrow> MatchesAll t row (tap_residual_predicates plan)
           | kIndexScan \<Rightarrow>
               (case FindIndex c (tap_index_name plan) of
                  None \<Rightarrow> Inl (Logic_error ''no index'')
                | Some idx \<Rightarrow>
                    bind_sum (ColumnIndex t (idx_column_name idx)) (\<lambda>i. bind_sum (value_at row i) (\<lambda>v.
                      if lit_int_value v \<noteq> tap_index_key plan then Inr False
                      else MatchesAll t row (tap_residual_predicates plan))))))"

lemma enumerate_filter_ge: "j < k \<Longrightarrow> map snd (filter (\<lambda>(i, _). i \<noteq> j) (enumerate k xs)) = xs"
  by (induction xs arbitrary: k) auto

lemma drop_nth_shift: "map snd (filter (\<lambda>(i, _). i \<noteq> k + j) (enumerate k xs)) = drop_nth j xs"
proof (induction xs arbitrary: k j)
  case (Cons x xs)
  show ?case
  proof (cases j)
    case 0
    then show ?thesis using enumerate_filter_ge [of k "Suc k" xs] enumerate_filter_ge [of 0 "Suc 0" xs] by (simp add: drop_nth_def)
  next
    case (Suc j')
    with Cons.IH [of "Suc k" j'] Cons.IH [of "Suc 0" j'] show ?thesis by (simp add: drop_nth_def)
  qed
qed (simp add: drop_nth_def)

lemma drop_nth_simps [simp]: "drop_nth 0 (x # xs) = xs" "drop_nth (Suc j) (x # xs) = x # drop_nth j xs"
  using drop_nth_shift [of "Suc 0" j xs] enumerate_filter_ge [of 0 "Suc 0" xs] by (simp_all add: drop_nth_def)

lemma list_all_drop_nth: "i < length xs \<Longrightarrow> list_all P xs \<longleftrightarrow> P (xs ! i) \<and> list_all P (drop_nth i xs)"
  by (induction xs arbitrary: i) (auto simp: nth_Cons' gr0_conv_Suc)

lemma set_drop_nth: "set (drop_nth i xs) \<subseteq> set xs"
  by (auto simp: drop_nth_def in_set_enumerate_eq)

lemma driving_predicate_shift:
  "driving_predicate c n k ps = map_option (\<lambda>(i, r). (k + i, r)) (driving_predicate c n 0 ps)"
proof (induction ps arbitrary: k)
  case (Cons p ps)
  show ?case using Cons [of "Suc k"] Cons [of "Suc 0"]
    by (auto simp: option.map_comp o_def case_prod_unfold split: option.split)
qed simp

lemma driving_predicate_None:
  "driving_predicate c n k ps = None \<longleftrightarrow>
     (\<forall>p \<in> set ps. pred_op p = Comparator.kEq \<longrightarrow> FindIndexOnColumn c n (ref_column_name (pred_column p)) = None)"
  by (induction ps arbitrary: k) (auto split: option.split)

lemma driving_predicate_Some:
  assumes "driving_predicate c n 0 ps = Some (i, idx, key)"
  shows "i < length ps \<and> pred_op (ps ! i) = Comparator.kEq \<and>
    FindIndexOnColumn c n (ref_column_name (pred_column (ps ! i))) = Some idx \<and> key = lit_int_value (pred_value (ps ! i))"
  using assms
proof (induction ps arbitrary: i)
  case (Cons p ps)
  then show ?case using driving_predicate_shift [of c n "Suc 0" ps]
    by (auto split: if_splits option.splits)
qed simp

lemma FindIndexOnColumn_ok:
  assumes "catalog_ok c" and "FindIndexOnColumn c n k = Some idx"
  shows "FindIndex c (idx_name idx) = Some idx" and "idx_column_name idx = k" and "idx_table_name idx = n"
    and "FindTable c n = Some t \<Longrightarrow> integer_column t k"
proof -
  have mem: "idx \<in> set (IndexesOnTable c n)" "idx_column_name idx = k"
    using find_SomeD assms(2) unfolding FindIndexOnColumn_def by fastforce+
  then have i: "idx \<in> set (cat_indexes c)" "idx_table_name idx = n" by (simp_all add: IndexesOnTable_def)
  with mem show "idx_column_name idx = k" "idx_table_name idx = n" by simp_all
  show "FindIndex c (idx_name idx) = Some idx"
    unfolding FindIndex_def using assms(1) i by (intro find_distinct) (simp_all add: catalog_ok_def)
  obtain t' where t': "t' \<in> set (cat_tables c)" "tab_name t' = n" "integer_column t' k"
    using assms(1) i mem(2) by (auto simp: catalog_ok_def list_all_iff index_ok_def)
  with FindTable_ok [OF assms(1) t'(1)] show "FindTable c n = Some t \<Longrightarrow> integer_column t k" by simp
qed

lemma FindTable_table_ok: "catalog_ok c \<Longrightarrow> FindTable c n = Some t \<Longrightarrow> table_ok t \<and> tab_name t = n"
  using find_SomeD [of "\<lambda>t. tab_name t = n" "cat_tables c" t] by (auto simp: FindTable_def catalog_ok_def list_all_iff)

text \<open>The probe of an INTEGER index is the equality predicate it stands for.\<close>

lemma probe_predicate:
  assumes "resolves t row n col" and "col_type col = ColumnType.kInteger" and "lit_kind v = LiteralKind.kInteger"
  shows "lit_int_value (cell t row n) = lit_int_value v \<longleftrightarrow> sql_value_of (cell t row n) = sql_value_of v"
  using fits_kind [OF resolvesD(2) [OF assms(1)]] assms(2,3) by (auto simp: sql_value_of_def signed_word_eqI)

lemma PlanTableAccess_selects:
  assumes c: "catalog_ok c" and plan: "PlanTableAccess c n preds = Inr plan"
    and t: "FindTable c n = Some t" and row: "row_fits (tab_columns t) row"
  shows "access_selects c plan row = Inr (where_true [(t, row)] preds)"
proof -
  have tok: "table_ok t" "tab_name t = n" using FindTable_table_ok [OF c t] by simp_all
  have valid: "\<forall>p \<in> set preds. ValidatePredicateAgainstTable t p = Inr ()"
    using plan t by (auto simp: PlanTableAccess_def bind_sum_Inr check_all_Inr)
  have all: "MatchesAll t row ps = Inr (where_true [(t, row)] ps)" if "set ps \<subseteq> set preds" for ps
    unfolding where_true_def using valid that tok(1) row by (intro MatchesAll_list) (auto intro: predicate_single)
  show ?thesis
  proof (cases "driving_predicate c n 0 preds")
    case None
    then show ?thesis using plan t all by (auto simp: PlanTableAccess_def bind_sum_Inr access_selects_def)
  next
    case (Some d)
    obtain i idx key where d: "d = (i, idx, key)" by (cases d)
    let ?p = "preds ! i" and ?k = "ref_column_name (pred_column (preds ! i))"
    have drv: "i < length preds" "pred_op ?p = Comparator.kEq" "FindIndexOnColumn c n ?k = Some idx" "key = lit_int_value (pred_value ?p)"
      using driving_predicate_Some [of c n preds i idx key] Some d by simp_all
    note idx = FindIndexOnColumn_ok [OF c drv(3)]
    obtain col where col: "resolves t row ?k col" "RequireLiteralMatchesColumn t col (pred_value ?p) = Inr ()"
      "col_type col = ColumnType.kInteger"
      using valid drv(1) tok row idx(4) [OF t]
      by (auto simp: ValidatePredicate_Inr resolves_def integer_column_def dest!: nth_mem split: option.splits)
    have "predicate_true [(t, row)] ?p \<longleftrightarrow> lit_int_value (cell t row ?k) = key"
      using predicate_single [of t ?p row] EvaluatePredicate_cell [OF col(1,2)] valid drv(1,2,4) tok(1) row
        probe_predicate [OF col(1,3)] col(2,3) by (simp add: RequireLiteral_kind)
    with plan t Some d idx(1,2) all [OF set_drop_nth, of i] drv(1) show ?thesis
      by (auto simp: PlanTableAccess_def bind_sum_Inr access_selects_def resolvesD(4) [OF col(1)] where_true_def
        list_all_drop_nth [OF drv(1)])
  qed
qed

section \<open>Joins\<close>

lemma ResolveColumnSide_Inr:
  assumes side: "ResolveColumnSide o_t i_t r = Inr side" and names: "tab_name o_t \<noteq> tab_name i_t"
    and o_t: "table_ok o_t" "row_fits (tab_columns o_t) ro" and i_t: "table_ok i_t" "row_fits (tab_columns i_t) ri"
  shows "\<exists>col. resolves (if side = kOuter then o_t else i_t) (if side = kOuter then ro else ri) (ref_column_name r) col \<and>
    ref_value [(o_t, ro), (i_t, ri)] r =
      Some (sql_value_of (cell (if side = kOuter then o_t else i_t) (if side = kOuter then ro else ri) (ref_column_name r)))"
proof -
  let ?n = "ref_column_name r"
  have vals: "resolves t row ?n col \<Longrightarrow> column_values (tab_columns t) row ?n = [cell t row ?n]" for t row col
    by (rule resolvesD(3))
  have ro: "FindColumn o_t ?n = Some col \<Longrightarrow> resolves o_t ro ?n col" for col using o_t by (simp add: resolves_def)
  have ri: "FindColumn i_t ?n = Some col \<Longrightarrow> resolves i_t ri ?n col" for col using i_t by (simp add: resolves_def)
  have abs: "FindColumn t ?n = None \<Longrightarrow> column_values (tab_columns t) row ?n = []" for t row
    by (simp add: FindColumn_def column_absent)
  show ?thesis
  proof (cases "ref_table_name r")
    case (Some q)
    then show ?thesis using side names vals ro ri
      by (auto simp: ResolveColumnSide_def bind_sum_Inr RequireColumn_Inr ref_value_def table_values_def split: if_splits)
  next
    case None
    then show ?thesis using side names vals ro ri abs
      by (cases "FindColumn o_t ?n"; cases "FindColumn i_t ?n")
        (fastforce simp: ResolveColumnSide_def Let_def ref_value_def table_values_def)+
  qed
qed

text \<open>The pairs of rows a join plan delivers: the outer access, the join probe, the inner residual predicates.\<close>

definition join_matches :: "catalog \<Rightarrow> ScanMethod \<Rightarrow> string \<Rightarrow> string \<Rightarrow> TableInfo \<Rightarrow> LiteralValue list \<Rightarrow> LiteralValue \<Rightarrow> exn + bool" where
  "join_matches c meth index_name column i_t ri outer_value =
     (case meth of
        kSeqScan \<Rightarrow> bind_sum (ColumnIndex i_t column) (\<lambda>i. bind_sum (value_at ri i) (\<lambda>v. Inr (LiteralsEqual v outer_value)))
      | kIndexScan \<Rightarrow>
          (case FindIndex c index_name of
             None \<Rightarrow> Inl (Logic_error ''no index'')
           | Some idx \<Rightarrow> bind_sum (ColumnIndex i_t (idx_column_name idx)) (\<lambda>i. bind_sum (value_at ri i) (\<lambda>v.
               Inr (lit_int_value v = lit_int_value outer_value)))))"

definition join_selects :: "catalog \<Rightarrow> JoinPlan \<Rightarrow> LiteralValue list \<Rightarrow> LiteralValue list \<Rightarrow> exn + bool" where
  "join_selects c jp ro ri =
     (case (FindTable c (tap_table_name (jp_outer jp)), FindTable c (jp_inner_table_name jp)) of
        (Some o_t, Some i_t) \<Rightarrow>
          bind_sum (access_selects c (jp_outer jp) ro) (\<lambda>b. if \<not> b then Inr False else
          bind_sum (bind_sum (ColumnIndex o_t (jp_outer_join_column jp)) (value_at ro)) (\<lambda>outer_value.
          bind_sum (join_matches c (jp_inner_method jp) (jp_inner_index_name jp) (jp_inner_join_column jp) i_t ri outer_value) (\<lambda>joined.
          if \<not> joined then Inr False else MatchesAll i_t ri (jp_inner_residual_predicates jp))))
      | _ \<Rightarrow> Inl (Logic_error ''no table''))"

lemma list_all_sides:
  "list_all P (map snd xs) \<longleftrightarrow> list_all P (map snd (filter (\<lambda>(s, _). s = kOuter) xs)) \<and> list_all P (map snd (filter (\<lambda>(s, _). s = kInner) xs))"
proof (induction xs)
  case (Cons x xs)
  then show ?case by (cases x; cases "fst x") auto
qed simp

lemma check_join_predicate_Inr:
  "check_join_predicate o_t i_t p = Inr (side, q) \<longleftrightarrow>
     q = p \<and> ResolveColumnSide o_t i_t (pred_column p) = Inr side \<and>
     (\<exists>col. FindColumn (if side = kOuter then o_t else i_t) (ref_column_name (pred_column p)) = Some col \<and>
       RequireLiteralMatchesColumn (if side = kOuter then o_t else i_t) col (pred_value p) = Inr ())"
  by (auto simp: check_join_predicate_def bind_sum_Inr RequireColumn_Inr Let_def)

lemma predicate_join:
  assumes "check_join_predicate o_t i_t p = Inr (side, q)" and names: "tab_name o_t \<noteq> tab_name i_t"
    and "table_ok o_t" "row_fits (tab_columns o_t) ro" and "table_ok i_t" "row_fits (tab_columns i_t) ri"
  shows "EvaluatePredicate (if side = kOuter then o_t else i_t) (if side = kOuter then ro else ri) p =
    Inr (predicate_true [(o_t, ro), (i_t, ri)] p)"
proof -
  let ?t = "if side = kOuter then o_t else i_t" and ?row = "if side = kOuter then ro else ri"
  obtain col where s: "ResolveColumnSide o_t i_t (pred_column p) = Inr side"
    and col: "FindColumn ?t (ref_column_name (pred_column p)) = Some col" "RequireLiteralMatchesColumn ?t col (pred_value p) = Inr ()"
    using assms(1) unfolding check_join_predicate_Inr by blast
  from ResolveColumnSide_Inr [OF s names assms(3-)] obtain col' where
    r: "resolves ?t ?row (ref_column_name (pred_column p)) col'"
      "ref_value [(o_t, ro), (i_t, ri)] (pred_column p) = Some (sql_value_of (cell ?t ?row (ref_column_name (pred_column p))))"
    by blast
  have "col' = col" using r(1) col(1) unfolding resolves_def by simp
  with EvaluatePredicate_cell [OF r(1), of ?t] col(2) r(2) show ?thesis by (simp add: predicate_true_def)
qed

text \<open>What an accepted join statement has, one fact for each check of the code.\<close>

lemma plan_join_Inr:
  assumes "plan_join c stmt o_t join = Inr plan" and "FindTable c (join_table_name join) = Some i_t"
  obtains ls rs ocol icol sided outer_plan where
    "tab_name i_t \<noteq> tab_name o_t"
    "ResolveColumnSide o_t i_t (join_left_column join) = Inr ls" "ResolveColumnSide o_t i_t (join_right_column join) = Inr rs" "ls \<noteq> rs"
    "FindColumn o_t (ref_column_name (if ls = kOuter then join_left_column join else join_right_column join)) = Some ocol"
    "FindColumn i_t (ref_column_name (if ls = kInner then join_left_column join else join_right_column join)) = Some icol"
    "col_type ocol = col_type icol"
    "list_all2 (\<lambda>p y. check_join_predicate o_t i_t p = Inr y) (sel_where stmt) sided"
    "PlanTableAccess c (tab_name o_t) (map snd (filter (\<lambda>(s, _). s = kOuter) sided)) = Inr outer_plan"
    "if sel_star stmt then sp_select_list plan = []
     else list_all2 (\<lambda>r r'. plan_join_column o_t i_t r = Inr r') (sel_list stmt) (sp_select_list plan)"
    "sp_select_star plan = sel_star stmt"
    "sp_access plan = Join_access
       \<lparr>jp_outer = outer_plan, jp_inner_table_name = tab_name i_t,
        jp_inner_method = (if FindIndexOnColumn c (tab_name i_t) (ref_column_name (if ls = kInner then join_left_column join else join_right_column join)) \<noteq> None
                           then kIndexScan else kSeqScan),
        jp_inner_index_name = (case FindIndexOnColumn c (tab_name i_t) (ref_column_name (if ls = kInner then join_left_column join else join_right_column join)) of
                                 None \<Rightarrow> [] | Some idx \<Rightarrow> idx_name idx),
        jp_inner_residual_predicates = map snd (filter (\<lambda>(s, _). s = kInner) sided),
        jp_outer_join_column = ref_column_name (if ls = kOuter then join_left_column join else join_right_column join),
        jp_inner_join_column = ref_column_name (if ls = kInner then join_left_column join else join_right_column join)\<rparr>"
proof -
  have "tab_name i_t \<noteq> tab_name o_t" using assms by (auto simp: plan_join_def)
  moreover from this assms obtain ls rs where s: "ResolveColumnSide o_t i_t (join_left_column join) = Inr ls"
    "ResolveColumnSide o_t i_t (join_right_column join) = Inr rs" "ls \<noteq> rs"
    by (auto simp: plan_join_def bind_sum_Inr split: if_splits)
  ultimately show thesis using assms that [of ls rs]
    by (auto simp: plan_join_def bind_sum_Inr Let_def RequireColumn_Inr map_sum_list_Inr split: if_splits)
qed

lemma join_column_value:
  assumes "plan_join_column o_t i_t r = Inr r'" and names: "tab_name o_t \<noteq> tab_name i_t"
    and "table_ok o_t" "row_fits (tab_columns o_t) ro" and "table_ok i_t" "row_fits (tab_columns i_t) ri"
  shows "ref_table_name r' \<noteq> None \<and> ref_value [(o_t, ro), (i_t, ri)] r \<noteq> None \<and>
    ref_value [(o_t, ro), (i_t, ri)] r' = ref_value [(o_t, ro), (i_t, ri)] r"
proof -
  from assms(1) obtain side where s: "ResolveColumnSide o_t i_t r = Inr side"
    and r': "r' = \<lparr>ref_table_name = Some (tab_name (if side = kOuter then o_t else i_t)), ref_column_name = ref_column_name r\<rparr>"
    by (auto simp: plan_join_column_def bind_sum_Inr)
  from ResolveColumnSide_Inr [OF s names assms(3-)] obtain col where
    col: "resolves (if side = kOuter then o_t else i_t) (if side = kOuter then ro else ri) (ref_column_name r) col"
      "ref_value [(o_t, ro), (i_t, ri)] r =
        Some (sql_value_of (cell (if side = kOuter then o_t else i_t) (if side = kOuter then ro else ri) (ref_column_name r)))"
    by blast
  have "ResolveColumnSide o_t i_t r' = Inr side"
    using col(1) names by (cases side) (auto simp: r' resolves_def ResolveColumnSide_def bind_sum_Inr RequireColumn_Inr)
  from ResolveColumnSide_Inr [OF this names assms(3-)] col(2) r' show ?thesis by auto
qed

text \<open>The two sides of ON, as the plan reads them and as the statement means them.\<close>

lemma join_probe:
  assumes ls: "ResolveColumnSide o_t i_t (join_left_column join) = Inr ls"
    and rs: "ResolveColumnSide o_t i_t (join_right_column join) = Inr rs" and "ls \<noteq> rs"
    and rows: "tab_name o_t \<noteq> tab_name i_t" "table_ok o_t" "row_fits (tab_columns o_t) ro" "table_ok i_t" "row_fits (tab_columns i_t) ri"
  shows "ref_value [(o_t, ro), (i_t, ri)] (join_left_column join) = ref_value [(o_t, ro), (i_t, ri)] (join_right_column join) \<longleftrightarrow>
    sql_value_of (cell i_t ri (ref_column_name (if ls = kInner then join_left_column join else join_right_column join))) =
    sql_value_of (cell o_t ro (ref_column_name (if ls = kOuter then join_left_column join else join_right_column join)))"
  using ResolveColumnSide_Inr [OF ls rows] ResolveColumnSide_Inr [OF rs rows] assms(3)
  by (cases ls; cases rs) auto

lemma join_test:
  assumes c: "catalog_ok c" and i_t: "FindTable c (tab_name i_t) = Some i_t"
    and o_r: "resolves o_t ro oc ocol" and i_r: "resolves i_t ri ic icol" and ty: "col_type ocol = col_type icol"
  shows "join_matches c (if FindIndexOnColumn c (tab_name i_t) ic \<noteq> None then kIndexScan else kSeqScan)
      (case FindIndexOnColumn c (tab_name i_t) ic of None \<Rightarrow> [] | Some idx \<Rightarrow> idx_name idx) ic i_t ri (cell o_t ro oc) =
    Inr (sql_value_of (cell i_t ri ic) = sql_value_of (cell o_t ro oc))"
proof -
  have kinds: "lit_kind (cell i_t ri ic) = lit_kind (cell o_t ro oc)"
    using fits_kind [OF resolvesD(2) [OF o_r]] fits_kind [OF resolvesD(2) [OF i_r]] ty by simp
  show ?thesis
  proof (cases "FindIndexOnColumn c (tab_name i_t) ic")
    case None
    with kinds show ?thesis by (simp add: join_matches_def resolvesD(4) [OF i_r] LiteralsEqual_sql)
  next
    case (Some idx)
    note idx = FindIndexOnColumn_ok [OF c Some]
    have int: "col_type icol = ColumnType.kInteger" using idx(4) [OF i_t] i_r by (simp add: integer_column_def resolves_def)
    then have "lit_kind (cell o_t ro oc) = LiteralKind.kInteger" using fits_kind [OF resolvesD(2) [OF o_r]] ty by simp
    with Some idx(1,2) probe_predicate [OF i_r int] show ?thesis by (simp add: join_matches_def resolvesD(4) [OF i_r])
  qed
qed

lemma predicate_sides:
  assumes sided: "list_all2 (\<lambda>p y. check_join_predicate o_t i_t p = Inr y) ps sided"
    and rows: "tab_name o_t \<noteq> tab_name i_t" "table_ok o_t" "row_fits (tab_columns o_t) ro" "table_ok i_t" "row_fits (tab_columns i_t) ri"
  shows "map snd sided = ps"
    and "MatchesAll o_t ro (map snd (filter (\<lambda>(s, _). s = kOuter) sided)) =
      Inr (where_true [(o_t, ro), (i_t, ri)] (map snd (filter (\<lambda>(s, _). s = kOuter) sided)))"
    and "MatchesAll i_t ri (map snd (filter (\<lambda>(s, _). s = kInner) sided)) =
      Inr (where_true [(o_t, ro), (i_t, ri)] (map snd (filter (\<lambda>(s, _). s = kInner) sided)))"
proof -
  show ps: "map snd sided = ps"
    using sided by (induction rule: list_all2_induct) (auto simp: check_join_predicate_Inr)
  have y: "check_join_predicate o_t i_t p = Inr (s, p)" if "(s, p) \<in> set sided" for s p
    using sided that by (induction rule: list_all2_induct) (auto simp: check_join_predicate_Inr)
  show "MatchesAll o_t ro (map snd (filter (\<lambda>(s, _). s = kOuter) sided)) =
      Inr (where_true [(o_t, ro), (i_t, ri)] (map snd (filter (\<lambda>(s, _). s = kOuter) sided)))"
    unfolding where_true_def
  proof (intro MatchesAll_list ballI)
    fix p assume "p \<in> set (map snd (filter (\<lambda>(s, _). s = kOuter) sided))"
    then have "(kOuter, p) \<in> set sided" by auto
    from predicate_join [OF y [OF this] rows] show "EvaluatePredicate o_t ro p = Inr (predicate_true [(o_t, ro), (i_t, ri)] p)" by simp
  qed
  show "MatchesAll i_t ri (map snd (filter (\<lambda>(s, _). s = kInner) sided)) =
      Inr (where_true [(o_t, ro), (i_t, ri)] (map snd (filter (\<lambda>(s, _). s = kInner) sided)))"
    unfolding where_true_def
  proof (intro MatchesAll_list ballI)
    fix p assume "p \<in> set (map snd (filter (\<lambda>(s, _). s = kInner) sided))"
    then have "(kInner, p) \<in> set sided" by auto
    from predicate_join [OF y [OF this] rows] show "EvaluatePredicate i_t ri p = Inr (predicate_true [(o_t, ro), (i_t, ri)] p)" by simp
  qed
qed

lemma PlanTableAccess_MatchesAll:
  assumes "catalog_ok c" and "PlanTableAccess c n preds = Inr plan" and "FindTable c n = Some t" and "row_fits (tab_columns t) row"
  shows "access_selects c plan row = MatchesAll t row preds"
proof -
  have "\<forall>p \<in> set preds. ValidatePredicateAgainstTable t p = Inr ()"
    using assms(2,3) by (auto simp: PlanTableAccess_def bind_sum_Inr check_all_Inr)
  then have "MatchesAll t row preds = Inr (where_true [(t, row)] preds)"
    unfolding where_true_def using FindTable_table_ok [OF assms(1,3)] assms(4) by (intro MatchesAll_list) (auto intro: predicate_single)
  with PlanTableAccess_selects [OF assms] show ?thesis by simp
qed

text \<open>
  The plan of a two-table SELECT delivers exactly the pairs of rows that the
  statement means, the two sides of ON equal and every WHERE predicate true, however the tables are
  accessed; and every column of the select list is qualified with the table its value comes from.
\<close>

theorem PlanSelect_join_equivalent:
  assumes c: "catalog_ok c" and plan: "PlanSelect c stmt = Inr plan" and join: "sel_join stmt = Some join"
    and o_t: "FindTable c (sel_from_table stmt) = Some o_t" "row_fits (tab_columns o_t) ro"
    and i_t: "FindTable c (join_table_name join) = Some i_t" "row_fits (tab_columns i_t) ri"
  shows "\<exists>jp. sp_access plan = Join_access jp \<and>
    join_selects c jp ro ri =
      Inr (ref_value [(o_t, ro), (i_t, ri)] (join_left_column join) = ref_value [(o_t, ro), (i_t, ri)] (join_right_column join) \<and>
           where_true [(o_t, ro), (i_t, ri)] (sel_where stmt)) \<and>
    (\<not> sel_star stmt \<longrightarrow> list_all2 (\<lambda>r r'. ref_table_name r' \<noteq> None \<and> ref_value [(o_t, ro), (i_t, ri)] r \<noteq> None \<and>
       ref_value [(o_t, ro), (i_t, ri)] r' = ref_value [(o_t, ro), (i_t, ri)] r) (sel_list stmt) (sp_select_list plan))"
proof -
  have ok: "table_ok o_t" "tab_name o_t = sel_from_table stmt" "table_ok i_t" "tab_name i_t = join_table_name join"
    using FindTable_table_ok [OF c o_t(1)] FindTable_table_ok [OF c i_t(1)] by simp_all
  have pj: "plan_join c stmt o_t join = Inr plan" using plan join o_t(1) by (simp add: PlanSelect_def)
  show ?thesis
  proof (rule plan_join_Inr [OF pj i_t(1)])
    fix ls rs ocol icol sided outer_plan
    let ?oc = "ref_column_name (if ls = kOuter then join_left_column join else join_right_column join)"
      and ?ic = "ref_column_name (if ls = kInner then join_left_column join else join_right_column join)"
      and ?sc = "[(o_t, ro), (i_t, ri)]"
    assume names: "tab_name i_t \<noteq> tab_name o_t"
      and sides: "ResolveColumnSide o_t i_t (join_left_column join) = Inr ls" "ResolveColumnSide o_t i_t (join_right_column join) = Inr rs" "ls \<noteq> rs"
      and cols: "FindColumn o_t ?oc = Some ocol" "FindColumn i_t ?ic = Some icol" "col_type ocol = col_type icol"
      and sided: "list_all2 (\<lambda>p y. check_join_predicate o_t i_t p = Inr y) (sel_where stmt) sided"
      and op: "PlanTableAccess c (tab_name o_t) (map snd (filter (\<lambda>(s, _). s = kOuter) sided)) = Inr outer_plan"
      and list: "if sel_star stmt then sp_select_list plan = []
        else list_all2 (\<lambda>r r'. plan_join_column o_t i_t r = Inr r') (sel_list stmt) (sp_select_list plan)"
      and acc: "sp_access plan = Join_access
        \<lparr>jp_outer = outer_plan, jp_inner_table_name = tab_name i_t,
         jp_inner_method = (if FindIndexOnColumn c (tab_name i_t) ?ic \<noteq> None then kIndexScan else kSeqScan),
         jp_inner_index_name = (case FindIndexOnColumn c (tab_name i_t) ?ic of None \<Rightarrow> [] | Some idx \<Rightarrow> idx_name idx),
         jp_inner_residual_predicates = map snd (filter (\<lambda>(s, _). s = kInner) sided),
         jp_outer_join_column = ?oc, jp_inner_join_column = ?ic\<rparr>"
    note rows = names [symmetric] ok(1) o_t(2) ok(3) i_t(2)
    have r: "resolves o_t ro ?oc ocol" "resolves i_t ri ?ic icol" using cols ok o_t(2) i_t(2) by (simp_all add: resolves_def)
    have i_f: "FindTable c (tab_name i_t) = Some i_t" and o_f: "FindTable c (tab_name o_t) = Some o_t" using i_t(1) o_t(1) ok by simp_all
    have tn: "tap_table_name outer_plan = tab_name o_t"
      using op o_f by (auto simp: PlanTableAccess_def bind_sum_Inr split: option.splits)
    note sd = predicate_sides [OF sided rows]
    have "where_true ?sc (sel_where stmt) \<longleftrightarrow> where_true ?sc (map snd (filter (\<lambda>(s, _). s = kOuter) sided)) \<and>
        where_true ?sc (map snd (filter (\<lambda>(s, _). s = kInner) sided))"
      unfolding where_true_def sd(1) [symmetric] by (rule list_all_sides)
    with acc tn i_f o_f sd(2,3) PlanTableAccess_MatchesAll [OF c op o_f o_t(2)] join_test [OF c i_f r cols(3)]
      join_probe [OF sides rows] resolvesD(1) [OF r(1)]
    have "join_selects c (case sp_access plan of Join_access jp \<Rightarrow> jp) ro ri =
      Inr (ref_value ?sc (join_left_column join) = ref_value ?sc (join_right_column join) \<and> where_true ?sc (sel_where stmt))"
      by (simp add: join_selects_def del: if_split)
    moreover have "\<not> sel_star stmt \<longrightarrow> list_all2 (\<lambda>r r'. ref_table_name r' \<noteq> None \<and> ref_value ?sc r \<noteq> None \<and>
        ref_value ?sc r' = ref_value ?sc r) (sel_list stmt) (sp_select_list plan)"
      using list join_column_value [OF _ rows] by (auto elim!: list_all2_mono split: if_splits)
    ultimately show ?thesis using acc by auto
  qed
qed

section \<open>Witnesses\<close>

definition id_is :: "int64 \<Rightarrow> Predicate" where
  "id_is k = \<lparr>pred_column = \<lparr>ref_table_name = None, ref_column_name = ''id''\<rparr>, pred_op = Comparator.kEq, pred_value = int_literal k\<rparr>"

lemma one_table_t:
  "FindTable one_table ''t'' = Some (new_table empty_catalog ''t'' [\<lparr>col_name = ''id'', col_type = ColumnType.kInteger\<rparr>] (Some ''id''))"
  by (simp add: one_table_def with_table_def empty_catalog_def FindTable_def new_table_def)

definition two_tables :: catalog where
  "two_tables = with_table one_table ''u'' [\<lparr>col_name = ''k'', col_type = ColumnType.kInteger\<rparr>] None"

definition join_query :: SelectStatement where
  "join_query = \<lparr>sel_star = False, sel_list = [\<lparr>ref_table_name = None, ref_column_name = ''k''\<rparr>], sel_from_table = ''u'',
     sel_join = Some \<lparr>join_table_name = ''t'', join_left_column = \<lparr>ref_table_name = None, ref_column_name = ''id''\<rparr>,
       join_right_column = \<lparr>ref_table_name = Some ''u'', ref_column_name = ''k''\<rparr>\<rparr>,
     sel_where = [id_is 5]\<rparr>"

lemma two_tables_ok: "catalog_ok two_tables"
  unfolding two_tables_def
proof (rule catalog_ok_with_table [OF one_table_ok])
  show "plain_name ''u''" "validate_table one_table ''u'' [\<lparr>col_name = ''k'', col_type = ColumnType.kInteger\<rparr>] None = None"
    by code_simp+
  have "plain_name ''k''" by code_simp
  then show "list_all plain_name (map col_name [\<lparr>col_name = ''k'', col_type = ColumnType.kInteger\<rparr>])" by simp
qed (simp add: one_table_fields)

theorem PlanSelect_join_equivalent_witness:
  "\<exists>plan jp. PlanSelect two_tables join_query = Inr plan \<and> sp_access plan = Join_access jp \<and>
     join_selects two_tables jp [int_literal 5] [int_literal 5] = Inr True \<and>
     join_selects two_tables jp [int_literal 5] [int_literal 6] = Inr False"
proof -
  let ?i = "new_table empty_catalog ''t'' [\<lparr>col_name = ''id'', col_type = ColumnType.kInteger\<rparr>] (Some ''id'')"
    and ?o = "new_table one_table ''u'' [\<lparr>col_name = ''k'', col_type = ColumnType.kInteger\<rparr>] None"
  obtain plan where p: "PlanSelect two_tables join_query = Inr plan"
  proof -
    have "\<not> isl (PlanSelect two_tables join_query)" by code_simp
    with that show thesis by (cases "PlanSelect two_tables join_query") auto
  qed
  have t: "FindTable two_tables ''t'' = Some ?i" "FindTable two_tables (sel_from_table join_query) = Some ?o"
    using one_table_t by (simp_all add: two_tables_def with_table_def FindTable_def find_append one_table_def empty_catalog_def
      new_table_def join_query_def)
  have j: "sel_join join_query = Some \<lparr>join_table_name = ''t'', join_left_column = \<lparr>ref_table_name = None, ref_column_name = ''id''\<rparr>,
       join_right_column = \<lparr>ref_table_name = Some ''u'', ref_column_name = ''k''\<rparr>\<rparr>" by (simp add: join_query_def)
  have fit: "row_fits (tab_columns ?o) [int_literal k]" "row_fits (tab_columns ?i) [int_literal k]" for k
    by (simp_all add: new_table_def value_fits_def)
  show ?thesis
    using p t(1) PlanSelect_join_equivalent [OF two_tables_ok p j t(2) fit(1) _ fit(2), of 5 5]
      PlanSelect_join_equivalent [OF two_tables_ok p j t(2) fit(1) _ fit(2), of 5 6]
    by (auto simp: where_true_def predicate_true_def ref_value_def table_values_def new_table_def id_is_def sql_value_of_def join_query_def)
qed

end
