(* ===== verification/Executor.thy ===== *)
theory Executor
  imports Database Planner Row_Codec
begin

text \<open>
  The executor of \<open>src/src/sql/executor.h\<close> and \<open>executor.cpp\<close>: one parsed statement against a database, in
  the transaction that the calling thread has open, if any. Loops over rows are recursions over the list
  that the code has fetched before the loop.
\<close>

record ExecuteResult =
  res_rows :: "LiteralValue list list"
  res_column_names :: "string list"
  res_rows_affected :: nat

definition no_result :: ExecuteResult where
  "no_result = \<lparr>res_rows = [], res_column_names = [], res_rows_affected = 0\<rparr>"

section \<open>Row access\<close>

text \<open>The rows of an index probe: \<open>GetRow\<close> for every row id the index returned.\<close>

primrec fetch_rows :: "thread_id \<Rightarrow> ObjectId \<Rightarrow> RID list \<Rightarrow> (database, (RID \<times> byte list) list) operation" where
  "fetch_rows tid heap [] = return_op []"
| "fetch_rows tid heap (rid # rids) =
     bind_op (engine_op (HeapFile_GetRow tid heap rid)) (\<lambda>row.
       case row of
         None \<Rightarrow> throw_op (Logic_error ''index names a RID with no live row'')
       | Some bytes \<Rightarrow> bind_op (fetch_rows tid heap rids) (\<lambda>rows. return_op ((rid, bytes) # rows)))"

definition FetchCandidateRows :: "thread_id \<Rightarrow> TableAccessPlan \<Rightarrow> (database, (RID \<times> byte list) list) operation" where
  "FetchCandidateRows tid access =
     (if tap_method access = kSeqScan
      then bind_op (bind_op (GetHeapFileForTable (tap_table_name access)) deref) (\<lambda>heap. engine_op (HeapFile_Scan tid heap))
      else bind_op (bind_op (GetIndexByName (tap_index_name access)) deref) (\<lambda>index.
           bind_op (bind_op (GetHeapFileForTable (tap_table_name access)) deref) (\<lambda>heap.
           bind_op (engine_op (BPlusTree_Search (engine_ops tid index) (tap_index_key access))) (\<lambda>rids.
           fetch_rows tid heap rids))))"

section \<open>Index maintenance and uniqueness\<close>

definition InsertIntoAllIndexes :: "thread_id \<Rightarrow> catalog \<Rightarrow> TableInfo \<Rightarrow> LiteralValue list \<Rightarrow> RID \<Rightarrow> (database, unit) operation" where
  "InsertIntoAllIndexes tid c table vals rid =
     for_each (IndexesOnTable c (tab_name table)) (\<lambda>idx.
       bind_op (lift_sum (ColumnIndex table (idx_column_name idx))) (\<lambda>col_idx.
       bind_op (bind_op (GetIndex (idx_object_id idx)) deref) (\<lambda>tree.
       bind_op (lift_sum (value_at vals col_idx)) (\<lambda>v.
       engine_op (BPlusTree_Insert (engine_ops tid tree) (lit_int_value v) rid)))))"

definition DeleteFromAllIndexes :: "thread_id \<Rightarrow> catalog \<Rightarrow> TableInfo \<Rightarrow> LiteralValue list \<Rightarrow> RID \<Rightarrow> (database, unit) operation" where
  "DeleteFromAllIndexes tid c table vals rid =
     for_each (IndexesOnTable c (tab_name table)) (\<lambda>idx.
       bind_op (lift_sum (ColumnIndex table (idx_column_name idx))) (\<lambda>col_idx.
       bind_op (bind_op (GetIndex (idx_object_id idx)) deref) (\<lambda>tree.
       bind_op (lift_sum (value_at vals col_idx)) (\<lambda>v.
       discard_op (engine_op (BPlusTree_Delete (engine_ops tid tree) (lit_int_value v) rid))))))"

definition duplicate_key :: exn where
  "duplicate_key = Sql_semantic_error ''duplicate PRIMARY KEY value''"

definition CheckPrimaryKeyUniqueness :: "thread_id \<Rightarrow> catalog \<Rightarrow> TableInfo \<Rightarrow> LiteralValue list \<Rightarrow> (database, unit) operation" where
  "CheckPrimaryKeyUniqueness tid c table vals =
     (case PrimaryKeyIndex c (tab_name table) of
        None \<Rightarrow> return_op ()
      | Some pk \<Rightarrow>
          bind_op (lift_sum (bind_sum (ColumnIndex table (idx_column_name pk)) (value_at vals))) (\<lambda>v.
          bind_op (bind_op (GetIndex (idx_object_id pk)) deref) (\<lambda>tree.
          bind_op (engine_op (BPlusTree_Search (engine_ops tid tree) (lit_int_value v))) (\<lambda>rids.
          if rids \<noteq> [] then throw_op duplicate_key else return_op ()))))"

text \<open>The three checks of \<open>ValidateUpdateBatch\<close>: sizes, keys within the batch, keys of rows outside it.\<close>

fun check_batch_keys :: "nat \<Rightarrow> int64 set \<Rightarrow> LiteralValue list list \<Rightarrow> exn + unit" where
  "check_batch_keys pk_col seen [] = Inr ()"
| "check_batch_keys pk_col seen (vals # rest) =
     bind_sum (value_at vals pk_col) (\<lambda>v.
       if lit_int_value v \<in> seen then Inl duplicate_key
       else check_batch_keys pk_col (insert (lit_int_value v) seen) rest)"

definition check_other_rows :: "thread_id \<Rightarrow> IndexInfo \<Rightarrow> nat \<Rightarrow> RID set \<Rightarrow> LiteralValue list \<Rightarrow> (database, unit) operation" where
  "check_other_rows tid pk pk_col updating vals =
     bind_op (lift_sum (value_at vals pk_col)) (\<lambda>v.
     bind_op (bind_op (GetIndex (idx_object_id pk)) deref) (\<lambda>tree.
     bind_op (engine_op (BPlusTree_Search (engine_ops tid tree) (lit_int_value v))) (\<lambda>rids.
     if list_all (\<lambda>rid. rid \<in> updating) rids then return_op () else throw_op duplicate_key)))"

definition ValidateUpdateBatch ::
    "thread_id \<Rightarrow> catalog \<Rightarrow> TableInfo \<Rightarrow> (RID \<times> LiteralValue list) list \<Rightarrow> LiteralValue list list \<Rightarrow> byte list list \<Rightarrow> (database, unit) operation" where
  "ValidateUpdateBatch tid c table matched new_values new_bytes =
     (if \<not> list_all (\<lambda>bytes. length bytes \<le> kMaxRowSize) new_bytes then throw_op (Invalid_argument ''HeapFile::Insert'')
      else case PrimaryKeyIndex c (tab_name table) of
             None \<Rightarrow> return_op ()
           | Some pk \<Rightarrow>
               bind_op (lift_sum (ColumnIndex table (idx_column_name pk))) (\<lambda>pk_col.
               bind_op (lift_sum (check_batch_keys pk_col {} new_values)) (\<lambda>_.
               for_each new_values (check_other_rows tid pk pk_col (fst ` set matched)))))"

fun check_values :: "TableInfo \<Rightarrow> ColumnDef list \<Rightarrow> LiteralValue list \<Rightarrow> exn + unit" where
  "check_values table (c # cs) (v # vs) = bind_sum (RequireLiteralMatchesColumn table c v) (\<lambda>_. check_values table cs vs)"
| "check_values table _ _ = Inr ()"

definition ValidateValuesAgainstColumns :: "TableInfo \<Rightarrow> LiteralValue list \<Rightarrow> exn + unit" where
  "ValidateValuesAgainstColumns table vals =
     (if length vals \<noteq> length (tab_columns table) then Inl (Sql_semantic_error ''number of values'')
      else check_values table (tab_columns table) vals)"

definition RequireNoActiveTransaction :: "(database, unit) operation" where
  "RequireNoActiveTransaction db =
     (if HasActiveTransaction (db_engine db) then (Inl (Logic_error ''DDL statement''), db) else (Inr (), db))"

section \<open>Statements\<close>

definition ExecuteCreateTable :: "thread_id \<Rightarrow> CreateTableStatement \<Rightarrow> (database, ExecuteResult) operation" where
  "ExecuteCreateTable tid stmt =
     bind_op RequireNoActiveTransaction (\<lambda>_.
     bind_op (Database_CreateTable tid (ct_table_name stmt) (ct_columns stmt) (ct_primary_key_column stmt)) (\<lambda>_.
     return_op no_result))"

text \<open>The loop of the backfill over the rows of the table.\<close>

definition index_row :: "thread_id \<Rightarrow> TableInfo \<Rightarrow> nat \<Rightarrow> ObjectId \<Rightarrow> RID \<times> byte list \<Rightarrow> (database, unit) operation" where
  "index_row tid table col_idx index row =
     bind_op (lift_sum (DecodeRow (tab_columns table) (snd row))) (\<lambda>vals.
     bind_op (lift_sum (value_at vals col_idx)) (\<lambda>v.
     engine_op (BPlusTree_Insert (engine_ops tid index) (lit_int_value v) (fst row))))"

definition backfill :: "thread_id \<Rightarrow> CreateIndexStatement \<Rightarrow> ObjectId \<Rightarrow> (database, unit) operation" where
  "backfill tid stmt index =
     bind_op get_op (\<lambda>db.
       case FindTable (db_catalog db) (ci_table_name stmt) of
         None \<Rightarrow> throw_op null_pointer
       | Some table \<Rightarrow>
           bind_op (lift_sum (ColumnIndex table (ci_column_name stmt))) (\<lambda>col_idx.
           bind_op (bind_op (GetHeapFileForTable (ci_table_name stmt)) deref) (\<lambda>heap.
           bind_op (engine_op (HeapFile_Scan tid heap)) (\<lambda>rows.
           for_each rows (index_row tid table col_idx index)))))"

definition ExecuteCreateIndex :: "thread_id \<Rightarrow> CreateIndexStatement \<Rightarrow> (database, ExecuteResult) operation" where
  "ExecuteCreateIndex tid stmt =
     bind_op RequireNoActiveTransaction (\<lambda>_.
     bind_op (Database_CreateIndex tid (ci_index_name stmt) (ci_table_name stmt) (ci_column_name stmt) (Some (backfill tid stmt))) (\<lambda>_.
     return_op no_result))"

definition ExecuteInsert :: "thread_id \<Rightarrow> InsertStatement \<Rightarrow> (database, ExecuteResult) operation" where
  "ExecuteInsert tid stmt =
     bind_op get_op (\<lambda>db.
       case FindTable (db_catalog db) (ins_table_name stmt) of
         None \<Rightarrow> throw_op (Sql_semantic_error ''no such table'')
       | Some table \<Rightarrow>
           bind_op (lift_sum (ValidateValuesAgainstColumns table (ins_values stmt))) (\<lambda>_.
           bind_op (CheckPrimaryKeyUniqueness tid (db_catalog db) table (ins_values stmt)) (\<lambda>_.
           bind_op (bind_op (GetHeapFileForTable (ins_table_name stmt)) deref) (\<lambda>heap.
           bind_op (lift_sum (EncodeRow (tab_columns table) (ins_values stmt))) (\<lambda>row_bytes.
           bind_op (engine_op (HeapFile_Insert tid heap row_bytes)) (\<lambda>rid.
           bind_op (InsertIntoAllIndexes tid (db_catalog db) table (ins_values stmt) rid) (\<lambda>_.
           return_op (no_result\<lparr>res_rows_affected := 1\<rparr>))))))))"

text \<open>Decoding and filtering the candidate rows, as \<open>UPDATE\<close> and \<open>SELECT\<close> do before anything else.\<close>

fun matching_rows :: "TableInfo \<Rightarrow> Predicate list \<Rightarrow> (RID \<times> byte list) list \<Rightarrow> exn + (RID \<times> LiteralValue list) list" where
  "matching_rows table residual [] = Inr []"
| "matching_rows table residual ((rid, bytes) # rows) =
     bind_sum (DecodeRow (tab_columns table) bytes) (\<lambda>vals.
     bind_sum (MatchesAll table vals residual) (\<lambda>b.
     bind_sum (matching_rows table residual rows) (\<lambda>rest.
     Inr (if b then (rid, vals) # rest else rest))))"

primrec delete_rows :: "thread_id \<Rightarrow> catalog \<Rightarrow> TableInfo \<Rightarrow> Predicate list \<Rightarrow> ObjectId \<Rightarrow> nat \<Rightarrow> (RID \<times> byte list) list \<Rightarrow> (database, nat) operation" where
  "delete_rows tid c table residual heap n [] = return_op n"
| "delete_rows tid c table residual heap n (row # rows) =
     bind_op (lift_sum (DecodeRow (tab_columns table) (snd row))) (\<lambda>vals.
     bind_op (lift_sum (MatchesAll table vals residual)) (\<lambda>b.
     if \<not> b then delete_rows tid c table residual heap n rows
     else bind_op (DeleteFromAllIndexes tid c table vals (fst row)) (\<lambda>_.
          bind_op (discard_op (engine_op (HeapFile_Delete tid heap (fst row)))) (\<lambda>_.
          delete_rows tid c table residual heap (n + 1) rows))))"

definition ExecuteDelete :: "thread_id \<Rightarrow> DeleteStatement \<Rightarrow> (database, ExecuteResult) operation" where
  "ExecuteDelete tid stmt =
     bind_op get_op (\<lambda>db.
     bind_op (lift_sum (PlanTableAccess (db_catalog db) (del_table_name stmt) (del_where stmt))) (\<lambda>access.
       case FindTable (db_catalog db) (del_table_name stmt) of
         None \<Rightarrow> throw_op null_pointer
       | Some table \<Rightarrow>
           bind_op (bind_op (GetHeapFileForTable (del_table_name stmt)) deref) (\<lambda>heap.
           bind_op (FetchCandidateRows tid access) (\<lambda>rows.
           bind_op (delete_rows tid (db_catalog db) table (tap_residual_predicates access) heap 0 rows) (\<lambda>n.
           return_op (no_result\<lparr>res_rows_affected := n\<rparr>))))))"

text \<open>\<open>assignment_col_idx\<close>: every assignment is checked and its column resolved before any row is read.\<close>

definition resolve_assignment :: "TableInfo \<Rightarrow> Assignment \<Rightarrow> exn + nat" where
  "resolve_assignment table a =
     bind_sum (RequireColumn table (asg_column_name a)) (\<lambda>col.
     bind_sum (RequireLiteralMatchesColumn table col (asg_value a)) (\<lambda>_.
     ColumnIndex table (asg_column_name a)))"

text \<open>The positions come from \<open>ColumnIndex\<close>, so they are within a decoded row and no update is out of range.\<close>

definition assign_values :: "(nat \<times> LiteralValue) list \<Rightarrow> LiteralValue list \<Rightarrow> LiteralValue list" where
  "assign_values assignments vals = fold (\<lambda>(i, v) vs. vs[i := v]) assignments vals"

primrec rewrite_rows :: "thread_id \<Rightarrow> catalog \<Rightarrow> TableInfo \<Rightarrow> ObjectId \<Rightarrow> ((RID \<times> LiteralValue list) \<times> LiteralValue list \<times> byte list) list \<Rightarrow> (database, unit) operation" where
  "rewrite_rows tid c table heap [] = return_op ()"
| "rewrite_rows tid c table heap (u # us) =
     bind_op (DeleteFromAllIndexes tid c table (snd (fst u)) (fst (fst u))) (\<lambda>_.
     bind_op (discard_op (engine_op (HeapFile_Delete tid heap (fst (fst u))))) (\<lambda>_.
     bind_op (engine_op (HeapFile_Insert tid heap (snd (snd u)))) (\<lambda>new_rid.
     bind_op (InsertIntoAllIndexes tid c table (fst (snd u)) new_rid) (\<lambda>_.
     rewrite_rows tid c table heap us))))"

definition ExecuteUpdate :: "thread_id \<Rightarrow> UpdateStatement \<Rightarrow> (database, ExecuteResult) operation" where
  "ExecuteUpdate tid stmt =
     bind_op get_op (\<lambda>db.
       case FindTable (db_catalog db) (upd_table_name stmt) of
         None \<Rightarrow> throw_op (Sql_semantic_error ''no such table'')
       | Some table \<Rightarrow>
           bind_op (lift_sum (map_sum_list (resolve_assignment table) (upd_assignments stmt))) (\<lambda>cols.
           bind_op (lift_sum (PlanTableAccess (db_catalog db) (upd_table_name stmt) (upd_where stmt))) (\<lambda>access.
           bind_op (bind_op (GetHeapFileForTable (upd_table_name stmt)) deref) (\<lambda>heap.
           bind_op (FetchCandidateRows tid access) (\<lambda>rows.
           bind_op (lift_sum (matching_rows table (tap_residual_predicates access) rows)) (\<lambda>matched.
           let new_values = map (assign_values (zip cols (map asg_value (upd_assignments stmt)))) (map snd matched) in
           bind_op (lift_sum (map_sum_list (EncodeRow (tab_columns table)) new_values)) (\<lambda>new_bytes.
           bind_op (ValidateUpdateBatch tid (db_catalog db) table matched new_values new_bytes) (\<lambda>_.
           bind_op (rewrite_rows tid (db_catalog db) table heap (zip matched (zip new_values new_bytes))) (\<lambda>_.
           return_op (no_result\<lparr>res_rows_affected := length matched\<rparr>))))))))))"

section \<open>SELECT\<close>

definition AppendColumnNames :: "TableInfo \<Rightarrow> string list \<Rightarrow> string list" where
  "AppendColumnNames table out = out @ map col_name (tab_columns table)"

definition project_row :: "TableInfo \<Rightarrow> ColumnRef list \<Rightarrow> LiteralValue list \<Rightarrow> exn + LiteralValue list" where
  "project_row table cols vals =
     map_sum_list (\<lambda>col. bind_sum (ColumnIndex table (ref_column_name col)) (value_at vals)) cols"

definition output_row :: "TableInfo \<Rightarrow> SelectPlan \<Rightarrow> LiteralValue list \<Rightarrow> exn + LiteralValue list" where
  "output_row table plan vals = (if sp_select_star plan then Inr vals else project_row table (sp_select_list plan) vals)"

fun select_rows :: "TableInfo \<Rightarrow> SelectPlan \<Rightarrow> Predicate list \<Rightarrow> (RID \<times> byte list) list \<Rightarrow> exn + LiteralValue list list" where
  "select_rows table plan residual [] = Inr []"
| "select_rows table plan residual ((rid, bytes) # rows) =
     bind_sum (DecodeRow (tab_columns table) bytes) (\<lambda>vals.
     bind_sum (MatchesAll table vals residual) (\<lambda>b.
     if \<not> b then select_rows table plan residual rows
     else bind_sum (output_row table plan vals) (\<lambda>out.
          bind_sum (select_rows table plan residual rows) (\<lambda>rest. Inr (out # rest)))))"

definition ExecuteSelectSingleTable :: "thread_id \<Rightarrow> SelectPlan \<Rightarrow> TableAccessPlan \<Rightarrow> (database, ExecuteResult) operation" where
  "ExecuteSelectSingleTable tid plan access =
     bind_op get_op (\<lambda>db.
       case FindTable (db_catalog db) (tap_table_name access) of
         None \<Rightarrow> throw_op null_pointer
       | Some table \<Rightarrow>
           let names = (if sp_select_star plan then AppendColumnNames table [] else map ref_column_name (sp_select_list plan)) in
           bind_op (FetchCandidateRows tid access) (\<lambda>rows.
           bind_op (lift_sum (select_rows table plan (tap_residual_predicates access) rows)) (\<lambda>out.
           return_op (no_result\<lparr>res_column_names := names, res_rows := out\<rparr>))))"

text \<open>The inner loop of the join for one outer row, over the candidate rows of the inner table.\<close>

definition join_row :: "TableInfo \<Rightarrow> TableInfo \<Rightarrow> SelectPlan \<Rightarrow> LiteralValue list \<Rightarrow> LiteralValue list \<Rightarrow> exn + LiteralValue list" where
  "join_row outer_table inner_table plan outer_values inner_values =
     (if sp_select_star plan then Inr (outer_values @ inner_values)
      else map_sum_list (\<lambda>col.
             if ref_table_name col = Some (tab_name outer_table)
             then bind_sum (ColumnIndex outer_table (ref_column_name col)) (value_at outer_values)
             else bind_sum (ColumnIndex inner_table (ref_column_name col)) (value_at inner_values)) (sp_select_list plan))"

fun join_inner :: "TableInfo \<Rightarrow> TableInfo \<Rightarrow> SelectPlan \<Rightarrow> JoinPlan \<Rightarrow> nat \<Rightarrow> nat \<Rightarrow> LiteralValue list \<Rightarrow> (RID \<times> byte list) list \<Rightarrow> exn + LiteralValue list list" where
  "join_inner ot it plan jp oi ii outer_values [] = Inr []"
| "join_inner ot it plan jp oi ii outer_values ((rid, bytes) # rows) =
     bind_sum (DecodeRow (tab_columns it) bytes) (\<lambda>inner_values.
     bind_sum (if jp_inner_method jp = kSeqScan
               then bind_sum (value_at outer_values oi) (\<lambda>a. bind_sum (value_at inner_values ii) (\<lambda>b. Inr (LiteralsEqual a b)))
               else Inr True) (\<lambda>eq.
     if \<not> eq then join_inner ot it plan jp oi ii outer_values rows
     else bind_sum (MatchesAll it inner_values (jp_inner_residual_predicates jp)) (\<lambda>b.
          if \<not> b then join_inner ot it plan jp oi ii outer_values rows
          else bind_sum (join_row ot it plan outer_values inner_values) (\<lambda>out.
               bind_sum (join_inner ot it plan jp oi ii outer_values rows) (\<lambda>rest. Inr (out # rest))))))"

definition inner_candidates :: "thread_id \<Rightarrow> JoinPlan \<Rightarrow> ObjectId \<Rightarrow> ObjectId option \<Rightarrow> (RID \<times> byte list) list \<Rightarrow> LiteralValue list \<Rightarrow> nat \<Rightarrow> (database, (RID \<times> byte list) list) operation" where
  "inner_candidates tid jp inner_heap inner_index inner_seq_rows outer_values oi =
     (if jp_inner_method jp = kIndexScan
      then bind_op (lift_sum (value_at outer_values oi)) (\<lambda>v.
           bind_op (deref inner_index) (\<lambda>index.
           bind_op (engine_op (BPlusTree_Search (engine_ops tid index) (lit_int_value v))) (\<lambda>rids.
           fetch_rows tid inner_heap rids)))
      else return_op inner_seq_rows)"

primrec join_outer :: "thread_id \<Rightarrow> TableInfo \<Rightarrow> TableInfo \<Rightarrow> SelectPlan \<Rightarrow> JoinPlan \<Rightarrow> nat \<Rightarrow> nat \<Rightarrow> ObjectId \<Rightarrow> ObjectId option \<Rightarrow>
    (RID \<times> byte list) list \<Rightarrow> (RID \<times> byte list) list \<Rightarrow> (database, LiteralValue list list) operation" where
  "join_outer tid ot it plan jp oi ii inner_heap inner_index inner_seq_rows [] = return_op []"
| "join_outer tid ot it plan jp oi ii inner_heap inner_index inner_seq_rows (row # rows) =
     bind_op (lift_sum (DecodeRow (tab_columns ot) (snd row))) (\<lambda>outer_values.
     bind_op (lift_sum (MatchesAll ot outer_values (tap_residual_predicates (jp_outer jp)))) (\<lambda>b.
     if \<not> b then join_outer tid ot it plan jp oi ii inner_heap inner_index inner_seq_rows rows
     else bind_op (inner_candidates tid jp inner_heap inner_index inner_seq_rows outer_values oi) (\<lambda>candidates.
          bind_op (lift_sum (join_inner ot it plan jp oi ii outer_values candidates)) (\<lambda>out.
          bind_op (join_outer tid ot it plan jp oi ii inner_heap inner_index inner_seq_rows rows) (\<lambda>rest.
          return_op (out @ rest))))))"

definition ExecuteSelectJoin :: "thread_id \<Rightarrow> SelectPlan \<Rightarrow> JoinPlan \<Rightarrow> (database, ExecuteResult) operation" where
  "ExecuteSelectJoin tid plan jp =
     bind_op get_op (\<lambda>db.
       case (FindTable (db_catalog db) (tap_table_name (jp_outer jp)), FindTable (db_catalog db) (jp_inner_table_name jp)) of
         (Some ot, Some it) \<Rightarrow>
           bind_op (lift_sum (ColumnIndex ot (jp_outer_join_column jp))) (\<lambda>oi.
           bind_op (lift_sum (ColumnIndex it (jp_inner_join_column jp))) (\<lambda>ii.
           let names = (if sp_select_star plan then AppendColumnNames it (AppendColumnNames ot [])
                        else map ref_column_name (sp_select_list plan)) in
           bind_op (bind_op (GetHeapFileForTable (jp_inner_table_name jp)) deref) (\<lambda>inner_heap.
           bind_op (if jp_inner_method jp = kIndexScan then GetIndexByName (jp_inner_index_name jp) else return_op None) (\<lambda>inner_index.
           bind_op (if jp_inner_method jp = kSeqScan then engine_op (HeapFile_Scan tid inner_heap) else return_op []) (\<lambda>inner_seq_rows.
           bind_op (FetchCandidateRows tid (jp_outer jp)) (\<lambda>rows.
           bind_op (join_outer tid ot it plan jp oi ii inner_heap inner_index inner_seq_rows rows) (\<lambda>out.
           return_op (no_result\<lparr>res_column_names := names, res_rows := out\<rparr>))))))))
       | _ \<Rightarrow> throw_op null_pointer)"

definition ExecuteSelect :: "thread_id \<Rightarrow> SelectStatement \<Rightarrow> (database, ExecuteResult) operation" where
  "ExecuteSelect tid stmt =
     bind_op get_op (\<lambda>db.
     bind_op (lift_sum (PlanSelect (db_catalog db) stmt)) (\<lambda>plan.
       case sp_access plan of
         Single_access access \<Rightarrow> ExecuteSelectSingleTable tid plan access
       | Join_access jp \<Rightarrow> ExecuteSelectJoin tid plan jp))"

fun ExecuteInCurrentTransaction :: "thread_id \<Rightarrow> Statement \<Rightarrow> (database, ExecuteResult) operation" where
  "ExecuteInCurrentTransaction tid (CreateTable_stmt s) = ExecuteCreateTable tid s"
| "ExecuteInCurrentTransaction tid (CreateIndex_stmt s) = ExecuteCreateIndex tid s"
| "ExecuteInCurrentTransaction tid (Insert_stmt s) = ExecuteInsert tid s"
| "ExecuteInCurrentTransaction tid (Select_stmt s) = ExecuteSelect tid s"
| "ExecuteInCurrentTransaction tid (Update_stmt s) = ExecuteUpdate tid s"
| "ExecuteInCurrentTransaction tid (Delete_stmt s) = ExecuteDelete tid s"
| "ExecuteInCurrentTransaction tid _ = throw_op (Logic_error ''ExecuteInCurrentTransaction'')"

end
