(* ===== verification/Session.thy ===== *)
theory Session
  imports Executor
begin

text \<open>
  The entry point of \<open>src/src/sql/session.h\<close> and \<open>session.cpp\<close>: \<open>BEGIN\<close>, \<open>COMMIT\<close> and \<open>ROLLBACK\<close> open and end the
  thread's transaction, schema changes run outside any, and every other statement joins the open
  transaction or runs in its own, committed on success and aborted on any exception.
\<close>

definition ExecuteBegin :: "thread_id \<Rightarrow> (database, ExecuteResult) operation" where
  "ExecuteBegin tid = bind_op (engine_op (Begin tid)) (\<lambda>_. return_op no_result)"

definition ExecuteCommit :: "thread_id \<Rightarrow> (database, ExecuteResult) operation" where
  "ExecuteCommit tid =
     bind_op get_op (\<lambda>db.
       case GetCurrentTransaction tid (db_engine db) of
         None \<Rightarrow> throw_op (Logic_error ''COMMIT: no active transaction on this thread'')
       | Some txn \<Rightarrow> bind_op (engine_op (Commit tid txn)) (\<lambda>_. return_op no_result))"

definition ExecuteRollback :: "thread_id \<Rightarrow> (database, ExecuteResult) operation" where
  "ExecuteRollback tid =
     bind_op get_op (\<lambda>db.
       case GetCurrentTransaction tid (db_engine db) of
         None \<Rightarrow> throw_op (Logic_error ''ROLLBACK: no active transaction on this thread'')
       | Some txn \<Rightarrow> bind_op (engine_op (Abort tid txn)) (\<lambda>_. return_op no_result))"

text \<open>
  The \<open>try\<close> block of the implicit transaction. \<open>Abort\<close> runs in the handler; when it throws itself, its
  exception replaces the one being handled.
\<close>

definition autocommit :: "thread_id \<Rightarrow> Statement \<Rightarrow> (database, ExecuteResult) operation" where
  "autocommit tid stmt =
     bind_op (engine_op (Begin tid)) (\<lambda>txn db.
       case bind_op (ExecuteInCurrentTransaction tid stmt) (\<lambda>result.
              bind_op (engine_op (Commit tid txn)) (\<lambda>_. return_op result)) db of
         (Inr result, db') \<Rightarrow> (Inr result, db')
       | (Inl e, db') \<Rightarrow>
           (case engine_op (Abort tid txn) db' of
              (Inl e', db'') \<Rightarrow> (Inl e', db'')
            | (Inr _, db'') \<Rightarrow> (Inl e, db'')))"

definition Execute :: "thread_id \<Rightarrow> Statement \<Rightarrow> (database, ExecuteResult) operation" where
  "Execute tid stmt db =
     (case stmt of
        BeginStatement \<Rightarrow> ExecuteBegin tid db
      | CommitStatement \<Rightarrow> ExecuteCommit tid db
      | RollbackStatement \<Rightarrow> ExecuteRollback tid db
      | CreateTable_stmt _ \<Rightarrow> ExecuteInCurrentTransaction tid stmt db
      | CreateIndex_stmt _ \<Rightarrow> ExecuteInCurrentTransaction tid stmt db
      | _ \<Rightarrow> if GetCurrentTransaction tid (db_engine db) \<noteq> None then ExecuteInCurrentTransaction tid stmt db
             else autocommit tid stmt db)"

end
