(* ===== verification/Btree_Tree.thy ===== *)
theory Btree_Tree
  imports Btree
begin

text \<open>
  What the pages of a B+-tree stand for. A tree is a leaf with its entries and its successor, or an
  internal node with separators and children, each with its page id. \<open>stored\<close> says that a tree is what
  the pages hold; \<open>bt_inv\<close> is the search-tree invariant, with uniform depth, capacities, strict separators
  and the leaf chain in one predicate. The lemmas here are about trees only; the locale \<open>page_store\<close> is the
  interface through which the operations reach the pages, and carries their proofs.
\<close>

section \<open>Trees\<close>

datatype bt = Lf (bt_id: PageId) PageId "(int64 \<times> RID) list" | Nd (bt_id: PageId) "int64 list" "bt list"

primrec bt_ids :: "bt \<Rightarrow> PageId list" where
  "bt_ids (Lf p nx es) = [p]"
| "bt_ids (Nd p ks cs) = p # concat (map bt_ids cs)"

primrec bt_entries :: "bt \<Rightarrow> (int64 \<times> RID) list" where
  "bt_entries (Lf p nx es) = es"
| "bt_entries (Nd p ks cs) = concat (map bt_entries cs)"

primrec first_leaf :: "bt \<Rightarrow> PageId" where
  "first_leaf (Lf p nx es) = p"
| "first_leaf (Nd p ks cs) = (case map first_leaf cs of [] \<Rightarrow> p | q # _ \<Rightarrow> q)"

fun stored :: "(PageId \<rightharpoonup> page) \<Rightarrow> bt \<Rightarrow> bool" where
  "stored m (Lf p nx es) \<longleftrightarrow>
     (\<exists>pg. m p = Some pg \<and> is_leaf pg \<and>
       DeserializeLeaf pg = \<lparr>leaf_page_id = p, leaf_next_leaf = nx, leaf_keys = map fst es, leaf_values = map snd es\<rparr>)"
| "stored m (Nd p ks cs) \<longleftrightarrow>
     (\<exists>pg. m p = Some pg \<and> \<not> is_leaf pg \<and>
       DeserializeInternal pg = \<lparr>node_page_id = p, node_keys = ks, node_children = map bt_id cs\<rparr>) \<and>
     (\<forall>c \<in> set cs. stored m c)"

lemma stored_cong: "(\<And>q. q \<in> set (bt_ids t) \<Longrightarrow> m q = m' q) \<Longrightarrow> stored m t = stored m' t"
  by (induction t) auto

lemma stored_dom: "stored m t \<Longrightarrow> set (bt_ids t) \<subseteq> dom m"
  by (induction t) auto

lemma bt_id_mem [simp]: "bt_id t \<in> set (bt_ids t)"
  by (cases t) auto

lemma stored_leaf: "stored m (Lf p nx es) \<Longrightarrow> \<exists>pg. m p = Some pg \<and> is_leaf pg"
  and stored_node: "stored m (Nd p ks cs) \<Longrightarrow> \<exists>pg. m p = Some pg \<and> \<not> is_leaf pg"
  by auto

section \<open>Sequences of labelled children\<close>

text \<open>
  The children of a node with the least key each may hold. \<open>next_label\<close> and \<open>next_first\<close> are what follows a
  child: the label and the first leaf of the next one, or what the parent says at the end.
\<close>

type_synonym items = "(int \<times> bt) list"

fun next_label :: "int \<Rightarrow> items \<Rightarrow> int" where
  "next_label hi [] = hi"
| "next_label hi ((l, c) # xs) = l"

fun next_first :: "PageId \<Rightarrow> items \<Rightarrow> PageId" where
  "next_first nx [] = nx"
| "next_first nx ((l, c) # xs) = first_leaf c"

fun seq_all :: "(int \<Rightarrow> int \<Rightarrow> PageId \<Rightarrow> bt \<Rightarrow> bool) \<Rightarrow> int \<Rightarrow> PageId \<Rightarrow> items \<Rightarrow> bool" where
  "seq_all P hi nx [] = True"
| "seq_all P hi nx ((l, c) # xs) = (P l (next_label hi xs) (next_first nx xs) c \<and> seq_all P hi nx xs)"

definition items :: "int \<Rightarrow> int64 list \<Rightarrow> bt list \<Rightarrow> items" where
  "items lo ks cs = zip (lo # map sint ks) cs"

lemma next_append [simp]:
  "next_label hi (xs @ ys) = next_label (next_label hi ys) xs" "next_first nx (xs @ ys) = next_first (next_first nx ys) xs"
  by (cases xs; force)+

lemma seq_all_append [simp]:
  "seq_all P hi nx (xs @ ys) \<longleftrightarrow> seq_all P (next_label hi ys) (next_first nx ys) xs \<and> seq_all P hi nx ys"
  by (induction xs) auto

lemma seq_all_mono:
  "seq_all P hi nx xs \<Longrightarrow> (\<And>l u q c. (l, c) \<in> set xs \<Longrightarrow> P l u q c \<Longrightarrow> Q l u q c) \<Longrightarrow> seq_all Q hi nx xs"
  by (induction xs) auto

section \<open>The invariant\<close>

fun bt_full :: "bt \<Rightarrow> bool" where
  "bt_full (Lf p nx es) \<longleftrightarrow> es \<noteq> []"
| "bt_full (Nd p ks cs) \<longleftrightarrow> ks \<noteq> []"

fun leaf_inv :: "int \<Rightarrow> int \<Rightarrow> PageId \<Rightarrow> bt \<Rightarrow> bool" where
  "leaf_inv lo hi nx (Lf p n es) \<longleftrightarrow>
     n = nx \<and> length es \<le> kLeafMaxKeys \<and> sorted (map (\<lambda>e. sint (fst e)) es) \<and>
     (\<forall>e \<in> set es. lo \<le> sint (fst e) \<and> sint (fst e) < hi)"
| "leaf_inv lo hi nx (Nd p ks cs) \<longleftrightarrow> False"

fun node_inv :: "(int \<Rightarrow> int \<Rightarrow> PageId \<Rightarrow> bt \<Rightarrow> bool) \<Rightarrow> int \<Rightarrow> int \<Rightarrow> PageId \<Rightarrow> bt \<Rightarrow> bool" where
  "node_inv P lo hi nx (Lf p n es) \<longleftrightarrow> False"
| "node_inv P lo hi nx (Nd p ks cs) \<longleftrightarrow>
     length cs = Suc (length ks) \<and> length ks \<le> kInternalMaxKeys \<and> seq_all P hi nx (items lo ks cs)"

text \<open>\<open>bt_pre\<close> lets the root of the subtree be empty, as a deletion may leave it for its parent to mend.\<close>

primrec bt_pre :: "nat \<Rightarrow> int \<Rightarrow> int \<Rightarrow> PageId \<Rightarrow> bt \<Rightarrow> bool" where
  "bt_pre 0 lo hi nx t \<longleftrightarrow> leaf_inv lo hi nx t"
| "bt_pre (Suc h) lo hi nx t \<longleftrightarrow> node_inv (\<lambda>l u q c. bt_pre h l u q c \<and> bt_full c) lo hi nx t"

definition bt_inv :: "nat \<Rightarrow> int \<Rightarrow> int \<Rightarrow> PageId \<Rightarrow> bt \<Rightarrow> bool" where
  "bt_inv h lo hi nx t \<longleftrightarrow> bt_pre h lo hi nx t \<and> bt_full t"

lemma bt_pre_Suc: "bt_pre (Suc h) lo hi nx t \<longleftrightarrow> node_inv (bt_inv h) lo hi nx t"
  by (cases t) (simp_all add: bt_inv_def [abs_def])

lemma bt_pre_Suc_Nd:
  "bt_pre (Suc h) lo hi nx (Nd p ks cs) \<longleftrightarrow>
     length cs = Suc (length ks) \<and> length ks \<le> kInternalMaxKeys \<and> seq_all (bt_inv h) hi nx (items lo ks cs)"
  by (simp only: bt_pre_Suc node_inv.simps)

declare bt_pre.simps(2) [simp del]

lemma bt_inv_0: "bt_inv 0 lo hi nx t \<longleftrightarrow> (\<exists>p es. t = Lf p nx es \<and> es \<noteq> [] \<and> leaf_inv lo hi nx t)"
  by (cases t) (auto simp: bt_inv_def)

lemma bt_inv_Suc:
  "bt_inv (Suc h) lo hi nx t \<longleftrightarrow> (\<exists>p ks cs. t = Nd p ks cs \<and> ks \<noteq> [] \<and> bt_pre (Suc h) lo hi nx t)"
  by (cases t) (auto simp: bt_inv_def bt_pre_Suc)

lemma items_Cons: "items lo ks (c # cs) = (lo, c) # zip (map sint ks) cs"
  by (simp add: items_def)

lemma map_snd_items: "length cs = Suc (length ks) \<Longrightarrow> map snd (items lo ks cs) = cs"
  by (simp add: items_def)

lemma length_items: "length cs = Suc (length ks) \<Longrightarrow> length (items lo ks cs) = Suc (length ks)"
  by (simp add: items_def)

text \<open>Every child of a valid sequence starts below its end, so the labels increase strictly.\<close>

lemma seq_labels:
  assumes "seq_all (bt_inv h) hi nx xs" and "\<forall>l u q c. bt_inv h l u q c \<longrightarrow> l < u"
  shows "\<forall>(l, c) \<in> set xs. next_label hi xs \<le> l \<and> l < hi" and "next_label hi xs \<le> hi"
    and "sorted_wrt (<) (map fst xs)"
proof -
  have "(\<forall>(l, c) \<in> set xs. next_label hi xs \<le> l \<and> l < hi) \<and> next_label hi xs \<le> hi \<and> sorted_wrt (<) (map fst xs)"
    using assms(1)
  proof (induction xs)
    case (Cons x xs)
    obtain l c where x: "x = (l, c)" by (cases x)
    with Cons.prems have "l < next_label hi xs" using assms(2) by auto
    with Cons x show ?case by fastforce
  qed simp
  then show "\<forall>(l, c) \<in> set xs. next_label hi xs \<le> l \<and> l < hi" "next_label hi xs \<le> hi" "sorted_wrt (<) (map fst xs)"
    by simp_all
qed

lemma bt_inv_bounds:
  "bt_inv h lo hi nx t \<Longrightarrow> lo < hi \<and> bt_entries t \<noteq> [] \<and> (\<forall>e \<in> set (bt_entries t). lo \<le> sint (fst e) \<and> sint (fst e) < hi)"
proof (induction h arbitrary: lo hi nx t)
  case 0
  then obtain p es where t: "t = Lf p nx es" "es \<noteq> []" "leaf_inv lo hi nx t" by (auto simp: bt_inv_0)
  then have "lo \<le> sint (fst (hd es)) \<and> sint (fst (hd es)) < hi" by auto
  then have "lo < hi" by linarith
  with t show ?case by auto
next
  case (Suc h)
  obtain p ks cs where t: "t = Nd p ks cs" and len: "length cs = Suc (length ks)" and seq: "seq_all (bt_inv h) hi nx (items lo ks cs)"
    using Suc.prems by (auto simp: bt_inv_Suc bt_pre_Suc_Nd)
  have lt: "\<forall>l u q c. bt_inv h l u q c \<longrightarrow> l < u" using Suc.IH by blast
  note lab = seq_labels [OF seq lt]
  obtain c cs' where cs: "cs = c # cs'" using len by (cases cs) auto
  have each: "bt_entries d \<noteq> [] \<and> (\<forall>e \<in> set (bt_entries d). lo \<le> sint (fst e) \<and> sint (fst e) < hi)"
    if "d \<in> set cs" for d
  proof -
    from that len obtain l where "(l, d) \<in> set (items lo ks cs)" using map_snd_items [OF len, of lo] by (metis in_set_impl_in_set_zip2 items_def length_Cons length_map)
    then obtain xs ys where xs: "items lo ks cs = xs @ (l, d) # ys" by (meson split_list)
    with seq have d: "bt_inv h l (next_label hi ys) (next_first nx ys) d" by simp
    have "(l, d) \<in> set (items lo ks cs)" using xs by simp
    then have "next_label hi (items lo ks cs) \<le> l" using lab(1) by blast
    then have "lo \<le> l" by (simp add: cs items_Cons)
    moreover have "next_label hi ys \<le> hi"
    proof -
      from seq xs have "seq_all (bt_inv h) hi nx ys" by simp
      from seq_labels(2) [OF this lt] show ?thesis .
    qed
    ultimately show ?thesis using Suc.IH [OF d] by fastforce
  qed
  moreover have "lo < hi" using lab(1) cs by (auto simp: items_Cons)
  ultimately show ?case using cs by (auto simp: t)
qed

lemmas bt_inv_less = bt_inv_bounds [THEN conjunct1]

lemma bt_inv_lt: "\<forall>l u q c. bt_inv h l u q c \<longrightarrow> l < u"
  using bt_inv_less by blast

lemmas seq_inv_labels = seq_labels [OF _ bt_inv_lt]

section \<open>Entries of a sequence\<close>

abbreviation seq_entries :: "items \<Rightarrow> (int64 \<times> RID) list" where
  "seq_entries xs \<equiv> concat (map (\<lambda>x. bt_entries (snd x)) xs)"

abbreviation seq_ids :: "items \<Rightarrow> PageId list" where
  "seq_ids xs \<equiv> concat (map (\<lambda>x. bt_ids (snd x)) xs)"

lemma node_entries: "length cs = Suc (length ks) \<Longrightarrow> bt_entries (Nd p ks cs) = seq_entries (items lo ks cs)"
  using map_snd_items [of cs ks lo] by (metis (no_types, lifting) bt_entries.simps(2) comp_apply map_eq_conv map_map)

lemma node_ids: "length cs = Suc (length ks) \<Longrightarrow> bt_ids (Nd p ks cs) = p # seq_ids (items lo ks cs)"
  using map_snd_items [of cs ks lo] by (metis (no_types, lifting) bt_ids.simps(2) comp_apply map_eq_conv map_map)

lemma seq_bounds:
  assumes "seq_all (bt_inv h) hi nx xs"
  shows "\<forall>e \<in> set (seq_entries xs). next_label hi xs \<le> sint (fst e) \<and> sint (fst e) < hi"
  using assms
proof (induction xs)
  case (Cons x xs)
  obtain l c where x: "x = (l, c)" by (cases x)
  with Cons.prems have c: "bt_inv h l (next_label hi xs) (next_first nx xs) c" and xs: "seq_all (bt_inv h) hi nx xs" by auto
  from bt_inv_bounds [OF c] seq_inv_labels(2) [OF xs] Cons.IH [OF xs] x show ?case by fastforce
qed simp

lemma seq_sorted:
  assumes "seq_all (bt_inv h) hi nx xs" and "\<And>l u q c. bt_inv h l u q c \<Longrightarrow> sorted (map (\<lambda>e. sint (fst e)) (bt_entries c))"
  shows "sorted (map (\<lambda>e. sint (fst e)) (seq_entries xs))"
  using assms(1)
proof (induction xs)
  case (Cons x xs)
  obtain l c where x: "x = (l, c)" by (cases x)
  with Cons.prems have c: "bt_inv h l (next_label hi xs) (next_first nx xs) c" and xs: "seq_all (bt_inv h) hi nx xs" by auto
  from bt_inv_bounds [OF c] seq_bounds [OF xs] Cons.IH [OF xs] assms(2) [OF c] x show ?case
    by (fastforce simp: sorted_append)
qed simp

lemma bt_inv_sorted: "bt_inv h lo hi nx t \<Longrightarrow> sorted (map (\<lambda>e. sint (fst e)) (bt_entries t))"
proof (induction h arbitrary: lo hi nx t)
  case (Suc h)
  obtain p ks cs where t: "t = Nd p ks cs" and len: "length cs = Suc (length ks)" and seq: "seq_all (bt_inv h) hi nx (items lo ks cs)"
    using Suc.prems by (auto simp: bt_inv_Suc bt_pre_Suc_Nd)
  show ?case unfolding t node_entries [OF len, of _ lo] by (rule seq_sorted [OF seq Suc.IH])
qed (auto simp: bt_inv_0)

section \<open>Routing\<close>

text \<open>The child that \<open>upper_bound\<close> selects, with its label, and the children before and after it.\<close>

lemma route:
  assumes len: "length cs = Suc (length ks)" and key: "lo \<le> sint key" "sint key < hi"
  obtains xs l c ys where "items lo ks cs = xs @ (l, c) # ys" "length xs = upper_bound ks key"
    "l \<le> sint key" "sint key < next_label hi ys" "cs ! upper_bound ks key = c" "upper_bound ks key < length cs"
proof -
  let ?i = "upper_bound ks key"
  have i: "?i \<le> length ks" by (simp add: upper_bound_def length_takeWhile_le)
  have n: "?i < length (items lo ks cs)" using i len by (simp add: length_items)
  let ?l = "(lo # map sint ks) ! ?i"
  have split: "items lo ks cs = take ?i (items lo ks cs) @ (?l, cs ! ?i) # drop (Suc ?i) (items lo ks cs)"
    using id_take_nth_drop [OF n] n len i by (simp add: items_def)
  have "?l \<le> sint key"
  proof (cases ?i)
    case (Suc j)
    then have "ks ! j \<in> set (takeWhile (\<lambda>k. sint k \<le> sint key) ks)" and j: "j < length ks"
      using i takeWhile_nth [of j "\<lambda>k. sint k \<le> sint key" ks] nth_mem [of j "takeWhile (\<lambda>k. sint k \<le> sint key) ks"]
      by (simp_all add: upper_bound_def)
    then have "sint (ks ! j) \<le> sint key" by (auto dest: set_takeWhileD)
    with Suc j show ?thesis by simp
  qed (use key in simp)
  moreover have "sint key < next_label hi (drop (Suc ?i) (items lo ks cs))"
  proof (cases "?i < length ks")
    case True
    then have "\<not> sint (ks ! ?i) \<le> sint key" using nth_length_takeWhile [of "\<lambda>k. sint k \<le> sint key" ks] by (simp add: upper_bound_def)
    moreover have "drop (Suc ?i) (items lo ks cs) = (sint (ks ! ?i), cs ! Suc ?i) # drop (Suc (Suc ?i)) (items lo ks cs)"
      using True len by (simp add: items_def Cons_nth_drop_Suc [symmetric])
    ultimately show ?thesis by simp
  next
    case False
    with i len key show ?thesis by (simp add: items_def)
  qed
  moreover have "length (take ?i (items lo ks cs)) = ?i" using n by simp
  ultimately show thesis using split n len i by (intro that [of "take ?i (items lo ks cs)" ?l "cs ! ?i"]) simp_all
qed

lemma seq_around:
  assumes seq: "seq_all (bt_inv h) hi nx (xs @ (l, c) # ys)" and key: "l \<le> sint key" "sint key < next_label hi ys"
  shows "\<forall>e \<in> set (seq_entries xs). sint (fst e) < sint key" and "\<forall>e \<in> set (seq_entries ys). sint key < sint (fst e)"
proof -
  from seq have xs: "seq_all (bt_inv h) l (first_leaf c) xs" and ys: "seq_all (bt_inv h) hi nx ys" by simp_all
  from seq_bounds [OF xs] key show "\<forall>e \<in> set (seq_entries xs). sint (fst e) < sint key" by fastforce
  from seq_bounds [OF ys] key show "\<forall>e \<in> set (seq_entries ys). sint key < sint (fst e)" by fastforce
qed

text \<open>The values under a key, and the place of a new entry: after every entry with the same key.\<close>

definition values_of :: "int64 \<Rightarrow> (int64 \<times> RID) list \<Rightarrow> RID list" where
  "values_of key es = map snd (filter (\<lambda>e. fst e = key) es)"

definition insert_entry :: "int64 \<Rightarrow> RID \<Rightarrow> (int64 \<times> RID) list \<Rightarrow> (int64 \<times> RID) list" where
  "insert_entry key rid es =
     takeWhile (\<lambda>e. sint (fst e) \<le> sint key) es @ (key, rid) # dropWhile (\<lambda>e. sint (fst e) \<le> sint key) es"

lemma values_of_append [simp]: "values_of key (xs @ ys) = values_of key xs @ values_of key ys"
  by (simp add: values_of_def)

lemma values_of_none: "\<forall>e \<in> set es. sint (fst e) \<noteq> sint key \<Longrightarrow> values_of key es = []"
  by (auto simp: values_of_def filter_empty_conv)

lemma insert_entry_skip: "\<forall>e \<in> set xs. sint (fst e) \<le> sint key \<Longrightarrow> insert_entry key rid (xs @ ys) = xs @ insert_entry key rid ys"
  by (simp add: insert_entry_def)

lemma insert_entry_before: "\<forall>e \<in> set ys. sint key < sint (fst e) \<Longrightarrow> insert_entry key rid (xs @ ys) = insert_entry key rid xs @ ys"
proof (induction xs)
  case Nil
  then show ?case by (cases ys) (simp_all add: insert_entry_def)
qed (simp_all add: insert_entry_def)

lemma insert_entry_around:
  assumes "seq_all (bt_inv h) hi nx (xs @ (l, c) # ys)" and "l \<le> sint key" "sint key < next_label hi ys"
  shows "insert_entry key rid (seq_entries (xs @ (l, c) # ys)) = seq_entries xs @ insert_entry key rid (bt_entries c) @ seq_entries ys"
proof -
  have "\<forall>e \<in> set (seq_entries xs). sint (fst e) \<le> sint key" using seq_around(1) [OF assms] by (meson less_imp_le)
  from insert_entry_skip [OF this] insert_entry_before [OF seq_around(2) [OF assms]] show ?thesis by simp
qed

lemma insert_entry_sorted:
  assumes "sorted (map (\<lambda>e. sint (fst e)) es)"
  shows "sorted (map (\<lambda>e. sint (fst e)) (insert_entry key rid es))" and "set (insert_entry key rid es) = insert (key, rid) (set es)"
    and "length (insert_entry key rid es) = Suc (length es)"
proof -
  let ?P = "\<lambda>e :: int64 \<times> RID. sint (fst e) \<le> sint key"
  have es: "es = takeWhile ?P es @ dropWhile ?P es" by simp
  have gt: "\<forall>e \<in> set (dropWhile ?P es). sint key < sint (fst e)"
  proof
    fix e assume e: "e \<in> set (dropWhile ?P es)"
    then have ne: "dropWhile ?P es \<noteq> []" by (cases "dropWhile ?P es") simp_all
    have "sorted (map (\<lambda>e. sint (fst e)) (takeWhile ?P es @ dropWhile ?P es))" using assms by simp
    then have "sorted (map (\<lambda>e. sint (fst e)) (dropWhile ?P es))" by (simp only: map_append sorted_append)
    with e ne have "sint (fst (hd (dropWhile ?P es))) \<le> sint (fst e)" by (cases "dropWhile ?P es") auto
    with hd_dropWhile [OF ne] show "sint key < sint (fst e)" by simp
  qed
  have le: "\<forall>e \<in> set (takeWhile ?P es). sint (fst e) \<le> sint key" by (auto dest: set_takeWhileD)
  show "sorted (map (\<lambda>e. sint (fst e)) (insert_entry key rid es))"
  proof -
    have "sorted (map (\<lambda>e. sint (fst e)) (takeWhile ?P es @ dropWhile ?P es))" using assms by simp
    then have s: "sorted (map (\<lambda>e. sint (fst e)) (takeWhile ?P es))" "sorted (map (\<lambda>e. sint (fst e)) (dropWhile ?P es))"
      by (simp_all only: map_append sorted_append)
    from gt le have cross: "\<forall>a \<in> set (takeWhile ?P es). \<forall>b \<in> set (dropWhile ?P es). sint (fst a) \<le> sint (fst b)" by fastforce
    show ?thesis unfolding insert_entry_def
      using s gt le cross by (auto simp: sorted_append dest: less_imp_le)
  qed
  have "set es = set (takeWhile ?P es) \<union> set (dropWhile ?P es)" by (metis es set_append)
  then show "set (insert_entry key rid es) = insert (key, rid) (set es)" by (simp add: insert_entry_def)
  have "length es = length (takeWhile ?P es) + length (dropWhile ?P es)" by (metis es length_append)
  then show "length (insert_entry key rid es) = Suc (length es)" by (simp add: insert_entry_def)
qed

end
