(* ===== verification/Btree_Store.thy ===== *)
theory Btree_Store
  imports Btree_Tree
begin

text \<open>
  The interface between the B+-tree and its pages, as a locale: what locking, fetching, allocating,
  writing and marking a page promise. \<open>ends\<close> is the outcome of a call: it fails with an error that the
  pages may raise (a lost lock request, a full disk) or its result and state satisfy a property.
  The reading operations are proved once in the locale; the engine's pages are its interpretation.
\<close>

definition ends :: "(exn \<Rightarrow> bool) \<Rightarrow> ('s, 'a) operation \<Rightarrow> 's \<Rightarrow> ('a \<Rightarrow> 's \<Rightarrow> bool) \<Rightarrow> bool" where
  "ends may_fail f s Q = (case f s of (Inl e, _) \<Rightarrow> may_fail e | (Inr x, s') \<Rightarrow> Q x s')"

lemma ends_return [simp]: "ends mf (return_op x) s Q = Q x s"
  by (simp add: ends_def)

lemma ends_Pair [simp]: "ends mf (Pair (Inr x)) s Q = Q x s"
  by (simp add: ends_def)

lemma ends_bind [simp]: "ends mf (bind_op f g) s Q = ends mf f s (\<lambda>x s'. ends mf (g x) s' Q)"
  by (auto simp: ends_def bind_op_def split: prod.splits sum.splits)

lemma ends_mono: "ends mf f s P \<Longrightarrow> (\<And>x s'. P x s' \<Longrightarrow> Q x s') \<Longrightarrow> ends mf f s Q"
  by (auto simp: ends_def split: prod.splits sum.splits)

lemma ends_Inr: "ends mf f s Q \<Longrightarrow> f s = (Inr x, s') \<Longrightarrow> Q x s'"
  by (simp add: ends_def)

lemma ends_Inl: "ends mf f s Q \<Longrightarrow> f s = (Inl e, s') \<Longrightarrow> mf e"
  by (simp add: ends_def)

lemma ends_let [simp]: "ends mf (let x = a in f x) s Q = (let x = a in ends mf (f x) s Q)"
  by (simp add: Let_def)

section \<open>Leaves and height\<close>

text \<open>The leaves of a tree in key order, and that each points to the next.\<close>

primrec bt_leaves :: "bt \<Rightarrow> bt list" where
  "bt_leaves (Lf p nx es) = [Lf p nx es]"
| "bt_leaves (Nd p ks cs) = concat (map bt_leaves cs)"

fun linked :: "PageId \<Rightarrow> bt list \<Rightarrow> bool" where
  "linked nx [] \<longleftrightarrow> True"
| "linked nx (l # ls) \<longleftrightarrow> (\<exists>p es. l = Lf p (case ls of [] \<Rightarrow> nx | l' # _ \<Rightarrow> bt_id l') es) \<and> linked nx ls"

lemma linked_append:
  "linked nx (xs @ ys) \<longleftrightarrow> linked (case ys of [] \<Rightarrow> nx | y # _ \<Rightarrow> bt_id y) xs \<and> linked nx ys"
proof (induction xs)
  case (Cons x xs)
  then show ?case by (cases xs; cases ys) auto
qed simp

lemma bt_leaves_facts:
  "bt_inv h lo hi nx t \<Longrightarrow> linked nx (bt_leaves t) \<and> 2 ^ h \<le> length (bt_leaves t) \<and> bt_id (hd (bt_leaves t)) = first_leaf t"
proof (induction h arbitrary: lo hi nx t)
  case 0
  then show ?case by (auto simp: bt_inv_0)
next
  case (Suc h)
  obtain p ks cs where t: "t = Nd p ks cs" and ks: "ks \<noteq> []" and len: "length cs = Suc (length ks)"
    and seq: "seq_all (bt_inv h) hi nx (items lo ks cs)"
    using Suc.prems by (auto simp: bt_inv_Suc bt_pre_Suc_Nd)
  have main: "linked nx (concat (map (\<lambda>x. bt_leaves (snd x)) xs)) \<and> length xs * 2 ^ h \<le> length (concat (map (\<lambda>x. bt_leaves (snd x)) xs)) \<and>
      (xs \<noteq> [] \<longrightarrow> concat (map (\<lambda>x. bt_leaves (snd x)) xs) \<noteq> [] \<and>
        bt_id (hd (concat (map (\<lambda>x. bt_leaves (snd x)) xs))) = first_leaf (snd (hd xs)))"
    if "seq_all (bt_inv h) hi nx xs" for xs
    using that
  proof (induction xs)
    case (Cons x xs)
    obtain l c where x: "x = (l, c)" by (cases x)
    with Cons.prems have c: "bt_inv h l (next_label hi xs) (next_first nx xs) c" and xs: "seq_all (bt_inv h) hi nx xs" by auto
    note IHc = Suc.IH [OF c] and IHx = Cons.IH [OF xs]
    have ne: "bt_leaves c \<noteq> []" using IHc by (cases "bt_leaves c") auto
    have "(case concat (map (\<lambda>x. bt_leaves (snd x)) xs) of [] \<Rightarrow> nx | y # _ \<Rightarrow> bt_id y) = next_first nx xs"
      using IHx by (cases xs; cases "concat (map (\<lambda>x. bt_leaves (snd x)) xs)") auto
    with IHc IHx ne x show ?case by (simp add: linked_append)
  qed simp
  obtain c cs' where cs: "cs = c # cs'" using len by (cases cs) auto
  have m: "map (\<lambda>x. bt_leaves (snd x)) (items lo ks cs) = map bt_leaves cs"
    using map_snd_items [OF len, of lo] by (metis (mono_tags, lifting) comp_apply map_eq_conv map_map)
  have "2 \<le> length cs" using len ks by (cases ks) auto
  then have two: "2 * 2 ^ h \<le> length cs * 2 ^ h" by simp
  have "length cs * 2 ^ h \<le> length (bt_leaves t)" using main [OF seq] m len by (simp add: t length_items)
  with two have "2 ^ Suc h \<le> length (bt_leaves t)" unfolding power_Suc by (rule order_trans)
  moreover have "linked nx (bt_leaves t)" "bt_id (hd (bt_leaves t)) = first_leaf t"
    using main [OF seq] m cs by (simp_all add: t items_Cons)
  ultimately show ?case by simp
qed

lemma bt_leaves_stored:
  "stored m t \<Longrightarrow> l \<in> set (bt_leaves t) \<Longrightarrow> stored m l" "l \<in> set (bt_leaves t) \<Longrightarrow> bt_id l \<in> set (bt_ids t)"
  "concat (map bt_entries (bt_leaves t)) = bt_entries t" "length (bt_leaves t) \<le> length (bt_ids t)"
proof -
  show "stored m t \<Longrightarrow> l \<in> set (bt_leaves t) \<Longrightarrow> stored m l" by (induction t) auto
  show "l \<in> set (bt_leaves t) \<Longrightarrow> bt_id l \<in> set (bt_ids t)" by (induction t) auto
  show "concat (map bt_entries (bt_leaves t)) = bt_entries t"
  proof (induction t)
    case (Nd p ks cs)
    then show ?case by (induction cs) auto
  qed simp
  show "length (bt_leaves t) \<le> length (bt_ids t)"
  proof (induction t)
    case (Nd p ks cs)
    then have "length (concat (map bt_leaves cs)) \<le> length (concat (map bt_ids cs))" by (induction cs) (auto simp: add_mono)
    then show ?case by simp
  qed simp
qed

text \<open>Page ids are 32 bits wide and every internal node has two children, so a tree has at most 32 levels of them.\<close>

lemma bt_height_bound: "bt_inv h lo hi nx t \<Longrightarrow> distinct (bt_ids t) \<Longrightarrow> h \<le> 32"
proof -
  assume a: "bt_inv h lo hi nx t" "distinct (bt_ids t)"
  have "2 ^ h \<le> length (bt_ids t)" using bt_leaves_facts [OF a(1)] bt_leaves_stored(4) [of t] by linarith
  also have "\<dots> = card (set (bt_ids t))" using a(2) by (simp add: distinct_card)
  also have "\<dots> \<le> card (UNIV :: PageId set)" by (intro card_mono) simp_all
  also have "\<dots> = 2 ^ 32" by (simp add: card_word)
  finally have "(2 :: nat) ^ h \<le> 2 ^ 32" .
  then show "h \<le> 32" by (rule power_le_imp_le_exp [rotated]) simp
qed

section \<open>The interface\<close>

locale page_store =
  fixes ops :: "'s page_ops" and pages :: "'s \<Rightarrow> PageId \<rightharpoonup> page" and ok :: "PageId set \<Rightarrow> 's \<Rightarrow> bool"
    and rest :: "'s \<Rightarrow> 'r" and may_fail :: "exn \<Rightarrow> bool"
  assumes lock_law: "ok D s \<Longrightarrow> po_lock ops pid mode s = (x, s') \<Longrightarrow>
      (case x of Inl e \<Rightarrow> may_fail e | Inr _ \<Rightarrow> ok D s' \<and> pages s' = pages s \<and> rest s' = rest s)"
    and fetch_law: "ok D s \<Longrightarrow> pages s pid = Some p \<Longrightarrow>
      \<exists>s'. po_fetch ops pid s = (Inr p, s') \<and> ok D s' \<and> pages s' = pages s \<and> rest s' = rest s"
    and new_law: "ok {} s \<Longrightarrow> card (dom (pages s)) + 1 < 2 ^ 32 \<Longrightarrow> po_new ops s = (y, s') \<Longrightarrow>
      (case y of Inl e \<Rightarrow> may_fail e
       | Inr pid \<Rightarrow> ok {} s' \<and> pages s pid = None \<and> pid \<noteq> INVALID_PAGE_ID \<and> pages s' = (pages s)(pid \<mapsto> blank_page) \<and> rest s' = rest s)"
    and write_law: "ok D s \<Longrightarrow> pages s pid \<noteq> None \<Longrightarrow> length p = PAGE_SIZE \<Longrightarrow>
      \<exists>s'. po_write ops pid p s = (Inr (), s') \<and> ok (insert pid D) s' \<and> pages s' = (pages s)(pid \<mapsto> p) \<and> rest s' = rest s"
    and mark_law: "ok D s \<Longrightarrow> pid \<in> D \<Longrightarrow>
      \<exists>s'. po_mark ops pid s = (Inr (), s') \<and> ok (D - {pid}) s' \<and> pages s' = pages s \<and> rest s' = rest s"
begin

text \<open>The state shows the pages \<open>m\<close>, of which \<open>D\<close> are written and not yet marked.\<close>

definition holds :: "PageId set \<Rightarrow> (PageId \<rightharpoonup> page) \<Rightarrow> 'r \<Rightarrow> 's \<Rightarrow> bool" where
  "holds D m r s \<longleftrightarrow> ok D s \<and> pages s = m \<and> rest s = r"

lemma lock_ends:
  assumes "holds D m r s" and "\<And>s'. holds D m r s' \<Longrightarrow> Q () s'"
  shows "ends may_fail (po_lock ops pid mode) s Q"
proof (cases "po_lock ops pid mode s")
  case (Pair x s')
  with lock_law [of D s pid mode x s'] assms show ?thesis
    by (auto simp: ends_def holds_def split: sum.splits)
qed

lemma fetch_ends:
  assumes "holds D m r s" and "m pid = Some p" and "\<And>s'. holds D m r s' \<Longrightarrow> Q p s'"
  shows "ends may_fail (po_fetch ops pid) s Q"
  using fetch_law [of D s pid p] assms by (auto simp: ends_def holds_def)

lemma lock_fetch_ends:
  assumes "holds D m r s" and "m pid = Some p" and "\<And>s'. holds D m r s' \<Longrightarrow> Q p s'"
  shows "ends may_fail (lock_fetch ops pid mode) s Q"
  unfolding lock_fetch_def ends_bind
proof (rule lock_ends [OF assms(1)])
  fix s' assume "holds D m r s'"
  from fetch_ends [OF this assms(2)] assms(3) show "ends may_fail (po_fetch ops pid) s' Q" .
qed

lemma new_ends:
  assumes "holds {} m r s" and "card (dom m) + 1 < 2 ^ 32"
    and "\<And>pid s'. m pid = None \<Longrightarrow> pid \<noteq> INVALID_PAGE_ID \<Longrightarrow> holds {} (m(pid \<mapsto> blank_page)) r s' \<Longrightarrow> Q pid s'"
  shows "ends may_fail (po_new ops) s Q"
proof (cases "po_new ops s")
  case (Pair x s')
  with new_law [of s x s'] assms show ?thesis
    by (auto simp: ends_def holds_def split: sum.splits)
qed

lemma write_ends:
  assumes "holds D m r s" and "m pid \<noteq> None" and "length p = PAGE_SIZE"
    and "\<And>s'. holds (insert pid D) (m(pid \<mapsto> p)) r s' \<Longrightarrow> Q () s'"
  shows "ends may_fail (po_write ops pid p) s Q"
  using write_law [of D s pid p] assms by (auto simp: ends_def holds_def)

lemma mark_ends:
  assumes "holds D m r s" and "pid \<in> D" and "\<And>s'. holds (D - {pid}) m r s' \<Longrightarrow> Q () s'"
  shows "ends may_fail (po_mark ops pid) s Q"
  using mark_law [of D s pid] assms by (auto simp: ends_def holds_def)

lemma child_at_ends: "i < length cs \<Longrightarrow> Q (cs ! i) s \<Longrightarrow> ends may_fail (child_at cs i) s Q"
  by (simp add: child_at_def)

text \<open>One page, or two pages, rewritten and marked.\<close>

lemma put_ends:
  assumes "holds {} m r s" and "m pid \<noteq> None" and "length p = PAGE_SIZE" and "\<And>s'. holds {} (m(pid \<mapsto> p)) r s' \<Longrightarrow> ends may_fail g s' Q"
  shows "ends may_fail (bind_op (po_write ops pid p) (\<lambda>_. bind_op (po_mark ops pid) (\<lambda>_. g))) s Q"
  unfolding ends_bind
proof (rule write_ends [OF assms(1-3)])
  fix s1 assume "holds (insert pid {}) (m(pid \<mapsto> p)) r s1"
  then show "ends may_fail (po_mark ops pid) s1 (\<lambda>_ s'. ends may_fail g s' Q)"
    by (rule mark_ends) (simp_all add: assms(4))
qed

lemma put_two_ends:
  assumes "holds {} m r s" and "m a \<noteq> None" and "m b \<noteq> None" and "a \<noteq> b" and "length p = PAGE_SIZE" and "length q = PAGE_SIZE"
    and "\<And>s'. holds {} (m(a \<mapsto> p, b \<mapsto> q)) r s' \<Longrightarrow> ends may_fail g s' Q"
  shows "ends may_fail (bind_op (po_write ops a p) (\<lambda>_. bind_op (po_write ops b q) (\<lambda>_.
    bind_op (po_mark ops a) (\<lambda>_. bind_op (po_mark ops b) (\<lambda>_. g))))) s Q"
  unfolding ends_bind
proof (rule write_ends [OF assms(1,2,5)])
  fix s1 assume s1: "holds (insert a {}) (m(a \<mapsto> p)) r s1"
  show "ends may_fail (po_write ops b q) s1 (\<lambda>_ s. ends may_fail (po_mark ops a) s (\<lambda>_ s. ends may_fail (po_mark ops b) s (\<lambda>_ s. ends may_fail g s Q)))"
  proof (rule write_ends [OF s1 _ assms(6)])
    fix s2 assume s2: "holds (insert b (insert a {})) (m(a \<mapsto> p, b \<mapsto> q)) r s2"
    show "ends may_fail (po_mark ops a) s2 (\<lambda>_ s. ends may_fail (po_mark ops b) s (\<lambda>_ s. ends may_fail g s Q))"
    proof (rule mark_ends [OF s2])
      fix s3 assume "holds (insert b (insert a {}) - {a}) (m(a \<mapsto> p, b \<mapsto> q)) r s3"
      then have s3: "holds {b} (m(a \<mapsto> p, b \<mapsto> q)) r s3" using assms(4) by (simp add: insert_Diff_if)
      show "ends may_fail (po_mark ops b) s3 (\<lambda>_ s. ends may_fail g s Q)"
        by (rule mark_ends [OF s3]) (simp_all add: assms(7))
    qed simp
  qed (use assms(3) in simp)
qed

text \<open>The root pointer.\<close>

lemma GetRootPageId_ends:
  assumes "holds D m r s" and "m kRootHeaderPageId = Some p"
    and "\<And>s'. holds D m r s' \<Longrightarrow> Q (DeserializeHeaderRootPageId p) s'"
  shows "ends may_fail (GetRootPageId ops) s Q"
  unfolding GetRootPageId_def ends_bind ends_return by (rule fetch_ends [OF assms(1,2)]) (rule assms(3))

lemma SetRootPageId_ends:
  assumes "holds {} m r s" and "m kRootHeaderPageId \<noteq> None"
    and "\<And>s'. holds {} (m(kRootHeaderPageId \<mapsto> SerializeHeader root)) r s' \<Longrightarrow> Q () s'"
  shows "ends may_fail (SetRootPageId ops root) s Q"
proof -
  obtain p where p: "m kRootHeaderPageId = Some p" using assms(2) by blast
  show ?thesis unfolding SetRootPageId_def ends_bind
  proof (rule fetch_ends [OF assms(1) p])
    fix s1 assume s1: "holds {} m r s1"
    show "ends may_fail (po_write ops kRootHeaderPageId (SerializeHeader root)) s1 (\<lambda>_ s. ends may_fail (po_mark ops kRootHeaderPageId) s Q)"
      by (rule write_ends [OF s1 assms(2) Deserialize_SerializeHeader(2)], rule mark_ends) (auto simp: assms(3))
  qed
qed

section \<open>Searching\<close>

lemma search_loop_ends:
  assumes "bt_inv h lo hi nx t" and "stored m t" and "lo \<le> sint key" "sint key < hi" and "h < n" and "holds D m r s"
    and "\<And>s'. holds D m r s' \<Longrightarrow> Q (values_of key (bt_entries t)) s'"
  shows "ends may_fail (search_loop n ops key (bt_id t)) s Q"
  using assms
proof (induction h arbitrary: n lo hi nx t s)
  case 0
  obtain p es where t: "t = Lf p nx es" using 0(1) by (auto simp: bt_inv_0)
  obtain pg where pg: "m p = Some pg" "is_leaf pg"
    "DeserializeLeaf pg = \<lparr>leaf_page_id = p, leaf_next_leaf = nx, leaf_keys = map fst es, leaf_values = map snd es\<rparr>"
    using 0(2) t by auto
  have z: "map snd (filter (\<lambda>(k, _). k = key) (zip (map fst es) (map snd es))) = values_of key es"
    by (simp add: values_of_def zip_map_fst_snd case_prod_unfold)
  obtain n' where n: "n = Suc n'" using 0(5) by (cases n) auto
  show ?case unfolding n search_loop.simps ends_bind t bt.sel
    by (rule lock_fetch_ends [OF 0(6) pg(1)]) (use pg 0(7) z t in \<open>simp add: Let_def\<close>)
next
  case (Suc h)
  obtain p ks cs where t: "t = Nd p ks cs" and len: "length cs = Suc (length ks)" and seq: "seq_all (bt_inv h) hi nx (items lo ks cs)"
    using Suc.prems(1) by (auto simp: bt_inv_Suc bt_pre_Suc_Nd)
  obtain pg where pg: "m p = Some pg" "\<not> is_leaf pg"
    "DeserializeInternal pg = \<lparr>node_page_id = p, node_keys = ks, node_children = map bt_id cs\<rparr>" and kids: "\<forall>c \<in> set cs. stored m c"
    using Suc.prems(2) t by auto
  obtain n' where n: "n = Suc n'" "h < n'" using Suc.prems(5) by (cases n) auto
  obtain xs l c ys where r: "items lo ks cs = xs @ (l, c) # ys" "l \<le> sint key" "sint key < next_label hi ys"
    "cs ! upper_bound ks key = c" "upper_bound ks key < length cs"
    by (rule route [OF len Suc.prems(3,4)])
  have c: "bt_inv h l (next_label hi ys) (next_first nx ys) c" using seq r(1) by simp
  have st: "stored m c" using kids r(4,5) by (metis nth_mem)
  have vals: "values_of key (bt_entries t) = values_of key (bt_entries c)"
  proof -
    note ar = seq_around [OF seq [unfolded r(1)] r(2,3)]
    have "values_of key (seq_entries xs) = []" "values_of key (seq_entries ys) = []"
      by (rule values_of_none, use ar in fastforce)+
    then show ?thesis unfolding t node_entries [OF len, of _ lo] r(1) by simp
  qed
  show ?case unfolding n search_loop.simps ends_bind t bt.sel
  proof (rule lock_fetch_ends [OF Suc.prems(6) pg(1)])
    fix s' assume s': "holds D m r s'"
    have "ends may_fail (search_loop n' ops key (bt_id c)) s' Q"
      by (rule Suc.IH [OF c st r(2,3) n(2) s']) (use Suc.prems(7) vals in simp)
    with pg r(4,5) show "ends may_fail
        (if is_leaf pg
         then let leaf = DeserializeLeaf pg
              in return_op (map snd (filter (\<lambda>(k, _). k = key) (zip (leaf_keys leaf) (leaf_values leaf))))
         else let node = DeserializeInternal pg
              in bind_op (child_at (node_children node) (upper_bound (node_keys node) key)) (search_loop n' ops key)) s' Q"
      by (simp add: Let_def child_at_def)
  qed
qed

section \<open>Walking the leaf chain\<close>

lemma descend_loop_ends:
  assumes "bt_inv h lo hi nx t" and "stored m t" and "m (bt_id t) = Some pg" and "h \<le> n" and "holds D m r s"
    and "\<And>s' pg'. m (first_leaf t) = Some pg' \<Longrightarrow> holds D m r s' \<Longrightarrow> Q pg' s'"
  shows "ends may_fail (descend_loop n ops pg) s Q"
  using assms
proof (induction h arbitrary: n lo hi nx t s pg)
  case 0
  then obtain p es where t: "t = Lf p nx es" by (auto simp: bt_inv_0)
  then have "is_leaf pg" using 0(2,3) by auto
  then show ?case using 0(3,5,6) t by (cases n) auto
next
  case (Suc h)
  obtain p ks cs where t: "t = Nd p ks cs" and len: "length cs = Suc (length ks)" and seq: "seq_all (bt_inv h) hi nx (items lo ks cs)"
    using Suc.prems(1) by (auto simp: bt_inv_Suc bt_pre_Suc_Nd)
  obtain c cs' where cs: "cs = c # cs'" using len by (cases cs) auto
  have pg: "\<not> is_leaf pg" "DeserializeInternal pg = \<lparr>node_page_id = p, node_keys = ks, node_children = map bt_id cs\<rparr>" "stored m c"
    using Suc.prems(2,3) t cs by auto
  obtain n' where n: "n = Suc n'" "h \<le> n'" using Suc.prems(4) by (cases n) auto
  obtain u q where c: "bt_inv h lo u q c" using seq by (auto simp: cs items_Cons)
  obtain pc where pc: "m (bt_id c) = Some pc" using stored_dom [OF pg(3)] bt_id_mem [of c] by blast
  have "ends may_fail (lock_fetch ops (bt_id c) kShared) s (\<lambda>p' s'. ends may_fail (descend_loop n' ops p') s' Q)"
    by (rule lock_fetch_ends [OF Suc.prems(5) pc], rule Suc.IH [OF c pg(3) pc n(2)]) (use Suc.prems(6) t cs in simp_all)
  with pg n cs show ?case by (simp add: child_at_def)
qed

text \<open>Through the leaf chain; the walk visits at most \<open>n\<close> leaves.\<close>

lemma chain_loop_ends:
  assumes "linked INVALID_PAGE_ID (l # ls)" and "\<forall>x \<in> set (l # ls). stored m x \<and> bt_id x \<noteq> INVALID_PAGE_ID"
    and "m (bt_id l) = Some pg" and "length (l # ls) \<le> n" and "holds D m r s"
    and "\<And>s'. holds D m r s' \<Longrightarrow> Q (out @ concat (map bt_entries (l # ls))) s'"
  shows "ends may_fail (chain_loop n ops out pg) s Q"
  using assms
proof (induction ls arbitrary: n l pg out s)
  case Nil
  then obtain p es where l: "l = Lf p INVALID_PAGE_ID es" by (cases l) auto
  obtain n' where n: "n = Suc n'" using Nil.prems(4) by (cases n) auto
  have "DeserializeLeaf pg = \<lparr>leaf_page_id = p, leaf_next_leaf = INVALID_PAGE_ID, leaf_keys = map fst es, leaf_values = map snd es\<rparr>"
    using Nil.prems(2,3) l by auto
  with Nil.prems(5,6) n l show ?case by (simp add: Let_def zip_map_fst_snd)
next
  case (Cons l' ls)
  then obtain p es where l: "l = Lf p (bt_id l') es" by (cases l) auto
  obtain n' where n: "n = Suc n'" using Cons.prems(4) by (cases n) auto
  have pg: "DeserializeLeaf pg = \<lparr>leaf_page_id = p, leaf_next_leaf = bt_id l', leaf_keys = map fst es, leaf_values = map snd es\<rparr>"
    using Cons.prems(2,3) l by auto
  have "stored m l'" "bt_id l' \<noteq> INVALID_PAGE_ID" using Cons.prems(2) by auto
  then obtain pg' where pg': "m (bt_id l') = Some pg'" using stored_dom bt_id_mem by blast
  have "ends may_fail (lock_fetch ops (bt_id l') kShared) s (\<lambda>p' s'. ends may_fail (chain_loop n' ops (out @ es) p') s' Q)"
  proof (rule lock_fetch_ends [OF Cons.prems(5) pg'])
    fix s' assume s': "holds D m r s'"
    show "ends may_fail (chain_loop n' ops (out @ es) pg') s' Q"
      by (rule Cons.IH [OF _ _ pg' _ s']) (use Cons.prems(1,2,4,6) l n in simp_all)
  qed
  with pg n \<open>bt_id l' \<noteq> INVALID_PAGE_ID\<close> show ?case by (simp add: Let_def zip_map_fst_snd)
qed

lemma height_loop_ends:
  assumes "bt_inv h lo hi nx t" and "stored m t" and "m (bt_id t) = Some pg" and "h \<le> n" and "holds D m r s"
    and "\<And>s'. holds D m r s' \<Longrightarrow> Q (k + h) s'"
  shows "ends may_fail (height_loop n ops k pg) s Q"
  using assms
proof (induction h arbitrary: n lo hi nx t s pg k)
  case 0
  then obtain p es where t: "t = Lf p nx es" by (auto simp: bt_inv_0)
  then have "is_leaf pg" using 0(2,3) by auto
  then show ?case using 0(3,5,6) t by (cases n) auto
next
  case (Suc h)
  obtain p ks cs where t: "t = Nd p ks cs" and len: "length cs = Suc (length ks)" and seq: "seq_all (bt_inv h) hi nx (items lo ks cs)"
    using Suc.prems(1) by (auto simp: bt_inv_Suc bt_pre_Suc_Nd)
  obtain c cs' where cs: "cs = c # cs'" using len by (cases cs) auto
  have pg: "\<not> is_leaf pg" "DeserializeInternal pg = \<lparr>node_page_id = p, node_keys = ks, node_children = map bt_id cs\<rparr>" "stored m c"
    using Suc.prems(2,3) t cs by auto
  obtain n' where n: "n = Suc n'" "h \<le> n'" using Suc.prems(4) by (cases n) auto
  obtain u q where c: "bt_inv h lo u q c" using seq by (auto simp: cs items_Cons)
  obtain pc where pc: "m (bt_id c) = Some pc" using stored_dom [OF pg(3)] bt_id_mem [of c] by blast
  have "ends may_fail (lock_fetch ops (bt_id c) kShared) s (\<lambda>p' s'. ends may_fail (height_loop n' ops (k + 1) p') s' Q)"
    by (rule lock_fetch_ends [OF Suc.prems(5) pc], rule Suc.IH [OF c pg(3) pc n(2)]) (use Suc.prems(6) in simp_all)
  with pg n cs show ?case by (simp add: child_at_def)
qed

end

section \<open>The pages of an object of the engine\<close>

definition page_failure :: "exn \<Rightarrow> bool" where
  "page_failure e \<longleftrightarrow> e = Would_wait \<or> (\<exists>txn. e = Transaction_aborted txn) \<or> e = Runtime_error ''ftruncate failed''"

definition object_pages :: "ObjectId \<Rightarrow> engine \<Rightarrow> PageId \<rightharpoonup> page" where
  "object_pages oid en pid = (if en_has en (PageKey oid pid) then Some (en_page en (PageKey oid pid)) else None)"

text \<open>The pool of the object is coherent but for the pages \<open>D\<close>, the other pools are coherent.\<close>

definition object_ok :: "ObjectId \<Rightarrow> PageId set \<Rightarrow> engine \<Rightarrow> bool" where
  "object_ok oid D en \<longleftrightarrow>
     (\<forall>o' bp. o' \<noteq> oid \<longrightarrow> en_pools en o' = Some bp \<longrightarrow> pool_ok bp) \<and>
     (\<exists>bp. en_pools en oid = Some bp \<and> pool_wf bp \<and> D \<subseteq> dom (bp_pages bp) \<and>
       (\<forall>pid p. bp_pages bp pid = Some p \<longrightarrow> pid \<notin> bp_dirty bp \<longrightarrow> pid \<notin> D \<longrightarrow> p = disk_page (bp_disk bp) pid))"

definition other_objects :: "ObjectId \<Rightarrow> engine \<Rightarrow> (ObjectId \<Rightarrow> PageId \<rightharpoonup> page) \<times> (ObjectId \<Rightarrow> bool) \<times> (ObjectId \<rightharpoonup> PageId list) \<times> (thread_id \<rightharpoonup> TxnId)" where
  "other_objects oid en = ((\<lambda>o'. if o' = oid then Map.empty else object_pages o' en), (\<lambda>o'. en_pools en o' = None), en_heaps en, en_current en)"

lemma object_ok_empty: "object_ok oid {} en \<longleftrightarrow> pools_ok en \<and> en_pools en oid \<noteq> None"
proof -
  have "pools_ok en \<longleftrightarrow> (\<forall>o' bp. o' \<noteq> oid \<longrightarrow> en_pools en o' = Some bp \<longrightarrow> pool_ok bp) \<and> (\<forall>bp. en_pools en oid = Some bp \<longrightarrow> pool_ok bp)"
    unfolding pools_ok_def by metis
  then show ?thesis by (cases "en_pools en oid") (auto simp: object_ok_def pool_ok_def)
qed

lemma object_pages_pool:
  "en_pools en oid = Some bp \<Longrightarrow> object_pages oid en pid = (if pool_has bp pid then Some (pool_page bp pid) else None)"
  by (simp add: object_pages_def en_has_def en_page_def)

text \<open>A call that replaces the pool of the object, and the engine state around it.\<close>

lemma other_objects_pool:
  assumes "en_pools en oid \<noteq> None"
  shows "other_objects oid (en\<lparr>en_pools := (en_pools en)(oid \<mapsto> bp)\<rparr>) = other_objects oid en"
  using assms by (auto simp: other_objects_def object_pages_def en_has_def en_page_def fun_eq_iff)

lemma object_views_rest [simp]:
  "object_pages oid (NotifyDirty n en) = object_pages oid en" "object_ok oid D (NotifyDirty n en) = object_ok oid D en"
  "other_objects oid (NotifyDirty n en) = other_objects oid en"
  "object_pages oid (en\<lparr>en_locks := lm\<rparr>) = object_pages oid en" "object_ok oid D (en\<lparr>en_locks := lm\<rparr>) = object_ok oid D en"
  "other_objects oid (en\<lparr>en_locks := lm\<rparr>) = other_objects oid en"
  by (auto simp: object_pages_def [abs_def] object_ok_def other_objects_def en_has_def en_page_def fun_eq_iff)

lemma dom_object_pages: "en_pools en oid = Some bp \<Longrightarrow> dom (object_pages oid en) = {pid. pool_has bp pid}"
  by (auto simp: object_pages_pool split: if_splits)

lemma card_object_pages: "en_pools en oid = Some bp \<Longrightarrow> card (dom (object_pages oid en)) = unat (next_page_id (bp_disk bp))"
proof -
  assume "en_pools en oid = Some bp"
  then have "dom (object_pages oid en) = {pid. pid < next_page_id (bp_disk bp)}"
    by (simp add: dom_object_pages pool_has_def disk_has_def)
  also have "\<dots> = of_nat ` {..< unat (next_page_id (bp_disk bp))}"
  proof (intro set_eqI iffI)
    fix p :: PageId assume "p \<in> {pid. pid < next_page_id (bp_disk bp)}"
    then have "p = of_nat (unat p)" "unat p < unat (next_page_id (bp_disk bp))" by (simp_all add: word_less_nat_alt)
    then show "p \<in> of_nat ` {..< unat (next_page_id (bp_disk bp))}" by blast
  next
    fix p :: PageId assume "p \<in> of_nat ` {..< unat (next_page_id (bp_disk bp))}"
    then show "p \<in> {pid. pid < next_page_id (bp_disk bp)}" using of_nat_unat_less by blast
  qed
  finally have eq: "dom (object_pages oid en) = of_nat ` {..< unat (next_page_id (bp_disk bp))}" .
  have "inj_on (of_nat :: nat \<Rightarrow> PageId) {..< unat (next_page_id (bp_disk bp))}"
    by (rule inj_onI) (metis lessThan_iff of_nat_unat_less)
  then show "card (dom (object_pages oid en)) = unat (next_page_id (bp_disk bp))" by (simp add: eq card_image)
qed

lemma engine_lock_law:
  assumes "object_ok oid D en" and "LockPage tid oid pid mode en = (x, en')"
  shows "case x of Inl e \<Rightarrow> page_failure e
    | Inr _ \<Rightarrow> object_ok oid D en' \<and> object_pages oid en' = object_pages oid en \<and> other_objects oid en' = other_objects oid en"
  using assms
  by (auto simp: LockPage_def Transaction_AcquireLock_def page_failure_def split: option.splits acquire_outcome.splits)

lemma engine_fetch_law:
  assumes ok: "object_ok oid D en" and p: "object_pages oid en pid = Some p"
  shows "\<exists>en'. FetchPage_op oid pid en = (Inr p, en') \<and> object_ok oid D en' \<and> object_pages oid en' = object_pages oid en \<and>
    other_objects oid en' = other_objects oid en"
proof -
  from ok obtain bp where bp: "en_pools en oid = Some bp" "pool_wf bp" "D \<subseteq> dom (bp_pages bp)"
    and clean: "\<forall>pid p. bp_pages bp pid = Some p \<longrightarrow> pid \<notin> bp_dirty bp \<longrightarrow> pid \<notin> D \<longrightarrow> p = disk_page (bp_disk bp) pid"
    by (auto simp: object_ok_def)
  from p bp(1) have has: "pool_has bp pid" "p = pool_page bp pid" by (auto simp: object_pages_pool split: if_splits)
  let ?bp = "bp\<lparr>bp_pages := (bp_pages bp)(pid \<mapsto> pool_page bp pid)\<rparr>"
  let ?en = "en\<lparr>en_pools := (en_pools en)(oid \<mapsto> ?bp)\<rparr>"
  have "FetchPage_op oid pid en = (Inr p, ?en)"
    using bp has FetchPage_eq [OF bp(2), of pid] by (simp add: FetchPage_op_def pool_op_def)
  moreover have "object_ok oid D ?en"
  proof -
    have "\<forall>q p. bp_pages ?bp q = Some p \<longrightarrow> q \<notin> bp_dirty ?bp \<longrightarrow> q \<notin> D \<longrightarrow> p = disk_page (bp_disk ?bp) q"
      using clean by (auto simp: pool_page_def split: option.splits)
    then show ?thesis using ok bp(3) fetch_wf [OF bp(2) has(1)] by (auto simp: object_ok_def)
  qed
  moreover have "object_pages oid ?en = object_pages oid en"
    using bp(1) by (auto simp: fun_eq_iff object_pages_pool object_pages_pool [where en = ?en])
  ultimately show ?thesis using other_objects_pool [of en oid ?bp] bp(1) by auto
qed

lemma engine_new_law:
  assumes ok: "object_ok oid {} en" and room: "card (dom (object_pages oid en)) + 1 < 2 ^ 32" and run: "NewPage_op tid oid en = (y, en')"
  shows "case y of Inl e \<Rightarrow> page_failure e
    | Inr pid \<Rightarrow> object_ok oid {} en' \<and> object_pages oid en pid = None \<and> pid \<noteq> INVALID_PAGE_ID \<and>
        object_pages oid en' = (object_pages oid en)(pid \<mapsto> blank_page) \<and> other_objects oid en' = other_objects oid en"
proof -
  from ok obtain bp where bp: "en_pools en oid = Some bp" "pool_ok bp" by (auto simp: object_ok_empty pools_ok_def)
  have room': "unat (next_page_id (bp_disk bp)) + 1 < 2 ^ 32" using room card_object_pages [OF bp(1)] by simp
  obtain x bp1 where np: "NewPage tid bp = (x, bp1)" by (cases "NewPage tid bp")
  show ?thesis
  proof (cases x)
    case (Inl e)
    then have "e = Runtime_error ''ftruncate failed''"
      using np by (auto simp: NewPage_def AllocatePage_def Let_def split: prod.splits sum.splits if_splits)
    with Inl np bp run show ?thesis
      by (auto simp: NewPage_op_def pool_op_def bind_op_def page_failure_def)
  next
    case (Inr pn)
    obtain pid n where pn: "pn = (pid, n)" by (cases pn)
    note nf = NewPage_ok [OF bp(2) room' np [unfolded Inr pn]]
    let ?en = "en\<lparr>en_pools := (en_pools en)(oid \<mapsto> bp1)\<rparr>"
    have y: "y = Inr pid" "en' = NotifyDirty n ?en"
      using run np Inr pn bp(1) by (auto simp: NewPage_op_def pool_op_def bind_op_def)
    have "object_ok oid {} ?en" using ok nf(1) bp(1) by (auto simp: object_ok_empty pools_ok_def)
    moreover have "object_pages oid en pid = None" using bp(1) nf(3) by (simp add: object_pages_pool)
    moreover have "object_pages oid ?en = (object_pages oid en)(pid \<mapsto> blank_page)"
      using bp(1) nf(3-6) by (auto simp: fun_eq_iff object_pages_pool object_pages_pool [where en = ?en])
    moreover have "pid \<noteq> INVALID_PAGE_ID" using nf(2) room' by (auto simp: INVALID_PAGE_ID_def unsigned_minus_1_eq_mask mask_eq_exp_minus_1)
    ultimately show ?thesis using other_objects_pool [of en oid bp1] bp(1) by (simp add: y)
  qed
qed

lemma engine_write_law:
  assumes ok: "object_ok oid D en" and has: "object_pages oid en pid \<noteq> None" and len: "length p = PAGE_SIZE"
  shows "\<exists>en'. write_page_op oid pid p en = (Inr (), en') \<and> object_ok oid (insert pid D) en' \<and>
    object_pages oid en' = (object_pages oid en)(pid \<mapsto> p) \<and> other_objects oid en' = other_objects oid en"
proof -
  from ok obtain bp where bp: "en_pools en oid = Some bp" "pool_wf bp" by (auto simp: object_ok_def)
  let ?en = "en\<lparr>en_pools := (en_pools en)(oid \<mapsto> write_page pid p bp)\<rparr>"
  have h: "pool_has bp pid" using has bp(1) by (auto simp: object_pages_pool split: if_splits)
  have "object_ok oid (insert pid D) ?en"
    using ok bp write_page_wf [OF bp(2) h len] by (auto simp: object_ok_def) (auto simp: write_page_def split: if_splits)
  moreover have "object_pages oid ?en = (object_pages oid en)(pid \<mapsto> p)"
    using bp(1) h by (auto simp: fun_eq_iff object_pages_pool object_pages_pool [where en = ?en])
  ultimately show ?thesis using bp(1) other_objects_pool [of en oid "write_page pid p bp"]
    by (auto simp: write_page_op_def pool_op_def)
qed

lemma engine_mark_law:
  assumes ok: "object_ok oid D en" and mem: "pid \<in> D"
  shows "\<exists>en'. MarkDirty_op tid oid pid en = (Inr (), en') \<and> object_ok oid (D - {pid}) en' \<and>
    object_pages oid en' = object_pages oid en \<and> other_objects oid en' = other_objects oid en"
proof -
  from ok obtain bp where bp: "en_pools en oid = Some bp" "pool_wf bp" "D \<subseteq> dom (bp_pages bp)" by (auto simp: object_ok_def)
  obtain n bp' where md: "MarkDirty tid pid bp = (n, bp')" by (cases "MarkDirty tid pid bp")
  have f: "bp_disk bp' = bp_disk bp" "bp_pages bp' = bp_pages bp" "bp_dirty bp' = insert pid (bp_dirty bp)"
    "pool_has bp' q = pool_has bp q" "pool_page bp' q = pool_page bp q" for q
    using MarkDirty_fields [of tid pid bp] md by simp_all
  let ?en = "en\<lparr>en_pools := (en_pools en)(oid \<mapsto> bp')\<rparr>"
  have "pool_wf bp'" using bp(2,3) mem f by (auto simp: pool_wf_def)
  then have "object_ok oid (D - {pid}) ?en" using ok bp(1,3) f by (auto simp: object_ok_def)
  moreover have "object_pages oid ?en = object_pages oid en"
    using bp(1) f by (auto simp: fun_eq_iff object_pages_pool object_pages_pool [where en = ?en])
  ultimately show ?thesis using bp(1) md other_objects_pool [of en oid bp']
    by (auto simp: MarkDirty_op_def pool_op_def bind_op_def)
qed

interpretation engine_pages: page_store "engine_ops tid oid" "object_pages oid" "object_ok oid" "other_objects oid" page_failure
  for tid oid
proof (unfold_locales, goal_cases)
  case 1 then show ?case using engine_lock_law by (simp add: engine_ops_def)
next
  case 2 then show ?case using engine_fetch_law by (simp add: engine_ops_def)
next
  case 3 then show ?case using engine_new_law by (simp add: engine_ops_def)
next
  case 4 then show ?case using engine_write_law by (simp add: engine_ops_def)
next
  case 5 then show ?case using engine_mark_law by (simp add: engine_ops_def)
qed

end
