(* ===== verification/Btree_Read.thy ===== *)
theory Btree_Read
  imports Btree_Store Decimal_Text
begin

text \<open>
  The reading operations of the B+-tree: on pages that hold a tree, \<open>Search\<close> returns exactly the row ids
  stored under the key, \<open>RangeScanAll\<close> all entries in key order, and no traversal meets its step limit.
\<close>

section \<open>An index on its pages\<close>

definition tree_at :: "(PageId \<rightharpoonup> page) \<Rightarrow> nat \<Rightarrow> bt \<Rightarrow> bool" where
  "tree_at m h t \<longleftrightarrow>
     bt_inv h (- (2 ^ 63)) (2 ^ 63) INVALID_PAGE_ID t \<and> stored m t \<and>
     distinct (kRootHeaderPageId # bt_ids t) \<and> INVALID_PAGE_ID \<notin> set (bt_ids t)"

text \<open>The pages hold an index whose entries, in key order, are \<open>es\<close>.\<close>

definition btree_at :: "(PageId \<rightharpoonup> page) \<Rightarrow> (int64 \<times> RID) list \<Rightarrow> bool" where
  "btree_at m es \<longleftrightarrow>
     (\<exists>p. m kRootHeaderPageId = Some p \<and>
       (DeserializeHeaderRootPageId p = INVALID_PAGE_ID \<and> es = [] \<or>
        (\<exists>h t. tree_at m h t \<and> DeserializeHeaderRootPageId p = bt_id t \<and> es = bt_entries t)))"

lemma btree_at_cases:
  assumes "btree_at m es"
  obtains (empty) p where "m kRootHeaderPageId = Some p" "DeserializeHeaderRootPageId p = INVALID_PAGE_ID" "es = []"
  | (tree) p h t where "m kRootHeaderPageId = Some p" "DeserializeHeaderRootPageId p = bt_id t" "bt_id t \<noteq> INVALID_PAGE_ID"
      "tree_at m h t" "es = bt_entries t" "h \<le> 32"
proof -
  from assms obtain p where p: "m kRootHeaderPageId = Some p"
    "DeserializeHeaderRootPageId p = INVALID_PAGE_ID \<and> es = [] \<or>
     (\<exists>h t. tree_at m h t \<and> DeserializeHeaderRootPageId p = bt_id t \<and> es = bt_entries t)"
    by (auto simp: btree_at_def)
  from p(2) show thesis
  proof
    assume "\<exists>h t. tree_at m h t \<and> DeserializeHeaderRootPageId p = bt_id t \<and> es = bt_entries t"
    then obtain h t where t: "tree_at m h t" "DeserializeHeaderRootPageId p = bt_id t" "es = bt_entries t" by blast
    then have "bt_id t \<noteq> INVALID_PAGE_ID" using bt_id_mem [of t] unfolding tree_at_def by metis
    moreover have "h \<le> 32" using t(1) by (auto simp: tree_at_def intro: bt_height_bound)
    ultimately show thesis using p(1) t by (intro tree)
  qed (use p(1) empty in blast)
qed

lemma btree_at_sorted: "btree_at m es \<Longrightarrow> sorted (map (\<lambda>e. sint (fst e)) es)"
  by (auto simp: btree_at_def tree_at_def dest: bt_inv_sorted)

lemma key_range: "- (2 ^ 63) \<le> sint (k :: int64)" "sint (k :: int64) < 2 ^ 63"
  using sint_bounds64 [of k] by simp_all

lemma bt_leaves_nonempty: "bt_inv h lo hi nx t \<Longrightarrow> \<forall>l \<in> set (bt_leaves t). bt_entries l \<noteq> []"
proof (induction h arbitrary: lo hi nx t)
  case (Suc h)
  obtain p ks cs where t: "t = Nd p ks cs" and len: "length cs = Suc (length ks)" and seq: "seq_all (bt_inv h) hi nx (items lo ks cs)"
    using Suc.prems by (auto simp: bt_inv_Suc bt_pre_Suc_Nd)
  have "\<forall>l \<in> set (bt_leaves c). bt_entries l \<noteq> []" if "c \<in> set cs" for c
  proof -
    have "c \<in> set (map snd (items lo ks cs))" using that by (simp add: map_snd_items [OF len])
    then obtain l where "(l, c) \<in> set (items lo ks cs)" by auto
    with seq obtain u q where "bt_inv h l u q c" using split_list by fastforce
    then show ?thesis by (rule Suc.IH)
  qed
  then show ?case by (simp add: t)
qed (auto simp: bt_inv_0)

section \<open>The operations\<close>

context page_store
begin

text \<open>Every operation starts by locking the root pointer and reading it.\<close>

lemma root_ends:
  assumes "holds D m r s" and "m kRootHeaderPageId = Some p"
    and "\<And>s'. holds D m r s' \<Longrightarrow> ends may_fail (f (DeserializeHeaderRootPageId p)) s' Q"
  shows "ends may_fail (bind_op (LockRoot ops mode) (\<lambda>_. bind_op (GetRootPageId ops) f)) s Q"
  unfolding LockRoot_def ends_bind
proof (rule lock_ends [OF assms(1)])
  fix s' assume s': "holds D m r s'"
  show "ends may_fail (GetRootPageId ops) s' (\<lambda>x s'. ends may_fail (f x) s' Q)"
    by (rule GetRootPageId_ends [OF s' assms(2)]) (rule assms(3))
qed

lemma Search_ends:
  assumes at: "btree_at m es" and s: "holds D m r s"
  shows "ends may_fail (BPlusTree_Search ops key) s (\<lambda>rids s'. rids = values_of key es \<and> holds D m r s')"
  using at
proof (cases rule: btree_at_cases)
  case (empty p)
  show ?thesis unfolding BPlusTree_Search_def
    by (rule root_ends [OF s empty(1)]) (use empty in \<open>simp add: values_of_def\<close>)
next
  case (tree p h t)
  have "ends may_fail (search_loop kMaxTraversalSteps ops key (bt_id t)) s' (\<lambda>rids s'. rids = values_of key es \<and> holds D m r s')"
    if "holds D m r s'" for s'
    by (rule search_loop_ends [OF _ _ key_range _ that]) (use tree in \<open>auto simp: tree_at_def kMaxTraversalSteps_def\<close>)
  then show ?thesis unfolding BPlusTree_Search_def
    by (intro root_ends [OF s tree(1)]) (use tree in simp)
qed

lemma RangeScanAll_ends:
  assumes at: "btree_at m es" and s: "holds D m r s" and few: "length es \<le> kMaxTraversalSteps"
  shows "ends may_fail (RangeScanAll ops) s (\<lambda>out s'. out = es \<and> holds D m r s')"
  using at
proof (cases rule: btree_at_cases)
  case (empty p)
  show ?thesis unfolding RangeScanAll_def
    by (rule root_ends [OF s empty(1)]) (use empty in simp)
next
  case (tree p h t)
  have inv: "bt_inv h (- (2 ^ 63)) (2 ^ 63) INVALID_PAGE_ID t" and st: "stored m t" and ids: "INVALID_PAGE_ID \<notin> set (bt_ids t)"
    using tree(4) by (simp_all add: tree_at_def)
  note lf = bt_leaves_facts [OF inv]
  have nonempty: "length ls \<le> length (concat (map bt_entries ls))" if "\<forall>l \<in> set ls. bt_entries l \<noteq> []" for ls
    using that by (induction ls) (auto simp: Suc_le_eq add_pos_nonneg neq_Nil_conv)
  have each: "\<forall>l \<in> set (bt_leaves t). bt_entries l \<noteq> []" by (rule bt_leaves_nonempty [OF inv])
  have n: "length (bt_leaves t) \<le> kMaxTraversalSteps"
    using nonempty [OF each] few tree(5) bt_leaves_stored(3) [of t] by simp
  obtain l ls where l: "bt_leaves t = l # ls" using lf by (cases "bt_leaves t") auto
  have ok: "\<forall>x \<in> set (l # ls). stored m x \<and> bt_id x \<noteq> INVALID_PAGE_ID"
    using bt_leaves_stored(1) [OF st] bt_leaves_stored(2) [of _ t] ids l by metis
  obtain pt where pt: "m (bt_id t) = Some pt" using stored_dom [OF st] bt_id_mem [of t] by blast
  have chain: "ends may_fail (chain_loop kMaxTraversalSteps ops [] pg) s' (\<lambda>out s'. out = es \<and> holds D m r s')"
    if "m (first_leaf t) = Some pg" and "holds D m r s'" for pg s'
    by (rule chain_loop_ends [OF _ ok _ _ that(2)])
      (use that(1) lf l n tree(5) bt_leaves_stored(3) [of t] in simp_all)
  have "ends may_fail (descend_loop kMaxTraversalSteps ops pt) s' (\<lambda>pg s'. ends may_fail (chain_loop kMaxTraversalSteps ops [] pg) s' (\<lambda>out s'. out = es \<and> holds D m r s'))"
    if "holds D m r s'" for s'
    by (rule descend_loop_ends [OF inv st pt _ that]) (use tree(6) chain in \<open>auto simp: kMaxTraversalSteps_def\<close>)
  then have "ends may_fail (bind_op (lock_fetch ops (bt_id t) kShared) (\<lambda>page.
      bind_op (descend_loop kMaxTraversalSteps ops page) (chain_loop kMaxTraversalSteps ops []))) s' (\<lambda>out s'. out = es \<and> holds D m r s')"
    if "holds D m r s'" for s'
    unfolding ends_bind by (intro lock_fetch_ends [OF that pt]) simp
  then show ?thesis unfolding RangeScanAll_def
    by (intro root_ends [OF s tree(1)]) (use tree in simp)
qed

end

end
