(* ===== verification/Btree_Insert.thy ===== *)
theory Btree_Insert
  imports Btree_Read
begin

text \<open>
  Insertion into the B+-tree. A recursive insertion into a subtree returns one tree or two, in place of the
  one it was given (\<open>grown\<close>): the invariant holds with the same bounds, the entries are the old ones with
  the new one after its equals, and only the subtree's own pages and fresh ones have changed.
\<close>

section \<open>Writing nodes\<close>

abbreviation leaf_record :: "PageId \<Rightarrow> PageId \<Rightarrow> (int64 \<times> RID) list \<Rightarrow> LeafNode" where
  "leaf_record p nx es \<equiv> \<lparr>leaf_page_id = p, leaf_next_leaf = nx, leaf_keys = map fst es, leaf_values = map snd es\<rparr>"

abbreviation node_record :: "PageId \<Rightarrow> int64 list \<Rightarrow> bt list \<Rightarrow> InternalNode" where
  "node_record p ks cs \<equiv> \<lparr>node_page_id = p, node_keys = ks, node_children = map bt_id cs\<rparr>"

lemma leaf_page:
  assumes "length es \<le> kLeafMaxKeys"
  shows "length (SerializeLeaf (leaf_record p nx es)) = PAGE_SIZE"
    and "m p = Some (SerializeLeaf (leaf_record p nx es)) \<Longrightarrow> stored m (Lf p nx es)"
  using Deserialize_SerializeLeaf [of "leaf_record p nx es"] assms by (simp_all add: is_leaf_def)

lemma node_page:
  assumes "length cs = Suc (length ks)" and "length ks \<le> kInternalMaxKeys"
  shows "length (SerializeInternal (node_record p ks cs)) = PAGE_SIZE"
    and "m p = Some (SerializeInternal (node_record p ks cs)) \<Longrightarrow> \<forall>c \<in> set cs. stored m c \<Longrightarrow> stored m (Nd p ks cs)"
  using Deserialize_SerializeInternal [of "node_record p ks cs"] assms by (simp_all add: is_leaf_def page_tags [symmetric])

lemma insert_nth_entry:
  "insert_nth (upper_bound (map fst es) key) key (map fst es) = map fst (insert_entry key rid es)"
  "insert_nth (upper_bound (map fst es) key) rid (map snd es) = map snd (insert_entry key rid es)"
  by (simp_all add: insert_nth_def upper_bound_def insert_entry_def takeWhile_map comp_def take_map drop_map
    takeWhile_eq_take [symmetric] dropWhile_eq_drop [symmetric])

section \<open>Rearranging items\<close>

lemma items_iff:
  "length cs = Suc (length ks) \<Longrightarrow> items lo ks cs = xs \<longleftrightarrow> map fst xs = lo # map sint ks \<and> map snd xs = cs"
  by (auto simp: items_def zip_eq_conv)

lemma items_insert:
  assumes len: "length cs = Suc (length ks)" and it: "items lo ks cs = xs @ (l, c) # ys"
  shows "items lo (insert_nth (length xs) k ks) (map snd xs @ t1 # t2 # map snd ys) = xs @ (l, t1) # (sint k, t2) # ys"
    and "length (map snd xs @ t1 # t2 # map snd ys) = Suc (length (insert_nth (length xs) k ks))"
    and "bt_id t1 = bt_id c \<Longrightarrow> insert_nth (length xs + 1) (bt_id t2) (map bt_id cs) = map bt_id (map snd xs @ t1 # t2 # map snd ys)"
proof -
  have lab: "map fst xs @ l # map fst ys = lo # map sint ks" and cs: "cs = map snd xs @ c # map snd ys"
    using it by (auto simp: items_iff [OF len])
  have n: "length xs \<le> length ks" using arg_cong [OF it, of length] len by (simp add: length_items)
  show l2: "length (map snd xs @ t1 # t2 # map snd ys) = Suc (length (insert_nth (length xs) k ks))"
    using n len arg_cong [OF cs, of length] by (simp add: insert_nth_def)
  have "map fst xs @ [l] = take (Suc (length xs)) (lo # map sint ks)" "map fst ys = drop (Suc (length xs)) (lo # map sint ks)"
    by (simp_all flip: lab)
  then have "map fst xs @ l # sint k # map fst ys = lo # map sint (insert_nth (length xs) k ks)"
    by (simp add: insert_nth_def take_map drop_map)
  then show "items lo (insert_nth (length xs) k ks) (map snd xs @ t1 # t2 # map snd ys) = xs @ (l, t1) # (sint k, t2) # ys"
    by (subst items_iff [OF l2]) simp
  show "bt_id t1 = bt_id c \<Longrightarrow> insert_nth (length xs + 1) (bt_id t2) (map bt_id cs) = map bt_id (map snd xs @ t1 # t2 # map snd ys)"
    by (simp add: cs insert_nth_def)
qed

lemma items_replace:
  assumes len: "length cs = Suc (length ks)" and it: "items lo ks cs = xs @ (l, c) # ys"
  shows "items lo ks (map snd xs @ t1 # map snd ys) = xs @ (l, t1) # ys"
    and "length (map snd xs @ t1 # map snd ys) = Suc (length ks)"
    and "bt_id t1 = bt_id c \<Longrightarrow> map bt_id (map snd xs @ t1 # map snd ys) = map bt_id cs"
proof -
  have lab: "map fst xs @ l # map fst ys = lo # map sint ks" and cs: "cs = map snd xs @ c # map snd ys"
    using it by (auto simp: items_iff [OF len])
  show l2: "length (map snd xs @ t1 # map snd ys) = Suc (length ks)" using len by (simp add: cs)
  show "items lo ks (map snd xs @ t1 # map snd ys) = xs @ (l, t1) # ys" using lab by (subst items_iff [OF l2]) simp
  show "bt_id t1 = bt_id c \<Longrightarrow> map bt_id (map snd xs @ t1 # map snd ys) = map bt_id cs" by (simp add: cs)
qed

lemma items_halves:
  assumes len: "length cs = Suc (length ks)" and mid: "mid < length ks"
  shows "items lo ks cs = items lo (take mid ks) (take (mid + 1) cs) @ items (sint (ks ! mid)) (drop (mid + 1) ks) (drop (mid + 1) cs)"
proof -
  have "lo # map sint ks = (lo # map sint (take mid ks)) @ (sint (ks ! mid) # map sint (drop (mid + 1) ks))"
    using mid by (simp add: id_take_nth_drop [symmetric] flip: map_append list.map(2))
  moreover have "cs = take (mid + 1) cs @ drop (mid + 1) cs" by simp
  moreover have "length (lo # map sint (take mid ks)) = length (take (mid + 1) cs)" using len mid by simp
  ultimately show ?thesis unfolding items_def by (metis zip_append)
qed

lemma first_leaf_Nd: "length cs = Suc (length ks) \<Longrightarrow> first_leaf (Nd p ks cs) = next_first nx (items lo ks cs)"
  by (cases cs) (simp_all add: items_Cons)

lemma next_items: "length cs = Suc (length ks) \<Longrightarrow> next_label hi (items lo ks cs) = lo"
  by (cases cs) (simp_all add: items_Cons)

text \<open>Two valid nodes side by side are a valid node split in the middle.\<close>

lemma split_node_inv:
  assumes len: "length cs = Suc (length ks)" and mid: "0 < mid" "mid + 1 < length ks"
    and cap: "mid \<le> kInternalMaxKeys" "length ks \<le> mid + 1 + kInternalMaxKeys" and seq: "seq_all (bt_inv h) hi nx (items lo ks cs)"
  shows "seq_all (bt_inv (Suc h)) hi nx
    [(lo, Nd p (take mid ks) (take (mid + 1) cs)), (sint (ks ! mid), Nd q (drop (mid + 1) ks) (drop (mid + 1) cs))]"
proof -
  let ?L = "items lo (take mid ks) (take (mid + 1) cs)" and ?R = "items (sint (ks ! mid)) (drop (mid + 1) ks) (drop (mid + 1) cs)"
  have "items lo ks cs = ?L @ ?R" by (rule items_halves [OF len]) (use mid in simp)
  with seq have s: "seq_all (bt_inv h) (next_label hi ?R) (next_first nx ?R) ?L" "seq_all (bt_inv h) hi nx ?R" by simp_all
  have lr: "length (drop (mid + 1) cs) = Suc (length (drop (mid + 1) ks))" using len mid by simp
  have "bt_inv (Suc h) lo (sint (ks ! mid)) (first_leaf (Nd q (drop (mid + 1) ks) (drop (mid + 1) cs))) (Nd p (take mid ks) (take (mid + 1) cs))"
    unfolding first_leaf_Nd [OF lr, of q nx "sint (ks ! mid)"] using s(1) [unfolded next_items [OF lr]] len mid cap
    by (auto simp: bt_inv_Suc bt_pre_Suc_Nd)
  moreover have "bt_inv (Suc h) (sint (ks ! mid)) hi nx (Nd q (drop (mid + 1) ks) (drop (mid + 1) cs))"
    using s(2) len mid cap by (auto simp: bt_inv_Suc bt_pre_Suc_Nd)
  ultimately show ?thesis by simp
qed

text \<open>Two valid leaves side by side are a valid leaf split between different keys.\<close>

lemma split_leaf_inv:
  assumes mid: "0 < mid" "mid < length es" and strict: "fst (es ! mid) \<noteq> fst (es ! (mid - 1))"
    and cap: "mid \<le> kLeafMaxKeys" "length es \<le> mid + kLeafMaxKeys" and sorted: "sorted (map (\<lambda>e. sint (fst e)) es)"
    and bounds: "\<forall>e \<in> set es. lo \<le> sint (fst e) \<and> sint (fst e) < hi"
  shows "seq_all (bt_inv 0) hi nx [(lo, Lf p q (take mid es)), (sint (fst (es ! mid)), Lf q nx (drop mid es))]"
proof -
  let ?f = "\<lambda>e :: int64 \<times> RID. sint (fst e)"
  have mono: "?f (es ! i) \<le> ?f (es ! j)" if "i \<le> j" "j < length es" for i j
    using sorted_nth_mono [OF sorted, of i j] that by simp
  have "?f (es ! (mid - 1)) < ?f (es ! mid)"
    using mono [of "mid - 1" mid] mid strict by (metis diff_le_self order_le_less signed_word_eqI)
  moreover have "\<forall>e \<in> set (take mid es). ?f e \<le> ?f (es ! (mid - 1))"
  proof
    fix e assume "e \<in> set (take mid es)"
    then obtain i where "i < mid" "e = es ! i" using mid(2) by (auto simp: in_set_conv_nth)
    with mono [of i "mid - 1"] mid show "?f e \<le> ?f (es ! (mid - 1))" by simp
  qed
  ultimately have left: "\<forall>e \<in> set (take mid es). ?f e < ?f (es ! mid)" by fastforce
  have right: "\<forall>e \<in> set (drop mid es). ?f (es ! mid) \<le> ?f e"
  proof
    fix e assume "e \<in> set (drop mid es)"
    then obtain i where "i < length es - mid" "e = es ! (mid + i)" using mid(2) by (auto simp: in_set_conv_nth)
    with mono [of mid "mid + i"] show "?f (es ! mid) \<le> ?f e" by simp
  qed
  have "sorted (map ?f (take mid es))" "sorted (map ?f (drop mid es))"
    using sorted by (simp_all add: sorted_wrt_take sorted_wrt_drop flip: take_map drop_map)
  moreover have "\<forall>e \<in> set (take mid es). lo \<le> ?f e" "\<forall>e \<in> set (drop mid es). ?f e < hi"
    using bounds by (meson in_set_takeD in_set_dropD)+
  ultimately show ?thesis using left right mid cap by (auto simp: bt_inv_def)
qed

section \<open>What an insertion into a subtree leaves\<close>

text \<open>
  \<open>t\<close> is replaced by the trees \<open>xs\<close>, one or two as \<open>sp\<close> says; the pages change from \<open>m\<close> to \<open>m'\<close>.
\<close>

definition replaced :: "int \<Rightarrow> bt \<Rightarrow> SplitResult option \<Rightarrow> items \<Rightarrow> bool" where
  "replaced lo t sp xs \<longleftrightarrow>
     (\<exists>t1. bt_id t1 = bt_id t \<and> first_leaf t1 = first_leaf t \<and>
       (case sp of None \<Rightarrow> xs = [(lo, t1)]
        | Some x \<Rightarrow> \<exists>t2. xs = [(lo, t1), (sint (split_key x), t2)] \<and> bt_id t2 = new_right_page_id x))"

definition pages_grown :: "(PageId \<rightharpoonup> page) \<Rightarrow> PageId set \<Rightarrow> nat \<Rightarrow> (PageId \<rightharpoonup> page) \<Rightarrow> bool" where
  "pages_grown m own n m' \<longleftrightarrow>
     dom m \<subseteq> dom m' \<and> (\<forall>q \<in> dom m - own. m' q = m q) \<and> INVALID_PAGE_ID \<notin> dom m' - dom m \<and>
     card (dom m') \<le> card (dom m) + n"

definition grown :: "nat \<Rightarrow> int \<Rightarrow> int \<Rightarrow> PageId \<Rightarrow> bt \<Rightarrow> (int64 \<times> RID) list \<Rightarrow> (PageId \<rightharpoonup> page) \<Rightarrow> SplitResult option \<Rightarrow> (PageId \<rightharpoonup> page) \<Rightarrow> bool" where
  "grown h lo hi nx t es m sp m' \<longleftrightarrow>
     pages_grown m (set (bt_ids t)) (Suc h) m' \<and>
     (\<exists>xs. replaced lo t sp xs \<and> seq_all (bt_inv h) hi nx xs \<and> (\<forall>x \<in> set xs. stored m' (snd x)) \<and>
       distinct (seq_ids xs) \<and> set (seq_ids xs) \<subseteq> set (bt_ids t) \<union> (dom m' - dom m) \<and> seq_entries xs = es)"

lemma pages_grown_put: "q \<in> dom m \<Longrightarrow> pages_grown m {q} n (m(q \<mapsto> p))"
  by (auto simp: pages_grown_def insert_absorb)

lemma pages_grown_trans:
  assumes "pages_grown m A n m'" and "pages_grown m' B k m''" and "A \<subseteq> C" and "B \<inter> dom m \<subseteq> C" and "n + k \<le> l"
  shows "pages_grown m C l m''"
proof -
  have dom: "dom m \<subseteq> dom m'" "dom m' \<subseteq> dom m''" using assms(1,2) by (simp_all add: pages_grown_def)
  have "m'' q = m q" if q: "q \<in> dom m - C" for q
  proof -
    have "q \<in> dom m - A" "q \<in> dom m' - B" using q assms(3,4) dom(1) by blast+
    with assms(1,2) show ?thesis by (simp add: pages_grown_def)
  qed
  moreover have "INVALID_PAGE_ID \<notin> dom m'' - dom m" using assms(1,2) by (auto simp: pages_grown_def)
  moreover have "card (dom m'') \<le> card (dom m) + l" using assms(1,2,5) by (simp add: pages_grown_def)
  ultimately show ?thesis using dom by (auto simp: pages_grown_def)
qed

lemma pages_grown_new:
  assumes "m q = None" and "q \<noteq> INVALID_PAGE_ID" and "p \<in> dom m"
  shows "pages_grown m {p} 1 (m(q \<mapsto> a, p \<mapsto> b, q \<mapsto> c))"
proof -
  have "card (dom (m(q \<mapsto> a, p \<mapsto> b, q \<mapsto> c))) = card (insert q (dom m))" using assms(3) by (auto intro!: arg_cong [where f = card])
  also have "\<dots> \<le> card (dom m) + 1" by (simp add: card_insert_if)
  finally show ?thesis using assms by (auto simp: pages_grown_def)
qed

text \<open>A node around a child that was replaced: its children are again a valid sequence, stored and disjoint.\<close>

lemma replaced_next:
  assumes "replaced l c sp cx"
  shows "next_label hi (cx @ ys) = l" "next_first nx (cx @ ys) = first_leaf c"
proof -
  from assms obtain t1 rest where "cx = (l, t1) # rest" "first_leaf t1 = first_leaf c"
    unfolding replaced_def by (cases sp) auto
  then show "next_label hi (cx @ ys) = l" "next_first nx (cx @ ys) = first_leaf c" by simp_all
qed

lemma distinct_replace:
  assumes "distinct (p # A @ B @ C)" and "distinct B'" and "set B' \<subseteq> set B \<union> (N - D)" and "set (p # A @ B @ C) \<subseteq> D"
  shows "distinct (p # A @ B' @ C)"
proof -
  have "x \<notin> set B'" if "x \<in> set (p # A @ C)" for x using that assms(1,3,4) by auto
  then show ?thesis using assms(1,2) by auto
qed

lemma child_grown:
  assumes inv: "bt_inv (Suc h) lo hi nx (Nd p ks cs)" and st: "stored m (Nd p ks cs)" and dist: "distinct (bt_ids (Nd p ks cs))"
    and it: "items lo ks cs = xs @ (l, c) # ys" and g: "grown h l (next_label hi ys) (next_first nx ys) c es m sp m'"
  obtains cx where "replaced l c sp cx" "seq_all (bt_inv h) hi nx (xs @ cx @ ys)" "\<forall>x \<in> set (xs @ cx @ ys). stored m' (snd x)"
    "distinct (p # seq_ids (xs @ cx @ ys))" "set (seq_ids (xs @ cx @ ys)) \<subseteq> set (bt_ids (Nd p ks cs)) \<union> (dom m' - dom m)"
    "seq_entries (xs @ cx @ ys) = seq_entries xs @ es @ seq_entries ys" "m' p = m p" "p \<in> dom m'"
    "pages_grown m (set (bt_ids (Nd p ks cs))) (Suc h) m'"
proof -
  have len: "length cs = Suc (length ks)" and seq: "seq_all (bt_inv h) hi nx (xs @ (l, c) # ys)"
    using inv it by (auto simp: bt_inv_Suc bt_pre_Suc_Nd)
  from g obtain cx where pg: "pages_grown m (set (bt_ids c)) (Suc h) m'" and cx: "replaced l c sp cx"
    "seq_all (bt_inv h) (next_label hi ys) (next_first nx ys) cx" "\<forall>x \<in> set cx. stored m' (snd x)" "distinct (seq_ids cx)"
    "set (seq_ids cx) \<subseteq> set (bt_ids c) \<union> (dom m' - dom m)" "seq_entries cx = es"
    unfolding grown_def by blast
  have ids: "bt_ids (Nd p ks cs) = p # seq_ids xs @ bt_ids c @ seq_ids ys" unfolding node_ids [OF len, of p lo] it by simp
  have cs: "cs = map snd xs @ c # map snd ys" using it by (auto simp: items_iff [OF len])
  have sub: "set (bt_ids (Nd p ks cs)) \<subseteq> dom m" by (rule stored_dom [OF st])
  have keep: "m' q = m q" if "q \<in> set (p # seq_ids xs @ seq_ids ys)" for q
  proof -
    have "q \<in> dom m - set (bt_ids c)" using that sub dist unfolding ids by auto
    then show ?thesis using pg unfolding pages_grown_def by blast
  qed
  have others: "stored m' (snd x)" if "x \<in> set xs \<union> set ys" for x
  proof -
    have "stored m (snd x)" using st that by (auto simp: cs)
    moreover have "m q = m' q" if "q \<in> set (bt_ids (snd x))" for q
      by (rule keep [symmetric]) (use that \<open>x \<in> set xs \<union> set ys\<close> in auto)
    ultimately show ?thesis using stored_cong [of "snd x" m m'] by simp
  qed
  show thesis
  proof (rule that [OF cx(1)])
    show "seq_all (bt_inv h) hi nx (xs @ cx @ ys)" using seq cx(2) replaced_next [OF cx(1)] by simp
    show "\<forall>x \<in> set (xs @ cx @ ys). stored m' (snd x)" using cx(3) others by auto
    show "distinct (p # seq_ids (xs @ cx @ ys))"
      unfolding map_append concat_append by (rule distinct_replace [OF dist [unfolded ids] cx(4,5) sub [unfolded ids]])
    show "set (seq_ids (xs @ cx @ ys)) \<subseteq> set (bt_ids (Nd p ks cs)) \<union> (dom m' - dom m)" using cx(5) unfolding ids by auto
    show "seq_entries (xs @ cx @ ys) = seq_entries xs @ es @ seq_entries ys" using cx(6) by simp
    show "m' p = m p" by (rule keep) simp
    then show "p \<in> dom m'" using sub ids by auto
    show "pages_grown m (set (bt_ids (Nd p ks cs))) (Suc h) m'"
      by (rule pages_grown_trans [OF pg, of "{}" 0]) (auto simp: ids pages_grown_def simp del: bt_ids.simps)
  qed
qed

text \<open>The parent of a child that did not split.\<close>

lemma grown_kept:
  assumes inv: "bt_inv (Suc h) lo hi nx (Nd p ks cs)" and st: "stored m (Nd p ks cs)" and dist: "distinct (bt_ids (Nd p ks cs))"
    and it: "items lo ks cs = xs @ (l, c) # ys" and g: "grown h l (next_label hi ys) (next_first nx ys) c es m None m'"
  shows "grown (Suc h) lo hi nx (Nd p ks cs) (seq_entries xs @ es @ seq_entries ys) m None m'"
proof (rule child_grown [OF inv st dist it g])
  fix cx assume cx: "replaced l c None cx" "seq_all (bt_inv h) hi nx (xs @ cx @ ys)" "\<forall>x \<in> set (xs @ cx @ ys). stored m' (snd x)"
    "distinct (p # seq_ids (xs @ cx @ ys))" "set (seq_ids (xs @ cx @ ys)) \<subseteq> set (bt_ids (Nd p ks cs)) \<union> (dom m' - dom m)"
    "seq_entries (xs @ cx @ ys) = seq_entries xs @ es @ seq_entries ys" "m' p = m p"
    and pg: "pages_grown m (set (bt_ids (Nd p ks cs))) (Suc h) m'"
  have len: "length cs = Suc (length ks)" and ks: "ks \<noteq> []" "length ks \<le> kInternalMaxKeys" using inv by (auto simp: bt_inv_Suc bt_pre_Suc_Nd)
  from cx(1) obtain t1 where t1: "cx = [(l, t1)]" "bt_id t1 = bt_id c" "first_leaf t1 = first_leaf c" by (auto simp: replaced_def)
  note ir = items_replace [OF len it, of t1]
  let ?cs = "map snd xs @ t1 # map snd ys"
  have I: "items lo ks ?cs = xs @ cx @ ys" using ir(1) t1(1) by simp
  have "bt_inv (Suc h) lo hi nx (Nd p ks ?cs)" using ks ir(2) cx(2) I by (simp add: bt_inv_Suc bt_pre_Suc_Nd del: bt_pre.simps)
  moreover have "stored m' (Nd p ks ?cs)"
    using st cx(3,7) ir(3) [OF t1(2)] t1(1) by auto
  moreover have "bt_ids (Nd p ks ?cs) = p # seq_ids (xs @ cx @ ys)" unfolding node_ids [OF ir(2), of p lo] I ..
  moreover have "bt_entries (Nd p ks ?cs) = seq_entries xs @ es @ seq_entries ys" unfolding node_entries [OF ir(2), of p lo] I by (rule cx(6))
  moreover have "first_leaf (Nd p ks ?cs) = first_leaf (Nd p ks cs)"
    unfolding first_leaf_Nd [OF ir(2), of p nx lo] first_leaf_Nd [OF len, of p nx lo] I it using replaced_next [OF cx(1)] by simp
  moreover have "pages_grown m (set (bt_ids (Nd p ks cs))) (Suc (Suc h)) m'" "p \<in> set (bt_ids (Nd p ks cs))"
    using pg by (simp_all add: pages_grown_def)
  ultimately show ?thesis unfolding grown_def replaced_def using cx(4,5)
    by (intro conjI exI [of _ "[(lo, Nd p ks ?cs)]"]) (auto simp del: stored.simps bt_ids.simps bt_entries.simps first_leaf.simps)
qed

section \<open>The proofs on the pages\<close>

text \<open>The leaf case in terms of entries.\<close>

lemma insert_leaf_eq:
  "insert_leaf ops p (leaf_record p nx es) key rid =
     (let es' = insert_entry key rid es
      in if length es' \<le> kLeafMaxKeys
         then bind_op (po_write ops p (SerializeLeaf (leaf_record p nx es'))) (\<lambda>_. bind_op (po_mark ops p) (\<lambda>_. return_op None))
         else let mid = FindSplitBoundary (map fst es') (length es' div 2)
              in bind_op (po_new ops) (\<lambda>q. bind_op (po_lock ops q kExclusive) (\<lambda>_.
                 bind_op (po_write ops p (SerializeLeaf (leaf_record p q (take mid es')))) (\<lambda>_.
                 bind_op (po_write ops q (SerializeLeaf (leaf_record q nx (drop mid es')))) (\<lambda>_.
                 bind_op (po_mark ops p) (\<lambda>_. bind_op (po_mark ops q) (\<lambda>_.
                   return_op (Some \<lparr>split_key = hd (map fst (drop mid es')), new_right_page_id = q\<rparr>))))))))"
  by (simp add: insert_leaf_def Let_def insert_nth_entry [of es key rid] take_map drop_map)

context page_store
begin

lemma new_lock_ends:
  assumes "holds {} m r s" and "card (dom m) + 1 < 2 ^ 32"
    and "\<And>q s'. m q = None \<Longrightarrow> q \<noteq> INVALID_PAGE_ID \<Longrightarrow> holds {} (m(q \<mapsto> blank_page)) r s' \<Longrightarrow> ends may_fail (f q) s' Q"
  shows "ends may_fail (bind_op (po_new ops) (\<lambda>q. bind_op (po_lock ops q mode) (\<lambda>_. f q))) s Q"
  unfolding ends_bind
proof (rule new_ends [OF assms(1,2)])
  fix q s1 assume q: "m q = None" "q \<noteq> INVALID_PAGE_ID" and s1: "holds {} (m(q \<mapsto> blank_page)) r s1"
  show "ends may_fail (po_lock ops q mode) s1 (\<lambda>_ s'. ends may_fail (f q) s' Q)"
    by (rule lock_ends [OF s1]) (rule assms(3) [OF q])
qed

lemma insert_leaf_ends:
  assumes inv: "bt_inv 0 lo hi nx (Lf p nx es)" and p: "p \<in> dom m" and key: "lo \<le> sint key" "sint key < hi"
    and few: "length (filter (\<lambda>e. fst e = key) es) < kLeafMaxKeys" and room: "card (dom m) + 1 < 2 ^ 32" and s: "holds {} m r s"
  shows "ends may_fail (insert_leaf ops p (leaf_record p nx es) key rid) s
    (\<lambda>sp s'. \<exists>m'. holds {} m' r s' \<and> grown 0 lo hi nx (Lf p nx es) (insert_entry key rid es) m sp m')"
proof -
  let ?es = "insert_entry key rid es"
  have le: "sorted (map (\<lambda>e. sint (fst e)) es)" "length es \<le> kLeafMaxKeys" "\<forall>e \<in> set es. lo \<le> sint (fst e) \<and> sint (fst e) < hi"
    using inv by (auto simp: bt_inv_def)
  note ie = insert_entry_sorted [OF le(1), of key rid]
  have bounds: "\<forall>e \<in> set ?es. lo \<le> sint (fst e) \<and> sint (fst e) < hi" using le(3) key ie(2) by auto
  show ?thesis
  proof (cases "length ?es \<le> kLeafMaxKeys")
    case True
    let ?m = "m(p \<mapsto> SerializeLeaf (leaf_record p nx ?es))"
    have "bt_inv 0 lo hi nx (Lf p nx ?es)" using True ie bounds by (auto simp: bt_inv_def)
    moreover have "stored ?m (Lf p nx ?es)" by (rule leaf_page(2) [OF True]) simp
    ultimately have g: "grown 0 lo hi nx (Lf p nx es) ?es m None ?m"
      using pages_grown_put [OF p] unfolding grown_def replaced_def by (intro conjI exI [of _ "[(lo, Lf p nx ?es)]"]) auto
    have "ends may_fail (bind_op (po_write ops p (SerializeLeaf (leaf_record p nx ?es))) (\<lambda>_. bind_op (po_mark ops p) (\<lambda>_. return_op None))) s
      (\<lambda>sp s'. \<exists>m'. holds {} m' r s' \<and> grown 0 lo hi nx (Lf p nx es) ?es m sp m')"
      by (rule put_ends [OF s _ leaf_page(1) [OF True]]) (use p g in auto)
    with True show ?thesis by (simp add: insert_leaf_eq Let_def)
  next
    case False
    then have n: "length ?es = Suc kLeafMaxKeys" "length es = kLeafMaxKeys" using le(2) ie(3) by simp_all
    define mid where "mid = FindSplitBoundary (map fst ?es) (length ?es div 2)"
    have "\<exists>k \<in> set (map fst ?es). k \<noteq> map fst ?es ! 0"
    proof (rule ccontr)
      assume "\<not> ?thesis"
      moreover have "key \<in> set (map fst ?es)" using ie(2) by force
      ultimately have "\<forall>e \<in> set ?es. fst e = key" by auto
      then have "filter (\<lambda>e. fst e = key) es = es" using ie(2) by (auto simp: filter_id_conv)
      with few n(2) show False by simp
    qed
    from FindSplitBoundary_strict [OF _ _ this, of "length ?es div 2", folded mid_def] n(1)
    have mid: "0 < mid" "mid < length ?es" "fst (?es ! mid) \<noteq> fst (?es ! (mid - 1))"
      by (simp_all add: capacities nth_map)
    let ?l = "take mid ?es" and ?r = "drop mid ?es"
    have cap: "length ?l \<le> kLeafMaxKeys" "length ?r \<le> kLeafMaxKeys" "hd (map fst ?r) = fst (?es ! mid)"
      using mid n(1) by (simp_all add: hd_drop_conv_nth hd_map)
    have main: "ends may_fail
        (bind_op (po_write ops p (SerializeLeaf (leaf_record p q ?l))) (\<lambda>_.
         bind_op (po_write ops q (SerializeLeaf (leaf_record q nx ?r))) (\<lambda>_.
         bind_op (po_mark ops p) (\<lambda>_. bind_op (po_mark ops q) (\<lambda>_.
           return_op (Some \<lparr>split_key = fst (?es ! mid), new_right_page_id = q\<rparr>)))))) s'
        (\<lambda>sp s'. \<exists>m'. holds {} m' r s' \<and> grown 0 lo hi nx (Lf p nx es) ?es m sp m')"
      if q: "m q = None" "q \<noteq> INVALID_PAGE_ID" and s': "holds {} (m(q \<mapsto> blank_page)) r s'" for q s'
    proof -
      let ?m = "m(q \<mapsto> blank_page, p \<mapsto> SerializeLeaf (leaf_record p q ?l), q \<mapsto> SerializeLeaf (leaf_record q nx ?r))"
      have pq: "p \<noteq> q" using p q(1) by auto
      have st: "stored ?m (Lf p q ?l)" "stored ?m (Lf q nx ?r)" using pq by (auto intro!: leaf_page(2) cap(1,2) simp del: stored.simps)
      have "seq_all (bt_inv 0) hi nx [(lo, Lf p q ?l), (sint (fst (?es ! mid)), Lf q nx ?r)]"
        by (rule split_leaf_inv [OF mid _ _ ie(1) bounds]) (use n(1) mid(1,2) in simp_all)
      then have "grown 0 lo hi nx (Lf p nx es) ?es m (Some \<lparr>split_key = fst (?es ! mid), new_right_page_id = q\<rparr>) ?m"
        unfolding grown_def replaced_def using pages_grown_new [OF q p] n(1) st pq q(1) p
        by (intro conjI exI [of _ "[(lo, Lf p q ?l), (sint (fst (?es ! mid)), Lf q nx ?r)]"]) (auto simp del: stored.simps)
      with s' pq p show ?thesis
        by (intro put_two_ends [OF s' _ _ pq leaf_page(1) [OF cap(1)] leaf_page(1) [OF cap(2)]]) auto
    qed
    have "ends may_fail (bind_op (po_new ops) (\<lambda>q. bind_op (po_lock ops q kExclusive) (\<lambda>_.
         bind_op (po_write ops p (SerializeLeaf (leaf_record p q ?l))) (\<lambda>_.
         bind_op (po_write ops q (SerializeLeaf (leaf_record q nx ?r))) (\<lambda>_.
         bind_op (po_mark ops p) (\<lambda>_. bind_op (po_mark ops q) (\<lambda>_.
           return_op (Some \<lparr>split_key = fst (?es ! mid), new_right_page_id = q\<rparr>)))))))) s
        (\<lambda>sp s'. \<exists>m'. holds {} m' r s' \<and> grown 0 lo hi nx (Lf p nx es) ?es m sp m')"
      by (rule new_lock_ends [OF s room]) (rule main)
    with False cap(3) show ?thesis unfolding insert_leaf_eq Let_def mid_def [symmetric] by simp
  qed
qed

lemma insert_internal_ends:
  assumes inv: "bt_inv (Suc h) lo hi nx (Nd p ks cs)" and st: "stored m (Nd p ks cs)" and dist: "distinct (bt_ids (Nd p ks cs))"
    and it: "items lo ks cs = xs @ (l, c) # ys" and g: "grown h l (next_label hi ys) (next_first nx ys) c es m (Some x) m'"
    and room: "card (dom m) + Suc (Suc h) < 2 ^ 32" and s: "holds {} m' r s"
  shows "ends may_fail (insert_internal ops p (node_record p ks cs) (length xs) x) s
    (\<lambda>sp s'. \<exists>m''. holds {} m'' r s' \<and> grown (Suc h) lo hi nx (Nd p ks cs) (seq_entries xs @ es @ seq_entries ys) m sp m'')"
proof (rule child_grown [OF inv st dist it g])
  fix cx assume cx: "replaced l c (Some x) cx" "seq_all (bt_inv h) hi nx (xs @ cx @ ys)" "\<forall>x \<in> set (xs @ cx @ ys). stored m' (snd x)"
    "distinct (p # seq_ids (xs @ cx @ ys))" "set (seq_ids (xs @ cx @ ys)) \<subseteq> set (bt_ids (Nd p ks cs)) \<union> (dom m' - dom m)"
    "seq_entries (xs @ cx @ ys) = seq_entries xs @ es @ seq_entries ys" and p: "p \<in> dom m'"
    and pg: "pages_grown m (set (bt_ids (Nd p ks cs))) (Suc h) m'"
  have len: "length cs = Suc (length ks)" and ks: "ks \<noteq> []" "length ks \<le> kInternalMaxKeys" using inv by (auto simp: bt_inv_Suc bt_pre_Suc_Nd)
  from cx(1) obtain t1 t2 where t: "cx = [(l, t1), (sint (split_key x), t2)]" "bt_id t1 = bt_id c" "first_leaf t1 = first_leaf c"
    "bt_id t2 = new_right_page_id x" by (auto simp: replaced_def)
  define K C where "K = insert_nth (length xs) (split_key x) ks" and "C = map snd xs @ t1 # t2 # map snd ys"
  have I: "items lo K C = xs @ cx @ ys" using items_insert(1) [OF len it, of "split_key x" t1 t2] t(1) by (simp add: K_def C_def)
  have lenC: "length C = Suc (length K)" using items_insert(2) [OF len it, of t1 t2 "split_key x"] by (simp add: K_def C_def)
  have kids: "\<forall>d \<in> set C. stored m' d" using cx(3) t(1) by (auto simp: C_def)
  have Kne: "K \<noteq> []" "length K = Suc (length ks)" using length_items [OF len, of lo] it by (auto simp: K_def insert_nth_def)
  have ch: "insert_nth (length xs + 1) (new_right_page_id x) (map bt_id cs) = map bt_id C" using items_insert(3) [OF len it t(2), of t2] t(4) by (simp add: C_def)
  have eq: "insert_internal ops p (node_record p ks cs) (length xs) x =
     (if length K \<le> kInternalMaxKeys
      then bind_op (po_write ops p (SerializeInternal (node_record p K C))) (\<lambda>_. bind_op (po_mark ops p) (\<lambda>_. return_op None))
      else let mid = FindSplitBoundary K (length K div 2)
           in bind_op (po_new ops) (\<lambda>q. bind_op (po_lock ops q kExclusive) (\<lambda>_.
              bind_op (po_write ops p (SerializeInternal (node_record p (take mid K) (take (mid + 1) C)))) (\<lambda>_.
              bind_op (po_write ops q (SerializeInternal (node_record q (drop (mid + 1) K) (drop (mid + 1) C)))) (\<lambda>_.
              bind_op (po_mark ops p) (\<lambda>_. bind_op (po_mark ops q) (\<lambda>_.
                return_op (Some \<lparr>split_key = K ! mid, new_right_page_id = q\<rparr>))))))))"
    unfolding insert_internal_def Let_def using ch by (simp add: K_def [symmetric] take_map drop_map)
  have fl: "first_leaf (Nd p ks cs) = next_first nx (items lo K C)"
    unfolding first_leaf_Nd [OF len, of p nx lo] I it using replaced_next [OF cx(1)] by simp
  have nodes: "bt_ids (Nd p ks' cs') = p # seq_ids (items lo' ks' cs')" if "length cs' = Suc (length ks')" for p ks' cs' lo'
    by (rule node_ids [OF that])
  show ?thesis
  proof (cases "length K \<le> kInternalMaxKeys")
    case True
    let ?m = "m'(p \<mapsto> SerializeInternal (node_record p K C))"
    have inv': "bt_inv (Suc h) lo hi nx (Nd p K C)" using Kne True lenC cx(2) I by (simp add: bt_inv_Suc bt_pre_Suc_Nd)
    have kids': "\<forall>d \<in> set C. stored ?m d"
    proof
      fix d assume d: "d \<in> set C"
      then have "p \<notin> set (bt_ids d)" using cx(4) t(1) by (auto simp: C_def)
      then show "stored ?m d" using kids d stored_cong [of d m' ?m] by fastforce
    qed
    have st': "stored ?m (Nd p K C)" by (rule node_page(2) [OF lenC True]) (use kids' in auto)
    have "pages_grown m (set (bt_ids (Nd p ks cs))) (Suc (Suc h)) ?m"
      by (rule pages_grown_trans [OF pg pages_grown_put [OF p, of 0]]) auto
    moreover have "bt_ids (Nd p K C) = p # seq_ids (xs @ cx @ ys)" "bt_entries (Nd p K C) = seq_entries (xs @ cx @ ys)"
      "first_leaf (Nd p K C) = first_leaf (Nd p ks cs)"
      unfolding fl node_ids [OF lenC, of p lo] node_entries [OF lenC, of p lo] first_leaf_Nd [OF lenC, of p nx lo] I by simp_all
    moreover have "dom ?m = dom m'" "p \<in> set (bt_ids (Nd p ks cs))" using p by auto
    ultimately have "grown (Suc h) lo hi nx (Nd p ks cs) (seq_entries xs @ es @ seq_entries ys) m None ?m"
      unfolding grown_def replaced_def using inv' st' cx(4-6)
      by (intro conjI exI [of _ "[(lo, Nd p K C)]"]) (auto simp del: stored.simps bt_ids.simps bt_entries.simps first_leaf.simps dom_fun_upd)
    with True show ?thesis unfolding eq if_P [OF True]
      by (intro put_ends [OF s _ node_page(1) [OF lenC True]]) (use p in auto)
  next
    case False
    then have nK: "length K = Suc kInternalMaxKeys" using Kne(2) ks(2) by simp
    define mid where "mid = FindSplitBoundary K (length K div 2)"
    have "sorted_wrt (<) (map fst (items lo K C))" by (rule seq_inv_labels(3)) (use cx(2) I in simp)
    then have "sorted_wrt (<) (lo # map sint K)" using items_iff [OF lenC, of lo "items lo K C"] by simp
    then have "distinct K" by (metis distinct_map sorted_wrt.simps(2) strict_sorted_iff)
    then have mid: "mid = 170" "0 < mid" "mid + 1 < length K"
      using FindSplitBoundary_distinct [of "length K div 2" K] nK by (simp_all add: mid_def capacities)
    let ?K1 = "take mid K" and ?C1 = "take (mid + 1) C" and ?K2 = "drop (mid + 1) K" and ?C2 = "drop (mid + 1) C"
    let ?I1 = "items lo ?K1 ?C1" and ?I2 = "items (sint (K ! mid)) ?K2 ?C2"
    have l1: "length ?C1 = Suc (length ?K1)" "length ?K1 \<le> kInternalMaxKeys" and l2: "length ?C2 = Suc (length ?K2)" "length ?K2 \<le> kInternalMaxKeys"
      using lenC mid(2,3) nK by simp_all
    have I12: "xs @ cx @ ys = ?I1 @ ?I2" using items_halves [OF lenC, of mid lo] mid I by simp
    have main: "ends may_fail
        (bind_op (po_write ops p (SerializeInternal (node_record p ?K1 ?C1))) (\<lambda>_.
         bind_op (po_write ops q (SerializeInternal (node_record q ?K2 ?C2))) (\<lambda>_.
         bind_op (po_mark ops p) (\<lambda>_. bind_op (po_mark ops q) (\<lambda>_.
           return_op (Some \<lparr>split_key = K ! mid, new_right_page_id = q\<rparr>)))))) s'
        (\<lambda>sp s'. \<exists>m''. holds {} m'' r s' \<and> grown (Suc h) lo hi nx (Nd p ks cs) (seq_entries xs @ es @ seq_entries ys) m sp m'')"
      if q: "m' q = None" "q \<noteq> INVALID_PAGE_ID" and s': "holds {} (m'(q \<mapsto> blank_page)) r s'" for q s'
    proof -
      let ?m = "m'(q \<mapsto> blank_page, p \<mapsto> SerializeInternal (node_record p ?K1 ?C1), q \<mapsto> SerializeInternal (node_record q ?K2 ?C2))"
      have pq: "p \<noteq> q" using p q(1) by auto
      have sub: "set (seq_ids (xs @ cx @ ys)) \<subseteq> dom m'" using cx(3) stored_dom by fastforce
      then have qn: "q \<notin> set (seq_ids (?I1 @ ?I2))" using q(1) I12 by auto
      have d12: "distinct (p # seq_ids (?I1 @ ?I2))" using cx(4) I12 by simp
      have kids': "stored ?m d" if d: "d \<in> set C" for d
      proof -
        have "C = map snd (xs @ cx @ ys)" by (simp add: C_def t(1))
        then have "d \<in> snd ` set (?I1 @ ?I2)" using d unfolding I12 by (metis list.set_map)
        then have "p \<notin> set (bt_ids d)" "q \<notin> set (bt_ids d)" using d12 qn by auto
        then show ?thesis using kids d stored_cong [of d m' ?m] by fastforce
      qed
      have st1: "stored ?m (Nd p ?K1 ?C1)" by (rule node_page(2) [OF l1]) (use pq kids' in \<open>auto dest: in_set_takeD\<close>)
      have st2: "stored ?m (Nd q ?K2 ?C2)" by (rule node_page(2) [OF l2]) (use kids' in \<open>auto dest: in_set_dropD\<close>)
      have pg': "pages_grown m (set (bt_ids (Nd p ks cs))) (Suc (Suc h)) ?m"
        by (rule pages_grown_trans [OF pg pages_grown_new [OF q p]]) auto
      have inv': "seq_all (bt_inv (Suc h)) hi nx [(lo, Nd p ?K1 ?C1), (sint (K ! mid), Nd q ?K2 ?C2)]"
        by (rule split_node_inv [OF lenC mid(2,3)]) (use nK mid(2,3) cx(2) I in simp_all)
      have ids: "bt_ids (Nd p ?K1 ?C1) = p # seq_ids ?I1" "bt_ids (Nd q ?K2 ?C2) = q # seq_ids ?I2"
        by (rule node_ids [OF l1(1)], rule node_ids [OF l2(1)])
      have ents: "bt_entries (Nd p ?K1 ?C1) @ bt_entries (Nd q ?K2 ?C2) = seq_entries xs @ es @ seq_entries ys"
        unfolding node_entries [OF l1(1), of p lo] node_entries [OF l2(1), of q "sint (K ! mid)"] using cx(6) I12 by simp
      have fl1: "first_leaf (Nd p ?K1 ?C1) = first_leaf (Nd p ks cs)"
      proof -
        have "next_first nx (items lo K C) = next_first (next_first nx ?I2) ?I1" using I I12 by simp
        also have "\<dots> = first_leaf (Nd p ?K1 ?C1)" by (rule first_leaf_Nd [OF l1(1), symmetric])
        finally show ?thesis using fl by simp
      qed
      have "set (seq_ids (xs @ cx @ ys)) \<subseteq> set (bt_ids (Nd p ks cs)) \<union> (dom ?m - dom m)" "p \<in> set (bt_ids (Nd p ks cs))" "q \<in> dom ?m - dom m"
        using cx(5) q(1) pg by (auto simp: pages_grown_def)
      then have "grown (Suc h) lo hi nx (Nd p ks cs) (seq_entries xs @ es @ seq_entries ys) m (Some \<lparr>split_key = K ! mid, new_right_page_id = q\<rparr>) ?m"
        unfolding grown_def replaced_def using pg' inv' st1 st2 ids ents fl1 d12 qn pq I12
        by (intro conjI exI [of _ "[(lo, Nd p ?K1 ?C1), (sint (K ! mid), Nd q ?K2 ?C2)]"])
          (auto simp del: stored.simps bt_ids.simps bt_entries.simps first_leaf.simps dom_fun_upd seq_all_append)
      with s' pq p show ?thesis
        by (intro put_two_ends [OF s' _ _ pq node_page(1) [OF l1] node_page(1) [OF l2]]) auto
    qed
    have "card (dom m') + 1 < 2 ^ 32" using pg room by (simp add: pages_grown_def)
    then show ?thesis unfolding eq if_not_P [OF False] Let_def mid_def [symmetric]
      by (intro new_lock_ends [OF s] main)
  qed
qed

lemma InsertRecursive_ends:
  assumes "bt_inv h lo hi nx t" and "stored m t" and "distinct (bt_ids t)" and "lo \<le> sint key" "sint key < hi" and "h < n"
    and "length (filter (\<lambda>e. fst e = key) (bt_entries t)) < kLeafMaxKeys" and "card (dom m) + Suc h < 2 ^ 32" and "holds {} m r s"
  shows "ends may_fail (InsertRecursive n ops (bt_id t) key rid) s
    (\<lambda>sp s'. \<exists>m'. holds {} m' r s' \<and> grown h lo hi nx t (insert_entry key rid (bt_entries t)) m sp m')"
  using assms
proof (induction h arbitrary: n lo hi nx t s)
  case 0
  obtain p es where t: "t = Lf p nx es" using 0(1) by (auto simp: bt_inv_0)
  obtain pg where pg: "m p = Some pg" "is_leaf pg" "DeserializeLeaf pg = leaf_record p nx es" using 0(2) t by auto
  obtain n' where n: "n = Suc n'" using 0(6) by (cases n) auto
  show ?case unfolding n InsertRecursive.simps ends_bind t bt.sel
  proof (rule lock_fetch_ends [OF 0(9) pg(1)])
    fix s' assume s': "holds {} m r s'"
    have "ends may_fail (insert_leaf ops p (leaf_record p nx es) key rid) s'
        (\<lambda>sp s'. \<exists>m'. holds {} m' r s' \<and> grown 0 lo hi nx (Lf p nx es) (insert_entry key rid es) m sp m')"
      by (rule insert_leaf_ends [OF _ _ 0(4,5) _ _ s']) (use 0(1,7,8) t pg(1) in auto)
    with pg show "ends may_fail (if is_leaf pg then insert_leaf ops p (DeserializeLeaf pg) key rid
        else let node = DeserializeInternal pg; idx = upper_bound (node_keys node) key
             in bind_op (child_at (node_children node) idx) (\<lambda>child.
                bind_op (InsertRecursive n' ops child key rid) (\<lambda>child_split.
                  case child_split of None \<Rightarrow> return_op None | Some sp \<Rightarrow> insert_internal ops p node idx sp))) s'
        (\<lambda>sp s'. \<exists>m'. holds {} m' r s' \<and> grown 0 lo hi nx (Lf p nx es) (insert_entry key rid (bt_entries (Lf p nx es))) m sp m')"
      by simp
  qed
next
  case (Suc h)
  obtain p ks cs where t: "t = Nd p ks cs" and len: "length cs = Suc (length ks)" and seq: "seq_all (bt_inv h) hi nx (items lo ks cs)"
    using Suc.prems(1) by (auto simp: bt_inv_Suc bt_pre_Suc_Nd)
  obtain pg where pg: "m p = Some pg" "\<not> is_leaf pg" "DeserializeInternal pg = node_record p ks cs" and kids: "\<forall>c \<in> set cs. stored m c"
    using Suc.prems(2) t by auto
  obtain n' where n: "n = Suc n'" "h < n'" using Suc.prems(6) by (cases n) auto
  obtain xs l c ys where rt: "items lo ks cs = xs @ (l, c) # ys" "length xs = upper_bound ks key" "l \<le> sint key" "sint key < next_label hi ys"
    "cs ! upper_bound ks key = c" "upper_bound ks key < length cs"
    by (rule route [OF len Suc.prems(4,5)])
  have c: "bt_inv h l (next_label hi ys) (next_first nx ys) c" using seq rt(1) by simp
  have stc: "stored m c" using kids rt(5,6) by (metis nth_mem)
  have ids: "bt_ids t = p # seq_ids xs @ bt_ids c @ seq_ids ys" unfolding t node_ids [OF len, of p lo] rt(1) by simp
  have ents: "bt_entries t = seq_entries xs @ bt_entries c @ seq_entries ys" unfolding t node_entries [OF len, of p lo] rt(1) by simp
  have ins: "insert_entry key rid (bt_entries t) = seq_entries xs @ insert_entry key rid (bt_entries c) @ seq_entries ys"
    using insert_entry_around [OF seq [unfolded rt(1)] rt(3,4)] ents by simp
  show ?case unfolding n InsertRecursive.simps ends_bind t bt.sel
  proof (rule lock_fetch_ends [OF Suc.prems(9) pg(1)])
    fix s' assume s': "holds {} m r s'"
    have "ends may_fail (InsertRecursive n' ops (bt_id c) key rid) s'
        (\<lambda>sp s'. \<exists>m'. holds {} m' r s' \<and> grown h l (next_label hi ys) (next_first nx ys) c (insert_entry key rid (bt_entries c)) m sp m')"
      by (rule Suc.IH [OF c stc _ rt(3,4) n(2) _ _ s']) (use Suc.prems(3,7,8) ids ents in auto)
    then have "ends may_fail (bind_op (InsertRecursive n' ops (bt_id c) key rid) (\<lambda>child_split.
        case child_split of None \<Rightarrow> return_op None | Some sp \<Rightarrow> insert_internal ops p (node_record p ks cs) (upper_bound ks key) sp)) s'
        (\<lambda>sp s'. \<exists>m'. holds {} m' r s' \<and> grown (Suc h) lo hi nx (Nd p ks cs) (insert_entry key rid (bt_entries t)) m sp m')"
      unfolding ends_bind
    proof (rule ends_mono)
      fix sp s2 assume "\<exists>m'. holds {} m' r s2 \<and> grown h l (next_label hi ys) (next_first nx ys) c (insert_entry key rid (bt_entries c)) m sp m'"
      then obtain m' where m': "holds {} m' r s2" "grown h l (next_label hi ys) (next_first nx ys) c (insert_entry key rid (bt_entries c)) m sp m'"
        by blast
      note par = Suc.prems(1,2,3) [unfolded t]
      show "ends may_fail (case sp of None \<Rightarrow> return_op None | Some sp \<Rightarrow> insert_internal ops p (node_record p ks cs) (upper_bound ks key) sp) s2
          (\<lambda>sp s'. \<exists>m'. holds {} m' r s' \<and> grown (Suc h) lo hi nx (Nd p ks cs) (insert_entry key rid (bt_entries t)) m sp m')"
      proof (cases sp)
        case None
        with m' grown_kept [OF par rt(1)] show ?thesis unfolding ins by auto
      next
        case (Some x)
        with insert_internal_ends [OF par rt(1) m'(2) [unfolded Some] Suc.prems(8) m'(1), unfolded rt(2)] show ?thesis unfolding ins by simp
      qed
    qed
    with pg rt(2,5,6) show "ends may_fail (if is_leaf pg then insert_leaf ops p (DeserializeLeaf pg) key rid
        else let node = DeserializeInternal pg; idx = upper_bound (node_keys node) key
             in bind_op (child_at (node_children node) idx) (\<lambda>child.
                bind_op (InsertRecursive n' ops child key rid) (\<lambda>child_split.
                  case child_split of None \<Rightarrow> return_op None | Some sp \<Rightarrow> insert_internal ops p node idx sp))) s'
        (\<lambda>sp s'. \<exists>m'. holds {} m' r s' \<and> grown (Suc h) lo hi nx (Nd p ks cs) (insert_entry key rid (bt_entries (Nd p ks cs))) m sp m')"
      by (simp add: Let_def child_at_def t)
  qed
qed

text \<open>A tree on grown pages, with the root pointer in place.\<close>

lemma Insert_ends:
  assumes at: "btree_at m es" and few: "length (filter (\<lambda>e. fst e = key) es) < kLeafMaxKeys"
    and room: "card (dom m) + 40 < 2 ^ 32" and s: "holds {} m r s"
  shows "ends may_fail (BPlusTree_Insert ops key rid) s (\<lambda>_ s'. \<exists>m'. holds {} m' r s' \<and> btree_at m' (insert_entry key rid es))"
  using at
proof (cases rule: btree_at_cases)
  case (empty hp)
  have new: "ends may_fail (bind_op (po_write ops q (SerializeLeaf (leaf_record q INVALID_PAGE_ID [(key, rid)]))) (\<lambda>_.
      bind_op (po_mark ops q) (\<lambda>_. SetRootPageId ops q))) s'
      (\<lambda>_ s'. \<exists>m'. holds {} m' r s' \<and> btree_at m' (insert_entry key rid es))"
    if q: "m q = None" "q \<noteq> INVALID_PAGE_ID" and s': "holds {} (m(q \<mapsto> blank_page)) r s'" for q s'
  proof -
    have q0: "q \<noteq> kRootHeaderPageId" using q(1) empty(1) by auto
    have cap: "length [(key, rid)] \<le> kLeafMaxKeys" by (simp add: capacities)
    let ?m1 = "m(q \<mapsto> blank_page, q \<mapsto> SerializeLeaf (leaf_record q INVALID_PAGE_ID [(key, rid)]))"
    let ?m = "?m1(kRootHeaderPageId \<mapsto> SerializeHeader q)"
    have "stored ?m (Lf q INVALID_PAGE_ID [(key, rid)])" by (rule leaf_page(2) [OF cap]) (use q0 in simp)
    then have "tree_at ?m 0 (Lf q INVALID_PAGE_ID [(key, rid)])"
      using q0 q(2) key_range [of key] cap by (auto simp: tree_at_def bt_inv_def simp del: stored.simps)
    then have b: "btree_at ?m (insert_entry key rid es)"
      unfolding btree_at_def using Deserialize_SerializeHeader(1) [of q] empty(3) by (force simp: insert_entry_def)
    show ?thesis
    proof (rule put_ends [OF s' _ leaf_page(1) [OF cap]])
      fix s1 assume s1: "holds {} ?m1 r s1"
      show "ends may_fail (SetRootPageId ops q) s1 (\<lambda>_ s'. \<exists>m'. holds {} m' r s' \<and> btree_at m' (insert_entry key rid es))"
        by (rule SetRootPageId_ends [OF s1]) (use empty(1) b in auto)
    qed simp
  qed
  have "ends may_fail (bind_op (po_new ops) (\<lambda>q. bind_op (po_lock ops q kExclusive) (\<lambda>_.
      bind_op (po_write ops q (SerializeLeaf (leaf_record q INVALID_PAGE_ID [(key, rid)]))) (\<lambda>_.
      bind_op (po_mark ops q) (\<lambda>_. SetRootPageId ops q))))) s'
      (\<lambda>_ s'. \<exists>m'. holds {} m' r s' \<and> btree_at m' (insert_entry key rid es))" if "holds {} m r s'" for s'
    by (rule new_lock_ends [OF that]) (use room new in auto)
  then show ?thesis unfolding BPlusTree_Insert_def by (intro root_ends [OF s empty(1)]) (use empty(2) in simp)
next
  case (tree hp h t)
  have inv: "bt_inv h (- (2 ^ 63)) (2 ^ 63) INVALID_PAGE_ID t" and st: "stored m t" and dist: "distinct (kRootHeaderPageId # bt_ids t)"
    and ids: "INVALID_PAGE_ID \<notin> set (bt_ids t)" using tree(4) by (simp_all add: tree_at_def)
  have after: "ends may_fail (case sp of None \<Rightarrow> return_op () | Some sp \<Rightarrow>
        bind_op (po_new ops) (\<lambda>q. bind_op (po_lock ops q kExclusive) (\<lambda>_.
        bind_op (po_write ops q (SerializeInternal \<lparr>node_page_id = q, node_keys = [split_key sp], node_children = [bt_id t, new_right_page_id sp]\<rparr>)) (\<lambda>_.
        bind_op (po_mark ops q) (\<lambda>_. SetRootPageId ops q))))) s2 (\<lambda>_ s'. \<exists>m'. holds {} m' r s' \<and> btree_at m' (insert_entry key rid es))"
    if s2: "holds {} m' r s2" and g: "grown h (- (2 ^ 63)) (2 ^ 63) INVALID_PAGE_ID t (insert_entry key rid (bt_entries t)) m sp m'" for sp s2 m'
  proof -
    from g obtain xs where pg: "pages_grown m (set (bt_ids t)) (Suc h) m'" and xs: "replaced (- (2 ^ 63)) t sp xs"
      "seq_all (bt_inv h) (2 ^ 63) INVALID_PAGE_ID xs" "\<forall>x \<in> set xs. stored m' (snd x)" "distinct (seq_ids xs)"
      "set (seq_ids xs) \<subseteq> set (bt_ids t) \<union> (dom m' - dom m)" "seq_entries xs = insert_entry key rid es"
      unfolding grown_def tree(5) by blast
    have "kRootHeaderPageId \<in> dom m - set (bt_ids t)" using dist tree(1) by auto
    then have hdr: "m' kRootHeaderPageId = Some hp" using pg tree(1) unfolding pages_grown_def by metis
    have noinv: "INVALID_PAGE_ID \<notin> set (seq_ids xs)" and nohdr: "kRootHeaderPageId \<notin> set (seq_ids xs)"
      using xs(5) ids dist pg tree(1) by (auto simp: pages_grown_def)
    show ?thesis
    proof (cases sp)
      case None
      then obtain t1 where t1: "xs = [(- (2 ^ 63), t1)]" "bt_id t1 = bt_id t" using xs(1) by (auto simp: replaced_def)
      then have "tree_at m' h t1" using xs(2-4) noinv nohdr by (simp add: tree_at_def)
      then have "btree_at m' (insert_entry key rid es)" unfolding btree_at_def using hdr tree(2) t1 xs(6) by force
      with None s2 show ?thesis by auto
    next
      case (Some x)
      then obtain t1 t2 where t12: "xs = [(- (2 ^ 63), t1), (sint (split_key x), t2)]" "bt_id t1 = bt_id t" "bt_id t2 = new_right_page_id x"
        using xs(1) by (auto simp: replaced_def)
      have l: "length [t1, t2] = Suc (length [split_key x])" "length [split_key x] \<le> kInternalMaxKeys" by (simp_all add: capacities)
      have put: "ends may_fail (bind_op (po_write ops q (SerializeInternal (node_record q [split_key x] [t1, t2]))) (\<lambda>_.
          bind_op (po_mark ops q) (\<lambda>_. SetRootPageId ops q))) s' (\<lambda>_ s'. \<exists>m'. holds {} m' r s' \<and> btree_at m' (insert_entry key rid es))"
        if q: "m' q = None" "q \<noteq> INVALID_PAGE_ID" and s': "holds {} (m'(q \<mapsto> blank_page)) r s'" for q s'
      proof -
        have q0: "q \<noteq> kRootHeaderPageId" using q(1) hdr by auto
        let ?m1 = "m'(q \<mapsto> blank_page, q \<mapsto> SerializeInternal (node_record q [split_key x] [t1, t2]))"
        let ?m = "?m1(kRootHeaderPageId \<mapsto> SerializeHeader q)" and ?t = "Nd q [split_key x] [t1, t2]"
        have qn: "q \<notin> set (seq_ids xs)" using q(1) xs(3) stored_dom by fastforce
        have "stored ?m d" if d: "d \<in> set [t1, t2]" for d
        proof -
          have "\<forall>p \<in> set (bt_ids d). m' p = ?m p" using d qn nohdr t12(1) by auto
          moreover have "stored m' d" using d xs(3) t12(1) by auto
          ultimately show ?thesis using stored_cong [of d m' ?m] by blast
        qed
        then have "stored ?m ?t" by (intro node_page(2) [OF l]) (use q0 in auto)
        moreover have "bt_inv (Suc h) (- (2 ^ 63)) (2 ^ 63) INVALID_PAGE_ID ?t"
          using xs(2) t12(1) l by (simp add: bt_inv_Suc bt_pre_Suc_Nd items_def)
        ultimately have "tree_at ?m (Suc h) ?t" using xs(4) noinv nohdr qn q(2) q0 t12(1) by (auto simp: tree_at_def simp del: stored.simps)
        then have b: "btree_at ?m (insert_entry key rid es)"
          unfolding btree_at_def using Deserialize_SerializeHeader(1) [of q] xs(6) t12(1) by force
        show ?thesis
        proof (rule put_ends [OF s' _ node_page(1) [OF l]])
          fix s1 assume s1: "holds {} ?m1 r s1"
          show "ends may_fail (SetRootPageId ops q) s1 (\<lambda>_ s'. \<exists>m'. holds {} m' r s' \<and> btree_at m' (insert_entry key rid es))"
            by (rule SetRootPageId_ends [OF s1]) (use hdr b in auto)
        qed simp
      qed
      have "card (dom m') + 1 < 2 ^ 32" using pg room tree(6) by (simp add: pages_grown_def)
      from new_lock_ends [OF s2 this put] Some t12(2,3) show ?thesis by simp
    qed
  qed
  have rec: "ends may_fail (InsertRecursive recursion_fuel ops (bt_id t) key rid) s'
      (\<lambda>sp s'. \<exists>m'. holds {} m' r s' \<and> grown h (- (2 ^ 63)) (2 ^ 63) INVALID_PAGE_ID t (insert_entry key rid (bt_entries t)) m sp m')"
    if "holds {} m r s'" for s'
    by (rule InsertRecursive_ends [OF inv st _ key_range _ _ _ that]) (use dist tree(5,6) few room in \<open>simp_all add: recursion_fuel_def\<close>)
  have "ends may_fail (bind_op (InsertRecursive recursion_fuel ops (bt_id t) key rid) (\<lambda>sp. case sp of None \<Rightarrow> return_op () | Some sp \<Rightarrow>
        bind_op (po_new ops) (\<lambda>q. bind_op (po_lock ops q kExclusive) (\<lambda>_.
        bind_op (po_write ops q (SerializeInternal \<lparr>node_page_id = q, node_keys = [split_key sp], node_children = [bt_id t, new_right_page_id sp]\<rparr>)) (\<lambda>_.
        bind_op (po_mark ops q) (\<lambda>_. SetRootPageId ops q)))))) s' (\<lambda>_ s'. \<exists>m'. holds {} m' r s' \<and> btree_at m' (insert_entry key rid es))"
    if "holds {} m r s'" for s'
    by (subst ends_bind, rule ends_mono [OF rec [OF that]]) (use after in blast)
  then show ?thesis unfolding BPlusTree_Insert_def
    by (intro root_ends [OF s tree(1)]) (simp only: tree(2,3) if_False)
qed

end

end
