(* ===== verification/Btree_Delete.thy ===== *)
theory Btree_Delete
  imports Btree_Insert
begin

text \<open>
  Deletion from the B+-tree. Below the root, a node may come back from the recursive call underfull, even
  empty (\<open>bt_pre\<close>); its parent mends it with a sibling, by merging the two or by moving entries between
  them (\<open>mended\<close>). The children of the parent are then again a valid sequence with the same entries.
\<close>

section \<open>Two neighbours among the children\<close>

definition window :: "nat \<Rightarrow> int \<Rightarrow> int \<Rightarrow> PageId \<Rightarrow> int64 list \<Rightarrow> bt list \<Rightarrow> (PageId \<rightharpoonup> page) \<Rightarrow> items \<Rightarrow> int \<Rightarrow> bt \<Rightarrow> int64 \<Rightarrow> bt \<Rightarrow> items \<Rightarrow> bool" where
  "window h lo hi nx ks cs m xs l a k b ys \<longleftrightarrow>
     length cs = Suc (length ks) \<and> items lo ks cs = xs @ (l, a) # (sint k, b) # ys \<and>
     seq_all (bt_inv h) l (first_leaf a) xs \<and> seq_all (bt_inv h) hi nx ys \<and>
     bt_pre h l (sint k) (first_leaf b) a \<and> bt_pre h (sint k) (next_label hi ys) (next_first nx ys) b \<and>
     (bt_full a \<or> bt_full b) \<and> l < sint k \<and> sint k < next_label hi ys \<and> (\<forall>c \<in> set cs. stored m c) \<and> distinct (concat (map bt_ids cs))"

text \<open>The parent record and the pages after the repair.\<close>

definition mended :: "nat \<Rightarrow> int \<Rightarrow> int \<Rightarrow> PageId \<Rightarrow> PageId \<Rightarrow> int64 list \<Rightarrow> bt list \<Rightarrow> (PageId \<rightharpoonup> page) \<Rightarrow> InternalNode \<Rightarrow> (PageId \<rightharpoonup> page) \<Rightarrow> bool" where
  "mended h lo hi nx p ks cs m par m' \<longleftrightarrow>
     dom m' = dom m \<and> (\<forall>q. q \<notin> set (concat (map bt_ids cs)) \<longrightarrow> m' q = m q) \<and>
     (\<exists>ks' cs'. par = node_record p ks' cs' \<and> length cs' = Suc (length ks') \<and> length ks' \<le> length ks \<and>
       seq_all (bt_inv h) hi nx (items lo ks' cs') \<and> (\<forall>c \<in> set cs'. stored m' c) \<and> distinct (concat (map bt_ids cs')) \<and>
       set (concat (map bt_ids cs')) \<subseteq> set (concat (map bt_ids cs)) \<and>
       concat (map bt_entries cs') = concat (map bt_entries cs) \<and>
       next_first nx (items lo ks' cs') = next_first nx (items lo ks cs))"

text \<open>What one of the repairs does to the two neighbours.\<close>

definition repaired :: "nat \<Rightarrow> int \<Rightarrow> PageId \<Rightarrow> int \<Rightarrow> bt \<Rightarrow> bt \<Rightarrow> (PageId \<rightharpoonup> page) \<Rightarrow> items \<Rightarrow> (PageId \<rightharpoonup> page) \<Rightarrow> bool" where
  "repaired h u q l a b m W m' \<longleftrightarrow>
     seq_all (bt_inv h) u q W \<and> (\<forall>x \<in> set W. stored m' (snd x)) \<and> distinct (seq_ids W) \<and>
     set (seq_ids W) \<subseteq> set (bt_ids a) \<union> set (bt_ids b) \<and> seq_entries W = bt_entries a @ bt_entries b \<and>
     dom m' = dom m \<and> (\<forall>p. p \<notin> set (bt_ids a) \<union> set (bt_ids b) \<longrightarrow> m' p = m p)"

lemma window_items:
  assumes "window h lo hi nx ks cs m xs l a k b ys"
  shows "length xs < length ks" and "ks ! length xs = k" and "cs = map snd xs @ a # b # map snd ys"
    and "cs ! length xs = a" and "cs ! (length xs + 1) = b" and "length xs + 1 < length cs"
    and "map fst xs @ l # sint k # map fst ys = lo # map sint ks"
proof -
  have len: "length cs = Suc (length ks)" and it: "items lo ks cs = xs @ (l, a) # (sint k, b) # ys" using assms by (auto simp: window_def)
  have lab: "map fst xs @ l # sint k # map fst ys = lo # map sint ks" and cs: "cs = map snd xs @ a # b # map snd ys"
    using it by (auto simp: items_iff [OF len])
  then show "map fst xs @ l # sint k # map fst ys = lo # map sint ks" "cs = map snd xs @ a # b # map snd ys" by simp_all
  show n: "length xs < length ks" using len by (simp add: cs)
  have "sint (ks ! length xs) = (lo # map sint ks) ! Suc (length xs)" using n by simp
  also have "\<dots> = (map fst xs @ l # sint k # map fst ys) ! Suc (length xs)" by (simp only: lab)
  also have "\<dots> = sint k" by (simp add: nth_append)
  finally show "ks ! length xs = k" by (simp add: signed_word_eqI)
  show "cs ! length xs = a" "cs ! (length xs + 1) = b" "length xs + 1 < length cs" by (simp_all add: cs nth_append)
qed

lemma erase_nth_mid: "erase_nth (length xs) (xs @ y # ys) = xs @ ys"
  by (simp add: erase_nth_def)

lemma window_merge_record:
  assumes w: "window h lo hi nx ks cs m xs l a k b ys" and id: "bt_id t = bt_id a"
  shows "drop_child (length xs) (node_record p ks cs) = node_record p (erase_nth (length xs) ks) (map snd xs @ t # map snd ys)"
    and "items lo (erase_nth (length xs) ks) (map snd xs @ t # map snd ys) = xs @ (l, t) # ys"
    and "length (map snd xs @ t # map snd ys) = Suc (length (erase_nth (length xs) ks))"
proof -
  note wi = window_items [OF w]
  have "erase_nth (length xs + 1) (map bt_id cs) = map bt_id (map snd xs @ t # map snd ys)"
    using erase_nth_mid [of "map bt_id (map snd xs @ [a])" "bt_id b" "map bt_id (map snd ys)"] id by (simp add: wi(3))
  then show "drop_child (length xs) (node_record p ks cs) = node_record p (erase_nth (length xs) ks) (map snd xs @ t # map snd ys)"
    by (simp add: drop_child_def)
  show len: "length (map snd xs @ t # map snd ys) = Suc (length (erase_nth (length xs) ks))"
    using w wi(1) arg_cong [OF wi(3), of length] by (auto simp: erase_nth_def window_def)
  have "map fst xs @ l # map fst ys = erase_nth (Suc (length xs)) (map fst xs @ l # sint k # map fst ys)"
    using erase_nth_mid [of "map fst xs @ [l]" "sint k" "map fst ys"] by simp
  also have "\<dots> = lo # map sint (erase_nth (length xs) ks)" by (simp add: wi(7) erase_nth_def take_map drop_map)
  finally show "items lo (erase_nth (length xs) ks) (map snd xs @ t # map snd ys) = xs @ (l, t) # ys"
    by (subst items_iff [OF len]) simp
qed

lemma window_split_record:
  assumes w: "window h lo hi nx ks cs m xs l a k b ys" and id: "bt_id t1 = bt_id a" "bt_id t2 = bt_id b"
  shows "(node_record p ks cs)\<lparr>node_keys := ks[length xs := k']\<rparr> = node_record p (ks[length xs := k']) (map snd xs @ t1 # t2 # map snd ys)"
    and "items lo (ks[length xs := k']) (map snd xs @ t1 # t2 # map snd ys) = xs @ (l, t1) # (sint k', t2) # ys"
    and "length (map snd xs @ t1 # t2 # map snd ys) = Suc (length (ks[length xs := k']))"
proof -
  note wi = window_items [OF w]
  show "(node_record p ks cs)\<lparr>node_keys := ks[length xs := k']\<rparr> = node_record p (ks[length xs := k']) (map snd xs @ t1 # t2 # map snd ys)"
    using id by (simp add: wi(3))
  show len: "length (map snd xs @ t1 # t2 # map snd ys) = Suc (length (ks[length xs := k']))"
    using w arg_cong [OF wi(3), of length] by (simp add: window_def)
  have "map fst xs @ l # sint k' # map fst ys = (map fst xs @ l # sint k # map fst ys)[Suc (length xs) := sint k']"
    by (simp add: list_update_append)
  also have "\<dots> = lo # map sint (ks[length xs := k'])" by (simp add: wi(7) map_update)
  finally show "items lo (ks[length xs := k']) (map snd xs @ t1 # t2 # map snd ys) = xs @ (l, t1) # (sint k', t2) # ys"
    by (subst items_iff [OF len]) simp
qed

lemma distinct_mid: "distinct (A @ B @ C) \<Longrightarrow> x \<in> set A \<union> set C \<Longrightarrow> x \<notin> set B"
  by auto

lemma distinct_swap:
  "distinct (A @ B @ C) \<Longrightarrow> distinct B' \<Longrightarrow> (\<And>x. x \<in> set A \<union> set C \<Longrightarrow> x \<notin> set B') \<Longrightarrow> distinct (A @ B' @ C)"
  by auto

lemma window_mended:
  assumes w: "window h lo hi nx ks cs m xs l a k b ys"
    and rep: "repaired h (next_label hi ys) (next_first nx ys) l a b m W m'"
    and hd: "W = (l, t) # W'" "first_leaf t = first_leaf a"
    and par: "par = node_record p ks' cs'" "items lo ks' cs' = xs @ W @ ys" "length cs' = Suc (length ks')" "length ks' \<le> length ks"
  shows "mended h lo hi nx p ks cs m par m'"
proof -
  note wi = window_items [OF w]
  have it: "items lo ks cs = xs @ (l, a) # (sint k, b) # ys" and seqs: "seq_all (bt_inv h) l (first_leaf a) xs" "seq_all (bt_inv h) hi nx ys"
    and st: "\<forall>c \<in> set cs. stored m c" and dist: "distinct (concat (map bt_ids cs))" using w by (auto simp: window_def)
  note r = rep [unfolded repaired_def]
  have cs': "cs' = map snd xs @ map snd W @ map snd ys" using par(2) by (auto simp: items_iff [OF par(3)])
  have ids: "concat (map bt_ids cs) = seq_ids xs @ (bt_ids a @ bt_ids b) @ seq_ids ys" by (simp add: wi(3) comp_def)
  have ids': "concat (map bt_ids cs') = seq_ids xs @ seq_ids W @ seq_ids ys" by (simp add: cs' comp_def)
  have keep: "m' q = m q" if "q \<in> set (seq_ids xs) \<union> set (seq_ids ys)" for q
  proof -
    have "q \<notin> set (bt_ids a) \<union> set (bt_ids b)" using distinct_mid [OF dist [unfolded ids] that] by simp
    with r show ?thesis by blast
  qed
  have "stored m' c" if c: "c \<in> set cs'" for c
  proof (cases "c \<in> snd ` set W")
    case False
    then have c': "c \<in> snd ` (set xs \<union> set ys)" using c by (auto simp: cs')
    then have "stored m c" using st by (auto simp: wi(3))
    moreover have "\<And>q. q \<in> set (bt_ids c) \<Longrightarrow> m q = m' q" using keep c' by fastforce
    ultimately show ?thesis using stored_cong by blast
  qed (use r in auto)
  moreover have "seq_all (bt_inv h) hi nx (items lo ks' cs')" using r seqs hd unfolding par(2) by simp
  moreover have "distinct (concat (map bt_ids cs'))"
  proof -
    have "x \<notin> set (seq_ids W)" if "x \<in> set (seq_ids xs) \<union> set (seq_ids ys)" for x
    proof -
      have "x \<notin> set (bt_ids a) \<union> set (bt_ids b)" using distinct_mid [OF dist [unfolded ids] that] by simp
      with r show ?thesis by blast
    qed
    then show ?thesis unfolding ids' by (intro distinct_swap [OF dist [unfolded ids]]) (use r in blast)+
  qed
  moreover have "set (concat (map bt_ids cs')) \<subseteq> set (concat (map bt_ids cs))" using r unfolding ids ids' by auto
  moreover have "concat (map bt_entries cs') = concat (map bt_entries cs)" using r by (simp add: cs' wi(3) comp_def)
  moreover have "next_first nx (items lo ks' cs') = next_first nx (items lo ks cs)" using hd unfolding par(2) it by simp
  moreover have "dom m' = dom m \<and> (\<forall>q. q \<notin> set (concat (map bt_ids cs)) \<longrightarrow> m' q = m q)" using r unfolding ids by auto
  ultimately show ?thesis unfolding mended_def using par by blast
qed

section \<open>Repairing leaves\<close>

lemma leaf_window:
  assumes "window 0 lo hi nx ks cs m xs l a k b ys"
  obtains pa ea pb eb where "a = Lf pa pb ea" "b = Lf pb (next_first nx ys) eb"
proof -
  have "leaf_inv l (sint k) (first_leaf b) a" "leaf_inv (sint k) (next_label hi ys) (next_first nx ys) b" using assms by (simp_all add: window_def)
  with that show thesis by (cases a; cases b) auto
qed

lemma leaf_window_facts:
  assumes w: "window 0 lo hi nx ks cs m xs l (Lf pa pb ea) k (Lf pb q eb) ys"
  shows "q = next_first nx ys" and "pa \<noteq> pb" and "pa \<in> dom m" and "pb \<in> dom m" and "ea @ eb \<noteq> []"
    and "sorted (map (\<lambda>e. sint (fst e)) (ea @ eb))" and "\<forall>e \<in> set (ea @ eb). l \<le> sint (fst e) \<and> sint (fst e) < next_label hi ys"
    and "\<forall>e \<in> set ea. sint (fst e) < sint k" and "\<forall>e \<in> set eb. sint k \<le> sint (fst e)" and "length ea \<le> kLeafMaxKeys" and "length eb \<le> kLeafMaxKeys"
    and "stored m (Lf pa pb ea)" and "stored m (Lf pb q eb)"
proof -
  have inv: "leaf_inv l (sint k) pb (Lf pa pb ea)" "leaf_inv (sint k) (next_label hi ys) (next_first nx ys) (Lf pb q eb)" "ea \<noteq> [] \<or> eb \<noteq> []"
    and st: "\<forall>c \<in> set cs. stored m c" and dist: "distinct (concat (map bt_ids cs))" and lk: "l < sint k" "sint k < next_label hi ys"
    using w by (simp_all add: window_def)
  have cs: "cs = map snd xs @ Lf pa pb ea # Lf pb q eb # map snd ys" by (rule window_items(3) [OF w])
  show stab: "stored m (Lf pa pb ea)" "stored m (Lf pb q eb)" using st by (simp_all add: cs del: stored.simps)
  then show "pa \<in> dom m" "pb \<in> dom m" by auto
  show "pa \<noteq> pb" using dist by (simp add: cs)
  show "q = next_first nx ys" "ea @ eb \<noteq> []" "\<forall>e \<in> set ea. sint (fst e) < sint k" "\<forall>e \<in> set eb. sint k \<le> sint (fst e)"
    "length ea \<le> kLeafMaxKeys" "length eb \<le> kLeafMaxKeys" using inv by auto
  show "sorted (map (\<lambda>e. sint (fst e)) (ea @ eb))" using inv by (fastforce simp: sorted_append)
  show "\<forall>e \<in> set (ea @ eb). l \<le> sint (fst e) \<and> sint (fst e) < next_label hi ys" using inv lk by fastforce
qed

lemma merge_repaired:
  assumes "pa \<noteq> pb" "pa \<in> dom m" "sorted (map (\<lambda>e. sint (fst e)) (ea @ eb))" "\<forall>e \<in> set (ea @ eb). l \<le> sint (fst e) \<and> sint (fst e) < u"
    "ea @ eb \<noteq> []" and cap: "length (ea @ eb) \<le> kLeafMaxKeys"
  shows "repaired 0 u q l (Lf pa pb ea) (Lf pb q eb) m [(l, Lf pa q (ea @ eb))] (m(pa \<mapsto> SerializeLeaf (leaf_record pa q (ea @ eb))))"
proof -
  have "stored (m(pa \<mapsto> SerializeLeaf (leaf_record pa q (ea @ eb)))) (Lf pa q (ea @ eb))" by (rule leaf_page(2) [OF cap]) simp
  moreover have "bt_inv 0 l u q (Lf pa q (ea @ eb))" using assms by (auto simp: bt_inv_def)
  ultimately show ?thesis using assms(2) by (auto simp: repaired_def insert_absorb simp del: stored.simps)
qed

text \<open>The division of the entries of two leaves that do not fit in one.\<close>

lemma division:
  assumes lt: "\<forall>e \<in> set ea. sint (fst e) < sint k" "\<forall>e \<in> set eb. sint k \<le> sint (fst e)"
    and cap: "length ea \<le> kLeafMaxKeys" "length eb \<le> kLeafMaxKeys" and big: "kLeafMaxKeys < length ea + length eb"
  obtains j where "FindRebalanceSplit (map fst ea @ map fst eb) (length ea + length eb - kLeafMaxKeys) kLeafMaxKeys ideal = Some j"
    "0 < j" "j < length (ea @ eb)" "fst ((ea @ eb) ! j) \<noteq> fst ((ea @ eb) ! (j - 1))" "j \<le> kLeafMaxKeys" "length (ea @ eb) \<le> j + kLeafMaxKeys"
proof -
  let ?n = "length ea" and ?es = "ea @ eb"
  have ne: "ea \<noteq> []" "eb \<noteq> []" using cap big by auto
  then have "?es ! (?n - 1) \<in> set ea" "?es ! ?n \<in> set eb" by (auto simp: nth_append intro: nth_mem)
  then have "fst (?es ! (?n - 1)) \<noteq> fst (?es ! ?n)" using lt by fastforce
  then have b: "map fst ?es ! (?n - 1) \<noteq> map fst ?es ! ?n" using ne by (simp add: nth_append)
  show thesis
  proof (rule FindRebalanceSplit_strict [OF _ cap(1) b, of "?n + length eb - kLeafMaxKeys" ideal])
    show "?n + length eb - kLeafMaxKeys \<le> ?n" using cap by simp
    fix j assume j: "FindRebalanceSplit (map fst ?es) (?n + length eb - kLeafMaxKeys) kLeafMaxKeys ideal = Some j"
      "?n + length eb - kLeafMaxKeys \<le> j" "j \<le> kLeafMaxKeys" "map fst ?es ! (j - 1) \<noteq> map fst ?es ! j"
    then have "j < length ?es" "0 < j" using big by auto
    then have "fst (?es ! j) \<noteq> fst (?es ! (j - 1))" using j(4) unfolding nth_map [OF \<open>j < length ?es\<close>] nth_map [OF less_imp_diff_less [OF \<open>j < length ?es\<close>]] by simp
    with j \<open>0 < j\<close> \<open>j < length ?es\<close> show thesis by (intro that [of j]) simp_all
  qed
qed

lemma division_repaired:
  assumes "pa \<noteq> pb" "pa \<in> dom m" "pb \<in> dom m" "sorted (map (\<lambda>e. sint (fst e)) es)" "\<forall>e \<in> set es. l \<le> sint (fst e) \<and> sint (fst e) < u"
    and j: "0 < j" "j < length es" "fst (es ! j) \<noteq> fst (es ! (j - 1))" "j \<le> kLeafMaxKeys" "length es \<le> j + kLeafMaxKeys"
    and es: "es = ea @ eb"
  shows "repaired 0 u q l (Lf pa pb ea) (Lf pb q eb) m [(l, Lf pa pb (take j es)), (sint (fst (es ! j)), Lf pb q (drop j es))]
    (m(pa \<mapsto> SerializeLeaf (leaf_record pa pb (take j es)), pb \<mapsto> SerializeLeaf (leaf_record pb q (drop j es))))"
proof -
  let ?m = "m(pa \<mapsto> SerializeLeaf (leaf_record pa pb (take j es)), pb \<mapsto> SerializeLeaf (leaf_record pb q (drop j es)))"
  have cap: "length (take j es) \<le> kLeafMaxKeys" "length (drop j es) \<le> kLeafMaxKeys" using j by simp_all
  have st: "stored ?m (Lf pa pb (take j es))" "stored ?m (Lf pb q (drop j es))"
    by (rule leaf_page(2) [OF cap(1)], use assms(1) in simp, rule leaf_page(2) [OF cap(2)], simp)
  let ?W = "[(l, Lf pa pb (take j es)), (sint (fst (es ! j)), Lf pb q (drop j es))]"
  show ?thesis unfolding repaired_def
  proof (intro conjI)
    show "seq_all (bt_inv 0) u q ?W" by (rule split_leaf_inv [OF j(1-3) j(4,5) assms(4,5)])
    show "\<forall>x \<in> set ?W. stored ?m (snd x)" using st by (simp del: stored.simps)
    show "seq_entries ?W = bt_entries (Lf pa pb ea) @ bt_entries (Lf pb q eb)" by (simp add: es [symmetric])
    show "dom ?m = dom m" using assms(2,3) by auto
  qed (use assms(1) in simp_all)
qed

lemma window_merged:
  assumes w: "window h lo hi nx ks cs m xs l a k b ys" and id: "bt_id t = bt_id a" "first_leaf t = first_leaf a"
    and rep: "repaired h (next_label hi ys) (next_first nx ys) l a b m [(l, t)] m'"
  shows "mended h lo hi nx p ks cs m (drop_child (length xs) (node_record p ks cs)) m'"
  by (rule window_mended [OF w rep _ id(2) window_merge_record(1) [OF w id(1)] _ window_merge_record(3) [OF w id(1)]])
    (use window_items(1) [OF w] window_merge_record(2) [OF w id(1)] in \<open>simp_all add: erase_nth_def\<close>)

lemma window_divided:
  assumes w: "window h lo hi nx ks cs m xs l a k b ys" and id: "bt_id t1 = bt_id a" "bt_id t2 = bt_id b" "first_leaf t1 = first_leaf a"
    and rep: "repaired h (next_label hi ys) (next_first nx ys) l a b m [(l, t1), (sint k', t2)] m'"
  shows "mended h lo hi nx p ks cs m ((node_record p ks cs)\<lparr>node_keys := ks[length xs := k']\<rparr>) m'"
  by (rule window_mended [OF w rep _ id(3) window_split_record(1) [OF w id(1,2)] _ window_split_record(3) [OF w id(1,2)]])
    (use window_split_record(2) [OF w id(1,2)] in simp_all)

text \<open>Both repairs of a pair of leaves, with the pages they write.\<close>

lemma leaves_merged:
  assumes w: "window 0 lo hi nx ks cs m xs l (Lf pa pb ea) k (Lf pb q eb) ys" and cap: "length (ea @ eb) \<le> kLeafMaxKeys"
  shows "mended 0 lo hi nx p ks cs m (drop_child (length xs) (node_record p ks cs)) (m(pa \<mapsto> SerializeLeaf (leaf_record pa q (ea @ eb))))"
proof -
  note f = leaf_window_facts [OF w]
  have "repaired 0 (next_label hi ys) (next_first nx ys) l (Lf pa pb ea) (Lf pb q eb) m [(l, Lf pa q (ea @ eb))]
      (m(pa \<mapsto> SerializeLeaf (leaf_record pa q (ea @ eb))))"
    using merge_repaired [OF f(2,3,6,7,5) cap, of q] f(1) by (simp only:)
  from window_merged [OF w _ _ this] show ?thesis by simp
qed

lemma leaves_divided:
  assumes w: "window 0 lo hi nx ks cs m xs l (Lf pa pb ea) k (Lf pb q eb) ys" and big: "kLeafMaxKeys < length ea + length eb"
  obtains j where "FindRebalanceSplit (map fst ea @ map fst eb) (length ea + length eb - kLeafMaxKeys) kLeafMaxKeys ideal = Some j"
    "length (take j (ea @ eb)) \<le> kLeafMaxKeys" "length (drop j (ea @ eb)) \<le> kLeafMaxKeys"
    "mended 0 lo hi nx p ks cs m ((node_record p ks cs)\<lparr>node_keys := ks[length xs := hd (map fst (drop j (ea @ eb)))]\<rparr>)
      (m(pa \<mapsto> SerializeLeaf (leaf_record pa pb (take j (ea @ eb))), pb \<mapsto> SerializeLeaf (leaf_record pb q (drop j (ea @ eb)))))"
proof -
  note f = leaf_window_facts [OF w]
  show thesis
  proof (rule division [OF f(8-11) big, of ideal])
    fix j assume fr: "FindRebalanceSplit (map fst ea @ map fst eb) (length ea + length eb - kLeafMaxKeys) kLeafMaxKeys ideal = Some j"
      and j: "0 < j" "j < length (ea @ eb)" "fst ((ea @ eb) ! j) \<noteq> fst ((ea @ eb) ! (j - 1))" "j \<le> kLeafMaxKeys" "length (ea @ eb) \<le> j + kLeafMaxKeys"
    have hd: "hd (map fst (drop j (ea @ eb))) = fst ((ea @ eb) ! j)"
      using j(2) by (subst hd_map) (simp_all only: hd_drop_conv_nth drop_eq_Nil not_le not_False_eq_True)
    show thesis
    proof (rule that [OF fr])
      show "length (take j (ea @ eb)) \<le> kLeafMaxKeys" "length (drop j (ea @ eb)) \<le> kLeafMaxKeys" using j(4,5) by simp_all
      show "mended 0 lo hi nx p ks cs m ((node_record p ks cs)\<lparr>node_keys := ks[length xs := hd (map fst (drop j (ea @ eb)))]\<rparr>)
          (m(pa \<mapsto> SerializeLeaf (leaf_record pa pb (take j (ea @ eb))), pb \<mapsto> SerializeLeaf (leaf_record pb q (drop j (ea @ eb)))))"
      proof -
        have "repaired 0 (next_label hi ys) (next_first nx ys) l (Lf pa pb ea) (Lf pb q eb) m
            [(l, Lf pa pb (take j (ea @ eb))), (sint (fst ((ea @ eb) ! j)), Lf pb q (drop j (ea @ eb)))]
            (m(pa \<mapsto> SerializeLeaf (leaf_record pa pb (take j (ea @ eb))), pb \<mapsto> SerializeLeaf (leaf_record pb q (drop j (ea @ eb)))))"
          using division_repaired [OF f(2-4,6,7) j refl, of q] f(1) by (simp only:)
        from window_divided [OF w _ _ _ this] show ?thesis unfolding hd by (simp only: bt.sel first_leaf.simps)
      qed
    qed
  qed
qed

lemma if_ends: "(b \<Longrightarrow> ends mf f s Q) \<Longrightarrow> (\<not> b \<Longrightarrow> ends mf g s Q) \<Longrightarrow> ends mf (if b then f else g) s Q"
  by simp

context page_store
begin

lemma merge_leaves_ends:
  assumes w: "window 0 lo hi nx ks cs m xs l (Lf pa pb ea) k (Lf pb q eb) ys" and cap: "length ea + length eb \<le> kLeafMaxKeys" and s: "holds {} m r s"
  shows "ends may_fail (merge_leaves ops pa (leaf_record pa pb ea) (leaf_record pb q eb) (node_record p ks cs) (length xs)) s
    (\<lambda>par s'. \<exists>m'. holds {} m' r s' \<and> mended 0 lo hi nx p ks cs m par m')"
proof -
  have c: "length (ea @ eb) \<le> kLeafMaxKeys" using cap by simp
  have eq: "(leaf_record pa pb ea)\<lparr>leaf_keys := leaf_keys (leaf_record pa pb ea) @ leaf_keys (leaf_record pb q eb),
      leaf_values := leaf_values (leaf_record pa pb ea) @ leaf_values (leaf_record pb q eb), leaf_next_leaf := leaf_next_leaf (leaf_record pb q eb)\<rparr>
      = leaf_record pa q (ea @ eb)" by simp
  show ?thesis unfolding merge_leaves_def eq
    by (rule put_ends [OF s _ leaf_page(1) [OF c]])
      (use leaf_window_facts(3) [OF w] leaves_merged [OF w c, of p] in \<open>auto simp del: map_append\<close>)
qed

lemma fix_leaf_left_ends:
  assumes w: "window 0 lo hi nx ks cs m xs l (Lf pa pb ea) k (Lf pb q eb) ys" and s: "holds {} m r s"
  shows "ends may_fail (fix_leaf_left ops (node_record p ks cs) (length xs + 1) pb (leaf_record pb q eb)) s
    (\<lambda>par s'. \<exists>m'. holds {} m' r s' \<and> mended 0 lo hi nx p ks cs m par m')"
proof -
  note f = leaf_window_facts [OF w] and wi = window_items [OF w]
  obtain pg where pg: "m pa = Some pg" "DeserializeLeaf pg = leaf_record pa pb ea" using f(12) by auto
  have at: "child_at (map bt_id cs) (length xs + 1 - 1) = return_op pa" using wi(4,6) by (simp add: child_at_def)
  show ?thesis
    unfolding fix_leaf_left_def InternalNode.simps at ends_bind ends_return
  proof (rule lock_fetch_ends [OF s pg(1)], unfold pg(2) Let_def LeafNode.simps LeafNode.update_convs length_map add_diff_cancel_right', rule if_ends, goal_cases)
    case (1 s1)
    then show ?case by (intro merge_leaves_ends [OF w])
  next
    case (2 s1)
    then have big: "kLeafMaxKeys < length ea + length eb" by simp
    obtain j where j: "FindRebalanceSplit (map fst ea @ map fst eb) (length ea + length eb - kLeafMaxKeys) kLeafMaxKeys (length ea + length eb - kLeafMinKeys) = Some j"
        "length (take j (ea @ eb)) \<le> kLeafMaxKeys" "length (drop j (ea @ eb)) \<le> kLeafMaxKeys"
      and m: "mended 0 lo hi nx p ks cs m ((node_record p ks cs)\<lparr>node_keys := ks[length xs := hd (map fst (drop j (ea @ eb)))]\<rparr>)
        (m(pa \<mapsto> SerializeLeaf (leaf_record pa pb (take j (ea @ eb))), pb \<mapsto> SerializeLeaf (leaf_record pb q (drop j (ea @ eb)))))"
      using leaves_divided [OF w big] .
    show ?case unfolding j(1) option.case unfolding map_append [symmetric] take_map drop_map
      by (rule put_two_ends [OF 2(1) _ _ f(2) leaf_page(1) [OF j(2)] leaf_page(1) [OF j(3)]])
        (use f(3,4) m in \<open>auto simp del: map_append\<close>)
  qed
qed

lemma fix_leaf_right_ends:
  assumes w: "window 0 lo hi nx ks cs m xs l (Lf pa pb ea) k (Lf pb q eb) ys" and s: "holds {} m r s"
  shows "ends may_fail (fix_leaf_right ops (node_record p ks cs) (length xs) pa (leaf_record pa pb ea)) s
    (\<lambda>par s'. \<exists>m'. holds {} m' r s' \<and> mended 0 lo hi nx p ks cs m par m')"
proof -
  note f = leaf_window_facts [OF w] and wi = window_items [OF w]
  obtain pg where pg: "m pb = Some pg" "DeserializeLeaf pg = leaf_record pb q eb" using f(13) by auto
  have at: "child_at (map bt_id cs) (length xs + 1) = return_op pb" using wi(5,6) by (simp add: child_at_def)
  show ?thesis
    unfolding fix_leaf_right_def InternalNode.simps at ends_bind ends_return
  proof (rule lock_fetch_ends [OF s pg(1)], unfold pg(2) Let_def LeafNode.simps LeafNode.update_convs length_map, rule if_ends, goal_cases)
    case (1 s1)
    then show ?case by (intro merge_leaves_ends [OF w])
  next
    case (2 s1)
    then have big: "kLeafMaxKeys < length ea + length eb" by simp
    obtain j where j: "FindRebalanceSplit (map fst ea @ map fst eb) (length ea + length eb - kLeafMaxKeys) kLeafMaxKeys kLeafMinKeys = Some j"
        "length (take j (ea @ eb)) \<le> kLeafMaxKeys" "length (drop j (ea @ eb)) \<le> kLeafMaxKeys"
      and m: "mended 0 lo hi nx p ks cs m ((node_record p ks cs)\<lparr>node_keys := ks[length xs := hd (map fst (drop j (ea @ eb)))]\<rparr>)
        (m(pa \<mapsto> SerializeLeaf (leaf_record pa pb (take j (ea @ eb))), pb \<mapsto> SerializeLeaf (leaf_record pb q (drop j (ea @ eb)))))"
      using leaves_divided [OF w big] .
    show ?case unfolding j(1) option.case unfolding map_append [symmetric] take_map drop_map
      by (rule put_two_ends [OF 2(1) _ _ f(2) [symmetric] leaf_page(1) [OF j(3)] leaf_page(1) [OF j(2)]])
        (use f(3,4) m in \<open>auto simp del: map_append simp: fun_upd_twist [OF f(2)]\<close>)
  qed
qed

end

section \<open>Repairing internal nodes\<close>

lemma node_window:
  assumes "window (Suc h) lo hi nx ks cs m xs l a k b ys"
  obtains pa ka ca pb kb cb where "a = Nd pa ka ca" "b = Nd pb kb cb"
proof -
  have "bt_pre (Suc h) l (sint k) (first_leaf b) a" "bt_pre (Suc h) (sint k) (next_label hi ys) (next_first nx ys) b"
    using assms by (simp_all add: window_def)
  with that show thesis by (cases a; cases b) (auto simp: bt_pre_Suc)
qed

text \<open>The separator between the two nodes belongs between their keys: together they are one sequence of children.\<close>

lemma node_window_facts:
  assumes w: "window (Suc h) lo hi nx ks cs m xs l (Nd pa ka ca) k (Nd pb kb cb) ys"
  shows "length ca = Suc (length ka)" and "length cb = Suc (length kb)" and "length ka \<le> kInternalMaxKeys" and "length kb \<le> kInternalMaxKeys"
    and "ka \<noteq> [] \<or> kb \<noteq> []" and "seq_all (bt_inv h) (next_label hi ys) (next_first nx ys) (items l (ka @ k # kb) (ca @ cb))"
    and "stored m (Nd pa ka ca)" and "stored m (Nd pb kb cb)" and "distinct (bt_ids (Nd pa ka ca) @ bt_ids (Nd pb kb cb))"
proof -
  have pre: "bt_pre (Suc h) l (sint k) (first_leaf (Nd pb kb cb)) (Nd pa ka ca)"
      "bt_pre (Suc h) (sint k) (next_label hi ys) (next_first nx ys) (Nd pb kb cb)" "ka \<noteq> [] \<or> kb \<noteq> []"
    and st: "\<forall>c \<in> set cs. stored m c" and dist: "distinct (concat (map bt_ids cs))"
    using w unfolding window_def bt_full.simps by blast+
  show len: "length ca = Suc (length ka)" "length cb = Suc (length kb)" and "length ka \<le> kInternalMaxKeys" "length kb \<le> kInternalMaxKeys"
    "ka \<noteq> [] \<or> kb \<noteq> []" using pre unfolding bt_pre_Suc_Nd by blast+
  have "items l (ka @ k # kb) (ca @ cb) = items l ka ca @ items (sint k) kb cb"
    using items_halves [of "ca @ cb" "ka @ k # kb" "length ka" l] len by simp
  then show "seq_all (bt_inv h) (next_label hi ys) (next_first nx ys) (items l (ka @ k # kb) (ca @ cb))"
    using pre(1,2) unfolding bt_pre_Suc_Nd first_leaf_Nd [OF len(2), of pb "next_first nx ys" "sint k"]
    by (simp add: next_items [OF len(2)])
  have cs: "cs = map snd xs @ Nd pa ka ca # Nd pb kb cb # map snd ys" by (rule window_items(3) [OF w])
  show "stored m (Nd pa ka ca)" "stored m (Nd pb kb cb)" using st by (simp_all add: cs del: stored.simps)
  show "distinct (bt_ids (Nd pa ka ca) @ bt_ids (Nd pb kb cb))" using dist by (simp add: cs Int_Un_distrib del: bt_ids.simps)
qed

lemma nodes_merged:
  assumes w: "window (Suc h) lo hi nx ks cs m xs l (Nd pa ka ca) k (Nd pb kb cb) ys" and cap: "length (ka @ k # kb) \<le> kInternalMaxKeys"
  shows "mended (Suc h) lo hi nx p ks cs m (drop_child (length xs) (node_record p ks cs)) (m(pa \<mapsto> SerializeInternal (node_record pa (ka @ k # kb) (ca @ cb))))"
proof -
  note f = node_window_facts [OF w]
  let ?t = "Nd pa (ka @ k # kb) (ca @ cb)" and ?m = "m(pa \<mapsto> SerializeInternal (node_record pa (ka @ k # kb) (ca @ cb)))"
  have len: "length (ca @ cb) = Suc (length (ka @ k # kb))" using f(1,2) by simp
  have "stored ?m c" if c: "c \<in> set (ca @ cb)" for c
  proof -
    have "stored m c" using c f(7,8) by auto
    moreover have "pa \<notin> set (bt_ids c)" using c f(9) by auto
    ultimately show ?thesis using stored_cong [of c m ?m] by (metis fun_upd_apply)
  qed
  then have st: "stored ?m ?t" by (intro node_page(2) [OF len cap]) simp_all
  have "repaired (Suc h) (next_label hi ys) (next_first nx ys) l (Nd pa ka ca) (Nd pb kb cb) m [(l, ?t)] ?m"
    unfolding repaired_def
  proof (intro conjI)
    show "seq_all (bt_inv (Suc h)) (next_label hi ys) (next_first nx ys) [(l, ?t)]" using f(6) len cap by (simp add: bt_inv_Suc bt_pre_Suc_Nd)
    show "\<forall>x \<in> set [(l, ?t)]. stored ?m (snd x)" using st by (simp del: stored.simps)
    show "dom ?m = dom m" using f(7) by auto
  qed (use f(9) in auto)
  moreover have "first_leaf ?t = first_leaf (Nd pa ka ca)" using f(1) by (cases ca) simp_all
  ultimately show ?thesis by (intro window_merged [OF w, of ?t]) simp_all
qed

lemma nodes_divided:
  assumes w: "window (Suc h) lo hi nx ks cs m xs l (Nd pa ka ca) k (Nd pb kb cb) ys"
    and K: "ka @ k # kb = k1 @ k' # k2" and C: "ca @ cb = c1 @ c2" "length c1 = Suc (length k1)" and ne: "k1 \<noteq> []" "k2 \<noteq> []"
    and cap: "length k1 \<le> kInternalMaxKeys" "length k2 \<le> kInternalMaxKeys"
  shows "mended (Suc h) lo hi nx p ks cs m ((node_record p ks cs)\<lparr>node_keys := ks[length xs := k']\<rparr>)
    (m(pa \<mapsto> SerializeInternal (node_record pa k1 c1), pb \<mapsto> SerializeInternal (node_record pb k2 c2)))"
proof -
  note f = node_window_facts [OF w]
  let ?m = "m(pa \<mapsto> SerializeInternal (node_record pa k1 c1), pb \<mapsto> SerializeInternal (node_record pb k2 c2))"
  have len: "length (c1 @ c2) = Suc (length (k1 @ k' # k2))" using f(1,2) K C(1) by (metis add_Suc_right add_Suc length_append length_Cons)
  then have l2: "length c2 = Suc (length k2)" using C(2) by simp
  have ne': "pa \<noteq> pb" using f(9) by auto
  have kids: "stored ?m c" if c: "c \<in> set (c1 @ c2)" for c
  proof -
    have c': "c \<in> set (ca @ cb)" using c C(1) by simp
    then have "stored m c" using f(7,8) by auto
    moreover have "pa \<notin> set (bt_ids c)" "pb \<notin> set (bt_ids c)" using c' f(9) by auto
    ultimately show ?thesis using stored_cong [of c m ?m] by (metis fun_upd_apply)
  qed
  have st: "stored ?m (Nd pa k1 c1)" "stored ?m (Nd pb k2 c2)"
    using kids ne' by (auto intro!: node_page(2) C(2) l2 cap simp del: stored.simps)
  have ids: "concat (map bt_ids ca) @ concat (map bt_ids cb) = concat (map bt_ids c1) @ concat (map bt_ids c2)"
    and ents: "concat (map bt_entries ca) @ concat (map bt_entries cb) = concat (map bt_entries c1) @ concat (map bt_entries c2)"
    using C(1) by (metis concat_append map_append)+
  have idset: "set (concat (map bt_ids ca)) \<union> set (concat (map bt_ids cb)) = set (concat (map bt_ids c1)) \<union> set (concat (map bt_ids c2))"
    using ids by (metis set_append)
  have "distinct (pa # pb # concat (map bt_ids ca) @ concat (map bt_ids cb))" using f(9) by auto
  then have dist: "distinct (pa # pb # concat (map bt_ids c1) @ concat (map bt_ids c2))" unfolding ids .
  let ?W = "[(l, Nd pa k1 c1), (sint k', Nd pb k2 c2)]"
  have "repaired (Suc h) (next_label hi ys) (next_first nx ys) l (Nd pa ka ca) (Nd pb kb cb) m ?W ?m"
    unfolding repaired_def
  proof (intro conjI)
    show "seq_all (bt_inv (Suc h)) (next_label hi ys) (next_first nx ys) ?W"
      using split_node_inv [OF len _ _ _ _ f(6) [unfolded K C(1)], of "length k1" pa pb] ne cap C(2) by simp
    show "\<forall>x \<in> set ?W. stored ?m (snd x)" using st by (simp del: stored.simps)
    show "distinct (seq_ids ?W)" using dist by auto
    show "set (seq_ids ?W) \<subseteq> set (bt_ids (Nd pa ka ca)) \<union> set (bt_ids (Nd pb kb cb))" using idset by auto
    show "seq_entries ?W = bt_entries (Nd pa ka ca) @ bt_entries (Nd pb kb cb)" using ents by simp
    show "dom ?m = dom m" using f(7,8) by auto
  qed simp
  moreover have "first_leaf (Nd pa k1 c1) = first_leaf (Nd pa ka ca)" using f(1) C by (cases ca; cases c1) auto
  ultimately show ?thesis by (intro window_divided [OF w]) simp_all
qed

context page_store
begin

lemma borrow_left_ends:
  assumes w: "window (Suc h) lo hi nx ks cs m xs l (Nd pa ka ca) k (Nd pb kb cb) ys" and small: "length kb < kInternalMinKeys" and s: "holds {} m r s"
  shows "ends may_fail (borrow_left ops (node_record p ks cs) (length xs + 1) pb (node_record pb kb cb)) s
    (\<lambda>x s'. case x of None \<Rightarrow> holds {} m r s' \<and> length ka \<le> kInternalMinKeys
       | Some par \<Rightarrow> \<exists>m'. holds {} m' r s' \<and> mended (Suc h) lo hi nx p ks cs m par m')"
proof -
  note f = node_window_facts [OF w] and wi = window_items [OF w]
  obtain pg where pg: "m pa = Some pg" "DeserializeInternal pg = node_record pa ka ca" using f(7) by auto
  have at: "child_at (map bt_id cs) (length xs + 1 - 1) = return_op pa" using wi(4,6) by (simp add: child_at_def)
  show ?thesis
    unfolding borrow_left_def InternalNode.simps at ends_bind ends_return
  proof (rule lock_fetch_ends [OF s pg(1)], unfold pg(2) Let_def InternalNode.simps InternalNode.update_convs add_diff_cancel_right' wi(2), rule if_ends, goal_cases)
    case (1 s1)
    then show ?case by simp
  next
    case (2 s1)
    then have ka: "1 < length ka" by (simp add: capacities)
    then have ne: "ka \<noteq> []" "ca \<noteq> []" "butlast ka \<noteq> []" using f(1) by (auto simp flip: length_0_conv)
    have caps: "length (butlast ka) \<le> kInternalMaxKeys" "length (k # kb) \<le> kInternalMaxKeys" using f(3) small by (simp_all add: capacities)
    have len: "length (butlast ca) = Suc (length (butlast ka))" "length (last ca # cb) = Suc (length (k # kb))" using f(1,2) ka by simp_all
    have m: "mended (Suc h) lo hi nx p ks cs m ((node_record p ks cs)\<lparr>node_keys := ks[length xs := last ka]\<rparr>)
        (m(pa \<mapsto> SerializeInternal (node_record pa (butlast ka) (butlast ca)), pb \<mapsto> SerializeInternal (node_record pb (k # kb) (last ca # cb))))"
      by (rule nodes_divided [OF w _ _ len(1) ne(3) _ caps]) (use ne in simp_all)
    have eq: "last (map bt_id ca) # map bt_id cb = map bt_id (last ca # cb)" using ne by (simp add: last_map)
    show ?case unfolding map_butlast [symmetric] eq
      by (rule put_two_ends [OF 2(1) _ _ _ node_page(1) [OF len(1) caps(1)] node_page(1) [OF len(2) caps(2)]])
        (use f(7-9) m in auto)
  qed
qed

lemma borrow_right_ends:
  assumes w: "window (Suc h) lo hi nx ks cs m xs l (Nd pa ka ca) k (Nd pb kb cb) ys" and small: "length ka < kInternalMinKeys" and s: "holds {} m r s"
  shows "ends may_fail (borrow_right ops (node_record p ks cs) (length xs) pa (node_record pa ka ca)) s
    (\<lambda>x s'. case x of None \<Rightarrow> holds {} m r s' \<and> length kb \<le> kInternalMinKeys
       | Some par \<Rightarrow> \<exists>m'. holds {} m' r s' \<and> mended (Suc h) lo hi nx p ks cs m par m')"
proof -
  note f = node_window_facts [OF w] and wi = window_items [OF w]
  obtain pg where pg: "m pb = Some pg" "DeserializeInternal pg = node_record pb kb cb" using f(8) by auto
  have at: "child_at (map bt_id cs) (length xs + 1) = return_op pb" using wi(5,6) by (simp add: child_at_def)
  show ?thesis
    unfolding borrow_right_def InternalNode.simps at ends_bind ends_return
  proof (rule lock_fetch_ends [OF s pg(1)], unfold pg(2) Let_def InternalNode.simps InternalNode.update_convs wi(2), rule if_ends, goal_cases)
    case (1 s1)
    then show ?case by simp
  next
    case (2 s1)
    then have kb: "1 < length kb" by (simp add: capacities)
    then have ne: "kb \<noteq> []" "cb \<noteq> []" "tl kb \<noteq> []" using f(2) by (auto simp flip: length_0_conv)
    have caps: "length (ka @ [k]) \<le> kInternalMaxKeys" "length (tl kb) \<le> kInternalMaxKeys" using f(4) small by (simp_all add: capacities)
    have len: "length (ca @ [hd cb]) = Suc (length (ka @ [k]))" "length (tl cb) = Suc (length (tl kb))" using f(1,2) kb by simp_all
    have ne': "pa \<noteq> pb" using f(9) by auto
    have m: "mended (Suc h) lo hi nx p ks cs m ((node_record p ks cs)\<lparr>node_keys := ks[length xs := hd kb]\<rparr>)
        (m(pa \<mapsto> SerializeInternal (node_record pa (ka @ [k]) (ca @ [hd cb])), pb \<mapsto> SerializeInternal (node_record pb (tl kb) (tl cb))))"
      by (rule nodes_divided [OF w _ _ len(1) _ ne(3) caps]) (use ne in simp_all)
    have eq: "map bt_id ca @ [hd (map bt_id cb)] = map bt_id (ca @ [hd cb])" using ne by (simp add: hd_map)
    show ?case unfolding map_tl [symmetric] eq
      by (rule put_two_ends [OF 2(1) _ _ ne' [symmetric] node_page(1) [OF len(2) caps(2)] node_page(1) [OF len(1) caps(1)]])
        (use f(7,8) m in \<open>auto simp: fun_upd_twist [OF ne']\<close>)
  qed
qed

lemma merge_internals_ends:
  assumes w: "window (Suc h) lo hi nx ks cs m xs l (Nd pa ka ca) k (Nd pb kb cb) ys" and cap: "length ka + length kb < 2 * kInternalMinKeys" and s: "holds {} m r s"
  shows "ends may_fail (merge_internals ops pa (node_record pa ka ca) (node_record pb kb cb) (node_record p ks cs) (length xs)) s
    (\<lambda>par s'. \<exists>m'. holds {} m' r s' \<and> mended (Suc h) lo hi nx p ks cs m par m')"
proof -
  note f = node_window_facts [OF w] and wi = window_items [OF w]
  have len: "length (ca @ cb) = Suc (length (ka @ k # kb))" using f(1,2) by simp
  have c: "length (ka @ k # kb) \<le> kInternalMaxKeys" using cap by (simp add: capacities)
  have eq: "(node_record pa ka ca)\<lparr>node_keys := node_keys (node_record pa ka ca) @ [node_keys (node_record p ks cs) ! length xs] @ node_keys (node_record pb kb cb),
      node_children := node_children (node_record pa ka ca) @ node_children (node_record pb kb cb)\<rparr> = node_record pa (ka @ k # kb) (ca @ cb)"
    using wi(2) by simp
  show ?thesis unfolding merge_internals_def eq
    by (rule put_ends [OF s _ node_page(1) [OF len c]]) (use f(7) nodes_merged [OF w c, of p] in auto)
qed

lemma merge_left_ends:
  assumes w: "window (Suc h) lo hi nx ks cs m xs l (Nd pa ka ca) k (Nd pb kb cb) ys" and cap: "length ka + length kb < 2 * kInternalMinKeys" and s: "holds {} m r s"
  shows "ends may_fail (merge_left ops (node_record p ks cs) (length xs + 1) (node_record pb kb cb)) s
    (\<lambda>par s'. \<exists>m'. holds {} m' r s' \<and> mended (Suc h) lo hi nx p ks cs m par m')"
proof -
  note f = node_window_facts [OF w] and wi = window_items [OF w]
  obtain pg where pg: "m pa = Some pg" "DeserializeInternal pg = node_record pa ka ca" using f(7) by auto
  have at: "child_at (map bt_id cs) (length xs + 1 - 1) = return_op pa" using wi(4,6) by (simp add: child_at_def)
  show ?thesis unfolding merge_left_def InternalNode.simps at ends_bind ends_return
    by (rule lock_fetch_ends [OF s pg(1)], unfold pg(2) add_diff_cancel_right') (rule merge_internals_ends [OF w cap])
qed

lemma merge_right_ends:
  assumes w: "window (Suc h) lo hi nx ks cs m xs l (Nd pa ka ca) k (Nd pb kb cb) ys" and cap: "length ka + length kb < 2 * kInternalMinKeys" and s: "holds {} m r s"
  shows "ends may_fail (merge_right ops (node_record p ks cs) (length xs) pa (node_record pa ka ca)) s
    (\<lambda>par s'. \<exists>m'. holds {} m' r s' \<and> mended (Suc h) lo hi nx p ks cs m par m')"
proof -
  note f = node_window_facts [OF w] and wi = window_items [OF w]
  obtain pg where pg: "m pb = Some pg" "DeserializeInternal pg = node_record pb kb cb" using f(8) by auto
  have at: "child_at (map bt_id cs) (length xs + 1) = return_op pb" using wi(5,6) by (simp add: child_at_def)
  show ?thesis unfolding merge_right_def InternalNode.simps at ends_bind ends_return
    by (rule lock_fetch_ends [OF s pg(1)], unfold pg(2)) (rule merge_internals_ends [OF w cap])
qed

end

section \<open>Mending an underfull child\<close>

text \<open>One child of the parent is underfull, perhaps empty; its neighbours satisfy the invariant.\<close>

definition slot :: "nat \<Rightarrow> int \<Rightarrow> int \<Rightarrow> PageId \<Rightarrow> int64 list \<Rightarrow> bt list \<Rightarrow> (PageId \<rightharpoonup> page) \<Rightarrow> items \<Rightarrow> int \<Rightarrow> bt \<Rightarrow> items \<Rightarrow> bool" where
  "slot h lo hi nx ks cs m xs l c ys \<longleftrightarrow>
     length cs = Suc (length ks) \<and> items lo ks cs = xs @ (l, c) # ys \<and>
     seq_all (bt_inv h) l (first_leaf c) xs \<and> seq_all (bt_inv h) hi nx ys \<and>
     bt_pre h l (next_label hi ys) (next_first nx ys) c \<and> l < next_label hi ys \<and>
     (\<forall>c \<in> set cs. stored m c) \<and> distinct (concat (map bt_ids cs))"

fun bt_small :: "bt \<Rightarrow> bool" where
  "bt_small (Lf p nx es) \<longleftrightarrow> length es < kLeafMinKeys"
| "bt_small (Nd p ks cs) \<longleftrightarrow> length ks < kInternalMinKeys"

lemma not_small: "\<not> bt_small c \<Longrightarrow> bt_full c"
  by (cases c) (auto simp: capacities)

lemma label_word:
  assumes len: "length cs = Suc (length ks)" and it: "items lo ks cs = xs @ y # (u, b) # ys"
  obtains k :: int64 where "u = sint k"
proof -
  have lab: "lo # map sint ks = map fst xs @ fst y # u # map fst ys" using it by (auto simp: items_iff [OF len])
  have "Suc (length xs) < length (lo # map sint ks)" unfolding lab by simp
  then have "u = sint (ks ! length xs)" using arg_cong [OF lab, of "\<lambda>zs. zs ! Suc (length xs)"] by (simp add: nth_append)
  then show thesis by (rule that)
qed

lemma slot_left:
  assumes "slot h lo hi nx ks cs m (xs @ [(l', a)]) l c ys"
  obtains k where "l = sint k" "window h lo hi nx ks cs m xs l' a k c ys"
proof -
  have len: "length cs = Suc (length ks)" and it: "items lo ks cs = xs @ (l', a) # (l, c) # ys" and a: "bt_inv h l' l (first_leaf c) a"
    using assms by (simp_all add: slot_def)
  obtain k :: int64 where k: "l = sint k" by (rule label_word [OF len it])
  have "window h lo hi nx ks cs m xs l' a k c ys"
    using assms a bt_inv_less [OF a] unfolding slot_def window_def k by (auto simp: bt_inv_def)
  with k show thesis by (rule that)
qed

lemma slot_right:
  assumes "slot h lo hi nx ks cs m xs l c ((u, b) # ys)"
  obtains k where "u = sint k" "window h lo hi nx ks cs m xs l c k b ys"
proof -
  have len: "length cs = Suc (length ks)" and it: "items lo ks cs = xs @ (l, c) # (u, b) # ys" and b: "bt_inv h u (next_label hi ys) (next_first nx ys) b"
    using assms by (simp_all add: slot_def)
  obtain k :: int64 where k: "u = sint k" by (rule label_word [OF len it])
  have "window h lo hi nx ks cs m xs l c k b ys"
    using assms b bt_inv_less [OF b] unfolding slot_def window_def k by (auto simp: bt_inv_def)
  with k show thesis by (rule that)
qed

lemma slot_child:
  assumes "slot h lo hi nx ks cs m xs l c ys"
  shows "child_at (map bt_id cs) (length xs) = return_op (bt_id c)" and "stored m c" and "length cs = length xs + Suc (length ys)"
proof -
  have "cs = map snd xs @ c # map snd ys" using assms items_iff [of cs ks lo "xs @ (l, c) # ys"] by (auto simp: slot_def)
  with assms show "child_at (map bt_id cs) (length xs) = return_op (bt_id c)" "stored m c" "length cs = length xs + Suc (length ys)"
    by (auto simp: slot_def child_at_def nth_append)
qed

context page_store
begin

lemma FixUnderflow_leaf:
  assumes sl: "slot 0 lo hi nx ks cs m xs l c ys" and ks: "ks \<noteq> []" and s: "holds {} m r s"
  shows "ends may_fail (FixUnderflow ops (node_record p ks cs) (length xs)) s
    (\<lambda>par s'. \<exists>m'. holds {} m' r s' \<and> mended 0 lo hi nx p ks cs m par m')"
proof -
  note sc = slot_child [OF sl]
  obtain pc nc ec where c: "c = Lf pc nc ec" using sl by (cases c) (auto simp: slot_def)
  obtain pg where pg: "m pc = Some pg" "is_leaf pg" "DeserializeLeaf pg = leaf_record pc nc ec" using sc(2) c by auto
  show ?thesis unfolding FixUnderflow_def InternalNode.simps sc(1) ends_bind ends_return c bt.sel
  proof (rule lock_fetch_ends [OF s pg(1)], unfold pg(3) Let_def if_P [OF pg(2)], rule if_ends, goal_cases)
    case (1 s1)
    then obtain xs' l' a where xs: "xs = xs' @ [(l', a)]" by (cases xs rule: rev_cases) auto
    obtain k where w: "window 0 lo hi nx ks cs m xs' l' a k c ys" by (rule slot_left [OF sl [unfolded xs]])
    show ?case
      by (rule leaf_window [OF w]) (use fix_leaf_left_ends [of lo hi nx ks cs m xs' l' _ _ _ k _ _ ys, OF _ 1(1)] w c xs in auto)
  next
    case (2 s1)
    then have "ys \<noteq> []" using ks sc(3) sl by (auto simp: slot_def)
    then obtain u b ys' where ys: "ys = (u, b) # ys'" by (cases ys) auto
    obtain k where w: "window 0 lo hi nx ks cs m xs l c k b ys'" by (rule slot_right [OF sl [unfolded ys]])
    show ?case
      by (rule leaf_window [OF w]) (use fix_leaf_right_ends [of lo hi nx ks cs m xs l _ _ _ k _ _ ys', OF _ 2(1)] w c in auto)
  qed
qed

lemma FixUnderflow_node:
  assumes sl: "slot (Suc h) lo hi nx ks cs m xs l c ys" and ks: "ks \<noteq> []" and small: "bt_small c" and s: "holds {} m r s"
  shows "ends may_fail (FixUnderflow ops (node_record p ks cs) (length xs)) s
    (\<lambda>par s'. \<exists>m'. holds {} m' r s' \<and> mended (Suc h) lo hi nx p ks cs m par m')"
proof -
  let ?Q = "\<lambda>par s'. \<exists>m'. holds {} m' r s' \<and> mended (Suc h) lo hi nx p ks cs m par m'" and ?P = "node_record p ks cs"
  note sc = slot_child [OF sl]
  obtain pc kc cc where c: "c = Nd pc kc cc" using sl by (cases c) (auto simp: slot_def bt_pre_Suc)
  have kc: "length kc < kInternalMinKeys" using small c by simp
  obtain pg where pg: "m pc = Some pg" "\<not> is_leaf pg" "DeserializeInternal pg = node_record pc kc cc" using sc(2) c by auto
  let ?C = "node_record pc kc cc"
  have left: "ends may_fail (if 0 < length xs then borrow_left ops ?P (length xs) pc ?C else return_op None) s1
      (\<lambda>x s'. case x of None \<Rightarrow> holds {} m r s' \<and> (xs \<noteq> [] \<longrightarrow> (\<forall>s2. holds {} m r s2 \<longrightarrow> ends may_fail (merge_left ops ?P (length xs) ?C) s2 ?Q))
        | Some par \<Rightarrow> ?Q par s')" if s1: "holds {} m r s1" for s1
  proof (cases xs rule: rev_cases)
    case (snoc xs' y)
    obtain l' a where y: "y = (l', a)" by (cases y)
    obtain k where w: "window (Suc h) lo hi nx ks cs m xs' l' a k c ys" by (rule slot_left [OF sl [unfolded snoc y]])
    obtain pa ka ca where a: "a = Nd pa ka ca" using node_window [OF w] .
    note w' = w [unfolded a c]
    have n: "length xs = length xs' + 1" by (simp add: snoc)
    have "ends may_fail (borrow_left ops ?P (length xs) pc ?C) s1
      (\<lambda>x s'. case x of None \<Rightarrow> holds {} m r s' \<and> (xs \<noteq> [] \<longrightarrow> (\<forall>s2. holds {} m r s2 \<longrightarrow> ends may_fail (merge_left ops ?P (length xs) ?C) s2 ?Q))
        | Some par \<Rightarrow> ?Q par s')"
      unfolding n by (rule ends_mono [OF borrow_left_ends [OF w' kc s1]]) (use merge_left_ends [OF w', of r _ p] kc in \<open>auto split: option.splits\<close>)
    then show ?thesis by (simp add: n)
  qed (use s1 in simp)
  have right: "ends may_fail (if length xs + 1 < length (map bt_id cs) then borrow_right ops ?P (length xs) pc ?C else return_op None) s1
      (\<lambda>x s'. case x of None \<Rightarrow> holds {} m r s' \<and> (ys \<noteq> [] \<longrightarrow> (\<forall>s2. holds {} m r s2 \<longrightarrow> ends may_fail (merge_right ops ?P (length xs) pc ?C) s2 ?Q))
        | Some par \<Rightarrow> ?Q par s')" if s1: "holds {} m r s1" for s1
  proof (cases ys)
    case (Cons y ys')
    obtain u b where y: "y = (u, b)" by (cases y)
    obtain k where w: "window (Suc h) lo hi nx ks cs m xs l c k b ys'" by (rule slot_right [OF sl [unfolded Cons y]])
    obtain pb kb cb where b: "b = Nd pb kb cb" using node_window [OF w] .
    note w' = w [unfolded b c]
    have "ends may_fail (borrow_right ops ?P (length xs) pc ?C) s1
      (\<lambda>x s'. case x of None \<Rightarrow> holds {} m r s' \<and> (ys \<noteq> [] \<longrightarrow> (\<forall>s2. holds {} m r s2 \<longrightarrow> ends may_fail (merge_right ops ?P (length xs) pc ?C) s2 ?Q))
        | Some par \<Rightarrow> ?Q par s')"
      by (rule ends_mono [OF borrow_right_ends [OF w' kc s1]]) (use merge_right_ends [OF w', of r _ p] kc in \<open>auto split: option.splits\<close>)
    then show ?thesis using sc(3) by (simp add: Cons)
  qed (use s1 sc(3) in simp)
  have one: "xs \<noteq> [] \<or> ys \<noteq> []" using ks sc(3) sl by (auto simp: slot_def)
  show ?thesis unfolding FixUnderflow_def InternalNode.simps sc(1) ends_bind ends_return c bt.sel
  proof (rule lock_fetch_ends [OF s pg(1)], unfold pg(3) Let_def if_not_P [OF pg(2)] ends_bind, rule ends_mono [OF left])
    fix s1 x s2 assume "holds {} m r s1"
    then show "holds {} m r s1" .
  next
    fix s1 x s2
    assume "case x of None \<Rightarrow> holds {} m r s2 \<and> (xs \<noteq> [] \<longrightarrow> (\<forall>s2. holds {} m r s2 \<longrightarrow> ends may_fail (merge_left ops ?P (length xs) ?C) s2 ?Q)) | Some par \<Rightarrow> ?Q par s2"
    then show "ends may_fail (case x of None \<Rightarrow> bind_op (if length xs + 1 < length (map bt_id cs) then borrow_right ops ?P (length xs) pc ?C else return_op None)
          (\<lambda>r2. case r2 of None \<Rightarrow> if 0 < length xs then merge_left ops ?P (length xs) ?C else merge_right ops ?P (length xs) pc ?C | Some p \<Rightarrow> return_op p)
        | Some p \<Rightarrow> return_op p) s2 ?Q"
    proof (cases x)
      case None
      assume "case x of None \<Rightarrow> holds {} m r s2 \<and> (xs \<noteq> [] \<longrightarrow> (\<forall>s2. holds {} m r s2 \<longrightarrow> ends may_fail (merge_left ops ?P (length xs) ?C) s2 ?Q)) | Some par \<Rightarrow> ?Q par s2"
      with None have s2: "holds {} m r s2" and ml: "xs \<noteq> [] \<longrightarrow> (\<forall>s2. holds {} m r s2 \<longrightarrow> ends may_fail (merge_left ops ?P (length xs) ?C) s2 ?Q)" by simp_all
      show ?thesis unfolding None option.case ends_bind
        by (rule ends_mono [OF right [OF s2]]) (use ml one in \<open>auto split: option.splits\<close>)
    qed simp
  qed
qed

lemma FixUnderflow_ends:
  assumes "slot h lo hi nx ks cs m xs l c ys" and "ks \<noteq> []" and "bt_small c" and "holds {} m r s"
  shows "ends may_fail (FixUnderflow ops (node_record p ks cs) (length xs)) s
    (\<lambda>par s'. \<exists>m'. holds {} m' r s' \<and> mended h lo hi nx p ks cs m par m')"
proof (cases h)
  case 0
  then show ?thesis using FixUnderflow_leaf [OF _ assms(2,4)] assms(1) by simp
next
  case (Suc h')
  then show ?thesis using FixUnderflow_node [OF _ assms(2-4)] assms(1) by simp
qed

end

section \<open>What a deletion from a subtree leaves\<close>

definition shrunk :: "nat \<Rightarrow> int \<Rightarrow> int \<Rightarrow> PageId \<Rightarrow> bt \<Rightarrow> bool \<Rightarrow> int64 \<times> RID \<Rightarrow> (PageId \<rightharpoonup> page) \<Rightarrow> DeleteResult \<Rightarrow> (PageId \<rightharpoonup> page) \<Rightarrow> bool" where
  "shrunk h lo hi nx t is_root e m res m' \<longleftrightarrow>
     (if del_found res
      then e \<in> set (bt_entries t) \<and> dom m' = dom m \<and> (\<forall>q. q \<notin> set (bt_ids t) \<longrightarrow> m' q = m q) \<and>
        (\<exists>t'. bt_pre h lo hi nx t' \<and> bt_id t' = bt_id t \<and> first_leaf t' = first_leaf t \<and> stored m' t' \<and> distinct (bt_ids t') \<and>
          set (bt_ids t') \<subseteq> set (bt_ids t) \<and> bt_entries t' = remove1 e (bt_entries t) \<and>
          del_underflow res = (\<not> is_root \<and> bt_small t'))
      else e \<notin> set (bt_entries t) \<and> m' = m)"

lemma entry_position_None:
  "entry_position (map fst es) (map snd es) key rid i = None \<Longrightarrow> (key, rid) \<notin> set es"
  by (induction es arbitrary: i) (auto split: if_splits)

lemma entry_position_Some:
  "entry_position (map fst es) (map snd es) key rid i = Some j \<Longrightarrow>
     (key, rid) \<in> set es \<and> i \<le> j \<and> erase_nth (j - i) es = remove1 (key, rid) es"
proof (induction es arbitrary: i)
  case (Cons e es)
  show ?case
  proof (cases "e = (key, rid)")
    case False
    then have "entry_position (map fst es) (map snd es) key rid (i + 1) = Some j" using Cons.prems by (cases e) auto
    from Cons.IH [OF this] False show ?thesis by (auto simp: erase_nth_def take_Cons' Suc_le_eq Suc_diff_Suc split: if_splits)
  qed (use Cons.prems in \<open>simp add: erase_nth_def\<close>)
qed simp

lemma erase_nth_map: "erase_nth i (map f xs) = map f (erase_nth i xs)"
  by (simp add: erase_nth_def take_map drop_map)

lemma leaf_shrunk:
  assumes inv: "leaf_inv lo hi nx (Lf p nx es)" and mem: "e \<in> set es" and p: "p \<in> dom m"
  shows "shrunk 0 lo hi nx (Lf p nx es) is_root e m \<lparr>del_found = True, del_underflow = (\<not> is_root \<and> length (remove1 e es) < kLeafMinKeys)\<rparr>
    (m(p \<mapsto> SerializeLeaf (leaf_record p nx (remove1 e es))))"
proof -
  have cap: "length (remove1 e es) \<le> kLeafMaxKeys" using inv by (auto simp: length_remove1)
  have "stored (m(p \<mapsto> SerializeLeaf (leaf_record p nx (remove1 e es)))) (Lf p nx (remove1 e es))" by (rule leaf_page(2) [OF cap]) simp
  moreover have "leaf_inv lo hi nx (Lf p nx (remove1 e es))"
    using inv cap set_remove1_subset [of e es] sorted_map_remove1 [of "\<lambda>e. sint (fst e)" es e] by auto
  ultimately show ?thesis using mem p unfolding shrunk_def
    by (auto simp: insert_absorb simp del: stored.simps leaf_inv.simps intro!: exI [of _ "Lf p nx (remove1 e es)"])
qed

text \<open>A child that is not underfull needs no repair.\<close>

lemma slot_kept:
  assumes "slot h lo hi nx ks cs m xs l c ys" and "bt_full c"
  shows "mended h lo hi nx p ks cs m (node_record p ks cs) m"
proof -
  have "seq_all (bt_inv h) hi nx (items lo ks cs)" using assms by (simp add: slot_def bt_inv_def)
  then show ?thesis using assms(1) unfolding mended_def slot_def by blast
qed

text \<open>The child shrinks in place, and its parent's children form a slot.\<close>

lemma slot_shrunk:
  assumes inv: "bt_inv (Suc h) lo hi nx (Nd p ks cs)" and st: "stored m (Nd p ks cs)" and dist: "distinct (bt_ids (Nd p ks cs))"
    and it: "items lo ks cs = xs @ (l, c) # ys" and key: "l \<le> sint (fst e)" "sint (fst e) < next_label hi ys"
    and sh: "shrunk h l (next_label hi ys) (next_first nx ys) c is_root e m res m'" and found: "del_found res"
  obtains c' where "slot h lo hi nx ks (map snd xs @ c' # map snd ys) m' xs l c' ys" "map bt_id (map snd xs @ c' # map snd ys) = map bt_id cs"
    "set (concat (map bt_ids (map snd xs @ c' # map snd ys))) \<subseteq> set (concat (map bt_ids cs))" "first_leaf c' = first_leaf c"
    "concat (map bt_entries (map snd xs @ c' # map snd ys)) = remove1 e (bt_entries (Nd p ks cs))" "e \<in> set (bt_entries (Nd p ks cs))"
    "del_underflow res = (\<not> is_root \<and> bt_small c')" "dom m' = dom m" "\<forall>q. q \<notin> set (concat (map bt_ids cs)) \<longrightarrow> m' q = m q"
proof -
  have len: "length cs = Suc (length ks)" and seq: "seq_all (bt_inv h) hi nx (xs @ (l, c) # ys)"
    using inv it by (auto simp: bt_inv_Suc bt_pre_Suc_Nd)
  from sh found obtain c' where mem: "e \<in> set (bt_entries c)" and dom: "dom m' = dom m" and fr: "\<forall>q. q \<notin> set (bt_ids c) \<longrightarrow> m' q = m q"
    and c': "bt_pre h l (next_label hi ys) (next_first nx ys) c'" "bt_id c' = bt_id c" "first_leaf c' = first_leaf c" "stored m' c'" "distinct (bt_ids c')"
      "set (bt_ids c') \<subseteq> set (bt_ids c)" "bt_entries c' = remove1 e (bt_entries c)" "del_underflow res = (\<not> is_root \<and> bt_small c')"
    unfolding shrunk_def by auto
  let ?cs = "map snd xs @ c' # map snd ys"
  have cs: "cs = map snd xs @ c # map snd ys" using it by (auto simp: items_iff [OF len])
  have ids: "concat (map bt_ids cs) = seq_ids xs @ bt_ids c @ seq_ids ys" and ids': "concat (map bt_ids ?cs) = seq_ids xs @ bt_ids c' @ seq_ids ys"
    by (simp_all add: cs comp_def)
  have d: "distinct (seq_ids xs @ bt_ids c @ seq_ids ys)" using dist unfolding bt_ids.simps ids by simp
  have out: "q \<notin> set (bt_ids c)" if "q \<in> set (seq_ids xs) \<union> set (seq_ids ys)" for q by (rule distinct_mid [OF d that])
  have "stored m' d" if d: "d \<in> set ?cs" for d
  proof (cases "d = c'")
    case False
    then have d': "d \<in> snd ` (set xs \<union> set ys)" using d by auto
    then have "stored m d" using st by (auto simp: cs)
    moreover have "\<And>q. q \<in> set (bt_ids d) \<Longrightarrow> m q = m' q" using out fr d' by fastforce
    ultimately show ?thesis using stored_cong by blast
  qed (use c'(4) in simp)
  moreover have "distinct (concat (map bt_ids ?cs))"
    unfolding ids' by (rule distinct_swap [OF d c'(5)]) (use out c'(6) in blast)
  moreover have "l < next_label hi ys" using seq bt_inv_less by auto
  ultimately have "slot h lo hi nx ks ?cs m' xs l c' ys"
    using seq c'(1,3) items_replace(1,2) [OF len it, of c'] unfolding slot_def by simp
  moreover have "concat (map bt_entries ?cs) = remove1 e (bt_entries (Nd p ks cs))"
  proof -
    have "e \<notin> set (seq_entries xs)" using seq_around(1) [OF seq key] by auto
    then show ?thesis using mem c'(7) by (simp add: cs comp_def remove1_append)
  qed
  moreover have "set (concat (map bt_ids ?cs)) \<subseteq> set (concat (map bt_ids cs))" unfolding ids ids' using c'(6) by auto
  moreover have "\<forall>q. q \<notin> set (concat (map bt_ids cs)) \<longrightarrow> m' q = m q" unfolding ids using fr by auto
  moreover have "e \<in> set (bt_entries (Nd p ks cs))" using mem by (simp add: cs)
  ultimately show thesis using c' dom items_replace(3) [OF len it c'(2)] by (intro that [of c'])
qed

lemma btree_at_tree: "tree_at m h t \<Longrightarrow> m kRootHeaderPageId = Some p \<Longrightarrow> DeserializeHeaderRootPageId p = bt_id t \<Longrightarrow> btree_at m (bt_entries t)"
  by (auto simp: btree_at_def)

text \<open>The parent is written back with its repaired children.\<close>

lemma mended_shrunk:
  assumes inv: "bt_inv (Suc h) lo hi nx (Nd p ks cs)" and dist: "distinct (bt_ids (Nd p ks cs))" and p: "p \<in> dom m"
    and sl: "slot h lo hi nx ks cs1 m1 xs l c' ys" and sub: "set (concat (map bt_ids cs1)) \<subseteq> set (concat (map bt_ids cs))"
    and it: "items lo ks cs = xs @ (l, c) # ys" "first_leaf c' = first_leaf c"
    and ents: "concat (map bt_entries cs1) = remove1 e (bt_entries (Nd p ks cs))" "e \<in> set (bt_entries (Nd p ks cs))"
    and fr: "dom m1 = dom m" "\<forall>q. q \<notin> set (concat (map bt_ids cs)) \<longrightarrow> m1 q = m q"
    and me: "mended h lo hi nx p ks cs1 m1 par m2"
  shows "length (SerializeInternal par) = PAGE_SIZE" and "p \<in> dom m2"
    and "shrunk (Suc h) lo hi nx (Nd p ks cs) is_root e m \<lparr>del_found = True, del_underflow = (\<not> is_root \<and> length (node_keys par) < kInternalMinKeys)\<rparr>
      (m2(p \<mapsto> SerializeInternal par))"
proof -
  have len: "length cs = Suc (length ks)" and cap: "length ks \<le> kInternalMaxKeys" using inv by (auto simp: bt_inv_Suc bt_pre_Suc_Nd)
  from me obtain ks' cs' where par: "par = node_record p ks' cs'" and len': "length cs' = Suc (length ks')" and le: "length ks' \<le> length ks"
    and seq': "seq_all (bt_inv h) hi nx (items lo ks' cs')" and st': "\<forall>c \<in> set cs'. stored m2 c" and dist': "distinct (concat (map bt_ids cs'))"
    and sub': "set (concat (map bt_ids cs')) \<subseteq> set (concat (map bt_ids cs1))" and ents': "concat (map bt_entries cs') = concat (map bt_entries cs1)"
    and nf: "next_first nx (items lo ks' cs') = next_first nx (items lo ks cs1)"
    and fr2: "dom m2 = dom m1" "\<forall>q. q \<notin> set (concat (map bt_ids cs1)) \<longrightarrow> m2 q = m1 q" unfolding mended_def by blast
  have cap': "length ks' \<le> kInternalMaxKeys" using le cap by simp
  show "length (SerializeInternal par) = PAGE_SIZE" unfolding par by (rule node_page(1) [OF len' cap'])
  show "p \<in> dom m2" using p fr(1) fr2(1) by simp
  let ?m = "m2(p \<mapsto> SerializeInternal par)" and ?t = "Nd p ks' cs'"
  have pn: "p \<notin> set (concat (map bt_ids cs))" using dist by simp
  then have pn': "p \<notin> set (concat (map bt_ids cs'))" using sub sub' by blast
  have "stored ?m d" if d: "d \<in> set cs'" for d
  proof -
    have "p \<notin> set (bt_ids d)" using d pn' by auto
    with st' d show ?thesis using stored_cong [of d m2 ?m] by fastforce
  qed
  then have "stored ?m ?t" by (intro node_page(2) [OF len' cap']) (simp_all add: par)
  moreover have "bt_pre (Suc h) lo hi nx ?t" using len' cap' seq' by (simp add: bt_pre_Suc_Nd)
  moreover have "first_leaf ?t = first_leaf (Nd p ks cs)"
  proof -
    have "next_first nx (items lo ks cs1) = next_first nx (items lo ks cs)" using sl it by (simp add: slot_def)
    then show ?thesis using nf first_leaf_Nd [OF len', of p nx lo] first_leaf_Nd [OF len, of p nx lo] by simp
  qed
  moreover have "distinct (bt_ids ?t)" using dist' pn' by simp
  moreover have "set (bt_ids ?t) \<subseteq> set (bt_ids (Nd p ks cs))" unfolding bt_ids.simps list.set using sub sub' by blast
  moreover have "bt_entries ?t = remove1 e (bt_entries (Nd p ks cs))" using ents(1) ents' by simp
  moreover have "\<forall>q. q \<notin> set (bt_ids (Nd p ks cs)) \<longrightarrow> ?m q = m q"
  proof (intro allI impI)
    fix q assume "q \<notin> set (bt_ids (Nd p ks cs))"
    then have "q \<noteq> p" "q \<notin> set (concat (map bt_ids cs))" by auto
    moreover from this have "q \<notin> set (concat (map bt_ids cs1))" using sub by blast
    ultimately show "?m q = m q" using fr(2) fr2(2) by simp
  qed
  moreover have "dom ?m = dom m" using p fr(1) fr2(1) by auto
  moreover have "length (node_keys par) < kInternalMinKeys \<longleftrightarrow> bt_small ?t" by (simp add: par)
  ultimately show "shrunk (Suc h) lo hi nx (Nd p ks cs) is_root e m \<lparr>del_found = True, del_underflow = (\<not> is_root \<and> length (node_keys par) < kInternalMinKeys)\<rparr> ?m"
    using ents(2) unfolding shrunk_def by (auto simp del: stored.simps bt_ids.simps bt_entries.simps first_leaf.simps bt_small.simps dom_fun_upd intro!: exI [of _ ?t])
qed

context page_store
begin

lemma delete_leaf_ends:
  assumes inv: "leaf_inv lo hi nx (Lf p nx es)" and p: "p \<in> dom m" and s: "holds {} m r s"
  shows "ends may_fail (delete_leaf ops p is_root (leaf_record p nx es) key rid) s
    (\<lambda>res s'. \<exists>m'. holds {} m' r s' \<and> shrunk 0 lo hi nx (Lf p nx es) is_root (key, rid) m res m')"
proof (cases "entry_position (map fst es) (map snd es) key rid 0")
  case None
  then show ?thesis using s entry_position_None by (auto simp: delete_leaf_def shrunk_def)
next
  case (Some j)
  have j: "(key, rid) \<in> set es" "erase_nth j es = remove1 (key, rid) es" using entry_position_Some [OF Some] by auto
  have cap: "length (remove1 (key, rid) es) \<le> kLeafMaxKeys" using inv by (auto simp: length_remove1)
  show ?thesis unfolding delete_leaf_def LeafNode.simps Some option.case Let_def erase_nth_map LeafNode.update_convs length_map j(2)
    by (rule put_ends [OF s _ leaf_page(1) [OF cap]]) (use p leaf_shrunk [OF inv j(1) p] in auto)
qed

lemma DeleteRecursive_ends:
  assumes "bt_inv h lo hi nx t" and "stored m t" and "distinct (bt_ids t)" and "lo \<le> sint key" "sint key < hi" and "h < n" and "holds {} m r s"
  shows "ends may_fail (DeleteRecursive n ops (bt_id t) is_root key rid) s
    (\<lambda>res s'. \<exists>m'. holds {} m' r s' \<and> shrunk h lo hi nx t is_root (key, rid) m res m')"
  using assms
proof (induction h arbitrary: n lo hi nx t s is_root)
  case 0
  obtain p es where t: "t = Lf p nx es" and inv: "leaf_inv lo hi nx t" using 0(1) by (auto simp: bt_inv_0)
  obtain pg where pg: "m p = Some pg" "is_leaf pg" "DeserializeLeaf pg = leaf_record p nx es" using 0(2) t by auto
  obtain n' where n: "n = Suc n'" using 0(6) by (cases n) auto
  show ?case unfolding n DeleteRecursive.simps ends_bind t bt.sel
  proof (rule lock_fetch_ends [OF 0(7) pg(1)], unfold if_P [OF pg(2)] pg(3))
    fix s' assume "holds {} m r s'"
    from delete_leaf_ends [OF inv [unfolded t] _ this] pg(1) show "ends may_fail (delete_leaf ops p is_root (leaf_record p nx es) key rid) s'
      (\<lambda>res s'. \<exists>m'. holds {} m' r s' \<and> shrunk 0 lo hi nx (Lf p nx es) is_root (key, rid) m res m')" by blast
  qed
next
  case (Suc h)
  obtain p ks cs where t: "t = Nd p ks cs" and len: "length cs = Suc (length ks)" and seq: "seq_all (bt_inv h) hi nx (items lo ks cs)" and ks: "ks \<noteq> []"
    using Suc.prems(1) by (auto simp: bt_inv_Suc bt_pre_Suc_Nd)
  obtain pg where pg: "m p = Some pg" "\<not> is_leaf pg" "DeserializeInternal pg = node_record p ks cs" and kids: "\<forall>c \<in> set cs. stored m c"
    using Suc.prems(2) t by auto
  obtain n' where n: "n = Suc n'" "h < n'" using Suc.prems(6) by (cases n) auto
  obtain xs l c ys where rt: "items lo ks cs = xs @ (l, c) # ys" "length xs = upper_bound ks key" "l \<le> sint key" "sint key < next_label hi ys"
    "cs ! upper_bound ks key = c" "upper_bound ks key < length cs"
    by (rule route [OF len Suc.prems(4,5)])
  have c: "bt_inv h l (next_label hi ys) (next_first nx ys) c" using seq rt(1) by simp
  have stc: "stored m c" using kids rt(5,6) by (metis nth_mem)
  have ids: "bt_ids t = p # seq_ids xs @ bt_ids c @ seq_ids ys" unfolding t node_ids [OF len, of p lo] rt(1) by simp
  have at: "child_at (map bt_id cs) (upper_bound ks key) = return_op (bt_id c)" using rt(5,6) by (simp add: child_at_def)
  note par = Suc.prems(1,2,3) [unfolded t]
  have p: "p \<in> dom m" using pg(1) by auto
  let ?Q = "\<lambda>res s'. \<exists>m'. holds {} m' r s' \<and> shrunk (Suc h) lo hi nx (Nd p ks cs) is_root (key, rid) m res m'"
  let ?after = "\<lambda>node. bind_op (po_write ops p (SerializeInternal node)) (\<lambda>_. bind_op (po_mark ops p) (\<lambda>_.
      return_op \<lparr>del_found = True, del_underflow = (\<not> is_root \<and> length (node_keys node) < kInternalMinKeys)\<rparr>))"
  have found: "ends may_fail (if del_underflow res then FixUnderflow ops (node_record p ks cs) (upper_bound ks key) else return_op (node_record p ks cs)) s2
      (\<lambda>node s'. ends may_fail (?after node) s' ?Q)"
    if s2: "holds {} m1 r s2" and sh: "shrunk h l (next_label hi ys) (next_first nx ys) c False (key, rid) m res m1" and f: "del_found res" for res s2 m1
  proof (rule slot_shrunk [OF par rt(1) _ _ sh f])
    show "l \<le> sint (fst (key, rid))" "sint (fst (key, rid)) < next_label hi ys" using rt(3,4) by simp_all
    fix c' assume sl: "slot h lo hi nx ks (map snd xs @ c' # map snd ys) m1 xs l c' ys" and eq: "map bt_id (map snd xs @ c' # map snd ys) = map bt_id cs"
      and rest: "set (concat (map bt_ids (map snd xs @ c' # map snd ys))) \<subseteq> set (concat (map bt_ids cs))" "first_leaf c' = first_leaf c"
        "concat (map bt_entries (map snd xs @ c' # map snd ys)) = remove1 (key, rid) (bt_entries (Nd p ks cs))" "(key, rid) \<in> set (bt_entries (Nd p ks cs))"
      and u: "del_underflow res = (\<not> False \<and> bt_small c')" and fr: "dom m1 = dom m" "\<forall>q. q \<notin> set (concat (map bt_ids cs)) \<longrightarrow> m1 q = m q"
    note ms = mended_shrunk [OF par(1,3) p sl rest(1) rt(1) rest(2-4) fr]
    have after: "ends may_fail (?after node) s' ?Q"
      if "\<exists>m2. holds {} m2 r s' \<and> mended h lo hi nx p ks (map snd xs @ c' # map snd ys) m1 node m2" for node s'
    proof -
      from that obtain m2 where m2: "holds {} m2 r s'" "mended h lo hi nx p ks (map snd xs @ c' # map snd ys) m1 node m2" by blast
      show ?thesis by (rule put_ends [OF m2(1) _ ms(1) [OF m2(2)]]) (use ms(2,3) [OF m2(2)] in auto)
    qed
    show ?thesis
    proof (rule if_ends)
      assume "del_underflow res"
      then have "bt_small c'" using u by simp
      from FixUnderflow_ends [OF sl ks this s2, of p] after
      show "ends may_fail (FixUnderflow ops (node_record p ks cs) (upper_bound ks key)) s2 (\<lambda>node s'. ends may_fail (?after node) s' ?Q)"
        unfolding eq rt(2) by (rule ends_mono)
    next
      assume "\<not> del_underflow res"
      then have "bt_full c'" using u not_small by simp
      from slot_kept [OF sl this, of p] s2
      show "ends may_fail (return_op (node_record p ks cs)) s2 (\<lambda>node s'. ends may_fail (?after node) s' ?Q)"
        unfolding ends_return eq by (intro after) blast
    qed
  qed
  show ?case unfolding n DeleteRecursive.simps ends_bind t bt.sel
  proof (rule lock_fetch_ends [OF Suc.prems(7) pg(1)], unfold if_not_P [OF pg(2)] pg(3) Let_def InternalNode.simps at ends_bind ends_return)
    fix s' assume s': "holds {} m r s'"
    have rec: "ends may_fail (DeleteRecursive n' ops (bt_id c) False key rid) s'
        (\<lambda>res s'. \<exists>m'. holds {} m' r s' \<and> shrunk h l (next_label hi ys) (next_first nx ys) c False (key, rid) m res m')"
      by (rule Suc.IH [OF c stc _ rt(3,4) n(2) s']) (use Suc.prems(3) ids in auto)
    show "ends may_fail (DeleteRecursive n' ops (bt_id c) False key rid) s' (\<lambda>res s'. ends may_fail
        (if \<not> del_found res then return_op \<lparr>del_found = False, del_underflow = False\<rparr>
         else bind_op (if del_underflow res then FixUnderflow ops (node_record p ks cs) (upper_bound ks key) else return_op (node_record p ks cs)) ?after) s' ?Q)"
    proof (rule ends_mono [OF rec], rule if_ends)
      fix res s2 assume post: "\<exists>m'. holds {} m' r s2 \<and> shrunk h l (next_label hi ys) (next_first nx ys) c False (key, rid) m res m'"
      {
        assume nf: "\<not> del_found res"
        have "(key, rid) \<notin> set (bt_entries c)" and s2: "holds {} m r s2" using post nf by (auto simp: shrunk_def)
        moreover have "(key, rid) \<notin> set (seq_entries xs)" "(key, rid) \<notin> set (seq_entries ys)" using seq_around [OF seq [unfolded rt(1)] rt(3,4)] by (metis fst_conv less_irrefl)+
        ultimately have "(key, rid) \<notin> set (bt_entries (Nd p ks cs))" unfolding node_entries [OF len, of p lo] rt(1) by simp
        with s2 show "ends may_fail (return_op \<lparr>del_found = False, del_underflow = False\<rparr>) s2 ?Q" by (auto simp: shrunk_def)
      }
      assume "\<not> \<not> del_found res"
      with post found show "ends may_fail (bind_op (if del_underflow res then FixUnderflow ops (node_record p ks cs) (upper_bound ks key) else return_op (node_record p ks cs)) ?after) s2 ?Q"
        unfolding ends_bind by blast
    qed
  qed
qed

lemma Delete_ends:
  assumes at: "btree_at m es" and s: "holds {} m r s"
  shows "ends may_fail (BPlusTree_Delete ops key rid) s
    (\<lambda>found s'. found = ((key, rid) \<in> set es) \<and> (\<exists>m'. holds {} m' r s' \<and> dom m' = dom m \<and> btree_at m' (remove1 (key, rid) es)))"
    (is "ends may_fail _ s ?Q")
  using at
proof (cases rule: btree_at_cases)
  case (empty hp)
  show ?thesis unfolding BPlusTree_Delete_def
    by (rule root_ends [OF s empty(1)]) (use empty at in auto)
next
  case (tree hp h t)
  have inv: "bt_inv h (- (2 ^ 63)) (2 ^ 63) INVALID_PAGE_ID t" and st: "stored m t" and dist: "distinct (bt_ids t)" and hid: "kRootHeaderPageId \<notin> set (bt_ids t)"
    and ids: "INVALID_PAGE_ID \<notin> set (bt_ids t)" using tree(4) by (simp_all add: tree_at_def)
  let ?collapse = "\<lambda>root_page. if is_leaf root_page
      then if leaf_keys (DeserializeLeaf root_page) = [] then SetRootPageId ops INVALID_PAGE_ID else return_op ()
      else if length (node_children (DeserializeInternal root_page)) = 1
           then bind_op (child_at (node_children (DeserializeInternal root_page)) 0) (SetRootPageId ops)
           else return_op ()"
  have after: "ends may_fail (po_fetch ops (bt_id t)) s2 (\<lambda>page s'. ends may_fail (?collapse page) s' (\<lambda>_ s'. ?Q True s'))"
    if s2: "holds {} m1 r s2" and sh: "shrunk h (- (2 ^ 63)) (2 ^ 63) INVALID_PAGE_ID t True (key, rid) m res m1" and f: "del_found res" for res s2 m1
  proof -
    from sh f obtain t' where mem: "(key, rid) \<in> set es" and dom: "dom m1 = dom m" and fr: "\<forall>q. q \<notin> set (bt_ids t) \<longrightarrow> m1 q = m q"
      and pre: "bt_pre h (- (2 ^ 63)) (2 ^ 63) INVALID_PAGE_ID t'" and id: "bt_id t' = bt_id t" and st': "stored m1 t'" and dist': "distinct (bt_ids t')"
      and sub: "set (bt_ids t') \<subseteq> set (bt_ids t)" and ents: "bt_entries t' = remove1 (key, rid) es"
      unfolding shrunk_def tree(5) by auto
    have hdr: "m1 kRootHeaderPageId = Some hp" using fr hid tree(1) by simp
    have kept: "btree_at m1 (remove1 (key, rid) es)" if "bt_full t'"
    proof -
      have "tree_at m1 h t'" using that pre st' dist' sub hid ids by (auto simp: tree_at_def bt_inv_def)
      from btree_at_tree [OF this] show ?thesis using hdr tree(2) id ents by simp
    qed
    have set: "ends may_fail (SetRootPageId ops q) s' (\<lambda>_ s'. ?Q True s')"
      if "holds {} m1 r s'" and b: "btree_at (m1(kRootHeaderPageId \<mapsto> SerializeHeader q)) (remove1 (key, rid) es)" for q s'
    proof (rule SetRootPageId_ends [OF that(1)])
      fix s'' assume h: "holds {} (m1(kRootHeaderPageId \<mapsto> SerializeHeader q)) r s''"
      have "dom (m1(kRootHeaderPageId \<mapsto> SerializeHeader q)) = dom m" using hdr dom by auto
      with h b mem show "?Q True s''" by blast
    qed (use hdr in simp)
    have hdr': "stored (m1(kRootHeaderPageId \<mapsto> x)) d" if "stored m1 d" "set (bt_ids d) \<subseteq> set (bt_ids t)" for d x
      using that stored_cong [of d m1 "m1(kRootHeaderPageId \<mapsto> x)"] hid by fastforce
    show ?thesis
    proof (cases t')
      case (Lf p nx es')
      obtain pg where pg: "m1 (bt_id t) = Some pg" "is_leaf pg" "leaf_keys (DeserializeLeaf pg) = map fst es'" using st' id Lf by auto
      have "btree_at (m1(kRootHeaderPageId \<mapsto> SerializeHeader INVALID_PAGE_ID)) (remove1 (key, rid) es)" if "es' = []"
        using that ents Deserialize_SerializeHeader(1) [of INVALID_PAGE_ID] by (simp add: btree_at_def Lf)
      then show ?thesis
        by (intro fetch_ends [OF s2 pg(1)]) (use pg(2,3) set kept Lf mem dom in auto)
    next
      case (Nd p ks' cs')
      obtain h' where h: "h = Suc h'" using pre Nd by (cases h) auto
      have len: "length cs' = Suc (length ks')" and seq: "seq_all (bt_inv h') (2 ^ 63) INVALID_PAGE_ID (items (- (2 ^ 63)) ks' cs')"
        using pre by (simp_all only: Nd h bt_pre_Suc_Nd)
      obtain pg where pg: "m1 (bt_id t) = Some pg" "\<not> is_leaf pg" "node_children (DeserializeInternal pg) = map bt_id cs'" using st' id Nd by auto
      have "btree_at (m1(kRootHeaderPageId \<mapsto> SerializeHeader (bt_id c))) (remove1 (key, rid) es)" if c: "cs' = [c]" for c
      proof -
        have sc: "set (bt_ids c) \<subseteq> set (bt_ids t)" using sub c Nd by auto
        have "bt_inv h' (- (2 ^ 63)) (2 ^ 63) INVALID_PAGE_ID c" using seq len c by (simp add: items_def)
        moreover have "stored (m1(kRootHeaderPageId \<mapsto> SerializeHeader (bt_id c))) c" using st' c Nd by (intro hdr' sc) simp
        moreover have "distinct (bt_ids c)" using dist' c Nd by simp
        ultimately have "tree_at (m1(kRootHeaderPageId \<mapsto> SerializeHeader (bt_id c))) h' c" using sc hid ids by (auto simp: tree_at_def)
        from btree_at_tree [OF this] show ?thesis using Deserialize_SerializeHeader(1) [of "bt_id c"] ents c Nd by simp
      qed
      then have one: "ends may_fail (child_at (map bt_id cs') 0) s' (\<lambda>q s'. ends may_fail (SetRootPageId ops q) s' (\<lambda>_ s'. ?Q True s'))"
        if "holds {} m1 r s'" "length cs' = 1" for s'
        using that set by (auto simp: child_at_def length_Suc_conv)
      have "bt_full t'" if "length cs' \<noteq> 1" using that len Nd by auto
      then show ?thesis
        by (intro fetch_ends [OF s2 pg(1)]) (use pg(2,3) one kept mem dom in \<open>simp; blast\<close>)
    qed
  qed
  have rec: "ends may_fail (DeleteRecursive recursion_fuel ops (bt_id t) True key rid) s'
      (\<lambda>res s'. \<exists>m'. holds {} m' r s' \<and> shrunk h (- (2 ^ 63)) (2 ^ 63) INVALID_PAGE_ID t True (key, rid) m res m')" if "holds {} m r s'" for s'
    by (rule DeleteRecursive_ends [OF inv st dist key_range _ that]) (use tree(6) in \<open>simp add: recursion_fuel_def\<close>)
  have "ends may_fail (bind_op (DeleteRecursive recursion_fuel ops (bt_id t) True key rid) (\<lambda>result.
      if \<not> del_found result then return_op False
      else bind_op (po_fetch ops (bt_id t)) (\<lambda>root_page. bind_op (?collapse root_page) (\<lambda>_. return_op True)))) s' ?Q" if s': "holds {} m r s'" for s'
    unfolding ends_bind
  proof (rule ends_mono [OF rec [OF s']], rule if_ends)
    fix res s2 assume post: "\<exists>m'. holds {} m' r s2 \<and> shrunk h (- (2 ^ 63)) (2 ^ 63) INVALID_PAGE_ID t True (key, rid) m res m'"
    show "ends may_fail (return_op False) s2 ?Q" if "\<not> del_found res"
      using that post at by (auto simp: shrunk_def tree(5) remove1_idem)
    show "ends may_fail (bind_op (po_fetch ops (bt_id t)) (\<lambda>root_page. bind_op (?collapse root_page) (\<lambda>_. return_op True))) s2 ?Q" if "\<not> \<not> del_found res"
      using post after that unfolding ends_bind ends_return by blast
  qed
  then show ?thesis unfolding BPlusTree_Delete_def
    by (intro root_ends [OF s tree(1)]) (simp only: tree(2,3) if_False)
qed

end

end
