(* ===== verification/Btree_Index.thy ===== *)
theory Btree_Index
  imports Btree_Delete
begin

text \<open>
  The index of the engine. The operations of \<open>BPlusTree\<close> on an object of the engine refine a sorted list of
  entries: \<open>Insert\<close> adds one after its equals, \<open>Delete\<close> removes one, \<open>Search\<close> reads the values under a key.
  Each either does exactly that, leaving every other object alone, or fails with an error of the pages below
  it: a lock request that waits or is aborted, or a disk that is full.
\<close>

section \<open>Validation and height\<close>

lemma keys_sorted_sint: "sorted (map sint ks) \<Longrightarrow> keys_sorted ks"
  by (induction ks rule: induct_list012) (simp_all add: keys_sorted_def)

lemma leaf_violation_None:
  assumes "sorted (map sint (case prev of None \<Rightarrow> ks | Some p \<Rightarrow> p # ks))"
    and "\<forall>k \<in> set ks. (\<forall>l. lower = Some l \<longrightarrow> sint l \<le> sint k) \<and> (\<forall>u. upper = Some u \<longrightarrow> sint k < sint u)"
  shows "leaf_violation lower upper prev ks = None"
  using assms
proof (induction ks arbitrary: prev)
  case (Cons k ks)
  have "leaf_violation lower upper (Some k) ks = None" by (rule Cons.IH) (use Cons.prems in \<open>auto split: option.splits\<close>)
  with Cons.prems show ?case by (auto split: option.splits)
qed simp

context page_store
begin

lemma first_some_ends:
  assumes len: "length cs = Suc (length ks)" and seq: "seq_all (bt_inv h) hi nx (items lo ks cs)" and st: "\<forall>c \<in> set cs. stored m c"
    and lower: "\<forall>l. lower = Some l \<longrightarrow> sint l \<le> lo" and upper: "\<forall>u. upper = Some u \<longrightarrow> hi \<le> sint u" and s: "holds D m r s"
    and step: "\<And>lo hi nx c lower upper s Q. bt_inv h lo hi nx c \<Longrightarrow> stored m c \<Longrightarrow> \<forall>l. lower = Some l \<longrightarrow> sint l \<le> lo \<Longrightarrow>
      \<forall>u. upper = Some u \<longrightarrow> hi \<le> sint u \<Longrightarrow> holds D m r s \<Longrightarrow> (\<And>s'. holds D m r s' \<Longrightarrow> Q None s') \<Longrightarrow>
      ends may_fail (f (bt_id c, lower, upper)) s Q"
    and Q: "\<And>s'. holds D m r s' \<Longrightarrow> Q None s'"
  shows "ends may_fail (first_some f (zip (map bt_id cs) (child_bounds lower upper ks))) s Q"
  using len seq st lower s
proof (induction ks arbitrary: lo cs lower s)
  case Nil
  then obtain c where cs: "cs = [c]" by (auto simp: length_Suc_conv)
  have "ends may_fail (f (bt_id c, lower, upper)) s (\<lambda>x s'. ends may_fail (case x of None \<Rightarrow> return_op None | Some e \<Rightarrow> return_op (Some e)) s' Q)"
    by (rule step [OF _ _ Nil(4) upper Nil(5)]) (use Nil(2,3) cs Q in \<open>auto simp: items_def\<close>)
  then show ?case by (simp add: cs)
next
  case (Cons k ks)
  obtain c cs' where cs: "cs = c # cs'" and len': "length cs' = Suc (length ks)" using Cons.prems(1) by (cases cs) auto
  have it: "items lo (k # ks) cs = (lo, c) # items (sint k) ks cs'" by (simp add: items_def cs)
  have c: "bt_inv h lo (sint k) (next_first nx (items (sint k) ks cs')) c" and seq': "seq_all (bt_inv h) hi nx (items (sint k) ks cs')"
    using Cons.prems(2) unfolding it by (simp_all add: next_items [OF len'])
  have rest: "ends may_fail (first_some f (zip (map bt_id cs') (child_bounds (Some k) upper ks))) s' Q" if "holds D m r s'" for s'
    by (rule Cons.IH [OF len' seq' _ _ that]) (use Cons.prems(3) cs in auto)
  have "ends may_fail (f (bt_id c, lower, Some k)) s
      (\<lambda>x s'. ends may_fail (case x of None \<Rightarrow> first_some f (zip (map bt_id cs') (child_bounds (Some k) upper ks)) | Some e \<Rightarrow> return_op (Some e)) s' Q)"
    by (rule step [OF c _ Cons.prems(4) _ Cons.prems(5)]) (use Cons.prems(3) cs rest in auto)
  then show ?case by (simp add: cs)
qed

lemma ValidateSubtree_ends:
  assumes "bt_inv h lo hi nx t" and "stored m t" and "h < n" and "\<forall>l. lower = Some l \<longrightarrow> sint l \<le> lo" and "\<forall>u. upper = Some u \<longrightarrow> hi \<le> sint u"
    and "holds D m r s" and "\<And>s'. holds D m r s' \<Longrightarrow> Q None s'"
  shows "ends may_fail (ValidateSubtree n ops (bt_id t) lower upper) s Q"
  using assms
proof (induction h arbitrary: n lo hi nx t lower upper s Q)
  case 0
  obtain p es where t: "t = Lf p nx es" and inv: "leaf_inv lo hi nx t" using 0(1) by (auto simp: bt_inv_0)
  obtain pg where pg: "m p = Some pg" "is_leaf pg" "DeserializeLeaf pg = leaf_record p nx es" using 0(2) t by auto
  obtain n' where n: "n = Suc n'" using 0(3) by (cases n) auto
  have "leaf_violation lower upper None (map fst es) = None"
    by (rule leaf_violation_None) (use inv 0(4,5) t in \<open>fastforce simp: comp_def\<close>)+
  then show ?case unfolding n ValidateSubtree.simps ends_bind t bt.sel
    by (intro fetch_ends [OF 0(6) pg(1)]) (use pg 0(7) inv t in \<open>simp add: Let_def\<close>)
next
  case (Suc h)
  obtain p ks cs where t: "t = Nd p ks cs" and len: "length cs = Suc (length ks)" and cap: "length ks \<le> kInternalMaxKeys"
    and seq: "seq_all (bt_inv h) hi nx (items lo ks cs)" using Suc.prems(1) by (auto simp: bt_inv_Suc bt_pre_Suc_Nd)
  obtain pg where pg: "m p = Some pg" "\<not> is_leaf pg" "DeserializeInternal pg = node_record p ks cs" and kids: "\<forall>c \<in> set cs. stored m c"
    using Suc.prems(2) t by auto
  obtain n' where n: "n = Suc n'" "h < n'" using Suc.prems(3) by (cases n) auto
  have "sorted_wrt (<) (lo # map sint ks)" using seq_inv_labels(3) [OF seq] len by (simp add: items_def)
  then have "keys_sorted ks" by (intro keys_sorted_sint strict_sorted_imp_sorted) simp
  moreover have "ends may_fail (first_some (\<lambda>(c, lo, hi). ValidateSubtree n' ops c lo hi) (zip (map bt_id cs) (child_bounds lower upper ks))) s' Q"
    if "holds D m r s'" for s'
    by (rule first_some_ends [OF len seq kids Suc.prems(4,5) that]) (use Suc.IH n(2) Suc.prems(7) in auto)
  ultimately show ?case unfolding n ValidateSubtree.simps ends_bind t bt.sel
    by (intro fetch_ends [OF Suc.prems(6) pg(1)]) (use pg len cap in \<open>simp add: Let_def\<close>)
qed

lemma ValidateInvariants_ends:
  assumes at: "btree_at m es" and s: "holds D m r s"
  shows "ends may_fail (ValidateInvariants ops) s (\<lambda>x s'. x = None \<and> holds D m r s')"
  using at
proof (cases rule: btree_at_cases)
  case (empty p)
  show ?thesis unfolding ValidateInvariants_def ends_bind
    by (rule GetRootPageId_ends [OF s empty(1)]) (use empty in simp)
next
  case (tree p h t)
  have "ends may_fail (ValidateSubtree (kMaxValidateDepth + 1) ops (bt_id t) None None) s' (\<lambda>x s'. x = None \<and> holds D m r s')"
    if "holds D m r s'" for s'
    by (rule ValidateSubtree_ends [OF _ _ _ _ _ that]) (use tree in \<open>auto simp: tree_at_def kMaxValidateDepth_def\<close>)
  then show ?thesis unfolding ValidateInvariants_def ends_bind
    by (intro GetRootPageId_ends [OF s tree(1)]) (use tree in simp)
qed

lemma Height_ends:
  assumes at: "btree_at m es" and s: "holds D m r s"
  shows "ends may_fail (BPlusTree_Height ops) s (\<lambda>n s'. n \<le> 33 \<and> 2 ^ n \<le> 2 * length es + 1 \<and> (n = 0 \<longleftrightarrow> es = []) \<and> holds D m r s')"
  using at
proof (cases rule: btree_at_cases)
  case (empty p)
  show ?thesis unfolding BPlusTree_Height_def
    by (rule root_ends [OF s empty(1)]) (use empty in simp)
next
  case (tree p h t)
  have inv: "bt_inv h (- (2 ^ 63)) (2 ^ 63) INVALID_PAGE_ID t" and st: "stored m t" using tree(4) by (simp_all add: tree_at_def)
  obtain pg where pg: "m (bt_id t) = Some pg" using stored_dom [OF st] bt_id_mem [of t] by blast
  have "length ls \<le> length (concat (map bt_entries ls))" if "\<forall>l \<in> set ls. bt_entries l \<noteq> []" for ls
    using that by (induction ls) (auto simp: Suc_le_eq add_pos_nonneg neq_Nil_conv)
  from this [OF bt_leaves_nonempty [OF inv]] have "2 ^ h \<le> length es"
    using bt_leaves_facts [OF inv] bt_leaves_stored(3) [of t] tree(5) by simp
  then have q: "2 ^ (1 + h) \<le> 2 * length es + 1" "es \<noteq> []" by auto
  have "ends may_fail (height_loop kMaxTraversalSteps ops 1 pg) s' (\<lambda>n s'. n \<le> 33 \<and> 2 ^ n \<le> 2 * length es + 1 \<and> (n = 0 \<longleftrightarrow> es = []) \<and> holds D m r s')"
    if "holds D m r s'" for s'
    by (rule height_loop_ends [OF inv st pg _ that]) (use q tree(6) in \<open>simp_all add: kMaxTraversalSteps_def\<close>)
  then have "ends may_fail (bind_op (lock_fetch ops (bt_id t) kShared) (height_loop kMaxTraversalSteps ops 1)) s'
      (\<lambda>n s'. n \<le> 33 \<and> 2 ^ n \<le> 2 * length es + 1 \<and> (n = 0 \<longleftrightarrow> es = []) \<and> holds D m r s')" if "holds D m r s'" for s'
    unfolding ends_bind by (intro lock_fetch_ends [OF that pg])
  then show ?thesis unfolding BPlusTree_Height_def
    by (intro root_ends [OF s tree(1)]) (use tree(2,3) in simp)
qed

end

section \<open>The index of an object\<close>

text \<open>The object is open, the pools are coherent and the pages of the object hold the entries \<open>es\<close>.\<close>

definition index_at :: "engine \<Rightarrow> ObjectId \<Rightarrow> (int64 \<times> RID) list \<Rightarrow> bool" where
  "index_at en oid es \<longleftrightarrow> pools_ok en \<and> en_pools en oid \<noteq> None \<and> btree_at (object_pages oid en) es"

lemma index_holds:
  assumes "index_at en oid es"
  shows "engine_pages.holds oid {} (object_pages oid en) (other_objects oid en) en" and "btree_at (object_pages oid en) es"
  using assms by (simp_all add: index_at_def engine_pages.holds_def object_ok_empty)

lemma holds_index:
  assumes "engine_pages.holds oid {} m r en'"
  shows "object_pages oid en' = m" "other_objects oid en' = r" "index_at en' oid es \<longleftrightarrow> btree_at m es"
  using assms by (auto simp: index_at_def engine_pages.holds_def object_ok_empty)

text \<open>The index of the witnesses: object 3, whose root is the leaf on page 1 with one entry; no transaction is active.\<close>

definition one_rid :: RID where
  "one_rid = \<lparr>rid_page_id = 7, rid_slot_id = 2\<rparr>"

definition index_pool :: pool where
  "index_pool =
     \<lparr>bp_pages = [0 \<mapsto> SerializeHeader 1, 1 \<mapsto> SerializeLeaf (leaf_record 1 INVALID_PAGE_ID [(5, one_rid)])], bp_dirty = {0, 1},
      bp_observers = Map.empty, bp_disk = \<lparr>disk_file = blank_page @ blank_page, next_page_id = 2, disk_capacity = 1000000\<rparr>\<rparr>"

definition index_engine :: engine where
  "index_engine = (one_txn_engine 10000)\<lparr>en_pools := [3 \<mapsto> index_pool], en_current := Map.empty\<rparr>"

lemma index_engine_ok: "pools_ok index_engine" "en_pools index_engine 3 \<noteq> None"
proof -
  have "length [(5 :: int64, one_rid)] \<le> kLeafMaxKeys" by (simp add: capacities)
  note lp = leaf_page(1) [OF this]
  have "pool_ok index_pool"
    by (auto simp: index_pool_def pool_ok_def pool_wf_def disk_ok_def pool_has_def disk_has_def length_blank_page
      Deserialize_SerializeHeader(2) lp [of 1 INVALID_PAGE_ID, simplified])
  then show "pools_ok index_engine" "en_pools index_engine 3 \<noteq> None" by (simp_all add: pools_ok_def index_engine_def)
qed

lemma index_engine_pages:
  "object_pages 3 index_engine 0 = Some (SerializeHeader 1)"
  "object_pages 3 index_engine 1 = Some (SerializeLeaf (leaf_record 1 INVALID_PAGE_ID [(5, one_rid)]))"
  "card (dom (object_pages 3 index_engine)) = 2"
  using card_object_pages [of index_engine 3 index_pool]
  by (simp_all add: index_engine_def index_pool_def object_pages_def en_has_def en_page_def pool_has_def disk_has_def pool_page_def)

lemma index_engine_at: "index_at index_engine 3 [(5, one_rid)]"
proof -
  have cap: "length [(5 :: int64, one_rid)] \<le> kLeafMaxKeys" by (simp add: capacities)
  have "stored (object_pages 3 index_engine) (Lf 1 INVALID_PAGE_ID [(5, one_rid)])"
    by (rule leaf_page(2) [OF cap]) (simp add: index_engine_pages)
  then have "tree_at (object_pages 3 index_engine) 0 (Lf 1 INVALID_PAGE_ID [(5, one_rid)])"
    using cap by (auto simp: tree_at_def bt_inv_def kRootHeaderPageId_def INVALID_PAGE_ID_def simp del: stored.simps)
  then have "btree_at (object_pages 3 index_engine) (bt_entries (Lf 1 INVALID_PAGE_ID [(5, one_rid)]))"
    by (rule btree_at_tree) (use index_engine_pages(1) Deserialize_SerializeHeader(1) [of 1] in \<open>simp_all add: kRootHeaderPageId_def\<close>)
  then show ?thesis using index_engine_ok by (simp add: index_at_def)
qed

text \<open>The runs of the witnesses succeed.\<close>

lemma index_pages_read:
  "DeserializeHeaderRootPageId (SerializeHeader 1) = 1"
  "is_leaf (SerializeLeaf (leaf_record 1 INVALID_PAGE_ID [(5, one_rid)]))"
  "DeserializeLeaf (SerializeLeaf (leaf_record 1 INVALID_PAGE_ID [(5, one_rid)])) = leaf_record 1 INVALID_PAGE_ID [(5, one_rid)]"
  using Deserialize_SerializeLeaf [of "leaf_record 1 INVALID_PAGE_ID [(5, one_rid)]"]
  by (simp_all add: is_leaf_def capacities Deserialize_SerializeHeader(1))

lemmas index_run = LockRoot_def GetRootPageId_def lock_fetch_def engine_ops_def bind_op_def LockPage_def
  GetCurrentTransaction_def FetchPage_op_def pool_op_def FetchPage_def index_engine_def index_pool_def kRootHeaderPageId_def
  INVALID_PAGE_ID_def Let_def

lemma index_search_run: "\<exists>rids en'. BPlusTree_Search (engine_ops 0 3) 5 index_engine = (Inr rids, en')"
proof -
  obtain k where k: "kMaxTraversalSteps = Suc k" using gr0_implies_Suc [of kMaxTraversalSteps] by (auto simp: kMaxTraversalSteps_def)
  show ?thesis using index_pages_read by (simp add: k BPlusTree_Search_def index_run)
qed

lemma index_height_run: "\<exists>n en'. BPlusTree_Height (engine_ops 0 3) index_engine = (Inr n, en')"
proof -
  obtain k where k: "kMaxTraversalSteps = Suc k" using gr0_implies_Suc [of kMaxTraversalSteps] by (auto simp: kMaxTraversalSteps_def)
  show ?thesis using index_pages_read by (simp add: k BPlusTree_Height_def index_run)
qed

lemma index_insert_run: "\<exists>en'. BPlusTree_Insert (engine_ops 0 3) 6 one_rid index_engine = (Inr (), en')"
proof -
  obtain k where k: "recursion_fuel = Suc k" using gr0_implies_Suc [of recursion_fuel] by (auto simp: recursion_fuel_def)
  show ?thesis using index_pages_read by (simp add: k BPlusTree_Insert_def insert_leaf_def upper_bound_def insert_nth_def capacities
    write_page_op_def MarkDirty_op_def modify_op_def index_run split: prod.splits)
qed

lemma index_delete_run: "\<exists>en'. BPlusTree_Delete (engine_ops 0 3) 6 one_rid index_engine = (Inr False, en')"
proof -
  obtain k where k: "recursion_fuel = Suc k" using gr0_implies_Suc [of recursion_fuel] by (auto simp: recursion_fuel_def)
  show ?thesis using index_pages_read by (simp add: k BPlusTree_Delete_def delete_leaf_def capacities index_run)
qed

text \<open>
  C37. \<open>Insert\<close> refines insertion into the sorted list of entries. On an index with the entries \<open>es\<close>,
  fewer than \<open>kLeafMaxKeys\<close> of them with this key, and page ids to spare, it either fails with an error of
  the pages below or leaves an index whose entries are \<open>es\<close> with the new one after its equals; every other
  object is unchanged.
\<close>

theorem BPlusTree_Insert_refines:
  assumes at: "index_at en oid es" and few: "length (filter (\<lambda>e. fst e = key) es) < kLeafMaxKeys"
    and room: "card (dom (object_pages oid en)) + 40 < 2 ^ 32"
  shows "case BPlusTree_Insert (engine_ops tid oid) key rid en of
      (Inl e, _) \<Rightarrow> page_failure e
    | (Inr _, en') \<Rightarrow> index_at en' oid (insert_entry key rid es) \<and> other_objects oid en' = other_objects oid en"
  using engine_pages.Insert_ends [OF index_holds(2) [OF at] few room index_holds(1) [OF at], of tid rid]
  by (auto simp: ends_def holds_index split: prod.splits sum.splits)

theorem BPlusTree_Insert_refines_witness:
  "\<exists>en'. BPlusTree_Insert (engine_ops 0 3) 6 one_rid index_engine = (Inr (), en') \<and> index_at en' 3 [(5, one_rid), (6, one_rid)]"
proof -
  obtain en' where run: "BPlusTree_Insert (engine_ops 0 3) 6 one_rid index_engine = (Inr (), en')" using index_insert_run by blast
  have "insert_entry 6 one_rid [(5, one_rid)] = [(5, one_rid), (6, one_rid)]" by (simp add: insert_entry_def)
  then show ?thesis using BPlusTree_Insert_refines [OF index_engine_at, where key = 6 and rid = one_rid and tid = 0] run index_engine_pages(3)
    by (simp add: capacities)
qed

text \<open>
  C38. \<open>Delete\<close> refines removal from the sorted list of entries: it reports whether the entry with this
  key and row id exists and removes exactly one such entry, through all merges, redistributions, borrows and
  root collapses; every other object is unchanged. It needs no further page.
\<close>

theorem BPlusTree_Delete_refines:
  assumes at: "index_at en oid es"
  shows "case BPlusTree_Delete (engine_ops tid oid) key rid en of
      (Inl e, _) \<Rightarrow> page_failure e
    | (Inr found, en') \<Rightarrow> found = ((key, rid) \<in> set es) \<and> index_at en' oid (remove1 (key, rid) es) \<and>
        dom (object_pages oid en') = dom (object_pages oid en) \<and> other_objects oid en' = other_objects oid en"
  using engine_pages.Delete_ends [OF index_holds(2,1) [OF at], of tid key rid]
  by (clarsimp simp: ends_def holds_index split: prod.splits sum.splits)

theorem BPlusTree_Delete_refines_witness:
  "\<exists>en'. BPlusTree_Delete (engine_ops 0 3) 6 one_rid index_engine = (Inr False, en') \<and> index_at en' 3 [(5, one_rid)]"
proof -
  obtain en' where run: "BPlusTree_Delete (engine_ops 0 3) 6 one_rid index_engine = (Inr False, en')" using index_delete_run by blast
  then show ?thesis using BPlusTree_Delete_refines [OF index_engine_at, where key = 6 and rid = one_rid and tid = 0] by simp
qed

text \<open>
  \<open>Search\<close> returns exactly the row ids stored under the key, in the order of their entries, and
  changes nothing; it never meets the traversal limit.
\<close>

theorem BPlusTree_Search_values:
  assumes at: "index_at en oid es"
  shows "case BPlusTree_Search (engine_ops tid oid) key en of
      (Inl e, _) \<Rightarrow> page_failure e
    | (Inr rids, en') \<Rightarrow> rids = values_of key es \<and> index_at en' oid es \<and>
        object_pages oid en' = object_pages oid en \<and> other_objects oid en' = other_objects oid en"
  using engine_pages.Search_ends [OF index_holds(2,1) [OF at], of tid key] index_holds(2) [OF at]
  by (clarsimp simp: ends_def holds_index split: prod.splits sum.splits)

theorem BPlusTree_Search_values_witness:
  "\<exists>en'. BPlusTree_Search (engine_ops 0 3) 5 index_engine = (Inr [one_rid], en') \<and> object_pages 3 en' = object_pages 3 index_engine"
proof -
  obtain rids en' where run: "BPlusTree_Search (engine_ops 0 3) 5 index_engine = (Inr rids, en')" using index_search_run by blast
  then show ?thesis using BPlusTree_Search_values [OF index_engine_at, where key = 5 and tid = 0] by (simp add: values_of_def)
qed

text \<open>
  C39. The tree is balanced: its height is at most 33 and logarithmic in the number of entries, 0 exactly
  when there is none, and \<open>ValidateInvariants\<close> finds no violation.
\<close>

theorem BPlusTree_Height_bound:
  assumes at: "index_at en oid es"
  shows "(case BPlusTree_Height (engine_ops tid oid) en of
      (Inl e, _) \<Rightarrow> page_failure e
    | (Inr n, _) \<Rightarrow> n \<le> 33 \<and> 2 ^ n \<le> 2 * length es + 1 \<and> (n = 0 \<longleftrightarrow> es = [])) \<and>
    (case ValidateInvariants (engine_ops tid oid) en of (Inl e, _) \<Rightarrow> page_failure e | (Inr x, _) \<Rightarrow> x = None)"
  using engine_pages.Height_ends [OF index_holds(2,1) [OF at], of tid] engine_pages.ValidateInvariants_ends [OF index_holds(2,1) [OF at], of tid]
  by (auto simp: ends_def split: prod.splits sum.splits)

theorem BPlusTree_Height_bound_witness:
  "\<exists>en'. BPlusTree_Height (engine_ops 0 3) index_engine = (Inr 1, en')"
proof -
  obtain n en' where run: "BPlusTree_Height (engine_ops 0 3) index_engine = (Inr n, en')" using index_height_run by blast
  have n: "n \<noteq> 0" "2 ^ n \<le> (3 :: nat)" using BPlusTree_Height_bound [OF index_engine_at, where tid = 0] run by simp_all
  have "\<not> 2 \<le> n" using n(2) power_increasing [of 2 n "2 :: nat"] by auto
  then have "n = 1" using n(1) by simp
  then show ?thesis using run by simp
qed

end
