(* ===== verification/Table_Storage.thy ===== *)
theory Table_Storage
  imports Executor Btree_Index
begin

text \<open>
  A table in storage: the heap file with its rows and every index of the table with one entry per row. The
  first part restates the heap file operations over the page interface of the trees, with the errors they
  can fail with and what they leave alone; the second part is the relation between a table and its objects.
\<close>

section \<open>What an operation on one object leaves alone\<close>

definition frame :: "ObjectId \<Rightarrow> engine \<Rightarrow> engine \<Rightarrow> bool" where
  "frame oid en en' \<longleftrightarrow>
     (\<forall>o'. o' \<noteq> oid \<longrightarrow> object_pages o' en' = object_pages o' en \<and> en_heaps en' o' = en_heaps en o') \<and>
     (\<forall>o'. (en_pools en' o' = None) = (en_pools en o' = None)) \<and> en_current en' = en_current en"

definition quiet :: "engine \<Rightarrow> engine \<Rightarrow> bool" where
  "quiet en en' \<longleftrightarrow>
     pools_ok en' \<and> (\<forall>o'. object_pages o' en' = object_pages o' en) \<and> en_heaps en' = en_heaps en \<and>
     (\<forall>o'. (en_pools en' o' = None) = (en_pools en o' = None)) \<and> en_current en' = en_current en"

lemma quiet_frame: "quiet en en' \<Longrightarrow> frame oid en en'"
  by (simp add: quiet_def frame_def)

lemma frame_trans: "frame oid a b \<Longrightarrow> frame oid b c \<Longrightarrow> frame oid a c"
  by (simp add: frame_def)

lemma quiet_trans: "quiet a b \<Longrightarrow> quiet b c \<Longrightarrow> quiet a c"
  by (simp add: quiet_def)

lemma other_objects_frame:
  assumes "other_objects oid en' = other_objects oid en"
  shows "frame oid en en'" and "en_heaps en' = en_heaps en"
proof -
  have eq: "(\<lambda>o'. if o' = oid then Map.empty else object_pages o' en') = (\<lambda>o'. if o' = oid then Map.empty else object_pages o' en)"
    "(\<lambda>o'. en_pools en' o' = None) = (\<lambda>o'. en_pools en o' = None)" "en_heaps en' = en_heaps en" "en_current en' = en_current en"
    using assms by (simp_all add: other_objects_def)
  have "object_pages o' en' = object_pages o' en" if "o' \<noteq> oid" for o' using fun_cong [OF eq(1), of o'] that by simp
  with eq(3,4) fun_cong [OF eq(2)] show "frame oid en en'" "en_heaps en' = en_heaps en" by (simp_all add: frame_def)
qed

lemma object_page_Some: "object_pages oid en pid = Some p \<longleftrightarrow> en_has en (PageKey oid pid) \<and> en_page en (PageKey oid pid) = p"
  by (simp add: object_pages_def)

lemma heap_ok_pages:
  "heap_ok oid en \<longleftrightarrow> pools_ok en \<and> en_pools en oid \<noteq> None \<and> distinct (heap_page_ids oid en) \<and>
     (\<forall>pid \<in> set (heap_page_ids oid en). \<exists>p. object_pages oid en pid = Some p \<and> page_ok p)"
  by (auto simp: heap_ok_def object_pages_def split: if_splits)

text \<open>The rows of a list of pages.\<close>

definition rows_of :: "(PageId \<rightharpoonup> page) \<Rightarrow> PageId list \<Rightarrow> (RID \<times> byte list) list" where
  "rows_of m ids = concat (map (\<lambda>pid. page_rows pid (the (m pid))) ids)"

lemma rows_of_simps [simp]: "rows_of m [] = []" "rows_of m (pid # ids) = page_rows pid (the (m pid)) @ rows_of m ids"
  by (simp_all add: rows_of_def)

lemma heap_rows_pages: "heap_ok oid en \<Longrightarrow> heap_rows oid en = rows_of (object_pages oid en) (heap_page_ids oid en)"
  unfolding heap_rows_def rows_of_def by (intro arg_cong [where f = concat] map_cong) (auto simp: heap_ok_def object_pages_def)

lemma frame_heap:
  assumes "frame oid en en'" and "pools_ok en'" and "heap_ok o' en" and "o' \<noteq> oid"
  shows "heap_ok o' en'" and "heap_rows o' en' = heap_rows o' en"
proof -
  have ids: "heap_page_ids o' en' = heap_page_ids o' en" and pg: "object_pages o' en' = object_pages o' en"
    using assms by (simp_all add: frame_def heap_page_ids_def)
  show ok: "heap_ok o' en'" using assms ids pg by (auto simp: heap_ok_pages frame_def)
  show "heap_rows o' en' = heap_rows o' en" using heap_rows_pages [OF ok] heap_rows_pages [OF assms(3)] ids pg by simp
qed

lemma quiet_heap:
  assumes "quiet en en'" and "heap_ok oid en"
  shows "heap_ok oid en'" and "heap_rows oid en' = heap_rows oid en"
proof -
  have ids: "heap_page_ids oid en' = heap_page_ids oid en" and pg: "object_pages oid en' = object_pages oid en"
    using assms by (simp_all add: quiet_def heap_page_ids_def)
  show ok: "heap_ok oid en'" using assms ids pg by (auto simp: heap_ok_pages quiet_def)
  show "heap_rows oid en' = heap_rows oid en" using heap_rows_pages [OF ok] heap_rows_pages [OF assms(2)] ids pg by simp
qed

lemma frame_index:
  "frame oid en en' \<Longrightarrow> pools_ok en' \<Longrightarrow> index_at en o' es \<Longrightarrow> o' \<noteq> oid \<Longrightarrow> index_at en' o' es"
  by (auto simp: frame_def index_at_def)

lemma quiet_index: "quiet en en' \<Longrightarrow> index_at en o' es \<Longrightarrow> index_at en' o' es"
  by (auto simp: quiet_def index_at_def)

section \<open>The heap file over the page interface\<close>

abbreviation pages_hold :: "ObjectId \<Rightarrow> engine \<Rightarrow> engine \<Rightarrow> bool" where
  "pages_hold oid en \<equiv> engine_pages.holds oid {} (object_pages oid en) (other_objects oid en)"

lemma engine_ops_simps [simp]:
  "po_lock (engine_ops tid oid) = LockPage tid oid" "po_fetch (engine_ops tid oid) = FetchPage_op oid"
  "po_new (engine_ops tid oid) = NewPage_op tid oid" "po_write (engine_ops tid oid) = write_page_op oid"
  "po_mark (engine_ops tid oid) = MarkDirty_op tid oid"
  by (simp_all add: engine_ops_def)

lemmas heap_lock_ends = engine_pages.lock_ends [where tid = tid, unfolded engine_ops_simps] for tid
lemmas heap_fetch_ends = engine_pages.fetch_ends [where tid = tid, unfolded engine_ops_simps] for tid
lemmas heap_put_ends = engine_pages.put_ends [where tid = tid, unfolded engine_ops_simps] for tid

lemma lock_fetch_page:
  assumes "engine_pages.holds oid D m r en" and "m pid = Some p" and "\<And>en'. engine_pages.holds oid D m r en' \<Longrightarrow> ends page_failure (g p) en' Q"
  shows "ends page_failure (bind_op (LockPage tid oid pid mode) (\<lambda>_. bind_op (FetchPage_op oid pid) g)) en Q"
  unfolding ends_bind by (rule heap_lock_ends [OF assms(1)], rule heap_fetch_ends, assumption, rule assms(2), rule assms(3))

lemma holds_start: "pools_ok en \<Longrightarrow> en_pools en oid \<noteq> None \<Longrightarrow> pages_hold oid en en"
  by (simp add: engine_pages.holds_def object_ok_empty)

lemma holds_quiet:
  assumes "pages_hold oid en en'"
  shows "quiet en en'"
proof -
  have "pools_ok en'" "object_pages oid en' = object_pages oid en" "other_objects oid en' = other_objects oid en"
    using assms by (simp_all add: engine_pages.holds_def object_ok_empty)
  with other_objects_frame [of oid en' en] show ?thesis by (auto simp: quiet_def frame_def)
qed

lemma scan_pages_ends:
  assumes "engine_pages.holds oid {} m r en" and "\<forall>pid \<in> set ids. m pid \<noteq> None"
    and "\<And>en'. engine_pages.holds oid {} m r en' \<Longrightarrow> Q (rows_of m ids) en'"
  shows "ends page_failure (scan_pages tid oid ids) en Q"
  using assms
proof (induction ids arbitrary: en Q)
  case (Cons pid ids)
  obtain p where p: "m pid = Some p" using Cons.prems(2) by auto
  show ?case unfolding scan_pages.simps
    by (rule lock_fetch_page [OF Cons.prems(1) p], unfold ends_bind, rule Cons.IH) (use Cons.prems(2,3) p in auto)
qed simp

lemma HeapFile_Scan_ends:
  assumes "heap_ok oid en" and "\<And>en'. quiet en en' \<Longrightarrow> Q (heap_rows oid en) en'"
  shows "ends page_failure (HeapFile_Scan tid oid) en Q"
proof -
  have "ends page_failure (scan_pages tid oid (heap_page_ids oid en)) en Q"
    by (rule scan_pages_ends [OF holds_start])
      (use assms heap_rows_pages [OF assms(1)] holds_quiet in \<open>auto simp: heap_ok_pages\<close>)
  then show ?thesis by (simp add: ends_def HeapFile_Scan_def)
qed

lemma map_of_heap_rows:
  assumes "heap_ok oid en"
  shows "map_of (heap_rows oid en) rid =
    (if rid_page_id rid \<notin> set (heap_page_ids oid en) then None
     else let p = en_page en (PageKey oid (rid_page_id rid)) in
       if GetSlotCount p \<le> rid_slot_id rid \<or> IsDeleted p (rid_slot_id rid) then None else Some (GetRecord p (rid_slot_id rid)))"
proof -
  have "distinct (map fst (heap_rows oid en))" using assms heap_rows_distinct by (simp add: heap_ok_def)
  then have "map_of (heap_rows oid en) rid = Some row \<longleftrightarrow> (rid, row) \<in> set (heap_rows oid en)" for row
    by (rule map_of_eq_Some_iff)
  then show ?thesis using heap_rows_mem [of rid _ oid en]
    by (cases "map_of (heap_rows oid en) rid") (auto simp: Let_def not_le)
qed

lemma HeapFile_GetRow_ends:
  assumes "heap_ok oid en" and "\<And>en'. quiet en en' \<Longrightarrow> Q (map_of (heap_rows oid en) rid) en'"
  shows "ends page_failure (HeapFile_GetRow tid oid rid) en Q"
proof (cases "rid_page_id rid \<in> set (heap_page_ids oid en)")
  case False
  have "quiet en en" using assms(1) by (simp add: quiet_def heap_ok_def)
  with False assms(2) map_of_heap_rows [OF assms(1)] show ?thesis by (simp add: ends_def HeapFile_GetRow_def)
next
  case True
  let ?p = "en_page en (PageKey oid (rid_page_id rid))"
  have st: "pages_hold oid en en" using assms(1) by (simp add: holds_start heap_ok_def)
  have p: "object_pages oid en (rid_page_id rid) = Some ?p" using assms(1) True by (simp add: object_pages_def heap_ok_def)
  have "ends page_failure (bind_op (LockPage tid oid (rid_page_id rid) kShared) (\<lambda>_. bind_op (FetchPage_op oid (rid_page_id rid)) (\<lambda>p.
      if GetSlotCount p \<le> rid_slot_id rid \<or> IsDeleted p (rid_slot_id rid) then return_op None
      else return_op (Some (GetRecord p (rid_slot_id rid)))))) en Q"
    by (rule lock_fetch_page [OF st p]) (use assms(2) holds_quiet map_of_heap_rows [OF assms(1), of rid] True in \<open>auto simp: Let_def\<close>)
  with True show ?thesis by (simp add: ends_def HeapFile_GetRow_def)
qed

text \<open>One page of the heap file is rewritten.\<close>

lemma heap_page_put:
  assumes ok: "heap_ok oid en" and q: "page_ok q"
    and h: "engine_pages.holds oid {} ((object_pages oid en)(pid \<mapsto> q)) (other_objects oid en) en'"
  shows "heap_ok oid en'" and "heap_rows oid en' = rows_of ((object_pages oid en)(pid \<mapsto> q)) (heap_page_ids oid en)"
    and "frame oid en en'"
proof -
  have e: "pools_ok en'" "object_pages oid en' = (object_pages oid en)(pid \<mapsto> q)" "other_objects oid en' = other_objects oid en"
    using h by (simp_all add: engine_pages.holds_def object_ok_empty)
  note f = other_objects_frame [OF e(3)]
  from f(1) show "frame oid en en'" .
  have ids: "heap_page_ids oid en' = heap_page_ids oid en" using f(2) by (rule heap_page_ids_cong)
  show ok': "heap_ok oid en'" using ok e(1,2) f(1) q by (auto simp: heap_ok_pages ids frame_def)
  show "heap_rows oid en' = rows_of ((object_pages oid en)(pid \<mapsto> q)) (heap_page_ids oid en)"
    using heap_rows_pages [OF ok'] by (simp add: e(2) ids)
qed

lemma rows_of_delete:
  assumes "m (rid_page_id rid) = Some p" and "page_ok p" and "rid_slot_id rid < GetSlotCount p"
  shows "rows_of (m(rid_page_id rid \<mapsto> DeleteRecord p (rid_slot_id rid))) ids = filter (\<lambda>(r, _). r \<noteq> rid) (rows_of m ids)"
proof -
  have rid: "\<lparr>rid_page_id = rid_page_id rid, rid_slot_id = rid_slot_id rid\<rparr> = rid" by (cases rid) simp
  have "rows_of (m(rid_page_id rid \<mapsto> DeleteRecord p (rid_slot_id rid))) ids =
      concat (map (\<lambda>q. if q = rid_page_id rid then filter (\<lambda>(r, _). r \<noteq> rid) (page_rows q (the (m q))) else page_rows q (the (m q))) ids)"
    unfolding rows_of_def using page_rows_delete [OF assms(2,3), of "rid_page_id rid"] assms(1)
    by (intro arg_cong [where f = concat] map_cong) (auto simp: rid)
  also have "\<dots> = filter (\<lambda>(r, _). r \<noteq> rid) (rows_of m ids)"
    unfolding rows_of_def by (rule concat_map_filter_at) (auto dest: page_rows_page)
  finally show ?thesis .
qed

lemma rows_of_cong: "(\<And>pid. pid \<in> set ids \<Longrightarrow> m pid = m' pid) \<Longrightarrow> rows_of m ids = rows_of m' ids"
  unfolding rows_of_def by (intro arg_cong [where f = concat] map_cong) auto

lemma rows_of_insert_last:
  assumes "distinct ids" and "ids \<noteq> []" and "m (last ids) = Some p" and "page_ok p" and "InsertRecord p row = (Some s, q)"
  shows "rows_of (m(last ids \<mapsto> q)) ids = rows_of m ids @ [(\<lparr>rid_page_id = last ids, rid_slot_id = s\<rparr>, row)]"
proof -
  obtain xs where ids: "ids = xs @ [last ids]" using assms(2) by (metis append_butlast_last_id)
  have "distinct (xs @ [last ids])" using assms(1) ids by simp
  then have "last ids \<notin> set xs" by (simp only: distinct_append) auto
  then have "rows_of (m(last ids \<mapsto> q)) xs = rows_of m xs" by (intro rows_of_cong) auto
  moreover have "rows_of m' ids = rows_of m' xs @ page_rows (last ids) (the (m' (last ids)))" for m'
    by (subst ids) (simp add: rows_of_def)
  ultimately show ?thesis using page_rows_insert [OF assms(4,5), of "last ids"] assms(3) by simp
qed

lemma HeapFile_Delete_ends:
  assumes ok: "heap_ok oid en"
    and Q: "\<And>en'. heap_ok oid en' \<Longrightarrow> heap_rows oid en' = filter (\<lambda>(r, _). r \<noteq> rid) (heap_rows oid en) \<Longrightarrow> frame oid en en' \<Longrightarrow>
      Q (rid \<in> fst ` set (heap_rows oid en)) en'"
  shows "ends page_failure (HeapFile_Delete tid oid rid) en Q"
proof -
  let ?pid = "rid_page_id rid" and ?s = "rid_slot_id rid"
  let ?p = "en_page en (PageKey oid ?pid)"
  have live: "rid \<in> fst ` set (heap_rows oid en) \<longleftrightarrow> map_of (heap_rows oid en) rid \<noteq> None"
    by (simp add: map_of_eq_None_iff)
  have miss: "Q False en'" if "map_of (heap_rows oid en) rid = None" "quiet en en'" for en'
  proof -
    have "filter (\<lambda>(r, _). r \<noteq> rid) (heap_rows oid en) = heap_rows oid en"
      using that(1) by (intro filter_True) (auto simp: map_of_eq_None_iff rev_image_eqI)
    with quiet_heap [OF that(2) ok] quiet_frame [OF that(2)] Q [of en'] live that(1) show ?thesis by simp
  qed
  show ?thesis
  proof (cases "?pid \<in> set (heap_page_ids oid en)")
    case False
    have "quiet en en" using ok by (simp add: quiet_def heap_ok_def)
    with False miss map_of_heap_rows [OF ok, of rid] show ?thesis by (simp add: ends_def HeapFile_Delete_def)
  next
    case True
    have st: "pages_hold oid en en" using ok by (simp add: holds_start heap_ok_def)
    have p: "object_pages oid en ?pid = Some ?p" "page_ok ?p" using ok True by (simp_all add: object_pages_def heap_ok_def)
    have "ends page_failure (if GetSlotCount ?p \<le> ?s \<or> IsDeleted ?p ?s then return_op False
        else bind_op (write_page_op oid ?pid (DeleteRecord ?p ?s)) (\<lambda>_. bind_op (MarkDirty_op tid oid ?pid) (\<lambda>_. return_op True))) en1 Q"
      if en1: "pages_hold oid en en1" for en1
    proof (cases "GetSlotCount ?p \<le> ?s \<or> IsDeleted ?p ?s")
      case dead: True
      with miss [OF _ holds_quiet [OF en1]] map_of_heap_rows [OF ok, of rid] show ?thesis by simp
    next
      case False
      have slot: "?s < GetSlotCount ?p" using False by (simp add: not_le)
      have q: "page_ok (DeleteRecord ?p ?s)" using page_ok_delete [OF p(2) slot] .
      have "ends page_failure (bind_op (write_page_op oid ?pid (DeleteRecord ?p ?s)) (\<lambda>_. bind_op (MarkDirty_op tid oid ?pid) (\<lambda>_. return_op True))) en1 Q"
      proof (rule heap_put_ends [OF en1])
        fix en' assume h: "engine_pages.holds oid {} ((object_pages oid en)(?pid \<mapsto> DeleteRecord ?p ?s)) (other_objects oid en) en'"
        note put = heap_page_put [OF ok q h]
        have "rows_of ((object_pages oid en)(?pid \<mapsto> DeleteRecord ?p ?s)) (heap_page_ids oid en) = filter (\<lambda>(r, _). r \<noteq> rid) (heap_rows oid en)"
          using rows_of_delete [of "object_pages oid en", OF p(1,2) slot] ok by (simp add: heap_rows_pages)
        moreover have "rid \<in> fst ` set (heap_rows oid en)" using True False live map_of_heap_rows [OF ok, of rid] by simp
        ultimately show "ends page_failure (return_op True) en' Q" using Q [of en'] put by simp
      qed (use p page_ok_length [OF q] in simp_all)
      with False show ?thesis by simp
    qed
    then have "ends page_failure (bind_op (LockPage tid oid ?pid kExclusive) (\<lambda>_. bind_op (FetchPage_op oid ?pid) (\<lambda>p.
        if GetSlotCount p \<le> ?s \<or> IsDeleted p ?s then return_op False
        else bind_op (write_page_op oid ?pid (DeleteRecord p ?s)) (\<lambda>_. bind_op (MarkDirty_op tid oid ?pid) (\<lambda>_. return_op True))))) en Q"
      by (rule lock_fetch_page [OF st p(1)])
    with True show ?thesis by (simp add: ends_def HeapFile_Delete_def)
  qed
qed

lemma new_heap_page_ends:
  assumes h: "engine_pages.holds oid {} m r en" and room: "card (dom m) + 1 < 2 ^ 32"
    and Q: "\<And>pid en'. m pid = None \<Longrightarrow> engine_pages.holds oid {} (m(pid \<mapsto> InitHeapPage pid)) r en' \<Longrightarrow> Q pid en'"
  shows "ends page_failure (NewHeapPage_op tid oid) en Q"
proof -
  have en: "pools_ok en" "en_pools en oid \<noteq> None" "object_pages oid en = m" "other_objects oid en = r"
    using h by (simp_all add: engine_pages.holds_def object_ok_empty)
  obtain bp where bp: "en_pools en oid = Some bp" using en(2) by blast
  have room': "unat (next_page_id (bp_disk bp)) + 1 < 2 ^ 32" using room card_object_pages [OF bp] en(3) by simp
  from en(1) bp room' show ?thesis
  proof (cases rule: NewHeapPage_op_cases [of _ _ _ tid])
    case (failed e en')
    then have "e = Runtime_error ''ftruncate failed''" using bp
      by (auto simp: NewHeapPage_op_def NewHeapPage_def NewPage_def AllocatePage_def pool_op_def bind_op_def Let_def split: prod.splits sum.splits if_splits)
    with failed show ?thesis by (simp add: ends_def page_failure_def)
  next
    case (new pid en')
    have cur: "en_current en' = en_current en" using new(1) bp
      by (auto simp: NewHeapPage_op_def pool_op_def bind_op_def split: prod.splits sum.splits)
    have "object_pages oid en' = m(pid \<mapsto> InitHeapPage pid)"
      unfolding en(3) [symmetric] using new(5-7) by (auto simp: fun_eq_iff object_pages_def)
    moreover have "other_objects oid en' = r"
      unfolding en(4) [symmetric] using new(4,5,7,8) cur by (auto simp: fun_eq_iff object_pages_def other_objects_def)
    moreover have "en_pools en' oid \<noteq> None" using new(4) [of oid] en(2) by simp
    ultimately have "engine_pages.holds oid {} (m(pid \<mapsto> InitHeapPage pid)) r en'"
      using new(2) by (simp add: engine_pages.holds_def object_ok_empty)
    moreover have "m pid = None" using new(3) en(3) by (auto simp: object_pages_def)
    ultimately show ?thesis using new(1) Q by (simp add: ends_def)
  qed
qed

lemma insert_on_page_ends:
  assumes h: "engine_pages.holds oid {} m r en" and p: "m pid = Some p" "page_ok p"
    and full: "\<And>en'. fst (InsertRecord p row) = None \<Longrightarrow> engine_pages.holds oid {} m r en' \<Longrightarrow> Q None en'"
    and stored: "\<And>s q en'. InsertRecord p row = (Some s, q) \<Longrightarrow> engine_pages.holds oid {} (m(pid \<mapsto> q)) r en' \<Longrightarrow> Q (Some s) en'"
  shows "ends page_failure (insert_on_page tid oid pid row) en Q"
  unfolding insert_on_page_def ends_bind
proof (rule heap_fetch_ends [OF h], rule p(1))
  fix en1 assume h1: "engine_pages.holds oid {} m r en1"
  obtain so q where ins: "InsertRecord p row = (so, q)" by (cases "InsertRecord p row")
  show "ends page_failure (case InsertRecord p row of (None, _) \<Rightarrow> return_op None
      | (Some sl, p') \<Rightarrow> bind_op (write_page_op oid pid p') (\<lambda>_. bind_op (MarkDirty_op tid oid pid) (\<lambda>_. return_op (Some sl)))) en1 Q"
  proof (cases so)
    case None
    with ins full [OF _ h1] show ?thesis by simp
  next
    case (Some s)
    have q: "length q = PAGE_SIZE" using heap_page.ins_ok [OF p(2) ins] by (rule page_ok_length)
    have "ends page_failure (bind_op (write_page_op oid pid q) (\<lambda>_. bind_op (MarkDirty_op tid oid pid) (\<lambda>_. return_op (Some s)))) en1 Q"
      by (rule heap_put_ends [OF h1 _ q]) (use p(1) stored ins Some in simp_all)
    with ins Some show ?thesis by simp
  qed
qed

lemma insert_fresh_ends:
  assumes ok: "heap_ok oid en" and room: "card (dom (object_pages oid en)) + 1 < 2 ^ 32" and len: "length row \<le> kMaxRowSize"
    and Q: "\<And>rid en'. heap_ok oid en' \<Longrightarrow> heap_rows oid en' = heap_rows oid en @ [(rid, row)] \<Longrightarrow> frame oid en en' \<Longrightarrow> Q rid en'"
  shows "ends page_failure (insert_fresh tid oid row) en Q"
proof -
  let ?m = "object_pages oid en" and ?ids = "heap_page_ids oid en"
  have st: "pages_hold oid en en" using ok by (simp add: holds_start heap_ok_def)
  have fill: "ends page_failure (bind_op (insert_on_page tid oid pid row) (\<lambda>slot. case slot of
        None \<Rightarrow> throw_op (Logic_error ''HeapFile::Insert'') | Some s \<Rightarrow> return_op \<lparr>rid_page_id = pid, rid_slot_id = s\<rparr>)) (push_page_id oid pid en1) Q"
    if pid: "?m pid = None" and h1: "engine_pages.holds oid {} (?m(pid \<mapsto> InitHeapPage pid)) (other_objects oid en) en1" for pid en1
  proof -
    let ?en2 = "push_page_id oid pid en1"
    have e1: "pools_ok en1" "en_pools en1 oid \<noteq> None" "object_pages oid en1 = ?m(pid \<mapsto> InitHeapPage pid)" "other_objects oid en1 = other_objects oid en"
      using h1 by (simp_all add: engine_pages.holds_def object_ok_empty)
    note f1 = other_objects_frame [OF e1(4)]
    have ids2: "heap_page_ids oid ?en2 = ?ids @ [pid]" using f1(2) by (simp add: push_page_id_def heap_page_ids_def)
    have pg2: "object_pages o' ?en2 = object_pages o' en1" for o' by (simp add: push_page_id_def object_pages_def [abs_def] en_has_def en_page_def cong: if_cong)
    have h2: "engine_pages.holds oid {} (?m(pid \<mapsto> InitHeapPage pid)) (other_objects oid ?en2) ?en2"
      using e1(1,2,3) pg2 by (simp add: engine_pages.holds_def object_ok_empty) (simp add: push_page_id_def pools_ok_def)
    have f2: "frame oid en ?en2" using f1 pg2 by (auto simp: frame_def push_page_id_def)
    have room: "\<exists>s q. InsertRecord (InitHeapPage pid) row = (Some s, q)"
      using len by (simp add: InsertRecord_eq InitHeapPage_ok FreeSpace_def InitHeapPage_fields)
    have pgok: "page_ok (InitHeapPage pid)" using InitHeapPage_ok by (simp add: page_ok_def)
    show ?thesis unfolding ends_bind
    proof (rule insert_on_page_ends [OF h2 _ pgok])
      fix s q en' assume ins: "InsertRecord (InitHeapPage pid) row = (Some s, q)"
        and h': "engine_pages.holds oid {} (?m(pid \<mapsto> InitHeapPage pid, pid \<mapsto> q)) (other_objects oid ?en2) en'"
      have e': "pools_ok en'" "object_pages oid en' = ?m(pid \<mapsto> q)" "other_objects oid en' = other_objects oid ?en2"
        using h' by (simp_all add: engine_pages.holds_def object_ok_empty)
      note f' = other_objects_frame [OF e'(3)]
      have ids': "heap_page_ids oid en' = ?ids @ [pid]" using heap_page_ids_cong [OF f'(2)] ids2 by simp
      have fr: "frame oid en en'" using frame_trans [OF f2 f'(1)] .
      have new: "pid \<notin> set ?ids" using ok pid by (auto simp: heap_ok_pages)
      have ok': "heap_ok oid en'"
        using ok e'(1,2) ids' new fr heap_page.ins_ok [OF pgok ins] by (auto simp: heap_ok_pages frame_def)
      have "rows_of (?m(pid \<mapsto> q)) ?ids = rows_of ?m ?ids" using new by (intro rows_of_cong) auto
      moreover have "page_rows pid q = [(\<lparr>rid_page_id = pid, rid_slot_id = s\<rparr>, row)]"
        using page_rows_insert [OF pgok ins, of pid] by (simp add: page_rows_live InitHeapPage_slots)
      ultimately have "heap_rows oid en' = heap_rows oid en @ [(\<lparr>rid_page_id = pid, rid_slot_id = s\<rparr>, row)]"
        using heap_rows_pages [OF ok] heap_rows_pages [OF ok'] by (simp add: e'(2) ids' rows_of_def)
      with Q ok' fr show "ends page_failure (case Some s of None \<Rightarrow> throw_op (Logic_error ''HeapFile::Insert'')
          | Some s \<Rightarrow> return_op \<lparr>rid_page_id = pid, rid_slot_id = s\<rparr>) en' Q" by simp
    qed (use room in auto)
  qed
  show ?thesis unfolding insert_fresh_def ends_bind [of _ "NewHeapPage_op tid oid"]
  proof (rule new_heap_page_ends [OF st room])
    fix pid en1 assume pid: "?m pid = None" and h1: "engine_pages.holds oid {} (?m(pid \<mapsto> InitHeapPage pid)) (other_objects oid en) en1"
    show "ends page_failure (bind_op (LockPage tid oid pid kExclusive) (\<lambda>_. bind_op (modify_op (push_page_id oid pid)) (\<lambda>_.
        bind_op (insert_on_page tid oid pid row) (\<lambda>slot. case slot of None \<Rightarrow> throw_op (Logic_error ''HeapFile::Insert'')
          | Some s \<Rightarrow> return_op \<lparr>rid_page_id = pid, rid_slot_id = s\<rparr>)))) en1 Q"
      unfolding ends_bind [of _ "LockPage tid oid pid kExclusive"]
      by (rule heap_lock_ends [OF h1]) (use fill [OF pid] in \<open>simp add: ends_def modify_op_def bind_op_def\<close>)
  qed
qed

lemma HeapFile_Insert_ends:
  assumes ok: "heap_ok oid en" and room: "card (dom (object_pages oid en)) + 1 < 2 ^ 32" and len: "length row \<le> kMaxRowSize"
    and Q: "\<And>rid en'. heap_ok oid en' \<Longrightarrow> heap_rows oid en' = heap_rows oid en @ [(rid, row)] \<Longrightarrow> frame oid en en' \<Longrightarrow> Q rid en'"
  shows "ends page_failure (HeapFile_Insert tid oid row) en Q"
proof (cases "heap_page_ids oid en = []")
  case True
  with insert_fresh_ends [OF ok room len Q] len show ?thesis by (simp add: ends_def HeapFile_Insert_def)
next
  case False
  let ?m = "object_pages oid en" and ?ids = "heap_page_ids oid en" and ?pid = "last (heap_page_ids oid en)"
  have st: "pages_hold oid en en" using ok by (simp add: holds_start heap_ok_def)
  obtain p where p: "?m ?pid = Some p" "page_ok p" using ok False last_in_set [of ?ids] by (fastforce simp: heap_ok_pages)
  have "ends page_failure (bind_op (LockPage tid oid ?pid kExclusive) (\<lambda>_. bind_op (insert_on_page tid oid ?pid row) (\<lambda>slot. case slot of
      Some s \<Rightarrow> return_op \<lparr>rid_page_id = ?pid, rid_slot_id = s\<rparr> | None \<Rightarrow> insert_fresh tid oid row))) en Q"
    unfolding ends_bind
  proof (rule heap_lock_ends [OF st], rule insert_on_page_ends, assumption, rule p(1), rule p(2))
    fix en1 assume h: "pages_hold oid en en1"
    note q = holds_quiet [OF h]
    have "ends page_failure (insert_fresh tid oid row) en1 Q"
    proof (rule insert_fresh_ends [OF quiet_heap(1) [OF q ok] _ len])
      show "card (dom (object_pages oid en1)) + 1 < 2 ^ 32" using room q by (simp add: quiet_def)
      show "Q rid en'" if "heap_ok oid en'" "heap_rows oid en' = heap_rows oid en1 @ [(rid, row)]" "frame oid en1 en'" for rid en'
        using Q [OF that(1)] that(2) quiet_heap(2) [OF q ok] frame_trans [OF quiet_frame [OF q] that(3)] by simp
    qed
    then show "ends page_failure (case None of Some s \<Rightarrow> return_op \<lparr>rid_page_id = ?pid, rid_slot_id = s\<rparr> | None \<Rightarrow> insert_fresh tid oid row) en1 Q"
      by simp
  next
    fix en1 s q en' assume ins: "InsertRecord p row = (Some s, q)"
      and h: "engine_pages.holds oid {} (?m(?pid \<mapsto> q)) (other_objects oid en) en'"
    note put = heap_page_put [OF ok heap_page.ins_ok [OF p(2) ins] h]
    have "rows_of (?m(?pid \<mapsto> q)) ?ids = heap_rows oid en @ [(\<lparr>rid_page_id = ?pid, rid_slot_id = s\<rparr>, row)]"
      using rows_of_insert_last [of ?ids ?m, OF _ False p(1,2) ins] ok by (simp add: heap_rows_pages) (simp add: heap_ok_def)
    with Q put show "ends page_failure (case Some s of Some s \<Rightarrow> return_op \<lparr>rid_page_id = ?pid, rid_slot_id = s\<rparr> | None \<Rightarrow> insert_fresh tid oid row) en' Q"
      by simp
  qed
  with False len show ?thesis by (simp add: ends_def HeapFile_Insert_def Let_def)
qed

end
