(* ===== verification/Relational.thy ===== *)
theory Relational
  imports Table_Storage "HOL-Library.Multiset"
begin

text \<open>
  What a database stores: for every table of the catalog a list of rows, in the heap file byte for byte and in
  every index of the table as one entry per row. \<open>stores\<close> relates a database to the contents of its tables; the
  statements are specified on the contents alone. This theory holds the relation, that reading keeps it, and
  the rows that a table access fetches.
\<close>

type_synonym row = "RID \<times> LiteralValue list"

definition row_bytes :: "TableInfo \<Rightarrow> LiteralValue list \<Rightarrow> byte list" where
  "row_bytes t vals = concat (map2 value_bytes (tab_columns t) vals)"

definition stored_row :: "TableInfo \<Rightarrow> row \<Rightarrow> RID \<times> byte list" where
  "stored_row t r = (fst r, row_bytes t (snd r))"

definition index_key :: "TableInfo \<Rightarrow> IndexInfo \<Rightarrow> LiteralValue list \<Rightarrow> int64" where
  "index_key t idx vals = lit_int_value (cell t vals (idx_column_name idx))"

definition index_entry :: "TableInfo \<Rightarrow> IndexInfo \<Rightarrow> row \<Rightarrow> int64 \<times> RID" where
  "index_entry t idx r = (index_key t idx (snd r), fst r)"

definition heap_stores :: "engine \<Rightarrow> TableInfo \<Rightarrow> row list \<Rightarrow> bool" where
  "heap_stores en t rows \<longleftrightarrow>
     heap_ok (tab_heap_object_id t) en \<and> heap_rows (tab_heap_object_id t) en = map (stored_row t) rows \<and>
     (\<forall>r \<in> set rows. row_fits (tab_columns t) (snd r))"

definition index_stores :: "engine \<Rightarrow> TableInfo \<Rightarrow> row list \<Rightarrow> IndexInfo \<Rightarrow> bool" where
  "index_stores en t rows idx \<longleftrightarrow>
     (\<exists>es. index_at en (idx_object_id idx) es \<and> mset es = mset (map (index_entry t idx) rows))"

definition stores :: "database \<Rightarrow> (string \<Rightarrow> row list) \<Rightarrow> bool" where
  "stores db D \<longleftrightarrow>
     catalog_ok (db_catalog db) \<and> pools_ok (db_engine db) \<and>
     (\<forall>t \<in> set (cat_tables (db_catalog db)).
        db_objects db (tab_heap_object_id t) = Some Heap_object \<and> heap_stores (db_engine db) t (D (tab_name t)) \<and>
        (\<forall>idx \<in> set (IndexesOnTable (db_catalog db) (tab_name t)).
           db_objects db (idx_object_id idx) = Some Index_object \<and> index_stores (db_engine db) t (D (tab_name t)) idx))"

section \<open>Steps of the database\<close>

lemma ends_engine_op [simp]: "ends mf (engine_op f) db Q = ends mf f (db_engine db) (\<lambda>x en. Q x (db\<lparr>db_engine := en\<rparr>))"
  by (auto simp: ends_def engine_op_def split: prod.splits sum.splits)

lemma ends_lift_Inr [simp]: "ends mf (lift_sum (Inr x)) s Q = Q x s"
  by (simp add: ends_def lift_sum_def)

lemma ends_get [simp]: "ends mf get_op s Q = Q s s"
  by (simp add: ends_def get_op_def)

lemma ends_discard [simp]: "ends mf (discard_op f) s Q = ends mf f s (\<lambda>_. Q ())"
  by (auto simp: ends_def discard_op_def bind_op_def split: prod.splits sum.splits)

text \<open>A step that only reads: locks may be taken and pages cached.\<close>

definition silent :: "database \<Rightarrow> database \<Rightarrow> bool" where
  "silent db db' \<longleftrightarrow> (\<exists>en'. db' = db\<lparr>db_engine := en'\<rparr> \<and> quiet (db_engine db) en')"

lemma silent_engine: "quiet (db_engine db) en' \<Longrightarrow> silent db (db\<lparr>db_engine := en'\<rparr>)"
  by (auto simp: silent_def)

lemma silent_trans: "silent a b \<Longrightarrow> silent b c \<Longrightarrow> silent a c"
  unfolding silent_def using quiet_trans by fastforce

lemma silent_refl: "stores db D \<Longrightarrow> silent db db"
  by (auto simp: silent_def stores_def quiet_def intro!: exI [of _ "db_engine db"])

lemma silent_catalog: "silent db db' \<Longrightarrow> db_catalog db' = db_catalog db"
  by (auto simp: silent_def)

lemma stores_silent:
  assumes "stores db D" and "silent db db'"
  shows "stores db' D"
proof -
  obtain en' where e: "db' = db\<lparr>db_engine := en'\<rparr>" "quiet (db_engine db) en'" using assms(2) by (auto simp: silent_def)
  have "heap_stores en' t rows" if "heap_stores (db_engine db) t rows" for t rows
    using that quiet_heap [OF e(2)] by (simp add: heap_stores_def)
  moreover have "index_stores en' t rows idx" if "index_stores (db_engine db) t rows idx" for t rows idx
    using that quiet_index [OF e(2)] by (auto simp: index_stores_def)
  ultimately show ?thesis using assms(1) e by (auto simp: stores_def quiet_def)
qed

section \<open>Looking things up\<close>

lemma stores_table:
  assumes "stores db D" and "FindTable (db_catalog db) n = Some t"
  shows "t \<in> set (cat_tables (db_catalog db))" and "tab_name t = n" and "table_ok t"
    and "db_objects db (tab_heap_object_id t) = Some Heap_object" and "heap_stores (db_engine db) t (D n)"
    and "idx \<in> set (IndexesOnTable (db_catalog db) n) \<Longrightarrow> db_objects db (idx_object_id idx) = Some Index_object \<and> index_stores (db_engine db) t (D n) idx"
proof -
  show t: "t \<in> set (cat_tables (db_catalog db))" "tab_name t = n"
    using find_SomeD [of "\<lambda>t. tab_name t = n"] assms(2) by (auto simp: FindTable_def)
  show "table_ok t" using assms FindTable_table_ok by (auto simp: stores_def)
  show "db_objects db (tab_heap_object_id t) = Some Heap_object" "heap_stores (db_engine db) t (D n)"
    using assms(1) t by (auto simp: stores_def)
  show "idx \<in> set (IndexesOnTable (db_catalog db) n) \<Longrightarrow> db_objects db (idx_object_id idx) = Some Index_object \<and> index_stores (db_engine db) t (D n) idx"
    using assms(1) t by (auto simp: stores_def)
qed

lemma GetHeapFileForTable_ends:
  assumes "stores db D" and "FindTable (db_catalog db) n = Some t"
  shows "ends mf (bind_op (GetHeapFileForTable n) deref) db Q = Q (tab_heap_object_id t) db"
  using assms stores_table(4) [OF assms] by (simp add: ends_def GetHeapFileForTable_def GetHeapFile_def deref_def bind_op_def)

lemma GetIndex_ends:
  "db_objects db oid = Some Index_object \<Longrightarrow> ends mf (bind_op (GetIndex oid) deref) db Q = Q oid db"
  by (simp add: ends_def GetIndex_def deref_def bind_op_def)

lemma GetIndexByName_ends:
  "FindIndex (db_catalog db) name = Some idx \<Longrightarrow> db_objects db (idx_object_id idx) = Some Index_object \<Longrightarrow>
   ends mf (GetIndexByName name) db Q = Q (Some (idx_object_id idx)) db"
  by (simp add: ends_def GetIndexByName_def GetIndex_def)

lemma ends_deref [simp]: "ends mf (deref (Some oid)) db Q = Q oid db"
  by (simp add: deref_def)

lemma index_column_resolves:
  assumes c: "catalog_ok c" and t: "FindTable c n = Some t" and idx: "idx \<in> set (IndexesOnTable c n)" and fits: "row_fits (tab_columns t) vals"
  shows "\<exists>col. resolves t vals (idx_column_name idx) col \<and> col_type col = ColumnType.kInteger"
proof -
  have "idx \<in> set (cat_indexes c)" "idx_table_name idx = n" using idx by (auto simp: IndexesOnTable_def)
  then obtain t' where t': "t' \<in> set (cat_tables c)" "tab_name t' = n" "integer_column t' (idx_column_name idx)"
    using c by (auto simp: catalog_ok_def list_all_iff index_ok_def)
  with FindTable_ok [OF c t'(1)] t have "t' = t" by simp
  with t'(3) FindTable_table_ok [OF c t] fits show ?thesis
    by (auto simp: integer_column_def resolves_def split: option.splits)
qed

lemma index_column_value:
  assumes "catalog_ok c" and "FindTable c n = Some t" and "idx \<in> set (IndexesOnTable c n)" and "row_fits (tab_columns t) vals"
  obtains i v where "ColumnIndex t (idx_column_name idx) = Inr i" "value_at vals i = Inr v" "lit_int_value v = index_key t idx vals"
proof -
  obtain col where "resolves t vals (idx_column_name idx) col" using index_column_resolves [OF assms] by blast
  from resolvesD(1) [OF this] that show thesis by (auto simp: bind_sum_Inr index_key_def)
qed

section \<open>Rows in storage\<close>

lemma DecodeRow_stored: "row_fits (tab_columns t) vals \<Longrightarrow> DecodeRow (tab_columns t) (row_bytes t vals) = Inr vals"
  using decode_from_bytes [of "tab_columns t" vals "[]" "[]"] by (simp add: DecodeRow_def row_bytes_def)

lemma EncodeRow_stored: "length vals = length (tab_columns t) \<Longrightarrow> EncodeRow (tab_columns t) vals = Inr (row_bytes t vals)"
  by (simp add: row_bytes_def EncodeRow_eq)

lemma heap_stores_distinct: "heap_stores en t rows \<Longrightarrow> distinct (map fst rows)"
  using heap_rows_distinct [of "tab_heap_object_id t" en] by (auto simp: heap_stores_def heap_ok_def stored_row_def comp_def)

lemma map_of_stored: "map_of (map (stored_row t) rows) rid = map_option (row_bytes t) (map_of rows rid)"
  by (induction rows) (auto simp: stored_row_def)

section \<open>Fetching rows\<close>

lemma fetch_rows_ends:
  assumes "stores db D" and "FindTable (db_catalog db) n = Some t" and "set rids \<subseteq> fst ` set (D n)"
    and "\<And>db'. silent db db' \<Longrightarrow> Q (map (\<lambda>rid. stored_row t (rid, the (map_of (D n) rid))) rids) db'"
  shows "ends page_failure (fetch_rows tid (tab_heap_object_id t) rids) db Q"
  using assms
proof (induction rids arbitrary: db Q)
  case Nil
  then show ?case using silent_refl [OF Nil(1)] by simp
next
  case (Cons rid rids)
  note hs = stores_table(5) [OF Cons.prems(1,2)]
  obtain vals where vals: "map_of (D n) rid = Some vals"
    using Cons.prems(3) by (auto simp: map_of_eq_None_iff dest: weak_map_of_SomeI)
  then have row: "map_of (heap_rows (tab_heap_object_id t) (db_engine db)) rid = Some (row_bytes t vals)"
    using hs by (simp add: heap_stores_def map_of_stored)
  show ?case unfolding fetch_rows.simps ends_bind ends_engine_op
  proof (rule HeapFile_GetRow_ends)
    show "heap_ok (tab_heap_object_id t) (db_engine db)" using hs by (simp add: heap_stores_def)
    fix en' assume "quiet (db_engine db) en'"
    then have s1: "silent db (db\<lparr>db_engine := en'\<rparr>)" by (rule silent_engine)
    have "ends page_failure (fetch_rows tid (tab_heap_object_id t) rids) (db\<lparr>db_engine := en'\<rparr>) (\<lambda>rows s'. Q ((rid, row_bytes t vals) # rows) s')"
      by (rule Cons.IH [OF stores_silent [OF Cons.prems(1) s1]])
        (use Cons.prems s1 silent_trans vals in \<open>auto simp: stored_row_def\<close>)
    then show "ends page_failure (case map_of (heap_rows (tab_heap_object_id t) (db_engine db)) rid of
        None \<Rightarrow> throw_op (Logic_error ''index names a RID with no live row'')
      | Some bytes \<Rightarrow> bind_op (fetch_rows tid (tab_heap_object_id t) rids) (\<lambda>rows. return_op ((rid, bytes) # rows))) (db\<lparr>db_engine := en'\<rparr>) Q"
      by (simp add: row)
  qed
qed

lemma search_ends:
  assumes "stores db D" and "FindTable (db_catalog db) n = Some t" and "idx \<in> set (IndexesOnTable (db_catalog db) n)"
    and Q: "\<And>rids db'. silent db db' \<Longrightarrow> mset rids = mset (map fst (filter (\<lambda>r. index_key t idx (snd r) = key) (D n))) \<Longrightarrow> Q rids db'"
  shows "ends page_failure (engine_op (BPlusTree_Search (engine_ops tid (idx_object_id idx)) key)) db Q"
proof -
  obtain es where es: "index_at (db_engine db) (idx_object_id idx) es" "mset es = mset (map (index_entry t idx) (D n))"
    using stores_table(6) [OF assms(1-3)] by (auto simp: index_stores_def)
  have "mset (values_of key es) = image_mset snd (filter_mset (\<lambda>e. fst e = key) (mset es))" by (simp add: values_of_def)
  also have "\<dots> = mset (map fst (filter (\<lambda>r. index_key t idx (snd r) = key) (D n)))"
    unfolding es(2) by (simp add: filter_mset_image_mset image_mset.compositionality comp_def index_entry_def)
  finally have m: "mset (values_of key es) = mset (map fst (filter (\<lambda>r. index_key t idx (snd r) = key) (D n)))" .
  show ?thesis unfolding ends_engine_op
    by (rule ends_mono [OF engine_pages.Search_ends [OF index_holds(2,1) [OF es(1)]]])
      (use Q [OF silent_engine [OF holds_quiet] m] in blast)
qed

text \<open>An index probe: the rows with the key, each as it is stored.\<close>

lemma probe_ends:
  assumes st: "stores db D" and t: "FindTable (db_catalog db) n = Some t" and idx: "idx \<in> set (IndexesOnTable (db_catalog db) n)"
    and Q: "\<And>rs db'. silent db db' \<Longrightarrow> mset rs = mset (filter (\<lambda>r. index_key t idx (snd r) = key) (D n)) \<Longrightarrow> Q (map (stored_row t) rs) db'"
  shows "ends page_failure (bind_op (engine_op (BPlusTree_Search (engine_ops tid (idx_object_id idx)) key)) (fetch_rows tid (tab_heap_object_id t))) db Q"
  unfolding ends_bind
proof (rule search_ends [OF st t idx])
  fix rids db1 assume s1: "silent db db1" and rids: "mset rids = mset (map fst (filter (\<lambda>r. index_key t idx (snd r) = key) (D n)))"
  let ?rs = "map (\<lambda>rid. (rid, the (map_of (D n) rid))) rids"
  have d: "distinct (map fst (D n))" using heap_stores_distinct [OF stores_table(5) [OF st t]] .
  have "mset ?rs = image_mset (\<lambda>r. (fst r, the (map_of (D n) (fst r)))) (mset (filter (\<lambda>r. index_key t idx (snd r) = key) (D n)))"
    unfolding mset_map rids by (simp add: image_mset.compositionality comp_def)
  also have "\<dots> = image_mset (\<lambda>r. r) (mset (filter (\<lambda>r. index_key t idx (snd r) = key) (D n)))"
    using d by (intro image_mset_cong) (auto simp: map_of_eq_Some_iff)
  finally have rs: "mset ?rs = mset (filter (\<lambda>r. index_key t idx (snd r) = key) (D n))" by simp
  have sub: "set rids \<subseteq> fst ` set (D n)" using mset_eq_setD [OF rids] by auto
  have t1: "FindTable (db_catalog db1) n = Some t" using t silent_catalog [OF s1] by simp
  show "ends page_failure (fetch_rows tid (tab_heap_object_id t) rids) db1 Q"
    by (rule fetch_rows_ends [OF stores_silent [OF st s1] t1 sub]) (use Q [OF silent_trans [OF s1] rs] in \<open>simp add: comp_def\<close>)
qed

lemma scan_ends:
  assumes "stores db D" and "FindTable (db_catalog db) n = Some t" and "\<And>db'. silent db db' \<Longrightarrow> Q (map (stored_row t) (D n)) db'"
  shows "ends page_failure (engine_op (HeapFile_Scan tid (tab_heap_object_id t))) db Q"
  using stores_table(5) [OF assms(1,2)] assms(3) unfolding ends_engine_op heap_stores_def
  by (intro HeapFile_Scan_ends) (auto simp: silent_def)

end
