(* ===== verification/Query.thy ===== *)
theory Query
  imports Relational
begin

text \<open>
  What a \<open>SELECT\<close> returns. The reference semantics lists every combination of rows of the tables in the \<open>FROM\<close> and
  \<open>JOIN\<close> clauses, keeps those on which the conditions hold and reads the selected columns. The executor delivers
  the same rows, whatever access paths the planner has chosen.
\<close>

section \<open>The access path of one table\<close>

definition probe :: "catalog \<Rightarrow> TableInfo \<Rightarrow> TableAccessPlan \<Rightarrow> LiteralValue list \<Rightarrow> bool" where
  "probe c t access vals \<longleftrightarrow>
     tap_method access = kSeqScan \<or>
     (\<exists>idx. FindIndex c (tap_index_name access) = Some idx \<and> index_key t idx vals = tap_index_key access)"

lemma plan_index:
  assumes c: "catalog_ok c" and plan: "PlanTableAccess c n preds = Inr access"
  shows "tap_table_name access = n"
    and "tap_method access = kIndexScan \<Longrightarrow> \<exists>idx \<in> set (IndexesOnTable c n). FindIndex c (tap_index_name access) = Some idx"
proof -
  obtain t where t: "FindTable c n = Some t" using plan by (auto simp: PlanTableAccess_def split: option.splits)
  show "tap_table_name access = n"
    using plan t by (auto simp: PlanTableAccess_def bind_sum_Inr split: option.splits)
  assume "tap_method access = kIndexScan"
  then obtain i idx key where d: "driving_predicate c n 0 preds = Some (i, idx, key)" "tap_index_name access = idx_name idx"
    using plan t by (auto simp: PlanTableAccess_def bind_sum_Inr split: option.splits)
  from driving_predicate_Some [OF d(1)] obtain k where k: "FindIndexOnColumn c n k = Some idx" by blast
  have "idx \<in> set (IndexesOnTable c n)" using k find_SomeD unfolding FindIndexOnColumn_def by fastforce
  with FindIndexOnColumn_ok(1) [OF c k] d(2) show "\<exists>idx \<in> set (IndexesOnTable c n). FindIndex c (tap_index_name access) = Some idx" by auto
qed

lemma plan_probe:
  assumes st: "stores db D" and plan: "PlanTableAccess (db_catalog db) n preds = Inr access"
    and t: "FindTable (db_catalog db) n = Some t" and fits: "row_fits (tab_columns t) vals"
  shows "probe (db_catalog db) t access vals \<Longrightarrow> MatchesAll t vals (tap_residual_predicates access) = Inr (where_true [(t, vals)] preds)"
    and "where_true [(t, vals)] preds \<Longrightarrow> probe (db_catalog db) t access vals"
proof -
  have c: "catalog_ok (db_catalog db)" using st by (simp add: stores_def)
  note sel = PlanTableAccess_selects [OF c plan t fits]
  note tn = plan_index(1) [OF c plan]
  have "(probe (db_catalog db) t access vals \<longrightarrow> MatchesAll t vals (tap_residual_predicates access) = Inr (where_true [(t, vals)] preds)) \<and>
      (where_true [(t, vals)] preds \<longrightarrow> probe (db_catalog db) t access vals)"
  proof (cases "tap_method access")
    case kSeqScan
    with sel tn t show ?thesis by (simp add: probe_def access_selects_def)
  next
    case kIndexScan
    then obtain idx where idx: "idx \<in> set (IndexesOnTable (db_catalog db) n)" "FindIndex (db_catalog db) (tap_index_name access) = Some idx"
      using plan_index(2) [OF c plan] by blast
    obtain col where r: "resolves t vals (idx_column_name idx) col" using index_column_resolves [OF c t idx(1) fits] by blast
    have "access_selects (db_catalog db) access vals =
        (if index_key t idx vals \<noteq> tap_index_key access then Inr False else MatchesAll t vals (tap_residual_predicates access))"
      using tn t idx(2) kIndexScan by (simp add: access_selects_def resolvesD(4) [OF r] index_key_def)
    with sel idx(2) kIndexScan show ?thesis by (auto simp: probe_def split: if_splits)
  qed
  then show "probe (db_catalog db) t access vals \<Longrightarrow> MatchesAll t vals (tap_residual_predicates access) = Inr (where_true [(t, vals)] preds)"
    "where_true [(t, vals)] preds \<Longrightarrow> probe (db_catalog db) t access vals" by simp_all
qed

lemma FetchCandidateRows_ends:
  assumes st: "stores db D" and plan: "PlanTableAccess (db_catalog db) n preds = Inr access"
    and t: "FindTable (db_catalog db) n = Some t"
    and Q: "\<And>rs db'. silent db db' \<Longrightarrow> mset rs = mset (filter (\<lambda>r. probe (db_catalog db) t access (snd r)) (D n)) \<Longrightarrow> Q (map (stored_row t) rs) db'"
  shows "ends page_failure (FetchCandidateRows tid access) db Q"
proof -
  have c: "catalog_ok (db_catalog db)" using st by (simp add: stores_def)
  note tn = plan_index(1) [OF c plan]
  note heap = GetHeapFileForTable_ends [OF st t]
  show ?thesis
  proof (cases "tap_method access")
    case kSeqScan
    then have "filter (\<lambda>r. probe (db_catalog db) t access (snd r)) (D n) = D n" by (simp add: probe_def)
    with Q have "Q (map (stored_row t) (D n)) db'" if "silent db db'" for db' using that by simp
    then have "ends page_failure (engine_op (HeapFile_Scan tid (tab_heap_object_id t))) db Q" by (rule scan_ends [OF st t])
    then show ?thesis using kSeqScan by (simp add: FetchCandidateRows_def tn heap [unfolded ends_bind])
  next
    case kIndexScan
    then obtain idx where idx: "idx \<in> set (IndexesOnTable (db_catalog db) n)" "FindIndex (db_catalog db) (tap_index_name access) = Some idx"
      using plan_index(2) [OF c plan] by blast
    have p: "probe (db_catalog db) t access vals \<longleftrightarrow> index_key t idx vals = tap_index_key access" for vals
      using kIndexScan idx(2) by (simp add: probe_def)
    have o: "db_objects db (idx_object_id idx) = Some Index_object" using stores_table(6) [OF st t idx(1)] by simp
    have "ends page_failure (bind_op (engine_op (BPlusTree_Search (engine_ops tid (idx_object_id idx)) (tap_index_key access)))
        (fetch_rows tid (tab_heap_object_id t))) db Q"
      by (rule probe_ends [OF st t idx(1)]) (use Q p in simp)
    then show ?thesis using kIndexScan
      by (simp add: FetchCandidateRows_def tn GetIndexByName_ends [OF idx(2) o] heap [unfolded ends_bind])
  qed
qed

section \<open>The statement on the contents\<close>

definition from_rows :: "catalog \<Rightarrow> (string \<Rightarrow> row list) \<Rightarrow> SelectStatement \<Rightarrow> scope list" where
  "from_rows c D stmt =
     (case FindTable c (sel_from_table stmt) of
        None \<Rightarrow> []
      | Some t \<Rightarrow>
          (case sel_join stmt of
             None \<Rightarrow> map (\<lambda>r. [(t, snd r)]) (D (sel_from_table stmt))
           | Some j \<Rightarrow>
               (case FindTable c (join_table_name j) of
                  None \<Rightarrow> []
                | Some u \<Rightarrow> concat (map (\<lambda>r. map (\<lambda>q. [(t, snd r), (u, snd q)]) (D (join_table_name j))) (D (sel_from_table stmt))))))"

definition query_true :: "SelectStatement \<Rightarrow> scope \<Rightarrow> bool" where
  "query_true stmt sc \<longleftrightarrow>
     (case sel_join stmt of None \<Rightarrow> True | Some j \<Rightarrow> ref_value sc (join_left_column j) = ref_value sc (join_right_column j)) \<and>
     where_true sc (sel_where stmt)"

definition output_values :: "SelectStatement \<Rightarrow> scope \<Rightarrow> sql_value list" where
  "output_values stmt sc =
     (if sel_star stmt then map sql_value_of (concat (map snd sc)) else map (\<lambda>r. the (ref_value sc r)) (sel_list stmt))"

definition query_result :: "catalog \<Rightarrow> (string \<Rightarrow> row list) \<Rightarrow> SelectStatement \<Rightarrow> sql_value list multiset" where
  "query_result c D stmt = mset (map (output_values stmt) (filter (query_true stmt) (from_rows c D stmt)))"

definition query_names :: "catalog \<Rightarrow> SelectStatement \<Rightarrow> string list" where
  "query_names c stmt =
     (if sel_star stmt
      then concat (map (\<lambda>n. case FindTable c n of None \<Rightarrow> [] | Some t \<Rightarrow> map col_name (tab_columns t))
             (sel_from_table stmt # (case sel_join stmt of None \<Rightarrow> [] | Some j \<Rightarrow> [join_table_name j])))
      else map ref_column_name (sel_list stmt))"

abbreviation select_answer :: "catalog \<Rightarrow> (string \<Rightarrow> row list) \<Rightarrow> SelectStatement \<Rightarrow> ExecuteResult \<Rightarrow> bool" where
  "select_answer c D stmt res \<equiv>
     image_mset (map sql_value_of) (mset (res_rows res)) = query_result c D stmt \<and> res_column_names res = query_names c stmt"

section \<open>One table\<close>

lemma map_sum_list_values:
  assumes "list_all2 P rs rs'" and "\<And>r r'. P r r' \<Longrightarrow> \<exists>v. f r' = Inr v \<and> g r = Some (sql_value_of v)"
  shows "\<exists>vs. map_sum_list f rs' = Inr vs \<and> map sql_value_of vs = map (\<lambda>r. the (g r)) rs"
  using assms(1)
proof (induction rule: list_all2_induct)
  case (Cons r rs r' rs')
  then obtain v vs where "f r' = Inr v" "g r = Some (sql_value_of v)" "map_sum_list f rs' = Inr vs" "map sql_value_of vs = map (\<lambda>r. the (g r)) rs"
    using assms(2) by blast
  then show ?case by (intro exI [of _ "v # vs"]) simp
qed simp

lemma select_rows_eq:
  assumes "\<forall>r \<in> set rs. row_fits (tab_columns t) (snd r) \<and> MatchesAll t (snd r) residual = Inr (W (snd r)) \<and>
      (W (snd r) \<longrightarrow> output_row t plan (snd r) = Inr (f (snd r)))"
  shows "select_rows t plan residual (map (stored_row t) rs) = Inr (map (f \<circ> snd) (filter (W \<circ> snd) rs))"
  using assms by (induction rs) (auto simp: stored_row_def DecodeRow_stored)

lemma single_output:
  assumes "if sel_star stmt then sp_select_list plan = [] else list_all2 (\<lambda>r r'. plan_select_column t r = Inr r') (sel_list stmt) (sp_select_list plan)"
    and "sp_select_star plan = sel_star stmt" and "table_ok t" and "row_fits (tab_columns t) vals"
  shows "\<exists>out. output_row t plan vals = Inr out \<and> map sql_value_of out = output_values stmt [(t, vals)]"
proof (cases "sel_star stmt")
  case True
  with assms(2) show ?thesis by (simp add: output_row_def output_values_def)
next
  case False
  have "\<exists>v. bind_sum (ColumnIndex t (ref_column_name r')) (value_at vals) = Inr v \<and> ref_value [(t, vals)] r = Some (sql_value_of v)"
    if "plan_select_column t r = Inr r'" for r r'
  proof -
    from that obtain col where r: "ref_table_name r = None \<or> ref_table_name r = Some (tab_name t)"
      "FindColumn t (ref_column_name r) = Some col" "ref_column_name r' = ref_column_name r"
      by (auto simp: plan_select_column_def bind_sum_Inr RequireColumn_Inr split: if_splits)
    then have "resolves t vals (ref_column_name r) col" using assms(3,4) by (simp add: resolves_def)
    from resolvesD(1,3) [OF this] r show ?thesis by (auto simp: ref_value_def table_values_def)
  qed
  from map_sum_list_values [OF _ this] assms(1,2) False show ?thesis
    by (auto simp: output_row_def output_values_def project_row_def)
qed

lemma PlanSelect_single:
  assumes "PlanSelect c stmt = Inr plan" and "sel_join stmt = None"
  obtains t access where "FindTable c (sel_from_table stmt) = Some t" "PlanTableAccess c (sel_from_table stmt) (sel_where stmt) = Inr access"
    "sp_access plan = Single_access access" "sp_select_star plan = sel_star stmt"
    "if sel_star stmt then sp_select_list plan = [] else list_all2 (\<lambda>r r'. plan_select_column t r = Inr r') (sel_list stmt) (sp_select_list plan)"
  using assms by (auto simp: PlanSelect_def bind_sum_Inr map_sum_list_Inr split: option.splits if_splits)

lemma select_single_ends:
  assumes st: "stores db D" and plan: "PlanSelect (db_catalog db) stmt = Inr plan" and single: "sel_join stmt = None"
  shows "ends page_failure (ExecuteSelect tid stmt) db (\<lambda>res db'. silent db db' \<and> select_answer (db_catalog db) D stmt res)"
  using plan single
proof (cases rule: PlanSelect_single)
  case (1 t access)
  let ?n = "sel_from_table stmt" and ?c = "db_catalog db"
  let ?W = "\<lambda>vals. where_true [(t, vals)] (sel_where stmt)" and ?f = "\<lambda>vals. projr (output_row t plan vals)"
  have c: "catalog_ok ?c" using st by (simp add: stores_def)
  have tok: "table_ok t" using stores_table(3) [OF st 1(1)] .
  have out: "output_row t plan vals = Inr (?f vals) \<and> map sql_value_of (?f vals) = output_values stmt [(t, vals)]"
    if "row_fits (tab_columns t) vals" for vals using single_output [OF 1(5,4) tok that] by auto
  have fits: "row_fits (tab_columns t) (snd r)" if "r \<in> set (D ?n)" for r using stores_table(5) [OF st 1(1)] that by (simp add: heap_stores_def)
  have names: "(if sp_select_star plan then AppendColumnNames t [] else map ref_column_name (sp_select_list plan)) = query_names ?c stmt"
  proof (cases "sel_star stmt")
    case False
    have "map ref_column_name rs' = map ref_column_name rs" if "list_all2 (\<lambda>r r'. plan_select_column t r = Inr r') rs rs'" for rs rs'
      using that by (induction rule: list_all2_induct) (auto simp: plan_select_column_def bind_sum_Inr split: if_splits)
    with False 1(4,5) show ?thesis by (simp add: query_names_def)
  qed (use 1(1,4) single in \<open>simp add: query_names_def AppendColumnNames_def\<close>)
  have run: "ends page_failure (FetchCandidateRows tid access) db (\<lambda>rows s'. ends page_failure
      (bind_op (lift_sum (select_rows t plan (tap_residual_predicates access) rows)) (\<lambda>out. return_op (no_result\<lparr>res_column_names := query_names ?c stmt, res_rows := out\<rparr>))) s'
      (\<lambda>res db'. silent db db' \<and> select_answer ?c D stmt res))"
  proof (rule FetchCandidateRows_ends [OF st 1(2,1)])
    fix rs db' assume s: "silent db db'" and rs: "mset rs = mset (filter (\<lambda>r. probe ?c t access (snd r)) (D ?n))"
    have mem: "r \<in> set (D ?n) \<and> probe ?c t access (snd r)" if "r \<in> set rs" for r using mset_eq_setD [OF rs] that by auto
    have sel: "select_rows t plan (tap_residual_predicates access) (map (stored_row t) rs) = Inr (map (?f \<circ> snd) (filter (?W \<circ> snd) rs))"
      using mem fits plan_probe(1) [OF st 1(2,1)] out by (intro select_rows_eq) auto
    have "image_mset (map sql_value_of) (mset (map (?f \<circ> snd) (filter (?W \<circ> snd) rs))) =
        image_mset (\<lambda>r. map sql_value_of (?f (snd r))) (filter_mset (?W \<circ> snd) (mset rs))"
      by (simp add: image_mset.compositionality comp_def)
    also have "filter_mset (?W \<circ> snd) (mset rs) = mset (filter (\<lambda>r. ?W (snd r)) (D ?n))"
      unfolding rs using plan_probe(2) [OF st 1(2,1) fits] by (auto simp: filter_filter_mset intro!: filter_mset_cong)
    also have "image_mset (\<lambda>r. map sql_value_of (?f (snd r))) (mset (filter (\<lambda>r. ?W (snd r)) (D ?n))) =
        image_mset (\<lambda>r. output_values stmt [(t, snd r)]) (mset (filter (\<lambda>r. ?W (snd r)) (D ?n)))"
      using out fits by (intro image_mset_cong) auto
    also have "\<dots> = query_result ?c D stmt"
      using 1(1) single by (simp add: query_result_def from_rows_def query_true_def filter_map comp_def image_mset.compositionality)
    finally show "ends page_failure (bind_op (lift_sum (select_rows t plan (tap_residual_predicates access) (map (stored_row t) rs)))
        (\<lambda>out. return_op (no_result\<lparr>res_column_names := query_names ?c stmt, res_rows := out\<rparr>))) db'
        (\<lambda>res db'. silent db db' \<and> select_answer ?c D stmt res)"
      using s by (simp add: sel comp_def)
  qed
  have "tap_table_name access = ?n" using plan_index(1) [OF c 1(2)] .
  with run 1 plan show ?thesis
    by (simp add: ExecuteSelect_def ExecuteSelectSingleTable_def names [unfolded 1(4)] Let_def del: if_split)
qed

section \<open>Two tables\<close>

lemma join_inner_eq:
  assumes "\<forall>r \<in> set rs. row_fits (tab_columns it) (snd r) \<and>
      (if jp_inner_method jp = kSeqScan
       then bind_sum (value_at ro oi) (\<lambda>a. bind_sum (value_at (snd r) ii) (\<lambda>b. Inr (LiteralsEqual a b))) else Inr True) = Inr (J (snd r)) \<and>
      MatchesAll it (snd r) (jp_inner_residual_predicates jp) = Inr (W (snd r)) \<and>
      join_row ot it plan ro (snd r) = Inr (f (snd r))"
  shows "join_inner ot it plan jp oi ii ro (map (stored_row it) rs) = Inr (map (f \<circ> snd) (filter (\<lambda>r. J (snd r) \<and> W (snd r)) rs))"
  using assms by (induction rs) (auto simp: stored_row_def DecodeRow_stored)

lemma join_output_value:
  assumes "plan_join_column o_t i_t r = Inr r'" and names: "tab_name o_t \<noteq> tab_name i_t"
    and "table_ok o_t" "row_fits (tab_columns o_t) ro" and "table_ok i_t" "row_fits (tab_columns i_t) ri"
  shows "\<exists>v. (if ref_table_name r' = Some (tab_name o_t) then bind_sum (ColumnIndex o_t (ref_column_name r')) (value_at ro)
      else bind_sum (ColumnIndex i_t (ref_column_name r')) (value_at ri)) = Inr v \<and> ref_value [(o_t, ro), (i_t, ri)] r = Some (sql_value_of v)"
proof -
  from assms(1) obtain side where s: "ResolveColumnSide o_t i_t r = Inr side"
    and r': "r' = \<lparr>ref_table_name = Some (tab_name (if side = kOuter then o_t else i_t)), ref_column_name = ref_column_name r\<rparr>"
    by (auto simp: plan_join_column_def bind_sum_Inr)
  from ResolveColumnSide_Inr [OF s names assms(3-)] obtain col where
    col: "resolves (if side = kOuter then o_t else i_t) (if side = kOuter then ro else ri) (ref_column_name r) col"
      "ref_value [(o_t, ro), (i_t, ri)] r =
        Some (sql_value_of (cell (if side = kOuter then o_t else i_t) (if side = kOuter then ro else ri) (ref_column_name r)))"
    by blast
  from resolvesD(1) [OF col(1)] col(2) names show ?thesis by (cases side) (simp_all add: r')
qed

lemma join_row_output:
  assumes list: "if sel_star stmt then sp_select_list plan = []
      else list_all2 (\<lambda>r r'. plan_join_column o_t i_t r = Inr r') (sel_list stmt) (sp_select_list plan)"
    and star: "sp_select_star plan = sel_star stmt"
    and rows: "tab_name o_t \<noteq> tab_name i_t" "table_ok o_t" "row_fits (tab_columns o_t) ro" "table_ok i_t" "row_fits (tab_columns i_t) ri"
  shows "\<exists>out. join_row o_t i_t plan ro ri = Inr out \<and> map sql_value_of out = output_values stmt [(o_t, ro), (i_t, ri)]"
proof (cases "sel_star stmt")
  case True
  with star show ?thesis by (simp add: join_row_def output_values_def)
next
  case False
  from map_sum_list_values [OF _ join_output_value [OF _ rows]] list star False show ?thesis
    by (auto simp: join_row_def output_values_def)
qed

lemma inner_candidates_ends:
  assumes st: "stores db D" and t: "FindTable (db_catalog db) n = Some t"
    and meth: "jp_inner_method jp = (if FindIndexOnColumn (db_catalog db) n ic \<noteq> None then kIndexScan else kSeqScan)"
    and index: "inner_index = map_option idx_object_id (FindIndexOnColumn (db_catalog db) n ic)"
    and seq: "jp_inner_method jp = kSeqScan \<longrightarrow> seq_rows = map (stored_row t) (D n)" and v: "value_at ro oi = Inr v"
    and Q: "\<And>rs db'. silent db db' \<Longrightarrow> mset rs = mset (filter (\<lambda>r. jp_inner_method jp = kSeqScan \<or> lit_int_value (cell t (snd r) ic) = lit_int_value v) (D n)) \<Longrightarrow>
      Q (map (stored_row t) rs) db'"
  shows "ends page_failure (inner_candidates tid jp (tab_heap_object_id t) inner_index seq_rows ro oi) db Q"
proof (cases "FindIndexOnColumn (db_catalog db) n ic")
  case None
  then show ?thesis using Q [OF silent_refl [OF st], of "D n"] meth seq by (simp add: inner_candidates_def)
next
  case (Some idx)
  have c: "catalog_ok (db_catalog db)" using st by (simp add: stores_def)
  have idx: "idx \<in> set (IndexesOnTable (db_catalog db) n)" using Some find_SomeD unfolding FindIndexOnColumn_def by fastforce
  have "ends page_failure (bind_op (engine_op (BPlusTree_Search (engine_ops tid (idx_object_id idx)) (lit_int_value v)))
      (fetch_rows tid (tab_heap_object_id t))) db Q"
    by (rule probe_ends [OF st t idx]) (use Q meth Some FindIndexOnColumn_ok(2) [OF c Some] in \<open>simp add: index_key_def\<close>)
  with Some meth index v show ?thesis by (simp add: inner_candidates_def)
qed

lemma snd_stored_row [simp]: "snd (stored_row t r) = row_bytes t (snd r)"
  by (simp add: stored_row_def)

lemma join_outer_ends:
  assumes rs: "\<forall>r \<in> set rs. row_fits (tab_columns ot) (snd r) \<and> MatchesAll ot (snd r) (tap_residual_predicates (jp_outer jp)) = Inr (W (snd r))"
    and step: "\<And>ro db1 R. silent db db1 \<Longrightarrow> row_fits (tab_columns ot) ro \<Longrightarrow>
      (\<And>out db'. silent db1 db' \<Longrightarrow> mset out = mset (g ro) \<Longrightarrow> R out db') \<Longrightarrow>
      ends page_failure (bind_op (inner_candidates tid jp ih ix sr ro oi) (\<lambda>cands. lift_sum (join_inner ot it plan jp oi ii ro cands))) db1 R"
    and db1: "silent db db1"
    and Q: "\<And>out db'. silent db db' \<Longrightarrow> mset out = mset (concat (map (g \<circ> snd) (filter (W \<circ> snd) rs))) \<Longrightarrow> Q out db'"
  shows "ends page_failure (join_outer tid ot it plan jp oi ii ih ix sr (map (stored_row ot) rs)) db1 Q"
  using rs db1 Q
proof (induction rs arbitrary: db1 Q)
  case (Cons r rs)
  have r: "DecodeRow (tab_columns ot) (row_bytes ot (snd r)) = Inr (snd r)" "MatchesAll ot (snd r) (tap_residual_predicates (jp_outer jp)) = Inr (W (snd r))"
    using Cons.prems(1) by (simp_all add: DecodeRow_stored)
  show ?case
  proof (cases "W (snd r)")
    case False
    then have "ends page_failure (join_outer tid ot it plan jp oi ii ih ix sr (map (stored_row ot) rs)) db1 Q"
      by (intro Cons.IH) (use Cons.prems in auto)
    with False r show ?thesis by simp
  next
    case True
    have "ends page_failure (bind_op (inner_candidates tid jp ih ix sr (snd r) oi) (\<lambda>cands. lift_sum (join_inner ot it plan jp oi ii (snd r) cands))) db1
        (\<lambda>out s'. ends page_failure (join_outer tid ot it plan jp oi ii ih ix sr (map (stored_row ot) rs)) s' (\<lambda>rest s'. Q (out @ rest) s'))"
    proof (rule step [OF Cons.prems(2)])
      fix out db2 assume s2: "silent db1 db2" and out: "mset out = mset (g (snd r))"
      show "ends page_failure (join_outer tid ot it plan jp oi ii ih ix sr (map (stored_row ot) rs)) db2 (\<lambda>rest s'. Q (out @ rest) s')"
        by (rule Cons.IH) (use Cons.prems silent_trans [OF Cons.prems(2) s2] out True in auto)
    qed (use Cons.prems(1) in simp)
    with True r show ?thesis by simp
  qed
qed simp

text \<open>Everything the executor needs to know of an accepted join, for fitting rows of the two tables.\<close>

lemma join_pair:
  assumes c: "catalog_ok c" and o_f: "FindTable c (tab_name o_t) = Some o_t" and i_f: "FindTable c (tab_name i_t) = Some i_t"
    and sides: "ResolveColumnSide o_t i_t (join_left_column join) = Inr ls" "ResolveColumnSide o_t i_t (join_right_column join) = Inr rs" "ls \<noteq> rs"
    and sided: "list_all2 (\<lambda>p y. check_join_predicate o_t i_t p = Inr y) (sel_where stmt) sided"
    and op: "PlanTableAccess c (tab_name o_t) (map snd (filter (\<lambda>(s, _). s = kOuter) sided)) = Inr outer_plan"
    and join: "sel_join stmt = Some join"
    and rows: "tab_name o_t \<noteq> tab_name i_t" "table_ok o_t" "row_fits (tab_columns o_t) ro" "table_ok i_t" "row_fits (tab_columns i_t) ri"
  defines "sc \<equiv> [(o_t, ro), (i_t, ri)]"
  shows "query_true stmt sc \<longleftrightarrow> where_true [(o_t, ro)] (map snd (filter (\<lambda>(s, _). s = kOuter) sided)) \<and>
      sql_value_of (cell i_t ri (ref_column_name (if ls = kInner then join_left_column join else join_right_column join))) =
      sql_value_of (cell o_t ro (ref_column_name (if ls = kOuter then join_left_column join else join_right_column join))) \<and>
      MatchesAll i_t ri (map snd (filter (\<lambda>(s, _). s = kInner) sided)) = Inr True"
    and "\<exists>b. MatchesAll i_t ri (map snd (filter (\<lambda>(s, _). s = kInner) sided)) = Inr b"
proof -
  note sd = predicate_sides [OF sided rows]
  have "where_true sc (sel_where stmt) \<longleftrightarrow> where_true sc (map snd (filter (\<lambda>(s, _). s = kOuter) sided)) \<and>
      where_true sc (map snd (filter (\<lambda>(s, _). s = kInner) sided))"
    unfolding where_true_def sd(1) [symmetric] by (rule list_all_sides)
  moreover have "where_true sc (map snd (filter (\<lambda>(s, _). s = kOuter) sided)) = where_true [(o_t, ro)] (map snd (filter (\<lambda>(s, _). s = kOuter) sided))"
    using sd(2) PlanTableAccess_MatchesAll [OF c op o_f rows(3)] PlanTableAccess_selects [OF c op o_f rows(3)] by (simp add: sc_def)
  ultimately show "query_true stmt sc \<longleftrightarrow> where_true [(o_t, ro)] (map snd (filter (\<lambda>(s, _). s = kOuter) sided)) \<and>
      sql_value_of (cell i_t ri (ref_column_name (if ls = kInner then join_left_column join else join_right_column join))) =
      sql_value_of (cell o_t ro (ref_column_name (if ls = kOuter then join_left_column join else join_right_column join))) \<and>
      MatchesAll i_t ri (map snd (filter (\<lambda>(s, _). s = kInner) sided)) = Inr True"
    using join_probe [OF sides rows] sd(3) join unfolding query_true_def sc_def by auto
  show "\<exists>b. MatchesAll i_t ri (map snd (filter (\<lambda>(s, _). s = kInner) sided)) = Inr b" using sd(3) by blast
qed

text \<open>One outer row against the inner table.\<close>

lemma join_step_ends:
  assumes st: "stores db D" and i_t: "FindTable (db_catalog db) n = Some i_t"
    and meth: "jp_inner_method jp = (if FindIndexOnColumn (db_catalog db) n ic \<noteq> None then kIndexScan else kSeqScan)"
    and index: "ix = map_option idx_object_id (FindIndexOnColumn (db_catalog db) n ic)"
    and seq: "jp_inner_method jp = kSeqScan \<longrightarrow> sr = map (stored_row i_t) (D n)"
    and oi: "value_at ro oi = Inr v" and ii: "ColumnIndex i_t ic = Inr ii" and col: "FindColumn i_t ic = Some icol"
    and kind: "value_fits icol v"
    and W: "\<And>ri. row_fits (tab_columns i_t) ri \<Longrightarrow> MatchesAll i_t ri (jp_inner_residual_predicates jp) = Inr (W ri)"
    and f: "\<And>ri. row_fits (tab_columns i_t) ri \<Longrightarrow> join_row ot i_t plan ro ri = Inr (f ri)"
    and R: "\<And>out db'. silent db db' \<Longrightarrow>
      mset out = mset (map (f \<circ> snd) (filter (\<lambda>r. sql_value_of (cell i_t (snd r) ic) = sql_value_of v \<and> W (snd r)) (D n))) \<Longrightarrow> R out db'"
  shows "ends page_failure (bind_op (inner_candidates tid jp (tab_heap_object_id i_t) ix sr ro oi) (\<lambda>cands. lift_sum (join_inner ot i_t plan jp oi ii ro cands))) db R"
  unfolding ends_bind
proof (rule inner_candidates_ends [OF st i_t meth index seq oi])
  fix rs db' assume s: "silent db db'"
    and rs: "mset rs = mset (filter (\<lambda>r. jp_inner_method jp = kSeqScan \<or> lit_int_value (cell i_t (snd r) ic) = lit_int_value v) (D n))"
  let ?E = "\<lambda>ri. sql_value_of (cell i_t ri ic) = sql_value_of v"
  have fits: "row_fits (tab_columns i_t) (snd r)" if "r \<in> set (D n)" for r using stores_table(5) [OF st i_t] that by (simp add: heap_stores_def)
  have res: "resolves i_t ri ic icol" if "row_fits (tab_columns i_t) ri" for ri
    using that col stores_table(3) [OF st i_t] by (simp add: resolves_def)
  have kinds: "lit_kind v = lit_kind (cell i_t ri ic)" if "row_fits (tab_columns i_t) ri" for ri
    using fits_kind [OF resolvesD(2) [OF res [OF that]]] fits_kind [OF kind] by simp
  have probe: "lit_int_value (cell i_t ri ic) = lit_int_value v \<longleftrightarrow> ?E ri" if p: "row_fits (tab_columns i_t) ri" "jp_inner_method jp \<noteq> kSeqScan" for ri
  proof -
    obtain idx where ix: "FindIndexOnColumn (db_catalog db) n ic = Some idx" using p(2) meth by (auto split: if_splits)
    have "catalog_ok (db_catalog db)" using st by (simp add: stores_def)
    then have "integer_column i_t ic" using FindIndexOnColumn_ok(4) [OF _ ix i_t] by simp
    then have int: "col_type icol = ColumnType.kInteger" using col by (simp add: integer_column_def)
    then show ?thesis using probe_predicate [OF res [OF p(1)]] fits_kind [OF kind] by simp
  qed
  have mem: "row_fits (tab_columns i_t) (snd r) \<and> (jp_inner_method jp = kSeqScan \<or> lit_int_value (cell i_t (snd r) ic) = lit_int_value v)"
    if "r \<in> set rs" for r using mset_eq_setD [OF rs] that fits by auto
  have "join_inner ot i_t plan jp oi ii ro (map (stored_row i_t) rs) = Inr (map (f \<circ> snd) (filter (\<lambda>r. ?E (snd r) \<and> W (snd r)) rs))"
  proof (rule join_inner_eq, intro ballI)
    fix r assume "r \<in> set rs"
    note m = mem [OF this]
    have "value_at (snd r) ii = Inr (cell i_t (snd r) ic)" using resolvesD(1) [OF res] m ii by simp
    with m W f oi kinds probe show "row_fits (tab_columns i_t) (snd r) \<and>
      (if jp_inner_method jp = kSeqScan
       then bind_sum (value_at ro oi) (\<lambda>a. bind_sum (value_at (snd r) ii) (\<lambda>b. Inr (LiteralsEqual a b))) else Inr True) = Inr (?E (snd r)) \<and>
      MatchesAll i_t (snd r) (jp_inner_residual_predicates jp) = Inr (W (snd r)) \<and> join_row ot i_t plan ro (snd r) = Inr (f (snd r))"
      by (auto simp: LiteralsEqual_sql)
  qed
  moreover have "mset (map (f \<circ> snd) (filter (\<lambda>r. ?E (snd r) \<and> W (snd r)) rs)) = mset (map (f \<circ> snd) (filter (\<lambda>r. ?E (snd r) \<and> W (snd r)) (D n)))"
  proof -
    have "jp_inner_method jp = kSeqScan \<or> lit_int_value (cell i_t (snd r) ic) = lit_int_value v" if "r \<in> set (D n)" "?E (snd r)" for r
      using probe fits that by blast
    then have "filter_mset (\<lambda>r. ?E (snd r) \<and> W (snd r)) (mset rs) = filter_mset (\<lambda>r. ?E (snd r) \<and> W (snd r)) (mset (D n))"
      unfolding rs mset_filter filter_filter_mset by (intro filter_mset_cong) auto
    then show ?thesis by simp
  qed
  ultimately show "ends page_failure (lift_sum (join_inner ot i_t plan jp oi ii ro (map (stored_row i_t) rs))) db' R" using R [OF s] by simp
qed

lemma mset_concat_cong:
  assumes "mset xs = mset ys"
  shows "mset (concat (map g xs)) = mset (concat (map g ys))"
proof -
  have "mset (concat (map g zs)) = \<Sum>\<^sub># (image_mset (mset \<circ> g) (mset zs))" for zs by (induction zs) simp_all
  then show ?thesis using assms by simp
qed

lemma filtered_pairs:
  assumes "\<And>r q. r \<in> set xs \<Longrightarrow> q \<in> set ys \<Longrightarrow> P (sc r q) \<longleftrightarrow> W r \<and> M r q"
    and "\<And>r q. r \<in> set xs \<Longrightarrow> q \<in> set ys \<Longrightarrow> h (f r q) = k (sc r q)"
  shows "map h (concat (map (\<lambda>r. map (f r) (filter (M r) ys)) (filter W xs))) = map k (filter P (concat (map (\<lambda>r. map (sc r) ys) xs)))"
  using assms
proof (induction xs)
  case (Cons r xs)
  have "filter P (map (sc r) ys) = (if W r then map (sc r) (filter (M r) ys) else [])"
    using Cons.prems(1) [of r] by (auto simp: filter_map comp_def intro!: arg_cong [where f = "map (sc r)"] filter_cong)
  with Cons show ?case by auto
qed simp

lemma FindColumn_index:
  assumes "FindColumn t n = Some col"
  shows "\<exists>i. ColumnIndex t n = Inr i"
proof -
  have "find_column cs n = Some col \<Longrightarrow> \<exists>i. column_position cs n k = Some i" for cs k
    by (induction cs arbitrary: k) (auto simp: find_column_def)
  from this [of "tab_columns t" 0] assms show ?thesis by (auto simp: ColumnIndex_def RequireColumn_def FindColumn_def)
qed

lemma join_names:
  assumes "if sel_star stmt then sp_select_list plan = []
      else list_all2 (\<lambda>r r'. plan_join_column o_t i_t r = Inr r') (sel_list stmt) (sp_select_list plan)"
    and "sp_select_star plan = sel_star stmt" and "FindTable c (sel_from_table stmt) = Some o_t"
    and "sel_join stmt = Some join" and "FindTable c (join_table_name join) = Some i_t"
  shows "(if sp_select_star plan then AppendColumnNames i_t (AppendColumnNames o_t []) else map ref_column_name (sp_select_list plan)) = query_names c stmt"
proof (cases "sel_star stmt")
  case False
  have "map ref_column_name rs' = map ref_column_name rs" if "list_all2 (\<lambda>r r'. plan_join_column o_t i_t r = Inr r') rs rs'" for rs rs'
    using that by (induction rule: list_all2_induct) (auto simp: plan_join_column_def bind_sum_Inr)
  with False assms show ?thesis by (simp add: query_names_def)
qed (use assms in \<open>simp add: query_names_def AppendColumnNames_def\<close>)

text \<open>The outer loop over the candidate rows of the outer table, in terms of the rows that pass its predicates.\<close>

lemma join_rows_ends:
  assumes st: "stores db D" and op: "PlanTableAccess (db_catalog db) n preds = Inr (jp_outer jp)" and t: "FindTable (db_catalog db) n = Some t"
    and s1: "silent db db1"
    and step: "\<And>ro db1 R. silent db db1 \<Longrightarrow> row_fits (tab_columns t) ro \<Longrightarrow>
      (\<And>out db'. silent db1 db' \<Longrightarrow> mset out = mset (g ro) \<Longrightarrow> R out db') \<Longrightarrow>
      ends page_failure (bind_op (inner_candidates tid jp ih ix sr ro oi) (\<lambda>cands. lift_sum (join_inner t it plan jp oi ii ro cands))) db1 R"
    and Q: "\<And>out db'. silent db db' \<Longrightarrow> mset out = mset (concat (map (g \<circ> snd) (filter (\<lambda>r. where_true [(t, snd r)] preds) (D n)))) \<Longrightarrow> Q out db'"
  shows "ends page_failure (bind_op (FetchCandidateRows tid (jp_outer jp)) (join_outer tid t it plan jp oi ii ih ix sr)) db1 Q"
  unfolding ends_bind
proof (rule FetchCandidateRows_ends [OF stores_silent [OF st s1], unfolded silent_catalog [OF s1], OF op t])
  let ?c = "db_catalog db" and ?W = "\<lambda>vals. where_true [(t, vals)] preds"
  fix rs db2 assume s2: "silent db1 db2" and rs: "mset rs = mset (filter (\<lambda>r. probe ?c t (jp_outer jp) (snd r)) (D n))"
  have fits: "row_fits (tab_columns t) (snd r)" if "r \<in> set (D n)" for r using stores_table(5) [OF st t] that by (simp add: heap_stores_def)
  have mem: "r \<in> set (D n) \<and> probe ?c t (jp_outer jp) (snd r)" if "r \<in> set rs" for r using mset_eq_setD [OF rs] that by auto
  have "filter_mset (?W \<circ> snd) (mset rs) = filter_mset (?W \<circ> snd) (mset (D n))"
    unfolding rs mset_filter filter_filter_mset using plan_probe(2) [OF st op t fits] by (intro filter_mset_cong) auto
  then have m: "mset (filter (?W \<circ> snd) rs) = mset (filter (?W \<circ> snd) (D n))" by (simp only: mset_filter)
  show "ends page_failure (join_outer tid t it plan jp oi ii ih ix sr (map (stored_row t) rs)) db2 Q"
  proof (rule join_outer_ends [where W = ?W and g = g and db = db])
    show "\<forall>r \<in> set rs. row_fits (tab_columns t) (snd r) \<and> MatchesAll t (snd r) (tap_residual_predicates (jp_outer jp)) = Inr (?W (snd r))"
      using mem fits plan_probe(1) [OF st op t] by auto
    show "silent db db2" using silent_trans [OF s1 s2] .
    show "Q out db'" if "silent db db'" "mset out = mset (concat (map (g \<circ> snd) (filter (?W \<circ> snd) rs)))" for out db'
      using Q that mset_concat_cong [OF m, of "g \<circ> snd"] by (simp add: comp_def)
  qed (use step in auto)
qed

text \<open>The statement around the loops.\<close>

lemma ExecuteSelectJoin_ends:
  assumes st: "stores db D" and o_t: "FindTable (db_catalog db) on = Some o_t" and i_t: "FindTable (db_catalog db) inn = Some i_t"
    and jp: "tap_table_name (jp_outer jp) = on" "jp_inner_table_name jp = inn"
      "jp_inner_method jp = (if FindIndexOnColumn (db_catalog db) inn ic \<noteq> None then kIndexScan else kSeqScan)"
      "jp_inner_index_name jp = (case FindIndexOnColumn (db_catalog db) inn ic of None \<Rightarrow> [] | Some idx \<Rightarrow> idx_name idx)"
    and cols: "ColumnIndex o_t (jp_outer_join_column jp) = Inr oi" "ColumnIndex i_t (jp_inner_join_column jp) = Inr ii"
    and rows: "\<And>db1 sr. silent db db1 \<Longrightarrow> jp_inner_method jp = kSeqScan \<longrightarrow> sr = map (stored_row i_t) (D inn) \<Longrightarrow>
      ends page_failure (bind_op (FetchCandidateRows tid (jp_outer jp))
        (join_outer tid o_t i_t plan jp oi ii (tab_heap_object_id i_t) (map_option idx_object_id (FindIndexOnColumn (db_catalog db) inn ic)) sr)) db1 P"
  shows "ends page_failure (ExecuteSelectJoin tid plan jp) db (\<lambda>res db'. P (res_rows res) db' \<and>
    res_column_names res = (if sp_select_star plan then AppendColumnNames i_t (AppendColumnNames o_t []) else map ref_column_name (sp_select_list plan)))"
proof (cases "FindIndexOnColumn (db_catalog db) inn ic")
  case None
  then have seq: "jp_inner_method jp = kSeqScan" using jp(3) by simp
  have "ends page_failure (engine_op (HeapFile_Scan tid (tab_heap_object_id i_t))) db (\<lambda>sr s1.
      ends page_failure (bind_op (FetchCandidateRows tid (jp_outer jp)) (join_outer tid o_t i_t plan jp oi ii (tab_heap_object_id i_t) None sr)) s1 P)"
    by (rule scan_ends [OF st i_t]) (use rows None in auto)
  then show ?thesis using o_t i_t jp(1,2) cols seq
    by (simp add: ExecuteSelectJoin_def GetHeapFileForTable_ends [OF st i_t, unfolded ends_bind] Let_def del: if_split)
next
  case (Some idx)
  then have meth: "jp_inner_method jp = kIndexScan" and name: "jp_inner_index_name jp = idx_name idx" using jp(3,4) by simp_all
  have c: "catalog_ok (db_catalog db)" using st by (simp add: stores_def)
  have idx: "idx \<in> set (IndexesOnTable (db_catalog db) inn)" using Some find_SomeD unfolding FindIndexOnColumn_def by fastforce
  have o: "db_objects db (idx_object_id idx) = Some Index_object" using stores_table(6) [OF st i_t idx] by simp
  from rows [OF silent_refl [OF st], of "[]"] Some meth show ?thesis using o_t i_t jp(1,2) cols
    by (simp add: ExecuteSelectJoin_def GetHeapFileForTable_ends [OF st i_t, unfolded ends_bind] name
      GetIndexByName_ends [OF FindIndexOnColumn_ok(1) [OF c Some] o] Let_def del: if_split)
qed

lemma join_result:
  assumes "FindTable c (sel_from_table stmt) = Some o_t" and "sel_join stmt = Some join" and "FindTable c (join_table_name join) = Some i_t"
    and "\<And>r q. r \<in> set (D (sel_from_table stmt)) \<Longrightarrow> q \<in> set (D (join_table_name join)) \<Longrightarrow>
      query_true stmt [(o_t, snd r), (i_t, snd q)] = (W (snd r) \<and> M (snd r) (snd q)) \<and>
      map sql_value_of (f (snd r) (snd q)) = output_values stmt [(o_t, snd r), (i_t, snd q)]"
  shows "image_mset (map sql_value_of) (mset (concat (map (\<lambda>r. map (\<lambda>q. f (snd r) (snd q)) (filter (\<lambda>q. M (snd r) (snd q)) (D (join_table_name join))))
    (filter (\<lambda>r. W (snd r)) (D (sel_from_table stmt)))))) = query_result c D stmt"
proof -
  let ?on = "sel_from_table stmt" and ?in = "join_table_name join"
  have "map (map sql_value_of) (concat (map (\<lambda>r. map (\<lambda>q. f (snd r) (snd q)) (filter (\<lambda>q. M (snd r) (snd q)) (D ?in))) (filter (\<lambda>r. W (snd r)) (D ?on)))) =
      map (output_values stmt) (filter (query_true stmt) (concat (map (\<lambda>r. map (\<lambda>q. [(o_t, snd r), (i_t, snd q)]) (D ?in)) (D ?on))))"
    using assms(4) by (intro filtered_pairs) auto
  then show ?thesis using assms(1-3) unfolding query_result_def from_rows_def mset_map [symmetric] by (simp add: comp_def del: mset_map)
qed

lemma select_join_ends:
  assumes st: "stores db D" and plan: "PlanSelect (db_catalog db) stmt = Inr plan" and join: "sel_join stmt = Some join"
  shows "ends page_failure (ExecuteSelect tid stmt) db (\<lambda>res db'. silent db db' \<and> select_answer (db_catalog db) D stmt res)"
proof -
  let ?c = "db_catalog db" and ?on = "sel_from_table stmt" and ?in = "join_table_name join"
  have c: "catalog_ok ?c" using st by (simp add: stores_def)
  obtain o_t where o_t: "FindTable ?c ?on = Some o_t" using plan by (auto simp: PlanSelect_def split: option.splits)
  then have pj: "plan_join ?c stmt o_t join = Inr plan" using plan join by (simp add: PlanSelect_def)
  then obtain i_t where i_t: "FindTable ?c ?in = Some i_t" by (auto simp: plan_join_def split: option.splits)
  have ok: "table_ok o_t" "tab_name o_t = ?on" "table_ok i_t" "tab_name i_t = ?in"
    using FindTable_table_ok [OF c o_t] FindTable_table_ok [OF c i_t] by simp_all
  have o_f: "FindTable ?c (tab_name o_t) = Some o_t" and i_f: "FindTable ?c (tab_name i_t) = Some i_t" using o_t i_t ok by simp_all
  show ?thesis using pj i_t
  proof (cases rule: plan_join_Inr)
    case (1 ls rs ocol icol sided outer_plan)
    let ?oc = "ref_column_name (if ls = kOuter then join_left_column join else join_right_column join)"
      and ?ic = "ref_column_name (if ls = kInner then join_left_column join else join_right_column join)"
      and ?op = "map snd (filter (\<lambda>(s, _). s = kOuter) sided)" and ?ip = "map snd (filter (\<lambda>(s, _). s = kInner) sided)"
    obtain jp where jp: "sp_access plan = Join_access jp" "jp_outer jp = outer_plan" "jp_inner_table_name jp = ?in"
      "jp_inner_method jp = (if FindIndexOnColumn ?c ?in ?ic \<noteq> None then kIndexScan else kSeqScan)"
      "jp_inner_index_name jp = (case FindIndexOnColumn ?c ?in ?ic of None \<Rightarrow> [] | Some idx \<Rightarrow> idx_name idx)"
      "jp_inner_residual_predicates jp = ?ip" "jp_outer_join_column jp = ?oc" "jp_inner_join_column jp = ?ic"
      using that [OF 1(12)] ok(4) by simp
    obtain oi ii where oi: "ColumnIndex o_t ?oc = Inr oi" and ii: "ColumnIndex i_t ?ic = Inr ii"
      using FindColumn_index [OF 1(5)] FindColumn_index [OF 1(6)] by blast
    have names: "tab_name o_t \<noteq> tab_name i_t" using 1(1) by simp
    let ?f = "\<lambda>ro ri. projr (join_row o_t i_t plan ro ri)" and ?Wi = "\<lambda>ri. projr (MatchesAll i_t ri ?ip)"
      and ?E = "\<lambda>ro ri. sql_value_of (cell i_t ri ?ic) = sql_value_of (cell o_t ro ?oc)"
    let ?g = "\<lambda>ro. map (\<lambda>q. ?f ro (snd q)) (filter (\<lambda>q. ?E ro (snd q) \<and> ?Wi (snd q)) (D ?in))"
    note pair = join_pair [OF c o_f i_f 1(2,3,4,8,9) join names ok(1) _ ok(3)]
    have out: "join_row o_t i_t plan ro ri = Inr (?f ro ri) \<and> map sql_value_of (?f ro ri) = output_values stmt [(o_t, ro), (i_t, ri)]"
      and wi: "MatchesAll i_t ri ?ip = Inr (?Wi ri)"
      if "row_fits (tab_columns o_t) ro" "row_fits (tab_columns i_t) ri" for ro ri
      using join_row_output [OF 1(10,11) names ok(1) that(1) ok(3) that(2)] pair(2) [OF that] by auto
    have op: "PlanTableAccess ?c ?on ?op = Inr (jp_outer jp)" using 1(9) ok(2) jp(2) by simp
    have step: "ends page_failure (bind_op (inner_candidates tid jp (tab_heap_object_id i_t) (map_option idx_object_id (FindIndexOnColumn ?c ?in ?ic)) sr ro oi)
        (\<lambda>cands. lift_sum (join_inner o_t i_t plan jp oi ii ro cands))) db1 R"
      if s1: "silent db db1" and ro: "row_fits (tab_columns o_t) ro" and R: "\<And>out db'. silent db1 db' \<Longrightarrow> mset out = mset (?g ro) \<Longrightarrow> R out db'"
        and sr: "jp_inner_method jp = kSeqScan \<longrightarrow> sr = map (stored_row i_t) (D ?in)" for ro db1 R sr
    proof -
      have res: "resolves o_t ro ?oc ocol" using 1(5) ok ro by (simp add: resolves_def)
      have v: "value_at ro oi = Inr (cell o_t ro ?oc)" using resolvesD(1) [OF res] oi by simp
      have k: "value_fits icol (cell o_t ro ?oc)" using resolvesD(2) [OF res] 1(7) by (simp add: value_fits_def)
      show ?thesis
        by (rule join_step_ends [OF stores_silent [OF st s1], unfolded silent_catalog [OF s1], OF i_t jp(4) refl sr v ii 1(6) k, where W = ?Wi and f = "?f ro"])
          (use wi [OF ro] out [OF ro] R jp(6) in \<open>auto simp: comp_def\<close>)
    qed
    have result: "image_mset (map sql_value_of) (mset (concat (map (?g \<circ> snd) (filter (\<lambda>r. where_true [(o_t, snd r)] ?op) (D ?on))))) = query_result ?c D stmt"
      unfolding comp_def
    proof (rule join_result [OF o_t join i_t])
      fix r q assume "r \<in> set (D ?on)" "q \<in> set (D ?in)"
      then have f: "row_fits (tab_columns o_t) (snd r)" "row_fits (tab_columns i_t) (snd q)"
        using stores_table(5) [OF st o_t] stores_table(5) [OF st i_t] by (simp_all add: heap_stores_def)
      show "query_true stmt [(o_t, snd r), (i_t, snd q)] = (where_true [(o_t, snd r)] ?op \<and> ?E (snd r) (snd q) \<and> ?Wi (snd q)) \<and>
          map sql_value_of (?f (snd r) (snd q)) = output_values stmt [(o_t, snd r), (i_t, snd q)]"
        using pair(1) [OF f] wi [OF f] out [OF f] by (auto simp del: if_split)
    qed
    have "ends page_failure (ExecuteSelectJoin tid plan jp) db (\<lambda>res db'. (silent db db' \<and> image_mset (map sql_value_of) (mset (res_rows res)) = query_result ?c D stmt) \<and>
        res_column_names res = query_names ?c stmt)"
      unfolding join_names [OF 1(10,11) o_t join i_t, symmetric]
    proof (rule ExecuteSelectJoin_ends [OF st o_t i_t plan_index(1) [OF c op] jp(3,4,5) oi [folded jp(7)] ii [folded jp(8)]])
      fix db1 sr assume a: "silent db db1" "jp_inner_method jp = kSeqScan \<longrightarrow> sr = map (stored_row i_t) (D ?in)"
      show "ends page_failure (bind_op (FetchCandidateRows tid (jp_outer jp)) (join_outer tid o_t i_t plan jp oi ii (tab_heap_object_id i_t)
          (map_option idx_object_id (FindIndexOnColumn ?c ?in ?ic)) sr)) db1 (\<lambda>out db'. silent db db' \<and> image_mset (map sql_value_of) (mset out) = query_result ?c D stmt)"
        by (rule join_rows_ends [OF st op o_t a(1), where g = ?g]) (use step a(2) result in auto)
    qed
    with plan jp(1) show ?thesis by (simp add: ExecuteSelect_def)
  qed
qed

lemma ExecuteSelect_ends:
  assumes "stores db D" and "PlanSelect (db_catalog db) stmt = Inr plan"
  shows "ends page_failure (ExecuteSelect tid stmt) db (\<lambda>res db'. silent db db' \<and> select_answer (db_catalog db) D stmt res)"
  using select_single_ends [OF assms] select_join_ends [OF assms] by (cases "sel_join stmt") simp_all

end
