(* ===== verification/Modification.thy ===== *)
theory Modification
  imports Query
begin

text \<open>
  What \<open>INSERT\<close> and \<open>DELETE\<close> do to the contents of a database. Between the steps of one statement the heap file of
  the table and its indexes differ; \<open>holding\<close> describes such a state by the rows in every heap file and in every
  index. Each step changes one object and leaves the others alone.
\<close>

section \<open>States within a statement\<close>

definition holding :: "database \<Rightarrow> (string \<Rightarrow> row list) \<Rightarrow> (IndexInfo \<Rightarrow> row list) \<Rightarrow> bool" where
  "holding db H I \<longleftrightarrow>
     catalog_ok (db_catalog db) \<and> pools_ok (db_engine db) \<and>
     (\<forall>t \<in> set (cat_tables (db_catalog db)).
        db_objects db (tab_heap_object_id t) = Some Heap_object \<and> heap_stores (db_engine db) t (H (tab_name t)) \<and>
        (\<forall>idx \<in> set (IndexesOnTable (db_catalog db) (tab_name t)).
           db_objects db (idx_object_id idx) = Some Index_object \<and> index_stores (db_engine db) t (I idx) idx))"

lemma stores_holding: "stores db D \<longleftrightarrow> holding db D (\<lambda>idx. D (idx_table_name idx))"
  unfolding stores_def holding_def by (auto simp: IndexesOnTable_def)

lemma holding_cong:
  "holding db H I \<Longrightarrow> (\<And>idx. idx \<in> set (cat_indexes (db_catalog db)) \<Longrightarrow> I idx = J idx) \<Longrightarrow> holding db H J"
  unfolding holding_def by (auto simp: IndexesOnTable_def)

lemma holding_table:
  assumes "holding db H I" and "FindTable (db_catalog db) n = Some t"
  shows "t \<in> set (cat_tables (db_catalog db))" and "tab_name t = n" and "heap_stores (db_engine db) t (H n)"
    and "db_objects db (tab_heap_object_id t) = Some Heap_object"
    and "idx \<in> set (IndexesOnTable (db_catalog db) n) \<Longrightarrow> db_objects db (idx_object_id idx) = Some Index_object \<and> index_stores (db_engine db) t (I idx) idx"
proof -
  show t: "t \<in> set (cat_tables (db_catalog db))" "tab_name t = n"
    using find_SomeD [of "\<lambda>t. tab_name t = n"] assms(2) by (auto simp: FindTable_def)
  from assms(1) t show "heap_stores (db_engine db) t (H n)" "db_objects db (tab_heap_object_id t) = Some Heap_object"
    "idx \<in> set (IndexesOnTable (db_catalog db) n) \<Longrightarrow> db_objects db (idx_object_id idx) = Some Index_object \<and> index_stores (db_engine db) t (I idx) idx"
    by (auto simp: holding_def)
qed

text \<open>Objects of the catalog have different ids.\<close>

lemma object_ids_inj:
  assumes "catalog_ok c"
  shows "t \<in> set (cat_tables c) \<Longrightarrow> u \<in> set (cat_tables c) \<Longrightarrow> tab_heap_object_id t = tab_heap_object_id u \<Longrightarrow> t = u"
    and "i \<in> set (cat_indexes c) \<Longrightarrow> j \<in> set (cat_indexes c) \<Longrightarrow> idx_object_id i = idx_object_id j \<Longrightarrow> i = j"
    and "t \<in> set (cat_tables c) \<Longrightarrow> i \<in> set (cat_indexes c) \<Longrightarrow> tab_heap_object_id t \<noteq> idx_object_id i"
  using assms by (auto simp: catalog_ok_def object_ids_def distinct_map dest: inj_onD)

lemma IndexesOnTable_distinct: "catalog_ok c \<Longrightarrow> distinct (IndexesOnTable c n)"
  by (auto simp: catalog_ok_def IndexesOnTable_def distinct_map object_ids_def)

lemma index_stores_frame:
  "frame oid en en' \<Longrightarrow> pools_ok en' \<Longrightarrow> idx_object_id idx \<noteq> oid \<Longrightarrow> index_stores en t rows idx \<Longrightarrow> index_stores en' t rows idx"
  unfolding index_stores_def using frame_index by blast

lemma heap_stores_frame:
  "frame oid en en' \<Longrightarrow> pools_ok en' \<Longrightarrow> tab_heap_object_id t \<noteq> oid \<Longrightarrow> heap_stores en t rows \<Longrightarrow> heap_stores en' t rows"
  using frame_heap by (simp add: heap_stores_def)

lemma holding_index:
  assumes h: "holding db H I" and t: "FindTable (db_catalog db) n = Some t" and idx: "idx \<in> set (IndexesOnTable (db_catalog db) n)"
    and f: "frame (idx_object_id idx) (db_engine db) en'" and ok: "pools_ok en'" and new: "index_stores en' t rows idx"
  shows "holding (db\<lparr>db_engine := en'\<rparr>) H (I(idx := rows))"
proof -
  have c: "catalog_ok (db_catalog db)" using h by (simp add: holding_def)
  have i: "idx \<in> set (cat_indexes (db_catalog db))" "idx_table_name idx = n" using idx by (auto simp: IndexesOnTable_def)
  have "heap_stores en' u (H (tab_name u))" if "u \<in> set (cat_tables (db_catalog db))" for u
    using h that object_ids_inj(3) [OF c that i(1)] by (intro heap_stores_frame [OF f ok]) (auto simp: holding_def)
  moreover have "index_stores en' u ((I(idx := rows)) j) j"
    if u: "u \<in> set (cat_tables (db_catalog db))" and j: "j \<in> set (IndexesOnTable (db_catalog db) (tab_name u))" for u j
  proof (cases "j = idx")
    case True
    then have "tab_name u = n" using j i(2) by (auto simp: IndexesOnTable_def)
    then have "u = t" using FindTable_ok [OF c u] t by simp
    with True new show ?thesis by simp
  next
    case False
    then have "idx_object_id j \<noteq> idx_object_id idx" using object_ids_inj(2) [OF c _ i(1)] j by (auto simp: IndexesOnTable_def)
    with False h u j show ?thesis by (auto simp: holding_def intro: index_stores_frame [OF f ok])
  qed
  ultimately show ?thesis using h ok by (simp add: holding_def)
qed

lemma holding_heap:
  assumes h: "holding db H I" and t: "FindTable (db_catalog db) n = Some t"
    and f: "frame (tab_heap_object_id t) (db_engine db) en'" and ok: "pools_ok en'" and new: "heap_stores en' t rows"
  shows "holding (db\<lparr>db_engine := en'\<rparr>) (H(n := rows)) I"
proof -
  have c: "catalog_ok (db_catalog db)" using h by (simp add: holding_def)
  note tt = holding_table(1,2) [OF h t]
  have "heap_stores en' u ((H(n := rows)) (tab_name u))" if u: "u \<in> set (cat_tables (db_catalog db))" for u
  proof (cases "u = t")
    case False
    then have "tab_name u \<noteq> n" using FindTable_ok [OF c u] t by auto
    moreover have "tab_heap_object_id u \<noteq> tab_heap_object_id t" using object_ids_inj(1) [OF c u tt(1)] False by auto
    ultimately show ?thesis using h u by (auto simp: holding_def intro: heap_stores_frame [OF f ok])
  qed (use new tt in simp)
  moreover have "index_stores en' u (I j) j" if "u \<in> set (cat_tables (db_catalog db))" "j \<in> set (IndexesOnTable (db_catalog db) (tab_name u))" for u j
    using h that object_ids_inj(3) [OF c tt(1), of j] by (intro index_stores_frame [OF f ok]) (auto simp: holding_def IndexesOnTable_def)
  ultimately show ?thesis using h ok by (simp add: holding_def)
qed

section \<open>Changing one object\<close>

definition changed :: "ObjectId \<Rightarrow> database \<Rightarrow> database \<Rightarrow> bool" where
  "changed oid db db' \<longleftrightarrow> (\<exists>en'. db' = db\<lparr>db_engine := en'\<rparr> \<and> frame oid (db_engine db) en')"

lemma changed_engine: "frame oid (db_engine db) en' \<Longrightarrow> changed oid db (db\<lparr>db_engine := en'\<rparr>)"
  by (auto simp: changed_def)

lemma changed_catalog: "changed oid db db' \<Longrightarrow> db_catalog db' = db_catalog db"
  by (auto simp: changed_def)

lemma changed_pages: "changed oid db db' \<Longrightarrow> o' \<noteq> oid \<Longrightarrow> object_pages o' (db_engine db') = object_pages o' (db_engine db)"
  by (auto simp: changed_def frame_def)

lemma mset_insert_entry: "mset (insert_entry key rid es) = add_mset (key, rid) (mset es)"
proof -
  have "mset (takeWhile P es) + mset (dropWhile P es) = mset es" for P by (metis mset_append takeWhile_dropWhile_id)
  then show ?thesis by (simp add: insert_entry_def)
qed

lemma index_insert_ends:
  assumes h: "holding db H I" and t: "FindTable (db_catalog db) n = Some t" and idx: "idx \<in> set (IndexesOnTable (db_catalog db) n)"
    and few: "length (filter (\<lambda>r. index_key t idx (snd r) = index_key t idx vals) (I idx)) < kLeafMaxKeys"
    and room: "card (dom (object_pages (idx_object_id idx) (db_engine db))) + 40 < 2 ^ 32"
    and Q: "\<And>db'. changed (idx_object_id idx) db db' \<Longrightarrow> holding db' H (I(idx := I idx @ [(rid, vals)])) \<Longrightarrow> Q () db'"
  shows "ends page_failure (engine_op (BPlusTree_Insert (engine_ops tid (idx_object_id idx)) (index_key t idx vals) rid)) db Q"
proof -
  let ?oid = "idx_object_id idx" and ?key = "index_key t idx vals"
  obtain es where es: "index_at (db_engine db) ?oid es" "mset es = mset (map (index_entry t idx) (I idx))"
    using holding_table(5) [OF h t idx] by (auto simp: index_stores_def)
  have "length (filter (\<lambda>e. fst e = ?key) es) = size (filter_mset (\<lambda>e. fst e = ?key) (mset es))" by (metis mset_filter size_mset)
  also have "\<dots> = length (filter (\<lambda>r. index_key t idx (snd r) = ?key) (I idx))"
    unfolding es(2) by (simp add: filter_mset_image_mset index_entry_def comp_def) (metis mset_filter size_mset)
  finally have few': "length (filter (\<lambda>e. fst e = ?key) es) < kLeafMaxKeys" using few by simp
  have m: "mset (insert_entry ?key rid es) = mset (map (index_entry t idx) (I idx @ [(rid, vals)]))"
    using es(2) by (simp add: mset_insert_entry index_entry_def)
  show ?thesis unfolding ends_engine_op
  proof (rule ends_mono [OF engine_pages.Insert_ends [OF index_holds(2) [OF es(1)] few' room index_holds(1) [OF es(1)]]])
    fix x en' assume "\<exists>m'. engine_pages.holds ?oid {} m' (other_objects ?oid (db_engine db)) en' \<and> btree_at m' (insert_entry ?key rid es)"
    then obtain m' where m': "engine_pages.holds ?oid {} m' (other_objects ?oid (db_engine db)) en'" "btree_at m' (insert_entry ?key rid es)" by blast
    note hi = holds_index [OF m'(1)]
    have at: "index_at en' ?oid (insert_entry ?key rid es)" using hi(3) m'(2) by simp
    note f = other_objects_frame(1) [OF hi(2)]
    have "index_stores en' t (I idx @ [(rid, vals)]) idx" using at m by (auto simp: index_stores_def)
    then have "holding (db\<lparr>db_engine := en'\<rparr>) H (I(idx := I idx @ [(rid, vals)]))"
      using at by (intro holding_index [OF h t idx f]) (simp_all add: index_at_def)
    with f show "Q x (db\<lparr>db_engine := en'\<rparr>)" using Q [OF changed_engine] by simp
  qed
qed

lemma mset_remove_row:
  "(rid, vals) \<in> set rs \<Longrightarrow> distinct (map fst rs) \<Longrightarrow> add_mset (rid, vals) (filter_mset (\<lambda>r. fst r \<noteq> rid) (mset rs)) = mset rs"
proof (induction rs)
  case (Cons r rs)
  show ?case
  proof (cases "fst r = rid")
    case True
    then have "rid \<notin> fst ` set rs" using Cons.prems(2) by auto
    then have "filter (\<lambda>r. fst r \<noteq> rid) rs = rs" and "(rid, vals) \<notin> set rs" by (force simp: filter_id_conv)+
    with True Cons.prems(1) show ?thesis by (auto simp flip: mset_filter)
  next
    case False
    with Cons show ?thesis by auto
  qed
qed simp

lemma index_delete_ends:
  assumes h: "holding db H I" and t: "FindTable (db_catalog db) n = Some t" and idx: "idx \<in> set (IndexesOnTable (db_catalog db) n)"
    and row: "(rid, vals) \<in> set (I idx)" "distinct (map fst (I idx))"
    and Q: "\<And>db'. changed (idx_object_id idx) db db' \<Longrightarrow> holding db' H (I(idx := filter (\<lambda>r. fst r \<noteq> rid) (I idx))) \<Longrightarrow> Q True db'"
  shows "ends page_failure (engine_op (BPlusTree_Delete (engine_ops tid (idx_object_id idx)) (index_key t idx vals) rid)) db Q"
proof -
  let ?oid = "idx_object_id idx" and ?key = "index_key t idx vals"
  obtain es where es: "index_at (db_engine db) ?oid es" "mset es = mset (map (index_entry t idx) (I idx))"
    using holding_table(5) [OF h t idx] by (auto simp: index_stores_def)
  have mem: "(?key, rid) \<in> set es" using mset_eq_setD [OF es(2)] row(1) by (force simp: index_entry_def)
  have m: "mset (remove1 (?key, rid) es) = mset (map (index_entry t idx) (filter (\<lambda>r. fst r \<noteq> rid) (I idx)))"
  proof -
    have "mset es = add_mset (?key, rid) (mset (map (index_entry t idx) (filter (\<lambda>r. fst r \<noteq> rid) (I idx))))"
      using es(2) arg_cong [OF mset_remove_row [OF row], of "image_mset (index_entry t idx)"] by (simp add: index_entry_def)
    then show ?thesis by simp
  qed
  show ?thesis unfolding ends_engine_op
  proof (rule ends_mono [OF engine_pages.Delete_ends [OF index_holds(2,1) [OF es(1)]]])
    fix x en' assume "x = ((?key, rid) \<in> set es) \<and> (\<exists>m'. engine_pages.holds ?oid {} m' (other_objects ?oid (db_engine db)) en' \<and>
      dom m' = dom (object_pages ?oid (db_engine db)) \<and> btree_at m' (remove1 (?key, rid) es))"
    then obtain m' where m': "engine_pages.holds ?oid {} m' (other_objects ?oid (db_engine db)) en'" "btree_at m' (remove1 (?key, rid) es)" and x
      using mem by blast
    note hi = holds_index [OF m'(1)]
    have at: "index_at en' ?oid (remove1 (?key, rid) es)" using hi(3) m'(2) by simp
    note f = other_objects_frame(1) [OF hi(2)]
    have "index_stores en' t (filter (\<lambda>r. fst r \<noteq> rid) (I idx)) idx" using at m by (auto simp: index_stores_def)
    then have "holding (db\<lparr>db_engine := en'\<rparr>) H (I(idx := filter (\<lambda>r. fst r \<noteq> rid) (I idx)))"
      using at by (intro holding_index [OF h t idx f]) (simp_all add: index_at_def)
    with f \<open>x\<close> show "Q x (db\<lparr>db_engine := en'\<rparr>)" using Q [OF changed_engine] by simp
  qed
qed

lemma heap_insert_ends:
  assumes h: "holding db H I" and t: "FindTable (db_catalog db) n = Some t"
    and fits: "row_fits (tab_columns t) vals" and len: "length (row_bytes t vals) \<le> kMaxRowSize"
    and room: "card (dom (object_pages (tab_heap_object_id t) (db_engine db))) + 1 < 2 ^ 32"
    and Q: "\<And>rid db'. rid \<notin> fst ` set (H n) \<Longrightarrow> changed (tab_heap_object_id t) db db' \<Longrightarrow> holding db' (H(n := H n @ [(rid, vals)])) I \<Longrightarrow> Q rid db'"
  shows "ends page_failure (engine_op (HeapFile_Insert tid (tab_heap_object_id t) (row_bytes t vals))) db Q"
  unfolding ends_engine_op
proof (rule HeapFile_Insert_ends [OF _ room len])
  let ?oid = "tab_heap_object_id t"
  note hs = holding_table(3) [OF h t]
  show ok: "heap_ok ?oid (db_engine db)" using hs by (simp add: heap_stores_def)
  fix rid en' assume ok': "heap_ok ?oid en'" and rows: "heap_rows ?oid en' = heap_rows ?oid (db_engine db) @ [(rid, row_bytes t vals)]"
    and f: "frame ?oid (db_engine db) en'"
  have new: "heap_stores en' t (H n @ [(rid, vals)])" using hs ok' rows fits by (auto simp: heap_stores_def stored_row_def)
  have "holding (db\<lparr>db_engine := en'\<rparr>) (H(n := H n @ [(rid, vals)])) I"
    by (rule holding_heap [OF h t f _ new]) (use ok' in \<open>simp add: heap_ok_def\<close>)
  moreover have "rid \<notin> fst ` set (H n)" using heap_stores_distinct [OF new] by auto
  ultimately show "Q rid (db\<lparr>db_engine := en'\<rparr>)" using Q changed_engine [OF f] by simp
qed

lemma heap_delete_ends:
  assumes h: "holding db H I" and t: "FindTable (db_catalog db) n = Some t"
    and Q: "\<And>db'. changed (tab_heap_object_id t) db db' \<Longrightarrow> holding db' (H(n := filter (\<lambda>r. fst r \<noteq> rid) (H n))) I \<Longrightarrow> Q (rid \<in> fst ` set (H n)) db'"
  shows "ends page_failure (engine_op (HeapFile_Delete tid (tab_heap_object_id t) rid)) db Q"
  unfolding ends_engine_op
proof (rule HeapFile_Delete_ends)
  let ?oid = "tab_heap_object_id t"
  note hs = holding_table(3) [OF h t]
  show ok: "heap_ok ?oid (db_engine db)" using hs by (simp add: heap_stores_def)
  fix en' assume ok': "heap_ok ?oid en'" and rows: "heap_rows ?oid en' = filter (\<lambda>(r, _). r \<noteq> rid) (heap_rows ?oid (db_engine db))"
    and f: "frame ?oid (db_engine db) en'"
  have "heap_rows ?oid en' = map (stored_row t) (filter (\<lambda>r. fst r \<noteq> rid) (H n))"
    using hs rows by (simp add: heap_stores_def filter_map comp_def stored_row_def case_prod_unfold)
  then have new: "heap_stores en' t (filter (\<lambda>r. fst r \<noteq> rid) (H n))" using hs ok' by (simp add: heap_stores_def)
  have "holding (db\<lparr>db_engine := en'\<rparr>) (H(n := filter (\<lambda>r. fst r \<noteq> rid) (H n))) I"
    by (rule holding_heap [OF h t f _ new]) (use ok' in \<open>simp add: heap_ok_def\<close>)
  moreover have "fst ` set (heap_rows ?oid (db_engine db)) = fst ` set (H n)"
    using hs by (simp add: heap_stores_def image_image stored_row_def)
  ultimately show "Q (rid \<in> fst ` set (heap_rows ?oid (db_engine db))) (db\<lparr>db_engine := en'\<rparr>)" using Q changed_engine [OF f] by simp
qed

section \<open>All indexes of a table\<close>

text \<open>The body of the two loops: the column of the index, its tree, and the operation on the key of the row.\<close>

definition with_index :: "TableInfo \<Rightarrow> LiteralValue list \<Rightarrow> (ObjectId \<Rightarrow> int64 \<Rightarrow> (database, unit) operation) \<Rightarrow> IndexInfo \<Rightarrow> (database, unit) operation" where
  "with_index t vals f idx =
     bind_op (lift_sum (ColumnIndex t (idx_column_name idx))) (\<lambda>col_idx.
     bind_op (bind_op (GetIndex (idx_object_id idx)) deref) (\<lambda>tree.
     bind_op (lift_sum (value_at vals col_idx)) (\<lambda>v. f tree (lit_int_value v))))"

lemma with_index_ends:
  assumes "holding db H I" and "FindTable (db_catalog db) n = Some t" and "idx \<in> set (IndexesOnTable (db_catalog db) n)"
    and "row_fits (tab_columns t) vals"
  shows "ends mf (with_index t vals f idx) db Q = ends mf (f (idx_object_id idx) (index_key t idx vals)) db Q"
proof -
  have c: "catalog_ok (db_catalog db)" using assms(1) by (simp add: holding_def)
  obtain i v where "ColumnIndex t (idx_column_name idx) = Inr i" "value_at vals i = Inr v" "lit_int_value v = index_key t idx vals"
    using index_column_value [OF c assms(2-4)] .
  moreover have "db_objects db (idx_object_id idx) = Some Index_object" using holding_table(5) [OF assms(1-3)] by simp
  ultimately show ?thesis by (simp add: with_index_def GetIndex_ends [unfolded ends_bind])
qed

lemma index_loops:
  "InsertIntoAllIndexes tid c t vals rid =
     for_each (IndexesOnTable c (tab_name t)) (with_index t vals (\<lambda>tree key. engine_op (BPlusTree_Insert (engine_ops tid tree) key rid)))"
  "DeleteFromAllIndexes tid c t vals rid =
     for_each (IndexesOnTable c (tab_name t)) (with_index t vals (\<lambda>tree key. discard_op (engine_op (BPlusTree_Delete (engine_ops tid tree) key rid))))"
  by (simp_all add: InsertIntoAllIndexes_def DeleteFromAllIndexes_def with_index_def [abs_def])

lemma index_loop_ends:
  assumes "holding db H I" and "FindTable (db_catalog db) n = Some t" and "set ixs \<subseteq> set (IndexesOnTable (db_catalog db) n)" and "distinct ixs"
    and "row_fits (tab_columns t) vals" and "\<forall>idx \<in> set ixs. P idx (object_pages (idx_object_id idx) (db_engine db))"
    and step: "\<And>db1 I1 idx R. holding db1 H I1 \<Longrightarrow> FindTable (db_catalog db1) n = Some t \<Longrightarrow> idx \<in> set (IndexesOnTable (db_catalog db1) n) \<Longrightarrow>
      I1 idx = I idx \<Longrightarrow> idx \<in> set ixs \<Longrightarrow> P idx (object_pages (idx_object_id idx) (db_engine db1)) \<Longrightarrow>
      (\<And>db2. changed (idx_object_id idx) db1 db2 \<Longrightarrow> holding db2 H (I1(idx := g (I1 idx))) \<Longrightarrow> R () db2) \<Longrightarrow>
      ends page_failure (f (idx_object_id idx) (index_key t idx vals)) db1 R"
    and Q: "\<And>db'. db_catalog db' = db_catalog db \<Longrightarrow> holding db' H (\<lambda>idx. if idx \<in> set ixs then g (I idx) else I idx) \<Longrightarrow> Q () db'"
  shows "ends page_failure (for_each ixs (with_index t vals f)) db Q"
  using assms
proof (induction ixs arbitrary: db I Q)
  case Nil
  then show ?case by simp
next
  case (Cons idx ixs)
  have c: "catalog_ok (db_catalog db)" using Cons.prems(1) by (simp add: holding_def)
  have idx: "idx \<in> set (IndexesOnTable (db_catalog db) n)" using Cons.prems(3) by simp
  have "ends page_failure (f (idx_object_id idx) (index_key t idx vals)) db (\<lambda>_ s'. ends page_failure (for_each ixs (with_index t vals f)) s' Q)"
  proof (rule Cons.prems(7) [OF Cons.prems(1,2) idx])
    fix db2 assume ch: "changed (idx_object_id idx) db db2" and h2: "holding db2 H (I(idx := g (I idx)))"
    note c2 = changed_catalog [OF ch]
    have other: "idx_object_id j \<noteq> idx_object_id idx" if "j \<in> set ixs" for j
      using that object_ids_inj(2) [OF c, of j idx] Cons.prems(3,4) by (auto simp: IndexesOnTable_def)
    have new: "idx \<notin> set ixs" using Cons.prems(4) by simp
    show "ends page_failure (for_each ixs (with_index t vals f)) db2 Q"
    proof (rule Cons.IH [OF h2])
      show "\<forall>j \<in> set ixs. P j (object_pages (idx_object_id j) (db_engine db2))"
        using Cons.prems(6) changed_pages [OF ch other] by simp
      show "Q () db'" if "db_catalog db' = db_catalog db2" "holding db' H (\<lambda>j. if j \<in> set ixs then g ((I(idx := g (I idx))) j) else (I(idx := g (I idx))) j)" for db'
        using that new c2 by (intro Cons.prems(8) holding_cong [OF that(2)]) auto
      show "ends page_failure (f (idx_object_id j) (index_key t j vals)) db1 R"
        if "holding db1 H I1" "FindTable (db_catalog db1) n = Some t" "j \<in> set (IndexesOnTable (db_catalog db1) n)" "I1 j = (I(idx := g (I idx))) j" "j \<in> set ixs"
          "P j (object_pages (idx_object_id j) (db_engine db1))" "\<And>db2. changed (idx_object_id j) db1 db2 \<Longrightarrow> holding db2 H (I1(j := g (I1 j))) \<Longrightarrow> R () db2" for db1 I1 j R
      proof (rule Cons.prems(7) [OF that(1-3)])
        show "I1 j = I j" "j \<in> set (idx # ixs)" using that(4,5) new by auto
      qed (fact that)+
    qed (use Cons.prems c2 in simp_all)
  qed (use Cons.prems(6) in simp_all)
  then show ?case using with_index_ends [OF Cons.prems(1,2) idx Cons.prems(5)] by simp
qed

section \<open>Outcomes with their states\<close>

definition outcome :: "(exn \<Rightarrow> 's \<Rightarrow> bool) \<Rightarrow> ('s, 'a) operation \<Rightarrow> 's \<Rightarrow> ('a \<Rightarrow> 's \<Rightarrow> bool) \<Rightarrow> bool" where
  "outcome E f s Q = (case f s of (Inl e, s') \<Rightarrow> E e s' | (Inr x, s') \<Rightarrow> Q x s')"

lemma outcome_return [simp]: "outcome E (return_op x) s Q = Q x s" "outcome E (Pair (Inr x)) s Q = Q x s"
  by (simp_all add: outcome_def)

lemma outcome_throw [simp]: "outcome E (throw_op e) s Q = E e s"
  by (simp add: outcome_def)

lemma outcome_get [simp]: "outcome E get_op s Q = Q s s"
  by (simp add: outcome_def get_op_def)

lemma outcome_bind [simp]: "outcome E (bind_op f g) s Q = outcome E f s (\<lambda>x s'. outcome E (g x) s' Q)"
  by (auto simp: outcome_def bind_op_def split: prod.splits sum.splits)

lemma outcome_lift [simp]: "outcome E (lift_sum r) s Q = (case r of Inl e \<Rightarrow> E e s | Inr x \<Rightarrow> Q x s)"
  by (auto simp: outcome_def lift_sum_def split: sum.splits)

lemma ends_outcome: "ends mf f s Q \<Longrightarrow> (\<And>e s'. mf e \<Longrightarrow> E e s') \<Longrightarrow> outcome E f s Q"
  by (auto simp: ends_def outcome_def split: prod.splits sum.splits)

lemma outcome_cong: "f s = g s \<Longrightarrow> outcome E f s Q = outcome E g s Q"
  by (simp add: outcome_def)

lemma outcome_weaken:
  "outcome E f s P \<Longrightarrow> (\<And>e s'. E e s' \<Longrightarrow> E' e s') \<Longrightarrow> (\<And>x s'. P x s' \<Longrightarrow> Q x s') \<Longrightarrow> outcome E' f s Q"
  by (auto simp: outcome_def split: prod.splits sum.splits)

lemma outcome_heap:
  assumes "stores db D" and "FindTable (db_catalog db) n = Some t"
  shows "outcome E (GetHeapFileForTable n) db (\<lambda>p s'. outcome E (deref p) s' Q) = Q (tab_heap_object_id t) db"
  using assms(2) stores_table(4) [OF assms] by (simp add: outcome_def GetHeapFileForTable_def GetHeapFile_def deref_def)

section \<open>Insertion\<close>

text \<open>The literals of a statement, as the parser builds them.\<close>

definition literal_ok :: "LiteralValue \<Rightarrow> bool" where
  "literal_ok v \<longleftrightarrow> v = int_literal (lit_int_value v) \<or> v = string_literal (lit_string_value v) \<and> length (lit_string_value v) < 2 ^ 32"

definition key_taken :: "catalog \<Rightarrow> TableInfo \<Rightarrow> row list \<Rightarrow> LiteralValue list \<Rightarrow> bool" where
  "key_taken c t rows vals \<longleftrightarrow>
     (\<exists>pk. PrimaryKeyIndex c (tab_name t) = Some pk \<and> (\<exists>r \<in> set rows. index_key t pk (snd r) = index_key t pk vals))"

lemma literal_fits:
  assumes "literal_ok v"
  shows "RequireLiteralMatchesColumn t col v = Inr () \<longleftrightarrow> value_fits col v"
proof -
  consider (int) k where "v = int_literal k" | (string) s where "v = string_literal s" "length s < 2 ^ 32"
    using assms unfolding literal_ok_def by metis
  then show ?thesis
  proof cases
    case int
    then show ?thesis by (cases "col_type col") (simp_all add: RequireLiteral_kind value_fits_def int_literal_def string_literal_def)
  next
    case string
    then show ?thesis by (cases "col_type col") (simp_all add: RequireLiteral_kind value_fits_def int_literal_def string_literal_def)
  qed
qed

lemma Validate_fits:
  assumes "\<forall>v \<in> set vals. literal_ok v"
  shows "ValidateValuesAgainstColumns t vals = Inr () \<and> row_fits (tab_columns t) vals \<or>
    (\<exists>m. ValidateValuesAgainstColumns t vals = Inl (Sql_semantic_error m)) \<and> \<not> row_fits (tab_columns t) vals"
proof (cases "length vals = length (tab_columns t)")
  case True
  have "check_values t cs vals = Inr () \<and> row_fits cs vals \<or> (\<exists>m. check_values t cs vals = Inl (Sql_semantic_error m)) \<and> \<not> row_fits cs vals"
    if "length vals = length cs" for cs using that assms
  proof (induction vals cs rule: list_induct2)
    case (Cons v vs c cs)
    have "RequireLiteralMatchesColumn t c v = Inr () \<or> RequireLiteralMatchesColumn t c v = Inl (Sql_semantic_error ''literal kind'')"
      by (simp add: RequireLiteralMatchesColumn_def)
    with Cons literal_fits [of v t c] show ?case by auto
  qed simp
  with True show ?thesis by (simp add: ValidateValuesAgainstColumns_def)
qed (auto simp: ValidateValuesAgainstColumns_def dest: list_all2_lengthD)

lemma PrimaryKeyIndex_on: "PrimaryKeyIndex c n = Some pk \<Longrightarrow> pk \<in> set (IndexesOnTable c n)"
  using find_SomeD [of "\<lambda>i. idx_table_name i = n \<and> idx_is_primary_key i" "cat_indexes c" pk] by (auto simp: PrimaryKeyIndex_def IndexesOnTable_def)

lemma key_check_ends:
  assumes st: "stores db D" and t: "FindTable (db_catalog db) n = Some t" and fits: "row_fits (tab_columns t) vals"
  shows "case CheckPrimaryKeyUniqueness tid (db_catalog db) t vals db of
      (Inl e, db') \<Rightarrow> page_failure e \<or> e = duplicate_key \<and> key_taken (db_catalog db) t (D n) vals \<and> silent db db'
    | (Inr _, db') \<Rightarrow> \<not> key_taken (db_catalog db) t (D n) vals \<and> silent db db'"
proof (cases "PrimaryKeyIndex (db_catalog db) (tab_name t)")
  case None
  then show ?thesis using silent_refl [OF st] by (simp add: CheckPrimaryKeyUniqueness_def key_taken_def)
next
  case (Some pk)
  let ?key = "index_key t pk vals"
  have c: "catalog_ok (db_catalog db)" using st by (simp add: stores_def)
  have pk: "pk \<in> set (IndexesOnTable (db_catalog db) n)" using PrimaryKeyIndex_on [OF Some] stores_table(2) [OF st t] by simp
  obtain i v where v: "ColumnIndex t (idx_column_name pk) = Inr i" "value_at vals i = Inr v" "lit_int_value v = ?key"
    using index_column_value [OF c t pk fits] .
  have o: "db_objects db (idx_object_id pk) = Some Index_object" using stores_table(6) [OF st t pk] by simp
  have "ends page_failure (engine_op (BPlusTree_Search (engine_ops tid (idx_object_id pk)) ?key)) db
      (\<lambda>rids db'. (rids = [] \<longleftrightarrow> \<not> key_taken (db_catalog db) t (D n) vals) \<and> silent db db')"
  proof (rule search_ends [OF st t pk])
    fix rids db' assume s: "silent db db'" and m: "mset rids = mset (map fst (filter (\<lambda>r. index_key t pk (snd r) = ?key) (D n)))"
    have "rids = [] \<longleftrightarrow> filter (\<lambda>r. index_key t pk (snd r) = ?key) (D n) = []" using m by (metis Nil_is_map_conv mset_zero_iff)
    then show "(rids = [] \<longleftrightarrow> \<not> key_taken (db_catalog db) t (D n) vals) \<and> silent db db'"
      using s Some by (auto simp: key_taken_def filter_empty_conv)
  qed
  then show ?thesis using Some v o
    by (auto simp: CheckPrimaryKeyUniqueness_def bind_op_def lift_sum_def GetIndex_def deref_def ends_def split: prod.splits sum.splits)
qed

definition page_room :: "nat \<Rightarrow> database \<Rightarrow> bool" where
  "page_room k db \<longleftrightarrow> (\<forall>oid. card (dom (object_pages oid (db_engine db))) + k < 2 ^ 32)"

text \<open>The new row in the heap file and then in every index.\<close>

lemma add_row_ends:
  assumes st: "stores db D" and t: "FindTable (db_catalog db) n = Some t" and fits: "row_fits (tab_columns t) vals"
    and len: "length (row_bytes t vals) \<le> kMaxRowSize" and room: "page_room 40 db"
    and few: "\<forall>idx \<in> set (IndexesOnTable (db_catalog db) n). length (filter (\<lambda>r. index_key t idx (snd r) = index_key t idx vals) (D n)) < kLeafMaxKeys"
    and Q: "\<And>rid db'. rid \<notin> fst ` set (D n) \<Longrightarrow> db_catalog db' = db_catalog db \<Longrightarrow> stores db' (D(n := D n @ [(rid, vals)])) \<Longrightarrow> Q rid db'"
  shows "ends page_failure (bind_op (engine_op (HeapFile_Insert tid (tab_heap_object_id t) (row_bytes t vals)))
    (\<lambda>rid. bind_op (InsertIntoAllIndexes tid (db_catalog db) t vals rid) (\<lambda>_. return_op rid))) db Q"
  unfolding ends_bind
proof (rule heap_insert_ends [OF _ t fits len])
  let ?c = "db_catalog db"
  show h: "holding db D (\<lambda>idx. D (idx_table_name idx))" using st by (simp add: stores_holding)
  show "card (dom (object_pages (tab_heap_object_id t) (db_engine db))) + 1 < 2 ^ 32"
    using spec [OF room [unfolded page_room_def], of "tab_heap_object_id t"] by simp
  have c: "catalog_ok ?c" using st by (simp add: stores_def)
  note tt = stores_table(1,2) [OF st t]
  fix rid db1 assume rid: "rid \<notin> fst ` set (D n)" and ch: "changed (tab_heap_object_id t) db db1"
    and h1: "holding db1 (D(n := D n @ [(rid, vals)])) (\<lambda>idx. D (idx_table_name idx))"
  note c1 = changed_catalog [OF ch]
  have other: "idx_object_id idx \<noteq> tab_heap_object_id t" if "idx \<in> set (IndexesOnTable ?c n)" for idx
    using that object_ids_inj(3) [OF c tt(1), of idx] by (auto simp: IndexesOnTable_def)
  have on: "idx_table_name idx = n" if "idx \<in> set (IndexesOnTable ?c n)" for idx using that by (simp add: IndexesOnTable_def)
  have d: "distinct (IndexesOnTable ?c n)" using c by (rule IndexesOnTable_distinct)
  show "ends page_failure (InsertIntoAllIndexes tid ?c t vals rid) db1 (\<lambda>_ s. ends page_failure (return_op rid) s Q)"
    unfolding index_loops tt(2)
  proof (rule index_loop_ends [OF h1 _ _ d fits, where g = "\<lambda>rows. rows @ [(rid, vals)]" and P = "\<lambda>_ m. card (dom m) + 40 < 2 ^ 32"])
    show "\<forall>idx \<in> set (IndexesOnTable ?c n). card (dom (object_pages (idx_object_id idx) (db_engine db1))) + 40 < 2 ^ 32"
      using room changed_pages [OF ch other] by (simp add: page_room_def)
    show "ends page_failure (engine_op (BPlusTree_Insert (engine_ops tid (idx_object_id idx)) (index_key t idx vals) rid)) db2 R"
      if "holding db2 (D(n := D n @ [(rid, vals)])) I1" "FindTable (db_catalog db2) n = Some t" "idx \<in> set (IndexesOnTable (db_catalog db2) n)"
        "I1 idx = D (idx_table_name idx)" "idx \<in> set (IndexesOnTable ?c n)" "card (dom (object_pages (idx_object_id idx) (db_engine db2))) + 40 < 2 ^ 32"
        "\<And>db3. changed (idx_object_id idx) db2 db3 \<Longrightarrow> holding db3 (D(n := D n @ [(rid, vals)])) (I1(idx := I1 idx @ [(rid, vals)])) \<Longrightarrow> R () db3" for db2 I1 idx R
      by (rule index_insert_ends [OF that(1-3)]) (use that few on in simp_all)
    fix db' assume c': "db_catalog db' = db_catalog db1"
      and h': "holding db' (D(n := D n @ [(rid, vals)])) (\<lambda>idx. if idx \<in> set (IndexesOnTable ?c n) then D (idx_table_name idx) @ [(rid, vals)] else D (idx_table_name idx))"
    have "stores db' (D(n := D n @ [(rid, vals)]))" unfolding stores_holding
      by (rule holding_cong [OF h']) (use c' c1 in \<open>auto simp: IndexesOnTable_def\<close>)
    then show "ends page_failure (return_op rid) db' Q" using Q rid c' c1 by simp
  qed (use t c1 in simp_all)
qed

section \<open>Deletion\<close>

text \<open>Of the candidate rows of an access path, those on which the residual predicates hold are the rows of the \<open>WHERE\<close> clause.\<close>

lemma matched_rows:
  assumes st: "stores db D" and plan: "PlanTableAccess (db_catalog db) n preds = Inr access" and t: "FindTable (db_catalog db) n = Some t"
    and rs: "mset rs = mset (filter (\<lambda>r. probe (db_catalog db) t access (snd r)) (D n))"
  defines "W \<equiv> \<lambda>vals. where_true [(t, vals)] preds"
  shows "r \<in> set rs \<Longrightarrow> r \<in> set (D n) \<and> row_fits (tab_columns t) (snd r) \<and> MatchesAll t (snd r) (tap_residual_predicates access) = Inr (W (snd r))"
    and "distinct (map fst rs)" and "mset (filter (W \<circ> snd) rs) = mset (filter (W \<circ> snd) (D n))"
    and "filter (\<lambda>r. fst r \<notin> fst ` set (filter (W \<circ> snd) rs)) (D n) = filter (\<lambda>r. \<not> W (snd r)) (D n)"
proof -
  let ?c = "db_catalog db"
  have hs: "heap_stores (db_engine db) t (D n)" by (rule stores_table(5) [OF st t])
  have fits: "row_fits (tab_columns t) (snd r)" if "r \<in> set (D n)" for r using hs that by (simp add: heap_stores_def)
  have mem: "r \<in> set (D n) \<and> probe ?c t access (snd r)" if "r \<in> set rs" for r using mset_eq_setD [OF rs] that by auto
  then show "r \<in> set rs \<Longrightarrow> r \<in> set (D n) \<and> row_fits (tab_columns t) (snd r) \<and> MatchesAll t (snd r) (tap_residual_predicates access) = Inr (W (snd r))"
    using fits plan_probe(1) [OF st plan t] by (auto simp: W_def)
  have "distinct (filter (\<lambda>r. probe ?c t access (snd r)) (D n))" and inj: "inj_on fst (set (D n))"
    using heap_stores_distinct [OF hs] by (auto simp: distinct_map)
  then show "distinct (map fst rs)"
    using mset_eq_imp_distinct_iff [OF rs] mem inj by (auto simp: distinct_map inj_on_def)
  have "filter_mset (W \<circ> snd) (mset rs) = filter_mset (W \<circ> snd) (mset (D n))"
    unfolding rs mset_filter filter_filter_mset using plan_probe(2) [OF st plan t fits] by (intro filter_mset_cong) (auto simp: W_def)
  then show m: "mset (filter (W \<circ> snd) rs) = mset (filter (W \<circ> snd) (D n))" by (simp only: mset_filter)
  show "filter (\<lambda>r. fst r \<notin> fst ` set (filter (W \<circ> snd) rs)) (D n) = filter (\<lambda>r. \<not> W (snd r)) (D n)"
    using inj unfolding mset_eq_setD [OF m] by (intro filter_cong) (auto dest: inj_onD)
qed


lemma remove_row_ends:
  assumes st: "stores db D" and t: "FindTable (db_catalog db) n = Some t" and row: "(rid, vals) \<in> set (D n)"
    and Q: "\<And>db'. db_catalog db' = db_catalog db \<Longrightarrow> stores db' (D(n := filter (\<lambda>r. fst r \<noteq> rid) (D n))) \<Longrightarrow> Q () db'"
  shows "ends page_failure (bind_op (DeleteFromAllIndexes tid (db_catalog db) t vals rid)
    (\<lambda>_. discard_op (engine_op (HeapFile_Delete tid (tab_heap_object_id t) rid)))) db Q"
proof -
  let ?c = "db_catalog db" and ?g = "\<lambda>rows :: row list. filter (\<lambda>r. fst r \<noteq> rid) rows"
  have h: "holding db D (\<lambda>idx. D (idx_table_name idx))" using st by (simp add: stores_holding)
  have c: "catalog_ok ?c" using st by (simp add: stores_def)
  note tn = stores_table(2) [OF st t] and hs = stores_table(5) [OF st t]
  have fits: "row_fits (tab_columns t) vals" using hs row by (auto simp: heap_stores_def)
  have on: "idx_table_name idx = n" if "idx \<in> set (IndexesOnTable ?c n)" for idx using that by (simp add: IndexesOnTable_def)
  show ?thesis unfolding ends_bind unfolding index_loops tn
  proof (rule index_loop_ends [OF h t _ IndexesOnTable_distinct [OF c] fits, where g = ?g and P = "\<lambda>_ _. True"])
    show "ends page_failure (discard_op (engine_op (BPlusTree_Delete (engine_ops tid (idx_object_id idx)) (index_key t idx vals) rid))) db2 R"
      if "holding db2 D I1" "FindTable (db_catalog db2) n = Some t" "idx \<in> set (IndexesOnTable (db_catalog db2) n)"
        "I1 idx = D (idx_table_name idx)" "idx \<in> set (IndexesOnTable ?c n)"
        "\<And>db3. changed (idx_object_id idx) db2 db3 \<Longrightarrow> holding db3 D (I1(idx := ?g (I1 idx))) \<Longrightarrow> R () db3" for db2 I1 idx R
      unfolding ends_discard
      by (rule index_delete_ends [OF that(1-3)]) (use that on row heap_stores_distinct [OF hs] in simp_all)
    fix db1 assume c1: "db_catalog db1 = ?c" and h1: "holding db1 D (\<lambda>idx. if idx \<in> set (IndexesOnTable ?c n) then ?g (D (idx_table_name idx)) else D (idx_table_name idx))"
    have t1: "FindTable (db_catalog db1) n = Some t" using t c1 by simp
    show "ends page_failure (discard_op (engine_op (HeapFile_Delete tid (tab_heap_object_id t) rid))) db1 Q"
      unfolding ends_discard
    proof (rule heap_delete_ends [OF h1 t1])
      fix db2 assume ch: "changed (tab_heap_object_id t) db1 db2"
        and h2: "holding db2 (D(n := ?g (D n))) (\<lambda>idx. if idx \<in> set (IndexesOnTable ?c n) then ?g (D (idx_table_name idx)) else D (idx_table_name idx))"
      have "stores db2 (D(n := ?g (D n)))" unfolding stores_holding
        by (rule holding_cong [OF h2]) (use c1 changed_catalog [OF ch] in \<open>auto simp: IndexesOnTable_def\<close>)
      then show "Q () db2" using Q c1 changed_catalog [OF ch] by simp
    qed
  qed simp_all
qed

lemma delete_rows_ends:
  assumes "stores db D" and "FindTable (db_catalog db) n = Some t" and "set rs \<subseteq> set (D n)" and "distinct (map fst rs)"
    and "\<forall>r \<in> set rs. MatchesAll t (snd r) residual = Inr (W (snd r))"
    and "\<And>db'. db_catalog db' = db_catalog db \<Longrightarrow> stores db' (D(n := filter (\<lambda>r. fst r \<notin> fst ` set (filter (W \<circ> snd) rs)) (D n))) \<Longrightarrow>
      Q (k + length (filter (W \<circ> snd) rs)) db'"
  shows "ends page_failure (delete_rows tid (db_catalog db) t residual (tab_heap_object_id t) k (map (stored_row t) rs)) db Q"
  using assms
proof (induction rs arbitrary: db D k)
  case Nil
  then show ?case by simp
next
  case (Cons r rs)
  let ?c = "db_catalog db"
  have fits: "row_fits (tab_columns t) (snd r)" using stores_table(5) [OF Cons.prems(1,2)] Cons.prems(3) by (auto simp: heap_stores_def)
  have r: "DecodeRow (tab_columns t) (row_bytes t (snd r)) = Inr (snd r)" "MatchesAll t (snd r) residual = Inr (W (snd r))"
    using DecodeRow_stored [OF fits] Cons.prems(5) by simp_all
  show ?case
  proof (cases "W (snd r)")
    case False
    have "ends page_failure (delete_rows tid ?c t residual (tab_heap_object_id t) k (map (stored_row t) rs)) db Q"
      by (rule Cons.IH [OF Cons.prems(1,2)]) (use Cons.prems False in auto)
    with False r show ?thesis by simp
  next
    case True
    have "ends page_failure (bind_op (DeleteFromAllIndexes tid ?c t (snd r) (fst r))
        (\<lambda>_. discard_op (engine_op (HeapFile_Delete tid (tab_heap_object_id t) (fst r))))) db
        (\<lambda>_ s'. ends page_failure (delete_rows tid ?c t residual (tab_heap_object_id t) (k + 1) (map (stored_row t) rs)) s' Q)"
    proof (rule remove_row_ends [OF Cons.prems(1,2)])
      show "(fst r, snd r) \<in> set (D n)" using Cons.prems(3) by simp
      fix db1 assume c1: "db_catalog db1 = ?c" and st1: "stores db1 (D(n := filter (\<lambda>x. fst x \<noteq> fst r) (D n)))"
      have "ends page_failure (delete_rows tid (db_catalog db1) t residual (tab_heap_object_id t) (k + 1) (map (stored_row t) rs)) db1 Q"
      proof (rule Cons.IH [OF st1])
        show "set rs \<subseteq> set ((D(n := filter (\<lambda>x. fst x \<noteq> fst r) (D n))) n)"
        proof
          fix x assume x: "x \<in> set rs"
          have "fst r \<notin> fst ` set rs" using Cons.prems(4) by simp
          then have "fst x \<noteq> fst r" using imageI [OF x, of fst] by metis
          then show "x \<in> set ((D(n := filter (\<lambda>x. fst x \<noteq> fst r) (D n))) n)" using x Cons.prems(3) by auto
        qed
        show "Q (k + 1 + length (filter (W \<circ> snd) rs)) db'"
          if "db_catalog db' = db_catalog db1" "stores db' ((D(n := filter (\<lambda>x. fst x \<noteq> fst r) (D n)))
            (n := filter (\<lambda>x. fst x \<notin> fst ` set (filter (W \<circ> snd) rs)) ((D(n := filter (\<lambda>x. fst x \<noteq> fst r) (D n))) n)))" for db'
        proof -
          have "filter (\<lambda>x. fst x \<notin> fst ` set (filter (W \<circ> snd) rs)) (filter (\<lambda>x. fst x \<noteq> fst r) (D n)) =
              filter (\<lambda>x. fst x \<notin> fst ` set (filter (W \<circ> snd) (r # rs))) (D n)"
            unfolding filter_filter using True by (intro filter_cong) auto
          then show ?thesis using Cons.prems(6) [of db'] that c1 True by (simp only: fun_upd_same fun_upd_upd) (simp add: comp_def)
        qed
      qed (use Cons.prems c1 in auto)
      then show "ends page_failure (delete_rows tid ?c t residual (tab_heap_object_id t) (k + 1) (map (stored_row t) rs)) db1 Q" by (simp add: c1)
    qed
    with True r show ?thesis by (simp add: stored_row_def [of t r])
  qed
qed

end
