(* ===== verification/Sql_Correctness.thy ===== *)
theory Sql_Correctness
  imports Modification
begin

text \<open>
  The statements of SQL against the contents of the database: \<open>SELECT\<close> answers exactly what its text means,
  \<open>INSERT\<close> adds one row and \<open>DELETE\<close> removes the rows of its \<open>WHERE\<close> clause, with every index of the table kept in step and
  every other table alone.
\<close>

section \<open>A small database\<close>

text \<open>One table \<open>t (id INTEGER PRIMARY KEY)\<close> with the row 5: object 0 is its heap file, object 1 its index.\<close>

definition small_table :: TableInfo where
  "small_table = new_table empty_catalog ''t'' [\<lparr>col_name = ''id'', col_type = ColumnType.kInteger\<rparr>] (Some ''id'')"

definition small_rid :: RID where
  "small_rid = \<lparr>rid_page_id = 0, rid_slot_id = 0\<rparr>"

definition small_rows :: "string \<Rightarrow> row list" where
  "small_rows n = (if n = ''t'' then [(small_rid, [int_literal 5])] else [])"

definition small_page :: page where
  "small_page = snd (InsertRecord (InitHeapPage 0) (row_bytes small_table [int_literal 5]))"

definition small_heap :: pool where
  "small_heap = \<lparr>bp_pages = [0 \<mapsto> small_page], bp_dirty = {0}, bp_observers = Map.empty,
     bp_disk = \<lparr>disk_file = blank_page, next_page_id = 1, disk_capacity = 1000000\<rparr>\<rparr>"

definition small_index :: pool where
  "small_index = \<lparr>bp_pages = [0 \<mapsto> SerializeHeader 1, 1 \<mapsto> SerializeLeaf (leaf_record 1 INVALID_PAGE_ID [(5, small_rid)])], bp_dirty = {0, 1},
     bp_observers = Map.empty, bp_disk = \<lparr>disk_file = blank_page @ blank_page, next_page_id = 2, disk_capacity = 1000000\<rparr>\<rparr>"

definition small_engine :: engine where
  "small_engine = (one_txn_engine 10000)\<lparr>en_pools := [0 \<mapsto> small_heap, 1 \<mapsto> small_index], en_current := Map.empty, en_heaps := [0 \<mapsto> [0]]\<rparr>"

definition small_db :: database where
  "small_db = \<lparr>db_catalog = one_table, db_engine = small_engine, db_objects = [0 \<mapsto> Heap_object, 1 \<mapsto> Index_object],
     db_files = \<lambda>_. [], db_capacity = 1000000\<rparr>"

lemma small_catalog:
  "cat_tables one_table = [small_table]" "FindTable one_table ''t'' = Some small_table" "tab_name small_table = ''t''"
  "tab_columns small_table = [\<lparr>col_name = ''id'', col_type = ColumnType.kInteger\<rparr>]" "tab_heap_object_id small_table = 0"
  using one_table_t by (simp_all add: one_table_def with_table_def empty_catalog_def small_table_def new_table_def)

lemma small_contents: "small_rows ''t'' = [(small_rid, [int_literal 5])]" "db_catalog small_db = one_table"
  by (simp_all add: small_rows_def small_db_def)

lemma small_index_info: "\<exists>idx. IndexesOnTable one_table ''t'' = [idx] \<and> idx_object_id idx = 1 \<and> idx_column_name idx = ''id'' \<and> PrimaryKeyIndex one_table ''t'' = Some idx"
  by (simp add: IndexesOnTable_def PrimaryKeyIndex_def one_table_def with_table_def empty_catalog_def new_pk_index_def)

lemma small_row: "length (row_bytes small_table [int_literal k]) = 8" "row_fits (tab_columns small_table) [int_literal k]"
  by (simp_all add: row_bytes_def value_bytes_def encode_value_def AppendInt64_def small_catalog value_fits_def)

lemma small_insert: "InsertRecord (InitHeapPage 0) (row_bytes small_table [int_literal 5]) = (Some 0, small_page)"
  by (simp add: small_page_def InsertRecord_eq InitHeapPage_ok FreeSpace_def InitHeapPage_fields small_row)

lemma small_page_ok: "page_ok small_page"
  using heap_page.ins_ok [OF _ small_insert] InitHeapPage_ok by (simp add: page_ok_def)

lemma small_pools: "pools_ok small_engine"
proof -
  have "length [(5 :: int64, small_rid)] \<le> kLeafMaxKeys" by (simp add: capacities)
  note lp = leaf_page(1) [OF this]
  have "pool_ok small_heap" "pool_ok small_index"
    by (auto simp: small_heap_def small_index_def pool_ok_def pool_wf_def disk_ok_def pool_has_def disk_has_def length_blank_page
      page_ok_length [OF small_page_ok] Deserialize_SerializeHeader(2) lp [of 1 INVALID_PAGE_ID, simplified])
  then show ?thesis by (simp add: pools_ok_def small_engine_def)
qed

lemma small_heap_stores: "heap_stores small_engine small_table (small_rows ''t'')"
proof -
  have ids: "heap_page_ids 0 small_engine = [0]" by (simp add: heap_page_ids_def small_engine_def)
  have pg: "en_has small_engine (PageKey 0 0)" "en_page small_engine (PageKey 0 0) = small_page" "en_pools small_engine 0 \<noteq> None"
    by (simp_all add: small_engine_def small_heap_def en_has_def en_page_def pool_has_def disk_has_def pool_page_def)
  have "page_rows 0 (InitHeapPage 0) = []" by (simp add: page_rows_live InitHeapPage_slots)
  then have "page_rows 0 small_page = [(small_rid, row_bytes small_table [int_literal 5])]"
    using page_rows_insert [OF _ small_insert, of 0] InitHeapPage_ok by (simp add: page_ok_def small_rid_def)
  then show ?thesis
    using small_pools pg small_page_ok small_row(2)
    by (simp add: heap_stores_def heap_ok_def heap_rows_def ids small_catalog(5) small_rows_def stored_row_def)
qed

lemma small_index_at: "index_at small_engine 1 [(5, small_rid)]"
proof -
  have pg: "object_pages 1 small_engine 0 = Some (SerializeHeader 1)"
    "object_pages 1 small_engine 1 = Some (SerializeLeaf (leaf_record 1 INVALID_PAGE_ID [(5, small_rid)]))" "en_pools small_engine 1 \<noteq> None"
    by (simp_all add: small_engine_def small_index_def object_pages_def en_has_def en_page_def pool_has_def disk_has_def pool_page_def)
  have cap: "length [(5 :: int64, small_rid)] \<le> kLeafMaxKeys" by (simp add: capacities)
  have "stored (object_pages 1 small_engine) (Lf 1 INVALID_PAGE_ID [(5, small_rid)])"
    by (rule leaf_page(2) [OF cap]) (simp add: pg)
  then have "tree_at (object_pages 1 small_engine) 0 (Lf 1 INVALID_PAGE_ID [(5, small_rid)])"
    using cap by (auto simp: tree_at_def bt_inv_def kRootHeaderPageId_def INVALID_PAGE_ID_def simp del: stored.simps)
  then have "btree_at (object_pages 1 small_engine) (bt_entries (Lf 1 INVALID_PAGE_ID [(5, small_rid)]))"
    by (rule btree_at_tree) (use pg(1) Deserialize_SerializeHeader(1) [of 1] in \<open>simp_all add: kRootHeaderPageId_def\<close>)
  then show ?thesis using small_pools pg(3) by (simp add: index_at_def)
qed

lemma small_stores: "stores small_db small_rows"
proof -
  obtain idx where idx: "IndexesOnTable one_table ''t'' = [idx]" "idx_object_id idx = 1" "idx_column_name idx = ''id''" using small_index_info by blast
  have "index_entry small_table idx (small_rid, [int_literal 5]) = (5, small_rid)"
    by (simp add: index_entry_def index_key_def idx cell_def small_catalog)
  then have "index_stores small_engine small_table (small_rows ''t'') idx"
    using small_index_at idx(2) by (auto simp: index_stores_def small_rows_def intro!: exI [of _ "[(5, small_rid)]"])
  then show ?thesis using one_table_ok small_pools small_heap_stores idx
    by (simp add: stores_def small_db_def small_catalog)
qed

lemma small_room: "page_room 40 small_db"
proof -
  have le: "card (dom (object_pages oid small_engine)) \<le> 2" for oid
  proof -
    consider "oid = 0" | "oid = 1" | "en_pools small_engine oid = None" by (cases "oid = 0"; cases "oid = 1") (auto simp: small_engine_def)
    then show ?thesis
    proof cases
      case 1
      then show ?thesis using card_object_pages [of small_engine 0 small_heap] by (simp add: small_engine_def small_heap_def)
    next
      case 2
      then show ?thesis using card_object_pages [of small_engine 1 small_index] by (simp add: small_engine_def small_index_def)
    next
      case 3
      then have "object_pages oid small_engine = Map.empty" by (auto simp: object_pages_def en_has_def)
      then show ?thesis by simp
    qed
  qed
  have "card (dom (object_pages oid (db_engine small_db))) + 40 < 2 ^ 32" for oid using le [of oid] by (simp add: small_db_def)
  then show ?thesis by (simp add: page_room_def)
qed

section \<open>SELECT\<close>

text \<open>
  C5. A \<open>SELECT\<close> that passes the planner returns exactly the rows its text means: the selected columns of every
  combination of rows of its tables on which \<open>ON\<close> and \<open>WHERE\<close> hold, each as often as it occurs, under the right
  column names, whether the planner scans a table or probes an index, for one table and for a join. It changes
  nothing, and can fail only in the page layer: by a lost lock request or a full disk.
\<close>

theorem ExecuteSelect_correct:
  assumes "stores db D" and "PlanSelect (db_catalog db) stmt = Inr plan"
  shows "case ExecuteSelect tid stmt db of
      (Inl e, _) \<Rightarrow> page_failure e
    | (Inr res, db') \<Rightarrow> stores db' D \<and>
        image_mset (map sql_value_of) (mset (res_rows res)) =
          mset (map (output_values stmt) (filter (query_true stmt) (from_rows (db_catalog db) D stmt))) \<and>
        res_column_names res = query_names (db_catalog db) stmt"
  using ExecuteSelect_ends [OF assms, of tid] stores_silent [OF assms(1)]
  by (auto simp: ends_def query_result_def split: prod.splits sum.splits)

definition small_query :: SelectStatement where
  "small_query = \<lparr>sel_star = True, sel_list = [], sel_from_table = ''t'', sel_join = None, sel_where = [id_is 5]\<rparr>"

theorem ExecuteSelect_correct_witness:
  "case ExecuteSelect 0 small_query small_db of
     (Inl e, _) \<Rightarrow> page_failure e
   | (Inr res, _) \<Rightarrow> image_mset (map sql_value_of) (mset (res_rows res)) = {#[Int_value 5]#} \<and> res_column_names res = [''id'']"
proof -
  obtain plan where plan: "PlanSelect (db_catalog small_db) small_query = Inr plan"
  proof -
    have "\<not> isl (PlanSelect one_table small_query)" by code_simp
    with that show thesis by (cases "PlanSelect one_table small_query") (auto simp: small_db_def)
  qed
  have f: "from_rows one_table small_rows small_query = [[(small_table, [int_literal 5])]]"
    by (simp add: from_rows_def small_query_def small_catalog small_rows_def)
  have "query_true small_query [(small_table, [int_literal 5])]"
    by (simp add: query_true_def small_query_def where_true_def predicate_true_def ref_value_def table_values_def id_is_def small_catalog sql_value_of_def)
  then have "mset (map (output_values small_query) (filter (query_true small_query) (from_rows one_table small_rows small_query))) = {#[Int_value 5]#}"
    unfolding f by (simp add: output_values_def small_query_def sql_value_of_def)
  moreover have "query_names one_table small_query = [''id'']" by (simp add: query_names_def small_query_def small_catalog)
  ultimately show ?thesis using ExecuteSelect_correct [OF small_stores plan, of 0]
    by (auto simp: small_contents split: prod.splits sum.splits)
qed

section \<open>INSERT\<close>

lemma heap_of_table:
  assumes "stores db D" and "FindTable (db_catalog db) n = Some t"
  shows "bind_op (GetHeapFileForTable n) deref db = (Inr (tab_heap_object_id t), db)"
  using assms(2) stores_table(4) [OF assms] by (simp add: GetHeapFileForTable_def GetHeapFile_def deref_def bind_op_def)

lemma silent_room: "silent db db' \<Longrightarrow> page_room k db \<Longrightarrow> page_room k db'"
  by (auto simp: silent_def quiet_def page_room_def)

lemma insert_outcome:
  assumes st: "stores db D" and t: "FindTable (db_catalog db) (ins_table_name stmt) = Some t"
    and lits: "\<forall>v \<in> set (ins_values stmt). literal_ok v" and room: "page_room 40 db"
    and few: "\<forall>idx \<in> set (IndexesOnTable (db_catalog db) (ins_table_name stmt)).
      length (filter (\<lambda>r. index_key t idx (snd r) = index_key t idx (ins_values stmt)) (D (ins_table_name stmt))) < kLeafMaxKeys"
  defines "n \<equiv> ins_table_name stmt" and "vals \<equiv> ins_values stmt"
  shows "outcome (\<lambda>e db'. page_failure e \<or>
        stores db' D \<and>
        (if \<not> row_fits (tab_columns t) vals then \<exists>m. e = Sql_semantic_error m
         else if key_taken (db_catalog db) t (D n) vals then e = duplicate_key
         else length (row_bytes t vals) > kMaxRowSize \<and> e = Invalid_argument ''HeapFile::Insert''))
      (ExecuteInsert tid stmt) db
      (\<lambda>res db'. row_fits (tab_columns t) vals \<and> \<not> key_taken (db_catalog db) t (D n) vals \<and> res_rows_affected res = 1 \<and>
        (\<exists>rid. rid \<notin> fst ` set (D n) \<and> stores db' (D(n := D n @ [(rid, vals)]))))"
proof (cases "row_fits (tab_columns t) vals")
  case False
  then obtain m where "ValidateValuesAgainstColumns t vals = Inl (Sql_semantic_error m)"
    using Validate_fits [OF lits] by (auto simp: vals_def)
  then have "ExecuteInsert tid stmt db = (Inl (Sql_semantic_error m), db)"
    using t by (simp add: ExecuteInsert_def bind_op_def get_op_def lift_sum_def vals_def)
  with False st show ?thesis by (simp add: outcome_def)
next
  case fits: True
  then have valid: "ValidateValuesAgainstColumns t vals = Inr ()" using Validate_fits [OF lits] by (auto simp: vals_def)
  let ?c = "db_catalog db"
  let ?store = "bind_op (engine_op (HeapFile_Insert tid (tab_heap_object_id t) (row_bytes t vals))) (\<lambda>rid.
    bind_op (InsertIntoAllIndexes tid ?c t vals rid) (\<lambda>_. return_op (no_result\<lparr>res_rows_affected := 1\<rparr>)))"
  obtain x db1 where chk: "CheckPrimaryKeyUniqueness tid ?c t vals db = (x, db1)" by (cases "CheckPrimaryKeyUniqueness tid ?c t vals db")
  note key = key_check_ends [OF st t fits, of tid, unfolded chk prod.case, folded n_def]
  show ?thesis
  proof (cases x)
    case (Inl e)
    then have "ExecuteInsert tid stmt db = (Inl e, db1)"
      using t valid chk by (simp add: ExecuteInsert_def bind_op_def get_op_def lift_sum_def vals_def)
    with Inl key fits stores_silent [OF st] show ?thesis by (auto simp: outcome_def)
  next
    case (Inr u)
    then have s: "silent db db1" and free: "\<not> key_taken ?c t (D n) vals" using key by simp_all
    note st1 = stores_silent [OF st s] and c1 = silent_catalog [OF s]
    have t1: "FindTable (db_catalog db1) n = Some t" using t c1 by (simp add: n_def)
    have run: "ExecuteInsert tid stmt db = ?store db1"
      using t valid chk Inr heap_of_table [OF st1 t1] list_all2_lengthD [OF fits]
      by (simp add: ExecuteInsert_def bind_op_def get_op_def lift_sum_def EncodeRow_stored vals_def [symmetric] n_def [symmetric])
    show ?thesis
    proof (cases "length (row_bytes t vals) > kMaxRowSize")
      case True
      then have "?store db1 = (Inl (Invalid_argument ''HeapFile::Insert''), db1)" by (simp add: bind_op_def engine_op_def HeapFile_Insert_def)
      with run True fits free st1 show ?thesis by (simp add: outcome_def)
    next
      case False
      have "ends page_failure ?store db1 (\<lambda>res db'. res_rows_affected res = 1 \<and> (\<exists>rid. rid \<notin> fst ` set (D n) \<and> stores db' (D(n := D n @ [(rid, vals)]))))"
        using add_row_ends [OF st1 t1 fits _ silent_room [OF s room], of
            "\<lambda>rid db'. rid \<notin> fst ` set (D n) \<and> stores db' (D(n := D n @ [(rid, vals)]))" tid] False few c1
        by (auto simp: n_def vals_def elim!: ends_mono)
      with run fits free show ?thesis by (auto simp: ends_def outcome_def split: prod.splits sum.splits)
    qed
  qed
qed

text \<open>
  C6. An \<open>INSERT\<close> into a table appends exactly its row to the contents, under a fresh row id, and enters it into every
  index of the table, or it leaves the contents as they were: it is refused exactly when the values do not fit
  the columns, the primary key is taken or the row is larger than a page, and can otherwise fail only in the
  page layer.
\<close>

theorem ExecuteInsert_refines:
  assumes st: "stores db D" and t: "FindTable (db_catalog db) (ins_table_name stmt) = Some t"
    and lits: "\<forall>v \<in> set (ins_values stmt). literal_ok v" and room: "page_room 40 db"
    and few: "\<forall>idx \<in> set (IndexesOnTable (db_catalog db) (ins_table_name stmt)).
      length (filter (\<lambda>r. index_key t idx (snd r) = index_key t idx (ins_values stmt)) (D (ins_table_name stmt))) < kLeafMaxKeys"
  defines "n \<equiv> ins_table_name stmt" and "vals \<equiv> ins_values stmt"
  shows "case ExecuteInsert tid stmt db of
      (Inl e, db') \<Rightarrow> page_failure e \<or>
        stores db' D \<and>
        (if \<not> row_fits (tab_columns t) vals then \<exists>m. e = Sql_semantic_error m
         else if key_taken (db_catalog db) t (D n) vals then e = duplicate_key
         else length (row_bytes t vals) > kMaxRowSize \<and> e = Invalid_argument ''HeapFile::Insert'')
    | (Inr res, db') \<Rightarrow>
        row_fits (tab_columns t) vals \<and> \<not> key_taken (db_catalog db) t (D n) vals \<and> res_rows_affected res = 1 \<and>
        (\<exists>rid. rid \<notin> fst ` set (D n) \<and> stores db' (D(n := D n @ [(rid, vals)])))"
  using insert_outcome [OF st t lits room few, of tid] unfolding outcome_def n_def vals_def .

definition small_insertion :: "int64 \<Rightarrow> InsertStatement" where
  "small_insertion k = \<lparr>ins_table_name = ''t'', ins_values = [int_literal k]\<rparr>"

lemma small_taken: "key_taken one_table small_table (small_rows ''t'') [int_literal k] \<longleftrightarrow> k = 5"
proof -
  obtain idx where "PrimaryKeyIndex one_table ''t'' = Some idx" "idx_column_name idx = ''id''" using small_index_info by blast
  then show ?thesis by (auto simp: key_taken_def small_catalog small_rows_def index_key_def cell_def)
qed

theorem ExecuteInsert_refines_witness:
  "(case ExecuteInsert 0 (small_insertion 6) small_db of
      (Inl e, _) \<Rightarrow> page_failure e
    | (Inr res, db') \<Rightarrow> res_rows_affected res = 1 \<and> (\<exists>rid. stores db' (small_rows(''t'' := [(small_rid, [int_literal 5]), (rid, [int_literal 6])])))) \<and>
   (case ExecuteInsert 0 (small_insertion 5) small_db of
      (Inl e, db') \<Rightarrow> page_failure e \<or> e = duplicate_key \<and> stores db' small_rows
    | (Inr res, _) \<Rightarrow> False)"
proof -
  have "length (filter P (small_rows n)) < kLeafMaxKeys" for P n by (simp add: small_rows_def capacities)
  then have few: "\<forall>idx \<in> set (IndexesOnTable (db_catalog small_db) (ins_table_name (small_insertion k))).
      length (filter (\<lambda>r. index_key small_table idx (snd r) = index_key small_table idx (ins_values (small_insertion k)))
        (small_rows (ins_table_name (small_insertion k)))) < kLeafMaxKeys" for k by blast
  have t: "FindTable (db_catalog small_db) (ins_table_name (small_insertion k)) = Some small_table"
    and l: "\<forall>v \<in> set (ins_values (small_insertion k)). literal_ok v" for k
    by (simp_all add: small_db_def small_insertion_def small_catalog literal_ok_def)
  note ins = ExecuteInsert_refines [OF small_stores t l small_room few, of _ 0]
  show ?thesis
    using ins [of 6] ins [of 5] small_taken [of 6] small_taken [of 5] small_row
    by (auto simp: small_contents small_insertion_def split: prod.splits sum.splits if_splits)
qed

section \<open>DELETE\<close>

lemma delete_ends:
  assumes st: "stores db D" and plan: "PlanTableAccess (db_catalog db) (del_table_name stmt) (del_where stmt) = Inr access"
    and t: "FindTable (db_catalog db) (del_table_name stmt) = Some t"
  defines "n \<equiv> del_table_name stmt" and "W \<equiv> \<lambda>r. where_true [(t, snd r)] (del_where stmt)"
  shows "ends page_failure (ExecuteDelete tid stmt) db
      (\<lambda>res db'. res_rows_affected res = length (filter W (D n)) \<and> stores db' (D(n := filter (\<lambda>r. \<not> W r) (D n))))"
proof -
  let ?c = "db_catalog db" and ?W = "\<lambda>vals. where_true [(t, vals)] (del_where stmt)"
  have W: "?W \<circ> snd = W" by (auto simp: W_def)
  have "ends page_failure (FetchCandidateRows tid access) db (\<lambda>rows s'. ends page_failure
      (delete_rows tid ?c t (tap_residual_predicates access) (tab_heap_object_id t) 0 rows) s'
      (\<lambda>k db'. k = length (filter W (D n)) \<and> stores db' (D(n := filter (\<lambda>r. \<not> W r) (D n)))))"
  proof (rule FetchCandidateRows_ends [OF st plan t])
    fix rs db1 assume s: "silent db db1" and rs: "mset rs = mset (filter (\<lambda>r. probe ?c t access (snd r)) (D (del_table_name stmt)))"
    note c1 = silent_catalog [OF s] and m = matched_rows [OF st plan t rs, folded n_def]
    have gone: "filter (\<lambda>r. fst r \<notin> fst ` set (filter (?W \<circ> snd) rs)) (D n) = filter (\<lambda>r. \<not> W r) (D n)" using m(4) by (simp add: W_def)
    have t1: "FindTable (db_catalog db1) n = Some t" using t c1 by (simp add: n_def)
    show "ends page_failure (delete_rows tid ?c t (tap_residual_predicates access) (tab_heap_object_id t) 0 (map (stored_row t) rs)) db1
        (\<lambda>k db'. k = length (filter W (D n)) \<and> stores db' (D(n := filter (\<lambda>r. \<not> W r) (D n))))"
      by (rule delete_rows_ends [OF stores_silent [OF st s] t1 _ m(2), unfolded c1, where W = ?W])
        (use m(1) gone mset_eq_length [OF m(3)] in \<open>auto simp: W\<close>)
  qed
  then show ?thesis
    using plan t by (simp add: ExecuteDelete_def GetHeapFileForTable_ends [OF st t, unfolded ends_bind])
qed

text \<open>
  C7. A \<open>DELETE\<close> that passes the planner removes exactly the rows on which its \<open>WHERE\<close> clause holds, from the heap file and from
  every index, and reports their number; the other rows keep their place and their row ids. It can fail only
  in the page layer.
\<close>

theorem ExecuteDelete_refines:
  assumes st: "stores db D" and plan: "PlanTableAccess (db_catalog db) (del_table_name stmt) (del_where stmt) = Inr access"
    and t: "FindTable (db_catalog db) (del_table_name stmt) = Some t"
  defines "n \<equiv> del_table_name stmt" and "W \<equiv> \<lambda>r. where_true [(t, snd r)] (del_where stmt)"
  shows "case ExecuteDelete tid stmt db of
      (Inl e, _) \<Rightarrow> page_failure e
    | (Inr res, db') \<Rightarrow> res_rows_affected res = length (filter W (D n)) \<and> stores db' (D(n := filter (\<lambda>r. \<not> W r) (D n)))"
  using delete_ends [OF st plan t, of tid] by (auto simp: ends_def n_def W_def split: prod.splits sum.splits)

theorem ExecuteDelete_refines_witness:
  "case ExecuteDelete 0 \<lparr>del_table_name = ''t'', del_where = [id_is 5]\<rparr> small_db of
     (Inl e, _) \<Rightarrow> page_failure e
   | (Inr res, db') \<Rightarrow> res_rows_affected res = 1 \<and> stores db' (small_rows(''t'' := []))"
proof -
  let ?stmt = "\<lparr>del_table_name = ''t'', del_where = [id_is 5]\<rparr>"
  obtain access where plan: "PlanTableAccess (db_catalog small_db) (del_table_name ?stmt) (del_where ?stmt) = Inr access"
  proof -
    have "\<not> isl (PlanTableAccess one_table ''t'' [id_is 5])" by code_simp
    with that show thesis by (cases "PlanTableAccess one_table ''t'' [id_is 5]") (auto simp: small_db_def)
  qed
  have t: "FindTable (db_catalog small_db) (del_table_name ?stmt) = Some small_table" by (simp add: small_db_def small_catalog)
  have "where_true [(small_table, [int_literal 5])] [id_is 5]"
    by (simp add: where_true_def predicate_true_def ref_value_def table_values_def id_is_def small_catalog sql_value_of_def)
  then show ?thesis using ExecuteDelete_refines [OF small_stores plan t, of 0]
    by (auto simp: small_contents split: prod.splits sum.splits)
qed

end
