(* ===== verification/Client.thy ===== *)
theory Client
  imports Session Parser Sql_Correctness
begin

text \<open>
  The command line client of \<open>src/tools/flintdb_cli.cpp\<close>: it reads statements, each framed by its length in bytes,
  executes them one after the other and answers each with one line of JSON. The standard input is the list of
  its characters. The text of an exception, \<open>e.what()\<close>, is the argument \<open>what\<close>.
\<close>

section \<open>JSON\<close>

abbreviation (input) quote_char :: char where
  "quote_char \<equiv> CHR 0x22"

abbreviation (input) backslash :: char where
  "backslash \<equiv> CHR 0x5C"

definition hex_digit :: "nat \<Rightarrow> char" where
  "hex_digit d = (if d < 10 then char_of (48 + d) else char_of (87 + d))"

definition json_char :: "char \<Rightarrow> string" where
  "json_char c =
     (if c = quote_char then [backslash, quote_char]
      else if c = backslash then [backslash, backslash]
      else if c = CHR 0x0A then [backslash, CHR ''n'']
      else if c = CHR 0x09 then [backslash, CHR ''t'']
      else if c = CHR 0x0D then [backslash, CHR ''r'']
      else if c = CHR 0x08 then [backslash, CHR ''b'']
      else if c = CHR 0x0C then [backslash, CHR ''f'']
      else if (of_char c :: nat) < 0x20
      then [backslash, CHR ''u'', CHR ''0'', CHR ''0'', hex_digit (of_char c div 16), hex_digit (of_char c mod 16)]
      else [c])"

definition JsonEncodeString :: "string \<Rightarrow> string \<Rightarrow> string" where
  "JsonEncodeString text out = out @ [quote_char] @ concat (map json_char text) @ [quote_char]"

definition JsonEncodeLiteral :: "LiteralValue \<Rightarrow> string \<Rightarrow> string" where
  "JsonEncodeLiteral v out =
     (if lit_kind v = LiteralKind.kInteger then out @ int_text (lit_int_value v) else JsonEncodeString (lit_string_value v) out)"

text \<open>The loops that put a comma before every element but the first.\<close>

fun separated :: "('a \<Rightarrow> string \<Rightarrow> string) \<Rightarrow> bool \<Rightarrow> 'a list \<Rightarrow> string \<Rightarrow> string" where
  "separated f first [] out = out"
| "separated f first (x # xs) out = separated f False xs (f x (if first then out else out @ [CHR '','']))"

definition EncodeSuccess :: "ExecuteResult \<Rightarrow> string" where
  "EncodeSuccess result =
     (let out = [CHR 0x7B, quote_char] @ ''ok'' @ [quote_char] @ '':true,'' @ [quote_char] @ ''columns'' @ [quote_char] @ '':['';
          out = separated JsonEncodeString True (res_column_names result) out;
          out = out @ ''],'' @ [quote_char] @ ''rows'' @ [quote_char] @ '':['';
          out = separated (\<lambda>row out. separated JsonEncodeLiteral True row (out @ ''['') @ '']'') True (res_rows result) out;
          out = out @ ''],'' @ [quote_char] @ ''rows_affected'' @ [quote_char] @ '':'' @ decimal (res_rows_affected result)
      in out @ [CHR 0x7D])"

definition EncodeFailure :: "string \<Rightarrow> string \<Rightarrow> string" where
  "EncodeFailure error_type message =
     (let out = [CHR 0x7B, quote_char] @ ''ok'' @ [quote_char] @ '':false,'' @ [quote_char] @ ''error_type'' @ [quote_char] @ '':'';
          out = JsonEncodeString error_type out;
          out = out @ '','' @ [quote_char] @ ''error_message'' @ [quote_char] @ '':''
      in JsonEncodeString message out @ [CHR 0x7D])"

section \<open>Reading the input\<close>

text \<open>\<open>std::getline\<close>: the characters up to a newline or to the end, \<open>None\<close> at the end of the input.\<close>

definition getline :: "string \<Rightarrow> (string \<times> string) option" where
  "getline inp =
     (if inp = [] then None
      else Some (takeWhile (\<lambda>c. c \<noteq> CHR 0x0A) inp, drop 1 (dropWhile (\<lambda>c. c \<noteq> CHR 0x0A) inp)))"

lemma getline_shorter: "getline inp = Some (line, rest) \<Longrightarrow> length rest < length inp"
  using length_dropWhile_le [of "\<lambda>c. c \<noteq> CHR 0x0A" inp]
  by (cases "inp = []") (auto simp: getline_def less_Suc_eq_le diff_less_Suc less_le_trans simp flip: length_greater_0_conv)

text \<open>\<open>std::stoull\<close>: white space, a sign, digits, then anything; \<open>None\<close> is one of its two exceptions.\<close>

definition stoull :: "string \<Rightarrow> nat option" where
  "stoull s =
     (let s = dropWhile isspace s;
          neg = (s \<noteq> [] \<and> hd s = CHR ''-'');
          digits = takeWhile isdigit (if s \<noteq> [] \<and> (hd s = CHR ''-'' \<or> hd s = CHR ''+'') then tl s else s);
          v = digits_value digits
      in if digits = [] \<or> v \<ge> 2 ^ 64 then None else Some (if neg \<and> v \<noteq> 0 then 2 ^ 64 - v else v))"

text \<open>A short read throws, and so does the allocation of an absurd length; both end the process.\<close>

definition ReadExactBytes :: "nat \<Rightarrow> string \<Rightarrow> exn + string \<times> string" where
  "ReadExactBytes n inp =
     (if n \<le> length inp then Inr (take n inp, drop n inp) else Inl (Runtime_error ''flintdb_cli: truncated input stream''))"

section \<open>The main loop\<close>

text \<open>The handlers in their order; \<open>SqlSyntaxError\<close> and the others derive from \<open>std::runtime_error\<close>.\<close>

fun error_type :: "exn \<Rightarrow> string" where
  "error_type (Sql_syntax_error _) = ''SqlSyntaxError''"
| "error_type (Sql_semantic_error _) = ''SqlSemanticError''"
| "error_type (Invalid_argument _) = ''std::invalid_argument''"
| "error_type (Out_of_range _) = ''std::out_of_range''"
| "error_type (Logic_error _) = ''std::logic_error''"
| "error_type (Runtime_error _) = ''std::runtime_error''"
| "error_type (Transaction_aborted _) = ''std::runtime_error''"
| "error_type Would_wait = ''''"

text \<open>One statement; a call that waits for a lock gives no answer.\<close>

definition answer :: "thread_id \<Rightarrow> (exn \<Rightarrow> string) \<Rightarrow> string \<Rightarrow> database \<Rightarrow> string option \<times> database" where
  "answer tid what sql_text db =
     (case (case Parse sql_text of Inl e \<Rightarrow> (Inl e, db) | Inr stmt \<Rightarrow> Execute tid stmt db) of
        (Inr result, db') \<Rightarrow> (Some (EncodeSuccess result), db')
      | (Inl e, db') \<Rightarrow> (if e = Would_wait then None else Some (EncodeFailure (error_type e) (what e)), db'))"

datatype client_end = Exit_code nat | Terminated exn | Waiting

function client_loop :: "thread_id \<Rightarrow> (exn \<Rightarrow> string) \<Rightarrow> string \<Rightarrow> database \<Rightarrow> string list \<Rightarrow> client_end \<times> database \<times> string list" where
  "client_loop tid what inp db out =
     (case getline inp of
        None \<Rightarrow> (Exit_code 0, db, out)
      | Some (length_line, rest) \<Rightarrow>
          if length_line = [] then client_loop tid what rest db out
          else case stoull length_line of
            None \<Rightarrow> (Exit_code 2, db, out)
          | Some n \<Rightarrow>
              (case ReadExactBytes n rest of
                 Inl e \<Rightarrow> (Terminated e, db, out)
               | Inr (sql_text, rest') \<Rightarrow>
                   (case answer tid what sql_text db of
                      (None, db') \<Rightarrow> (Waiting, db', out)
                    | (Some line, db') \<Rightarrow> client_loop tid what rest' db' (out @ [line]))))"
  by pat_completeness auto

termination
  by (relation "measure (\<lambda>(tid, what, inp, db, out). length inp)")
    (auto simp: ReadExactBytes_def split: if_splits dest!: getline_shorter)

declare client_loop.simps [simp del]

definition client_main :: "thread_id \<Rightarrow> (exn \<Rightarrow> string) \<Rightarrow> directory list \<Rightarrow> string \<Rightarrow> client_end \<times> string list" where
  "client_main tid what args inp =
     (case args of
        [dir] \<Rightarrow>
          (case Database_open tid dir of
             Inl e \<Rightarrow> (Terminated e, [])
           | Inr db \<Rightarrow> (case client_loop tid what inp db [] of (r, _, out) \<Rightarrow> (r, out)))
      | _ \<Rightarrow> (Exit_code 2, []))"

section \<open>The answers\<close>

text \<open>A reader of JSON strings, from behind the opening quote: the text and what follows its closing quote.\<close>

definition hex_value :: "char \<Rightarrow> nat" where
  "hex_value c = (if isdigit c then of_char c - 48 else of_char c - 87)"

definition escaped :: "char \<Rightarrow> char option" where
  "escaped c = map_of [(quote_char, quote_char), (backslash, backslash), (CHR ''n'', CHR 0x0A), (CHR ''t'', CHR 0x09),
     (CHR ''r'', CHR 0x0D), (CHR ''b'', CHR 0x08), (CHR ''f'', CHR 0x0C)] c"

fun json_text :: "string \<Rightarrow> (string \<times> string) option" where
  "json_text [] = None"
| "json_text (c # cs) =
     (if c = quote_char then Some ([], cs)
      else if c \<noteq> backslash then (if (of_char c :: nat) < 0x20 then None else map_option (apfst ((#) c)) (json_text cs))
      else case cs of
             [] \<Rightarrow> None
           | e # r \<Rightarrow>
               (if e = CHR ''u'' then
                  (case r of
                     a # b # x # y # r' \<Rightarrow>
                       map_option (apfst ((#) (char_of (((hex_value a * 16 + hex_value b) * 16 + hex_value x) * 16 + hex_value y)))) (json_text r')
                   | _ \<Rightarrow> None)
                else (case escaped e of None \<Rightarrow> None | Some c' \<Rightarrow> map_option (apfst ((#) c')) (json_text r))))"

lemma hex_value_digit: "d < 16 \<Longrightarrow> hex_value (hex_digit d) = d"
  by (auto simp: hex_value_def hex_digit_def isdigit_def)

lemma json_text_char: "json_text (json_char c @ cs) = map_option (apfst ((#) c)) (json_text cs)"
proof (cases "(of_char c :: nat) < 0x20")
  case True
  have "((0 * 16 + 0) * 16 + of_char c div 16) * 16 + of_char c mod 16 = (of_char c :: nat)" by simp
  moreover have "hex_value (CHR ''0'') = 0" by (simp add: hex_value_def isdigit_def)
  ultimately show ?thesis using True by (auto simp: json_char_def escaped_def hex_value_digit)
next
  case False
  then show ?thesis by (auto simp: json_char_def escaped_def)
qed

lemma json_text_encoded: "json_text (concat (map json_char cs) @ quote_char # rest) = Some (cs, rest)"
  by (induction cs) (simp_all add: json_text_char)

text \<open>A line of output: no control characters, so no newline.\<close>

abbreviation printable :: "string \<Rightarrow> bool" where
  "printable \<equiv> list_all (\<lambda>c. 0x20 \<le> (of_char c :: nat))"

lemma printable_hex: "d < 16 \<Longrightarrow> 0x20 \<le> (of_char (hex_digit d) :: nat)"
  by (auto simp: hex_digit_def)

lemma printable_char: "printable (json_char c)"
  by (auto simp: json_char_def printable_hex)

lemma printable_string: "printable out \<Longrightarrow> printable (JsonEncodeString cs out)"
  by (induction cs) (auto simp: JsonEncodeString_def printable_char)

lemma printable_decimal: "printable (decimal n)"
  using decimal_digits [of n] by (rule list.pred_mono_strong) (simp add: isdigit_def)

lemma printable_literal: "printable out \<Longrightarrow> printable (JsonEncodeLiteral v out)"
  by (auto simp: JsonEncodeLiteral_def printable_string int_text_def printable_decimal)

lemma printable_separated: "(\<And>x out. printable out \<Longrightarrow> printable (f x out)) \<Longrightarrow> printable out \<Longrightarrow> printable (separated f first xs out)"
  by (induction xs arbitrary: first out) auto

lemma printable_answer: "answer tid what sql db = (Some line, db') \<Longrightarrow> printable line"
  by (auto simp: answer_def EncodeSuccess_def EncodeFailure_def Let_def printable_string printable_decimal
      intro!: printable_string printable_separated printable_literal split: prod.splits sum.splits if_splits)

section \<open>The protocol\<close>

definition framed :: "string \<Rightarrow> string" where
  "framed s = decimal (length s) @ [CHR 0x0A] @ s"

fun answers :: "thread_id \<Rightarrow> (exn \<Rightarrow> string) \<Rightarrow> string list \<Rightarrow> database \<Rightarrow> client_end \<times> database \<times> string list" where
  "answers tid what [] db = (Exit_code 0, db, [])"
| "answers tid what (s # ss) db =
     (case answer tid what s db of
        (None, db') \<Rightarrow> (Waiting, db', [])
      | (Some line, db') \<Rightarrow> (case answers tid what ss db' of (r, db'', lines) \<Rightarrow> (r, db'', line # lines)))"

lemma getline_framed: "getline (framed s @ rest) = Some (decimal (length s), s @ rest)"
proof -
  have "\<forall>c \<in> set (decimal n). c \<noteq> CHR 0x0A" for n using decimal_isdigit [of _ n] by (fastforce simp: isdigit_def)
  then show ?thesis by (auto simp: getline_def framed_def takeWhile_append dropWhile_append)
qed

lemma stoull_decimal: "n < 2 ^ 64 \<Longrightarrow> stoull (decimal n) = Some n"
proof -
  assume n: "n < 2 ^ 64"
  obtain c cs where d: "decimal n = c # cs" using decimal_nonempty [of n] by (cases "decimal n") auto
  then have c: "isdigit c" using decimal_isdigit [of c n] by simp
  then have no: "\<not> isspace c" "c \<noteq> CHR ''-''" "c \<noteq> CHR ''+''" by (auto simp: isdigit_def isspace_def)
  have "takeWhile isdigit (decimal n) = decimal n" using decimal_digits [of n] by (simp add: takeWhile_eq_all_conv list_all_iff)
  with n no digits_value_decimal [of n] show ?thesis by (simp add: stoull_def d Let_def)
qed

lemma client_loop_framed:
  assumes "\<forall>s \<in> set ss. length s < 2 ^ 64"
  shows "client_loop tid what (concat (map framed ss)) db out = (case answers tid what ss db of (r, db', lines) \<Rightarrow> (r, db', out @ lines))"
  using assms
proof (induction ss arbitrary: db out)
  case Nil
  then show ?case by (subst client_loop.simps) (simp add: getline_def)
next
  case (Cons s ss)
  then have n: "stoull (decimal (length s)) = Some (length s)" by (simp add: stoull_decimal)
  show ?case using Cons by (subst client_loop.simps) (auto simp: getline_framed n ReadExactBytes_def split: prod.splits option.splits)
qed

lemma printable_answers: "answers tid what ss db = (r, db', lines) \<Longrightarrow> \<forall>l \<in> set lines. printable l"
  by (induction ss arbitrary: db r db' lines) (auto split: prod.splits option.splits dest: printable_answer)

text \<open>
  C40. The protocol of the client is transparent: on a stream of framed statements, whatever bytes they contain, it executes
  exactly these statements in this order and gives one answer for each until one waits for a lock; every answer
  is a single line without control characters, and a text in it is read back as it was by any reader of JSON strings.
\<close>

theorem client_protocol:
  assumes "\<forall>s \<in> set ss. length s < 2 ^ 64"
  shows "client_loop tid what (concat (map framed ss)) db [] = answers tid what ss db \<and>
    (case answers tid what ss db of (_, _, lines) \<Rightarrow> \<forall>l \<in> set lines. printable l) \<and>
    json_text (drop 1 (JsonEncodeString cs [] @ rest)) = Some (cs, rest)"
  using client_loop_framed [OF assms, of tid what db "[]"] json_text_encoded [of cs rest] printable_answers [of tid what ss db]
  by (auto simp: JsonEncodeString_def split: prod.splits)

theorem client_protocol_witness:
  "client_loop 0 (\<lambda>_. ''e'') [CHR ''1'', CHR 0x0A, CHR ''x''] small_db [] = (Exit_code 0, small_db, [EncodeFailure ''SqlSyntaxError'' ''e''])"
proof -
  have p: "isl (Parse ''x'')" by code_simp
  then obtain e where e: "Parse ''x'' = Inl e" by (cases "Parse ''x''") auto
  with Parse_error [OF e] have a: "answer 0 (\<lambda>_. ''e'') ''x'' small_db = (Some (EncodeFailure ''SqlSyntaxError'' ''e''), small_db)"
    by (auto simp: answer_def)
  have "decimal 1 = ''1''" by (subst decimal.simps) (simp add: digit_char_def, code_simp)
  then have "concat (map framed [''x'']) = [CHR ''1'', CHR 0x0A, CHR ''x'']" by (simp add: framed_def)
  with client_protocol [of "[''x'']" 0 "\<lambda>_. ''e''" small_db] a show ?thesis by simp
qed

end
