(* ===== verification/Unwinding.thy ===== *)
theory Unwinding
  imports Executor Btree_Index
begin

text \<open>
  What survives an exception. The code has no cleanup of its own: an exception thrown halfway through an
  operation leaves every page written so far as it is, and the transaction restores them from the set of pages
  marked dirty. This works only if no page is written without being marked and no page is marked that cannot be
  read back. \<open>keeping K f A\<close> says that \<open>f\<close> respects this discipline, however it ends: started with the pages
  \<open>K\<close> in the pool it leaves the invariant \<open>J\<close> with the pages \<open>A x\<close>, or throws and leaves its weaker form \<open>I\<close>.
  The rules follow the syntax of the operations; the locale \<open>marked_pages\<close> is the interface of the pages
  under a tree, and everything of \<open>btree.cpp\<close> that runs in a transaction is shown to respect it.
\<close>

section \<open>Rules\<close>

locale kept_state =
  fixes J :: "'k set \<Rightarrow> 's \<Rightarrow> bool" and I :: "'s \<Rightarrow> bool"
  assumes forget: "J K s \<Longrightarrow> A \<subseteq> K \<Longrightarrow> J A s"
    and thrown: "J K s \<Longrightarrow> I s"
begin

definition keeping :: "'k set \<Rightarrow> ('s, 'a) operation \<Rightarrow> ('a \<Rightarrow> 'k set) \<Rightarrow> bool" where
  "keeping K f A \<longleftrightarrow> (\<forall>s. J K s \<longrightarrow> (case f s of (Inl _, s') \<Rightarrow> I s' | (Inr x, s') \<Rightarrow> J (A x) s'))"

lemma keepingD: "keeping K f A \<Longrightarrow> J K s \<Longrightarrow> case f s of (Inl _, s') \<Rightarrow> I s' | (Inr x, s') \<Rightarrow> J (A x) s'"
  by (simp add: keeping_def)

lemma keepingI: "(\<And>s. J K s \<Longrightarrow> case f s of (Inl _, s') \<Rightarrow> I s' | (Inr x, s') \<Rightarrow> J (A x) s') \<Longrightarrow> keeping K f A"
  by (simp add: keeping_def)

lemma keeping_return: "A x \<subseteq> K \<Longrightarrow> keeping K (return_op x) A"
  using forget by (auto simp: keeping_def)

lemma keeping_throw: "keeping K (throw_op e) A"
  using thrown by (auto simp: keeping_def)

lemma keeping_bind:
  assumes "keeping K f B" and "\<And>x. keeping (B x) (g x) A"
  shows "keeping K (bind_op f g) A"
proof (rule keepingI)
  fix s assume "J K s"
  then show "case bind_op f g s of (Inl _, s') \<Rightarrow> I s' | (Inr x, s') \<Rightarrow> J (A x) s'"
    using keepingD [OF assms(1)] keepingD [OF assms(2)] by (fastforce simp: bind_op_def split: prod.splits sum.splits)
qed

lemma keeping_if: "(b \<Longrightarrow> keeping K f A) \<Longrightarrow> (\<not> b \<Longrightarrow> keeping K g A) \<Longrightarrow> keeping K (if b then f else g) A"
  by simp

lemma keeping_option:
  "(y = None \<Longrightarrow> keeping K f A) \<Longrightarrow> (\<And>x. y = Some x \<Longrightarrow> keeping K (g x) A) \<Longrightarrow> keeping K (case y of None \<Rightarrow> f | Some x \<Rightarrow> g x) A"
  by (simp split: option.split)

lemma keeping_forget: "keeping K f B \<Longrightarrow> (\<And>x. A x \<subseteq> B x) \<Longrightarrow> keeping K f A"
  unfolding keeping_def by (clarsimp split: prod.splits sum.splits) (metis forget)

lemma keeping_discard: "keeping K f (\<lambda>_. A) \<Longrightarrow> keeping K (discard_op f) (\<lambda>_. A)"
  unfolding keeping_def discard_op_def by (clarsimp split: prod.splits sum.splits) metis

lemma keeping_for_each: "(\<And>x. x \<in> set xs \<Longrightarrow> keeping K (f x) (\<lambda>_. K)) \<Longrightarrow> keeping K (for_each xs f) (\<lambda>_. K)"
  by (induction xs) (auto intro: keeping_return keeping_bind)

lemma keeping_get: "(\<And>s. J K s \<Longrightarrow> keeping K (g s) A) \<Longrightarrow> keeping K (bind_op get_op g) A"
  by (auto simp: keeping_def)

lemma keeping_done: "keeping K (return_op x) (\<lambda>_. K)"
  by (simp add: keeping_return)

lemmas keeping_rules = keeping_done keeping_return keeping_throw keeping_bind keeping_if keeping_option

end

section \<open>The pages under a tree\<close>

definition store_page :: "'s page_ops \<Rightarrow> PageId \<Rightarrow> page \<Rightarrow> ('s, unit) operation" where
  "store_page ops a p = bind_op (po_write ops a p) (\<lambda>_. po_mark ops a)"

definition store_two :: "'s page_ops \<Rightarrow> PageId \<Rightarrow> page \<Rightarrow> PageId \<Rightarrow> page \<Rightarrow> ('s, unit) operation" where
  "store_two ops a p b q = bind_op (po_write ops a p) (\<lambda>_. bind_op (po_write ops b q) (\<lambda>_. bind_op (po_mark ops a) (\<lambda>_. po_mark ops b)))"

lemma store_folds:
  "bind_op (po_write ops a p) (\<lambda>_. po_mark ops a) = store_page ops a p"
  "bind_op (po_write ops a p) (\<lambda>_. bind_op (po_mark ops a) g) = bind_op (store_page ops a p) g"
  "bind_op (po_write ops a p) (\<lambda>_. bind_op (po_write ops b q) (\<lambda>_. bind_op (po_mark ops a) (\<lambda>_. bind_op (po_mark ops b) g))) =
    bind_op (store_two ops a p b q) g"
  by (simp_all add: store_page_def store_two_def bind_op_assoc)

locale marked_pages = kept_state J I for J :: "'k set \<Rightarrow> 's \<Rightarrow> bool" and I :: "'s \<Rightarrow> bool" +
  fixes ops :: "'s page_ops" and key :: "PageId \<Rightarrow> 'k"
  assumes lock_keeping: "keeping K (po_lock ops pid mode) (\<lambda>_. K)"
    and fetch_keeping: "keeping K (po_fetch ops pid) (\<lambda>_. insert (key pid) K)"
    and new_keeping: "keeping K (po_new ops) (\<lambda>pid. insert (key pid) K)"
    and store_keeping: "key a \<in> K \<Longrightarrow> keeping K (store_page ops a p) (\<lambda>_. K)"
    and store_two_keeping: "key a \<in> K \<Longrightarrow> key b \<in> K \<Longrightarrow> keeping K (store_two ops a p b q) (\<lambda>_. K)"
begin

lemma child_at_keeping: "keeping K (child_at cs i) (\<lambda>_. K)"
  by (simp add: child_at_def keeping_return keeping_throw)

lemma lock_fetch_keeping: "keeping K (lock_fetch ops pid mode) (\<lambda>_. insert (key pid) K)"
  unfolding lock_fetch_def by (rule keeping_bind [OF lock_keeping fetch_keeping])

lemma SetRootPageId_keeping: "keeping K (SetRootPageId ops pid) (\<lambda>_. K)"
  unfolding SetRootPageId_def store_folds
  by (rule keeping_bind [OF fetch_keeping], rule keeping_forget [OF store_keeping]) auto

lemma GetRootPageId_keeping: "keeping K (GetRootPageId ops) (\<lambda>_. K)"
  unfolding GetRootPageId_def by (rule keeping_bind [OF fetch_keeping], rule keeping_return) auto

lemma LockRoot_keeping: "keeping K (LockRoot ops mode) (\<lambda>_. K)"
  unfolding LockRoot_def by (rule lock_keeping)

lemmas page_rules = keeping_rules child_at_keeping lock_fetch_keeping SetRootPageId_keeping GetRootPageId_keeping LockRoot_keeping
  lock_keeping fetch_keeping new_keeping store_keeping store_two_keeping

text \<open>Reading.\<close>

lemma search_loop_keeping: "keeping K (search_loop n ops k pid) (\<lambda>_. {})"
proof (induction n arbitrary: K pid)
  case (Suc n)
  show ?case unfolding search_loop.simps Let_def by (rule page_rules Suc | blast)+
qed (simp add: ThrowTraversalStepsExceeded_def keeping_throw)

lemma Search_keeping: "keeping K (BPlusTree_Search ops k) (\<lambda>_. {})"
  unfolding BPlusTree_Search_def by (rule page_rules search_loop_keeping | blast)+

text \<open>Insertion.\<close>

lemma insert_leaf_keeping: "key pid \<in> K \<Longrightarrow> keeping K (insert_leaf ops pid leaf k rid) (\<lambda>_. K)"
  unfolding insert_leaf_def Let_def store_folds by (rule page_rules | blast)+

lemma insert_internal_keeping: "key pid \<in> K \<Longrightarrow> keeping K (insert_internal ops pid node i r) (\<lambda>_. K)"
  unfolding insert_internal_def Let_def store_folds by (rule page_rules | blast)+

lemma InsertRecursive_keeping: "keeping K (InsertRecursive n ops pid k rid) (\<lambda>_. K)"
proof (induction n arbitrary: K pid)
  case (Suc n)
  show ?case unfolding InsertRecursive.simps Let_def
    by (rule page_rules Suc keeping_forget [OF insert_leaf_keeping] keeping_forget [OF insert_internal_keeping] | blast)+
qed (simp add: keeping_throw)

lemma Insert_keeping: "keeping K (BPlusTree_Insert ops k rid) (\<lambda>_. {})"
  unfolding BPlusTree_Insert_def store_folds
  by (rule page_rules InsertRecursive_keeping keeping_forget [OF SetRootPageId_keeping] | blast)+

text \<open>Deletion.\<close>

lemma delete_leaf_keeping: "key pid \<in> K \<Longrightarrow> keeping K (delete_leaf ops pid b leaf k rid) (\<lambda>_. K)"
  unfolding delete_leaf_def Let_def store_folds by (rule page_rules | blast)+

lemma merge_keeping:
  "key pid \<in> K \<Longrightarrow> keeping K (merge_leaves ops pid l1 l2 parent i) (\<lambda>_. K)"
  "key pid \<in> K \<Longrightarrow> keeping K (merge_internals ops pid n1 n2 parent i) (\<lambda>_. K)"
  unfolding merge_leaves_def merge_internals_def store_folds by (rule page_rules | assumption)+

lemmas merge_rules = merge_keeping [THEN keeping_forget]

lemma fix_leaf_keeping:
  "key pid \<in> K \<Longrightarrow> keeping K (fix_leaf_left ops parent i pid leaf) (\<lambda>_. K)"
  "key pid \<in> K \<Longrightarrow> keeping K (fix_leaf_right ops parent i pid leaf) (\<lambda>_. K)"
  unfolding fix_leaf_left_def fix_leaf_right_def Let_def store_folds by (rule page_rules merge_rules | blast)+

lemma borrow_keeping:
  "key pid \<in> K \<Longrightarrow> keeping K (borrow_left ops parent i pid node) (\<lambda>_. K)"
  "key pid \<in> K \<Longrightarrow> keeping K (borrow_right ops parent i pid node) (\<lambda>_. K)"
  unfolding borrow_left_def borrow_right_def Let_def store_folds by (rule page_rules | blast)+

lemma merge_sibling_keeping:
  "keeping K (merge_left ops parent i node) (\<lambda>_. K)"
  "key pid \<in> K \<Longrightarrow> keeping K (merge_right ops parent i pid node) (\<lambda>_. K)"
  unfolding merge_left_def merge_right_def by (rule page_rules merge_rules | blast)+

lemma FixUnderflow_keeping: "keeping K (FixUnderflow ops parent i) (\<lambda>_. K)"
  unfolding FixUnderflow_def Let_def
  by (rule page_rules fix_leaf_keeping [THEN keeping_forget] borrow_keeping merge_sibling_keeping [THEN keeping_forget] | blast)+

lemma DeleteRecursive_keeping: "keeping K (DeleteRecursive n ops pid b k rid) (\<lambda>_. K)"
proof (induction n arbitrary: K pid b)
  case (Suc n)
  show ?case unfolding DeleteRecursive.simps Let_def store_folds
    by (rule page_rules Suc FixUnderflow_keeping keeping_forget [OF delete_leaf_keeping] | blast)+
qed (simp add: keeping_throw)

lemma Delete_keeping: "keeping K (BPlusTree_Delete ops k rid) (\<lambda>_. {})"
  unfolding BPlusTree_Delete_def by (rule page_rules DeleteRecursive_keeping | blast)+

end

end
