(* ===== verification/Rollback.thy ===== *)
theory Rollback
  imports Unwinding Relational Session
begin

text \<open>
  A transaction can be undone. \<open>tracked\<close> relates the engine within a transaction to the engine \<open>en0\<close> before it: the files
  hold what they held, pages allocated since are blank there, and every cached page that differs from its
  file is in the set of pages the transaction has dirtied. Every page operation of the engine keeps this, so the
  operations of the heap files and trees do (\<open>Unwinding\<close>), and so do the statements of the executor, however they end.
\<close>

section \<open>Cache and files\<close>

definition in_file :: "disk \<Rightarrow> PageId \<Rightarrow> bool" where
  "in_file d pid \<longleftrightarrow> pid < next_page_id d \<and> unat pid * PAGE_SIZE + PAGE_SIZE \<le> length (disk_file d)"

definition file_page :: "disk \<Rightarrow> PageId \<rightharpoonup> page" where
  "file_page d pid = (if in_file d pid then Some (disk_page d pid) else None)"

definition on_disk :: "engine \<Rightarrow> PageKey \<rightharpoonup> page" where
  "on_disk en k = (case en_pools en (key_object k) of None \<Rightarrow> None | Some bp \<Rightarrow> file_page (bp_disk bp) (key_page k))"

definition cached :: "engine \<Rightarrow> PageKey \<rightharpoonup> page" where
  "cached en k = (case en_pools en (key_object k) of None \<Rightarrow> None | Some bp \<Rightarrow> bp_pages bp (key_page k))"

text \<open>The file is as long as its page count says, and the disk is full before page ids wrap, by the margin of one insertion.\<close>

definition sized :: "disk \<Rightarrow> bool" where
  "sized d \<longleftrightarrow> disk_ok d \<and> length (disk_file d) \<le> disk_capacity d \<and> disk_capacity d < (2 ^ 32 - 40) * PAGE_SIZE"

definition all_sized :: "engine \<Rightarrow> bool" where
  "all_sized en \<longleftrightarrow> (\<forall>oid bp. en_pools en oid = Some bp \<longrightarrow> sized (bp_disk bp))"

lemma in_file_has: "disk_ok d \<Longrightarrow> in_file d pid = disk_has d pid"
  using page_extent by (auto simp: in_file_def disk_has_def)

lemma ReadPage_file:
  "ReadPage pid d = (case file_page d pid of Some p \<Rightarrow> Inr p | None \<Rightarrow>
     Inl (if next_page_id d \<le> pid then Out_of_range ''DiskManager::ReadPage'' else Runtime_error ''pread hit EOF''))"
  by (auto simp: ReadPage_def file_page_def in_file_def disk_page_def read_bytes_def Let_def)

lemma AllocatePage_sized:
  assumes "sized d" and "AllocatePage d = (x, d')"
  shows "case x of
      Inl e \<Rightarrow> file_page d' = file_page d
    | Inr pid \<Rightarrow> sized d' \<and> file_page d pid = None \<and> file_page d' = (file_page d)(pid \<mapsto> blank_page)"
proof -
  let ?n = "next_page_id d"
  have ok: "disk_ok d" and n: "unat ?n + 1 < 2 ^ 32" using assms(1) by (auto simp: sized_def disk_ok_def)
  show ?thesis
  proof (cases x)
    case (Inl e)
    then have d': "d' = d\<lparr>next_page_id := ?n + 1\<rparr>" using assms(2) by (auto simp: AllocatePage_def Let_def split: if_splits)
    have "unat (?n + 1) = Suc (unat ?n)" using n by (intro unat_Suc_small) simp
    then have "in_file d' pid = in_file d pid" for pid
      using ok by (auto simp: in_file_def d' word_less_nat_alt disk_ok_def)
    then show ?thesis using Inl by (simp add: file_page_def fun_eq_iff d' disk_page_def)
  next
    case (Inr pid)
    note a = AllocatePage_ok [OF ok n assms(2) [unfolded Inr]]
    have "length (disk_file d') \<le> disk_capacity d"
      using assms(2) Inr a(1,3) by (auto simp: AllocatePage_def Let_def disk_ok_def split: if_splits)
    then have "sized d'" using assms(1) a(1,4) by (simp add: sized_def)
    moreover have "\<not> disk_has d pid" by (simp add: a(2) disk_has_def)
    ultimately show ?thesis using Inr ok a(1,5,6,7) by (auto simp: file_page_def in_file_has fun_eq_iff)
  qed
qed

text \<open>The views under the updates that the operations make.\<close>

lemma view_pool [simp]:
  "on_disk (en\<lparr>en_pools := (en_pools en)(oid \<mapsto> bp)\<rparr>) k = (if key_object k = oid then file_page (bp_disk bp) (key_page k) else on_disk en k)"
  "cached (en\<lparr>en_pools := (en_pools en)(oid \<mapsto> bp)\<rparr>) k = (if key_object k = oid then bp_pages bp (key_page k) else cached en k)"
  "en_dirty (en\<lparr>en_pools := (en_pools en)(oid \<mapsto> bp)\<rparr>) k = (if key_object k = oid then key_page k \<in> bp_dirty bp else en_dirty en k)"
  by (simp_all add: on_disk_def cached_def en_dirty_def)

lemma view_rest [simp]:
  "on_disk (en\<lparr>en_locks := l\<rparr>) = on_disk en" "cached (en\<lparr>en_locks := l\<rparr>) = cached en" "en_dirty (en\<lparr>en_locks := l\<rparr>) = en_dirty en"
  "on_disk (en\<lparr>en_wal := w\<rparr>) = on_disk en" "cached (en\<lparr>en_wal := w\<rparr>) = cached en"
  "on_disk (en\<lparr>en_active := a\<rparr>) = on_disk en" "cached (en\<lparr>en_active := a\<rparr>) = cached en" "en_dirty (en\<lparr>en_active := a\<rparr>) = en_dirty en"
  "on_disk (en\<lparr>en_current := c\<rparr>) = on_disk en" "cached (en\<lparr>en_current := c\<rparr>) = cached en" "en_dirty (en\<lparr>en_current := c\<rparr>) = en_dirty en"
  "on_disk (en\<lparr>en_next_txn := n\<rparr>) = on_disk en" "cached (en\<lparr>en_next_txn := n\<rparr>) = cached en" "en_dirty (en\<lparr>en_next_txn := n\<rparr>) = en_dirty en"
  "on_disk (en\<lparr>en_heaps := h\<rparr>) = on_disk en" "cached (en\<lparr>en_heaps := h\<rparr>) = cached en" "en_dirty (en\<lparr>en_heaps := h\<rparr>) = en_dirty en"
  by (simp_all add: on_disk_def cached_def en_dirty_def fun_eq_iff)

lemma heap_page_ids_rest [simp]:
  "heap_page_ids oid (en\<lparr>en_locks := l\<rparr>) = heap_page_ids oid en" "heap_page_ids oid (en\<lparr>en_wal := w\<rparr>) = heap_page_ids oid en"
  "heap_page_ids oid (en\<lparr>en_active := a\<rparr>) = heap_page_ids oid en" "heap_page_ids oid (en\<lparr>en_pools := m\<rparr>) = heap_page_ids oid en"
  "heap_page_ids oid (en\<lparr>en_current := c\<rparr>) = heap_page_ids oid en" "heap_page_ids oid (en\<lparr>en_next_txn := n\<rparr>) = heap_page_ids oid en"
  by (simp_all add: heap_page_ids_def)

lemma DirtiedPages_rest [simp]:
  "DirtiedPages txn (en\<lparr>en_locks := l\<rparr>) = DirtiedPages txn en" "DirtiedPages txn (en\<lparr>en_wal := w\<rparr>) = DirtiedPages txn en"
  "DirtiedPages txn (en\<lparr>en_pools := m\<rparr>) = DirtiedPages txn en" "DirtiedPages txn (en\<lparr>en_heaps := h\<rparr>) = DirtiedPages txn en"
  by (simp_all add: DirtiedPages_def)

section \<open>The engine within a transaction\<close>

definition new_heap_pages :: "engine \<Rightarrow> engine \<Rightarrow> ObjectId \<Rightarrow> PageId list \<Rightarrow> bool" where
  "new_heap_pages en0 en oid news \<longleftrightarrow>
     heap_page_ids oid en = heap_page_ids oid en0 @ news \<and> distinct news \<and>
     (\<forall>pid \<in> set news. on_disk en (PageKey oid pid) \<noteq> None \<and> on_disk en0 (PageKey oid pid) = None)"

definition only_grown :: "engine \<Rightarrow> engine \<Rightarrow> bool" where
  "only_grown en0 en \<longleftrightarrow>
     (\<forall>oid. (en_pools en oid = None) = (en_pools en0 oid = None)) \<and>
     (\<forall>k p. on_disk en0 k = Some p \<longrightarrow> on_disk en k = Some p) \<and>
     (\<forall>k p. on_disk en k = Some p \<longrightarrow> on_disk en0 k = None \<longrightarrow> p = blank_page) \<and>
     (\<forall>oid. \<exists>news. new_heap_pages en0 en oid news)"

text \<open>The cache \<open>ca\<close> over the files \<open>od\<close>: only dirtied pages differ, and what is marked or known is cached.\<close>

definition coherent :: "('k \<rightharpoonup> 'v) \<Rightarrow> ('k \<rightharpoonup> 'v) \<Rightarrow> ('k \<Rightarrow> bool) \<Rightarrow> 'k set \<Rightarrow> 'k set \<Rightarrow> bool" where
  "coherent od ca di D K \<longleftrightarrow>
     (\<forall>k p. ca k = Some p \<longrightarrow> od k \<noteq> None \<and> (k \<notin> D \<longrightarrow> od k = Some p)) \<and>
     (\<forall>k. di k \<longleftrightarrow> k \<in> D) \<and> (\<forall>k \<in> D. ca k \<noteq> None) \<and> (\<forall>k \<in> K. ca k \<noteq> None)"

lemma coherent_forget: "coherent od ca di D K \<Longrightarrow> A \<subseteq> K \<Longrightarrow> coherent od ca di D A"
  by (auto simp: coherent_def)

lemma coherent_fetch: "coherent od ca di D K \<Longrightarrow> od k = Some p \<Longrightarrow> coherent od (ca(k \<mapsto> p)) di D (insert k K)"
  by (auto simp: coherent_def)

lemma coherent_store: "coherent od ca di D K \<Longrightarrow> k \<in> K \<Longrightarrow> coherent od (ca(k \<mapsto> p)) (di(k := True)) (insert k D) K"
  by (auto simp: coherent_def)

lemma coherent_new:
  "coherent od ca di D K \<Longrightarrow> od k = None \<Longrightarrow> coherent (od(k \<mapsto> b)) (ca(k \<mapsto> p)) (di(k := True)) (insert k D) (insert k K)"
  by (auto simp: coherent_def)

definition tracked :: "engine \<Rightarrow> thread_id \<Rightarrow> TxnId \<Rightarrow> PageKey set \<Rightarrow> engine \<Rightarrow> bool" where
  "tracked en0 tid txn K en \<longleftrightarrow>
     en_current en tid = Some txn \<and> en_active en txn \<noteq> None \<and> only_grown en0 en \<and>
     coherent (on_disk en) (cached en) (en_dirty en) (DirtiedPages txn en) K"

definition running :: "engine \<Rightarrow> thread_id \<Rightarrow> TxnId \<Rightarrow> PageKey set \<Rightarrow> engine \<Rightarrow> bool" where
  "running en0 tid txn K en \<longleftrightarrow>
     tracked en0 tid txn K en \<and> all_sized en \<and> (\<forall>oid bp. en_pools en oid = Some bp \<longrightarrow> bp_observers bp tid = Some (txn, oid))"

interpretation txn: kept_state "running en0 tid txn" "tracked en0 tid txn {}" for en0 tid txn
  by unfold_locales (auto simp: running_def tracked_def intro: coherent_forget)

text \<open>From the first step of a commit on, when the observers are gone.\<close>

interpretation ending: kept_state "tracked en0 tid txn" "tracked en0 tid txn {}" for en0 tid txn
  by unfold_locales (auto simp: tracked_def intro: coherent_forget)

lemma only_grown_same:
  assumes "only_grown en0 en" and "\<And>oid. (en_pools en' oid = None) = (en_pools en oid = None)" and "on_disk en' = on_disk en"
    and "\<And>oid. heap_page_ids oid en' = heap_page_ids oid en"
  shows "only_grown en0 en'"
  using assms by (simp add: only_grown_def new_heap_pages_def)

lemma only_grown_pool:
  assumes "only_grown en0 en" and "en_pools en oid = Some bp" and "file_page (bp_disk bp') = file_page (bp_disk bp)"
  shows "only_grown en0 (en\<lparr>en_pools := (en_pools en)(oid \<mapsto> bp')\<rparr>)"
proof (rule only_grown_same [OF assms(1)])
  show "on_disk (en\<lparr>en_pools := (en_pools en)(oid \<mapsto> bp')\<rparr>) = on_disk en" using assms(2,3) by (auto simp: fun_eq_iff on_disk_def)
qed (use assms(2) in auto)

text \<open>One pool replaced: what the views show then.\<close>

lemma pool_views:
  assumes "en_pools en oid = Some bp"
  shows "on_disk en (PageKey oid pid) = file_page (bp_disk bp) pid" and "cached en (PageKey oid pid) = bp_pages bp pid"
    and "en_dirty en (PageKey oid pid) = (pid \<in> bp_dirty bp)"
  using assms by (simp_all add: on_disk_def cached_def en_dirty_def)

lemma views_pool_upd:
  assumes "en_pools en oid = Some bp"
  shows "file_page (bp_disk bp') = file_page (bp_disk bp) \<Longrightarrow> on_disk (en\<lparr>en_pools := (en_pools en)(oid \<mapsto> bp')\<rparr>) = on_disk en"
    and "file_page (bp_disk bp') = (file_page (bp_disk bp))(pid \<mapsto> b) \<Longrightarrow>
      on_disk (en\<lparr>en_pools := (en_pools en)(oid \<mapsto> bp')\<rparr>) = (on_disk en)(PageKey oid pid \<mapsto> b)"
    and "bp_pages bp' = bp_pages bp \<Longrightarrow> cached (en\<lparr>en_pools := (en_pools en)(oid \<mapsto> bp')\<rparr>) = cached en"
    and "bp_pages bp' = (bp_pages bp)(pid \<mapsto> p) \<Longrightarrow> cached (en\<lparr>en_pools := (en_pools en)(oid \<mapsto> bp')\<rparr>) = (cached en)(PageKey oid pid \<mapsto> p)"
    and "bp_dirty bp' = bp_dirty bp \<Longrightarrow> en_dirty (en\<lparr>en_pools := (en_pools en)(oid \<mapsto> bp')\<rparr>) = en_dirty en"
    and "bp_dirty bp' = insert pid (bp_dirty bp) \<Longrightarrow>
      en_dirty (en\<lparr>en_pools := (en_pools en)(oid \<mapsto> bp')\<rparr>) = (en_dirty en)(PageKey oid pid := True)"
  using pool_views [OF assms] by (auto simp: fun_eq_iff) (metis PageKey.collapse)+

section \<open>Page operations\<close>

lemma lock_kept:
  "txn.keeping en0 tid txn K (LockPage tid oid pid mode) (\<lambda>_. K)"
proof (rule txn.keepingI)
  fix en assume r: "running en0 tid txn K en"
  then have t: "tracked en0 tid txn {} en" by (rule txn.thrown)
  have "running en0 tid txn K (en\<lparr>en_locks := l\<rparr>)" for l
    using r only_grown_same [of en0 en "en\<lparr>en_locks := l\<rparr>"] by (simp add: running_def tracked_def all_sized_def)
  then show "case LockPage tid oid pid mode en of (Inl _, en') \<Rightarrow> tracked en0 tid txn {} en' | (Inr _, en') \<Rightarrow> running en0 tid txn K en'"
    using r t by (auto simp: LockPage_def Transaction_AcquireLock_def split: option.splits acquire_outcome.splits)
qed

lemma running_pool: "running en0 tid txn K en \<Longrightarrow> en_pools en oid = Some bp \<Longrightarrow> sized (bp_disk bp) \<and> bp_observers bp tid = Some (txn, oid)"
  by (simp add: running_def all_sized_def)

lemma FetchPage_file:
  "FetchPage pid bp = (case bp_pages bp pid of Some p \<Rightarrow> (Inr p, bp) | None \<Rightarrow>
     (case file_page (bp_disk bp) pid of
        Some p \<Rightarrow> (Inr p, bp\<lparr>bp_pages := (bp_pages bp)(pid \<mapsto> p)\<rparr>)
      | None \<Rightarrow> (Inl (if next_page_id (bp_disk bp) \<le> pid then Out_of_range ''DiskManager::ReadPage'' else Runtime_error ''pread hit EOF''), bp)))"
  by (auto simp: FetchPage_def ReadPage_file split: option.split)

lemma fetch_tracked:
  assumes "tracked en0 tid txn K en"
  shows "case FetchPage_op oid pid en of
      (Inl _, en') \<Rightarrow> en' = en
    | (Inr p, en') \<Rightarrow> tracked en0 tid txn (insert (PageKey oid pid) K) en' \<and> (all_sized en \<longrightarrow> all_sized en') \<and>
        (\<forall>o' bp'. en_pools en' o' = Some bp' \<longrightarrow> (\<exists>bp. en_pools en o' = Some bp \<and> bp_observers bp' = bp_observers bp)) \<and>
        DirtiedPages txn en' = DirtiedPages txn en"
proof (cases "en_pools en oid")
  case None
  then show ?thesis by (simp add: FetchPage_op_def pool_op_def)
next
  case (Some bp)
  have same: "en\<lparr>en_pools := (en_pools en)(oid \<mapsto> bp)\<rparr> = en" using Some by (simp add: map_upd_triv)
  show ?thesis
  proof (cases "bp_pages bp pid")
    case p: (Some p)
    have "tracked en0 tid txn (insert (PageKey oid pid) K) en" using assms p pool_views(2) [OF Some, of pid] by (auto simp: tracked_def coherent_def)
    then show ?thesis using p Some same by (simp add: FetchPage_op_def pool_op_def FetchPage_file)
  next
    case None
    show ?thesis
    proof (cases "file_page (bp_disk bp) pid")
      case p: (Some p)
      let ?bp = "bp\<lparr>bp_pages := (bp_pages bp)(pid \<mapsto> p)\<rparr>"
      let ?en = "en\<lparr>en_pools := (en_pools en)(oid \<mapsto> ?bp)\<rparr>"
      have "only_grown en0 ?en" by (rule only_grown_pool) (use assms Some in \<open>auto simp: tracked_def\<close>)
      then have "tracked en0 tid txn (insert (PageKey oid pid) K) ?en"
        using assms coherent_fetch [of "on_disk en" "cached en" "en_dirty en" "DirtiedPages txn en" K "PageKey oid pid" p]
          views_pool_upd [OF Some, of ?bp] pool_views(1) [OF Some, of pid] p by (simp add: tracked_def)
      then show ?thesis using None Some p by (auto simp: FetchPage_op_def pool_op_def FetchPage_file all_sized_def)
    qed (use None Some same in \<open>simp add: FetchPage_op_def pool_op_def FetchPage_file\<close>)
  qed
qed

lemma fetch_kept: "txn.keeping en0 tid txn K (FetchPage_op oid pid) (\<lambda>_. insert (PageKey oid pid) K)"
proof (rule txn.keepingI)
  fix en assume r: "running en0 tid txn K en"
  then have t: "tracked en0 tid txn K en" by (simp add: running_def)
  show "case FetchPage_op oid pid en of (Inl _, en') \<Rightarrow> tracked en0 tid txn {} en' | (Inr _, en') \<Rightarrow> running en0 tid txn (insert (PageKey oid pid) K) en'"
    using fetch_tracked [OF t, of oid pid] r txn.thrown [OF r]
    by (fastforce simp: running_def split: prod.splits sum.splits)
qed

text \<open>Writing a cached page and marking it.\<close>

definition stored_pool :: "PageId \<Rightarrow> page \<Rightarrow> pool \<Rightarrow> pool" where
  "stored_pool pid p bp = bp\<lparr>bp_pages := (bp_pages bp)(pid \<mapsto> p), bp_dirty := insert pid (bp_dirty bp)\<rparr>"

definition stored_engine :: "TxnId \<Rightarrow> ObjectId \<Rightarrow> PageId \<Rightarrow> page \<Rightarrow> engine \<Rightarrow> engine" where
  "stored_engine txn oid pid p en =
     NotifyDirty (Some (txn, PageKey oid pid)) (en\<lparr>en_pools := (en_pools en)(oid \<mapsto> stored_pool pid p (the (en_pools en oid)))\<rparr>)"

lemma NotifyDirty_fields [simp]:
  "en_pools (NotifyDirty n en) = en_pools en" "en_current (NotifyDirty n en) = en_current en" "en_heaps (NotifyDirty n en) = en_heaps en"
  "on_disk (NotifyDirty n en) = on_disk en" "cached (NotifyDirty n en) = cached en" "en_dirty (NotifyDirty n en) = en_dirty en"
  "(en_active (NotifyDirty n en) t = None) = (en_active en t = None)"
  by (auto simp: NotifyDirty_def split: option.splits prod.splits)

lemma NotifyDirty_pools: "NotifyDirty n (en\<lparr>en_pools := m\<rparr>) = (NotifyDirty n en)\<lparr>en_pools := m\<rparr>"
  by (cases en) (auto simp: NotifyDirty_def fun_eq_iff split: option.split)

lemma DirtiedPages_notify: "en_active en txn \<noteq> None \<Longrightarrow> DirtiedPages txn (NotifyDirty (Some (txn, k)) en) = insert k (DirtiedPages txn en)"
  by (auto simp: NotifyDirty_def DirtiedPages_def)

lemma heap_page_ids_notify [simp]: "heap_page_ids oid (NotifyDirty n en) = heap_page_ids oid en"
  by (simp add: heap_page_ids_def)

lemma running_cached:
  assumes "running en0 tid txn K en" and "PageKey oid pid \<in> K"
  obtains bp where "en_pools en oid = Some bp" "bp_observers bp tid = Some (txn, oid)"
proof -
  have "cached en (PageKey oid pid) \<noteq> None" using assms by (auto simp: running_def tracked_def coherent_def)
  then obtain bp where "en_pools en oid = Some bp" by (auto simp: cached_def split: option.splits)
  with running_pool [OF assms(1)] that show thesis by blast
qed

lemma stored_running:
  assumes r: "running en0 tid txn K en" and k: "PageKey oid pid \<in> K"
  shows "running en0 tid txn K (stored_engine txn oid pid p en)"
proof -
  obtain bp where bp: "en_pools en oid = Some bp" by (rule running_cached [OF r k])
  let ?bp = "stored_pool pid p bp" and ?en = "en\<lparr>en_pools := (en_pools en)(oid \<mapsto> stored_pool pid p bp)\<rparr>"
  have t: "tracked en0 tid txn K en" using r by (simp add: running_def)
  have og: "only_grown en0 ?en" by (rule only_grown_pool [OF _ bp]) (use t in \<open>simp_all add: tracked_def stored_pool_def\<close>)
  have v: "on_disk ?en = on_disk en" "cached ?en = (cached en)(PageKey oid pid \<mapsto> p)" "en_dirty ?en = (en_dirty en)(PageKey oid pid := True)"
    using views_pool_upd [OF bp, of ?bp] by (simp_all add: stored_pool_def)
  have e: "stored_engine txn oid pid p en = NotifyDirty (Some (txn, PageKey oid pid)) ?en" using bp by (simp add: stored_engine_def)
  have "tracked en0 tid txn K (stored_engine txn oid pid p en)"
    using t og coherent_store [of "on_disk en" "cached en" "en_dirty en" "DirtiedPages txn en" K "PageKey oid pid" p] k v
      only_grown_same [of en0 ?en "stored_engine txn oid pid p en"]
    by (simp add: tracked_def e DirtiedPages_notify)
  then show ?thesis using r bp by (auto simp: running_def e all_sized_def stored_pool_def)
qed

lemma store_page_run:
  assumes "running en0 tid txn K en" and "PageKey oid pid \<in> K"
  shows "store_page (engine_ops tid oid) pid p en = (Inr (), stored_engine txn oid pid p en)"
  using assms
proof (rule running_cached)
  fix bp assume bp: "en_pools en oid = Some bp" "bp_observers bp tid = Some (txn, oid)"
  then show ?thesis
    by (simp add: store_page_def write_page_op_def MarkDirty_op_def pool_op_def bind_op_def write_page_def MarkDirty_def MarkDirtyLocked_def stored_engine_def stored_pool_def)
qed

lemma store_two_run:
  assumes "running en0 tid txn K en" and "PageKey oid a \<in> K" and "PageKey oid b \<in> K"
  shows "store_two (engine_ops tid oid) a p b q en = (Inr (), stored_engine txn oid b q (stored_engine txn oid a p en))"
  using assms(1,2)
proof (rule running_cached)
  fix bp assume bp: "en_pools en oid = Some bp" "bp_observers bp tid = Some (txn, oid)"
  then show ?thesis
    by (simp add: store_two_def write_page_op_def MarkDirty_op_def pool_op_def bind_op_def write_page_def MarkDirty_def MarkDirtyLocked_def stored_engine_def stored_pool_def
      NotifyDirty_pools)
qed

text \<open>A new page, blank or formatted as a heap page.\<close>

definition added_pool :: "PageId \<Rightarrow> page \<Rightarrow> disk \<Rightarrow> pool \<Rightarrow> pool" where
  "added_pool pid p d bp = (stored_pool pid p bp)\<lparr>bp_disk := d\<rparr>"

definition added_engine :: "TxnId \<Rightarrow> ObjectId \<Rightarrow> PageId \<Rightarrow> page \<Rightarrow> disk \<Rightarrow> engine \<Rightarrow> engine" where
  "added_engine txn oid pid p d en =
     NotifyDirty (Some (txn, PageKey oid pid)) (en\<lparr>en_pools := (en_pools en)(oid \<mapsto> added_pool pid p d (the (en_pools en oid)))\<rparr>)"

lemma write_added: "write_page pid q (added_pool pid p d bp) = added_pool pid q d bp"
  by (cases bp) (simp add: write_page_def added_pool_def stored_pool_def)

lemma only_grown_new:
  assumes g: "only_grown en0 en" and bp: "en_pools en oid = Some bp" and k: "on_disk en (PageKey oid pid) = None"
    and v: "on_disk en' = (on_disk en)(PageKey oid pid \<mapsto> blank_page)" and p: "\<And>o'. (en_pools en' o' = None) = (en_pools en o' = None)"
    and h: "\<And>o'. heap_page_ids o' en' = heap_page_ids o' en"
  shows "only_grown en0 en'"
proof -
  have fresh: "on_disk en0 (PageKey oid pid) = None" using g k by (cases "on_disk en0 (PageKey oid pid)") (auto simp: only_grown_def)
  have "new_heap_pages en0 en' o' news" if "new_heap_pages en0 en o' news" for o' news
    using that by (auto simp: new_heap_pages_def v h)
  with g fresh k p show ?thesis unfolding only_grown_def v by (auto split: if_splits) blast
qed

lemma added_running:
  assumes r: "running en0 tid txn K en" and bp: "en_pools en oid = Some bp"
    and d: "sized d" "file_page (bp_disk bp) pid = None" "file_page d = (file_page (bp_disk bp))(pid \<mapsto> blank_page)"
  shows "running en0 tid txn (insert (PageKey oid pid) K) (added_engine txn oid pid p d en)"
proof -
  let ?bp = "added_pool pid p d bp" and ?en = "en\<lparr>en_pools := (en_pools en)(oid \<mapsto> added_pool pid p d bp)\<rparr>"
  have t: "tracked en0 tid txn K en" using r by (simp add: running_def)
  have v: "on_disk ?en = (on_disk en)(PageKey oid pid \<mapsto> blank_page)" "cached ?en = (cached en)(PageKey oid pid \<mapsto> p)"
    "en_dirty ?en = (en_dirty en)(PageKey oid pid := True)"
    using views_pool_upd [OF bp, of ?bp] d(3) by (simp_all add: added_pool_def stored_pool_def)
  have k: "on_disk en (PageKey oid pid) = None" using pool_views(1) [OF bp] d(2) by simp
  have e: "added_engine txn oid pid p d en = NotifyDirty (Some (txn, PageKey oid pid)) ?en" using bp by (simp add: added_engine_def)
  have og: "only_grown en0 (added_engine txn oid pid p d en)"
    by (rule only_grown_new [OF _ bp k]) (use t bp v in \<open>auto simp: tracked_def e\<close>)
  have "tracked en0 tid txn (insert (PageKey oid pid) K) (added_engine txn oid pid p d en)"
    using t og coherent_new [of "on_disk en" "cached en" "en_dirty en" "DirtiedPages txn en" K "PageKey oid pid" blank_page p] k v
    by (simp add: tracked_def e DirtiedPages_notify)
  then show ?thesis using r bp d(1) by (auto simp: running_def e all_sized_def added_pool_def stored_pool_def)
qed

lemma new_pool_cases:
  assumes r: "running en0 tid txn K en" and bp: "en_pools en oid = Some bp"
  obtains (full) e d where "NewPage tid bp = (Inl e, bp\<lparr>bp_disk := d\<rparr>)" "file_page d = file_page (bp_disk bp)"
  | (added) pid d where "NewPage tid bp = (Inr (pid, Some (txn, PageKey oid pid)), added_pool pid blank_page d bp)"
      "sized d" "file_page (bp_disk bp) pid = None" "file_page d = (file_page (bp_disk bp))(pid \<mapsto> blank_page)"
proof -
  obtain x d where a: "AllocatePage (bp_disk bp) = (x, d)" by (cases "AllocatePage (bp_disk bp)")
  have sz: "sized (bp_disk bp)" and obs: "bp_observers bp tid = Some (txn, oid)" using running_pool [OF r bp] by auto
  note f = AllocatePage_sized [OF sz a]
  show thesis
  proof (cases x)
    case (Inl e)
    with a f show thesis by (intro full [of e d]) (simp_all add: NewPage_def)
  next
    case (Inr pid)
    with a f obs show thesis
      by (intro added [of pid d]) (simp_all add: NewPage_def MarkDirtyLocked_def added_pool_def stored_pool_def)
  qed
qed

lemma full_tracked:
  assumes "running en0 tid txn K en" and "en_pools en oid = Some bp" and "file_page d = file_page (bp_disk bp)"
  shows "tracked en0 tid txn {} (en\<lparr>en_pools := (en_pools en)(oid \<mapsto> bp\<lparr>bp_disk := d\<rparr>)\<rparr>)"
  using txn.thrown [OF assms(1)] only_grown_pool [of en0 en oid bp "bp\<lparr>bp_disk := d\<rparr>"] assms(2,3) views_pool_upd [OF assms(2), of "bp\<lparr>bp_disk := d\<rparr>"]
  by (simp add: tracked_def)

lemma new_kept: "txn.keeping en0 tid txn K (NewPage_op tid oid) (\<lambda>pid. insert (PageKey oid pid) K)"
proof (rule txn.keepingI)
  fix en assume r: "running en0 tid txn K en"
  show "case NewPage_op tid oid en of (Inl _, en') \<Rightarrow> tracked en0 tid txn {} en' | (Inr pid, en') \<Rightarrow> running en0 tid txn (insert (PageKey oid pid) K) en'"
  proof (cases "en_pools en oid")
    case None
    then show ?thesis using txn.thrown [OF r] by (simp add: NewPage_op_def pool_op_def bind_op_def)
  next
    case (Some bp)
    from r Some show ?thesis
    proof (cases rule: new_pool_cases)
      case (full e d)
      then show ?thesis using Some full_tracked [OF r Some full(2)] by (simp add: NewPage_op_def pool_op_def bind_op_def)
    next
      case (added pid d)
      have "NewPage_op tid oid en = (Inr pid, added_engine txn oid pid blank_page d en)"
        using Some added(1) by (simp add: NewPage_op_def pool_op_def bind_op_def added_engine_def)
      then show ?thesis using added_running [OF r Some added(2-4)] by simp
    qed
  qed
qed

interpretation tree_pages: marked_pages "running en0 tid txn" "tracked en0 tid txn {}" "engine_ops tid oid" "PageKey oid" for en0 tid txn oid
proof unfold_locales
  show "txn.keeping en0 tid txn K (po_lock (engine_ops tid oid) pid mode) (\<lambda>_. K)" for K pid mode by (simp add: lock_kept)
  show "txn.keeping en0 tid txn K (po_fetch (engine_ops tid oid) pid) (\<lambda>_. insert (PageKey oid pid) K)" for K pid by (simp add: fetch_kept)
  show "txn.keeping en0 tid txn K (po_new (engine_ops tid oid)) (\<lambda>pid. insert (PageKey oid pid) K)" for K by (simp add: new_kept)
  show "PageKey oid a \<in> K \<Longrightarrow> txn.keeping en0 tid txn K (store_page (engine_ops tid oid) a p) (\<lambda>_. K)" for a K p
    by (rule txn.keepingI) (simp add: store_page_run stored_running)
  show "PageKey oid a \<in> K \<Longrightarrow> PageKey oid b \<in> K \<Longrightarrow> txn.keeping en0 tid txn K (store_two (engine_ops tid oid) a p b q) (\<lambda>_. K)" for a b K p q
    by (rule txn.keepingI) (simp add: store_two_run stored_running)
qed

section \<open>Heap files\<close>

lemmas heap_store_folds = store_folds [where ops = "engine_ops tid oid", unfolded engine_ops_simps] for tid oid
lemmas heap_store_kept = tree_pages.store_keeping

lemma insert_on_page_kept: "txn.keeping en0 tid txn K (insert_on_page tid oid pid row) (\<lambda>_. K)"
  unfolding insert_on_page_def heap_store_folds
  by (rule txn.keeping_bind [OF fetch_kept])
    (auto split: prod.split option.split intro!: txn.keeping_return txn.keeping_bind [OF heap_store_kept])

text \<open>The page id is pushed between the allocation and the insertion; until then the page is new.\<close>

definition push_new_page :: "thread_id \<Rightarrow> ObjectId \<Rightarrow> (engine, PageId) operation" where
  "push_new_page tid oid =
     bind_op (NewHeapPage_op tid oid) (\<lambda>pid. bind_op (LockPage tid oid pid kExclusive) (\<lambda>_. bind_op (modify_op (push_page_id oid pid)) (\<lambda>_. return_op pid)))"

lemma NewHeapPage_run:
  assumes "NewPage tid bp = (x, bp')"
  shows "NewHeapPage tid bp = (case x of Inl e \<Rightarrow> (Inl e, bp') | Inr (pid, n) \<Rightarrow> (Inr (pid, n), write_page pid (InitHeapPage pid) bp'))"
  using assms by (simp add: NewHeapPage_def bind_op_def split: sum.split prod.split)

lemma push_running:
  assumes r: "running en0 tid txn K en" and bp: "en_pools en oid = Some bp"
    and d: "sized d" "file_page (bp_disk bp) pid = None" "file_page d = (file_page (bp_disk bp))(pid \<mapsto> blank_page)"
  shows "running en0 tid txn (insert (PageKey oid pid) K) (push_page_id oid pid ((added_engine txn oid pid p d en)\<lparr>en_locks := l\<rparr>))"
proof -
  let ?en = "added_engine txn oid pid p d en"
  let ?en' = "push_page_id oid pid (?en\<lparr>en_locks := l\<rparr>)"
  have r1: "running en0 tid txn (insert (PageKey oid pid) K) ?en" by (rule added_running [OF r bp d])
  have og: "only_grown en0 en" "only_grown en0 ?en" using r r1 by (simp_all add: running_def tracked_def)
  have same: "on_disk ?en' = on_disk ?en" "cached ?en' = cached ?en" "en_dirty ?en' = en_dirty ?en" "en_pools ?en' = en_pools ?en"
    "DirtiedPages txn ?en' = DirtiedPages txn ?en" "en_current ?en' = en_current ?en" "en_active ?en' = en_active ?en"
    by (simp_all add: push_page_id_def)
  have old: "on_disk en (PageKey oid pid) = None" and now: "on_disk ?en (PageKey oid pid) \<noteq> None"
    using pool_views(1) [OF bp] d by (simp_all add: added_engine_def bp added_pool_def)
  then have fresh: "on_disk en0 (PageKey oid pid) = None" using og(1) by (cases "on_disk en0 (PageKey oid pid)") (auto simp: only_grown_def)
  obtain news where news: "new_heap_pages en0 ?en oid news" using og(2) unfolding only_grown_def by blast
  obtain news0 where news0: "new_heap_pages en0 en oid news0" using og(1) unfolding only_grown_def by blast
  have "news0 = news" using news news0 by (simp add: new_heap_pages_def added_engine_def)
  then have "pid \<notin> set news" using news0 old by (auto simp: new_heap_pages_def)
  then have mine: "new_heap_pages en0 ?en' oid (news @ [pid])"
    using news fresh now by (auto simp: new_heap_pages_def same(1)) (simp_all add: push_page_id_def heap_page_ids_def)
  have other: "new_heap_pages en0 ?en' o' ns" if "o' \<noteq> oid" "new_heap_pages en0 ?en o' ns" for o' ns
    using that by (auto simp: new_heap_pages_def same(1)) (simp_all add: push_page_id_def heap_page_ids_def)
  have "\<exists>ns. new_heap_pages en0 ?en' o' ns" for o'
    using mine other og(2) by (cases "o' = oid") (blast | simp only: only_grown_def)+
  then have "only_grown en0 ?en'" using og(2) unfolding only_grown_def same by blast
  then show ?thesis using r1 by (simp add: running_def tracked_def same all_sized_def)
qed

lemma push_new_page_kept: "txn.keeping en0 tid txn K (push_new_page tid oid) (\<lambda>pid. insert (PageKey oid pid) K)"
proof (rule txn.keepingI)
  fix en assume r: "running en0 tid txn K en"
  show "case push_new_page tid oid en of (Inl _, en') \<Rightarrow> tracked en0 tid txn {} en' | (Inr pid, en') \<Rightarrow> running en0 tid txn (insert (PageKey oid pid) K) en'"
  proof (cases "en_pools en oid")
    case None
    then show ?thesis using txn.thrown [OF r] by (simp add: push_new_page_def NewHeapPage_op_def pool_op_def bind_op_def)
  next
    case (Some bp)
    from r Some show ?thesis
    proof (cases rule: new_pool_cases)
      case (full e d)
      then show ?thesis using Some full_tracked [OF r Some full(2)] NewHeapPage_run [OF full(1)]
        by (simp add: push_new_page_def NewHeapPage_op_def pool_op_def bind_op_def)
    next
      case (added pid d)
      let ?en = "added_engine txn oid pid (InitHeapPage pid) d en"
      have run: "NewHeapPage_op tid oid en = (Inr pid, ?en)"
        using Some NewHeapPage_run [OF added(1)]
        by (simp add: NewHeapPage_op_def pool_op_def bind_op_def added_engine_def write_added)
      have r1: "running en0 tid txn (insert (PageKey oid pid) K) ?en" by (rule added_running [OF r Some added(2-4)])
      have lock: "LockPage tid oid pid kExclusive ?en = (x, en') \<Longrightarrow> \<exists>l. en' = ?en\<lparr>en_locks := l\<rparr>" for x en'
        by (auto simp: LockPage_def Transaction_AcquireLock_def split: option.splits acquire_outcome.splits) (metis engine.surjective engine.update_convs(3))+
      have "case LockPage tid oid pid kExclusive ?en of (Inl _, en') \<Rightarrow> tracked en0 tid txn {} en' | (Inr _, en') \<Rightarrow>
          running en0 tid txn (insert (PageKey oid pid) K) (push_page_id oid pid en')"
        using txn.keepingD [OF lock_kept r1, of oid pid kExclusive] lock push_running [OF r Some added(2-4)]
        by (fastforce split: prod.splits sum.splits)
      then show ?thesis using run by (simp add: push_new_page_def bind_op_def split: prod.splits sum.splits)
    qed
  qed
qed

lemma insert_fresh_kept: "txn.keeping en0 tid txn K (insert_fresh tid oid row) (\<lambda>_. K)"
proof -
  have eq: "insert_fresh tid oid row = bind_op (push_new_page tid oid) (\<lambda>pid. bind_op (insert_on_page tid oid pid row) (\<lambda>slot.
      case slot of None \<Rightarrow> throw_op (Logic_error ''HeapFile::Insert'') | Some s \<Rightarrow> return_op \<lparr>rid_page_id = pid, rid_slot_id = s\<rparr>))"
    by (simp add: insert_fresh_def push_new_page_def bind_op_assoc)
  show ?thesis unfolding eq
    by (rule txn.keeping_bind [OF push_new_page_kept], rule txn.keeping_bind [OF insert_on_page_kept])
      (auto split: option.split intro: txn.keeping_throw txn.keeping_return)
qed

text \<open>The operations that read \<open>page_ids_\<close> first.\<close>

lemma kept_at:
  assumes "\<And>en. \<exists>g. f en = g en \<and> txn.keeping en0 tid txn K g A"
  shows "txn.keeping en0 tid txn K f A"
proof (rule txn.keepingI)
  fix en assume r: "running en0 tid txn K en"
  obtain g where "f en = g en" "txn.keeping en0 tid txn K g A" using assms by blast
  then show "case f en of (Inl _, en') \<Rightarrow> tracked en0 tid txn {} en' | (Inr x, en') \<Rightarrow> running en0 tid txn (A x) en'"
    using txn.keepingD [OF _ r] by simp
qed

lemma HeapFile_Insert_kept: "txn.keeping en0 tid txn K (HeapFile_Insert tid oid row) (\<lambda>_. {})"
proof (rule kept_at)
  fix en
  let ?g = "if length row > kMaxRowSize then throw_op (Invalid_argument ''HeapFile::Insert'')
    else if heap_page_ids oid en = [] then insert_fresh tid oid row
    else bind_op (LockPage tid oid (last (heap_page_ids oid en)) kExclusive) (\<lambda>_.
      bind_op (insert_on_page tid oid (last (heap_page_ids oid en)) row) (\<lambda>slot.
        case slot of Some s \<Rightarrow> return_op \<lparr>rid_page_id = last (heap_page_ids oid en), rid_slot_id = s\<rparr> | None \<Rightarrow> insert_fresh tid oid row))"
  have "txn.keeping en0 tid txn K ?g (\<lambda>_. {})"
    by (rule txn.keeping_rules lock_kept insert_on_page_kept txn.keeping_forget [OF insert_fresh_kept] | blast)+
  moreover have "HeapFile_Insert tid oid row en = ?g en" by (simp add: HeapFile_Insert_def Let_def)
  ultimately show "\<exists>g. HeapFile_Insert tid oid row en = g en \<and> txn.keeping en0 tid txn K g (\<lambda>_. {})" by blast
qed

lemma HeapFile_GetRow_kept: "txn.keeping en0 tid txn K (HeapFile_GetRow tid oid rid) (\<lambda>_. {})"
proof (rule kept_at)
  fix en
  let ?g = "if rid_page_id rid \<notin> set (heap_page_ids oid en) then return_op None
    else bind_op (LockPage tid oid (rid_page_id rid) kShared) (\<lambda>_. bind_op (FetchPage_op oid (rid_page_id rid)) (\<lambda>p.
      if GetSlotCount p \<le> rid_slot_id rid \<or> IsDeleted p (rid_slot_id rid) then return_op None else return_op (Some (GetRecord p (rid_slot_id rid)))))"
  have "txn.keeping en0 tid txn K ?g (\<lambda>_. {})" by (rule txn.keeping_rules lock_kept fetch_kept | blast)+
  moreover have "HeapFile_GetRow tid oid rid en = ?g en" by (simp add: HeapFile_GetRow_def)
  ultimately show "\<exists>g. HeapFile_GetRow tid oid rid en = g en \<and> txn.keeping en0 tid txn K g (\<lambda>_. {})" by blast
qed

lemma HeapFile_Delete_kept: "txn.keeping en0 tid txn K (HeapFile_Delete tid oid rid) (\<lambda>_. {})"
proof (rule kept_at)
  fix en
  let ?g = "if rid_page_id rid \<notin> set (heap_page_ids oid en) then return_op False
    else bind_op (LockPage tid oid (rid_page_id rid) kExclusive) (\<lambda>_. bind_op (FetchPage_op oid (rid_page_id rid)) (\<lambda>p.
      if GetSlotCount p \<le> rid_slot_id rid \<or> IsDeleted p (rid_slot_id rid) then return_op False
      else bind_op (store_page (engine_ops tid oid) (rid_page_id rid) (DeleteRecord p (rid_slot_id rid))) (\<lambda>_. return_op True)))"
  have "txn.keeping en0 tid txn K ?g (\<lambda>_. {})" by (rule txn.keeping_rules lock_kept fetch_kept heap_store_kept | blast)+
  moreover have "HeapFile_Delete tid oid rid en = ?g en" unfolding HeapFile_Delete_def heap_store_folds by simp
  ultimately show "\<exists>g. HeapFile_Delete tid oid rid en = g en \<and> txn.keeping en0 tid txn K g (\<lambda>_. {})" by blast
qed

lemma scan_pages_kept: "txn.keeping en0 tid txn K (scan_pages tid oid pids) (\<lambda>_. {})"
proof (induction pids arbitrary: K)
  case (Cons pid pids)
  show ?case unfolding scan_pages.simps by (rule txn.keeping_rules lock_kept fetch_kept Cons | blast)+
qed (simp add: txn.keeping_return)

lemma HeapFile_Scan_kept: "txn.keeping en0 tid txn K (HeapFile_Scan tid oid) (\<lambda>_. {})"
  using scan_pages_kept by (intro kept_at) (auto simp: HeapFile_Scan_def)

section \<open>Begin\<close>

text \<open>Between transactions: nothing is dirty and the files have room for their page ids.\<close>

definition settled :: "engine \<Rightarrow> bool" where
  "settled en \<longleftrightarrow> pools_ok en \<and> all_sized en \<and> (\<forall>k. \<not> en_dirty en k)"

lemma settled_coherent:
  assumes "settled en"
  shows "coherent (on_disk en) (cached en) (en_dirty en) {} {}"
proof -
  have "on_disk en k = Some p" if c: "cached en k = Some p" for k p
  proof -
    obtain bp where bp: "en_pools en (key_object k) = Some bp" "bp_pages bp (key_page k) = Some p" using c by (auto simp: cached_def split: option.splits)
    have "\<not> en_dirty en k" and ok: "pool_ok bp" using assms bp by (simp_all add: settled_def pools_ok_def)
    then have clean: "key_page k \<notin> bp_dirty bp" using bp(1) by (simp add: en_dirty_def)
    with ok have "disk_ok (bp_disk bp)" "disk_has (bp_disk bp) (key_page k)" "p = disk_page (bp_disk bp) (key_page k)"
      using bp(2) by (auto simp: pool_ok_def pool_wf_def pool_has_def)
    then show ?thesis using bp(1) by (simp add: on_disk_def file_page_def in_file_has)
  qed
  then show ?thesis using assms by (auto simp: coherent_def settled_def)
qed

lemma only_grown_refl: "only_grown en en"
proof -
  have "new_heap_pages en en oid []" for oid by (simp add: new_heap_pages_def)
  then show ?thesis unfolding only_grown_def by auto
qed

lemma set_observers_views [simp]:
  "on_disk (set_observers tid txn en) = on_disk en" "cached (set_observers tid txn en) = cached en" "en_dirty (set_observers tid txn en) = en_dirty en"
  "heap_page_ids oid (set_observers tid txn en) = heap_page_ids oid en" "DirtiedPages t (set_observers tid txn en) = DirtiedPages t en"
  "(en_pools (set_observers tid txn en) oid = None) = (en_pools en oid = None)" "en_active (set_observers tid txn en) = en_active en"
  "en_current (set_observers tid txn en) = en_current en"
  by (auto simp: set_observers_def on_disk_def cached_def en_dirty_def heap_page_ids_def DirtiedPages_def SetActiveTransactionObserver_def
      fun_eq_iff split: option.splits)

lemma Begin_running:
  assumes "settled en" and "Begin tid en = (Inr txn, en1)"
  shows "running en tid txn {} en1"
proof -
  from assms(2) obtain w where en1: "en1 = set_observers tid txn (SetCurrentTransactionForThisThread tid (Some txn)
      (en\<lparr>en_next_txn := en_next_txn en + 1, en_wal := w, en_active := (en_active en)(txn \<mapsto> {})\<rparr>))"
    by (auto simp: Begin_def Let_def bind_op_def wal_op_def split: if_splits prod.splits sum.splits)
  have "only_grown en en1" by (rule only_grown_same [OF only_grown_refl]) (simp_all add: en1 SetCurrentTransactionForThisThread_def)
  moreover have "all_sized en1" "\<forall>oid bp. en_pools en1 oid = Some bp \<longrightarrow> bp_observers bp tid = Some (txn, oid)"
    using assms(1) by (auto simp: en1 settled_def all_sized_def set_observers_def SetActiveTransactionObserver_def SetCurrentTransactionForThisThread_def)
  moreover have "coherent (on_disk en1) (cached en1) (en_dirty en1) (DirtiedPages txn en1) {}"
    using settled_coherent [OF assms(1)] by (simp add: en1 SetCurrentTransactionForThisThread_def DirtiedPages_def)
  ultimately show ?thesis by (simp add: running_def tracked_def en1 SetCurrentTransactionForThisThread_def)
qed

lemma Begin_fails: "Begin tid en = (Inl e, en') \<Longrightarrow> en_pools en' = en_pools en \<and> en_heaps en' = en_heaps en"
  by (auto simp: Begin_def Let_def bind_op_def wal_op_def split: if_splits prod.splits sum.splits)

section \<open>Abort\<close>

definition restored :: "engine \<Rightarrow> engine \<Rightarrow> bool" where
  "restored en0 en \<longleftrightarrow> only_grown en0 en \<and> coherent (on_disk en) (cached en) (en_dirty en) {} {}"

lemma coherent_discard:
  "coherent od ca di (insert k D) {} \<Longrightarrow> od k = Some p \<Longrightarrow> coherent od (ca(k \<mapsto> p)) (di(k := False)) (D - {k}) {}"
  by (auto simp: coherent_def)

lemma views_discard:
  assumes "en_pools en oid = Some bp" and "bp' = bp\<lparr>bp_pages := (bp_pages bp)(pid \<mapsto> p), bp_dirty := bp_dirty bp - {pid}\<rparr>"
  shows "en_dirty (en\<lparr>en_pools := (en_pools en)(oid \<mapsto> bp')\<rparr>) = (en_dirty en)(PageKey oid pid := False)"
proof
  fix k show "en_dirty (en\<lparr>en_pools := (en_pools en)(oid \<mapsto> bp')\<rparr>) k = ((en_dirty en)(PageKey oid pid := False)) k"
    using pool_views(3) [OF assms(1)] assms(2) by (cases k) auto
qed

lemma discard_step:
  assumes og: "only_grown en0 en" and co: "coherent (on_disk en) (cached en) (en_dirty en) (insert k D) {}"
  shows "\<exists>m. pool_op (key_object k) (DiscardPage (key_page k)) en = (Inr (), en\<lparr>en_pools := m\<rparr>) \<and> only_grown en0 (en\<lparr>en_pools := m\<rparr>) \<and>
    coherent (on_disk (en\<lparr>en_pools := m\<rparr>)) (cached (en\<lparr>en_pools := m\<rparr>)) (en_dirty (en\<lparr>en_pools := m\<rparr>)) (D - {k}) {}"
proof -
  obtain oid pid where k: "k = PageKey oid pid" by (cases k)
  obtain q where q: "cached en k = Some q" using co by (auto simp: coherent_def)
  then obtain p where p: "on_disk en k = Some p" using co by (fastforce simp: coherent_def)
  obtain bp where bp: "en_pools en oid = Some bp" using q k by (auto simp: cached_def split: option.splits)
  have v: "bp_pages bp pid = Some q" "file_page (bp_disk bp) pid = Some p" using pool_views [OF bp, of pid] p q k by simp_all
  let ?bp = "bp\<lparr>bp_pages := (bp_pages bp)(pid \<mapsto> p), bp_dirty := bp_dirty bp - {pid}\<rparr>"
  let ?en = "en\<lparr>en_pools := (en_pools en)(oid \<mapsto> ?bp)\<rparr>"
  have "DiscardPage pid bp = (Inr (), ?bp)" using v by (simp add: DiscardPage_def ReadPage_file)
  then have run: "pool_op (key_object k) (DiscardPage (key_page k)) en = (Inr (), ?en)" using bp k by (simp add: pool_op_def)
  have "only_grown en0 ?en" by (rule only_grown_pool [OF og bp]) simp
  moreover have "coherent (on_disk ?en) (cached ?en) (en_dirty ?en) (D - {k}) {}"
    using coherent_discard [OF co p] views_pool_upd(1,4) [OF bp, of ?bp] views_discard [OF bp refl, of pid p] k by simp
  ultimately show ?thesis using run by blast
qed

lemma discard_loop:
  assumes "only_grown en0 en" and "coherent (on_disk en) (cached en) (en_dirty en) (set ks) {}" and "distinct ks"
  shows "\<exists>m. for_each ks (\<lambda>k. pool_op (key_object k) (DiscardPage (key_page k))) en = (Inr (), en\<lparr>en_pools := m\<rparr>) \<and> restored en0 (en\<lparr>en_pools := m\<rparr>)"
  using assms
proof (induction ks arbitrary: en)
  case Nil
  then show ?case by (intro exI [of _ "en_pools en"]) (simp add: restored_def)
next
  case (Cons k ks)
  have co: "coherent (on_disk en) (cached en) (en_dirty en) (insert k (set ks)) {}" and d: "set ks - {k} = set ks" using Cons.prems(2,3) by auto
  from discard_step [OF Cons.prems(1) co, unfolded d] obtain m where m: "pool_op (key_object k) (DiscardPage (key_page k)) en = (Inr (), en\<lparr>en_pools := m\<rparr>)"
    "only_grown en0 (en\<lparr>en_pools := m\<rparr>)"
    "coherent (on_disk (en\<lparr>en_pools := m\<rparr>)) (cached (en\<lparr>en_pools := m\<rparr>)) (en_dirty (en\<lparr>en_pools := m\<rparr>)) (set ks) {}" by blast
  from Cons.IH [OF m(2,3)] Cons.prems(3) obtain m' where
    "for_each ks (\<lambda>k. pool_op (key_object k) (DiscardPage (key_page k))) (en\<lparr>en_pools := m\<rparr>) = (Inr (), en\<lparr>en_pools := m'\<rparr>)" "restored en0 (en\<lparr>en_pools := m'\<rparr>)"
    by auto
  then show ?case using m(1) by (intro exI [of _ m']) (simp add: bind_op_def)
qed

lemma restored_same:
  "restored en0 en \<Longrightarrow> en_pools en' = en_pools en \<Longrightarrow> en_heaps en' = en_heaps en \<Longrightarrow> restored en0 en'"
proof -
  assume a: "restored en0 en" "en_pools en' = en_pools en" "en_heaps en' = en_heaps en"
  then have "on_disk en' = on_disk en" "cached en' = cached en" "en_dirty en' = en_dirty en" "heap_page_ids oid en' = heap_page_ids oid en" for oid
    by (simp_all add: on_disk_def cached_def en_dirty_def heap_page_ids_def fun_eq_iff)
  with a only_grown_same [of en0 en en'] show ?thesis by (simp add: restored_def)
qed

lemma clear_observers_file_views [simp]:
  "on_disk (clear_observers tid en) = on_disk en" "cached (clear_observers tid en) = cached en"
  "heap_page_ids oid (clear_observers tid en) = heap_page_ids oid en" "DirtiedPages t (clear_observers tid en) = DirtiedPages t en"
  "(en_pools (clear_observers tid en) oid = None) = (en_pools en oid = None)"
  by (auto simp: clear_observers_def on_disk_def cached_def heap_page_ids_def DirtiedPages_def ClearActiveTransactionObserver_def
      fun_eq_iff split: option.splits)

lemma tracked_clear: "tracked en0 tid txn K en \<Longrightarrow> tracked en0 tid txn K (clear_observers tid' en)"
  using only_grown_same [of en0 en "clear_observers tid' en"] by (simp add: tracked_def)

text \<open>An abort restores everything even when its own record cannot be logged; then the transaction only stays open.\<close>

lemma Abort_restored:
  assumes "tracked en0 tid txn K en" and "Abort tid txn en = (r, en')"
  shows "restored en0 en'" and "r = Inr () \<Longrightarrow> en_current en' tid = None"
proof -
  let ?D = "DirtiedPages txn en" and ?en = "clear_observers tid en"
  have t: "tracked en0 tid txn {} ?en" using tracked_clear [OF ending.forget [OF assms(1)]] by simp
  then have og: "only_grown en0 ?en" and co: "coherent (on_disk ?en) (cached ?en) (en_dirty ?en) (set (txn_keys ?D)) {}"
    by (simp_all add: tracked_def)
  from discard_loop [OF og co distinct_txn_keys] obtain m where
    m: "for_each (txn_keys ?D) (\<lambda>k. pool_op (key_object k) (DiscardPage (key_page k))) ?en = (Inr (), ?en\<lparr>en_pools := m\<rparr>)"
      "restored en0 (?en\<lparr>en_pools := m\<rparr>)" by blast
  have cur: "en_current en tid = Some txn" using assms(1) by (simp add: tracked_def)
  have run: "bind_op (wal_op (AppendAbort txn)) (\<lambda>_. modify_op (end_transaction tid txn)) (?en\<lparr>en_pools := m\<rparr>) = (r, en')"
    using assms(2) cur m(1) by (simp add: Abort_def GetCurrentTransaction_def Let_def for_each_group bind_op_def)
  then have f: "en_pools en' = m \<and> en_heaps en' = en_heaps ?en \<and> (r = Inr () \<longrightarrow> en_current en' tid = None)"
    by (auto simp: bind_op_def wal_op_def end_transaction_def SetCurrentTransactionForThisThread_def split: prod.splits sum.splits)
  then show "restored en0 en'" using restored_same [OF m(2), of en'] by simp
  show "r = Inr () \<Longrightarrow> en_current en' tid = None" using f by simp
qed

section \<open>Commit\<close>

lemma wal_kept: "ending.keeping en0 tid txn K (wal_op f) (\<lambda>_. K)"
proof (rule ending.keepingI)
  fix en assume t: "tracked en0 tid txn K en"
  have "tracked en0 tid txn K (en\<lparr>en_wal := w\<rparr>)" for w using t only_grown_same [of en0 en "en\<lparr>en_wal := w\<rparr>"] by (simp add: tracked_def)
  then show "case wal_op f en of (Inl _, en') \<Rightarrow> tracked en0 tid txn {} en' | (Inr x, en') \<Rightarrow> tracked en0 tid txn K en'"
    using ending.forget [of en0 tid txn K _ "{}"] by (auto simp: wal_op_def split: prod.splits sum.splits)
qed

lemma log_update_kept: "ending.keeping en0 tid txn K (log_update txn oid pid) (\<lambda>_. K)"
proof -
  have "ending.keeping en0 tid txn K (FetchPage_op oid pid) (\<lambda>_. K)"
  proof (rule ending.keepingI)
    fix en assume t: "tracked en0 tid txn K en"
    have "tracked en0 tid txn K en'" if "tracked en0 tid txn (insert (PageKey oid pid) K) en'" for en'
      using ending.forget [OF that, of K] by blast
    then show "case FetchPage_op oid pid en of (Inl _, en') \<Rightarrow> tracked en0 tid txn {} en' | (Inr x, en') \<Rightarrow> tracked en0 tid txn K en'"
      using fetch_tracked [OF t, of oid pid] ending.thrown [OF t] by (auto split: prod.splits sum.splits)
  qed
  then show ?thesis unfolding log_update_def by (rule ending.keeping_bind) (rule ending.keeping_discard [OF wal_kept])
qed

text \<open>Every cached page has a place in its file, so a flush does not fail.\<close>

lemma flush_never_fails:
  assumes "\<forall>pid p. bp_pages bp pid = Some p \<longrightarrow> pid < next_page_id (bp_disk bp)"
  shows "\<exists>bp'. FlushPages S bp = (Inr (), bp') \<and> bp_pages bp' = bp_pages bp \<and> next_page_id (bp_disk bp') = next_page_id (bp_disk bp)"
proof -
  have one: "\<exists>bp'. flush_if_dirty pid b = (Inr (), bp') \<and> bp_pages bp' = bp_pages b \<and> next_page_id (bp_disk bp') = next_page_id (bp_disk b)"
    if "\<forall>pid p. bp_pages b pid = Some p \<longrightarrow> pid < next_page_id (bp_disk b)" for b pid
    using that by (fastforce simp: flush_if_dirty_def flush_one_def WritePage_def bind_op_def not_le split: option.split)
  have "\<exists>bp'. for_each pids flush_if_dirty bp = (Inr (), bp') \<and> bp_pages bp' = bp_pages bp \<and> next_page_id (bp_disk bp') = next_page_id (bp_disk bp)" for pids
    using assms
  proof (induction pids arbitrary: bp)
    case (Cons pid pids)
    from one [OF Cons.prems, of pid] obtain b where b: "flush_if_dirty pid bp = (Inr (), b)" "bp_pages b = bp_pages bp" "next_page_id (bp_disk b) = next_page_id (bp_disk bp)" by blast
    with Cons.IH [of b] Cons.prems show ?case by (simp add: bind_op_def)
  qed simp
  then show ?thesis by (simp add: FlushPages_def)
qed

definition flushable :: "engine \<Rightarrow> bool" where
  "flushable en \<longleftrightarrow> (\<forall>oid bp pid p. en_pools en oid = Some bp \<longrightarrow> bp_pages bp pid = Some p \<longrightarrow> pid < next_page_id (bp_disk bp))"

lemma tracked_flushable: "tracked en0 tid txn K en \<Longrightarrow> flushable en"
proof -
  assume t: "tracked en0 tid txn K en"
  have "pid < next_page_id (bp_disk bp)" if "en_pools en oid = Some bp" "bp_pages bp pid = Some p" for oid bp pid p
  proof -
    have "on_disk en (PageKey oid pid) \<noteq> None" using t pool_views(2) [OF that(1), of pid] that(2) by (auto simp: tracked_def coherent_def)
    then show ?thesis using pool_views(1) [OF that(1), of pid] by (auto simp: file_page_def in_file_def split: if_splits)
  qed
  then show ?thesis by (simp add: flushable_def)
qed

lemma flush_loop_ends:
  assumes "flushable en" and "\<forall>oid \<in> fst ` set bo. en_pools en oid \<noteq> None"
  shows "\<exists>en'. for_each bo (\<lambda>(oid, pids). pool_op oid (FlushPages pids)) en = (Inr (), en')"
  using assms
proof (induction bo arbitrary: en)
  case (Cons x bo)
  obtain oid S where x: "x = (oid, S)" by (cases x)
  obtain bp where bp: "en_pools en oid = Some bp" using Cons.prems(2) x by auto
  have "\<forall>pid p. bp_pages bp pid = Some p \<longrightarrow> pid < next_page_id (bp_disk bp)" using Cons.prems(1) bp by (simp add: flushable_def)
  from flush_never_fails [OF this, of S] obtain b where b: "FlushPages S bp = (Inr (), b)" "bp_pages b = bp_pages bp" "next_page_id (bp_disk b) = next_page_id (bp_disk bp)" by blast
  let ?en = "en\<lparr>en_pools := (en_pools en)(oid \<mapsto> b)\<rparr>"
  have "flushable ?en" using Cons.prems(1) bp b by (auto simp: flushable_def)
  moreover have "\<forall>o' \<in> fst ` set bo. en_pools ?en o' \<noteq> None" using Cons.prems(2) by auto
  ultimately obtain en' where "for_each bo (\<lambda>(oid, pids). pool_op oid (FlushPages pids)) ?en = (Inr (), en')" using Cons.IH by blast
  moreover have "pool_op oid (FlushPages S) en = (Inr (), ?en)" using bp b(1) by (simp add: pool_op_def)
  ultimately show ?case using x by (auto simp: bind_op_def)
qed simp

lemma tracked_pools: "tracked en0 tid txn K en \<Longrightarrow> (en_pools en oid = None) = (en_pools en0 oid = None)"
  unfolding tracked_def only_grown_def by blast

lemma Commit_fails_tracked:
  assumes t: "tracked en0 tid txn {} en" and c: "Commit tid txn en = (Inl e, en')"
  shows "tracked en0 tid txn {} en'"
proof -
  let ?bo = "GroupDirtiedPagesByObject (DirtiedPages txn en)"
  let ?log = "bind_op (for_each ?bo (\<lambda>(oid, pids). for_each (sorted_list_of_set pids) (log_update txn oid)))
      (\<lambda>_. bind_op (wal_op (AppendCommit txn)) (\<lambda>commit_lsn. wal_op (FlushThrough commit_lsn)))"
  have k: "ending.keeping en0 tid txn {} ?log (\<lambda>_. {})"
    by (rule ending.keeping_bind ending.keeping_for_each wal_kept | (simp add: case_prod_beta, rule ending.keeping_for_each, rule log_update_kept))+
  have cur: "en_current en tid = Some txn" using t by (simp add: tracked_def)
  have run: "bind_op ?log (\<lambda>_. bind_op (for_each ?bo (\<lambda>(oid, pids). pool_op oid (FlushPages pids))) (\<lambda>_. modify_op (end_transaction tid txn)))
      (clear_observers tid en) = (Inl e, en')"
    using c cur by (simp add: Commit_def GetCurrentTransaction_def Let_def bind_op_assoc)
  then show ?thesis
  proof (cases rule: bind_op_cases)
    case (fail e1)
    then show ?thesis using ending.keepingD [OF k tracked_clear [OF t], of tid] by simp
  next
    case (go u en1)
    then have t1: "tracked en0 tid txn {} en1" using ending.keepingD [OF k tracked_clear [OF t], of tid] by simp
    have "en_pools en1 oid \<noteq> None" if mem: "oid \<in> fst ` set ?bo" for oid
    proof -
      obtain key where key: "key \<in> DirtiedPages txn en" "key_object key = oid" using mem by (auto simp: GroupDirtiedPagesByObject_def)
      then have "cached en key \<noteq> None" using t by (simp add: tracked_def coherent_def)
      then have "en_pools en oid \<noteq> None" using key(2) by (auto simp: cached_def split: option.splits)
      then show ?thesis using tracked_pools [OF t] tracked_pools [OF t1] by simp
    qed
    with flush_loop_ends [OF tracked_flushable [OF t1]] obtain en2 where
      "for_each ?bo (\<lambda>(oid, pids). pool_op oid (FlushPages pids)) en1 = (Inr (), en2)" by blast
    with go(2) show ?thesis by (simp add: bind_op_def)
  qed
qed

lemma Commit_succeeds:
  assumes pok: "pools_ok en" and t: "tracked en0 tid txn {} en" and c: "Commit tid txn en = (Inr u, en')"
  shows "\<exists>w. en' = end_transaction tid txn (flush_txn (DirtiedPages txn en) (clear_observers tid (en\<lparr>en_wal := w\<rparr>)))"
proof -
  let ?D = "DirtiedPages txn en" and ?e0 = "clear_observers tid en"
  have cur: "en_current en tid = Some txn" and dirty: "\<forall>k \<in> ?D. en_dirty en k" using t by (auto simp: tracked_def coherent_def)
  have e0: "?e0\<lparr>en_wal := w\<rparr> = clear_observers tid (en\<lparr>en_wal := w\<rparr>)" for w by (simp add: clear_observers_def)
  have log: "for_each (GroupDirtiedPagesByObject ?D) (\<lambda>(oid, pids). for_each (sorted_list_of_set pids) (log_update txn oid)) ?e0 =
      wal_op (for_each (map (\<lambda>k. (k, en_page en k)) (txn_keys ?D))
        (\<lambda>(k, p). discard_op (AppendUpdate txn (key_object k) (key_page k) p))) ?e0"
    using log_updates_eq [of ?e0 "txn_keys ?D" txn] pok dirty by (simp add: for_each_group)
  have "\<exists>w. for_each (GroupDirtiedPagesByObject ?D) (\<lambda>(oid, pids). pool_op oid (FlushPages pids)) (?e0\<lparr>en_wal := w\<rparr>) = (Inr (), flush_txn ?D (?e0\<lparr>en_wal := w\<rparr>)) \<and>
      en' = end_transaction tid txn (flush_txn ?D (?e0\<lparr>en_wal := w\<rparr>))"
    using c cur log flush_txn_eq [of "?e0\<lparr>en_wal := w\<rparr>" ?D for w] pok dirty
    by (auto simp: Commit_def GetCurrentTransaction_def Let_def bind_op_def wal_op_def split: prod.splits sum.splits)
  then show ?thesis by (auto simp: e0)
qed

section \<open>Contents\<close>

text \<open>An engine without dirty pages shows what its files hold.\<close>

lemma settled_pages:
  assumes "settled en"
  shows "object_pages oid en pid = on_disk en (PageKey oid pid)"
proof (cases "en_pools en oid")
  case (Some bp)
  have ok: "pool_ok bp" using assms Some by (simp add: settled_def pools_ok_def)
  then have "pool_page bp pid = disk_page (bp_disk bp) pid"
    using settled_coherent [OF assms] pool_views [OF Some, of pid] by (auto simp: coherent_def pool_page_def file_page_def split: option.splits if_splits)
  then show ?thesis using ok Some by (simp add: object_pages_def on_disk_def file_page_def en_has_def en_page_def pool_has_def in_file_has pool_ok_def pool_wf_def)
qed (simp add: object_pages_def on_disk_def en_has_def)

lemma restored_settled:
  assumes r: "restored en0 en" and sz: "all_sized en"
  shows "settled en"
proof -
  have co: "coherent (on_disk en) (cached en) (en_dirty en) {} {}" using r by (simp add: restored_def)
  have "pool_ok bp" if bp: "en_pools en oid = Some bp" for oid bp
  proof -
    have ok: "disk_ok (bp_disk bp)" using sz bp by (auto simp: all_sized_def sized_def)
    have pg: "disk_has (bp_disk bp) pid \<and> p = disk_page (bp_disk bp) pid" if "bp_pages bp pid = Some p" for pid p
      using co pool_views [OF bp, of pid] that ok by (auto simp: coherent_def file_page_def in_file_has split: if_splits)
    have "bp_dirty bp = {}" using co pool_views(3) [OF bp] by (auto simp: coherent_def)
    then show ?thesis using ok pg length_disk_page [OF ok] by (auto simp: pool_ok_def pool_wf_def pool_has_def)
  qed
  then show ?thesis using sz co by (auto simp: settled_def pools_ok_def coherent_def)
qed

lemma stored_mono: "stored m t \<Longrightarrow> (\<And>pid p. m pid = Some p \<Longrightarrow> m' pid = Some p) \<Longrightarrow> stored m' t"
  by (induction t) auto

lemma btree_at_mono:
  assumes "btree_at m es" and "\<And>pid p. m pid = Some p \<Longrightarrow> m' pid = Some p"
  shows "btree_at m' es"
proof -
  have "tree_at m' h t" if "tree_at m h t" for h t using that stored_mono [OF _ assms(2)] by (auto simp: tree_at_def)
  with assms show ?thesis unfolding btree_at_def by blast
qed

lemma page_rows_blank: "page_rows pid blank_page = []"
  by (simp add: page_rows_def blank_fields)

lemma restored_heap:
  assumes s0: "settled en0" and r: "restored en0 en" and s: "settled en" and ok: "heap_ok oid en0"
  shows "heap_ok oid en" and "heap_rows oid en = heap_rows oid en0"
proof -
  have og: "only_grown en0 en" using r by (simp add: restored_def)
  then obtain news where news: "new_heap_pages en0 en oid news" unfolding only_grown_def by blast
  note pg0 = settled_pages [OF s0] and pg = settled_pages [OF s]
  have ids: "heap_page_ids oid en = heap_page_ids oid en0 @ news" using news by (simp add: new_heap_pages_def)
  have old: "object_pages oid en pid = object_pages oid en0 pid" if "pid \<in> set (heap_page_ids oid en0)" for pid
    using ok og that unfolding heap_ok_pages only_grown_def pg pg0 by fastforce
  have new: "object_pages oid en pid = Some blank_page" if "pid \<in> set news" for pid
    using news og that unfolding new_heap_pages_def only_grown_def pg by fastforce
  have dist: "distinct (heap_page_ids oid en0 @ news)"
    using ok news unfolding heap_ok_pages new_heap_pages_def pg0 by fastforce
  show hok: "heap_ok oid en" unfolding heap_ok_pages ids
    using dist old new ok og s by (auto simp: heap_ok_pages settled_def only_grown_def page_ok_def)
  have "rows_of (object_pages oid en) news = []" using new by (induction news) (auto simp: page_rows_blank)
  moreover have "rows_of (object_pages oid en) (heap_page_ids oid en0) = rows_of (object_pages oid en0) (heap_page_ids oid en0)"
    unfolding rows_of_def using old by (intro arg_cong [where f = concat] map_cong) auto
  ultimately show "heap_rows oid en = heap_rows oid en0" by (simp add: heap_rows_pages [OF hok] heap_rows_pages [OF ok] ids rows_of_def)
qed

text \<open>\<open>stores\<close> depends on the pages and the page lists only.\<close>

lemma stores_transfer:
  assumes st: "stores db D" and p: "pools_ok en"
    and heap: "\<And>oid. heap_ok oid (db_engine db) \<Longrightarrow> heap_ok oid en \<and> heap_rows oid en = heap_rows oid (db_engine db)"
    and index: "\<And>oid es. index_at (db_engine db) oid es \<Longrightarrow> index_at en oid es"
  shows "stores (db\<lparr>db_engine := en\<rparr>) D"
proof -
  have "heap_stores en t rows" if "heap_stores (db_engine db) t rows" for t rows using that heap by (auto simp: heap_stores_def)
  moreover have "index_stores en t rows idx" if "index_stores (db_engine db) t rows idx" for t rows idx using that index by (auto simp: index_stores_def)
  ultimately show ?thesis using st p by (auto simp: stores_def)
qed

lemma stores_restored:
  assumes st: "stores db D" and s0: "settled (db_engine db)" and r: "restored (db_engine db) en" and sz: "all_sized en"
  shows "stores (db\<lparr>db_engine := en\<rparr>) D"
proof (rule stores_transfer [OF st])
  have s: "settled en" by (rule restored_settled [OF r sz])
  then show "pools_ok en" by (simp add: settled_def)
  show "heap_ok oid en \<and> heap_rows oid en = heap_rows oid (db_engine db)" if "heap_ok oid (db_engine db)" for oid
    using restored_heap [OF s0 r s that] by simp
  have "object_pages oid en pid = Some p" if "object_pages oid (db_engine db) pid = Some p" for oid pid p
    using r that unfolding settled_pages [OF s] settled_pages [OF s0] restored_def only_grown_def by blast
  moreover have "(en_pools en oid = None) = (en_pools (db_engine db) oid = None)" for oid
    using r unfolding restored_def only_grown_def by blast
  ultimately show "index_at en oid es" if "index_at (db_engine db) oid es" for oid es
    using that btree_at_mono [of "object_pages oid (db_engine db)" es "object_pages oid en"] \<open>pools_ok en\<close> by (simp add: index_at_def)
qed

lemma stores_same_pages:
  assumes st: "stores db D" and p: "pools_ok en" and pg: "\<And>oid. object_pages oid en = object_pages oid (db_engine db)"
    and h: "en_heaps en = en_heaps (db_engine db)" and pools: "\<And>oid. (en_pools en oid = None) = (en_pools (db_engine db) oid = None)"
  shows "stores (db\<lparr>db_engine := en\<rparr>) D"
proof (rule stores_transfer [OF st p])
  have ids: "heap_page_ids oid en = heap_page_ids oid (db_engine db)" for oid by (simp add: heap_page_ids_def h)
  show "heap_ok oid en \<and> heap_rows oid en = heap_rows oid (db_engine db)" if ok: "heap_ok oid (db_engine db)" for oid
  proof -
    have hok: "heap_ok oid en" using ok p pools by (simp add: heap_ok_pages ids pg)
    then show ?thesis using heap_rows_pages [OF hok] heap_rows_pages [OF ok] by (simp add: ids pg)
  qed
  show "index_at en oid es" if "index_at (db_engine db) oid es" for oid es using that p pools by (simp add: index_at_def pg)
qed

end
