(* ===== verification/Statement_Atomicity.thy ===== *)
theory Statement_Atomicity
  imports Rollback
begin

text \<open>
  Statements are atomic: a statement that runs in its own transaction and fails, wherever it fails, leaves the
  contents of every table as they were.
\<close>

section \<open>Statements respect the transaction\<close>

definition running_db :: "database \<Rightarrow> thread_id \<Rightarrow> TxnId \<Rightarrow> PageKey set \<Rightarrow> database \<Rightarrow> bool" where
  "running_db db0 tid txn K db \<longleftrightarrow> running (db_engine db0) tid txn K (db_engine db) \<and> db = db0\<lparr>db_engine := db_engine db\<rparr>"

definition tracked_db :: "database \<Rightarrow> thread_id \<Rightarrow> TxnId \<Rightarrow> database \<Rightarrow> bool" where
  "tracked_db db0 tid txn db \<longleftrightarrow> tracked (db_engine db0) tid txn {} (db_engine db) \<and> db = db0\<lparr>db_engine := db_engine db\<rparr>"

interpretation stmt: kept_state "running_db db0 tid txn" "tracked_db db0 tid txn" for db0 tid txn
  by unfold_locales (use txn.forget txn.thrown in \<open>auto simp: running_db_def tracked_db_def\<close>)

lemma engine_op_kept:
  assumes "txn.keeping (db_engine db0) tid txn K f A"
  shows "stmt.keeping db0 tid txn K (engine_op f) A"
proof (rule stmt.keepingI)
  fix db assume r: "running_db db0 tid txn K db"
  then have e: "db\<lparr>db_engine := en\<rparr> = db0\<lparr>db_engine := en\<rparr>" for en
    unfolding running_db_def by (metis database.surjective database.update_convs(2))
  have "running (db_engine db0) tid txn K (db_engine db)" using r by (simp add: running_db_def)
  from txn.keepingD [OF assms this]
  show "case engine_op f db of (Inl _, db') \<Rightarrow> tracked_db db0 tid txn db' | (Inr x, db') \<Rightarrow> running_db db0 tid txn (A x) db'"
    by (auto simp: engine_op_def e running_db_def tracked_db_def split: prod.splits sum.splits)
qed

lemma same_kept:
  assumes "\<And>db. snd (f db) = db"
  shows "stmt.keeping db0 tid txn K f (\<lambda>_. K)"
proof (rule stmt.keepingI)
  fix db assume "running_db db0 tid txn K db"
  then show "case f db of (Inl _, db') \<Rightarrow> tracked_db db0 tid txn db' | (Inr x, db') \<Rightarrow> running_db db0 tid txn K db'"
    using assms [of db] stmt.thrown by (auto split: prod.splits sum.splits)
qed

lemma lookups_kept:
  "stmt.keeping db0 tid txn K (lift_sum r) (\<lambda>_. K)" "stmt.keeping db0 tid txn K get_op (\<lambda>_. K)"
  "stmt.keeping db0 tid txn K (GetIndex oid) (\<lambda>_. K)" "stmt.keeping db0 tid txn K (GetIndexByName n) (\<lambda>_. K)"
  "stmt.keeping db0 tid txn K (GetHeapFileForTable t) (\<lambda>_. K)" "stmt.keeping db0 tid txn K (deref p) (\<lambda>_. K)"
  by (rule same_kept; auto simp: lift_sum_def GetIndex_def GetIndexByName_def GetHeapFileForTable_def GetHeapFile_def deref_def split: option.split)+

lemmas storage_kept = HeapFile_Scan_kept HeapFile_GetRow_kept HeapFile_Insert_kept HeapFile_Delete_kept
  tree_pages.Search_keeping tree_pages.Insert_keeping tree_pages.Delete_keeping

lemmas stmt_rules = stmt.keeping_done stmt.keeping_throw stmt.keeping_bind stmt.keeping_if stmt.keeping_option
  lookups_kept storage_kept [THEN engine_op_kept] stmt.keeping_discard stmt.keeping_for_each

abbreviation undoable :: "database \<Rightarrow> thread_id \<Rightarrow> TxnId \<Rightarrow> (database, 'a) operation \<Rightarrow> bool" where
  "undoable db0 tid txn f \<equiv> stmt.keeping db0 tid txn {} f (\<lambda>_. {})"

lemma fetch_rows_kept: "undoable db0 tid txn (fetch_rows tid heap rids)"
proof (induction rids)
  case (Cons rid rids)
  show ?case unfolding fetch_rows.simps by (rule stmt_rules Cons)+
qed (simp only: fetch_rows.simps stmt.keeping_done)

lemma FetchCandidateRows_kept: "undoable db0 tid txn (FetchCandidateRows tid access)"
  unfolding FetchCandidateRows_def by (rule stmt_rules fetch_rows_kept)+

lemma indexes_kept:
  "undoable db0 tid txn (InsertIntoAllIndexes tid c t vals rid)" "undoable db0 tid txn (DeleteFromAllIndexes tid c t vals rid)"
  unfolding InsertIntoAllIndexes_def DeleteFromAllIndexes_def by (rule stmt_rules)+

lemma checks_kept:
  "undoable db0 tid txn (CheckPrimaryKeyUniqueness tid c t vals)" "undoable db0 tid txn (check_other_rows tid pk i S vals)"
  unfolding CheckPrimaryKeyUniqueness_def check_other_rows_def by (rule stmt_rules)+

lemma ValidateUpdateBatch_kept: "undoable db0 tid txn (ValidateUpdateBatch tid c t matched nv nb)"
  unfolding ValidateUpdateBatch_def by (rule stmt_rules checks_kept)+

lemma ExecuteInsert_kept: "undoable db0 tid txn (ExecuteInsert tid s)"
  unfolding ExecuteInsert_def by (rule stmt_rules checks_kept indexes_kept)+

lemma delete_rows_kept: "undoable db0 tid txn (delete_rows tid c t residual heap n rows)"
proof (induction rows arbitrary: n)
  case (Cons row rows)
  show ?case unfolding delete_rows.simps by (rule stmt_rules indexes_kept Cons)+
qed (simp only: delete_rows.simps stmt.keeping_done)

lemma ExecuteDelete_kept: "undoable db0 tid txn (ExecuteDelete tid s)"
  unfolding ExecuteDelete_def by (rule stmt_rules FetchCandidateRows_kept delete_rows_kept)+

lemma rewrite_rows_kept: "undoable db0 tid txn (rewrite_rows tid c t heap us)"
proof (induction us)
  case (Cons u us)
  show ?case unfolding rewrite_rows.simps by (rule stmt_rules indexes_kept Cons)+
qed (simp only: rewrite_rows.simps stmt.keeping_done)

lemma ExecuteUpdate_kept: "undoable db0 tid txn (ExecuteUpdate tid s)"
  unfolding ExecuteUpdate_def Let_def by (rule stmt_rules FetchCandidateRows_kept ValidateUpdateBatch_kept rewrite_rows_kept)+

lemma inner_candidates_kept: "undoable db0 tid txn (inner_candidates tid jp heap index rows vals i)"
  unfolding inner_candidates_def by (rule stmt_rules fetch_rows_kept)+

lemma join_outer_kept: "undoable db0 tid txn (join_outer tid ot it plan jp i j heap index seq rows)"
proof (induction rows)
  case (Cons row rows)
  show ?case unfolding join_outer.simps by (rule stmt_rules inner_candidates_kept Cons)+
qed (simp only: join_outer.simps stmt.keeping_done)

lemma ExecuteSelect_kept: "undoable db0 tid txn (ExecuteSelect tid s)"
proof -
  have single: "undoable db0 tid txn (ExecuteSelectSingleTable tid plan access)" for plan access
    unfolding ExecuteSelectSingleTable_def Let_def by (rule stmt_rules FetchCandidateRows_kept)+
  have join: "undoable db0 tid txn (ExecuteSelectJoin tid plan jp)" for plan jp
    unfolding ExecuteSelectJoin_def Let_def case_prod_beta by (simp split: option.split, intro conjI allI impI; (rule stmt_rules FetchCandidateRows_kept join_outer_kept)+)
  show ?thesis unfolding ExecuteSelect_def
    by (rule stmt.keeping_bind [OF lookups_kept(2)], rule stmt.keeping_bind [OF lookups_kept(1)]) (simp add: single join split: access_plan.split)
qed

section \<open>Statements in their own transaction\<close>

definition data_statement :: "Statement \<Rightarrow> bool" where
  "data_statement stmt \<longleftrightarrow> (case stmt of Insert_stmt _ \<Rightarrow> True | Select_stmt _ \<Rightarrow> True | Update_stmt _ \<Rightarrow> True | Delete_stmt _ \<Rightarrow> True | _ \<Rightarrow> False)"

lemma statement_kept: "data_statement stmt \<Longrightarrow> undoable db0 tid txn (ExecuteInCurrentTransaction tid stmt)"
  by (cases stmt) (simp_all add: data_statement_def ExecuteInsert_kept ExecuteSelect_kept ExecuteUpdate_kept ExecuteDelete_kept)

text \<open>The state within the transaction of a statement has the contents from before it.\<close>

lemma set_observer_pool [simp]:
  "pool_ok (SetActiveTransactionObserver tid obs bp) = pool_ok bp" "pool_has (SetActiveTransactionObserver tid obs bp) = pool_has bp"
  "pool_page (SetActiveTransactionObserver tid obs bp) = pool_page bp"
  by (simp_all add: SetActiveTransactionObserver_def pool_ok_def pool_wf_def fun_eq_iff)

lemma set_observers_pages:
  "pools_ok en \<Longrightarrow> pools_ok (set_observers tid txn en)" "object_pages oid (set_observers tid txn en) = object_pages oid en"
  by (auto simp: set_observers_def pools_ok_def object_pages_def en_has_def en_page_def fun_eq_iff split: option.splits)

lemma object_pages_pools: "en_pools en' = en_pools en \<Longrightarrow> object_pages oid en' = object_pages oid en"
  by (simp add: object_pages_def en_has_def en_page_def fun_eq_iff)

lemma Begin_stores:
  assumes st: "stores db D" and b: "Begin tid (db_engine db) = (Inr txn, en1)"
  shows "stores (db\<lparr>db_engine := en1\<rparr>) D"
proof -
  from b obtain w where en1: "en1 = set_observers tid txn (SetCurrentTransactionForThisThread tid (Some txn)
      ((db_engine db)\<lparr>en_next_txn := en_next_txn (db_engine db) + 1, en_wal := w, en_active := (en_active (db_engine db))(txn \<mapsto> {})\<rparr>))"
    by (auto simp: Begin_def Let_def bind_op_def wal_op_def split: if_splits prod.splits sum.splits)
  show ?thesis
  proof (rule stores_same_pages [OF st])
    have "pools_ok (db_engine db)" using st by (simp add: stores_def)
    then show "pools_ok en1" unfolding en1 by (intro set_observers_pages(1)) (simp add: SetCurrentTransactionForThisThread_def pools_ok_def)
    show "object_pages oid en1 = object_pages oid (db_engine db)" for oid
      unfolding en1 set_observers_pages by (rule object_pages_pools) (simp add: SetCurrentTransactionForThisThread_def)
  qed (simp_all add: en1 SetCurrentTransactionForThisThread_def set_observers_def)
qed

lemma flush_set_sized: "pool_ok bp \<Longrightarrow> sized (bp_disk bp) \<Longrightarrow> sized (bp_disk (flush_set S bp))"
proof -
  assume ok: "pool_ok bp" and sz: "sized (bp_disk bp)"
  have "next_page_id (bp_disk (fold flushed pids b)) = next_page_id (bp_disk b) \<and> disk_capacity (bp_disk (fold flushed pids b)) = disk_capacity (bp_disk b)" for pids b
    by (induction pids arbitrary: b) (simp_all add: flushed_def)
  moreover have "disk_ok (bp_disk (flush_set S bp))" using flush_set_ok [OF ok, of S] by (simp add: pool_ok_def pool_wf_def)
  ultimately show ?thesis using sz by (simp add: sized_def disk_ok_def flush_set_def)
qed

lemma Commit_settles:
  assumes pok: "pools_ok en" and r: "running en0 tid txn {} en" and c: "Commit tid txn en = (Inr u, en')"
  shows "settled en'" and "\<And>oid. object_pages oid en' = object_pages oid en" and "en_heaps en' = en_heaps en"
    and "\<And>oid. (en_pools en' oid = None) = (en_pools en oid = None)" and "en_current en' tid = None"
proof -
  let ?D = "DirtiedPages txn en"
  have t: "tracked en0 tid txn {} en" using r by (simp add: running_def)
  from Commit_succeeds [OF pok t c] obtain w where en': "en' = end_transaction tid txn (flush_txn ?D (clear_observers tid (en\<lparr>en_wal := w\<rparr>)))" by blast
  let ?e = "clear_observers tid (en\<lparr>en_wal := w\<rparr>)"
  have p: "pools_ok ?e" using pok by simp
  note v = flush_txn_views [OF p, where D = ?D]
  have "\<not> en_dirty en' k" for k using v(3) t by (auto simp: en' tracked_def coherent_def)
  moreover have "all_sized en'"
  proof -
    have "sized (bp_disk bp)" if "en_pools ?e oid = Some bp" for oid bp
      using that running_pool [OF r] by (auto simp: clear_observers_def)
    then show ?thesis using p flush_set_sized by (auto simp: all_sized_def en' flush_txn_def pools_ok_def)
  qed
  ultimately show "settled en'" using v(1) by (simp add: settled_def en')
  show "object_pages oid en' = object_pages oid en" for oid
    using v(2,4) by (auto simp: fun_eq_iff en' object_pages_def)
  show "en_heaps en' = en_heaps en" "en_current en' tid = None" by (simp_all add: en' end_transaction_def SetCurrentTransactionForThisThread_def)
  show "(en_pools en' oid = None) = (en_pools en oid = None)" for oid by (simp add: en' flush_txn_def clear_observers_def)
qed

text \<open>Statements open no files and drop none.\<close>

definition same_objects :: "database \<Rightarrow> database \<Rightarrow> bool" where
  "same_objects db db' \<longleftrightarrow>
     db_catalog db' = db_catalog db \<and> db_objects db' = db_objects db \<and> db_files db' = db_files db \<and> db_capacity db' = db_capacity db \<and>
     (\<forall>oid. (en_pools (db_engine db') oid = None) = (en_pools (db_engine db) oid = None))"

lemma same_objects_engine:
  "(\<And>oid. (en_pools en oid = None) = (en_pools (db_engine db) oid = None)) \<Longrightarrow> same_objects db (db\<lparr>db_engine := en\<rparr>)"
  by (simp add: same_objects_def)

text \<open>What a statement in its own transaction does, given what it does in an open one.\<close>

lemma autocommit_cases:
  assumes st: "stores db D" and s: "settled (db_engine db)" and data: "data_statement stmt"
  shows "case autocommit tid stmt db of
      (Inl e, db') \<Rightarrow> (\<forall>k p. on_disk (db_engine db) k = Some p \<longrightarrow> on_disk (db_engine db') k = Some p) \<and>
        (all_sized (db_engine db') \<longrightarrow> stores db' D \<and> settled (db_engine db')) \<and> same_objects db db'
    | (Inr res, db') \<Rightarrow> \<exists>txn db1 db2. stores db1 D \<and> running_db db tid txn {} db1 \<and> ExecuteInCurrentTransaction tid stmt db1 = (Inr res, db2) \<and>
        (\<forall>D'. stores db2 D' \<longrightarrow> stores db' D' \<and> settled (db_engine db') \<and> same_objects db db' \<and> en_current (db_engine db') tid = None)"
proof -
  let ?en = "db_engine db"
  obtain b en1 where bg: "Begin tid ?en = (b, en1)" by (cases "Begin tid ?en")
  show ?thesis
  proof (cases b)
    case (Inl e)
    then have "autocommit tid stmt db = (Inl e, db\<lparr>db_engine := en1\<rparr>)" using bg by (simp add: autocommit_def bind_op_def engine_op_def)
    moreover have same: "en_pools en1 = en_pools ?en" "en_heaps en1 = en_heaps ?en" using Begin_fails bg Inl by blast+
    moreover have "restored ?en ?en" using settled_coherent [OF s] only_grown_refl by (simp add: restored_def)
    then have r: "restored ?en en1" using restored_same same by blast
    moreover have "on_disk en1 = on_disk ?en" using same(1) by (simp add: on_disk_def fun_eq_iff)
    ultimately show ?thesis using stores_restored [OF st s r] restored_settled [OF r] same_objects_engine [of en1 db] by simp
  next
    case (Inr txn)
    let ?db1 = "db\<lparr>db_engine := en1\<rparr>"
    have r1: "running_db db tid txn {} ?db1" using Begin_running [OF s bg [unfolded Inr]] by (simp add: running_db_def)
    obtain x db2 where run: "ExecuteInCurrentTransaction tid stmt ?db1 = (x, db2)" by (cases "ExecuteInCurrentTransaction tid stmt ?db1")
    note kept = stmt.keepingD [OF statement_kept [OF data] r1, unfolded run]
    have undo: ?thesis if auto: "autocommit tid stmt db = (case engine_op (Abort tid txn) db3 of (Inl e', db'') \<Rightarrow> (Inl e', db'') | (Inr _, db'') \<Rightarrow> (Inl e, db''))"
      and t: "tracked_db db tid txn db3" for db3 e
    proof -
      obtain y en4 where ab: "Abort tid txn (db_engine db3) = (y, en4)" by (cases "Abort tid txn (db_engine db3)")
      have t3: "tracked ?en tid txn {} (db_engine db3)" and d3: "db3\<lparr>db_engine := en4\<rparr> = db\<lparr>db_engine := en4\<rparr>"
        using t unfolding tracked_db_def by (blast, metis database.surjective database.update_convs(2))
      have r4: "restored ?en en4" by (rule Abort_restored(1) [OF t3 ab])
      have "\<exists>e'. autocommit tid stmt db = (Inl e', db\<lparr>db_engine := en4\<rparr>)" using auto ab d3 by (auto simp: engine_op_def split: sum.splits)
      then show ?thesis using stores_restored [OF st s r4] restored_settled [OF r4] r4 same_objects_engine [of en4 db] by (auto simp: restored_def only_grown_def)
    qed
    show ?thesis
    proof (cases x)
      case (Inl e)
      show ?thesis by (rule undo [where e = e]) (use bg Inr run Inl kept in \<open>simp_all add: autocommit_def bind_op_def engine_op_def\<close>)
    next
      case res: (Inr res)
      then have r2: "running_db db tid txn {} db2" using kept by simp
      then have t2: "tracked ?en tid txn {} (db_engine db2)" and d2: "db2\<lparr>db_engine := en'\<rparr> = db\<lparr>db_engine := en'\<rparr>" for en'
        unfolding running_db_def running_def by (blast, metis database.surjective database.update_convs(2))
      obtain y en3 where com: "Commit tid txn (db_engine db2) = (y, en3)" by (cases "Commit tid txn (db_engine db2)")
      show ?thesis
      proof (cases y)
        case (Inl e)
        have "tracked_db db tid txn (db2\<lparr>db_engine := en3\<rparr>)"
          using Commit_fails_tracked [OF t2, of e en3] com Inl by (simp add: tracked_db_def d2)
        then show ?thesis by (intro undo [where e = e]) (use bg Inr run res com Inl in \<open>simp_all add: autocommit_def bind_op_def engine_op_def\<close>)
      next
        case u: (Inr u)
        have auto: "autocommit tid stmt db = (Inr res, db2\<lparr>db_engine := en3\<rparr>)"
          using bg Inr run res com u by (simp add: autocommit_def bind_op_def engine_op_def)
        have r2e: "running ?en tid txn {} (db_engine db2)" using r2 by (simp add: running_db_def)
        have fin: "stores (db2\<lparr>db_engine := en3\<rparr>) D' \<and> settled en3 \<and> same_objects db (db2\<lparr>db_engine := en3\<rparr>) \<and> en_current en3 tid = None" if st2: "stores db2 D'" for D'
        proof -
          have "pools_ok (db_engine db2)" using st2 by (simp add: stores_def)
          note c = Commit_settles [OF this r2e com [unfolded u]]
          have "stores (db2\<lparr>db_engine := en3\<rparr>) D'" by (rule stores_same_pages [OF st2 _ c(2-4)]) (use c(1) in \<open>simp add: settled_def\<close>)
          moreover have "same_objects db (db2\<lparr>db_engine := en3\<rparr>)"
            unfolding d2 by (rule same_objects_engine) (use c(4) t2 in \<open>simp add: tracked_def only_grown_def\<close>)
          ultimately show ?thesis using c(1,5) by simp
        qed
        then show ?thesis using auto fin Begin_stores [OF st bg [unfolded Inr]] r1 run res by auto
      qed
    qed
  qed
qed

end
