(* ===== verification/Updating.thy ===== *)
theory Updating
  imports Sql_Correctness Statement_Atomicity
begin

text \<open>
  \<open>UPDATE\<close> against the contents of the database. The executor reads and checks the whole batch before it writes:
  every new row fits a page, the new primary keys differ from each other and from those of the rows that stay.
  Then it replaces the rows one by one, so a new row has a new row id. The file sizes kept by the transaction
  (\<open>running_db\<close>) bound the page ids at every step.
\<close>

section \<open>Steps of a transaction\<close>

text \<open>Within a transaction every successful step leaves the transaction running.\<close>

lemma ends_kept:
  assumes "ends mf f db Q'" and "undoable db0 tid txn f" and "running_db db0 tid txn {} db"
    and "\<And>x db'. Q' x db' \<Longrightarrow> running_db db0 tid txn {} db' \<Longrightarrow> Q x db'"
  shows "ends mf f db Q"
  using assms(1,4) stmt.keepingD [OF assms(2,3)] by (auto simp: ends_def split: prod.splits sum.splits)

lemma outcome_kept:
  assumes "outcome E f db Q'" and "undoable db0 tid txn f" and "running_db db0 tid txn {} db"
    and "\<And>x db'. Q' x db' \<Longrightarrow> running_db db0 tid txn {} db' \<Longrightarrow> Q x db'"
  shows "outcome E f db Q"
  using assms(1,4) stmt.keepingD [OF assms(2,3)] by (auto simp: outcome_def split: prod.splits sum.splits)

lemma all_sized_room:
  assumes sz: "all_sized (db_engine db)"
  shows "page_room 40 db"
proof -
  have "card (dom (object_pages oid (db_engine db))) + 40 < 2 ^ 32" for oid
  proof (cases "en_pools (db_engine db) oid")
    case None
    then have "object_pages oid (db_engine db) = Map.empty" by (auto simp: object_pages_def en_has_def)
    then show ?thesis by simp
  next
    case (Some bp)
    then have "sized (bp_disk bp)" using sz by (auto simp: all_sized_def)
    then have "unat (next_page_id (bp_disk bp)) * 4096 < (2 ^ 32 - 40) * 4096" by (auto simp: sized_def disk_ok_def)
    then show ?thesis using card_object_pages [OF Some] by simp
  qed
  then show ?thesis by (simp add: page_room_def)
qed

lemma running_room: "running_db db0 tid txn K db \<Longrightarrow> page_room 40 db"
  by (rule all_sized_room) (simp add: running_db_def running_def)

section \<open>Replacing the rows\<close>

abbreviation with_key :: "TableInfo \<Rightarrow> IndexInfo \<Rightarrow> int64 \<Rightarrow> LiteralValue list list \<Rightarrow> nat" where
  "with_key t idx k vs \<equiv> length (filter (\<lambda>v. index_key t idx v = k) vs)"

lemma fewer_filtered: "length (filter P (filter R xs)) \<le> length (filter P xs)"
  by (induction xs) auto

lemma replace_row_ends:
  assumes st: "stores db D" and t: "FindTable (db_catalog db) n = Some t" and run: "running_db db0 tid txn {} db"
    and row: "(rid, old) \<in> set (D n)" and fits: "row_fits (tab_columns t) new" and len: "length (row_bytes t new) \<le> kMaxRowSize"
    and few: "\<forall>idx \<in> set (IndexesOnTable (db_catalog db) n). with_key t idx (index_key t idx new) (map snd (D n)) < kLeafMaxKeys"
    and Q: "\<And>rid' db'. rid' \<notin> fst ` set (filter (\<lambda>r. fst r \<noteq> rid) (D n)) \<Longrightarrow> db_catalog db' = db_catalog db \<Longrightarrow> running_db db0 tid txn {} db' \<Longrightarrow>
      stores db' (D(n := filter (\<lambda>r. fst r \<noteq> rid) (D n) @ [(rid', new)])) \<Longrightarrow> Q () db'"
  shows "ends page_failure (bind_op (DeleteFromAllIndexes tid (db_catalog db) t old rid) (\<lambda>_.
     bind_op (discard_op (engine_op (HeapFile_Delete tid (tab_heap_object_id t) rid))) (\<lambda>_.
     bind_op (engine_op (HeapFile_Insert tid (tab_heap_object_id t) (row_bytes t new))) (\<lambda>new_rid.
     InsertIntoAllIndexes tid (db_catalog db) t new new_rid)))) db Q"
proof -
  let ?c = "db_catalog db" and ?heap = "tab_heap_object_id t"
  let ?remove = "bind_op (DeleteFromAllIndexes tid ?c t old rid) (\<lambda>_. discard_op (engine_op (HeapFile_Delete tid ?heap rid)))"
  let ?add = "bind_op (engine_op (HeapFile_Insert tid ?heap (row_bytes t new))) (\<lambda>rid'. bind_op (InsertIntoAllIndexes tid ?c t new rid') (\<lambda>_. return_op rid'))"
  let ?D = "D(n := filter (\<lambda>r. fst r \<noteq> rid) (D n))"
  have k1: "undoable db0 tid txn ?remove" by (rule stmt_rules indexes_kept)+
  have k2: "undoable db0 tid txn ?add" by (rule stmt_rules indexes_kept)+
  have "ends page_failure ?remove db (\<lambda>_ db1. db_catalog db1 = ?c \<and> stores db1 ?D)"
    by (rule remove_row_ends [OF st t row]) simp
  then have "ends page_failure ?remove db (\<lambda>_ db1. ends page_failure ?add db1 (\<lambda>_. Q ()))"
  proof (rule ends_kept [OF _ k1 run])
    fix db1 assume s1: "db_catalog db1 = ?c \<and> stores db1 ?D" and r1: "running_db db0 tid txn {} db1"
    have room: "page_room 40 db1" by (rule running_room [OF r1])
    have le: "length (filter (\<lambda>r. index_key t idx (snd r) = k) (?D n)) \<le> with_key t idx k (map snd (D n))" for idx k
      using fewer_filtered [of "\<lambda>r. index_key t idx (snd r) = k" "\<lambda>r. fst r \<noteq> rid" "D n"] by (simp add: filter_map comp_def)
    have few1: "\<forall>idx \<in> set (IndexesOnTable (db_catalog db1) n). length (filter (\<lambda>r. index_key t idx (snd r) = index_key t idx new) (?D n)) < kLeafMaxKeys"
    proof
      fix idx assume "idx \<in> set (IndexesOnTable (db_catalog db1) n)"
      then have "with_key t idx (index_key t idx new) (map snd (D n)) < kLeafMaxKeys" using few s1 by simp
      with le show "length (filter (\<lambda>r. index_key t idx (snd r) = index_key t idx new) (?D n)) < kLeafMaxKeys" by (rule le_less_trans)
    qed
    have t1: "FindTable (db_catalog db1) n = Some t" using t s1 by simp
    have "ends page_failure (bind_op (engine_op (HeapFile_Insert tid ?heap (row_bytes t new)))
        (\<lambda>rid'. bind_op (InsertIntoAllIndexes tid (db_catalog db1) t new rid') (\<lambda>_. return_op rid'))) db1
        (\<lambda>rid' db'. rid' \<notin> fst ` set (?D n) \<and> db_catalog db' = db_catalog db1 \<and> stores db' (?D(n := ?D n @ [(rid', new)])))"
      by (rule add_row_ends [OF conjunct2 [OF s1] t1 fits len room few1]) blast
    then have "ends page_failure ?add db1 (\<lambda>rid' db'. rid' \<notin> fst ` set (?D n) \<and> db_catalog db' = ?c \<and> stores db' (?D(n := ?D n @ [(rid', new)])))"
      unfolding conjunct1 [OF s1] .
    then show "ends page_failure ?add db1 (\<lambda>_. Q ())"
      by (rule ends_kept [OF _ k2 r1]) (use Q in \<open>simp only: fun_upd_same fun_upd_upd, blast\<close>)
  qed
  then show ?thesis by (simp add: InsertIntoAllIndexes_def)
qed

lemma rewrite_rows_ends:
  assumes "stores db D" and "FindTable (db_catalog db) n = Some t" and "running_db db0 tid txn {} db"
    and "set (map fst us) \<subseteq> set (D n)" and "distinct (map (fst \<circ> fst) us)"
    and "\<forall>u \<in> set us. snd (snd u) = row_bytes t (fst (snd u)) \<and> row_fits (tab_columns t) (fst (snd u)) \<and> length (snd (snd u)) \<le> kMaxRowSize"
    and "\<forall>idx \<in> set (IndexesOnTable (db_catalog db) n). \<forall>k. with_key t idx k (map snd (D n)) + with_key t idx k (map (fst \<circ> snd) us) \<le> kLeafMaxKeys"
    and "\<And>rows' db'. map snd rows' = map (fst \<circ> snd) us \<Longrightarrow> db_catalog db' = db_catalog db \<Longrightarrow>
      stores db' (D(n := filter (\<lambda>r. fst r \<notin> (fst \<circ> fst) ` set us) (D n) @ rows')) \<Longrightarrow> Q () db'"
  shows "ends page_failure (rewrite_rows tid (db_catalog db) t (tab_heap_object_id t) us) db Q"
  using assms
proof (induction us arbitrary: db D)
  case Nil
  then show ?case by (simp add: fun_upd_idem)
next
  case (Cons u us)
  let ?c = "db_catalog db" and ?heap = "tab_heap_object_id t" and ?rid = "fst (fst u)" and ?old = "snd (fst u)" and ?new = "fst (snd u)"
  have u: "(?rid, ?old) \<in> set (D n)" "snd (snd u) = row_bytes t ?new" "row_fits (tab_columns t) ?new" "length (row_bytes t ?new) \<le> kMaxRowSize"
    using Cons.prems(4,6) by auto
  have few: "\<forall>idx \<in> set (IndexesOnTable ?c n). with_key t idx (index_key t idx ?new) (map snd (D n)) < kLeafMaxKeys"
  proof
    fix idx assume "idx \<in> set (IndexesOnTable ?c n)"
    then have "with_key t idx (index_key t idx ?new) (map snd (D n)) + with_key t idx (index_key t idx ?new) (map (fst \<circ> snd) (u # us)) \<le> kLeafMaxKeys"
      using Cons.prems(7) by blast
    then show "with_key t idx (index_key t idx ?new) (map snd (D n)) < kLeafMaxKeys" by simp
  qed
  have "ends page_failure (bind_op (DeleteFromAllIndexes tid ?c t ?old ?rid) (\<lambda>_.
     bind_op (discard_op (engine_op (HeapFile_Delete tid ?heap ?rid))) (\<lambda>_.
     bind_op (engine_op (HeapFile_Insert tid ?heap (row_bytes t ?new))) (\<lambda>new_rid.
     InsertIntoAllIndexes tid ?c t ?new new_rid)))) db (\<lambda>_ db1. ends page_failure (rewrite_rows tid ?c t ?heap us) db1 Q)"
  proof (rule replace_row_ends [OF Cons.prems(1-3) u(1,3,4) few])
    fix rid' db1
    let ?rows = "filter (\<lambda>r. fst r \<noteq> ?rid) (D n)"
    let ?D = "D(n := ?rows @ [(rid', ?new)])"
    assume rid': "rid' \<notin> fst ` set ?rows" and c1: "db_catalog db1 = ?c" and r1: "running_db db0 tid txn {} db1" and st1: "stores db1 ?D"
    have later: "fst u' \<in> set ?rows" if "u' \<in> set us" for u' using that Cons.prems(4,5) by (auto simp: image_iff)
    then have out: "rid' \<notin> (fst \<circ> fst) ` set us" using rid' by (auto simp: image_iff) (metis fst_conv surjective_pairing)
    have "ends page_failure (rewrite_rows tid (db_catalog db1) t ?heap us) db1 Q"
    proof (rule Cons.IH [OF st1 _ r1])
      show "set (map fst us) \<subseteq> set (?D n)" using later by auto
      show "\<forall>idx \<in> set (IndexesOnTable (db_catalog db1) n). \<forall>k. with_key t idx k (map snd (?D n)) + with_key t idx k (map (fst \<circ> snd) us) \<le> kLeafMaxKeys"
      proof (intro ballI allI)
        fix idx k assume "idx \<in> set (IndexesOnTable (db_catalog db1) n)"
        then have "with_key t idx k (map snd (D n)) + with_key t idx k (map (fst \<circ> snd) (u # us)) \<le> kLeafMaxKeys" using Cons.prems(7) unfolding c1 by blast
        then show "with_key t idx k (map snd (?D n)) + with_key t idx k (map (fst \<circ> snd) us) \<le> kLeafMaxKeys"
          using fewer_filtered [of "\<lambda>r. index_key t idx (snd r) = k" "\<lambda>r. fst r \<noteq> ?rid" "D n"] by (simp add: filter_map comp_def split: if_splits)
      qed
      show "Q () db'" if rows: "map snd rows' = map (fst \<circ> snd) us" and c': "db_catalog db' = db_catalog db1"
        and st': "stores db' (?D(n := filter (\<lambda>r. fst r \<notin> (fst \<circ> fst) ` set us) (?D n) @ rows'))" for rows' db'
      proof (rule Cons.prems(8))
        have "filter (\<lambda>r. fst r \<notin> (fst \<circ> fst) ` set us) (?D n) @ rows' = filter (\<lambda>r. fst r \<notin> (fst \<circ> fst) ` set (u # us)) (D n) @ ((rid', ?new) # rows')"
          using out by (simp add: conj_commute)
        then show "stores db' (D(n := filter (\<lambda>r. fst r \<notin> (fst \<circ> fst) ` set (u # us)) (D n) @ ((rid', ?new) # rows')))" using st' by simp
      qed (use rows c' c1 in auto)
    qed (use Cons.prems c1 in auto)
    then show "ends page_failure (rewrite_rows tid ?c t ?heap us) db1 Q" by (simp add: c1)
  qed
  then show ?case by (simp add: u(2))
qed

section \<open>The assignments\<close>

definition set_columns :: "TableInfo \<Rightarrow> Assignment list \<Rightarrow> LiteralValue list \<Rightarrow> LiteralValue list" where
  "set_columns t asgs vals =
     map2 (\<lambda>c v. fold (\<lambda>a x. if asg_column_name a = col_name c then asg_value a else x) asgs v) (tab_columns t) vals"

definition valid_assignment :: "TableInfo \<Rightarrow> Assignment \<Rightarrow> bool" where
  "valid_assignment t a \<longleftrightarrow> (\<exists>col. FindColumn t (asg_column_name a) = Some col \<and> value_fits col (asg_value a))"

lemma map2_set_columns:
  "length vals = length cs \<Longrightarrow> map2 f cs (map2 g cs vals) = map2 (\<lambda>c v. f c (g c v)) cs vals"
  by (induction vals cs rule: list_induct2) simp_all

lemma map2_second: "length vals = length cs \<Longrightarrow> map2 (\<lambda>_ v. v) cs vals = vals"
  by (induction vals cs rule: list_induct2) simp_all

lemma set_columns_simps:
  "length vals = length (tab_columns t) \<Longrightarrow> set_columns t [] vals = vals"
  "length vals = length (tab_columns t) \<Longrightarrow> set_columns t (a # asgs) vals = set_columns t asgs (set_columns t [a] vals)"
  unfolding set_columns_def by (simp_all add: map2_set_columns map2_second id_def comp_def)

lemma update_column:
  "column_position cs n k = Some (k + i) \<Longrightarrow> distinct (map col_name cs) \<Longrightarrow> length vals = length cs \<Longrightarrow>
   vals[i := v] = map2 (\<lambda>c x. if n = col_name c then v else x) cs vals"
proof (induction cs arbitrary: k i vals)
  case (Cons c cs)
  from Cons.prems(3) obtain x xs where vals: "vals = x # xs" "length xs = length cs" by (cases vals) auto
  have ge: "column_position ds n j = Some p \<Longrightarrow> j \<le> p" for ds j p by (induction ds arbitrary: j) (auto split: if_splits, fastforce)
  show ?case
  proof (cases "col_name c = n")
    case True
    then have "map2 (\<lambda>c x. if n = col_name c then v else x) cs xs = map2 (\<lambda>_ x. x) cs xs"
      using Cons.prems(2) True by (intro map_cong) (auto, metis image_eqI set_zip_leftD)
    with True Cons.prems(1) vals show ?thesis by (simp add: map2_second)
  next
    case False
    then have p: "column_position cs n (Suc k) = Some (k + i)" using Cons.prems(1) by simp
    then obtain j where "i = Suc j" using ge by (metis Suc_le_eq add_0_right le_add1 nat_add_left_cancel_less old.nat.exhaust not_less_zero less_irrefl)
    with False p Cons.IH [of "Suc k" j xs] Cons.prems(2) vals show ?thesis by auto
  qed
qed simp

lemma ColumnIndex_exists: "FindColumn t k = Some col \<Longrightarrow> \<exists>i. ColumnIndex t k = Inr i"
proof -
  assume f: "FindColumn t k = Some col"
  have "find_column cs k = Some col \<Longrightarrow> column_position cs k j \<noteq> None" for cs j
    by (induction cs arbitrary: j) (auto simp: find_column_def split: if_splits)
  then show ?thesis using f by (fastforce simp: ColumnIndex_def RequireColumn_def FindColumn_def split: option.splits)
qed

lemma index_column_index:
  assumes c: "catalog_ok c" and t: "FindTable c n = Some t" and idx: "idx \<in> set (IndexesOnTable c n)"
  shows "\<exists>i. ColumnIndex t (idx_column_name idx) = Inr i"
proof -
  have "idx \<in> set (cat_indexes c)" "idx_table_name idx = n" using idx by (auto simp: IndexesOnTable_def)
  then obtain t' where t': "t' \<in> set (cat_tables c)" "tab_name t' = n" "integer_column t' (idx_column_name idx)"
    using c by (auto simp: catalog_ok_def list_all_iff index_ok_def)
  with FindTable_ok [OF c t'(1)] t have "t' = t" by simp
  with t'(3) show ?thesis using ColumnIndex_exists by (auto simp: integer_column_def split: option.splits)
qed

lemma resolve_cases:
  assumes "literal_ok (asg_value a)" and "table_ok t"
  shows "valid_assignment t a \<and> (\<exists>i. resolve_assignment t a = Inr i) \<or>
    \<not> valid_assignment t a \<and> (\<exists>m. resolve_assignment t a = Inl (Sql_semantic_error m))"
proof (cases "FindColumn t (asg_column_name a)")
  case None
  then show ?thesis by (simp add: valid_assignment_def resolve_assignment_def RequireColumn_def)
next
  case (Some col)
  obtain i where "ColumnIndex t (asg_column_name a) = Inr i" using ColumnIndex_exists [OF Some] by blast
  moreover have "RequireLiteralMatchesColumn t col (asg_value a) = Inr () \<or> RequireLiteralMatchesColumn t col (asg_value a) = Inl (Sql_semantic_error ''literal kind'')"
    by (simp add: RequireLiteralMatchesColumn_def)
  ultimately show ?thesis using Some literal_fits [OF assms(1), of t col]
    by (auto simp: valid_assignment_def resolve_assignment_def RequireColumn_def)
qed

lemma resolve_all_cases:
  assumes "\<forall>a \<in> set asgs. literal_ok (asg_value a)" and "table_ok t"
  shows "list_all (valid_assignment t) asgs \<and> (\<exists>cols. map_sum_list (resolve_assignment t) asgs = Inr cols) \<or>
    \<not> list_all (valid_assignment t) asgs \<and> (\<exists>m. map_sum_list (resolve_assignment t) asgs = Inl (Sql_semantic_error m))"
  using assms(1)
proof (induction asgs)
  case (Cons a asgs)
  then show ?case using resolve_cases [of a t] assms(2) by auto
qed simp

lemma resolve_sets:
  assumes "resolve_assignment t a = Inr i" and "table_ok t" and "length vals = length (tab_columns t)"
  shows "vals[i := asg_value a] = set_columns t [a] vals"
proof -
  have "column_position (tab_columns t) (asg_column_name a) 0 = Some (0 + i)"
    using assms(1) by (auto simp: resolve_assignment_def ColumnIndex_def bind_sum_Inr split: option.splits)
  from update_column [OF this _ assms(3)] assms(2) show ?thesis by (simp add: set_columns_def table_ok_def)
qed

lemma assign_values_sets:
  assumes "map_sum_list (resolve_assignment t) asgs = Inr cols" and "table_ok t" and "length vals = length (tab_columns t)"
  shows "assign_values (zip cols (map asg_value asgs)) vals = set_columns t asgs vals"
  using assms(1,3)
proof (induction asgs arbitrary: cols vals)
  case Nil
  then show ?case by (simp add: assign_values_def set_columns_simps(1))
next
  case (Cons a asgs)
  then obtain i is' where cols: "cols = i # is'" "resolve_assignment t a = Inr i" "map_sum_list (resolve_assignment t) asgs = Inr is'"
    by (auto simp: bind_sum_Inr)
  have "assign_values (zip is' (map asg_value asgs)) (vals[i := asg_value a]) = set_columns t asgs (vals[i := asg_value a])"
    by (rule Cons.IH [OF cols(3)]) (use Cons.prems(2) in simp)
  also have "set_columns t asgs (vals[i := asg_value a]) = set_columns t (a # asgs) vals"
    unfolding resolve_sets [OF cols(2) assms(2) Cons.prems(2)] by (rule set_columns_simps(2) [OF Cons.prems(2), symmetric])
  finally show ?case by (simp add: cols(1) assign_values_def)
qed

lemma set_columns_fits:
  assumes "list_all (valid_assignment t) asgs" and "row_fits (tab_columns t) vals" and "table_ok t"
  shows "row_fits (tab_columns t) (set_columns t asgs vals)"
proof -
  have len: "length vals = length (tab_columns t)" using list_all2_lengthD [OF assms(2)] by simp
  have name: "find_column cs (col_name c) = Some c" if "c \<in> set cs" "distinct (map col_name cs)" for cs c
    using that by (induction cs) (auto simp: find_column_def)
  have "value_fits c (fold (\<lambda>a x. if asg_column_name a = col_name c then asg_value a else x) asgs v)"
    if "value_fits c v" "c \<in> set (tab_columns t)" for c v
    using that assms(1)
  proof (induction asgs arbitrary: v)
    case (Cons a asgs)
    have "value_fits c (asg_value a)" if "asg_column_name a = col_name c"
      using Cons.prems(2,3) that name [of c "tab_columns t"] assms(3) by (auto simp: valid_assignment_def FindColumn_def table_ok_def)
    with Cons show ?case by simp
  qed simp
  with assms(2) len show ?thesis by (auto simp: set_columns_def list_all2_conv_all_nth)
qed

section \<open>Checking the batch\<close>

text \<open>The new rows clash when two of them, or one of them and a row that stays, have the same primary key.\<close>

definition key_clash :: "catalog \<Rightarrow> TableInfo \<Rightarrow> LiteralValue list list \<Rightarrow> LiteralValue list list \<Rightarrow> bool" where
  "key_clash c t stay new \<longleftrightarrow>
     (\<exists>pk. PrimaryKeyIndex c (tab_name t) = Some pk \<and>
        (\<not> distinct (map (index_key t pk) new) \<or> index_key t pk ` set stay \<inter> index_key t pk ` set new \<noteq> {}))"

lemma check_batch_keys_eq:
  assumes "\<forall>v \<in> set vs. \<exists>l. value_at v i = Inr l \<and> lit_int_value l = key v"
  shows "check_batch_keys i seen vs = (if distinct (map key vs) \<and> seen \<inter> key ` set vs = {} then Inr () else Inl duplicate_key)"
  using assms by (induction vs arbitrary: seen) (auto split: if_splits, blast)

lemma check_other_rows_outcome:
  assumes "stores db D" and "FindTable (db_catalog db) n = Some t" and pk: "pk \<in> set (IndexesOnTable (db_catalog db) n)"
    and i: "\<forall>v \<in> set vs. \<exists>l. value_at v i = Inr l \<and> lit_int_value l = index_key t pk v"
    and "\<And>db'. silent db db' \<Longrightarrow> index_key t pk ` snd ` {r \<in> set (D n). fst r \<notin> S} \<inter> index_key t pk ` set vs = {} \<Longrightarrow> Q () db'"
    and "\<And>db'. silent db db' \<Longrightarrow> index_key t pk ` snd ` {r \<in> set (D n). fst r \<notin> S} \<inter> index_key t pk ` set vs \<noteq> {} \<Longrightarrow> E duplicate_key db'"
    and E: "\<And>e db'. page_failure e \<Longrightarrow> E e db'"
  shows "outcome E (for_each vs (check_other_rows tid pk i S)) db Q"
  using assms(1-6)
proof (induction vs arbitrary: db)
  case Nil
  then show ?case using silent_refl by simp
next
  case (Cons v vs)
  let ?key = "index_key t pk" and ?stay = "index_key t pk ` snd ` {r \<in> set (D n). fst r \<notin> S}"
  let ?check = "bind_op (engine_op (BPlusTree_Search (engine_ops tid (idx_object_id pk)) (?key v)))
      (\<lambda>rids. if list_all (\<lambda>rid. rid \<in> S) rids then return_op () else throw_op duplicate_key)"
  obtain l where l: "value_at v i = Inr l" "lit_int_value l = ?key v" using Cons.prems(4) by auto
  have o: "db_objects db (idx_object_id pk) = Some Index_object" using stores_table(6) [OF Cons.prems(1-3)] by simp
  have "outcome E (engine_op (BPlusTree_Search (engine_ops tid (idx_object_id pk)) (?key v))) db
      (\<lambda>rids db1. outcome E (if list_all (\<lambda>rid. rid \<in> S) rids then return_op () else throw_op duplicate_key) db1
        (\<lambda>_ db2. outcome E (for_each vs (check_other_rows tid pk i S)) db2 Q))"
  proof (rule ends_outcome [OF search_ends [OF Cons.prems(1-3)] E])
    fix rids db1 assume s: "silent db db1" and m: "mset rids = mset (map fst (filter (\<lambda>r. ?key (snd r) = ?key v) (D n)))"
    have free: "list_all (\<lambda>rid. rid \<in> S) rids \<longleftrightarrow> ?key v \<notin> ?stay" 
      unfolding list_all_iff mset_eq_setD [OF m] set_map set_filter by (simp add: image_image image_iff) metis
    show "outcome E (if list_all (\<lambda>rid. rid \<in> S) rids then return_op () else throw_op duplicate_key) db1
        (\<lambda>_ db2. outcome E (for_each vs (check_other_rows tid pk i S)) db2 Q)"
    proof (cases "?key v \<in> ?stay")
      case True
      then show ?thesis using free Cons.prems(6) [OF s] by auto
    next
      case False
      have "outcome E (for_each vs (check_other_rows tid pk i S)) db1 Q"
      proof (rule Cons.IH [OF stores_silent [OF Cons.prems(1) s]])
        show "FindTable (db_catalog db1) n = Some t" "pk \<in> set (IndexesOnTable (db_catalog db1) n)"
          using Cons.prems(2,3) silent_catalog [OF s] by simp_all
      qed (use Cons.prems(4-6) False silent_trans [OF s] in simp_all)
      with False free show ?thesis by simp
    qed
  qed
  moreover have "check_other_rows tid pk i S v db = ?check db"
    using l o by (simp add: check_other_rows_def bind_op_def lift_sum_def GetIndex_def deref_def)
  ultimately show ?case by (simp only: for_each.simps outcome_bind outcome_cong [of "check_other_rows tid pk i S v" db ?check])
qed

lemma ValidateUpdateBatch_outcome:
  assumes st: "stores db D" and t: "FindTable (db_catalog db) n = Some t" and fits: "\<forall>v \<in> set new. row_fits (tab_columns t) v"
    and Q: "\<And>db'. silent db db' \<Longrightarrow> \<forall>v \<in> set new. length (row_bytes t v) \<le> kMaxRowSize \<Longrightarrow>
      \<not> key_clash (db_catalog db) t (map snd (filter (\<lambda>r. fst r \<notin> fst ` set matched) (D n))) new \<Longrightarrow> Q () db'"
    and large: "\<exists>v \<in> set new. length (row_bytes t v) > kMaxRowSize \<Longrightarrow> E (Invalid_argument ''HeapFile::Insert'') db"
    and clash: "\<And>db'. silent db db' \<Longrightarrow> \<forall>v \<in> set new. length (row_bytes t v) \<le> kMaxRowSize \<Longrightarrow>
      key_clash (db_catalog db) t (map snd (filter (\<lambda>r. fst r \<notin> fst ` set matched) (D n))) new \<Longrightarrow> E duplicate_key db'"
    and E: "\<And>e db'. page_failure e \<Longrightarrow> E e db'"
  shows "outcome E (ValidateUpdateBatch tid (db_catalog db) t matched new (map (row_bytes t) new)) db Q"
proof (cases "\<forall>v \<in> set new. length (row_bytes t v) \<le> kMaxRowSize")
  case False
  then show ?thesis using large by (auto simp: ValidateUpdateBatch_def list_all_iff not_le)
next
  case sizes: True
  note tn = stores_table(2) [OF st t]
  let ?stay = "map snd (filter (\<lambda>r. fst r \<notin> fst ` set matched) (D n))"
  show ?thesis
  proof (cases "PrimaryKeyIndex (db_catalog db) n")
    case None
    then show ?thesis using Q [OF silent_refl [OF st]] sizes tn by (simp add: ValidateUpdateBatch_def list_all_iff key_clash_def)
  next
    case (Some pk)
    have pk: "pk \<in> set (IndexesOnTable (db_catalog db) n)" by (rule PrimaryKeyIndex_on [OF Some])
    have c: "catalog_ok (db_catalog db)" using st by (simp add: stores_def)
    have i: "ColumnIndex t (idx_column_name pk) = Inr i \<Longrightarrow> \<forall>v \<in> set new. \<exists>l. value_at v i = Inr l \<and> lit_int_value l = index_key t pk v" for i
      using index_column_value [OF c t pk] fits by (metis sum.inject(2))
    have clash_eq: "key_clash (db_catalog db) t ?stay new \<longleftrightarrow> \<not> distinct (map (index_key t pk) new) \<or>
        index_key t pk ` snd ` {r \<in> set (D n). fst r \<notin> fst ` set matched} \<inter> index_key t pk ` set new \<noteq> {}"
      using Some tn by (simp add: key_clash_def)
    obtain i where ci: "ColumnIndex t (idx_column_name pk) = Inr i"
      using index_column_index [OF c t pk] by blast
    have "outcome E (for_each new (check_other_rows tid pk i (fst ` set matched))) db Q" if d: "distinct (map (index_key t pk) new)"
      by (rule check_other_rows_outcome [OF st t pk i [OF ci]]) (use Q clash sizes d clash_eq E in auto)
    moreover have "E duplicate_key db" if "\<not> distinct (map (index_key t pk) new)"
      using that clash [OF silent_refl [OF st] sizes] clash_eq by simp
    ultimately show ?thesis using sizes Some tn ci check_batch_keys_eq [OF i [OF ci], of "{}"]
      by (simp add: ValidateUpdateBatch_def list_all_iff)
  qed
qed

section \<open>UPDATE\<close>

lemma matching_rows_eq:
  "\<forall>r \<in> set rs. row_fits (tab_columns t) (snd r) \<and> MatchesAll t (snd r) residual = Inr (W (snd r)) \<Longrightarrow>
   matching_rows t residual (map (stored_row t) rs) = Inr (filter (W \<circ> snd) rs)"
  by (induction rs) (simp_all add: stored_row_def DecodeRow_stored)

lemma EncodeRows: "\<forall>v \<in> set vs. row_fits (tab_columns t) v \<Longrightarrow> map_sum_list (EncodeRow (tab_columns t)) vs = Inr (map (row_bytes t) vs)"
proof (induction vs)
  case (Cons v vs)
  then have "length v = length (tab_columns t)" using list_all2_lengthD [of value_fits "tab_columns t" v] by simp
  then show ?case using Cons by (simp add: EncodeRow_stored)
qed simp

lemma key_clash_perm:
  assumes "mset new' = mset new"
  shows "key_clash c t stay new' = key_clash c t stay new"
proof -
  have "distinct (map f new') = distinct (map f new)" for f :: "LiteralValue list \<Rightarrow> int64" by (rule mset_eq_imp_distinct_iff) (simp add: assms)
  with mset_eq_setD [OF assms] show ?thesis by (simp add: key_clash_def)
qed

lemma with_key_perm: "mset vs' = mset vs \<Longrightarrow> with_key t idx k vs' = with_key t idx k vs"
  by (metis mset_filter size_mset)

lemma zip_pairs: "length ys = length xs \<Longrightarrow> length zs = length xs \<Longrightarrow>
   map fst (zip xs (zip ys zs)) = xs \<and> map (fst \<circ> snd) (zip xs (zip ys zs)) = ys"
  by (simp flip: map_map)

text \<open>The rows of the batch, checked and then replaced.\<close>

lemma update_batch_outcome:
  assumes st: "stores db D" and run: "running_db db0 tid txn {} db" and t: "FindTable (db_catalog db) n = Some t"
    and rows: "set matched \<subseteq> set (D n)" "distinct (map fst matched)" and len: "length new = length matched"
    and fits: "\<forall>v \<in> set new. row_fits (tab_columns t) v"
    and few: "\<forall>idx \<in> set (IndexesOnTable (db_catalog db) n). \<forall>k. with_key t idx k (map snd (D n)) + with_key t idx k new \<le> kLeafMaxKeys"
  defines "stay \<equiv> filter (\<lambda>r. fst r \<notin> fst ` set matched) (D n)"
  shows "outcome (\<lambda>e db'. page_failure e \<or> stores db' D \<and>
        (if \<exists>v \<in> set new. length (row_bytes t v) > kMaxRowSize then e = Invalid_argument ''HeapFile::Insert''
         else key_clash (db_catalog db) t (map snd stay) new \<and> e = duplicate_key))
      (bind_op (ValidateUpdateBatch tid (db_catalog db) t matched new (map (row_bytes t) new)) (\<lambda>_.
       rewrite_rows tid (db_catalog db) t (tab_heap_object_id t) (zip matched (zip new (map (row_bytes t) new))))) db
      (\<lambda>_ db'. (\<forall>v \<in> set new. length (row_bytes t v) \<le> kMaxRowSize) \<and> \<not> key_clash (db_catalog db) t (map snd stay) new \<and>
        (\<exists>rows'. map snd rows' = new \<and> stores db' (D(n := stay @ rows'))))"
    (is "outcome ?E _ _ ?Q")
proof -
  let ?us = "zip matched (zip new (map (row_bytes t) new))" and ?c = "db_catalog db"
  have us: "map fst ?us = matched" "map (fst \<circ> snd) ?us = new" using zip_pairs [of new matched "map (row_bytes t) new"] len by simp_all
  then have ids: "map (fst \<circ> fst) ?us = map fst matched" "(fst \<circ> fst) ` set ?us = fst ` set matched"
    by (metis map_map, metis image_comp list.set_map)
  have "outcome ?E (ValidateUpdateBatch tid ?c t matched new (map (row_bytes t) new)) db
      (\<lambda>_ db1. silent db db1 \<and> (\<forall>v \<in> set new. length (row_bytes t v) \<le> kMaxRowSize) \<and> \<not> key_clash ?c t (map snd stay) new)"
    by (rule ValidateUpdateBatch_outcome [OF st t fits]) (use st stores_silent [OF st] in \<open>auto simp: stay_def not_le\<close>)
  then show ?thesis unfolding outcome_bind
  proof (rule outcome_kept [OF _ ValidateUpdateBatch_kept run], elim conjE)
    fix db1 assume s: "silent db db1" and sizes: "\<forall>v \<in> set new. length (row_bytes t v) \<le> kMaxRowSize"
      and clash: "\<not> key_clash ?c t (map snd stay) new" and run1: "running_db db0 tid txn {} db1"
    note st1 = stores_silent [OF st s] and c1 = silent_catalog [OF s]
    have "ends page_failure (rewrite_rows tid (db_catalog db1) t (tab_heap_object_id t) ?us) db1 ?Q"
    proof (rule rewrite_rows_ends [OF st1 _ run1])
      show "\<forall>u \<in> set ?us. snd (snd u) = row_bytes t (fst (snd u)) \<and> row_fits (tab_columns t) (fst (snd u)) \<and> length (snd (snd u)) \<le> kMaxRowSize"
        using fits sizes by (auto simp: zip_map2 zip_same_conv_map dest!: set_zip_rightD)
      fix rows' db' assume r: "map snd rows' = map (fst \<circ> snd) ?us" and st': "stores db' (D(n := filter (\<lambda>r. fst r \<notin> (fst \<circ> fst) ` set ?us) (D n) @ rows'))"
      show "?Q () db'" using r st' sizes clash unfolding us ids stay_def by blast
    qed (use t c1 us ids rows few in simp_all)
    then show "outcome ?E (rewrite_rows tid ?c t (tab_heap_object_id t) ?us) db1 ?Q"
      unfolding c1 by (rule ends_outcome) simp
  qed
qed

text \<open>The rest of the statement, after the candidate rows have been read.\<close>

definition update_rows ::
    "thread_id \<Rightarrow> catalog \<Rightarrow> TableInfo \<Rightarrow> TableAccessPlan \<Rightarrow> nat list \<Rightarrow> UpdateStatement \<Rightarrow> (RID \<times> byte list) list \<Rightarrow> (database, ExecuteResult) operation" where
  "update_rows tid c t access cols stmt rows =
     bind_op (lift_sum (matching_rows t (tap_residual_predicates access) rows)) (\<lambda>matched.
     let new_values = map (assign_values (zip cols (map asg_value (upd_assignments stmt)))) (map snd matched) in
     bind_op (lift_sum (map_sum_list (EncodeRow (tab_columns t)) new_values)) (\<lambda>new_bytes.
     bind_op (ValidateUpdateBatch tid c t matched new_values new_bytes) (\<lambda>_.
     bind_op (rewrite_rows tid c t (tab_heap_object_id t) (zip matched (zip new_values new_bytes))) (\<lambda>_.
     return_op (no_result\<lparr>res_rows_affected := length matched\<rparr>)))))"

lemma update_rows_outcome:
  assumes st: "stores db D" and run: "running_db db0 tid txn {} db" and t: "FindTable (db_catalog db) n = Some t"
    and plan: "PlanTableAccess (db_catalog db) n (upd_where stmt) = Inr access"
    and rs: "mset rs = mset (filter (\<lambda>r. probe (db_catalog db) t access (snd r)) (D n))"
    and cols: "map_sum_list (resolve_assignment t) (upd_assignments stmt) = Inr cols" and valid: "list_all (valid_assignment t) (upd_assignments stmt)"
  defines "W \<equiv> \<lambda>r. where_true [(t, snd r)] (upd_where stmt)"
  defines "new \<equiv> map (\<lambda>r. set_columns t (upd_assignments stmt) (snd r)) (filter W (D n))" and "stay \<equiv> filter (\<lambda>r. \<not> W r) (D n)"
  assumes few: "\<forall>idx \<in> set (IndexesOnTable (db_catalog db) n). \<forall>k. with_key t idx k (map snd (D n) @ new) \<le> kLeafMaxKeys"
  shows "outcome (\<lambda>e db'. page_failure e \<or> stores db' D \<and>
        (if \<exists>v \<in> set new. length (row_bytes t v) > kMaxRowSize then e = Invalid_argument ''HeapFile::Insert''
         else key_clash (db_catalog db) t (map snd stay) new \<and> e = duplicate_key))
      (update_rows tid (db_catalog db) t access cols stmt (map (stored_row t) rs)) db
      (\<lambda>res db'. \<not> key_clash (db_catalog db) t (map snd stay) new \<and> res_rows_affected res = length (filter W (D n)) \<and>
        (\<exists>rows'. mset (map snd rows') = mset new \<and> stores db' (D(n := stay @ rows'))))"
    (is "outcome ?E _ _ ?Q")
proof -
  let ?c = "db_catalog db" and ?asgs = "upd_assignments stmt" and ?W = "\<lambda>vals. where_true [(t, vals)] (upd_where stmt)"
  let ?matched = "filter (?W \<circ> snd) rs"
  let ?new = "map (set_columns t ?asgs) (map snd ?matched)"
  have tok: "table_ok t" by (rule stores_table(3) [OF st t])
  note m = matched_rows [OF st plan t rs]
  have W: "?W \<circ> snd = W" by (auto simp: W_def)
  have in_D: "r \<in> set (D n) \<and> row_fits (tab_columns t) (snd r)" if "r \<in> set ?matched" for r using m(1) that by auto
  have mn: "mset ?new = mset new" using arg_cong [OF m(3), of "image_mset (set_columns t ?asgs \<circ> snd)"]
    unfolding W by (simp add: new_def comp_def)
  have count: "length ?matched = length (filter W (D n))" using mset_eq_length [OF m(3)] unfolding W .
  have vals: "map (assign_values (zip cols (map asg_value ?asgs))) (map snd ?matched) = ?new"
    using in_D assign_values_sets [OF cols tok] list_all2_lengthD [of value_fits "tab_columns t"] by fastforce
  have fits: "\<forall>v \<in> set ?new. row_fits (tab_columns t) v" using in_D set_columns_fits [OF valid _ tok] by auto
  have few1: "\<forall>idx \<in> set (IndexesOnTable ?c n). \<forall>k. with_key t idx k (map snd (D n)) + with_key t idx k ?new \<le> kLeafMaxKeys"
    using few unfolding with_key_perm [OF mn] by simp
  have same: "filter (\<lambda>r. fst r \<notin> fst ` set ?matched) (D n) = stay" using m(4) by (simp add: W_def stay_def)
  have d: "distinct (map fst ?matched)" using m(2) by (simp add: distinct_map inj_on_def)
  have "outcome ?E (bind_op (ValidateUpdateBatch tid ?c t ?matched ?new (map (row_bytes t) ?new)) (\<lambda>_.
      rewrite_rows tid ?c t (tab_heap_object_id t) (zip ?matched (zip ?new (map (row_bytes t) ?new))))) db
      (\<lambda>_ db'. \<not> key_clash ?c t (map snd stay) new \<and> (\<exists>rows'. mset (map snd rows') = mset new \<and> stores db' (D(n := stay @ rows'))))"
  proof (rule outcome_weaken [OF update_batch_outcome [OF st run t _ d _ fits few1, unfolded same key_clash_perm [OF mn] mset_eq_setD [OF mn]]])
    show "set ?matched \<subseteq> set (D n)" using in_D by blast
    show "length ?new = length ?matched" by (simp only: length_map)
    show "\<not> key_clash ?c t (map snd stay) new \<and> (\<exists>rows'. mset (map snd rows') = mset new \<and> stores db' (D(n := stay @ rows')))"
      if "(\<forall>v \<in> set new. length (row_bytes t v) \<le> kMaxRowSize) \<and> \<not> key_clash ?c t (map snd stay) new \<and>
        (\<exists>rows'. map snd rows' = ?new \<and> stores db' (D(n := stay @ rows')))" for db' using that mn by metis
  qed
  then show ?thesis
    using m(1) count EncodeRows [OF fits] by (simp add: update_rows_def matching_rows_eq [where W = ?W] vals Let_def del: map_map)
qed

lemma update_outcome:
  assumes st: "stores db D" and run: "running_db db0 tid txn {} db"
    and t: "FindTable (db_catalog db) (upd_table_name stmt) = Some t"
    and plan: "PlanTableAccess (db_catalog db) (upd_table_name stmt) (upd_where stmt) = Inr access"
    and lits: "\<forall>a \<in> set (upd_assignments stmt). literal_ok (asg_value a)"
  defines "n \<equiv> upd_table_name stmt" and "W \<equiv> \<lambda>r. where_true [(t, snd r)] (upd_where stmt)"
  defines "new \<equiv> map (\<lambda>r. set_columns t (upd_assignments stmt) (snd r)) (filter W (D n))"
  assumes few: "\<forall>idx \<in> set (IndexesOnTable (db_catalog db) n). \<forall>k.
      length (filter (\<lambda>v. index_key t idx v = k) (map snd (D n) @ new)) \<le> kLeafMaxKeys"
  shows "outcome (\<lambda>e db'. page_failure e \<or>
        stores db' D \<and>
        (if \<not> list_all (valid_assignment t) (upd_assignments stmt) then \<exists>m. e = Sql_semantic_error m
         else if \<exists>v \<in> set new. length (row_bytes t v) > kMaxRowSize then e = Invalid_argument ''HeapFile::Insert''
         else key_clash (db_catalog db) t (map snd (filter (\<lambda>r. \<not> W r) (D n))) new \<and> e = duplicate_key))
      (ExecuteUpdate tid stmt) db
      (\<lambda>res db'. list_all (valid_assignment t) (upd_assignments stmt) \<and>
        \<not> key_clash (db_catalog db) t (map snd (filter (\<lambda>r. \<not> W r) (D n))) new \<and>
        res_rows_affected res = length (filter W (D n)) \<and>
        (\<exists>rows'. mset (map snd rows') = mset new \<and> stores db' (D(n := filter (\<lambda>r. \<not> W r) (D n) @ rows'))))"
    (is "outcome ?E _ _ ?Q")
proof -
  let ?c = "db_catalog db" and ?asgs = "upd_assignments stmt" and ?stay = "filter (\<lambda>r. \<not> W r) (D n)"
  note t = t [folded n_def] and plan = plan [folded n_def]
  have tok: "table_ok t" by (rule stores_table(3) [OF st t])
  show ?thesis
  proof (cases "list_all (valid_assignment t) ?asgs")
    case False
    then obtain m where "map_sum_list (resolve_assignment t) ?asgs = Inl (Sql_semantic_error m)"
      using resolve_all_cases [OF lits tok] by auto
    then show ?thesis using t False st by (simp add: ExecuteUpdate_def n_def)
  next
    case valid: True
    then obtain cols where cols: "map_sum_list (resolve_assignment t) ?asgs = Inr cols" using resolve_all_cases [OF lits tok] by auto
    have "outcome ?E (FetchCandidateRows tid access) db (\<lambda>rows db1. outcome ?E (update_rows tid ?c t access cols stmt rows) db1 ?Q)"
    proof (rule outcome_kept [OF ends_outcome [OF FetchCandidateRows_ends [OF st plan t]] FetchCandidateRows_kept run])
      show "\<exists>rs. map (stored_row t) rs' = map (stored_row t) rs \<and> silent db db1 \<and> mset rs = mset (filter (\<lambda>r. probe ?c t access (snd r)) (D n))"
        if "silent db db1" "mset rs' = mset (filter (\<lambda>r. probe ?c t access (snd r)) (D n))" for rs' db1 using that by blast
      fix rows db1 assume run1: "running_db db0 tid txn {} db1"
        and "\<exists>rs. rows = map (stored_row t) rs \<and> silent db db1 \<and> mset rs = mset (filter (\<lambda>r. probe ?c t access (snd r)) (D n))"
      then obtain rs where rows: "rows = map (stored_row t) rs" and s: "silent db db1"
        and rs: "mset rs = mset (filter (\<lambda>r. probe ?c t access (snd r)) (D n))" by blast
      note c1 = silent_catalog [OF s]
      note upd = update_rows_outcome [OF stores_silent [OF st s] run1 t [folded c1] plan [folded c1] rs [folded c1] cols valid few [folded c1, unfolded new_def W_def]]
      show "outcome ?E (update_rows tid ?c t access cols stmt rows) db1 ?Q"
        unfolding rows new_def W_def by (rule outcome_weaken [OF upd [unfolded c1]]) (simp_all add: valid)
    qed simp
    then show ?thesis using t plan cols
      by (simp add: ExecuteUpdate_def update_rows_def outcome_heap [OF st] n_def)
  qed
qed

text \<open>
  C8. An \<open>UPDATE\<close> that passes the planner replaces exactly the rows on which its \<open>WHERE\<close> clause holds by the same rows
  with the assigned columns set, in the heap file and in every index, and reports their number; the other
  rows keep their place and their row ids. It is refused, with the contents as they were, exactly when an assignment does not
  fit its column, a new row is larger than a page or the new primary keys clash, and can otherwise fail only in
  the page layer.
\<close>

theorem ExecuteUpdate_refines:
  assumes st: "stores db D" and run: "running_db db0 tid txn {} db"
    and t: "FindTable (db_catalog db) (upd_table_name stmt) = Some t"
    and plan: "PlanTableAccess (db_catalog db) (upd_table_name stmt) (upd_where stmt) = Inr access"
    and lits: "\<forall>a \<in> set (upd_assignments stmt). literal_ok (asg_value a)"
  defines "n \<equiv> upd_table_name stmt" and "W \<equiv> \<lambda>r. where_true [(t, snd r)] (upd_where stmt)"
  defines "new \<equiv> map (\<lambda>r. set_columns t (upd_assignments stmt) (snd r)) (filter W (D n))"
  assumes few: "\<forall>idx \<in> set (IndexesOnTable (db_catalog db) n). \<forall>k.
      length (filter (\<lambda>v. index_key t idx v = k) (map snd (D n) @ new)) \<le> kLeafMaxKeys"
  shows "case ExecuteUpdate tid stmt db of
      (Inl e, db') \<Rightarrow> page_failure e \<or>
        stores db' D \<and>
        (if \<not> list_all (valid_assignment t) (upd_assignments stmt) then \<exists>m. e = Sql_semantic_error m
         else if \<exists>v \<in> set new. length (row_bytes t v) > kMaxRowSize then e = Invalid_argument ''HeapFile::Insert''
         else key_clash (db_catalog db) t (map snd (filter (\<lambda>r. \<not> W r) (D n))) new \<and> e = duplicate_key)
    | (Inr res, db') \<Rightarrow>
        list_all (valid_assignment t) (upd_assignments stmt) \<and>
        \<not> key_clash (db_catalog db) t (map snd (filter (\<lambda>r. \<not> W r) (D n))) new \<and>
        res_rows_affected res = length (filter W (D n)) \<and>
        (\<exists>rows'. mset (map snd rows') = mset new \<and> stores db' (D(n := filter (\<lambda>r. \<not> W r) (D n) @ rows')))"
  using update_outcome [OF st run t plan lits few [unfolded new_def n_def W_def]] unfolding outcome_def new_def n_def W_def .

section \<open>The small database at rest\<close>

text \<open>The database of the other witnesses with its pages written to the files.\<close>

definition clean_db :: database where
  "clean_db = small_db\<lparr>db_engine := flush_txn {PageKey 0 0, PageKey 1 0, PageKey 1 1} small_engine\<rparr>"

lemma clean_settled: "settled (db_engine clean_db)"
proof -
  let ?D = "{PageKey 0 0, PageKey 1 0, PageKey 1 1}"
  note v = flush_txn_views [OF small_pools, where D = ?D]
  have "k \<in> ?D" if "en_dirty small_engine k" for k
    using that by (cases k) (auto simp: en_dirty_def small_engine_def small_heap_def small_index_def split: option.splits if_splits)
  then have "\<not> en_dirty (db_engine clean_db) k" for k using v(3) by (auto simp: clean_db_def)
  moreover have "sized (bp_disk bp)" if "en_pools small_engine oid = Some bp" for oid bp
    using that by (auto simp: small_engine_def small_heap_def small_index_def sized_def disk_ok_def length_blank_page split: if_splits)
  then have "all_sized (db_engine clean_db)"
    using small_pools flush_set_sized by (auto simp: all_sized_def clean_db_def flush_txn_def pools_ok_def)
  ultimately show ?thesis using v(1) by (simp add: settled_def clean_db_def)
qed

lemma clean_stores: "stores clean_db small_rows"
  unfolding clean_db_def
proof (rule stores_same_pages [OF small_stores])
  note v = flush_txn_views [OF small_pools, where D = "{PageKey 0 0, PageKey 1 0, PageKey 1 1}"]
  show "pools_ok (flush_txn {PageKey 0 0, PageKey 1 0, PageKey 1 1} small_engine)" by (rule v(1))
  show "object_pages oid (flush_txn {PageKey 0 0, PageKey 1 0, PageKey 1 1} small_engine) = object_pages oid (db_engine small_db)" for oid
    using v(2,4) by (auto simp: fun_eq_iff small_db_def object_pages_def)
qed (simp_all add: flush_txn_def small_db_def)

lemma clean_catalog: "db_catalog clean_db = one_table"
  by (simp add: clean_db_def small_db_def)

lemma clean_begin: "\<exists>txn en1. Begin tid (db_engine clean_db) = (Inr txn, en1)"
  by (simp add: clean_db_def flush_txn_def small_engine_def one_txn_engine_def Begin_def GetCurrentTransaction_def Let_def bind_op_def wal_op_def
      AppendBegin_def AppendRecord_def empty_wal_def FullWrite_append_schedule length_record_buffer)

definition renumber :: UpdateStatement where
  "renumber = \<lparr>upd_table_name = ''t'', upd_assignments = [\<lparr>asg_column_name = ''id'', asg_value = int_literal 6\<rparr>], upd_where = [id_is 5]\<rparr>"

lemma renumber_facts:
  "where_true [(small_table, [int_literal 5])] (upd_where renumber)" "list_all (valid_assignment small_table) (upd_assignments renumber)"
  "set_columns small_table (upd_assignments renumber) [int_literal 5] = [int_literal 6]"
  "\<forall>a \<in> set (upd_assignments renumber). literal_ok (asg_value a)"
  by (simp_all add: renumber_def where_true_def predicate_true_def ref_value_def table_values_def id_is_def small_catalog sql_value_of_def
    valid_assignment_def FindColumn_def find_column_def value_fits_def set_columns_def literal_ok_def)

theorem ExecuteUpdate_refines_witness:
  "case bind_op (engine_op (Begin 0)) (\<lambda>_. ExecuteUpdate 0 renumber) clean_db of
     (Inl e, _) \<Rightarrow> page_failure e
   | (Inr res, db') \<Rightarrow> res_rows_affected res = 1 \<and> (\<exists>rid. stores db' (small_rows(''t'' := [(rid, [int_literal 6])])))"
proof -
  obtain txn en1 where b: "Begin 0 (db_engine clean_db) = (Inr txn, en1)" using clean_begin by blast
  let ?db = "clean_db\<lparr>db_engine := en1\<rparr>"
  have st: "stores ?db small_rows" by (rule Begin_stores [OF clean_stores b])
  have run: "running_db clean_db 0 txn {} ?db" using Begin_running [OF clean_settled b] by (simp add: running_db_def)
  have c: "db_catalog ?db = one_table" by (simp add: clean_catalog)
  have t: "FindTable (db_catalog ?db) (upd_table_name renumber) = Some small_table" by (simp add: c small_catalog renumber_def)
  obtain access where plan: "PlanTableAccess (db_catalog ?db) (upd_table_name renumber) (upd_where renumber) = Inr access"
  proof -
    have "\<not> isl (PlanTableAccess one_table ''t'' [id_is 5])" by code_simp
    with that c show thesis by (cases "PlanTableAccess one_table ''t'' [id_is 5]") (auto simp: renumber_def)
  qed
  have W: "filter (\<lambda>r. where_true [(small_table, snd r)] (upd_where renumber)) (small_rows ''t'') = [(small_rid, [int_literal 5])]"
    "filter (\<lambda>r. \<not> where_true [(small_table, snd r)] (upd_where renumber)) (small_rows ''t'') = []"
    using renumber_facts(1) by (simp_all add: small_rows_def)
  have n: "upd_table_name renumber = ''t''" by (simp add: renumber_def)
  have few: "\<forall>idx \<in> set (IndexesOnTable one_table ''t''). \<forall>k. length (filter (\<lambda>v. index_key small_table idx v = k) (map snd (small_rows ''t'') @ [[int_literal 6]])) \<le> kLeafMaxKeys"
    by (simp add: small_rows_def capacities)
  have nc: "\<not> key_clash one_table small_table [] [[int_literal 6]]" by (simp add: key_clash_def)
  note upd = ExecuteUpdate_refines [OF st run t plan renumber_facts(4), unfolded n W list.map snd_conv renumber_facts(3) c, OF few]
  have "case ExecuteUpdate 0 renumber ?db of
      (Inl e, _) \<Rightarrow> page_failure e
    | (Inr res, db') \<Rightarrow> res_rows_affected res = 1 \<and> (\<exists>rid. stores db' (small_rows(''t'' := [(rid, [int_literal 6])])))"
  proof -
    have one: "\<exists>rid. rows' = [(rid, v)]" if "mset (map snd rows') = mset [v]" for rows' :: "row list" and v
      using that by (cases rows'; cases "tl rows'") auto
    show ?thesis using upd nc small_row(1) [of 6] renumber_facts(2) one by (fastforce split: prod.splits sum.splits)
  qed
  then show ?thesis using b by (simp add: bind_op_def engine_op_def)
qed

end
