(* ===== verification/Statement_Execution.thy ===== *)
theory Statement_Execution
  imports Updating
begin

text \<open>
  The session on the contents of the database. \<open>statement_effect\<close> says what each data statement means: the answer of a
  \<open>SELECT\<close>, and the contents after an \<open>INSERT\<close>, \<open>UPDATE\<close> or \<open>DELETE\<close>. \<open>Execute\<close> outside a transaction has that effect and commits
  it, or fails and leaves the contents as they were; the statements keep primary keys unique.
\<close>

section \<open>What the statements mean\<close>

definition deletion_effect :: "catalog \<Rightarrow> (string \<Rightarrow> row list) \<Rightarrow> DeleteStatement \<Rightarrow> nat \<Rightarrow> (string \<Rightarrow> row list) \<Rightarrow> bool" where
  "deletion_effect c D s k D' \<longleftrightarrow>
     (\<exists>t. FindTable c (del_table_name s) = Some t \<and>
        (let W = \<lambda>r. where_true [(t, snd r)] (del_where s); rows = D (del_table_name s)
         in k = length (filter W rows) \<and> D' = D(del_table_name s := filter (\<lambda>r. \<not> W r) rows)))"

definition insertion_effect :: "catalog \<Rightarrow> (string \<Rightarrow> row list) \<Rightarrow> InsertStatement \<Rightarrow> nat \<Rightarrow> (string \<Rightarrow> row list) \<Rightarrow> bool" where
  "insertion_effect c D s k D' \<longleftrightarrow>
     (\<exists>t rid. FindTable c (ins_table_name s) = Some t \<and> row_fits (tab_columns t) (ins_values s) \<and>
        (let rows = D (ins_table_name s)
         in \<not> key_taken c t rows (ins_values s) \<and> rid \<notin> fst ` set rows \<and> k = 1 \<and>
            D' = D(ins_table_name s := rows @ [(rid, ins_values s)])))"

definition update_effect :: "catalog \<Rightarrow> (string \<Rightarrow> row list) \<Rightarrow> UpdateStatement \<Rightarrow> nat \<Rightarrow> (string \<Rightarrow> row list) \<Rightarrow> bool" where
  "update_effect c D s k D' \<longleftrightarrow>
     (\<exists>t rows'. FindTable c (upd_table_name s) = Some t \<and> list_all (valid_assignment t) (upd_assignments s) \<and>
        (let W = \<lambda>r. where_true [(t, snd r)] (upd_where s); rows = D (upd_table_name s); stay = filter (\<lambda>r. \<not> W r) rows;
             new = map (\<lambda>r. set_columns t (upd_assignments s) (snd r)) (filter W rows)
         in \<not> key_clash c t (map snd stay) new \<and> k = length (filter W rows) \<and> mset (map snd rows') = mset new \<and>
            D' = D(upd_table_name s := stay @ rows')))"

fun statement_effect :: "catalog \<Rightarrow> (string \<Rightarrow> row list) \<Rightarrow> Statement \<Rightarrow> ExecuteResult \<Rightarrow> (string \<Rightarrow> row list) \<Rightarrow> bool" where
  "statement_effect c D (Select_stmt s) res D' = (select_answer c D s res \<and> D' = D)"
| "statement_effect c D (Insert_stmt s) res D' = insertion_effect c D s (res_rows_affected res) D'"
| "statement_effect c D (Update_stmt s) res D' = update_effect c D s (res_rows_affected res) D'"
| "statement_effect c D (Delete_stmt s) res D' = deletion_effect c D s (res_rows_affected res) D'"
| "statement_effect c D _ res D' = False"

text \<open>
  What the statements are assumed to be: literals as the parser builds them, and no key more often in an index than fits a
  leaf, also counting the new rows.
\<close>

definition crowded :: "catalog \<Rightarrow> string \<Rightarrow> TableInfo \<Rightarrow> LiteralValue list list \<Rightarrow> bool" where
  "crowded c n t vs \<longleftrightarrow> (\<exists>idx \<in> set (IndexesOnTable c n). \<exists>k. with_key t idx k vs > kLeafMaxKeys)"

fun admissible :: "catalog \<Rightarrow> (string \<Rightarrow> row list) \<Rightarrow> Statement \<Rightarrow> bool" where
  "admissible c D (Insert_stmt s) =
     ((\<forall>v \<in> set (ins_values s). literal_ok v) \<and>
      (case FindTable c (ins_table_name s) of None \<Rightarrow> True
       | Some t \<Rightarrow> \<not> crowded c (ins_table_name s) t (map snd (D (ins_table_name s)) @ [ins_values s])))"
| "admissible c D (Update_stmt s) =
     ((\<forall>a \<in> set (upd_assignments s). literal_ok (asg_value a)) \<and>
      (case FindTable c (upd_table_name s) of None \<Rightarrow> True
       | Some t \<Rightarrow> \<not> crowded c (upd_table_name s) t (map snd (D (upd_table_name s)) @
           map (\<lambda>r. set_columns t (upd_assignments s) (snd r)) (filter (\<lambda>r. where_true [(t, snd r)] (upd_where s)) (D (upd_table_name s))))))"
| "admissible c D _ = True"

section \<open>Within a transaction\<close>

lemma not_crowded: "\<not> crowded c n t vs \<Longrightarrow> idx \<in> set (IndexesOnTable c n) \<Longrightarrow> with_key t idx k vs \<le> kLeafMaxKeys"
  by (auto simp: crowded_def not_less)

lemma insert_refined:
  assumes st: "stores db D" and room: "page_room 40 db" and ok: "admissible (db_catalog db) D (Insert_stmt s)"
    and run: "ExecuteInsert tid s db = (Inr res, db')"
  shows "\<exists>D'. insertion_effect (db_catalog db) D s (res_rows_affected res) D' \<and> stores db' D'"
proof -
  obtain t where t: "FindTable (db_catalog db) (ins_table_name s) = Some t"
    using run by (auto simp: ExecuteInsert_def bind_op_def get_op_def split: option.splits)
  have lits: "\<forall>v \<in> set (ins_values s). literal_ok v" using ok by simp
  have few: "\<forall>idx \<in> set (IndexesOnTable (db_catalog db) (ins_table_name s)).
      length (filter (\<lambda>r. index_key t idx (snd r) = index_key t idx (ins_values s)) (D (ins_table_name s))) < kLeafMaxKeys"
  proof
    fix idx assume "idx \<in> set (IndexesOnTable (db_catalog db) (ins_table_name s))"
    then have "with_key t idx (index_key t idx (ins_values s)) (map snd (D (ins_table_name s)) @ [ins_values s]) \<le> kLeafMaxKeys"
      using ok t by (intro not_crowded [where c = "db_catalog db" and n = "ins_table_name s"]) (simp_all del: filter_append)
    then show "length (filter (\<lambda>r. index_key t idx (snd r) = index_key t idx (ins_values s)) (D (ins_table_name s))) < kLeafMaxKeys"
      by (simp add: filter_map comp_def)
  qed
  from insert_outcome [OF st t lits room few, of tid] run t show ?thesis
    by (auto simp: outcome_def insertion_effect_def Let_def)
qed

lemma delete_refined:
  assumes st: "stores db D" and run: "ExecuteDelete tid s db = (Inr res, db')"
  shows "\<exists>D'. deletion_effect (db_catalog db) D s (res_rows_affected res) D' \<and> stores db' D'"
proof -
  obtain access t where plan: "PlanTableAccess (db_catalog db) (del_table_name s) (del_where s) = Inr access"
    and t: "FindTable (db_catalog db) (del_table_name s) = Some t"
    using run by (auto simp: ExecuteDelete_def bind_op_def get_op_def lift_sum_def split: option.splits sum.splits)
  from delete_ends [OF st plan t, of tid] run t show ?thesis by (auto simp: ends_def deletion_effect_def Let_def)
qed

lemma update_refined:
  assumes st: "stores db D" and r: "running_db db0 tid txn {} db" and ok: "admissible (db_catalog db) D (Update_stmt s)"
    and run: "ExecuteUpdate tid s db = (Inr res, db')"
  shows "\<exists>D'. update_effect (db_catalog db) D s (res_rows_affected res) D' \<and> stores db' D'"
proof -
  obtain access t where plan: "PlanTableAccess (db_catalog db) (upd_table_name s) (upd_where s) = Inr access"
    and t: "FindTable (db_catalog db) (upd_table_name s) = Some t"
    using run by (auto simp: ExecuteUpdate_def bind_op_def get_op_def lift_sum_def split: option.splits sum.splits)
  have lits: "\<forall>a \<in> set (upd_assignments s). literal_ok (asg_value a)" using ok by simp
  have few: "\<forall>idx \<in> set (IndexesOnTable (db_catalog db) (upd_table_name s)). \<forall>k. with_key t idx k (map snd (D (upd_table_name s)) @
      map (\<lambda>r. set_columns t (upd_assignments s) (snd r)) (filter (\<lambda>r. where_true [(t, snd r)] (upd_where s)) (D (upd_table_name s)))) \<le> kLeafMaxKeys"
    using ok t by (simp add: crowded_def not_less)
  from update_outcome [OF st r t plan lits few] run t show ?thesis
    unfolding outcome_def update_effect_def Let_def by auto
qed

lemma select_refined:
  assumes st: "stores db D" and run: "ExecuteSelect tid s db = (Inr res, db')"
  shows "select_answer (db_catalog db) D s res \<and> stores db' D"
proof -
  obtain plan where plan: "PlanSelect (db_catalog db) s = Inr plan"
    using run by (auto simp: ExecuteSelect_def bind_op_def get_op_def lift_sum_def split: sum.splits)
  from ExecuteSelect_ends [OF st plan, of tid] run stores_silent [OF st] show ?thesis by (auto simp: ends_def)
qed

lemma statement_refines:
  assumes st: "stores db D" and r: "running_db db0 tid txn {} db" and ok: "admissible (db_catalog db) D stmt" and data: "data_statement stmt"
    and run: "ExecuteInCurrentTransaction tid stmt db = (Inr res, db')"
  shows "\<exists>D'. statement_effect (db_catalog db) D stmt res D' \<and> stores db' D'"
proof -
  have "page_room 40 db" by (rule running_room [OF r])
  with assms show ?thesis
    using insert_refined [of db D _ tid res db'] delete_refined [of db D tid _ res db'] update_refined [of db D db0 tid txn _ res db'] select_refined [of db D tid _ res db']
    by (cases stmt) (auto simp: data_statement_def)
qed

section \<open>Statements of their own\<close>

lemma running_catalog: "running_db db0 tid txn K db \<Longrightarrow> db_catalog db = db_catalog db0"
  unfolding running_db_def by (metis database.select_convs(1) database.surjective database.update_convs(2))

lemma Execute_cases:
  assumes st: "stores db D" and s: "settled (db_engine db)" and cur: "GetCurrentTransaction tid (db_engine db) = None"
    and data: "data_statement stmt" and ok: "admissible (db_catalog db) D stmt"
  shows "case Execute tid stmt db of
      (Inl e, db') \<Rightarrow> (\<forall>k p. on_disk (db_engine db) k = Some p \<longrightarrow> on_disk (db_engine db') k = Some p) \<and>
        (if all_sized (db_engine db') then stores db' D \<and> settled (db_engine db') else True) \<and> same_objects db db'
    | (Inr res, db') \<Rightarrow> settled (db_engine db') \<and> GetCurrentTransaction tid (db_engine db') = None \<and>
        same_objects db db' \<and> (\<exists>D'. statement_effect (db_catalog db) D stmt res D' \<and> stores db' D')"
proof -
  have run: "Execute tid stmt db = autocommit tid stmt db"
    using data cur by (cases stmt) (simp_all add: Execute_def data_statement_def)
  show ?thesis
  proof (cases "autocommit tid stmt db")
    case (Pair r db')
    note auto = autocommit_cases [OF st s data, of tid, unfolded Pair]
    show ?thesis
    proof (cases r)
      case (Inl e)
      then show ?thesis using auto run Pair by simp
    next
      case (Inr res)
      from auto [unfolded Inr, simplified] obtain txn db1 db2 where st1: "stores db1 D" and r1: "running_db db tid txn {} db1"
        and ex: "ExecuteInCurrentTransaction tid stmt db1 = (Inr res, db2)"
        and fin: "\<And>D'. stores db2 D' \<Longrightarrow> stores db' D' \<and> settled (db_engine db') \<and> same_objects db db' \<and> en_current (db_engine db') tid = None"
        by blast
      note c1 = running_catalog [OF r1]
      from statement_refines [OF st1 r1 _ data ex] ok c1 obtain D' where "statement_effect (db_catalog db) D stmt res D'" "stores db2 D'" by auto
      with fin [OF this(2)] run Pair Inr show ?thesis by (auto simp: GetCurrentTransaction_def)
    qed
  qed
qed


lemma clean_current: "GetCurrentTransaction tid (db_engine clean_db) = None"
  by (simp add: GetCurrentTransaction_def clean_db_def flush_txn_def small_engine_def)

lemma clean_admissible:
  assumes "stores clean_db D"
  shows "admissible (db_catalog clean_db) D (Insert_stmt (small_insertion k))"
proof -
  have t: "FindTable (db_catalog clean_db) ''t'' = Some small_table" by (simp add: clean_catalog small_catalog)
  have "map (stored_row small_table) (D ''t'') = map (stored_row small_table) (small_rows ''t'')"
    using stores_table(5) [OF assms t] stores_table(5) [OF clean_stores t] by (simp add: heap_stores_def)
  then have "length (D ''t'') = 1" using map_eq_imp_length_eq by (fastforce simp: small_rows_def)
  then have len: "length (map snd (D ''t'') @ [v]) \<le> kLeafMaxKeys" for v by (simp add: capacities)
  have "length (filter P (map snd (D ''t'') @ [v])) \<le> kLeafMaxKeys" for P v
    by (rule order_trans [OF length_filter_le len])
  then have "\<not> crowded one_table ''t'' small_table (map snd (D ''t'') @ [[int_literal k]])"
    unfolding crowded_def by (blast dest: leD)
  then show ?thesis by (simp add: clean_catalog small_insertion_def small_catalog literal_ok_def)
qed


section \<open>Primary keys\<close>

definition keys_unique :: "catalog \<Rightarrow> (string \<Rightarrow> row list) \<Rightarrow> bool" where
  "keys_unique c D \<longleftrightarrow>
     (\<forall>n t pk. FindTable c n = Some t \<longrightarrow> PrimaryKeyIndex c n = Some pk \<longrightarrow> distinct (map (\<lambda>r. index_key t pk (snd r)) (D n)))"

lemma keys_unique_update:
  "keys_unique c D \<Longrightarrow> (\<And>t pk. FindTable c n = Some t \<Longrightarrow> PrimaryKeyIndex c n = Some pk \<Longrightarrow>
     distinct (map (\<lambda>r. index_key t pk (snd r)) (D n)) \<Longrightarrow> distinct (map (\<lambda>r. index_key t pk (snd r)) rows)) \<Longrightarrow> keys_unique c (D(n := rows))"
  by (auto simp: keys_unique_def)

lemma distinct_filter_map: "distinct (map f xs) \<Longrightarrow> distinct (map f (filter P xs))"
  by (induction xs) auto

lemma statement_keys:
  assumes c: "catalog_ok c" and u: "keys_unique c D" and e: "statement_effect c D stmt res D'"
  shows "keys_unique c D'"
proof -
  have name: "tab_name t = n" if "FindTable c n = Some t" for n t
    using find_SomeD [of "\<lambda>t. tab_name t = n"] that by (auto simp: FindTable_def)
  show ?thesis
  proof (cases stmt)
    case (Insert_stmt s)
    then show ?thesis using e u name
      by (auto simp: insertion_effect_def key_taken_def Let_def image_iff intro!: keys_unique_update) (metis snd_conv)
  next
    case (Delete_stmt s)
    then show ?thesis using e u by (auto simp: deletion_effect_def Let_def distinct_filter_map intro!: keys_unique_update)
  next
    case (Update_stmt s)
    let ?n = "upd_table_name s"
    from e [unfolded Update_stmt statement_effect.simps update_effect_def Let_def] obtain t rows' where t: "FindTable c ?n = Some t" and D': "D' = D(?n := filter (\<lambda>r. \<not> where_true [(t, snd r)] (upd_where s)) (D ?n) @ rows')"
      and nc0: "\<not> key_clash c t (map snd (filter (\<lambda>r. \<not> where_true [(t, snd r)] (upd_where s)) (D ?n)))
        (map (\<lambda>r. set_columns t (upd_assignments s) (snd r)) (filter (\<lambda>r. where_true [(t, snd r)] (upd_where s)) (D ?n)))"
      and m: "mset (map snd rows') = mset (map (\<lambda>r. set_columns t (upd_assignments s) (snd r)) (filter (\<lambda>r. where_true [(t, snd r)] (upd_where s)) (D ?n)))"
      by blast
    note nc = nc0 [folded key_clash_perm [OF m]]
    show ?thesis unfolding D'
    proof (rule keys_unique_update [OF u])
      fix t' pk assume t': "FindTable c ?n = Some t'" and pk: "PrimaryKeyIndex c ?n = Some pk" and d: "distinct (map (\<lambda>r. index_key t' pk (snd r)) (D ?n))"
      then show "distinct (map (\<lambda>r. index_key t' pk (snd r)) (filter (\<lambda>r. \<not> where_true [(t, snd r)] (upd_where s)) (D ?n) @ rows'))"
        using nc t name [OF t] distinct_filter_map [OF d] by (auto simp: key_clash_def comp_def image_image)
    qed
  qed (use e u in simp_all)
qed

definition consistent :: "database \<Rightarrow> bool" where
  "consistent db \<longleftrightarrow> settled (db_engine db) \<and> (\<exists>D. stores db D \<and> keys_unique (db_catalog db) D)"

end
