(* ===== verification/Schema_Changes.thy ===== *)
theory Schema_Changes
  imports Statement_Execution
begin

text \<open>
  Schema changes on the contents of the database. They run outside transactions and are not logged: new objects are
  files of their own, written before the statement returns. \<open>CREATE TABLE\<close> adds an empty table with an empty primary key
  index, \<open>CREATE INDEX\<close> fills a new tree from the rows of its table; both leave everything else alone.
\<close>

section \<open>Writing one object outside a transaction\<close>

definition building :: "ObjectId \<Rightarrow> engine \<Rightarrow> bool" where
  "building oid en \<longleftrightarrow> all_sized en \<and> (\<forall>k. en_dirty en k \<longrightarrow> key_object k = oid)"

interpretation build: kept_state "\<lambda>K :: PageKey set. building oid" "\<lambda>_. True" for oid
  by unfold_locales auto

lemma building_pool:
  assumes "building oid en" and "sized (bp_disk bp)"
  shows "building oid (en\<lparr>en_pools := (en_pools en)(oid \<mapsto> bp)\<rparr>)"
  using assms by (auto simp: building_def all_sized_def)

lemma building_same: "building oid en \<Longrightarrow> en_pools en' = en_pools en \<Longrightarrow> building oid en'"
  by (simp add: building_def all_sized_def en_dirty_def)

lemma building_sized: "building oid en \<Longrightarrow> en_pools en o' = Some bp \<Longrightarrow> sized (bp_disk bp)"
  by (auto simp: building_def all_sized_def)

lemma pool_op_building:
  assumes "\<And>bp x bp'. sized (bp_disk bp) \<Longrightarrow> f bp = (Inr x, bp') \<Longrightarrow> sized (bp_disk bp')"
  shows "build.keeping oid K (pool_op oid f) A"
proof (rule build.keepingI)
  fix en assume b: "building oid en"
  show "case pool_op oid f en of (Inl _, _) \<Rightarrow> True | (Inr _, en') \<Rightarrow> building oid en'"
    using assms building_pool [OF b] building_sized [OF b] by (fastforce simp: pool_op_def split: option.splits prod.splits sum.splits)
qed

lemma building_notify [simp]: "building oid (NotifyDirty n en) = building oid en"
  by (simp add: building_def all_sized_def)

lemma notify_building: "build.keeping oid K (modify_op (NotifyDirty n)) A"
  by (intro build.keepingI) (simp add: modify_op_def)

lemma lock_building: "build.keeping oid K (LockPage tid o' pid mode) A"
proof (rule build.keepingI)
  fix en assume "building oid en"
  then show "case LockPage tid o' pid mode en of (Inl _, _) \<Rightarrow> True | (Inr _, en') \<Rightarrow> building oid en'"
    using building_same by (auto simp: LockPage_def Transaction_AcquireLock_def split: option.splits acquire_outcome.splits)
qed

lemma fetch_building: "build.keeping oid K (FetchPage_op o' pid) A"
proof (rule build.keepingI)
  fix en assume b: "building oid en"
  show "case FetchPage_op o' pid en of (Inl _, _) \<Rightarrow> True | (Inr _, en') \<Rightarrow> building oid en'"
  proof (cases "en_pools en o'")
    case (Some bp)
    have d: "o' = oid" if "pid \<in> bp_dirty bp" for pid using b that pool_views(3) [OF Some, of pid] by (auto simp: building_def)
    have "building oid (en\<lparr>en_pools := (en_pools en)(o' \<mapsto> bp\<lparr>bp_pages := m\<rparr>)\<rparr>)" for m
      using b d building_sized [OF b Some] by (auto simp: building_def all_sized_def)
    moreover have "bp\<lparr>bp_pages := bp_pages bp\<rparr> = bp" by simp
    ultimately show ?thesis using Some
      by (simp add: FetchPage_op_def pool_op_def FetchPage_file split: option.split) (metis fun_upd_triv Some b building_same engine.select_convs(1) engine.surjective engine.update_convs(1))
  qed (simp add: FetchPage_op_def pool_op_def)
qed

lemma new_building: "build.keeping oid K (NewPage_op tid oid) A"
proof -
  have "sized (bp_disk bp')" if "sized (bp_disk bp)" "NewPage tid bp = (Inr x, bp')" for bp x bp'
    using that AllocatePage_sized [OF that(1)] by (auto simp: NewPage_def MarkDirtyLocked_def split: prod.splits sum.splits)
  then have "build.keeping oid K (pool_op oid (NewPage tid)) (\<lambda>_. {})" by (rule pool_op_building)
  then show ?thesis unfolding NewPage_op_def
    by (rule build.keeping_bind) (auto intro!: build.keeping_bind [OF notify_building] build.keepingI split: prod.splits)
qed

lemma store_building:
  "build.keeping oid K (write_page_op oid pid p) A" "build.keeping oid K (MarkDirty_op tid oid pid) A"
proof -
  show "build.keeping oid K (write_page_op oid pid p) A"
    unfolding write_page_op_def by (rule pool_op_building) (auto simp: write_page_def)
  show "build.keeping oid K (MarkDirty_op tid oid pid) A"
    unfolding MarkDirty_op_def by (rule build.keeping_bind [OF pool_op_building notify_building]) (auto simp: MarkDirty_def MarkDirtyLocked_def)
qed

interpretation built_pages: marked_pages "\<lambda>K :: PageKey set. building oid" "\<lambda>_. True" "engine_ops tid oid" "PageKey oid" for tid oid
proof unfold_locales
  show "build.keeping oid K (po_lock (engine_ops tid oid) pid mode) (\<lambda>_. K)" for K pid mode by (simp add: lock_building)
  show "build.keeping oid K (po_fetch (engine_ops tid oid) pid) (\<lambda>_. insert (PageKey oid pid) K)" for K pid by (simp add: fetch_building)
  show "build.keeping oid K (po_new (engine_ops tid oid)) (\<lambda>pid. insert (PageKey oid pid) K)" for K by (simp add: new_building)
  show "build.keeping oid K (store_page (engine_ops tid oid) a p) (\<lambda>_. K)" for a K p
    unfolding store_page_def engine_ops_simps by (rule build.keeping_bind [OF store_building(1) store_building(2)])
  show "build.keeping oid K (store_two (engine_ops tid oid) a p b q) (\<lambda>_. K)" for a b K p q
    unfolding store_two_def engine_ops_simps by (rule store_building build.keeping_bind)+
qed

lemma scan_building: "build.keeping oid K (HeapFile_Scan tid o') A"
proof (rule build.keepingI)
  fix en assume b: "building oid en"
  have pages: "build.keeping oid K (scan_pages tid o' pids) (\<lambda>_. {})" for K pids
  proof (induction pids)
    case (Cons pid pids)
    show ?case unfolding scan_pages.simps by (rule lock_building fetch_building Cons build.keeping_bind build.keeping_done)+
  qed (simp only: scan_pages.simps, rule build.keeping_return, simp)
  show "case HeapFile_Scan tid o' en of (Inl _, _) \<Rightarrow> True | (Inr _, en') \<Rightarrow> building oid en'"
    using build.keepingD [OF pages b] by (simp add: HeapFile_Scan_def)
qed

lemma ends_building:
  assumes "ends mf f en Q'" and "build.keeping oid {} f A" and "building oid en"
    and "\<And>x en'. Q' x en' \<Longrightarrow> building oid en' \<Longrightarrow> Q x en'"
  shows "ends mf f en Q"
  using assms(1,4) build.keepingD [OF assms(2,3)] by (auto simp: ends_def split: prod.splits sum.splits)

section \<open>New objects\<close>

text \<open>The objects there stay what they are.\<close>

definition extends :: "database \<Rightarrow> database \<Rightarrow> bool" where
  "extends db db' \<longleftrightarrow>
     pools_ok (db_engine db') \<and> (\<forall>oid k. db_objects db oid = Some k \<longrightarrow> db_objects db' oid = Some k) \<and>
     (\<forall>oid. en_pools (db_engine db) oid \<noteq> None \<longrightarrow>
        en_pools (db_engine db') oid \<noteq> None \<and> object_pages oid (db_engine db') = object_pages oid (db_engine db) \<and>
        en_heaps (db_engine db') oid = en_heaps (db_engine db) oid)"

lemma extends_trans: "extends a b \<Longrightarrow> extends b c \<Longrightarrow> extends a c"
  by (simp add: extends_def)

definition table_there :: "database \<Rightarrow> TableInfo \<Rightarrow> row list \<Rightarrow> bool" where
  "table_there db t rows \<longleftrightarrow> db_objects db (tab_heap_object_id t) = Some Heap_object \<and> heap_stores (db_engine db) t rows"

definition index_there :: "database \<Rightarrow> TableInfo \<Rightarrow> row list \<Rightarrow> IndexInfo \<Rightarrow> bool" where
  "index_there db t rows idx \<longleftrightarrow> db_objects db (idx_object_id idx) = Some Index_object \<and> index_stores (db_engine db) t rows idx"

lemma holding_there:
  "holding db H I \<longleftrightarrow> catalog_ok (db_catalog db) \<and> pools_ok (db_engine db) \<and>
     (\<forall>t \<in> set (cat_tables (db_catalog db)). table_there db t (H (tab_name t)) \<and>
        (\<forall>idx \<in> set (IndexesOnTable (db_catalog db) (tab_name t)). index_there db t (I idx) idx))"
  by (auto simp: holding_def table_there_def index_there_def)

lemma extends_there:
  assumes "extends db db'"
  shows "table_there db t rows \<Longrightarrow> table_there db' t rows" and "index_there db t rows idx \<Longrightarrow> index_there db' t rows idx"
proof -
  have p: "pools_ok (db_engine db')" using assms by (simp add: extends_def)
  assume a: "table_there db t rows"
  let ?oid = "tab_heap_object_id t"
  have ok: "heap_ok ?oid (db_engine db)" using a by (simp add: table_there_def heap_stores_def)
  then have e: "en_pools (db_engine db') ?oid \<noteq> None" "object_pages ?oid (db_engine db') = object_pages ?oid (db_engine db)"
    "heap_page_ids ?oid (db_engine db') = heap_page_ids ?oid (db_engine db)"
    using assms by (auto simp: extends_def heap_ok_def heap_page_ids_def)
  then have ok': "heap_ok ?oid (db_engine db')" using ok p by (simp add: heap_ok_pages)
  then have "heap_rows ?oid (db_engine db') = heap_rows ?oid (db_engine db)" using heap_rows_pages [OF ok'] heap_rows_pages [OF ok] e by simp
  with a ok' assms show "table_there db' t rows" by (simp add: table_there_def heap_stores_def extends_def)
next
  assume "index_there db t rows idx"
  then show "index_there db' t rows idx" using assms unfolding index_there_def index_stores_def index_at_def extends_def by metis
qed

text \<open>A file that is not there yet, and an object id that is not in use.\<close>

definition unused :: "database \<Rightarrow> ObjectId \<Rightarrow> bool" where
  "unused db oid \<longleftrightarrow> db_objects db oid = None \<and> en_pools (db_engine db) oid = None \<and> db_files db oid = [] \<and>
     db_capacity db < (2 ^ 32 - 40) * PAGE_SIZE"

abbreviation empty_disk :: "nat \<Rightarrow> disk" where
  "empty_disk cap \<equiv> \<lparr>disk_file = [], next_page_id = 0, disk_capacity = cap\<rparr>"

lemma open_unused: "unused db oid \<Longrightarrow> open_file oid db = (Inr (empty_disk (db_capacity db)), db)"
  by (simp add: open_file_def DiskManager_open_def unused_def)

text \<open>What \<open>db'\<close> has more than \<open>db\<close> is one object.\<close>

definition object_added :: "ObjectId \<Rightarrow> object_kind \<Rightarrow> database \<Rightarrow> database \<Rightarrow> bool" where
  "object_added oid kind db db' \<longleftrightarrow>
     extends db db' \<and> (\<exists>en'. db' = db\<lparr>db_engine := en', db_objects := (db_objects db)(oid \<mapsto> kind)\<rparr>) \<and>
     (\<forall>o'. o' \<noteq> oid \<longrightarrow> en_pools (db_engine db') o' = en_pools (db_engine db) o') \<and>
     (settled (db_engine db) \<longrightarrow> settled (db_engine db'))"

lemma pool_added:
  assumes p: "pools_ok en" and new: "en_pools en oid = None" and ok: "pool_ok bp"
    and en': "en_pools en' = (en_pools en)(oid \<mapsto> bp)" "\<And>o'. o' \<noteq> oid \<Longrightarrow> en_heaps en' o' = en_heaps en o'"
    and db: "db_engine db = en" "db_objects db oid = None" and clean: "sized (bp_disk bp)" "bp_dirty bp = {}"
  shows "object_added oid kind db (db\<lparr>db_engine := en', db_objects := (db_objects db)(oid \<mapsto> kind)\<rparr>)"
proof -
  have "object_pages o' en' = object_pages o' en" if "o' \<noteq> oid" for o'
    using that by (simp add: object_pages_def en_has_def en_page_def en'(1) fun_eq_iff)
  moreover have "en_pools en o' \<noteq> None \<Longrightarrow> o' \<noteq> oid" for o' using new by auto
  moreover have "pools_ok en'" using p ok by (auto simp: pools_ok_def en'(1))
  moreover have "settled en'" if "settled en"
    using that clean \<open>pools_ok en'\<close> by (auto simp: settled_def all_sized_def en'(1) en_dirty_def)
  ultimately show ?thesis using db en' by (auto simp: object_added_def extends_def)
qed

lemma empty_disk_ok: "cap < (2 ^ 32 - 40) * PAGE_SIZE \<Longrightarrow> sized (empty_disk cap)" "pool_ok (BufferPool_init (empty_disk cap))"
  by (simp_all add: sized_def disk_ok_def BufferPool_init_def pool_ok_def pool_wf_def)

lemma attach_heap:
  assumes p: "pools_ok (db_engine db)" and u: "unused db oid"
  obtains db' where "AttachHeapStorage oid (empty_disk (db_capacity db)) db = (Inr (), db')" "object_added oid Heap_object db db'"
    "tab_heap_object_id t = oid \<Longrightarrow> table_there db' t []"
proof -
  let ?bp = "BufferPool_init (empty_disk (db_capacity db))"
  let ?en = "(db_engine db)\<lparr>en_pools := (en_pools (db_engine db))(oid \<mapsto> ?bp), en_heaps := (en_heaps (db_engine db))(oid \<mapsto> [])\<rparr>"
  let ?db = "db\<lparr>db_engine := ?en, db_objects := (db_objects db)(oid \<mapsto> Heap_object)\<rparr>"
  have un: "db_objects db oid = None" "en_pools (db_engine db) oid = None" "db_capacity db < (2 ^ 32 - 40) * PAGE_SIZE" using u by (simp_all add: unused_def)
  have "NumPagesOnDisk ?bp = 0" by (simp add: NumPagesOnDisk_def BufferPool_init_def NumPages_def)
  then have "AttachHeapStorage oid (empty_disk (db_capacity db)) db = (Inr (), ?db)"
    using un by (simp add: AttachHeapStorage_def bind_op_def engine_op_def modify_op_def RegisterObject_def HeapFile_open_def pool_op_def emplace_def)
  moreover have added: "object_added oid Heap_object db ?db"
    by (rule pool_added [OF p un(2) empty_disk_ok(2)]) (use un empty_disk_ok(1) in \<open>simp_all add: BufferPool_init_def\<close>)
  moreover have "pools_ok ?en" using added by (simp add: object_added_def extends_def)
  then have "table_there ?db t []" if "tab_heap_object_id t = oid"
    using that by (simp add: table_there_def heap_stores_def heap_ok_def heap_rows_def heap_page_ids_def)
  ultimately show thesis using that by blast
qed

text \<open>A new tree: the header page, written to the file.\<close>

lemma new_tree:
  assumes "4096 \<le> cap" and "cap < (2 ^ 32 - 40) * PAGE_SIZE"
  defines "bp \<equiv> \<lparr>bp_pages = [0 \<mapsto> SerializeHeader INVALID_PAGE_ID], bp_dirty = {}, bp_observers = Map.empty,
      bp_disk = \<lparr>disk_file = SerializeHeader INVALID_PAGE_ID, next_page_id = 1, disk_capacity = cap\<rparr>\<rparr>"
  shows "BPlusTree_open tid oid (RegisterObject oid (BufferPool_init (empty_disk cap)) en) = (Inr (), en\<lparr>en_pools := (en_pools en)(oid \<mapsto> bp)\<rparr>)"
    and "pool_ok bp" and "sized (bp_disk bp)"
proof -
  let ?h = "SerializeHeader INVALID_PAGE_ID"
  let ?mid = "\<lparr>bp_pages = [0 \<mapsto> ?h], bp_dirty = {0 :: PageId}, bp_observers = Map.empty,
      bp_disk = \<lparr>disk_file = replicate 4096 0, next_page_id = 1, disk_capacity = cap\<rparr>\<rparr>"
  have h: "length ?h = 4096" using Deserialize_SerializeHeader(2) by simp
  have wf: "pool_wf ?mid" by (simp add: pool_wf_def pool_has_def disk_has_def disk_ok_def h)
  have "flushed 0 ?mid = bp" using h by (simp add: flushed_def bp_def put_page_def pool_page_def write_bytes_def)
  then have flush: "FlushPages {0} ?mid = (Inr (), bp)" using flush_if_dirty_eq [OF wf, of 0] by (simp add: FlushPages_def bind_op_def)
  have alloc: "AllocatePage (empty_disk cap) = (Inr 0, bp_disk ?mid)" using assms(1) by (simp add: AllocatePage_def ftruncate_def)
  show "BPlusTree_open tid oid (RegisterObject oid (BufferPool_init (empty_disk cap)) en) = (Inr (), en\<lparr>en_pools := (en_pools en)(oid \<mapsto> bp)\<rparr>)"
    using alloc flush by (simp add: BPlusTree_open_def RegisterObject_def BufferPool_init_def pool_op_def bind_op_def NumPagesOnDisk_def NumPages_def
      NewPage_op_def NewPage_def MarkDirtyLocked_def modify_op_def NotifyDirty_def write_page_op_def write_page_def MarkDirty_op_def MarkDirty_def)
  have "disk_page (bp_disk bp) 0 = ?h" using h by (simp add: bp_def disk_page_def read_bytes_def)
  then show "pool_ok bp" using h by (simp add: pool_ok_def pool_wf_def pool_has_def disk_has_def disk_ok_def bp_def)
  show "sized (bp_disk bp)" using h assms(1,2) by (simp add: bp_def sized_def disk_ok_def)
qed

lemma attach_index:
  assumes p: "pools_ok (db_engine db)" and u: "unused db oid" and run: "AttachIndexStorage tid oid (empty_disk (db_capacity db)) db = (Inr x, db')"
  shows "object_added oid Index_object db db'" and "idx_object_id idx = oid \<Longrightarrow> index_there db' t [] idx"
proof -
  let ?cap = "db_capacity db"
  have un: "db_objects db oid = None" "en_pools (db_engine db) oid = None" "?cap < (2 ^ 32 - 40) * PAGE_SIZE" using u by (simp_all add: unused_def)
  have room: "4096 \<le> ?cap"
  proof (rule ccontr)
    assume "\<not> 4096 \<le> ?cap"
    then have "\<exists>e d. AllocatePage (empty_disk ?cap) = (Inl e, d)" by (simp add: AllocatePage_def)
    then show False using run by (auto simp: AttachIndexStorage_def BPlusTree_open_def RegisterObject_def BufferPool_init_def pool_op_def bind_op_def
      NumPagesOnDisk_def NumPages_def NewPage_op_def NewPage_def)
  qed
  note tree = new_tree [OF room un(3)]
  let ?bp = "\<lparr>bp_pages = [0 \<mapsto> SerializeHeader INVALID_PAGE_ID], bp_dirty = {}, bp_observers = Map.empty,
      bp_disk = \<lparr>disk_file = SerializeHeader INVALID_PAGE_ID, next_page_id = 1, disk_capacity = ?cap\<rparr>\<rparr>"
  let ?en = "(db_engine db)\<lparr>en_pools := (en_pools (db_engine db))(oid \<mapsto> ?bp)\<rparr>"
  have db': "db' = db\<lparr>db_engine := ?en, db_objects := (db_objects db)(oid \<mapsto> Index_object)\<rparr>"
    using run tree(1) un(1) by (simp add: AttachIndexStorage_def emplace_def)
  show added: "object_added oid Index_object db db'"
    unfolding db' by (rule pool_added [OF p un(2) tree(2)]) (use un tree(3) in simp_all)
  have "object_pages oid ?en 0 = Some (SerializeHeader INVALID_PAGE_ID)"
    by (simp add: object_pages_def en_has_def en_page_def pool_has_def disk_has_def pool_page_def)
  then have "btree_at (object_pages oid ?en) []" by (auto simp: btree_at_def kRootHeaderPageId_def Deserialize_SerializeHeader)
  moreover have "pools_ok ?en" using added by (simp add: object_added_def extends_def db')
  ultimately have "index_at ?en oid []" by (simp add: index_at_def)
  then show "index_there db' t [] idx" if "idx_object_id idx = oid" using that by (simp add: index_there_def index_stores_def db')
qed

lemma attach_index_runs:
  assumes "unused db oid" and "PAGE_SIZE \<le> db_capacity db"
  shows "\<exists>db'. AttachIndexStorage tid oid (empty_disk (db_capacity db)) db = (Inr (), db')"
  using new_tree(1) [OF assms(2), of tid oid "db_engine db"] assms(1) by (simp add: AttachIndexStorage_def unused_def emplace_def)

section \<open>CREATE TABLE\<close>

text \<open>Object ids that have not been given out are not in use.\<close>

definition fresh_ids_unused :: "database \<Rightarrow> bool" where
  "fresh_ids_unused db \<longleftrightarrow> (\<forall>oid. cat_next_object_id (db_catalog db) \<le> oid \<longrightarrow> unused db oid)"

lemma unused_catalog [simp]: "unused (db\<lparr>db_catalog := c\<rparr>) oid = unused db oid"
  by (simp add: unused_def)

lemma object_added_unused: "object_added oid kind db db' \<Longrightarrow> unused db o' \<Longrightarrow> o' \<noteq> oid \<Longrightarrow> unused db' o'"
  by (auto simp: object_added_def unused_def)

lemma object_added_fields: "object_added oid kind db db' \<Longrightarrow> db_catalog db' = db_catalog db \<and> db_capacity db' = db_capacity db"
  by (auto simp: object_added_def)

lemma object_added_extends: "object_added oid kind db db' \<Longrightarrow> extends db db' \<and> pools_ok (db_engine db')"
  by (simp add: object_added_def extends_def)

lemma there_catalog [simp]:
  "table_there (db\<lparr>db_catalog := c\<rparr>) t rows = table_there db t rows" "index_there (db\<lparr>db_catalog := c\<rparr>) t rows idx = index_there db t rows idx"
  by (simp_all add: table_there_def index_there_def)

lemma FindTable_member:
  assumes "catalog_ok c"
  shows "t \<in> set (cat_tables c) \<longleftrightarrow> FindTable c (tab_name t) = Some t"
  using FindTable_ok [OF assms] find_SomeD [of "\<lambda>u. tab_name u = tab_name t"] by (auto simp: FindTable_def)

lemma pk_of_indexes: "PrimaryKeyIndex c n = find idx_is_primary_key (IndexesOnTable c n)"
proof -
  have "find (\<lambda>i. P i \<and> Q i) xs = find Q (filter P xs)" for P Q and xs :: "IndexInfo list" by (induction xs) auto
  then show ?thesis by (simp add: PrimaryKeyIndex_def IndexesOnTable_def)
qed

lemma CreateTable_next:
  assumes "validate_table c name columns pk = None" and "CreateTable name columns pk c = (r, c')"
  shows "cat_next_object_id c' = cat_next_object_id c + (if pk = None then 1 else 2)"
proof -
  obtain pr where "Persist (with_table c name columns pk) = (pr, c')"
    using assms CreateTable_run [OF assms(1)] by (cases "Persist (with_table c name columns pk)") (auto simp: bind_op_def split: sum.splits)
  from Persist_schema(3) [OF this] show ?thesis by (simp add: with_table_def)
qed

lemma next_ids:
  fixes n :: ObjectId
  assumes "unat n + 2 < 2 ^ 32"
  shows "n < n + 1" "n + 1 < n + 2" "n + 1 \<noteq> n" "n + 1 \<le> oid \<Longrightarrow> n \<le> oid \<and> oid \<noteq> n" "n + 2 \<le> oid \<Longrightarrow> n \<le> oid \<and> oid \<noteq> n \<and> oid \<noteq> n + 1"
proof -
  have u: "unat (n + 1) = unat n + 1" "unat (n + 2) = unat n + 2" using assms by (simp_all add: unat_word_ariths)
  then show "n < n + 1" "n + 1 < n + 2" "n + 1 \<noteq> n" by (simp_all add: word_less_nat_alt)
  then show "n + 1 \<le> oid \<Longrightarrow> n \<le> oid \<and> oid \<noteq> n" "n + 2 \<le> oid \<Longrightarrow> n \<le> oid \<and> oid \<noteq> n \<and> oid \<noteq> n + 1" by auto
qed

text \<open>The storage of a new table in a database whose catalog has it already.\<close>

lemma attach_table:
  assumes pok: "pools_ok (db_engine db)" and un: "\<And>oid. cat_next_object_id c \<le> oid \<Longrightarrow> unused db oid"
    and room: "unat (cat_next_object_id c) + 2 < 2 ^ 32" and nx: "cat_next_object_id (db_catalog db) = cat_next_object_id c + (if pk = None then 1 else 2)"
    and ixs: "IndexesOnTable (db_catalog db) n = new_pk_index c n pk" and t: "tab_heap_object_id t = cat_next_object_id c"
  shows "ends (\<lambda>_. db_capacity db < PAGE_SIZE) (bind_op (open_file (cat_next_object_id c)) (\<lambda>d. bind_op (AttachHeapStorage (cat_next_object_id c) d) (\<lambda>_.
      if pk = None then return_op ()
      else bind_op get_op (\<lambda>db. case PrimaryKeyIndex (db_catalog db) n of
          None \<Rightarrow> throw_op null_pointer
        | Some idx \<Rightarrow> bind_op (open_file (idx_object_id idx)) (AttachIndexStorage tid (idx_object_id idx)))))) db
    (\<lambda>_ db'. extends db db' \<and> pools_ok (db_engine db') \<and> db_catalog db' = db_catalog db \<and> fresh_ids_unused db' \<and>
      (settled (db_engine db) \<longrightarrow> settled (db_engine db')) \<and> table_there db' t [] \<and> (\<forall>idx \<in> set (new_pk_index c n pk). index_there db' t [] idx))"
    (is "ends ?mf _ db ?Q")
proof -
  let ?next = "cat_next_object_id c"
  obtain db1 where at: "AttachHeapStorage ?next (empty_disk (db_capacity db)) db = (Inr (), db1)" "object_added ?next Heap_object db db1" "table_there db1 t []"
    using attach_heap [OF pok un [of ?next], of t] t by auto
  note f1 = object_added_fields [OF at(2)] and e1 = object_added_extends [OF at(2)]
  have un1: "unused db1 oid" if "?next \<le> oid" "oid \<noteq> ?next" for oid by (rule object_added_unused [OF at(2) un that(2)]) (rule that)
  show ?thesis
  proof (cases pk)
    case None
    then show ?thesis using at e1 f1 un1 nx next_ids(4) [OF room] open_unused [OF un [of ?next]]
      by (auto simp: ends_def bind_op_def fresh_ids_unused_def new_pk_index_def object_added_def)
  next
    case (Some k)
    then obtain idx where idx: "new_pk_index c n pk = [idx]" "idx_object_id idx = ?next + 1" "PrimaryKeyIndex (db_catalog db) n = Some idx"
      using ixs by (auto simp: new_pk_index_def pk_of_indexes)
    have u1: "unused db1 (?next + 1)" using un1 [of "?next + 1"] next_ids [OF room] by simp
    have "ends ?mf (AttachIndexStorage tid (?next + 1) (empty_disk (db_capacity db1))) db1 ?Q"
    proof (cases "AttachIndexStorage tid (?next + 1) (empty_disk (db_capacity db1)) db1")
      case (Pair x db')
      show ?thesis
      proof (cases x)
        case (Inl e)
        then show ?thesis using attach_index_runs [OF u1, of tid] Pair f1 by (auto simp: ends_def not_less [symmetric])
      next
        case (Inr u)
        note a2 = attach_index [OF conjunct2 [OF e1] u1 Pair [unfolded Inr]]
        note f2 = object_added_fields [OF a2(1)] and e2 = object_added_extends [OF a2(1)]
        have "unused db' oid" if "?next + 2 \<le> oid" for oid
          using object_added_unused [OF a2(1) un1] next_ids(5) [OF room that] by auto
        then have "fresh_ids_unused db'" using f1 f2 nx Some by (simp add: fresh_ids_unused_def)
        moreover have "settled (db_engine db) \<longrightarrow> settled (db_engine db')" using at(2) a2(1) by (simp add: object_added_def)
        ultimately show ?thesis using extends_trans e1 e2 f1 f2 idx a2(2) [OF idx(2)] extends_there(1) [OF conjunct1 [OF e2] at(3)] Pair Inr by (auto simp: ends_def)
      qed
    qed
    then show ?thesis using Some idx f1 at(1) open_unused [OF u1] open_unused [OF un [of ?next]]
      by (auto simp: ends_def bind_op_def get_op_def split: prod.splits sum.splits)
  qed
qed

lemma stores_there:
  assumes "stores db D" and "FindTable (db_catalog db) n = Some t"
  shows "table_there db t (D n)" and "idx \<in> set (IndexesOnTable (db_catalog db) n) \<Longrightarrow> index_there db t (D n) idx"
  using stores_table [OF assms] by (auto simp: table_there_def index_there_def)

lemma stores_new_table:
  assumes st: "stores db D" and ext: "extends (db\<lparr>db_catalog := c'\<rparr>) db'" and p: "pools_ok (db_engine db')" and c': "db_catalog db' = c'" "catalog_ok c'"
    and old: "\<And>m. m \<noteq> n \<Longrightarrow> FindTable c' m = FindTable (db_catalog db) m \<and> IndexesOnTable c' m = IndexesOnTable (db_catalog db) m"
    and new: "FindTable c' n = Some t" "table_there db' t []" "\<forall>idx \<in> set (IndexesOnTable c' n). index_there db' t [] idx"
  shows "stores db' (D(n := []))"
proof -
  have "table_there db' u ((D(n := [])) (tab_name u)) \<and> (\<forall>idx \<in> set (IndexesOnTable c' (tab_name u)). index_there db' u ((D(n := [])) (idx_table_name idx)) idx)"
    if u: "u \<in> set (cat_tables c')" for u
  proof (cases "tab_name u = n")
    case True
    then have "u = t" using FindTable_member [OF c'(2)] u new(1) by simp
    with True new(2,3) show ?thesis by (simp add: IndexesOnTable_def)
  next
    case False
    then have "FindTable (db_catalog db) (tab_name u) = Some u" using FindTable_member [OF c'(2)] u old by simp
    note th = stores_there [OF st this]
    show ?thesis using False th old [OF False] extends_there [OF ext] by (simp add: IndexesOnTable_def)
  qed
  then show ?thesis using c' p by (simp add: stores_holding holding_there)
qed

lemma create_table_ends:
  assumes st: "stores db D" and fr: "fresh_ids_unused db" and plain: "plain_name n" "list_all plain_name (map col_name columns)"
    and room: "unat (cat_next_object_id (db_catalog db)) + 2 < 2 ^ 32" and v: "validate_table (db_catalog db) n columns pk = None"
  shows "ends (\<lambda>_. cat_fault (db_catalog db) \<noteq> No_fault \<or> db_capacity db < PAGE_SIZE) (Database_CreateTable tid n columns pk) db
    (\<lambda>_ db'. stores db' (D(n := [])) \<and> fresh_ids_unused db' \<and> (settled (db_engine db) \<longrightarrow> settled (db_engine db')) \<and>
      FindTable (db_catalog db') n = Some (new_table (db_catalog db) n columns pk) \<and> IndexesOnTable (db_catalog db') n = new_pk_index (db_catalog db) n pk \<and>
      (\<forall>m. m \<noteq> n \<longrightarrow> FindTable (db_catalog db') m = FindTable (db_catalog db) m \<and> IndexesOnTable (db_catalog db') m = IndexesOnTable (db_catalog db) m))"
    (is "ends ?mf _ db ?Q")
proof -
  let ?c = "db_catalog db" and ?next = "cat_next_object_id (db_catalog db)"
  let ?t = "new_table ?c n columns pk"
  have ok: "catalog_ok ?c" and pok: "pools_ok (db_engine db)" using st by (simp_all add: stores_def)
  obtain r c' where cr: "CreateTable n columns pk ?c = (r, c')" by (cases "CreateTable n columns pk ?c")
  have cok: "catalog_ok c'" and r: "if cat_fault ?c = No_fault then r = Inr ?next else \<exists>e. r = Inl e" and new: "FindTable c' n = Some ?t" "IndexesOnTable c' n = new_pk_index ?c n pk"
    and old: "\<And>m. m \<noteq> n \<Longrightarrow> FindTable c' m = FindTable ?c m \<and> IndexesOnTable c' m = IndexesOnTable ?c m"
    using CreateTable_correct [OF ok plain room cr] v by auto
  let ?db = "db\<lparr>db_catalog := c'\<rparr>"
  have un: "unused ?db oid" if "?next \<le> oid" for oid using fr that by (simp add: fresh_ids_unused_def)
  have nx: "cat_next_object_id (db_catalog ?db) = ?next + (if pk = None then 1 else 2)" using CreateTable_next [OF v cr] by simp
  have "ends (\<lambda>_. db_capacity ?db < PAGE_SIZE) (bind_op (open_file ?next) (\<lambda>d. bind_op (AttachHeapStorage ?next d) (\<lambda>_.
      if pk = None then return_op ()
      else bind_op get_op (\<lambda>db. case PrimaryKeyIndex (db_catalog db) n of
          None \<Rightarrow> throw_op null_pointer
        | Some idx \<Rightarrow> bind_op (open_file (idx_object_id idx)) (AttachIndexStorage tid (idx_object_id idx)))))) ?db
    (\<lambda>_ db'. extends ?db db' \<and> pools_ok (db_engine db') \<and> db_catalog db' = db_catalog ?db \<and> fresh_ids_unused db' \<and>
      (settled (db_engine ?db) \<longrightarrow> settled (db_engine db')) \<and> table_there db' ?t [] \<and> (\<forall>idx \<in> set (new_pk_index ?c n pk). index_there db' ?t [] idx))"
    by (rule attach_table [OF _ un room nx]) (use pok new in \<open>simp_all add: new_table_def\<close>)
  moreover have "stores db' (D(n := []))"
    if "extends ?db db'" "pools_ok (db_engine db')" "db_catalog db' = c'" "table_there db' ?t []" "\<forall>idx \<in> set (new_pk_index ?c n pk). index_there db' ?t [] idx" for db'
    by (rule stores_new_table [OF st that(1-3) cok old new(1) that(4)]) (use that(5) new in simp_all)
  ultimately show ?thesis using r cr new old
    by (auto simp: Database_CreateTable_def ends_def bind_op_def catalog_op_def split: if_splits prod.splits sum.splits)
qed

section \<open>CREATE INDEX\<close>

lemma same_objects_trans: "same_objects a b \<Longrightarrow> same_objects b c \<Longrightarrow> same_objects a c"
  by (simp add: same_objects_def)

lemma same_objects_refl: "same_objects db db"
  by (simp add: same_objects_def)

lemma changed_objects: "changed oid db db' \<Longrightarrow> same_objects db db'"
  by (auto simp: changed_def frame_def same_objects_def)

lemma silent_objects: "silent db db' \<Longrightarrow> same_objects db db'"
  by (auto simp: silent_def quiet_def same_objects_def)

lemma same_objects_fresh: "same_objects db db' \<Longrightarrow> fresh_ids_unused db \<Longrightarrow> fresh_ids_unused db'"
  by (simp add: same_objects_def fresh_ids_unused_def unused_def)

lemma holding_silent:
  assumes "holding db H I" and "silent db db'"
  shows "holding db' H I"
proof -
  obtain en' where e: "db' = db\<lparr>db_engine := en'\<rparr>" "quiet (db_engine db) en'" using assms(2) by (auto simp: silent_def)
  have "heap_stores en' t rows" if "heap_stores (db_engine db) t rows" for t rows
    using that quiet_heap [OF e(2)] by (simp add: heap_stores_def)
  moreover have "index_stores en' t rows idx" if "index_stores (db_engine db) t rows idx" for t rows idx
    using that quiet_index [OF e(2)] by (auto simp: index_stores_def)
  ultimately show ?thesis using assms(1) e by (auto simp: holding_def quiet_def)
qed

lemma ends_engine_building:
  assumes "ends mf (engine_op f) db Q'" and "build.keeping oid {} f A" and "building oid (db_engine db)"
    and "\<And>x db'. Q' x db' \<Longrightarrow> building oid (db_engine db') \<Longrightarrow> Q x db'"
  shows "ends mf (engine_op f) db Q"
  unfolding ends_engine_op by (rule ends_building [OF assms(1) [unfolded ends_engine_op] assms(2,3)]) (use assms(4) in simp)

text \<open>The backfill: one insertion per row.\<close>

lemma index_rows_ends:
  assumes "holding db H I" and "FindTable (db_catalog db) n = Some t" and "idx \<in> set (IndexesOnTable (db_catalog db) n)"
    and "building (idx_object_id idx) (db_engine db)" and "ColumnIndex t (idx_column_name idx) = Inr i"
    and "\<forall>r \<in> set rs. row_fits (tab_columns t) (snd r)" and "\<forall>k. length (filter (\<lambda>r. index_key t idx (snd r) = k) (I idx @ rs)) \<le> kLeafMaxKeys"
    and "\<And>db'. same_objects db db' \<Longrightarrow> holding db' H (I(idx := I idx @ rs)) \<Longrightarrow> building (idx_object_id idx) (db_engine db') \<Longrightarrow> Q () db'"
  shows "ends page_failure (for_each (map (stored_row t) rs) (index_row tid t i (idx_object_id idx))) db Q"
  using assms
proof (induction rs arbitrary: db I)
  case Nil
  then show ?case using same_objects_refl by simp
next
  case (Cons r rs)
  let ?oid = "idx_object_id idx" and ?key = "index_key t idx (snd r)"
  have c: "catalog_ok (db_catalog db)" using Cons.prems(1) by (simp add: holding_def)
  have fits: "row_fits (tab_columns t) (snd r)" using Cons.prems(6) by simp
  obtain v where v: "value_at (snd r) i = Inr v" "lit_int_value v = ?key"
    using index_column_value [OF c Cons.prems(2,3) fits] Cons.prems(5) by (metis sum.inject(2))
  have few: "length (filter (\<lambda>r'. index_key t idx (snd r') = ?key) (I idx)) < kLeafMaxKeys"
    using Cons.prems(7) [rule_format, of ?key] by simp
  have room: "card (dom (object_pages ?oid (db_engine db))) + 40 < 2 ^ 32"
    using all_sized_room [of db] Cons.prems(4) by (simp add: building_def page_room_def)
  have "ends page_failure (engine_op (BPlusTree_Insert (engine_ops tid ?oid) ?key (fst r))) db
      (\<lambda>_ db1. changed ?oid db db1 \<and> holding db1 H (I(idx := I idx @ [r])))"
    by (rule index_insert_ends [OF Cons.prems(1-3) few room]) simp
  then have "ends page_failure (engine_op (BPlusTree_Insert (engine_ops tid ?oid) ?key (fst r))) db
      (\<lambda>_ db1. ends page_failure (for_each (map (stored_row t) rs) (index_row tid t i ?oid)) db1 Q)"
  proof (rule ends_engine_building [OF _ built_pages.Insert_keeping Cons.prems(4)], elim conjE)
    fix db1 assume ch: "changed ?oid db db1" and h1: "holding db1 H (I(idx := I idx @ [r]))" and b1: "building ?oid (db_engine db1)"
    show "ends page_failure (for_each (map (stored_row t) rs) (index_row tid t i ?oid)) db1 Q"
    proof (rule Cons.IH [OF h1 _ _ b1])
      show "Q () db'" if "same_objects db1 db'" "holding db' H ((I(idx := I idx @ [r]))(idx := (I(idx := I idx @ [r])) idx @ rs))" "building ?oid (db_engine db')" for db'
        by (rule Cons.prems(8) [OF same_objects_trans [OF changed_objects [OF ch] that(1)] _ that(3)]) (use that(2) in \<open>simp only: fun_upd_upd fun_upd_same append_assoc append_Cons append_Nil\<close>)
    qed (use Cons.prems(2-7) changed_catalog [OF ch] in simp_all)
  qed
  moreover have "index_row tid t i ?oid (stored_row t r) = engine_op (BPlusTree_Insert (engine_ops tid ?oid) ?key (fst r))"
    using v fits by (simp add: index_row_def stored_row_def DecodeRow_stored lift_sum_def bind_op_def fun_eq_iff)
  ultimately show ?case by simp
qed

text \<open>The tree with all rows, before its pages are written.\<close>

lemma backfill_ends:
  assumes h: "holding db H I" and t: "FindTable (db_catalog db) (ci_table_name stmt) = Some t" and idx: "idx \<in> set (IndexesOnTable (db_catalog db) (ci_table_name stmt))"
    and col: "idx_column_name idx = ci_column_name stmt" and b: "building (idx_object_id idx) (db_engine db)" and none: "I idx = []"
    and few: "\<forall>k. length (filter (\<lambda>r. index_key t idx (snd r) = k) (H (ci_table_name stmt))) \<le> kLeafMaxKeys"
    and Q: "\<And>db'. same_objects db db' \<Longrightarrow> holding db' H (I(idx := H (ci_table_name stmt))) \<Longrightarrow> building (idx_object_id idx) (db_engine db') \<Longrightarrow> Q () db'"
  shows "ends page_failure (backfill tid stmt (idx_object_id idx)) db Q"
proof -
  let ?n = "ci_table_name stmt" and ?oid = "idx_object_id idx" and ?heap = "tab_heap_object_id t"
  have c: "catalog_ok (db_catalog db)" using h by (simp add: holding_def)
  note hs = holding_table(3) [OF h t]
  obtain i where i: "ColumnIndex t (idx_column_name idx) = Inr i" using index_column_index [OF c t idx] by blast
  have "ends page_failure (engine_op (HeapFile_Scan tid ?heap)) db (\<lambda>rows db1. rows = map (stored_row t) (H ?n) \<and> silent db db1)"
    unfolding ends_engine_op using hs silent_engine by (intro HeapFile_Scan_ends) (auto simp: heap_stores_def)
  then have "ends page_failure (engine_op (HeapFile_Scan tid ?heap)) db (\<lambda>rows db1. ends page_failure (for_each rows (index_row tid t i ?oid)) db1 Q)"
  proof (rule ends_engine_building [OF _ scan_building b], elim conjE)
    fix rows db1 assume rows: "rows = map (stored_row t) (H ?n)" and s: "silent db db1" and b1: "building ?oid (db_engine db1)"
    have h1: "holding db1 H I" by (rule holding_silent [OF h s])
    show "ends page_failure (for_each rows (index_row tid t i ?oid)) db1 Q" unfolding rows
    proof (rule index_rows_ends [OF h1 _ _ b1 i])
      show "Q () db'" if "same_objects db1 db'" "holding db' H (I(idx := I idx @ H ?n))" "building ?oid (db_engine db')" for db'
        by (rule Q [OF same_objects_trans [OF silent_objects [OF s] that(1)] _ that(3)]) (use that(2) none in simp)
    qed (use t idx silent_catalog [OF s] hs few none in \<open>simp_all add: heap_stores_def\<close>)
  qed
  moreover have "db_objects db ?heap = Some Heap_object" by (rule holding_table(4) [OF h t])
  ultimately show ?thesis using t i col
    by (simp add: backfill_def ends_def bind_op_def get_op_def lift_sum_def GetHeapFileForTable_def GetHeapFile_def deref_def split: prod.splits sum.splits)
qed

text \<open>All pages of the new object are written.\<close>

lemma flush_object:
  assumes b: "building oid en" and p: "pools_ok en" and bp: "en_pools en oid = Some bp"
  defines "en' \<equiv> flush_txn (PageKey oid ` bp_dirty bp) en"
  shows "pool_op oid FlushAll en = (Inr (), en')" and "settled en'" and "\<And>o'. object_pages o' en' = object_pages o' en"
    and "en_heaps en' = en_heaps en" and "\<And>o'. (en_pools en' o' = None) = (en_pools en o' = None)"
proof -
  let ?D = "PageKey oid ` bp_dirty bp"
  note v = flush_txn_views [OF p, where D = ?D]
  have ok: "pool_ok bp" using p bp by (simp add: pools_ok_def)
  have pages: "pages_of ?D o' = (if o' = oid then bp_dirty bp else {})" for o' by (rule set_eqI) auto
  have "en_pools en' = (en_pools en)(oid \<mapsto> flush_set (bp_dirty bp) bp)"
  proof (rule ext)
    show "en_pools en' o' = ((en_pools en)(oid \<mapsto> flush_set (bp_dirty bp) bp)) o'" for o'
      using bp by (cases "en_pools en o'") (auto simp: en'_def flush_txn_def pages flush_set_def)
  qed
  then have en': "en' = en\<lparr>en_pools := (en_pools en)(oid \<mapsto> flush_set (bp_dirty bp) bp)\<rparr>" by (simp add: en'_def flush_txn_def)
  show "pool_op oid FlushAll en = (Inr (), en')"
    using bp FlushAll_eq [OF pool_ok_wf [OF ok]] by (simp add: pool_op_def en' flush_set_def)
  have "\<not> en_dirty en' k" for k
  proof
    assume "en_dirty en' k"
    then have d: "en_dirty en k" "k \<notin> ?D" using v(3) by (simp_all add: en'_def)
    moreover have "key_object k = oid" using b d(1) by (simp add: building_def)
    ultimately show False using bp by (cases k) (simp add: en_dirty_def)
  qed
  moreover have "all_sized en'" using b p flush_set_sized by (auto simp: building_def all_sized_def en'_def flush_txn_def pools_ok_def)
  ultimately show "settled en'" using v(1) by (simp add: settled_def en'_def)
  show "object_pages o' en' = object_pages o' en" for o' using v(2,4) by (auto simp: fun_eq_iff en'_def object_pages_def)
  show "en_heaps en' = en_heaps en" "(en_pools en' o' = None) = (en_pools en o' = None)" for o' by (simp_all add: en'_def flush_txn_def)
qed

text \<open>Storage for the new index, still empty, in a database whose catalog has it already.\<close>

definition new_index :: "catalog \<Rightarrow> CreateIndexStatement \<Rightarrow> IndexInfo" where
  "new_index c stmt =
     \<lparr>idx_name = ci_index_name stmt, idx_table_name = ci_table_name stmt, idx_column_name = ci_column_name stmt,
      idx_object_id = cat_next_object_id c, idx_is_primary_key = False\<rparr>"

lemma new_index_fields [simp]:
  "idx_table_name (new_index c stmt) = ci_table_name stmt" "idx_column_name (new_index c stmt) = ci_column_name stmt"
  "idx_object_id (new_index c stmt) = cat_next_object_id c" "idx_is_primary_key (new_index c stmt) = False"
  by (simp_all add: new_index_def)

lemma holding_new_index:
  assumes st: "stores db D" and c': "catalog_ok c'" "cat_tables c' = cat_tables (db_catalog db)"
    and ixs: "IndexesOnTable c' tn = IndexesOnTable (db_catalog db) tn @ [idx]" "\<And>n. n \<noteq> tn \<Longrightarrow> IndexesOnTable c' n = IndexesOnTable (db_catalog db) n"
    and add: "object_added oid Index_object (db\<lparr>db_catalog := c'\<rparr>) db'" and new: "\<And>t. index_there db' t [] idx"
  shows "holding db' D ((\<lambda>i. D (idx_table_name i))(idx := []))"
proof -
  have ext: "extends (db\<lparr>db_catalog := c'\<rparr>) db'" and p: "pools_ok (db_engine db')" and c: "db_catalog db' = c'"
    using object_added_extends [OF add] object_added_fields [OF add] by simp_all
  have "table_there db' t (D (tab_name t)) \<and>
      (\<forall>i \<in> set (IndexesOnTable c' (tab_name t)). index_there db' t (((\<lambda>i. D (idx_table_name i))(idx := [])) i) i)"
    if "t \<in> set (cat_tables c')" for t
  proof -
    have t: "table_there db t (D (tab_name t))" "\<forall>i \<in> set (IndexesOnTable (db_catalog db) (tab_name t)). index_there db t (D (idx_table_name i)) i"
      using st that c'(2) by (auto simp: stores_holding holding_there)
    then have "table_there db' t (D (tab_name t))" "\<forall>i \<in> set (IndexesOnTable (db_catalog db) (tab_name t)). index_there db' t (D (idx_table_name i)) i"
      using extends_there [OF ext] by simp_all
    then show ?thesis using new ixs by (cases "tab_name t = tn") simp_all
  qed
  then show ?thesis using c' c p by (simp add: holding_there)
qed

lemma CreateIndex_next:
  assumes "validate_index c name tn col = None" and "CreateIndex name tn col c = (r, c')"
  shows "cat_next_object_id c' = cat_next_object_id c + 1"
proof -
  obtain pr where "Persist (Catalog.with_index c name tn col) = (pr, c')"
    using assms CreateIndex_run [OF assms(1)] by (cases "Persist (Catalog.with_index c name tn col)") (auto simp: bind_op_def split: sum.splits)
  from Persist_schema(3) [OF this] show ?thesis by (simp add: Catalog.with_index_def)
qed

text \<open>The backfill and the write of the new pages complete the contents.\<close>

lemma populate_index:
  assumes h: "holding db D ((\<lambda>i. D (idx_table_name i))(idx := []))" and s: "settled (db_engine db)"
    and t: "FindTable (db_catalog db) (ci_table_name stmt) = Some t" and idx: "idx \<in> set (IndexesOnTable (db_catalog db) (ci_table_name stmt))"
    and names: "idx_column_name idx = ci_column_name stmt" "idx_table_name idx = ci_table_name stmt"
    and few: "\<forall>k. length (filter (\<lambda>r. index_key t idx (snd r) = k) (D (ci_table_name stmt))) \<le> kLeafMaxKeys"
  shows "ends page_failure (bind_op (backfill tid stmt (idx_object_id idx)) (\<lambda>_. engine_op (pool_op (idx_object_id idx) FlushAll))) db
    (\<lambda>_ db'. stores db' D \<and> settled (db_engine db') \<and> same_objects db db')"
  unfolding ends_bind
proof (rule backfill_ends [OF h t idx names(1) _ _ few])
  let ?oid = "idx_object_id idx"
  fix db1 assume so: "same_objects db db1" and h1: "holding db1 D (((\<lambda>i. D (idx_table_name i))(idx := []))(idx := D (ci_table_name stmt)))"
    and b1: "building ?oid (db_engine db1)"
  have "((\<lambda>i. D (idx_table_name i))(idx := []))(idx := D (ci_table_name stmt)) = (\<lambda>i. D (idx_table_name i))" using names(2) by (simp add: fun_eq_iff)
  with h1 have st: "stores db1 D" by (simp add: stores_holding)
  have p: "pools_ok (db_engine db1)" using st by (simp add: stores_def)
  have "index_there db1 t (D (ci_table_name stmt)) idx" by (rule stores_there(2) [OF st]) (use so t idx in \<open>simp_all add: same_objects_def\<close>)
  then obtain bp where bp: "en_pools (db_engine db1) ?oid = Some bp" by (auto simp: index_there_def index_stores_def index_at_def)
  note f = flush_object [OF b1 p bp]
  let ?db = "db1\<lparr>db_engine := flush_txn (PageKey ?oid ` bp_dirty bp) (db_engine db1)\<rparr>"
  have "extends db1 ?db" using f(2-5) by (auto simp: extends_def settled_def)
  then have "stores ?db D" using st extends_there [of db1 ?db] f(2) by (simp add: stores_holding holding_there settled_def)
  moreover have "same_objects db ?db" by (rule same_objects_trans [OF so]) (use f(5) in \<open>simp add: same_objects_def\<close>)
  ultimately show "ends page_failure (engine_op (pool_op ?oid FlushAll)) db1 (\<lambda>_ db'. stores db' D \<and> settled (db_engine db') \<and> same_objects db db')"
    using f(1,2) by (simp add: ends_def engine_op_def)
qed (use s in \<open>simp_all add: settled_def building_def\<close>)

lemma create_index_ends:
  assumes st: "stores db D" and s: "settled (db_engine db)" and fr: "fresh_ids_unused db" and plain: "plain_name (ci_index_name stmt)"
    and room: "unat (cat_next_object_id (db_catalog db)) + 2 < 2 ^ 32"
    and v: "validate_index (db_catalog db) (ci_index_name stmt) (ci_table_name stmt) (ci_column_name stmt) = None"
    and few: "\<And>t k. FindTable (db_catalog db) (ci_table_name stmt) = Some t \<Longrightarrow>
      length (filter (\<lambda>r. index_key t (new_index (db_catalog db) stmt) (snd r) = k) (D (ci_table_name stmt))) \<le> kLeafMaxKeys"
  shows "ends (\<lambda>e. cat_fault (db_catalog db) \<noteq> No_fault \<or> db_capacity db < PAGE_SIZE \<or> page_failure e)
    (Database_CreateIndex tid (ci_index_name stmt) (ci_table_name stmt) (ci_column_name stmt) (Some (backfill tid stmt))) db
    (\<lambda>_ db'. stores db' D \<and> settled (db_engine db') \<and> fresh_ids_unused db' \<and> cat_tables (db_catalog db') = cat_tables (db_catalog db) \<and>
      IndexesOnTable (db_catalog db') (ci_table_name stmt) = IndexesOnTable (db_catalog db) (ci_table_name stmt) @ [new_index (db_catalog db) stmt] \<and>
      (\<forall>n. n \<noteq> ci_table_name stmt \<longrightarrow> IndexesOnTable (db_catalog db') n = IndexesOnTable (db_catalog db) n))"
    (is "ends ?mf _ db (\<lambda>_. ?Q)")
proof -
  let ?c = "db_catalog db" and ?next = "cat_next_object_id (db_catalog db)" and ?n = "ci_table_name stmt" and ?idx = "new_index (db_catalog db) stmt"
  have ok: "catalog_ok ?c" and pok: "pools_ok (db_engine db)" using st by (simp_all add: stores_def)
  obtain r c' where cr: "CreateIndex (ci_index_name stmt) ?n (ci_column_name stmt) ?c = (r, c')" by (cases "CreateIndex (ci_index_name stmt) ?n (ci_column_name stmt) ?c")
  have cok: "catalog_ok c'" "cat_tables c' = cat_tables ?c" and r: "if cat_fault ?c = No_fault then r = Inr ?next else \<exists>e. r = Inl e"
    and ixs: "IndexesOnTable c' ?n = IndexesOnTable ?c ?n @ [?idx]" and old: "\<And>m. m \<noteq> ?n \<Longrightarrow> IndexesOnTable c' m = IndexesOnTable ?c m"
    using CreateIndex_correct [OF ok plain room cr] v by (auto simp: new_index_def)
  obtain t where t: "FindTable ?c ?n = Some t" using v by (auto simp: validate_index_def split: if_splits option.splits)
  let ?db = "db\<lparr>db_catalog := c'\<rparr>"
  have un: "unused ?db o'" if "?next \<le> o'" for o' using fr that by (simp add: fresh_ids_unused_def)
  have "ends ?mf (bind_op (AttachIndexStorage tid ?next (empty_disk (db_capacity ?db))) (\<lambda>_. bind_op (backfill tid stmt ?next) (\<lambda>_. engine_op (pool_op ?next FlushAll)))) ?db (\<lambda>_. ?Q)"
  proof (cases "AttachIndexStorage tid ?next (empty_disk (db_capacity ?db)) ?db")
    case (Pair x db1)
    show ?thesis
    proof (cases x)
      case (Inl e)
      then have "db_capacity db < PAGE_SIZE" using attach_index_runs [OF un [of ?next], of tid] Pair by (auto simp: not_less [symmetric])
      then show ?thesis using Pair Inl by (simp add: ends_def bind_op_def)
    next
      case (Inr u)
      note a = attach_index [OF _ un Pair [unfolded Inr]]
      have add: "object_added ?next Index_object ?db db1" using a(1) pok by simp
      have c1: "db_catalog db1 = c'" using object_added_fields [OF add] by simp
      have hold: "holding db1 D ((\<lambda>i. D (idx_table_name i))(?idx := []))"
        by (rule holding_new_index [OF st cok ixs old add]) (use a(2) pok in simp_all)
      have s1: "settled (db_engine db1)" using add s by (simp add: object_added_def)
      have f1: "fresh_ids_unused db1" using object_added_unused [OF add un] next_ids(4) [OF room] CreateIndex_next [OF v cr] c1 by (auto simp: fresh_ids_unused_def)
      have "ends page_failure (bind_op (backfill tid stmt (idx_object_id ?idx)) (\<lambda>_. engine_op (pool_op (idx_object_id ?idx) FlushAll))) db1
          (\<lambda>_ db'. stores db' D \<and> settled (db_engine db') \<and> same_objects db1 db')"
        by (rule populate_index [OF hold s1, of stmt t]) (use c1 t cok ixs few [OF t] in \<open>simp_all add: FindTable_def\<close>)
      then have "ends ?mf (bind_op (backfill tid stmt ?next) (\<lambda>_. engine_op (pool_op ?next FlushAll))) db1 (\<lambda>_. ?Q)"
        using same_objects_fresh [OF _ f1] c1 cok ixs old by (auto simp: ends_def same_objects_def split: prod.splits sum.splits)
      then show ?thesis using Pair Inr by (simp add: ends_def bind_op_def)
    qed
  qed
  then show ?thesis using r cr open_unused [OF un [of ?next]]
    by (auto simp: Database_CreateIndex_def ends_def bind_op_def catalog_op_def split: if_splits prod.splits sum.splits)
qed

section \<open>The statements\<close>

lemma Execute_ddl:
  "Execute tid (CreateTable_stmt s) db = (if HasActiveTransaction (db_engine db) then (Inl (Logic_error ''DDL statement''), db)
     else bind_op (Database_CreateTable tid (ct_table_name s) (ct_columns s) (ct_primary_key_column s)) (\<lambda>_. return_op no_result) db)"
  "Execute tid (CreateIndex_stmt i) db = (if HasActiveTransaction (db_engine db) then (Inl (Logic_error ''DDL statement''), db)
     else bind_op (Database_CreateIndex tid (ci_index_name i) (ci_table_name i) (ci_column_name i) (Some (backfill tid i))) (\<lambda>_. return_op no_result) db)"
  by (simp_all add: Execute_def ExecuteCreateTable_def ExecuteCreateIndex_def RequireNoActiveTransaction_def bind_op_def)

lemma rejected_ddl:
  "validate_table (db_catalog db) n columns pk = Some e \<Longrightarrow> Database_CreateTable tid n columns pk db = (Inl e, db)"
  "validate_index (db_catalog db) n t col = Some e \<Longrightarrow> Database_CreateIndex tid n t col fill db = (Inl e, db)"
  by (simp_all add: Database_CreateTable_def Database_CreateIndex_def bind_op_def catalog_op_def CreateTable_def CreateIndex_def)



end
