(* ===== verification/Explicit_Transactions.thy ===== *)
theory Explicit_Transactions
  imports Statement_Execution
begin

text \<open>
  Transactions of several statements, \<open>BEGIN\<close> to \<open>COMMIT\<close> or \<open>ROLLBACK\<close>, on the contents of the database: a commit has the effects of
  all statements one after the other, a rollback none, also when a statement or the commit has failed before.
\<close>

section \<open>Statements in sequence\<close>

text \<open>A client that sends statements until one fails.\<close>

fun execute_all :: "thread_id \<Rightarrow> Statement list \<Rightarrow> (database, ExecuteResult list) operation" where
  "execute_all tid [] = return_op []"
| "execute_all tid (stmt # stmts) = bind_op (Execute tid stmt) (\<lambda>r. bind_op (execute_all tid stmts) (\<lambda>rs. return_op (r # rs)))"

fun effects :: "catalog \<Rightarrow> (string \<Rightarrow> row list) \<Rightarrow> Statement list \<Rightarrow> ExecuteResult list \<Rightarrow> (string \<Rightarrow> row list) \<Rightarrow> bool" where
  "effects c D [] rs D' = (rs = [] \<and> D' = D)"
| "effects c D (stmt # stmts) rs D' = (\<exists>r rs' D1. rs = r # rs' \<and> statement_effect c D stmt r D1 \<and> effects c D1 stmts rs' D')"

fun admissible_all :: "catalog \<Rightarrow> (string \<Rightarrow> row list) \<Rightarrow> Statement list \<Rightarrow> bool" where
  "admissible_all c D [] = True"
| "admissible_all c D (stmt # stmts) =
     (admissible c D stmt \<and> (\<forall>r D1. statement_effect c D stmt r D1 \<longrightarrow> admissible_all c D1 stmts))"

section \<open>Within the transaction\<close>

lemma running_current: "running_db db0 tid txn K db \<Longrightarrow> GetCurrentTransaction tid (db_engine db) = Some txn"
  and tracked_current: "tracked_db db0 tid txn db \<Longrightarrow> GetCurrentTransaction tid (db_engine db) = Some txn"
  by (simp_all add: running_db_def tracked_db_def running_def tracked_def GetCurrentTransaction_def)

lemma Execute_within:
  "data_statement stmt \<Longrightarrow> GetCurrentTransaction tid (db_engine db) = Some txn \<Longrightarrow> Execute tid stmt db = ExecuteInCurrentTransaction tid stmt db"
  by (cases stmt) (simp_all add: Execute_def data_statement_def)

lemma execute_all_kept:
  assumes "running_db db0 tid txn {} db" and "list_all data_statement stmts"
  shows "case execute_all tid stmts db of (Inl _, db') \<Rightarrow> tracked_db db0 tid txn db' | (Inr _, db') \<Rightarrow> running_db db0 tid txn {} db'"
  using assms
proof (induction stmts arbitrary: db)
  case (Cons stmt stmts)
  have "Execute tid stmt db = ExecuteInCurrentTransaction tid stmt db"
    using Execute_within running_current Cons.prems by auto
  then show ?case using stmt.keepingD [OF statement_kept Cons.prems(1), of stmt] Cons.IH Cons.prems(2)
    by (fastforce simp: bind_op_def split: prod.splits sum.splits)
qed simp

lemma execute_all_effects:
  assumes "running_db db0 tid txn {} db" and "stores db D" and "admissible_all (db_catalog db0) D stmts" and "list_all data_statement stmts"
    and "execute_all tid stmts db = (Inr rs, db')"
  shows "\<exists>D'. effects (db_catalog db0) D stmts rs D' \<and> stores db' D'"
  using assms
proof (induction stmts arbitrary: db D rs)
  case (Cons stmt stmts)
  note r = Cons.prems(1)
  have data: "data_statement stmt" and ok: "admissible (db_catalog db) D stmt" using Cons.prems(3,4) running_catalog [OF r] by simp_all
  have within: "Execute tid stmt db = ExecuteInCurrentTransaction tid stmt db" by (rule Execute_within [OF data running_current [OF r]])
  obtain res db1 rs' where ex: "ExecuteInCurrentTransaction tid stmt db = (Inr res, db1)" and rest: "execute_all tid stmts db1 = (Inr rs', db')" and rs: "rs = res # rs'"
    using Cons.prems(5) by (auto simp: within bind_op_def split: prod.splits sum.splits)
  obtain D1 where e: "statement_effect (db_catalog db0) D stmt res D1" and st1: "stores db1 D1"
    using statement_refines [OF Cons.prems(2) r ok data ex] running_catalog [OF r] by auto
  have "running_db db0 tid txn {} db1" using stmt.keepingD [OF statement_kept [OF data] r, unfolded ex] by simp
  from Cons.IH [OF this st1 _ _ rest] e Cons.prems(3,4) rs show ?case by auto
qed simp

section \<open>Beginning and ending\<close>

lemma begin_cases:
  assumes st: "stores db D" and s: "settled (db_engine db)" and run: "Execute tid BeginStatement db = (r, db1)"
  shows "case r of
      Inl e \<Rightarrow> en_pools (db_engine db1) = en_pools (db_engine db) \<and> en_heaps (db_engine db1) = en_heaps (db_engine db) \<and> en_current (db_engine db1) = en_current (db_engine db) \<and> db1 = db\<lparr>db_engine := db_engine db1\<rparr>
    | Inr _ \<Rightarrow> stores db1 D \<and> (\<exists>txn. running_db db tid txn {} db1)"
proof -
  obtain b en1 where b: "Begin tid (db_engine db) = (b, en1)" by (cases "Begin tid (db_engine db)")
  then have db1: "db1 = db\<lparr>db_engine := en1\<rparr>" and r: "r = (case b of Inl e \<Rightarrow> Inl e | Inr _ \<Rightarrow> Inr no_result)"
    using run by (auto simp: Execute_def ExecuteBegin_def bind_op_def engine_op_def split: sum.splits)
  show ?thesis
  proof (cases b)
    case (Inl e)
    then have "en_pools en1 = en_pools (db_engine db) \<and> en_heaps en1 = en_heaps (db_engine db)" using Begin_fails b by blast
    moreover have "en_current en1 = en_current (db_engine db)"
      using b Inl by (auto simp: Begin_def Let_def bind_op_def wal_op_def split: if_splits prod.splits sum.splits)
    ultimately show ?thesis using Inl r db1 by simp
  next
    case (Inr txn)
    then have "running_db db tid txn {} db1" using Begin_running [OF s] b db1 by (simp add: running_db_def)
    then show ?thesis using Inr r db1 Begin_stores [OF st] b by auto
  qed
qed

text \<open>Whatever has been done in the transaction, a rollback brings the contents back.\<close>

lemma rollback_cases:
  assumes st: "stores db D" and s: "settled (db_engine db)" and t: "tracked_db db tid txn db2" and run: "Execute tid RollbackStatement db2 = (r, db')"
  shows "(\<forall>k p. on_disk (db_engine db) k = Some p \<longrightarrow> on_disk (db_engine db') k = Some p)" and "same_objects db db'"
    and "all_sized (db_engine db') \<Longrightarrow> stores db' D \<and> settled (db_engine db')" and "r = Inr res \<Longrightarrow> GetCurrentTransaction tid (db_engine db') = None"
proof -
  obtain y en4 where ab: "Abort tid txn (db_engine db2) = (y, en4)" by (cases "Abort tid txn (db_engine db2)")
  have t2: "tracked (db_engine db) tid txn {} (db_engine db2)" and d2: "db2\<lparr>db_engine := en4\<rparr> = db\<lparr>db_engine := en4\<rparr>"
    using t unfolding tracked_db_def by (blast, metis database.surjective database.update_convs(2))
  note rs = Abort_restored [OF t2 ab]
  have db': "db' = db\<lparr>db_engine := en4\<rparr>" and r: "r = Inr res \<Longrightarrow> y = Inr ()"
    using run ab d2 tracked_current [OF t] by (auto simp: Execute_def ExecuteRollback_def bind_op_def get_op_def engine_op_def split: sum.splits)
  show "\<forall>k p. on_disk (db_engine db) k = Some p \<longrightarrow> on_disk (db_engine db') k = Some p" "same_objects db db'"
    using rs(1) same_objects_engine [of en4 db] by (simp_all add: db' restored_def only_grown_def)
  show "stores db' D \<and> settled (db_engine db')" if "all_sized (db_engine db')"
    using that stores_restored [OF st s rs(1)] restored_settled [OF rs(1)] by (simp add: db')
  show "GetCurrentTransaction tid (db_engine db') = None" if "r = Inr res" using rs(2) [OF r [OF that]] by (simp add: GetCurrentTransaction_def db')
qed

lemma commit_cases:
  assumes st: "stores db2 D'" and r2: "running_db db tid txn {} db2" and run: "Execute tid CommitStatement db2 = (r, db')"
  shows "case r of Inl e \<Rightarrow> tracked_db db tid txn db'
    | Inr _ \<Rightarrow> stores db' D' \<and> settled (db_engine db') \<and> same_objects db db' \<and> GetCurrentTransaction tid (db_engine db') = None"
proof -
  have t2: "tracked (db_engine db) tid txn {} (db_engine db2)" and r2e: "running (db_engine db) tid txn {} (db_engine db2)" and d2: "db2\<lparr>db_engine := en'\<rparr> = db\<lparr>db_engine := en'\<rparr>" for en'
    using r2 unfolding running_db_def running_def by (blast, blast, metis database.surjective database.update_convs(2))
  obtain y en3 where com: "Commit tid txn (db_engine db2) = (y, en3)" by (cases "Commit tid txn (db_engine db2)")
  have db': "db' = db\<lparr>db_engine := en3\<rparr>" and r: "r = (case y of Inl e \<Rightarrow> Inl e | Inr _ \<Rightarrow> Inr no_result)"
    using run com d2 running_current [OF r2] by (auto simp: Execute_def ExecuteCommit_def bind_op_def get_op_def engine_op_def split: sum.splits)
  show ?thesis
  proof (cases y)
    case (Inl e)
    then show ?thesis using r Commit_fails_tracked [OF t2, of e en3] com by (simp add: tracked_db_def db')
  next
    case (Inr u)
    have "pools_ok (db_engine db2)" using st by (simp add: stores_def)
    note c = Commit_settles [OF this r2e com [unfolded Inr]]
    have "stores db' D'" unfolding db' d2 [symmetric] by (rule stores_same_pages [OF st _ c(2-4)]) (use c(1) in \<open>simp add: settled_def\<close>)
    moreover have "same_objects db db'" unfolding db' by (rule same_objects_engine) (use c(4) t2 in \<open>simp add: tracked_def only_grown_def\<close>)
    ultimately show ?thesis using Inr r c(1,5) by (simp add: db' GetCurrentTransaction_def)
  qed
qed

section \<open>Whole transactions\<close>

definition run_transaction :: "thread_id \<Rightarrow> Statement list \<Rightarrow> Statement \<Rightarrow> (database, ExecuteResult list) operation" where
  "run_transaction tid stmts ending =
     bind_op (Execute tid BeginStatement) (\<lambda>_. bind_op (execute_all tid stmts) (\<lambda>rs. bind_op (Execute tid ending) (\<lambda>_. return_op rs)))"

lemma committed_cases:
  assumes st: "stores db D" and s: "settled (db_engine db)" and cur: "GetCurrentTransaction tid (db_engine db) = None"
    and data: "list_all data_statement stmts" and ok: "admissible_all (db_catalog db) D stmts"
  shows "case run_transaction tid stmts CommitStatement db of
      (Inr rs, db') \<Rightarrow> settled (db_engine db') \<and> same_objects db db' \<and> GetCurrentTransaction tid (db_engine db') = None \<and>
        (\<exists>D'. effects (db_catalog db) D stmts rs D' \<and> stores db' D')
    | (Inl e, db') \<Rightarrow> (case Execute tid RollbackStatement db' of (r, db'') \<Rightarrow>
        (\<forall>k p. on_disk (db_engine db) k = Some p \<longrightarrow> on_disk (db_engine db'') k = Some p) \<and> same_objects db db'' \<and>
        (all_sized (db_engine db'') \<longrightarrow> stores db'' D \<and> settled (db_engine db'')))"
proof -
  obtain b db1 where bg: "Execute tid BeginStatement db = (b, db1)" by (cases "Execute tid BeginStatement db")
  note b = begin_cases [OF st s bg]
  have undone: "case Execute tid RollbackStatement db' of (r, db'') \<Rightarrow>
        (\<forall>k p. on_disk (db_engine db) k = Some p \<longrightarrow> on_disk (db_engine db'') k = Some p) \<and> same_objects db db'' \<and>
        (all_sized (db_engine db'') \<longrightarrow> stores db'' D \<and> settled (db_engine db''))" if "tracked_db db tid txn db'" for txn db'
    using rollback_cases [OF st s that] by (cases "Execute tid RollbackStatement db'") auto
  show ?thesis
  proof (cases b)
    case (Inl e)
    let ?en = "db_engine db1"
    have "Execute tid RollbackStatement db1 = (Inl (Logic_error ''ROLLBACK: no active transaction on this thread''), db1)"
      using b Inl cur by (simp add: Execute_def ExecuteRollback_def bind_op_def get_op_def GetCurrentTransaction_def)
    moreover have same: "en_pools ?en = en_pools (db_engine db)" "en_heaps ?en = en_heaps (db_engine db)" "db1 = db\<lparr>db_engine := ?en\<rparr>" using b Inl by auto
    moreover have "restored (db_engine db) (db_engine db)" using settled_coherent [OF s] only_grown_refl by (simp add: restored_def)
    then have r: "restored (db_engine db) ?en" using restored_same same(1,2) by blast
    moreover have "on_disk ?en = on_disk (db_engine db)" using same(1) by (simp add: on_disk_def fun_eq_iff)
    moreover have "same_objects db db1" using same same_objects_engine by metis
    ultimately show ?thesis using bg Inl stores_restored [OF st s r] restored_settled [OF r]
      by (simp add: run_transaction_def bind_op_def)
  next
    case (Inr u)
    then obtain txn where st1: "stores db1 D" and r1: "running_db db tid txn {} db1" using b by auto
    obtain x db2 where ex: "execute_all tid stmts db1 = (x, db2)" by (cases "execute_all tid stmts db1")
    note k = execute_all_kept [OF r1 data, unfolded ex]
    show ?thesis
    proof (cases x)
      case e: (Inl e)
      then show ?thesis using undone k bg Inr ex by (simp add: run_transaction_def bind_op_def)
    next
      case rs: (Inr rs)
      then have r2: "running_db db tid txn {} db2" using k by simp
      obtain D' where D': "effects (db_catalog db) D stmts rs D'" "stores db2 D'" using execute_all_effects [OF r1 st1 ok data] ex rs by blast
      obtain y db3 where cm: "Execute tid CommitStatement db2 = (y, db3)" by (cases "Execute tid CommitStatement db2")
      note c = commit_cases [OF D'(2) r2 cm]
      show ?thesis
      proof (cases y)
        case (Inl e)
        then show ?thesis using undone c bg Inr ex rs cm by (simp add: run_transaction_def bind_op_def)
      next
        case (Inr v)
        then show ?thesis using c bg \<open>b = Inr u\<close> ex rs cm D'(1) by (auto simp: run_transaction_def bind_op_def)
      qed
    qed
  qed
qed

lemma rolled_back_cases:
  assumes st: "stores db D" and s: "settled (db_engine db)" and data: "list_all data_statement stmts"
    and bg: "Execute tid BeginStatement db = (Inr u, db1)" and ex: "execute_all tid stmts db1 = (r, db2)"
    and rb: "Execute tid RollbackStatement db2 = (r', db')"
  shows "(\<forall>k p. on_disk (db_engine db) k = Some p \<longrightarrow> on_disk (db_engine db') k = Some p) \<and> same_objects db db' \<and>
    (all_sized (db_engine db') \<longrightarrow> stores db' D \<and> settled (db_engine db'))"
proof -
  obtain txn where r1: "running_db db tid txn {} db1" using begin_cases [OF st s bg] by auto
  have "tracked_db db tid txn db2" using execute_all_kept [OF r1 data, unfolded ex] stmt.thrown by (auto split: sum.splits)
  from rollback_cases [OF st s this rb] show ?thesis by blast
qed


text \<open>
  \<open>ROLLBACK\<close> undoes the whole transaction: whatever data statements were executed in it, and whether the last
  of them failed, the pages in the files are as before \<open>BEGIN\<close>, and the contents are, unless an allocation failed part-way.
\<close>

theorem transaction_rolls_back:
  assumes "stores db D" and "settled (db_engine db)" and "list_all data_statement stmts"
  shows "case Execute tid BeginStatement db of (Inl e, _) \<Rightarrow> True
    | (Inr _, db1) \<Rightarrow> (case execute_all tid stmts db1 of (r, db2) \<Rightarrow> (case Execute tid RollbackStatement db2 of (r', db') \<Rightarrow>
        (\<forall>k p. on_disk (db_engine db) k = Some p \<longrightarrow> on_disk (db_engine db') k = Some p) \<and>
        (if all_sized (db_engine db') then stores db' D \<and> settled (db_engine db') else True)))"
  using rolled_back_cases [OF assms] by (auto split: prod.splits sum.splits)

section \<open>Witnesses\<close>

definition small_transaction :: "Statement list" where
  "small_transaction = [Insert_stmt (small_insertion 6), Delete_stmt \<lparr>del_table_name = ''t'', del_where = []\<rparr>]"

lemma small_transaction_ok:
  "list_all data_statement small_transaction" "admissible_all (db_catalog clean_db) small_rows small_transaction"
  using clean_admissible [OF clean_stores] by (simp_all add: small_transaction_def data_statement_def)


end
