(* ===== verification/Histories.thy ===== *)
theory Histories
  imports Crash_Safety Schema_Changes Explicit_Transactions
begin

text \<open>
  What SQL can do to a database, from the empty directory on: schema changes, statements of their own, and transactions, one after
  the other, on any threads. Every database reached this way is consistent.
\<close>

section \<open>The empty database\<close>

definition empty_directory :: "nat \<Rightarrow> nat \<Rightarrow> directory" where
  "empty_directory cap log_cap = \<lparr>dir_metadata = None, dir_log = [], dir_objects = \<lambda>_. [], dir_capacity = cap, dir_log_capacity = log_cap\<rparr>"

definition first_db :: "nat \<Rightarrow> nat \<Rightarrow> database" where
  "first_db cap log_cap =
     \<lparr>db_catalog = empty_catalog, db_engine = TransactionManager_init (LogManager_open log_cap []), db_objects = Map.empty,
      db_files = \<lambda>_. [], db_capacity = cap\<rparr>"

lemma open_empty: "Database_open tid (empty_directory cap log_cap) = Inr (first_db cap log_cap)"
proof -
  have "wal_records [] = []" using wal_records_log_bytes [of "[]"] by (simp add: log_ok_def)
  then have "RecordsOnOpen (LogManager_open log_cap []) = []" by (simp add: RecordsOnOpen_records)
  then show ?thesis
    by (simp add: Database_open_def empty_directory_def first_db_def Catalog_open_def empty_catalog_def RunRecovery_def bind_op_def)
qed

lemma first_db_ok:
  assumes "cap < (2 ^ 32 - 40) * PAGE_SIZE"
  shows "stores (first_db cap log_cap) (\<lambda>_. [])" and "settled (db_engine (first_db cap log_cap))" and "fresh_ids_unused (first_db cap log_cap)"
proof -
  have p: "en_pools (db_engine (first_db cap log_cap)) = Map.empty" by (simp add: first_db_def TransactionManager_init_def)
  then have "pools_ok (db_engine (first_db cap log_cap))" by (simp add: pools_ok_def)
  then show "stores (first_db cap log_cap) (\<lambda>_. [])" "settled (db_engine (first_db cap log_cap))"
    using p empty_catalog_ok by (simp_all add: stores_def settled_def all_sized_def en_dirty_def first_db_def empty_catalog_def)
  show "fresh_ids_unused (first_db cap log_cap)" using assms p by (simp add: fresh_ids_unused_def unused_def first_db_def)
qed

section \<open>Primary keys\<close>

lemma effects_keys: "catalog_ok c \<Longrightarrow> keys_unique c D \<Longrightarrow> effects c D stmts rs D' \<Longrightarrow> keys_unique c D'"
  by (induction c D stmts rs D' rule: effects.induct) (auto dest: statement_keys)

lemma keys_unique_new_table:
  assumes "keys_unique c D" and "\<And>m. m \<noteq> n \<Longrightarrow> FindTable c' m = FindTable c m \<and> IndexesOnTable c' m = IndexesOnTable c m"
  shows "keys_unique c' (D(n := []))"
  using assms by (auto simp: keys_unique_def pk_of_indexes)

lemma keys_unique_new_index:
  assumes "keys_unique c D" and "cat_tables c' = cat_tables c" and "IndexesOnTable c' n = IndexesOnTable c n @ [idx]" and "\<not> idx_is_primary_key idx"
    and "\<And>m. m \<noteq> n \<Longrightarrow> IndexesOnTable c' m = IndexesOnTable c m"
  shows "keys_unique c' D"
proof -
  have "PrimaryKeyIndex c' m = PrimaryKeyIndex c m" for m
    using assms(3-5) by (cases "m = n") (simp_all add: pk_of_indexes find_append split: option.split)
  then show ?thesis using assms(1,2) by (simp add: keys_unique_def FindTable_def)
qed

section \<open>Histories\<close>

fun schema_admissible :: "catalog \<Rightarrow> (string \<Rightarrow> row list) \<Rightarrow> Statement \<Rightarrow> bool" where
  "schema_admissible c D (CreateTable_stmt s) =
     (plain_name (ct_table_name s) \<and> list_all plain_name (map col_name (ct_columns s)) \<and> unat (cat_next_object_id c) + 2 < 2 ^ 32)"
| "schema_admissible c D (CreateIndex_stmt s) =
     (plain_name (ci_index_name s) \<and> unat (cat_next_object_id c) + 2 < 2 ^ 32 \<and>
      (\<forall>t k. FindTable c (ci_table_name s) = Some t \<longrightarrow>
         length (filter (\<lambda>r. index_key t (new_index c s) (snd r) = k) (D (ci_table_name s))) \<le> kLeafMaxKeys))"
| "schema_admissible c D _ = False"

text \<open>
  Left out are schema changes that fail after the catalog has changed, and allocations that fail part-way. A transaction that is
  not committed ends with \<open>ROLLBACK\<close>, after any number of its statements.
\<close>

inductive history :: "database \<Rightarrow> bool" where
  history_open: "Database_open tid (empty_directory cap log_cap) = Inr db \<Longrightarrow> cap < (2 ^ 32 - 40) * PAGE_SIZE \<Longrightarrow> history db"
| history_schema: "history db \<Longrightarrow> \<forall>D. stores db D \<longrightarrow> schema_admissible (db_catalog db) D stmt \<Longrightarrow>
    Execute tid stmt db = (r, db') \<Longrightarrow> isl r \<longrightarrow> db' = db \<Longrightarrow> history db'"
| history_statement: "history db \<Longrightarrow> GetCurrentTransaction tid (db_engine db) = None \<Longrightarrow> data_statement stmt \<Longrightarrow>
    \<forall>D. stores db D \<longrightarrow> admissible (db_catalog db) D stmt \<Longrightarrow> Execute tid stmt db = (r, db') \<Longrightarrow> all_sized (db_engine db') \<Longrightarrow> history db'"
| history_commit: "history db \<Longrightarrow> GetCurrentTransaction tid (db_engine db) = None \<Longrightarrow> list_all data_statement stmts \<Longrightarrow>
    \<forall>D. stores db D \<longrightarrow> admissible_all (db_catalog db) D stmts \<Longrightarrow> run_transaction tid stmts CommitStatement db = (Inr rs, db') \<Longrightarrow> history db'"
| history_rollback: "history db \<Longrightarrow> list_all data_statement stmts \<Longrightarrow> Execute tid BeginStatement db = (Inr u, db1) \<Longrightarrow>
    execute_all tid stmts db1 = (r, db2) \<Longrightarrow> Execute tid RollbackStatement db2 = (r', db') \<Longrightarrow> all_sized (db_engine db') \<Longrightarrow> history db'"

lemma schema_kept:
  assumes c: "consistent db" and fr: "fresh_ids_unused db" and ok: "\<forall>D. stores db D \<longrightarrow> schema_admissible (db_catalog db) D stmt"
    and run: "Execute tid stmt db = (r, db')" and rej: "isl r \<longrightarrow> db' = db"
  shows "consistent db' \<and> fresh_ids_unused db'"
proof (cases r)
  case (Inl e)
  then show ?thesis using rej c fr by simp
next
  case (Inr res)
  obtain D where st: "stores db D" and u: "keys_unique (db_catalog db) D" and s: "settled (db_engine db)" using c by (auto simp: consistent_def)
  have adm: "schema_admissible (db_catalog db) D stmt" using ok st by blast
  then show ?thesis
  proof (cases stmt)
    case (CreateTable_stmt s')
    have v: "validate_table (db_catalog db) (ct_table_name s') (ct_columns s') (ct_primary_key_column s') = None"
      using run Inr rejected_ddl(1) by (cases "validate_table (db_catalog db) (ct_table_name s') (ct_columns s') (ct_primary_key_column s')")
        (auto simp: CreateTable_stmt Execute_ddl bind_op_def split: if_splits)
    have "stores db' (D(ct_table_name s' := [])) \<and> fresh_ids_unused db' \<and> settled (db_engine db') \<and>
        (\<forall>m. m \<noteq> ct_table_name s' \<longrightarrow> FindTable (db_catalog db') m = FindTable (db_catalog db) m \<and> IndexesOnTable (db_catalog db') m = IndexesOnTable (db_catalog db) m)"
      using create_table_ends [OF st fr _ _ _ v, of tid] adm s run Inr
      by (auto simp: CreateTable_stmt Execute_ddl ends_def bind_op_def split: if_splits prod.splits sum.splits)
    then show ?thesis using keys_unique_new_table [OF u, of "ct_table_name s'" "db_catalog db'"] by (auto simp: consistent_def)
  next
    case (CreateIndex_stmt s')
    have v: "validate_index (db_catalog db) (ci_index_name s') (ci_table_name s') (ci_column_name s') = None"
      using run Inr rejected_ddl(2) by (cases "validate_index (db_catalog db) (ci_index_name s') (ci_table_name s') (ci_column_name s')")
        (auto simp: CreateIndex_stmt Execute_ddl bind_op_def split: if_splits)
    have res: "stores db' D \<and> settled (db_engine db') \<and> fresh_ids_unused db' \<and> cat_tables (db_catalog db') = cat_tables (db_catalog db) \<and>
        IndexesOnTable (db_catalog db') (ci_table_name s') = IndexesOnTable (db_catalog db) (ci_table_name s') @ [new_index (db_catalog db) s'] \<and>
        (\<forall>n. n \<noteq> ci_table_name s' \<longrightarrow> IndexesOnTable (db_catalog db') n = IndexesOnTable (db_catalog db) n)"
      using create_index_ends [OF st s fr _ _ v, of tid] adm run Inr
      by (auto simp: CreateIndex_stmt Execute_ddl ends_def bind_op_def split: if_splits prod.splits sum.splits)
    then have "keys_unique (db_catalog db') D" by (intro keys_unique_new_index [OF u, of "db_catalog db'" "ci_table_name s'" "new_index (db_catalog db) s'"]) auto
    then show ?thesis using res by (auto simp: consistent_def)
  qed simp_all
qed

lemma history_kept: "history db \<Longrightarrow> consistent db \<and> fresh_ids_unused db"
proof (induction rule: history.induct)
  case (history_open tid cap log_cap db)
  then have "db = first_db cap log_cap" by (simp add: open_empty)
  moreover have "keys_unique (db_catalog db) (\<lambda>_. [])" by (simp add: keys_unique_def)
  ultimately show ?case using first_db_ok [OF history_open(2)] by (auto simp: consistent_def)
next
  case (history_schema db stmt tid r db')
  then show ?case using schema_kept [of db stmt tid r db'] by blast
next
  case (history_statement db tid stmt r db')
  then obtain D where st: "stores db D" and u: "keys_unique (db_catalog db) D" and s: "settled (db_engine db)" by (auto simp: consistent_def)
  have c: "catalog_ok (db_catalog db)" using st by (simp add: stores_def)
  have ex: "(case r of Inl e \<Rightarrow> stores db' D \<and> settled (db_engine db') | Inr res \<Rightarrow> settled (db_engine db') \<and> (\<exists>D'. statement_effect (db_catalog db) D stmt res D' \<and> stores db' D')) \<and> same_objects db db'"
    using Execute_cases [OF st s history_statement(2,3)] history_statement(4-6) st by (cases r) auto
  then have so: "same_objects db db'" by simp
  have "consistent db'" using ex statement_keys [OF c u] u so by (cases r) (auto simp: consistent_def same_objects_def)
  then show ?case using same_objects_fresh [OF so] history_statement by blast
next
  case (history_commit db tid stmts rs db')
  then obtain D where st: "stores db D" and u: "keys_unique (db_catalog db) D" and s: "settled (db_engine db)" by (auto simp: consistent_def)
  have c: "catalog_ok (db_catalog db)" using st by (simp add: stores_def)
  have so: "same_objects db db'" and res: "settled (db_engine db') \<and> (\<exists>D'. effects (db_catalog db) D stmts rs D' \<and> stores db' D')"
    using committed_cases [OF st s history_commit(2,3)] history_commit(4,5) st by auto
  have "consistent db'" using res effects_keys [OF c u] so by (auto simp: consistent_def same_objects_def)
  then show ?case using same_objects_fresh [OF so] history_commit.IH by blast
next
  case (history_rollback db stmts tid u db1 r db2 r' db')
  then obtain D where st: "stores db D" and u: "keys_unique (db_catalog db) D" and s: "settled (db_engine db)" by (auto simp: consistent_def)
  have so: "same_objects db db'" and "stores db' D \<and> settled (db_engine db')"
    using rolled_back_cases [OF st s history_rollback(2-5)] history_rollback(6) by simp_all
  then have "consistent db'" using u by (auto simp: consistent_def same_objects_def)
  then show ?case using same_objects_fresh [OF so] history_rollback.IH by blast
qed


section \<open>Witnesses\<close>

definition small_create :: CreateTableStatement where
  "small_create = \<lparr>ct_table_name = ''t'', ct_columns = [\<lparr>col_name = ''id'', col_type = ColumnType.kInteger\<rparr>], ct_primary_key_column = Some ''id''\<rparr>"

lemma small_create_ok:
  "plain_name (ct_table_name small_create)" "list_all plain_name (map col_name (ct_columns small_create))"
  "validate_table empty_catalog (ct_table_name small_create) (ct_columns small_create) (ct_primary_key_column small_create) = None"
  using plain_examples one_table_valid by (simp_all add: small_create_def)

lemma first_db_fields:
  "db_catalog (first_db cap log_cap) = empty_catalog" "HasActiveTransaction (db_engine (first_db cap log_cap)) = False" "db_capacity (first_db cap log_cap) = cap"
  "cat_fault empty_catalog = No_fault" "cat_next_object_id empty_catalog = 0"
  by (simp_all add: first_db_def HasActiveTransaction_def TransactionManager_init_def empty_catalog_def)


text \<open>The small database with no transaction open.\<close>

definition idle_db :: database where
  "idle_db = clean_db\<lparr>db_engine := (db_engine clean_db)\<lparr>en_active := Map.empty\<rparr>\<rparr>"

lemma idle_db_ok:
  "stores idle_db small_rows" "settled (db_engine idle_db)" "fresh_ids_unused idle_db" "db_catalog idle_db = one_table"
  "HasActiveTransaction (db_engine idle_db) = False" "db_capacity idle_db = 1000000"
proof -
  show s: "settled (db_engine idle_db)" using clean_settled by (simp add: idle_db_def settled_def pools_ok_def all_sized_def en_dirty_def)
  then have "extends clean_db idle_db" by (auto simp: extends_def settled_def idle_db_def object_pages_def en_has_def en_page_def)
  then show "stores idle_db small_rows" using clean_stores extends_there [of clean_db idle_db] s
    by (simp add: stores_holding holding_there settled_def idle_db_def)
  show "db_catalog idle_db = one_table" "HasActiveTransaction (db_engine idle_db) = False" by (simp_all add: idle_db_def clean_catalog HasActiveTransaction_def)
  have "unused idle_db oid" if "2 \<le> oid" for oid
  proof -
    have "oid \<noteq> 0" "oid \<noteq> 1" using that by (auto simp: word_le_nat_alt)
    then show ?thesis by (simp add: unused_def idle_db_def clean_db_def small_db_def small_engine_def flush_txn_def)
  qed
  then show "fresh_ids_unused idle_db" by (simp add: fresh_ids_unused_def \<open>db_catalog idle_db = one_table\<close> one_table_fields)
  show "db_capacity idle_db = 1000000" by (simp add: idle_db_def clean_db_def small_db_def)
qed

definition small_create_index :: CreateIndexStatement where
  "small_create_index = \<lparr>ci_index_name = ''i'', ci_table_name = ''t'', ci_column_name = ''id''\<rparr>"



end
