(* ===== verification/Result_Types.thy ===== *)
theory Result_Types
  imports Sql_Correctness
begin

text \<open>
  Types of answers. The planner knows the type of every selected column from the catalog alone; the rows that the executor
  returns have values of exactly these types, one per column name.
\<close>

fun sql_type :: "sql_value \<Rightarrow> ColumnType" where
  "sql_type (Int_value _) = ColumnType.kInteger"
| "sql_type (Text_value _) = ColumnType.kText"

definition literal_type :: "LiteralValue \<Rightarrow> ColumnType" where
  "literal_type v = sql_type (sql_value_of v)"

definition query_tables :: "catalog \<Rightarrow> SelectStatement \<Rightarrow> TableInfo list" where
  "query_tables c stmt =
     concat (map (\<lambda>n. case FindTable c n of None \<Rightarrow> [] | Some t \<Rightarrow> [t])
       (sel_from_table stmt # (case sel_join stmt of None \<Rightarrow> [] | Some j \<Rightarrow> [join_table_name j])))"

text \<open>The types of the columns a reference can mean; exactly one for a statement that passes the planner.\<close>

definition ref_types :: "TableInfo list \<Rightarrow> ColumnRef \<Rightarrow> ColumnType list" where
  "ref_types ts r =
     concat (map (\<lambda>t. if ref_table_name r = None \<or> ref_table_name r = Some (tab_name t)
                       then map col_type (filter (\<lambda>c. col_name c = ref_column_name r) (tab_columns t)) else []) ts)"

definition query_types :: "catalog \<Rightarrow> SelectStatement \<Rightarrow> ColumnType list" where
  "query_types c stmt =
     (if sel_star stmt then concat (map (\<lambda>t. map col_type (tab_columns t)) (query_tables c stmt))
      else map (\<lambda>r. hd (ref_types (query_tables c stmt) r)) (sel_list stmt))"

definition scope_fits :: "TableInfo list \<Rightarrow> scope \<Rightarrow> bool" where
  "scope_fits ts sc \<longleftrightarrow> list_all2 (\<lambda>t tr. fst tr = t \<and> row_fits (tab_columns t) (snd tr)) ts sc"

lemma fits_type: "value_fits c v \<Longrightarrow> literal_type v = col_type c"
  using fits_kind [of c v] by (cases "col_type c") (simp_all add: literal_type_def sql_value_of_def)

lemma row_types: "row_fits cs vals \<Longrightarrow> map literal_type vals = map col_type cs"
  by (induction cs vals rule: list_all2_induct) (simp_all add: fits_type)

lemma star_types: "scope_fits ts sc \<Longrightarrow> map literal_type (concat (map snd sc)) = concat (map (\<lambda>t. map col_type (tab_columns t)) ts)"
  unfolding scope_fits_def by (induction ts sc rule: list_all2_induct) (auto simp: row_types)

lemma column_types:
  "row_fits cs vals \<Longrightarrow> map literal_type (column_values cs vals n) = map col_type (filter (\<lambda>c. col_name c = n) cs)"
  by (induction cs vals rule: list_all2_induct) (simp_all add: fits_type)

lemma ref_value_types:
  "scope_fits ts sc \<Longrightarrow> map literal_type (concat (map (table_values r) sc)) = ref_types ts r"
  unfolding scope_fits_def
proof (induction ts sc rule: list_all2_induct)
  case (Cons t ts tr sc)
  then have "map literal_type (table_values r tr) = (if ref_table_name r = None \<or> ref_table_name r = Some (tab_name t)
      then map col_type (filter (\<lambda>c. col_name c = ref_column_name r) (tab_columns t)) else [])"
    using column_types [of "tab_columns t" "snd tr" "ref_column_name r"] by (simp add: table_values_def)
  with Cons.IH show ?case by (simp add: ref_types_def)
qed (simp add: ref_types_def)

lemma ref_value_type: "scope_fits ts sc \<Longrightarrow> ref_value sc r = Some v \<Longrightarrow> ref_types ts r = [sql_type v]"
  using ref_value_types [of ts sc r] by (auto simp: ref_value_def literal_type_def split: list.splits)

lemma output_types:
  assumes "scope_fits (query_tables c stmt) sc" and "\<not> sel_star stmt \<Longrightarrow> \<forall>r \<in> set (sel_list stmt). ref_value sc r \<noteq> None"
  shows "map sql_type (output_values stmt sc) = query_types c stmt"
proof (cases "sel_star stmt")
  case True
  then show ?thesis using star_types [OF assms(1)] by (simp add: query_types_def output_values_def literal_type_def [abs_def] comp_def)
next
  case False
  then have "sql_type (the (ref_value sc r)) = hd (ref_types (query_tables c stmt) r)" if "r \<in> set (sel_list stmt)" for r
    using that assms(2) ref_value_type [OF assms(1), of r] by auto
  with False show ?thesis by (simp add: query_types_def output_values_def)
qed

text \<open>What the planner guarantees of the selected columns.\<close>

lemma single_refs:
  assumes "list_all2 (\<lambda>r r'. plan_select_column t r = Inr r') refs refs'" and "table_ok t" and "row_fits (tab_columns t) vals" and "r \<in> set refs"
  shows "ref_value [(t, vals)] r \<noteq> None"
proof -
  obtain r' where "plan_select_column t r = Inr r'" using assms(1,4) by (auto simp: list_all2_conv_all_nth in_set_conv_nth)
  then obtain col where r: "ref_table_name r = None \<or> ref_table_name r = Some (tab_name t)" "FindColumn t (ref_column_name r) = Some col"
    by (auto simp: plan_select_column_def bind_sum_Inr RequireColumn_Inr split: if_splits)
  then have "resolves t vals (ref_column_name r) col" using assms(2,3) by (simp add: resolves_def)
  from resolvesD(3) [OF this] r(1) show ?thesis by (auto simp: ref_value_def table_values_def)
qed

lemma join_refs:
  assumes "list_all2 (\<lambda>r r'. plan_join_column o_t i_t r = Inr r') refs refs'" and "tab_name o_t \<noteq> tab_name i_t"
    and "table_ok o_t" "row_fits (tab_columns o_t) ro" and "table_ok i_t" "row_fits (tab_columns i_t) ri" and "r \<in> set refs"
  shows "ref_value [(o_t, ro), (i_t, ri)] r \<noteq> None"
proof -
  obtain r' where "plan_join_column o_t i_t r = Inr r'" using assms(1,7) by (auto simp: list_all2_conv_all_nth in_set_conv_nth)
  from join_output_value [OF this assms(2-6)] show ?thesis by auto
qed

lemma answer_types:
  assumes st: "stores db D" and plan: "PlanSelect (db_catalog db) stmt = Inr plan" and sc: "sc \<in> set (from_rows (db_catalog db) D stmt)"
  shows "map sql_type (output_values stmt sc) = query_types (db_catalog db) stmt"
proof -
  let ?c = "db_catalog db"
  have c: "catalog_ok ?c" using st by (simp add: stores_def)
  have fits: "row_fits (tab_columns t) (snd r)" if "FindTable ?c n = Some t" "r \<in> set (D n)" for n t r
    using stores_table(5) [OF st that(1)] that(2) by (simp add: heap_stores_def)
  show ?thesis
  proof (cases "sel_join stmt")
    case None
    from plan None show ?thesis
    proof (rule PlanSelect_single)
      fix t access assume t: "FindTable ?c (sel_from_table stmt) = Some t"
        and sel: "if sel_star stmt then sp_select_list plan = [] else list_all2 (\<lambda>r r'. plan_select_column t r = Inr r') (sel_list stmt) (sp_select_list plan)"
      from sc t None obtain r where r: "sc = [(t, snd r)]" "r \<in> set (D (sel_from_table stmt))" by (auto simp: from_rows_def)
      show ?thesis
        by (rule output_types) (use single_refs [of t] sel r t None fits [OF t] stores_table(3) [OF st t] in \<open>auto simp: query_tables_def scope_fits_def\<close>)
    qed
  next
    case (Some join)
    obtain o_t where o_t: "FindTable ?c (sel_from_table stmt) = Some o_t" using plan by (auto simp: PlanSelect_def split: option.splits)
    then have pj: "plan_join ?c stmt o_t join = Inr plan" using plan Some by (simp add: PlanSelect_def)
    then obtain i_t where i_t: "FindTable ?c (join_table_name join) = Some i_t" by (auto simp: plan_join_def split: option.splits)
    from sc o_t i_t Some obtain r q where r: "sc = [(o_t, snd r), (i_t, snd q)]" "r \<in> set (D (sel_from_table stmt))" "q \<in> set (D (join_table_name join))"
      by (auto simp: from_rows_def)
    from pj i_t have "tab_name o_t \<noteq> tab_name i_t" and sel: "\<not> sel_star stmt \<Longrightarrow> list_all2 (\<lambda>r r'. plan_join_column o_t i_t r = Inr r') (sel_list stmt) (sp_select_list plan)"
      by (auto elim!: plan_join_Inr)
    then show ?thesis
      by (intro output_types) (use join_refs [of o_t i_t] r o_t i_t Some fits [OF o_t] fits [OF i_t] stores_table(3) [OF st o_t] stores_table(3) [OF st i_t]
        in \<open>auto simp: query_tables_def scope_fits_def\<close>)
  qed
qed

text \<open>
  C11. Answers are well typed: every row that a \<open>SELECT\<close> returns has one value per column name, each of the type that the
  catalog declares for the column.
\<close>

theorem ExecuteSelect_typed:
  assumes st: "stores db D" and plan: "PlanSelect (db_catalog db) stmt = Inr plan"
  shows "case ExecuteSelect tid stmt db of
      (Inl e, _) \<Rightarrow> page_failure e
    | (Inr res, _) \<Rightarrow> length (res_column_names res) = length (query_types (db_catalog db) stmt) \<and>
        list_all (\<lambda>row. map literal_type row = query_types (db_catalog db) stmt) (res_rows res)"
proof -
  let ?c = "db_catalog db"
  have "map literal_type row = query_types ?c stmt" if ans: "select_answer ?c D stmt res" and row: "row \<in> set (res_rows res)" for res row
  proof -
    have "map sql_value_of row \<in># query_result ?c D stmt" using ans row by (metis image_eqI set_image_mset set_mset_mset)
    then obtain sc where "sc \<in> set (from_rows ?c D stmt)" "map sql_value_of row = output_values stmt sc" by (auto simp: query_result_def)
    with answer_types [OF st plan this(1)] show ?thesis by (metis (no_types, lifting) comp_apply list.map_comp literal_type_def map_eq_conv)
  qed
  moreover have "length (query_names ?c stmt) = length (query_types ?c stmt)"
    by (auto simp: query_names_def query_types_def query_tables_def split: option.splits)
  ultimately show ?thesis using ExecuteSelect_ends [OF st plan, of tid] by (auto simp: ends_def list_all_iff split: prod.splits sum.splits)
qed

theorem ExecuteSelect_typed_witness:
  "case ExecuteSelect 0 small_query small_db of
     (Inl e, _) \<Rightarrow> page_failure e
   | (Inr res, _) \<Rightarrow> length (res_column_names res) = 1 \<and> list_all (\<lambda>row. map literal_type row = [ColumnType.kInteger]) (res_rows res)"
proof -
  obtain plan where plan: "PlanSelect (db_catalog small_db) small_query = Inr plan"
  proof -
    have "\<not> isl (PlanSelect one_table small_query)" by code_simp
    with that show thesis by (cases "PlanSelect one_table small_query") (auto simp: small_db_def)
  qed
  have "query_types (db_catalog small_db) small_query = [ColumnType.kInteger]"
    by (simp add: query_types_def query_tables_def small_query_def small_contents small_catalog)
  then show ?thesis using ExecuteSelect_typed [OF small_stores plan, of 0] by (auto split: prod.splits sum.splits)
qed

end
